(* ===== verification/ES_Prelude.thy ===== *)
theory ES_Prelude
  imports Main "HOL-Library.Word" "HOL-Library.Sublist" "HOL-Library.List_Lexorder"
    "HOL-Library.Char_ord" "HOL-Library.Product_Lexorder" "HOL-Library.Multiset"
begin

text \<open>
  Shared vocabulary of the development: the Go types the model uses (unsigned counters,
  instants and durations, panics), the pieces of the Go standard library the sources call
  (\<open>hash/fnv\<close>, \<open>time.Time.Sub\<close>, \<open>slices.BinarySearchFunc\<close>, \<open>slices.Insert\<close>,
  \<open>slices.IndexFunc\<close>, \<open>strings.HasPrefix\<close>), the collections of rewrite rules the components
  extend, and generic lemmas about lists that several components need.

  Conventions. A Go \<open>uint64\<close> that only counts up from zero by one (stream versions, global
  positions, claim epochs, request numbers) is a \<open>nat\<close>: it cannot reach \<open>2 ^ 64\<close>. Where the
  code subtracts from or converts such a number the width is written out. A \<open>time.Time\<close> is an
  \<open>int\<close>, its nanoseconds since the zero instant, so \<open>IsZero\<close> is equality with \<open>0\<close>; a
  \<open>time.Duration\<close> is an \<open>int\<close> as well. A call of \<open>time.Now\<close> is an argument of the operation.
\<close>

unbundle bit_operations_syntax

named_theorems result_simps \<comment> \<open>projections of the result records of the operations\<close>
named_theorems inv_defs \<comment> \<open>the definitions of the components' invariants\<close>
named_theorems op_defs \<comment> \<open>the definitions of the state-changing operations\<close>

type_synonym uint64 = nat
type_synonym uuid = nat
type_synonym gotime = int
type_synonym duration = int

text \<open>A call that may panic: \<open>Inl\<close> carries the panic's message.\<close>

type_synonym 'a panics = "string + 'a"

definition uuid_Nil :: uuid where
  "uuid_Nil = 0"

definition max_int64 :: int where
  "max_int64 = 2 ^ 63 - 1"

definition max_uint64 :: nat where
  "max_uint64 = 2 ^ 64 - 1"

section \<open>Standard library functions the sources call\<close>

text \<open>\<open>time.Time.Sub\<close> saturates at the ends of the \<open>int64\<close> range of a duration.\<close>

definition time_Sub :: "gotime \<Rightarrow> gotime \<Rightarrow> duration" where
  "time_Sub t u = max (- (2 ^ 63)) (min max_int64 (t - u))"

text \<open>\<open>uint64\<close> subtraction of one, which wraps around at zero.\<close>

definition uint64_pred :: "uint64 \<Rightarrow> uint64" where
  "uint64_pred n = (n + max_uint64) mod 2 ^ 64"

text \<open>\<open>fnv.New32a\<close>: the 32-bit FNV-1a hash, over the bytes of a string.\<close>

definition fnv32a_step :: "char \<Rightarrow> 32 word \<Rightarrow> 32 word" where
  "fnv32a_step c h = (h XOR of_char c) * 16777619"

definition fnv32a :: "string \<Rightarrow> 32 word" where
  "fnv32a s = fold fnv32a_step s 2166136261"

text \<open>\<open>slices.IndexFunc\<close>: the first index whose element satisfies the predicate.\<close>

fun index_func :: "('a \<Rightarrow> bool) \<Rightarrow> 'a list \<Rightarrow> nat option" where
  "index_func p [] = None"
| "index_func p (x # xs) = (if p x then Some 0 else map_option Suc (index_func p xs))"

text \<open>
  \<open>slices.BinarySearchFunc\<close> over a slice sorted by a key: the loop halves \<open>[i, j)\<close> until it is
  empty, keeping the invariant that everything before \<open>i\<close> is below the target.
\<close>

function bsearch_loop :: "('a \<Rightarrow> nat) \<Rightarrow> 'a list \<Rightarrow> nat \<Rightarrow> nat \<Rightarrow> nat \<Rightarrow> nat" where
  "bsearch_loop key xs t i j =
     (if i < j then
        let h = (i + j) div 2 in
        if key (xs ! h) < t then bsearch_loop key xs t (h + 1) j
        else bsearch_loop key xs t i h
      else i)"
  by pat_completeness auto
termination
  by (relation "measure (\<lambda>(key, xs, t, i, j). j - i)") auto

declare bsearch_loop.simps [simp del]

definition bsearch :: "('a \<Rightarrow> nat) \<Rightarrow> 'a list \<Rightarrow> nat \<Rightarrow> nat" where
  "bsearch key xs t = bsearch_loop key xs t 0 (length xs)"

text \<open>\<open>slices.Insert\<close> at an index within the slice.\<close>

definition slice_insert :: "'a list \<Rightarrow> nat \<Rightarrow> 'a \<Rightarrow> 'a list" where
  "slice_insert xs i x = take i xs @ x # drop i xs"

section \<open>Generic lemmas\<close>

lemma index_func_None [simp]: "index_func p xs = None \<longleftrightarrow> (\<forall>x \<in> set xs. \<not> p x)"
  by (induction xs) auto

lemma index_func_Some:
  "index_func p xs = Some i \<Longrightarrow> i < length xs \<and> p (xs ! i) \<and> (\<forall>j < i. \<not> p (xs ! j))"
proof (induction xs arbitrary: i)
  case Nil
  then show ?case by simp
next
  case (Cons x xs)
  then show ?case
    by (auto split: if_splits simp: less_Suc_eq_0_disj nth_Cons' dest: Cons.IH)
qed

lemma bsearch_loop_spec:
  assumes "sorted (map key xs)" "i \<le> j" "j \<le> length xs"
    and "\<forall>k < i. key (xs ! k) < t" and "\<forall>k. j \<le> k \<and> k < length xs \<longrightarrow> t \<le> key (xs ! k)"
  shows "bsearch_loop key xs t i j \<le> length xs
    \<and> (\<forall>k < bsearch_loop key xs t i j. key (xs ! k) < t)
    \<and> (\<forall>k. bsearch_loop key xs t i j \<le> k \<and> k < length xs \<longrightarrow> t \<le> key (xs ! k))"
  using assms
proof (induction key xs t i j rule: bsearch_loop.induct)
  case (1 key xs t i j)
  have mono: "a \<le> b \<Longrightarrow> b < length xs \<Longrightarrow> key (xs ! a) \<le> key (xs ! b)" for a b
    using "1.prems"(1) sorted_nth_mono [of "map key xs" a b] by simp
  define h where "h = (i + j) div 2"
  show ?case
  proof (cases "i < j")
    case False
    then have "bsearch_loop key xs t i j = i" by (simp add: bsearch_loop.simps [of key xs t i j])
    with False "1.prems" show ?thesis by simp
  next
    case True
    then have h: "i \<le> h" "h < j" by (auto simp: h_def)
    show ?thesis
    proof (cases "key (xs ! h) < t")
      case below: True
      have "\<forall>k < h + 1. key (xs ! k) < t"
        using below h mono "1.prems"(3) by (metis Suc_eq_plus1 le_less_trans less_Suc_eq_le less_le_trans)
      moreover have "bsearch_loop key xs t i j = bsearch_loop key xs t (h + 1) j"
        using True below by (simp add: bsearch_loop.simps [of key xs t i j] h_def)
      ultimately show ?thesis
        using "1.IH"(1) [OF True h_def below "1.prems"(1) _ "1.prems"(3) _ "1.prems"(5)] h by simp
    next
      case above: False
      have "\<forall>k. h \<le> k \<and> k < length xs \<longrightarrow> t \<le> key (xs ! k)"
        using above mono by (meson leD leI le_trans)
      moreover have "bsearch_loop key xs t i j = bsearch_loop key xs t i h"
        using True above by (simp add: bsearch_loop.simps [of key xs t i j] h_def)
      ultimately show ?thesis
        using "1.IH"(2) [OF True h_def above "1.prems"(1) h(1) _ "1.prems"(4)] h "1.prems"(3) by simp
    qed
  qed
qed

lemma bsearch_spec:
  assumes "sorted (map key xs)"
  shows "bsearch key xs t \<le> length xs" "\<forall>x \<in> set (take (bsearch key xs t) xs). key x < t"
    "\<forall>x \<in> set (drop (bsearch key xs t) xs). t \<le> key x"
  using bsearch_loop_spec [of key xs 0 "length xs" t] assms
  by (auto simp: bsearch_def set_conv_nth)

lemma sorted_slice_insert:
  assumes "sorted (map key xs)"
  shows "sorted (map key (slice_insert xs (bsearch key xs (key x)) x))"
proof -
  let ?i = "bsearch key xs (key x)"
  have "sorted (map key (take ?i xs @ drop ?i xs))" using assms by simp
  then have "sorted (map key (take ?i xs))" "sorted (map key (drop ?i xs))"
    by (simp_all only: map_append sorted_append)
  then show ?thesis
    using bsearch_spec [OF assms, of "key x"]
    by (fastforce simp: slice_insert_def sorted_append)
qed

lemma set_slice_insert [simp]: "set (slice_insert xs i x) = insert x (set xs)"
  by (simp add: slice_insert_def) (metis append_take_drop_id set_append)

lemma mset_slice_insert: "mset (slice_insert xs i x) = add_mset x (mset xs)"
  by (simp add: slice_insert_def) (metis append_take_drop_id mset_append)

lemma length_slice_insert [simp]: "length (slice_insert xs i x) = Suc (length xs)"
  by (metis mset_slice_insert size_add_mset size_mset)

lemma uint64_pred_Suc: "Suc n < 2 ^ 64 \<Longrightarrow> uint64_pred (Suc n) = n"
  by (simp add: uint64_pred_def max_uint64_def)

lemma uint64_pred_0: "uint64_pred 0 = max_uint64"
  by (simp add: uint64_pred_def max_uint64_def)

lemma time_Sub_exact:
  "\<bar>t - u\<bar> \<le> max_int64 \<Longrightarrow> time_Sub t u = t - u"
  by (auto simp: time_Sub_def max_int64_def)

lemma time_Sub_le_iff: "d < max_int64 \<Longrightarrow> - (2 ^ 63) \<le> d \<Longrightarrow> time_Sub t u \<le> d \<longleftrightarrow> t - u \<le> d"
  by (auto simp: time_Sub_def max_int64_def)

lemma strict_sorted_map_upt: "map f xs = [m..<n] \<Longrightarrow> sorted_wrt (<) (map f xs)"
  by simp

lemma filter_upper_upt:
  "map f xs = [Suc b..<Suc (b + length xs)] \<Longrightarrow> filter (\<lambda>x. f x \<le> n) xs = take (n - b) xs"
proof (induction xs arbitrary: b)
  case (Cons x xs)
  then have x: "f x = Suc b" and xs: "map f xs = [Suc (Suc b)..<Suc (Suc b + length xs)]"
    by (simp_all add: upt_conv_Cons del: upt_Suc)
  have "filter (\<lambda>x. f x \<le> n) xs = take (n - Suc b) xs" by (rule Cons.IH [OF xs])
  moreover have "n - b = Suc (n - Suc b)" if "Suc b \<le> n" using that by simp
  ultimately show ?case using x by (cases "Suc b \<le> n") auto
qed simp

lemma filter_lower_upt:
  "map f xs = [Suc b..<Suc (b + length xs)] \<Longrightarrow> filter (\<lambda>x. a < f x) xs = drop (a - b) xs"
proof (induction xs arbitrary: b)
  case (Cons x xs)
  then have x: "f x = Suc b" and xs: "map f xs = [Suc (Suc b)..<Suc (Suc b + length xs)]"
    by (simp_all add: upt_conv_Cons del: upt_Suc)
  have d: "filter (\<lambda>x. a < f x) xs = drop (a - Suc b) xs" by (rule Cons.IH [OF xs])
  show ?case
  proof (cases "a - b")
    case 0
    then show ?thesis using x d by simp
  next
    case (Suc k)
    then have "a - Suc b = k" "\<not> a < f x" using x by auto
    then show ?thesis using d Suc by simp
  qed
qed simp

text \<open>In a list numbered from one, the elements numbered in \<open>(a, a + k]\<close> are a slice.\<close>

lemma filter_range_slice:
  assumes "map f xs = [1..<Suc (length xs)]"
  shows "filter (\<lambda>x. a < f x \<and> f x \<le> a + k) xs = take k (drop a xs)"
proof -
  have "filter (\<lambda>x. a < f x \<and> f x \<le> a + k) xs = filter (\<lambda>x. f x \<le> a + k) (filter (\<lambda>x. a < f x) xs)"
    by (simp add: conj_commute)
  also have "filter (\<lambda>x. a < f x) xs = drop a xs"
    using filter_lower_upt [of f xs 0 a] assms by simp
  also have "filter (\<lambda>x. f x \<le> a + k) (drop a xs) = take k (drop a xs)"
  proof (cases "a \<le> length xs")
    case True
    have "map f (drop a xs) = drop a [1..<Suc (length xs)]" using assms by (simp add: drop_map [symmetric])
    also have "\<dots> = [Suc a..<Suc (a + length (drop a xs))]" using True by (simp add: drop_upt del: upt_Suc)
    finally show ?thesis using filter_upper_upt [of f "drop a xs" a "a + k"] by simp
  qed simp
  finally show ?thesis .
qed

lemma prefix_filter: "prefix xs ys \<Longrightarrow> prefix (filter p xs) (filter p ys)"
  by (auto simp: prefix_def)

lemma foldl_append_last: "foldl f s (xs @ ys) = foldl f (foldl f s xs) ys"
  by simp

end
