(* ===== verification/ES_Errors.thy ===== *)
theory ES_Errors
  imports ES_Prelude
begin

text \<open>
  The errors and revisions of the root package (\<open>errors.go\<close>, \<open>revision.go\<close>, the sentinel of
  \<open>correlation_loader.go\<close>) and the sentinels of \<open>projection/store.go\<close>, \<open>projection/runner.go\<close>
  and \<open>projection/instances.go\<close>. An error value is a tree: \<open>fmt.Errorf\<close> with \<open>%w\<close> and
  \<open>errors.Join\<close> are inner nodes, and \<open>errors.Is\<close> and \<open>errors.As\<close> search it in pre-order.
  An \<open>Errorf\<close> node keeps the text its format puts before the wrapped error.
\<close>

section \<open>revision.go\<close>

text \<open>
  The implementations of \<open>StreamState\<close>. The interface is open, so a caller may pass one of its
  own: \<open>OtherState\<close>, with what its \<open>ToRawInt64\<close> returns.
\<close>

datatype stream_state = Any | NoStream | StreamExists | Revision uint64 | OtherState int

definition ToRawInt64 :: "stream_state \<Rightarrow> int panics" where
  "ToRawInt64 s = (case s of
       Any \<Rightarrow> Inr (- 1)
     | NoStream \<Rightarrow> Inr 0
     | StreamExists \<Rightarrow> Inr (- 2)
     | Revision r \<Rightarrow>
         if int r > max_int64 then Inl ''eventsourcing: Revision overflows int64''
         else Inr (int r)
     | OtherState n \<Rightarrow> Inr n)"

section \<open>errors.go\<close>

datatype sentinel =
    ErrStreamNotFound | ErrStreamExists | ErrInvalidEventBatch | ErrHandlerNotFound
  | ErrInvalidRevision | ErrHandlerNotRegistered | ErrDuplicateHandler | ErrHandlerPanicked
  | ErrCommandBusClosed | ErrEventNotRegistered | ErrEmptyCorrelationID
  | ErrClaimLost | ErrSegmentsChanged | ErrUnknownProjection | ErrNoReset
  | ErrEventTypesChanged | ErrStreamParked | ErrNoDeadLetterStore | ErrShed
  | IoEOF | ContextCanceled | ContextDeadlineExceeded

text \<open>
  \<open>SkippedEventError\<close> carries the event's type, the type its handler processes and, when the
  context carries an envelope, that envelope's stream and version. \<open>HandlerError\<close> is the
  projection runner's \<open>handlerError\<close>, with the position of its event; \<open>DeferredError\<close> belongs to
  the automation package. \<open>Permanent\<close> is the marker of \<open>backoff.Permanent\<close>.
\<close>

datatype go_error =
    Sentinel sentinel
  | StreamRevisionConflictError string "stream_state option" "stream_state option"
  | SkippedEventError string string "(string \<times> uint64) option"
  | BusinessRuleViolationError "go_error option"
  | HandlerError uint64 go_error
  | DeferredError gotime
  | Permanent go_error
  | Errorf string "go_error list"
  | JoinError "go_error list"
  | NewError string

definition NewBusinessRuleViolation :: "go_error option \<Rightarrow> go_error option" where
  "NewBusinessRuleViolation err =
     (case err of None \<Rightarrow> None | Some e \<Rightarrow> Some (BusinessRuleViolationError (Some e)))"

definition Cause :: "go_error \<Rightarrow> go_error option" where
  "Cause e = (case e of BusinessRuleViolationError c \<Rightarrow> c | _ \<Rightarrow> None)"

text \<open>What \<open>Unwrap\<close> gives for each kind of error.\<close>

fun unwrap :: "go_error \<Rightarrow> go_error list" where
  "unwrap (BusinessRuleViolationError (Some e)) = [e]"
| "unwrap (HandlerError _ e) = [e]"
| "unwrap (Permanent e) = [e]"
| "unwrap (Errorf _ es) = es"
| "unwrap (JoinError es) = es"
| "unwrap _ = []"

lemma size_unwrap: "size_list size (unwrap e) \<le> size e"
  by (cases e rule: unwrap.cases) auto

text \<open>The pre-order search that \<open>errors.Is\<close> and \<open>errors.As\<close> share.\<close>

function errors_find :: "(go_error \<Rightarrow> 'a option) \<Rightarrow> go_error \<Rightarrow> 'a option"
  and errors_find_list :: "(go_error \<Rightarrow> 'a option) \<Rightarrow> go_error list \<Rightarrow> 'a option" where
  "errors_find p e =
     (case p e of Some x \<Rightarrow> Some x | None \<Rightarrow> errors_find_list p (unwrap e))"
| "errors_find_list p [] = None"
| "errors_find_list p (e # es) =
     (case errors_find p e of Some x \<Rightarrow> Some x | None \<Rightarrow> errors_find_list p es)"
  by pat_completeness auto
termination
  by (relation "measure (\<lambda>x. case x of Inl (_, e) \<Rightarrow> Suc (2 * size e) | Inr (_, es) \<Rightarrow> 2 * size_list size es)")
    (auto simp: less_Suc_eq_le size_unwrap)

declare errors_find.simps [simp del]

definition errors_Is :: "go_error \<Rightarrow> sentinel \<Rightarrow> bool" where
  "errors_Is e t = (errors_find (\<lambda>x. if x = Sentinel t then Some () else None) e \<noteq> None)"

text \<open>
  \<open>errors.As\<close> with the error types the sources look for.
\<close>

definition As_conflict :: "go_error \<Rightarrow> (string \<times> stream_state option \<times> stream_state option) option" where
  "As_conflict e = errors_find (\<lambda>x. case x of
     StreamRevisionConflictError s ex ac \<Rightarrow> Some (s, ex, ac) | _ \<Rightarrow> None) e"

definition As_skipped :: "go_error \<Rightarrow> bool" where
  "As_skipped e = (errors_find (\<lambda>x. case x of SkippedEventError _ _ _ \<Rightarrow> Some () | _ \<Rightarrow> None) e \<noteq> None)"

definition As_handler :: "go_error \<Rightarrow> go_error option" where
  "As_handler e = errors_find (\<lambda>x. case x of HandlerError _ c \<Rightarrow> Some c | _ \<Rightarrow> None) e"

definition As_deferred :: "go_error \<Rightarrow> gotime option" where
  "As_deferred e = errors_find (\<lambda>x. case x of DeferredError t \<Rightarrow> Some t | _ \<Rightarrow> None) e"

definition As_permanent :: "go_error \<Rightarrow> go_error option" where
  "As_permanent e = errors_find (\<lambda>x. case x of Permanent c \<Rightarrow> Some c | _ \<Rightarrow> None) e"

definition As_business_rule :: "go_error \<Rightarrow> go_error option option" where
  "As_business_rule e =
     errors_find (\<lambda>x. case x of BusinessRuleViolationError c \<Rightarrow> Some c | _ \<Rightarrow> None) e"

section \<open>Lemmas\<close>

lemma errors_find_hit: "p e = Some x \<Longrightarrow> errors_find p e = Some x"
  by (simp add: errors_find.simps)

lemma errors_find_Errorf:
  "p (Errorf m [e]) = None \<Longrightarrow> errors_find p (Errorf m [e]) = errors_find p e"
  by (simp add: errors_find.simps [of p "Errorf m [e]"] split: option.splits)

lemma errors_find_Permanent:
  "p (Permanent e) = None \<Longrightarrow> errors_find p (Permanent e) = errors_find p e"
  by (simp add: errors_find.simps [of p "Permanent e"] split: option.splits)

lemma errors_find_HandlerError:
  "p (HandlerError n e) = None \<Longrightarrow> errors_find p (HandlerError n e) = errors_find p e"
  by (simp add: errors_find.simps [of p "HandlerError n e"] split: option.splits)

lemma errors_find_leaf: "unwrap e = [] \<Longrightarrow> errors_find p e = p e"
  by (simp add: errors_find.simps split: option.splits)

lemma errors_find_list_None:
  "errors_find_list p es = None \<longleftrightarrow> (\<forall>e \<in> set es. errors_find p e = None)"
  by (induction es) (auto split: option.splits)

lemma errors_Is_Sentinel [simp]: "errors_Is (Sentinel s) t \<longleftrightarrow> s = t"
  by (simp add: errors_Is_def errors_find_leaf)

lemma errors_Is_Errorf [simp]: "errors_Is (Errorf m [e]) t \<longleftrightarrow> errors_Is e t"
  by (simp add: errors_Is_def errors_find_Errorf)

lemma errors_Is_Errorf_Nil [simp]: "\<not> errors_Is (Errorf m []) t"
  by (simp add: errors_Is_def errors_find_leaf)

lemma errors_Is_Permanent [simp]: "errors_Is (Permanent e) t \<longleftrightarrow> errors_Is e t"
  by (simp add: errors_Is_def errors_find_Permanent)

lemma errors_Is_HandlerError [simp]: "errors_Is (HandlerError n e) t \<longleftrightarrow> errors_Is e t"
  by (simp add: errors_Is_def errors_find_HandlerError)

lemma errors_Is_Join [simp]: "errors_Is (JoinError es) t \<longleftrightarrow> (\<exists>e \<in> set es. errors_Is e t)"
  by (auto simp: errors_Is_def errors_find.simps [of _ "JoinError es"] errors_find_list_None)

lemma errors_Is_conflict [simp]: "\<not> errors_Is (StreamRevisionConflictError s a b) t"
  by (simp add: errors_Is_def errors_find_leaf)

lemma As_conflict_simps [simp]:
  "As_conflict (Errorf m [e]) = As_conflict e"
  "As_conflict (Permanent e) = As_conflict e"
  "As_conflict (StreamRevisionConflictError s a b) = Some (s, a, b)"
  "As_conflict (Sentinel t) = None"
  "As_conflict (NewError m) = None"
  "As_conflict (Errorf m []) = None"
  by (simp_all add: As_conflict_def errors_find_Errorf errors_find_Permanent errors_find_hit
      errors_find_leaf)

lemma As_permanent_simps [simp]:
  "As_permanent (Permanent e) = Some e"
  "As_permanent (Errorf m [e]) = As_permanent e"
  "As_permanent (StreamRevisionConflictError s a b) = None"
  by (simp_all add: As_permanent_def errors_find_Errorf errors_find_hit errors_find_leaf)

lemma As_handler_simps [simp]:
  "As_handler (HandlerError n e) = Some e"
  "As_handler (Sentinel t) = None"
  by (simp_all add: As_handler_def errors_find_hit errors_find_leaf)

lemma As_business_rule_Errorf [simp]:
  "As_business_rule (Errorf m [e]) = As_business_rule e"
  "As_business_rule (BusinessRuleViolationError c) = Some c"
  by (simp_all add: As_business_rule_def errors_find_Errorf errors_find_hit)

text \<open>
  The raw encoding of a stream state identifies it, except that \<open>NoStream\<close> and \<open>Revision 0\<close>
  share the value \<open>0\<close>.
\<close>

lemma ToRawInt64_range:
  assumes "ToRawInt64 s = Inr n" and "\<And>k. s \<noteq> OtherState k"
  shows "- 2 \<le> n \<and> n \<le> max_int64"
  using assms by (cases s) (auto simp: ToRawInt64_def max_int64_def split: if_splits)

lemma ToRawInt64_inj:
  assumes "ToRawInt64 s = Inr n" "ToRawInt64 t = Inr n"
    and "\<And>k. s \<noteq> OtherState k" "\<And>k. t \<noteq> OtherState k"
  shows "s = t \<or> {s, t} = {NoStream, Revision 0}"
  using assms
  by (cases s; cases t) (auto simp: ToRawInt64_def split: if_splits)

end
