(* ===== verification/ES_Event.thy ===== *)
theory ES_Event
  imports ES_Errors
begin

text \<open>
  The data of the root package: \<open>Event\<close> and \<open>Envelope\<close> (\<open>event.go\<close>), \<open>AppendResult\<close>
  (\<open>eventstore.go\<close>) and the values a \<open>context.Context\<close> carries (\<open>context.go\<close>,
  \<open>projection/context.go\<close>).

  An event is a value of the type \<open>'e\<close> of the application, which implements the interface
  \<open>Event\<close>; its methods, its dynamic type and its JSON encoding are code of the application and
  so an argument of the model, the record \<open>event_impl\<close>. Metadata values (\<open>any\<close>) have the type
  \<open>'v\<close>; a nil map is \<open>None\<close>.
\<close>

section \<open>Records\<close>

type_synonym 'v metadata = "(string \<rightharpoonup> 'v) option"

record ('e, 'v) envelope =
  EventID :: uuid
  StreamID :: string
  Metadata :: "'v metadata"
  CorrelationID :: string
  CausationID :: string
  Event :: "'e option"
  Version :: uint64
  GlobalPosition :: uint64
  OccurredAt :: gotime

text \<open>
  What an application supplies for its events: \<open>AggregateID()\<close>, \<open>EventType()\<close>, the name and kind
  of the dynamic type, and \<open>json.Marshal\<close> and \<open>json.Unmarshal\<close> at its event types and at
  metadata maps. \<open>UnmarshalEvent data ev\<close> decodes into the instance \<open>ev\<close>.
\<close>

record ('e, 'v) event_impl =
  AggregateID :: "'e \<Rightarrow> string"
  EventType :: "'e \<Rightarrow> string"
  TypeName :: "'e \<Rightarrow> string"
  IsPointer :: "'e \<Rightarrow> bool"
  MarshalEvent :: "'e \<Rightarrow> go_error + string"
  UnmarshalEvent :: "string \<Rightarrow> 'e \<Rightarrow> go_error + 'e"
  MarshalMetadata :: "(string \<rightharpoonup> 'v) \<Rightarrow> go_error + string"
  UnmarshalMetadata :: "string \<Rightarrow> go_error + 'v metadata"
  UuidString :: "uuid \<Rightarrow> string"

record append_result =
  ar_Successful :: bool
  ar_StreamID :: string
  ar_NextExpectedVersion :: uint64
  ar_GlobalPosition :: uint64

text \<open>The zero \<open>AppendResult\<close>, and the one a failing operation returns for a stream.\<close>

definition zero_result :: append_result where
  "zero_result = \<lparr>ar_Successful = False, ar_StreamID = [], ar_NextExpectedVersion = 0, ar_GlobalPosition = 0\<rparr>"

definition failed_result :: "string \<Rightarrow> append_result" where
  "failed_result sid = zero_result\<lparr>ar_StreamID := sid\<rparr>"

section \<open>context.go\<close>

text \<open>The values of a context, one per key; a key that was never set is \<open>None\<close>.\<close>

record ('e, 'v) ctx_values =
  streamIDKey :: "string option"
  aggregateIDKey :: "string option"
  eventIDKey :: "uuid option"
  versionKey :: "uint64 option"
  globalPositionKey :: "uint64 option"
  occurredAtKey :: "gotime option"
  metadataKey :: "'v metadata option"
  correlationIDKey :: "string option"
  causationIDKey :: "string option"
  envelopeKey :: "('e, 'v) envelope option"
  replayUntilKey :: "uint64 option"

definition Background :: "('e, 'v) ctx_values" where
  "Background = \<lparr>streamIDKey = None, aggregateIDKey = None, eventIDKey = None, versionKey = None,
     globalPositionKey = None, occurredAtKey = None, metadataKey = None, correlationIDKey = None,
     causationIDKey = None, envelopeKey = None, replayUntilKey = None\<rparr>"

definition WithCorrelationID :: "('e, 'v) ctx_values \<Rightarrow> string \<Rightarrow> ('e, 'v) ctx_values" where
  "WithCorrelationID ctx cid = ctx\<lparr>correlationIDKey := Some cid\<rparr>"

definition WithCausationID :: "('e, 'v) ctx_values \<Rightarrow> string \<Rightarrow> ('e, 'v) ctx_values" where
  "WithCausationID ctx cid = ctx\<lparr>causationIDKey := Some cid\<rparr>"

definition WithEnvelope ::
    "('e, 'v) event_impl \<Rightarrow> ('e, 'v) ctx_values \<Rightarrow> ('e, 'v) envelope \<Rightarrow> ('e, 'v) ctx_values" where
  "WithEnvelope impl ctx env =
     (let aggregateID = (case Event env of None \<Rightarrow> [] | Some ev \<Rightarrow> AggregateID impl ev);
          ctx = ctx\<lparr>streamIDKey := Some (StreamID env), aggregateIDKey := Some aggregateID,
                    eventIDKey := Some (EventID env), versionKey := Some (Version env),
                    globalPositionKey := Some (GlobalPosition env),
                    occurredAtKey := Some (OccurredAt env), metadataKey := Some (Metadata env),
                    envelopeKey := Some env\<rparr>;
          eventID = (if EventID env \<noteq> uuid_Nil then UuidString impl (EventID env) else []);
          correlationID = (if CorrelationID env = [] then eventID else CorrelationID env)
      in WithCausationID (WithCorrelationID ctx correlationID) eventID)"

definition envelopeFromContext :: "('e, 'v) ctx_values \<Rightarrow> ('e, 'v) envelope option" where
  "envelopeFromContext ctx = envelopeKey ctx"

definition AggregateIDFromContext :: "('e, 'v) ctx_values \<Rightarrow> string" where
  "AggregateIDFromContext ctx = (case aggregateIDKey ctx of None \<Rightarrow> [] | Some s \<Rightarrow> s)"

definition StreamIDFromContext :: "('e, 'v) ctx_values \<Rightarrow> string" where
  "StreamIDFromContext ctx = (case streamIDKey ctx of None \<Rightarrow> [] | Some s \<Rightarrow> s)"

definition EventIDFromContext :: "('e, 'v) ctx_values \<Rightarrow> uuid" where
  "EventIDFromContext ctx = (case eventIDKey ctx of None \<Rightarrow> uuid_Nil | Some u \<Rightarrow> u)"

definition VersionFromContext :: "('e, 'v) ctx_values \<Rightarrow> uint64" where
  "VersionFromContext ctx = (case versionKey ctx of None \<Rightarrow> 0 | Some n \<Rightarrow> n)"

definition GlobalPositionFromContext :: "('e, 'v) ctx_values \<Rightarrow> uint64" where
  "GlobalPositionFromContext ctx = (case globalPositionKey ctx of None \<Rightarrow> 0 | Some n \<Rightarrow> n)"

definition OccurredAtFromContext :: "('e, 'v) ctx_values \<Rightarrow> gotime" where
  "OccurredAtFromContext ctx = (case occurredAtKey ctx of None \<Rightarrow> 0 | Some t \<Rightarrow> t)"

definition MetadataFromContext :: "('e, 'v) ctx_values \<Rightarrow> 'v metadata" where
  "MetadataFromContext ctx = (case metadataKey ctx of None \<Rightarrow> None | Some m \<Rightarrow> m)"

definition CorrelationIDFromContext :: "('e, 'v) ctx_values \<Rightarrow> string" where
  "CorrelationIDFromContext ctx = (case correlationIDKey ctx of None \<Rightarrow> [] | Some s \<Rightarrow> s)"

definition CausationIDFromContext :: "('e, 'v) ctx_values \<Rightarrow> string" where
  "CausationIDFromContext ctx = (case causationIDKey ctx of None \<Rightarrow> [] | Some s \<Rightarrow> s)"

section \<open>projection/context.go\<close>

definition withEnvelope ::
    "('e, 'v) event_impl \<Rightarrow> ('e, 'v) ctx_values \<Rightarrow> ('e, 'v) envelope \<Rightarrow> uint64 \<Rightarrow> ('e, 'v) ctx_values" where
  "withEnvelope impl ctx env replayUntil =
     WithEnvelope impl (ctx\<lparr>replayUntilKey := Some replayUntil\<rparr>) env"

definition IsReplaying :: "('e, 'v) ctx_values \<Rightarrow> bool" where
  "IsReplaying ctx = (case replayUntilKey ctx of None \<Rightarrow> False
     | Some ru \<Rightarrow> GlobalPositionFromContext ctx \<le> ru)"

section \<open>Lemmas\<close>

lemmas from_context_defs = envelopeFromContext_def AggregateIDFromContext_def
  StreamIDFromContext_def EventIDFromContext_def VersionFromContext_def
  GlobalPositionFromContext_def OccurredAtFromContext_def MetadataFromContext_def
  CorrelationIDFromContext_def CausationIDFromContext_def

lemmas with_context_defs = WithEnvelope_def WithCorrelationID_def WithCausationID_def

lemma failed_result_simps [simp]:
  "\<not> ar_Successful (failed_result sid)" "ar_StreamID (failed_result sid) = sid"
  "\<not> ar_Successful zero_result"
  by (simp_all add: failed_result_def zero_result_def)

lemma From_Background:
  "CorrelationIDFromContext Background = []" "CausationIDFromContext Background = []"
  "\<not> IsReplaying Background"
  by (simp_all add: Background_def from_context_defs IsReplaying_def)

lemma CorrelationID_WithEnvelope [simp]:
  "CorrelationIDFromContext (WithEnvelope impl ctx env) =
     (if CorrelationID env \<noteq> [] then CorrelationID env
      else if EventID env \<noteq> uuid_Nil then UuidString impl (EventID env) else [])"
  by (simp add: with_context_defs from_context_defs Let_def)

lemma CausationID_WithEnvelope [simp]:
  "CausationIDFromContext (WithEnvelope impl ctx env) =
     (if EventID env \<noteq> uuid_Nil then UuidString impl (EventID env) else [])"
  by (simp add: with_context_defs from_context_defs Let_def)

text \<open>
  Every accessor of \<open>context.go\<close> reads back, under a context made by \<open>WithEnvelope\<close>, what the
  envelope carries; the correlation falls back to the event's own ID, and the causation is always
  that ID.
\<close>

theorem WithEnvelope_roundtrip:
  "StreamIDFromContext (WithEnvelope impl ctx env) = StreamID env
   \<and> EventIDFromContext (WithEnvelope impl ctx env) = EventID env
   \<and> VersionFromContext (WithEnvelope impl ctx env) = Version env
   \<and> GlobalPositionFromContext (WithEnvelope impl ctx env) = GlobalPosition env
   \<and> OccurredAtFromContext (WithEnvelope impl ctx env) = OccurredAt env
   \<and> MetadataFromContext (WithEnvelope impl ctx env) = Metadata env
   \<and> envelopeFromContext (WithEnvelope impl ctx env) = Some env
   \<and> AggregateIDFromContext (WithEnvelope impl ctx env) =
       (case Event env of None \<Rightarrow> [] | Some ev \<Rightarrow> AggregateID impl ev)
   \<and> CausationIDFromContext (WithEnvelope impl ctx env) =
       (if EventID env = uuid_Nil then [] else UuidString impl (EventID env))
   \<and> CorrelationIDFromContext (WithEnvelope impl ctx env) =
       (if CorrelationID env = [] then CausationIDFromContext (WithEnvelope impl ctx env)
        else CorrelationID env)"
  by (simp add: with_context_defs from_context_defs Let_def)

lemma IsReplaying_withEnvelope:
  "IsReplaying (withEnvelope impl ctx env ru) \<longleftrightarrow> GlobalPosition env \<le> ru"
  by (simp add: IsReplaying_def withEnvelope_def with_context_defs from_context_defs Let_def)

end
