(* ===== verification/ES_Registry.thy ===== *)
theory ES_Registry
  imports ES_Event
begin

text \<open>
  The event registry (\<open>event_registry.go\<close>) and the encoding of events and metadata
  (\<open>event_encoding.go\<close>). The two package-level maps are the record \<open>registry\<close>. A factory is
  modelled by the instance it makes (\<open>None\<close> for nil): every call makes an equal, fresh one. A
  nil factory is \<open>None\<close> one level up. Registration panics on a wiring mistake (\<open>Inl\<close>).

  The invariant \<open>registry_inv\<close> ties the two maps together: a type's list holds exactly the names
  whose factory makes that type, each once.
\<close>

section \<open>event_registry.go\<close>

record 'e registry =
  factories :: "string \<rightharpoonup> 'e option"
  typeToNames :: "string \<Rightarrow> string list"

definition empty_registry :: "'e registry" where
  "empty_registry = \<lparr>factories = (\<lambda>_. None), typeToNames = (\<lambda>_. [])\<rparr>"

text \<open>\<open>eventTypeKey\<close>: the name of the event's type with one pointer stripped, \<open>"<nil>"\<close> for nil.\<close>

definition eventTypeKey :: "('e, 'v) event_impl \<Rightarrow> 'e option \<Rightarrow> string" where
  "eventTypeKey impl ev = (case ev of None \<Rightarrow> ''<nil>'' | Some e \<Rightarrow> TypeName impl e)"

definition registerEventName ::
    "('e, 'v) event_impl \<Rightarrow> 'e registry \<Rightarrow> string \<Rightarrow> 'e option option \<Rightarrow> 'e registry panics" where
  "registerEventName impl reg name fn =
     (case fn of None \<Rightarrow> Inl ''cannot register nil factory''
      | Some made \<Rightarrow>
          if name = [] then Inl ''cannot register factory for empty name''
          else if factories reg name \<noteq> None then Inl (''event already registered: '' @ name)
          else (case made of
              None \<Rightarrow> Inl (''factory returned nil for event: '' @ name)
            | Some ev \<Rightarrow>
                if \<not> IsPointer impl ev then Inl (''factory for event '' @ name @ '' returns a value, not a pointer'')
                else let key = eventTypeKey impl (Some ev) in
                  Inr (reg\<lparr>factories := (factories reg)(name \<mapsto> made),
                           typeToNames := (typeToNames reg)(key := typeToNames reg key @ [name])\<rparr>)))"

definition RegisterEventByType ::
    "('e, 'v) event_impl \<Rightarrow> 'e registry \<Rightarrow> 'e option option \<Rightarrow> 'e registry panics" where
  "RegisterEventByType impl reg fn =
     (case fn of None \<Rightarrow> Inl ''cannot register nil factory''
      | Some None \<Rightarrow> Inl ''factory returned nil''
      | Some (Some ev) \<Rightarrow> registerEventName impl reg (EventType impl ev) fn)"

definition RegisterEventByName ::
    "('e, 'v) event_impl \<Rightarrow> 'e registry \<Rightarrow> string \<Rightarrow> 'e option option \<Rightarrow> 'e registry panics" where
  "RegisterEventByName impl reg name fn = registerEventName impl reg name fn"

text \<open>\<open>RegisterEvent\<close> registers the factory \<open>new(T)\<close>; \<open>zero\<close> is that fresh instance.\<close>

definition RegisterEvent :: "('e, 'v) event_impl \<Rightarrow> 'e registry \<Rightarrow> 'e \<Rightarrow> 'e registry panics" where
  "RegisterEvent impl reg zero = RegisterEventByType impl reg (Some (Some zero))"

definition NewEventByName :: "'e registry \<Rightarrow> string \<Rightarrow> go_error + 'e" where
  "NewEventByName reg name =
     (case factories reg name of
        None \<Rightarrow> Inl (Errorf name [Sentinel ErrEventNotRegistered])
      | Some None \<Rightarrow> Inl (Errorf (''factory returned nil for event: '' @ name) [])
      | Some (Some ev) \<Rightarrow> Inr ev)"

definition EventNamesFor :: "('e, 'v) event_impl \<Rightarrow> 'e registry \<Rightarrow> 'e option \<Rightarrow> string list" where
  "EventNamesFor impl reg ev = typeToNames reg (eventTypeKey impl ev)"

definition eventNamesForKey :: "'e registry \<Rightarrow> string \<Rightarrow> string list" where
  "eventNamesForKey reg key = typeToNames reg key"

section \<open>event_encoding.go\<close>

definition EncodeEvent :: "('e, 'v) event_impl \<Rightarrow> 'e registry \<Rightarrow> 'e option \<Rightarrow> go_error + string" where
  "EncodeEvent impl reg event =
     (case event of None \<Rightarrow> Inl (Errorf ''encode event: nil event'' [])
      | Some ev \<Rightarrow>
          let name = EventType impl ev in
          if name \<notin> set (EventNamesFor impl reg event)
          then Inl (Errorf (''encode event '' @ name) [Sentinel ErrEventNotRegistered])
          else (case MarshalEvent impl ev of
              Inl err \<Rightarrow> Inl (Errorf (''encode event '' @ name) [err])
            | Inr data \<Rightarrow> Inr data))"

definition DecodeEvent :: "('e, 'v) event_impl \<Rightarrow> 'e registry \<Rightarrow> string \<Rightarrow> string \<Rightarrow> go_error + 'e" where
  "DecodeEvent impl reg name data =
     (case NewEventByName reg name of
        Inl err \<Rightarrow> Inl (Errorf (''decode event '' @ name) [err])
      | Inr ev \<Rightarrow> (case UnmarshalEvent impl data ev of
            Inl err \<Rightarrow> Inl (Errorf (''decode event '' @ name) [err])
          | Inr ev' \<Rightarrow> Inr ev'))"

definition EncodeMetadata :: "('e, 'v) event_impl \<Rightarrow> 'v metadata \<Rightarrow> go_error + string" where
  "EncodeMetadata impl md =
     (case MarshalMetadata impl (case md of None \<Rightarrow> Map.empty | Some m \<Rightarrow> m) of
        Inl err \<Rightarrow> Inl (Errorf ''encode metadata'' [err])
      | Inr data \<Rightarrow> Inr data)"

definition DecodeMetadata :: "('e, 'v) event_impl \<Rightarrow> string \<Rightarrow> go_error + (string \<rightharpoonup> 'v)" where
  "DecodeMetadata impl data =
     (if data = [] then Inr Map.empty
      else (case UnmarshalMetadata impl data of
          Inl err \<Rightarrow> Inl (Errorf ''decode metadata'' [err])
        | Inr None \<Rightarrow> Inr Map.empty
        | Inr (Some m) \<Rightarrow> Inr m))"

section \<open>The registry invariant\<close>

definition registry_inv :: "('e, 'v) event_impl \<Rightarrow> 'e registry \<Rightarrow> bool" where
  "registry_inv impl reg \<longleftrightarrow>
     (\<forall>key. distinct (typeToNames reg key))
     \<and> (\<forall>name. factories reg name \<noteq> Some None)
     \<and> (\<forall>key name. name \<in> set (typeToNames reg key) \<longleftrightarrow>
          (\<exists>ev. factories reg name = Some (Some ev) \<and> IsPointer impl ev \<and> TypeName impl ev = key))"

text \<open>
  What the stores rely on of JSON: an event that encodes decodes, into a fresh instance of its
  type, to an equal event; metadata that encodes decodes to an equal map; and an encoding error is no
  revision conflict.
\<close>

definition json_ok :: "('e, 'v) event_impl \<Rightarrow> bool" where
  "json_ok impl \<longleftrightarrow>
     (\<forall>ev zero data. MarshalEvent impl ev = Inr data \<and> TypeName impl zero = TypeName impl ev
        \<and> IsPointer impl zero \<longrightarrow> UnmarshalEvent impl data zero = Inr ev)
     \<and> (\<forall>m data. MarshalMetadata impl m = Inr data \<longrightarrow> data \<noteq> [] \<and> UnmarshalMetadata impl data = Inr (Some m))
     \<and> (\<forall>ev err. MarshalEvent impl ev = Inl err \<longrightarrow> As_conflict err = None)
     \<and> (\<forall>m err. MarshalMetadata impl m = Inl err \<longrightarrow> As_conflict err = None)"

lemmas registry_op_defs = registerEventName_def RegisterEventByType_def RegisterEventByName_def
  RegisterEvent_def eventTypeKey_def

lemma registry_inv_empty: "registry_inv impl empty_registry"
  by (simp add: registry_inv_def empty_registry_def)

lemma registerEventName_InrE:
  assumes "registerEventName impl reg name fn = Inr reg'"
  obtains ev where "fn = Some (Some ev)" "name \<noteq> []" "factories reg name = None" "IsPointer impl ev"
    "factories reg' = (factories reg)(name \<mapsto> Some ev)"
    "typeToNames reg' = (typeToNames reg)(TypeName impl ev := typeToNames reg (TypeName impl ev) @ [name])"
  using assms
  by (auto simp: registerEventName_def eventTypeKey_def Let_def split: option.splits if_splits)

lemma registry_inv_registerEventName:
  assumes inv: "registry_inv impl reg" and reg': "registerEventName impl reg name fn = Inr reg'"
  shows "registry_inv impl reg'"
  using reg'
proof (rule registerEventName_InrE)
  fix ev
  assume fresh: "factories reg name = None" and ptr: "IsPointer impl ev"
    and f': "factories reg' = (factories reg)(name \<mapsto> Some ev)"
    and t': "typeToNames reg' =
      (typeToNames reg)(TypeName impl ev := typeToNames reg (TypeName impl ev) @ [name])"
  have "name \<notin> set (typeToNames reg key)" for key
    using inv fresh by (auto simp: registry_inv_def)
  then show ?thesis
    using inv ptr by (auto simp: registry_inv_def f' t' fresh)
qed

lemma RegisterEventByType_registers:
  "RegisterEventByType impl reg fn = Inr reg' \<Longrightarrow>
     \<exists>ev. fn = Some (Some ev) \<and> registerEventName impl reg (EventType impl ev) fn = Inr reg'"
  by (auto simp: RegisterEventByType_def split: option.splits)

lemma registered_names_resolve:
  assumes "registry_inv impl reg" and "name \<in> set (EventNamesFor impl reg (Some ev))"
  shows "\<exists>zero. NewEventByName reg name = Inr zero \<and> IsPointer impl zero \<and> TypeName impl zero = TypeName impl ev"
  using assms by (auto simp: registry_inv_def EventNamesFor_def eventTypeKey_def NewEventByName_def)

lemma EncodeEvent_InrD:
  assumes "EncodeEvent impl reg event = Inr data"
  shows "\<exists>ev. event = Some ev \<and> EventType impl ev \<in> set (EventNamesFor impl reg event)
           \<and> MarshalEvent impl ev = Inr data"
  using assms by (auto simp: EncodeEvent_def Let_def split: option.splits if_splits sum.splits)

lemma EncodeMetadata_roundtrip:
  "json_ok impl \<Longrightarrow> EncodeMetadata impl md = Inr data \<Longrightarrow>
     DecodeMetadata impl data = Inr (case md of None \<Rightarrow> Map.empty | Some m \<Rightarrow> m)"
  by (auto simp: EncodeMetadata_def DecodeMetadata_def json_ok_def split: sum.splits option.splits)

lemma encode_decode:
  assumes "registry_inv impl reg" "json_ok impl" and enc: "EncodeEvent impl reg event = Inr data"
  shows "\<exists>ev. event = Some ev \<and> DecodeEvent impl reg (EventType impl ev) data = Inr ev"
proof -
  obtain ev where ev: "event = Some ev" "EventType impl ev \<in> set (EventNamesFor impl reg (Some ev))"
      "MarshalEvent impl ev = Inr data"
    using EncodeEvent_InrD [OF enc] by auto
  obtain zero where "NewEventByName reg (EventType impl ev) = Inr zero" "IsPointer impl zero"
      "TypeName impl zero = TypeName impl ev"
    using registered_names_resolve [OF assms(1) ev(2)] by blast
  then show ?thesis
    using assms(2) ev by (auto simp: DecodeEvent_def json_ok_def)
qed

section \<open>An instance\<close>

text \<open>
  A concrete application for the witnesses: its events are strings, of one registered type, its
  encoding is the string itself, and it encodes the empty metadata and the metadata of a command.
\<close>

definition demo_metadata :: "string \<rightharpoonup> unit" where
  "demo_metadata = [''command_type'' \<mapsto> (), ''command_id'' \<mapsto> ()]"

definition demo_impl :: "(string, unit) event_impl" where
  "demo_impl = \<lparr>AggregateID = (\<lambda>ev. ev), EventType = (\<lambda>_. ''Noted''), TypeName = (\<lambda>_. ''Noted''),
     IsPointer = (\<lambda>_. True), MarshalEvent = Inr, UnmarshalEvent = (\<lambda>data _. Inr data),
     MarshalMetadata = (\<lambda>m. if m = Map.empty then Inr ''{}'' else if m = demo_metadata then Inr ''{.}''
       else Inl (NewError ''json'')),
     UnmarshalMetadata = (\<lambda>data. if data = ''{}'' then Inr (Some Map.empty)
       else if data = ''{.}'' then Inr (Some demo_metadata) else Inl (NewError ''json'')),
     UuidString = (\<lambda>u. replicate u CHR ''u'')\<rparr>"

definition demo_reg :: "string registry" where
  "demo_reg = \<lparr>factories = [''Noted'' \<mapsto> Some []], typeToNames = (\<lambda>_. [])(''Noted'' := [''Noted''])\<rparr>"

lemma demo_impl_simps [simp]:
  "AggregateID demo_impl ev = ev" "EventType demo_impl ev = ''Noted''" "TypeName demo_impl ev = ''Noted''"
  "IsPointer demo_impl ev" "MarshalEvent demo_impl ev = Inr ev" "UnmarshalEvent demo_impl data ev = Inr data"
  "MarshalMetadata demo_impl Map.empty = Inr ''{}''" "UnmarshalMetadata demo_impl ''{}'' = Inr (Some Map.empty)"
  "UuidString demo_impl u = replicate u CHR ''u''"
  by (simp_all add: demo_impl_def)

lemma demo_json_ok [simp]: "json_ok demo_impl"
  by (auto simp: json_ok_def demo_impl_def split: if_splits)

lemma demo_registry_inv [simp]: "registry_inv demo_impl demo_reg"
  by (auto simp: registry_inv_def demo_reg_def)

lemma demo_registered: "RegisterEvent demo_impl empty_registry [] = Inr demo_reg"
  by (simp add: registry_op_defs empty_registry_def demo_reg_def)

lemma demo_codec [simp]:
  "EncodeEvent demo_impl demo_reg (Some ev) = Inr ev"
  "DecodeEvent demo_impl demo_reg ''Noted'' data = Inr data"
  "EncodeMetadata demo_impl None = Inr ''{}''" "DecodeMetadata demo_impl ''{}'' = Inr Map.empty"
  "EncodeMetadata demo_impl (Some demo_metadata) = Inr ''{.}''"
  "DecodeMetadata demo_impl ''{.}'' = Inr demo_metadata"
  by (simp_all add: demo_impl_def demo_metadata_def EncodeEvent_def DecodeEvent_def EncodeMetadata_def DecodeMetadata_def
      EventNamesFor_def NewEventByName_def eventTypeKey_def demo_reg_def)

section \<open>Properties\<close>

text \<open>
  Registration keeps the two registry maps consistent; afterwards the name resolves to an
  instance of the registered type, is listed among that type's names, and every other name resolves
  as before.
\<close>

theorem register_resolves:
  assumes "registry_inv impl reg" and "registerEventName impl reg name (Some (Some ev)) = Inr reg'"
  shows "registry_inv impl reg' \<and> NewEventByName reg' name = Inr ev
    \<and> name \<in> set (EventNamesFor impl reg' (Some ev))
    \<and> (\<forall>other. NewEventByName reg' other = (if other = name then Inr ev else NewEventByName reg other))"
  using registry_inv_registerEventName [OF assms] assms(2)
  by (auto elim!: registerEventName_InrE simp: NewEventByName_def EventNamesFor_def eventTypeKey_def)

theorem register_resolves_witness:
  "NewEventByName demo_reg ''Noted'' = Inr [] \<and> ''Noted'' \<in> set (EventNamesFor demo_impl demo_reg (Some []))"
proof -
  have "registerEventName demo_impl empty_registry ''Noted'' (Some (Some [])) = Inr demo_reg"
    using demo_registered by (simp add: RegisterEvent_def RegisterEventByType_def)
  from register_resolves [OF registry_inv_empty this] show ?thesis by blast
qed

text \<open>
  An event that \<open>EncodeEvent\<close> accepts is one that \<open>DecodeEvent\<close>, under the name it was saved,
  reads back as an equal event; and it accepts only an event whose concrete type is registered under
  its \<open>EventType\<close>, reporting \<open>ErrEventNotRegistered\<close> otherwise.
\<close>

theorem encode_decode_roundtrip:
  assumes "registry_inv impl reg" "json_ok impl"
  shows "(EncodeEvent impl reg (Some ev) = Inr data \<longrightarrow>
           DecodeEvent impl reg (EventType impl ev) data = Inr ev)
      \<and> (EventType impl ev \<notin> set (EventNamesFor impl reg (Some ev)) \<longrightarrow>
           (\<exists>err. EncodeEvent impl reg (Some ev) = Inl err \<and> errors_Is err ErrEventNotRegistered))"
  using encode_decode [OF assms, of "Some ev" data]
  by (auto simp: EncodeEvent_def Let_def)

theorem encode_decode_roundtrip_witness:
  "EncodeEvent demo_impl demo_reg (Some ''a'') = Inr ''a''
   \<and> DecodeEvent demo_impl demo_reg (EventType demo_impl ''a'') ''a'' = Inr ''a''"
  using encode_decode_roundtrip [OF demo_registry_inv demo_json_ok, of "''a''" "''a''"] by simp

end
