(* ===== verification/ES_Iterator.thy ===== *)
theory ES_Iterator
  imports ES_Errors
begin

text \<open>
  The pull iterator of \<open>iter.go\<close>. The closures \<open>next\<close> and \<open>close\<close> act on the state \<open>'s\<close> of the
  resource behind the iterator. The context is what its \<open>Err\<close> answers at each call of \<open>Next\<close>
  (\<open>it_ctx\<close>, indexed by the call), so that it may be cancelled at any moment of an iteration. The
  zero value of an item is \<open>None\<close>. \<open>NewIteratorFunc\<close> refuses a nil context, so the uninitialised
  iterator whose \<open>Next\<close> panics is not a value of the model.

  Consuming an iterator (\<open>Values\<close>, \<open>All\<close>) is a loop that ends when \<open>Next\<close> returns false, which is
  up to the \<open>next\<close> closure; the model runs it with fuel, and the lemmas say how much is enough.
\<close>

section \<open>iter.go\<close>

record ('s, 'a) iterator =
  it_src :: 's
  it_ctx :: "nat \<Rightarrow> go_error option"
  it_tick :: nat
  it_next :: "'s \<Rightarrow> (go_error + 'a) \<times> 's"
  it_close :: "('s \<Rightarrow> go_error option \<times> 's) option"
  it_current :: "'a option"
  it_err :: "go_error option"
  it_closeErr :: "go_error option"
  it_done :: bool

definition NewIteratorFunc :: "(nat \<Rightarrow> go_error option) \<Rightarrow> ('s \<Rightarrow> (go_error + 'a) \<times> 's)
    \<Rightarrow> ('s \<Rightarrow> go_error option \<times> 's) option \<Rightarrow> 's \<Rightarrow> ('s, 'a) iterator" where
  "NewIteratorFunc ctx next close s =
     \<lparr>it_src = s, it_ctx = ctx, it_tick = 0, it_next = next, it_close = close, it_current = None,
      it_err = None, it_closeErr = None, it_done = False\<rparr>"

text \<open>The closure of \<open>NewSliceIterator\<close>: its state is the index \<open>i\<close> into the slice.\<close>

definition slice_next :: "'a list \<Rightarrow> nat \<Rightarrow> (go_error + 'a) \<times> nat" where
  "slice_next s i = (if i \<ge> length s then (Inl (Sentinel IoEOF), i) else (Inr (s ! i), i + 1))"

definition NewSliceIterator :: "(nat \<Rightarrow> go_error option) \<Rightarrow> 'a list \<Rightarrow> (nat, 'a) iterator" where
  "NewSliceIterator ctx s = NewIteratorFunc ctx (slice_next s) None 0"

definition Close :: "('s, 'a) iterator \<Rightarrow> go_error option \<times> ('s, 'a) iterator" where
  "Close it =
     (if it_done it then (it_closeErr it, it)
      else let it = it\<lparr>it_done := True, it_current := None\<rparr> in
        (case it_close it of
           None \<Rightarrow> (it_closeErr it, it)
         | Some close \<Rightarrow> (case close (it_src it) of
             (e, s) \<Rightarrow> (e, it\<lparr>it_src := s, it_closeErr := e\<rparr>))))"

definition finish :: "('s, 'a) iterator \<Rightarrow> go_error option \<Rightarrow> ('s, 'a) iterator" where
  "finish it err = snd (Close (it\<lparr>it_err := err\<rparr>))"

definition Next :: "('s, 'a) iterator \<Rightarrow> bool \<times> ('s, 'a) iterator" where
  "Next it =
     (if it_done it then (False, it)
      else let cerr = it_ctx it (it_tick it); it = it\<lparr>it_tick := Suc (it_tick it)\<rparr> in
        (case cerr of
           Some err \<Rightarrow> (False, finish it (Some err))
         | None \<Rightarrow> (case it_next it (it_src it) of
             (Inl err, s) \<Rightarrow>
               (False, finish (it\<lparr>it_src := s\<rparr>) (if errors_Is err IoEOF then None else Some err))
           | (Inr v, s) \<Rightarrow> (True, it\<lparr>it_src := s, it_current := Some v\<rparr>))))"

definition Value :: "('s, 'a) iterator \<Rightarrow> 'a option" where
  "Value it = it_current it"

definition Err :: "('s, 'a) iterator \<Rightarrow> go_error option" where
  "Err it =
     (case it_closeErr it of
        None \<Rightarrow> it_err it
      | Some ce \<Rightarrow> (case it_err it of None \<Rightarrow> Some ce | Some e \<Rightarrow> Some (JoinError [e, ce])))"

text \<open>
  \<open>Wrap\<close>: the source iterator is part of the state of the new one, beside the state of \<open>done\<close>.
\<close>

definition Wrap :: "('s, 'a) iterator \<Rightarrow> (('s, 'a) iterator \<Rightarrow> (go_error + 'b) \<times> ('s, 'a) iterator)
    \<Rightarrow> (go_error option \<Rightarrow> 'd \<Rightarrow> 'd) option \<Rightarrow> 'd \<Rightarrow> (('s, 'a) iterator \<times> 'd, 'b) iterator" where
  "Wrap src next done d =
     NewIteratorFunc (\<lambda>k. it_ctx src (it_tick src + k))
       (\<lambda>(src, d). case next src of (r, src') \<Rightarrow> (r, (src', d)))
       (Some (\<lambda>(src, d). let src = snd (Close src); err = Err src in
          (err, (src, case done of None \<Rightarrow> d | Some f \<Rightarrow> f err d))))
       (src, d)"

text \<open>
  \<open>Values\<close>: the loop a \<open>range\<close> runs. \<open>yield\<close> consumes an item and says whether to go on; the
  deferred \<open>Close\<close> runs on every exit. \<open>None\<close> is running out of fuel.
\<close>

fun Values :: "nat \<Rightarrow> ('b \<Rightarrow> 'a option \<Rightarrow> bool \<times> 'b) \<Rightarrow> 'b \<Rightarrow> ('s, 'a) iterator
    \<Rightarrow> ('b \<times> ('s, 'a) iterator) option" where
  "Values 0 yield st it = None"
| "Values (Suc fuel) yield st it =
     (case Next it of
        (False, it) \<Rightarrow> Some (st, snd (Close it))
      | (True, it) \<Rightarrow> (case yield st (Value it) of
          (False, st) \<Rightarrow> Some (st, snd (Close it))
        | (True, st) \<Rightarrow> Values fuel yield st it))"

definition All :: "nat \<Rightarrow> ('s, 'a) iterator \<Rightarrow> ('a option list \<times> go_error option) option" where
  "All fuel it =
     map_option (\<lambda>(items, it). (items, Err it)) (Values fuel (\<lambda>xs v. (True, xs @ [v])) [] it)"

section \<open>Lemmas\<close>

lemmas iterator_defs = Next_def finish_def Close_def Value_def Err_def NewIteratorFunc_def

lemma Close_done [simp]: "it_done (snd (Close it))"
  by (auto simp: Close_def Let_def split: option.splits prod.splits)

lemma Close_idem [simp]: "it_done it \<Longrightarrow> Close it = (it_closeErr it, it)"
  by (simp add: Close_def)

lemma Next_done [simp]: "it_done it \<Longrightarrow> Next it = (False, it)"
  by (simp add: Next_def)

lemma finish_done [simp]: "it_done (finish it err)"
  by (simp add: finish_def)

lemma Next_False_done: "Next it = (False, it') \<Longrightarrow> it_done it'"
  by (auto simp: Next_def Let_def split: if_splits option.splits prod.splits sum.splits)

lemma Next_True_open: "Next it = (True, it') \<Longrightarrow> \<not> it_done it' \<and> it_current it' \<noteq> None"
  by (auto simp: Next_def Let_def split: if_splits option.splits prod.splits sum.splits)

lemma Values_closed: "Values fuel yield st it = Some (st', it') \<Longrightarrow> it_done it'"
  by (induction fuel yield st it rule: Values.induct) (auto split: prod.splits bool.splits)

text \<open>A run of calls on one iterator.\<close>

datatype iter_op = OpNext | OpClose

fun run_op :: "iter_op \<Rightarrow> ('s, 'a) iterator \<Rightarrow> ('s, 'a) iterator" where
  "run_op OpNext it = snd (Next it)"
| "run_op OpClose it = snd (Close it)"

text \<open>A close function that counts its calls beside the state it acts on.\<close>

definition counting_next :: "('s \<Rightarrow> (go_error + 'a) \<times> 's) \<Rightarrow> 's \<times> nat \<Rightarrow> (go_error + 'a) \<times> 's \<times> nat" where
  "counting_next next = (\<lambda>(s, n). case next s of (r, s') \<Rightarrow> (r, s', n))"

definition counting_close :: "('s \<Rightarrow> go_error option \<times> 's) \<Rightarrow> 's \<times> nat \<Rightarrow> go_error option \<times> 's \<times> nat" where
  "counting_close close = (\<lambda>(s, n). case close s of (e, s') \<Rightarrow> (e, s', Suc n))"

lemma run_op_close_count:
  assumes "it_next it = counting_next next" "it_close it = Some (counting_close close)"
    and "snd (it_src it) = of_bool (it_done it)"
  shows "it_next (run_op c it) = counting_next next \<and> it_close (run_op c it) = Some (counting_close close)
    \<and> snd (it_src (run_op c it)) = of_bool (it_done (run_op c it))"
  using assms
  by (cases c) (auto simp: Next_def finish_def Close_def counting_next_def counting_close_def Let_def
      split: prod.splits option.splits sum.splits)

lemma run_ops_close_count:
  assumes "it_next it = counting_next next" "it_close it = Some (counting_close close)"
    and "snd (it_src it) = of_bool (it_done it)"
  shows "snd (it_src (fold run_op cs it)) = of_bool (it_done (fold run_op cs it))"
  using assms
proof (induction cs arbitrary: it)
  case Nil
  then show ?case by simp
next
  case (Cons c cs)
  then show ?case using run_op_close_count [OF Cons.prems, of c] by simp
qed

text \<open>The slice iterator, from any index: it yields the rest of the slice.\<close>

lemma slice_Values:
  assumes "it_next it = slice_next s" "it_close it = None" "\<forall>k. it_ctx it k = None"
    and "\<not> it_done it" "it_err it = None" "it_closeErr it = None"
    and "length s - it_src it < fuel"
  shows "\<exists>it'. Values fuel (\<lambda>xs v. (True, xs @ [v])) acc it = Some (acc @ map Some (drop (it_src it) s), it')
           \<and> Err it' = None"
  using assms
proof (induction fuel arbitrary: acc it)
  case 0
  then show ?case by simp
next
  case (Suc fuel)
  show ?case
  proof (cases "it_src it \<ge> length s")
    case True
    with Suc.prems show ?thesis
      by (simp add: Next_def finish_def Close_def slice_next_def Err_def Let_def)
  next
    case False
    let ?it = "it\<lparr>it_tick := Suc (it_tick it), it_src := Suc (it_src it), it_current := Some (s ! it_src it)\<rparr>"
    have "Next it = (True, ?it)"
      using Suc.prems False by (simp add: Next_def slice_next_def Let_def)
    moreover have "drop (it_src it) s = s ! it_src it # drop (Suc (it_src it)) s"
      using False by (simp add: Cons_nth_drop_Suc)
    ultimately show ?thesis
      using Suc.IH [of ?it "acc @ [Some (s ! it_src it)]"] Suc.prems False
      by (simp add: Value_def)
  qed
qed

section \<open>Properties\<close>

text \<open>
  \<open>All\<close> on a slice iterator whose context stays live terminates and returns every element of
  the slice, in order and with no error.
\<close>

theorem slice_iterator_All:
  assumes "\<forall>k. ctx k = None" and "length s < fuel"
  shows "All fuel (NewSliceIterator ctx s) = Some (map Some s, None)"
  using slice_Values [of "NewSliceIterator ctx s" s fuel "[]"] assms
  by (auto simp: All_def NewSliceIterator_def NewIteratorFunc_def)

theorem slice_iterator_All_witness:
  "All 4 (NewSliceIterator (\<lambda>_. None) [7, 8, 9::nat]) = Some ([Some 7, Some 8, Some 9], None)"
  using slice_iterator_All [of "\<lambda>_. None" "[7, 8, 9::nat]" 4] by simp

text \<open>
  However \<open>Next\<close> and \<open>Close\<close> are called, and whatever ends the iteration (exhaustion, a failure,
  a cancelled context, an explicit \<open>Close\<close>), the close function of an iterator runs exactly once if
  the iteration has ended and not at all before.
\<close>

theorem close_runs_once:
  "snd (it_src (fold run_op cs
      (NewIteratorFunc ctx (counting_next next) (Some (counting_close close)) (s, 0)))) =
   of_bool (it_done (fold run_op cs
      (NewIteratorFunc ctx (counting_next next) (Some (counting_close close)) (s, 0))))"
  by (rule run_ops_close_count) (simp_all add: NewIteratorFunc_def)

end
