(* ===== verification/ES_Store_Spec.thy ===== *)
theory ES_Store_Spec
  imports ES_Event
begin

text \<open>
  The contracts of the store interfaces, as locales: \<open>EventStore\<close> (\<open>eventstore.go\<close>) as
  \<open>stream_store\<close> and \<open>GlobalReader\<close> (\<open>global_reader.go\<close>) as \<open>global_log\<close>. A store of either kind
  is a state type with its operations, an invariant, and the abstract value it keeps: a history of
  envelopes per stream, or the log of all of them. \<open>valid\<close> are the positions the reader accepts, and \<open>loads\<close> the stream
  states the store gives their documented meaning, among them the four of the root package. What a client gets from any such store is proved
  inside the locales; the in-memory store interprets both.
\<close>

section \<open>global_reader.go\<close>

record read_options =
  ro_Limit :: int
  ro_EventTypes :: "string list"
  ro_StreamPrefixes :: "string list"

record ('e, 'v) read_result =
  rr_Events :: "('e, 'v) envelope list"
  rr_Next :: uint64
  rr_AtEnd :: bool

section \<open>The GlobalReader contract\<close>

text \<open>
  The pages a reader fetches until a page says it reached the end of the log: the events, in order,
  and the position to resume from. \<open>None\<close> is running out of fuel.
\<close>

fun read_pages :: "nat \<Rightarrow> (uint64 \<Rightarrow> go_error + ('e, 'v) read_result) \<Rightarrow> uint64
    \<Rightarrow> (go_error + ('e, 'v) envelope list \<times> uint64) option" where
  "read_pages 0 read after = None"
| "read_pages (Suc fuel) read after =
     (case read after of
        Inl err \<Rightarrow> Some (Inl err)
      | Inr res \<Rightarrow>
          if rr_AtEnd res then Some (Inr (rr_Events res, rr_Next res))
          else (case read_pages fuel read (rr_Next res) of
              None \<Rightarrow> None
            | Some (Inl err) \<Rightarrow> Some (Inl err)
            | Some (Inr (evs, nxt)) \<Rightarrow> Some (Inr (rr_Events res @ evs, nxt))))"

text \<open>A filtered range of an ascending log splits at any position inside it.\<close>

lemma ascending_split:
  assumes "sorted_wrt (<) (map GlobalPosition xs)" "after \<le> nxt"
  shows "filter (\<lambda>e. after < GlobalPosition e \<and> GlobalPosition e \<le> nxt \<and> P e) xs @
         filter (\<lambda>e. nxt < GlobalPosition e \<and> P e) xs =
         filter (\<lambda>e. after < GlobalPosition e \<and> P e) xs"
  using assms(1)
proof (induction xs)
  case Nil
  then show ?case by simp
next
  case (Cons x xs)
  show ?case
  proof (cases "GlobalPosition x \<le> nxt")
    case True
    with Cons show ?thesis by auto
  next
    case False
    then have "\<forall>y \<in> set xs. \<not> GlobalPosition y \<le> nxt"
      using Cons.prems by fastforce
    then have "filter (\<lambda>e. after < GlobalPosition e \<and> GlobalPosition e \<le> nxt \<and> P e) xs = []"
      by (auto simp: filter_empty_conv)
    with Cons False assms(2) show ?thesis by auto
  qed
qed

lemma length_filter_mono: "(\<And>y. P y \<Longrightarrow> Q y) \<Longrightarrow> length (filter P xs) \<le> length (filter Q xs)"
  by (induction xs) (auto simp: le_SucI)

lemma length_filter_strict:
  assumes "x \<in> set xs" "\<not> P x" "Q x" "\<And>y. P y \<Longrightarrow> Q y"
  shows "length (filter P xs) < length (filter Q xs)"
  using assms(1)
proof (induction xs)
  case (Cons y ys)
  show ?case
  proof (cases "x = y")
    case True
    with assms(2,3) length_filter_mono [of P Q ys, OF assms(4)] show ?thesis by simp
  next
    case False
    with Cons assms(4) show ?thesis by auto
  qed
qed simp

locale global_log =
  fixes read_all :: "'s \<Rightarrow> uint64 \<Rightarrow> read_options \<Rightarrow> go_error + ('e, 'v) read_result"
    and head :: "'s \<Rightarrow> uint64"
    and inv :: "'s \<Rightarrow> bool"
    and glog :: "'s \<Rightarrow> ('e, 'v) envelope list"
    and selects :: "read_options \<Rightarrow> ('e, 'v) envelope \<Rightarrow> bool"
    and valid :: "uint64 \<Rightarrow> bool"
  assumes ascending: "inv s \<Longrightarrow> sorted_wrt (<) (map GlobalPosition (glog s))"
    and positive: "inv s \<Longrightarrow> env \<in> set (glog s) \<Longrightarrow> 0 < GlobalPosition env"
    and head_last: "inv s \<Longrightarrow> head s = (if glog s = [] then 0 else GlobalPosition (last (glog s)))"
    and valid_position: "inv s \<Longrightarrow> env \<in> set (glog s) \<Longrightarrow> valid (GlobalPosition env)"
    and reads: "inv s \<Longrightarrow> valid after \<Longrightarrow> \<exists>res. read_all s after opts = Inr res"
    and page_events: "inv s \<Longrightarrow> read_all s after opts = Inr res \<Longrightarrow>
      rr_Events res =
        filter (\<lambda>e. after < GlobalPosition e \<and> GlobalPosition e \<le> rr_Next res \<and> selects opts e) (glog s)"
    and page_next: "inv s \<Longrightarrow> read_all s after opts = Inr res \<Longrightarrow>
      rr_Next res = after \<or> after < rr_Next res \<and> rr_Next res \<in> GlobalPosition ` set (glog s)"
    and page_end: "inv s \<Longrightarrow> read_all s after opts = Inr res \<Longrightarrow>
      rr_AtEnd res \<longleftrightarrow> (\<forall>e \<in> set (glog s). GlobalPosition e \<le> rr_Next res)"
    and page_progress: "inv s \<Longrightarrow> read_all s after opts = Inr res \<Longrightarrow> \<not> rr_AtEnd res \<Longrightarrow> after < rr_Next res"
    and page_size: "inv s \<Longrightarrow> read_all s after opts = Inr res \<Longrightarrow> 0 < ro_Limit opts \<Longrightarrow>
      length (rr_Events res) \<le> nat (ro_Limit opts)"
begin

lemma page_ascending:
  "inv s \<Longrightarrow> read_all s after opts = Inr res \<Longrightarrow> sorted_wrt (<) (map GlobalPosition (rr_Events res))"
  using ascending [of s] by (simp add: page_events sorted_wrt_map sorted_wrt_filter)

text \<open>Reading page after page gives the selected part of the log, each event exactly once.\<close>

lemma read_pages_complete:
  assumes "inv s" "valid after" and "length (filter (\<lambda>e. after < GlobalPosition e) (glog s)) < fuel"
  shows "\<exists>nxt. read_pages fuel (\<lambda>a. read_all s a opts) after =
      Some (Inr (filter (\<lambda>e. after < GlobalPosition e \<and> selects opts e) (glog s), nxt))
    \<and> after \<le> nxt \<and> (\<forall>e \<in> set (glog s). GlobalPosition e \<le> nxt)"
  using assms(2,3)
proof (induction fuel arbitrary: after)
  case 0
  then show ?case by simp
next
  case (Suc fuel)
  obtain res where res: "read_all s after opts = Inr res" using reads [OF assms(1) Suc.prems(1)] by blast
  note ev = page_events [OF assms(1) res] and nx = page_next [OF assms(1) res]
  show ?case
  proof (cases "rr_AtEnd res")
    case True
    then have "\<forall>e \<in> set (glog s). GlobalPosition e \<le> rr_Next res"
      using page_end [OF assms(1) res] by simp
    with True res nx show ?thesis by (auto simp: ev intro!: filter_cong)
  next
    case False
    then have lt: "after < rr_Next res" using page_progress [OF assms(1) res] by simp
    with nx obtain e where e: "e \<in> set (glog s)" "GlobalPosition e = rr_Next res" by auto
    have "length (filter (\<lambda>e. rr_Next res < GlobalPosition e) (glog s)) <
          length (filter (\<lambda>e. after < GlobalPosition e) (glog s))"
      using e lt by (intro length_filter_strict [of e]) auto
    moreover have "valid (rr_Next res)" using valid_position [OF assms(1) e(1)] e(2) by simp
    ultimately obtain nxt where
      "read_pages fuel (\<lambda>a. read_all s a opts) (rr_Next res) =
        Some (Inr (filter (\<lambda>e. rr_Next res < GlobalPosition e \<and> selects opts e) (glog s), nxt))"
      "rr_Next res \<le> nxt" "\<forall>e \<in> set (glog s). GlobalPosition e \<le> nxt"
      using Suc.IH [of "rr_Next res"] Suc.prems(2) by fastforce
    then show ?thesis
      using False lt res ascending_split [OF ascending [OF assms(1)], of after "rr_Next res" "selects opts"]
      by (simp add: ev)
  qed
qed

end

section \<open>The EventStore contract\<close>

text \<open>
  \<open>load\<close> is \<open>LoadStreamFrom\<close> followed by reading the iterator to its end: the events it gave and the
  error of \<open>Err\<close>. A load from a \<open>Revision\<close> starts after that many events.
\<close>

definition load_start :: "stream_state \<Rightarrow> nat" where
  "load_start st = (case st of Revision r \<Rightarrow> r | _ \<Rightarrow> 0)"

text \<open>What an event says, apart from the place its store gives it.\<close>

definition same_event :: "('e, 'v) envelope \<Rightarrow> ('e, 'v) envelope \<Rightarrow> bool" where
  "same_event a b \<longleftrightarrow> EventID a = EventID b \<and> StreamID a = StreamID b \<and> Event a = Event b
     \<and> CorrelationID a = CorrelationID b \<and> CausationID a = CausationID b"

text \<open>A run of saves by other clients of the same store, whatever they save and expect.\<close>

fun run_saves :: "('s \<Rightarrow> ('e, 'v) envelope list \<Rightarrow> stream_state \<Rightarrow> 's \<times> append_result \<times> go_error option)
    \<Rightarrow> (('e, 'v) envelope list \<times> stream_state) list \<Rightarrow> 's \<Rightarrow> 's" where
  "run_saves save [] s = s"
| "run_saves save ((evs, st) # saves) s = run_saves save saves (fst (save s evs st))"

locale stream_store =
  fixes save :: "'s \<Rightarrow> ('e, 'v) envelope list \<Rightarrow> stream_state \<Rightarrow> 's \<times> append_result \<times> go_error option"
    and load :: "'s \<Rightarrow> string \<Rightarrow> stream_state \<Rightarrow> go_error + ('e, 'v) envelope list \<times> go_error option"
    and inv :: "'s \<Rightarrow> bool"
    and history :: "'s \<Rightarrow> string \<Rightarrow> ('e, 'v) envelope list"
    and loads :: "stream_state \<Rightarrow> bool"
  assumes loads_known: "loads Any" "loads NoStream" "loads StreamExists" "loads (Revision r)"
    and versions: "inv s \<Longrightarrow> map Version (history s sid) = [1..<Suc (length (history s sid))]"
    and save_inv: "inv s \<Longrightarrow> save s evs st = (s', res, err) \<Longrightarrow> inv s'"
    and save_failed: "inv s \<Longrightarrow> save s evs st = (s', res, Some e) \<Longrightarrow> s' = s"
    and save_empty: "inv s \<Longrightarrow> save s [] st = (s', res, err) \<Longrightarrow> s' = s"
    and save_appends: "inv s \<Longrightarrow> save s evs st = (s', res, None) \<Longrightarrow> evs \<noteq> [] \<Longrightarrow>
      \<exists>new. history s' (StreamID (hd evs)) = history s (StreamID (hd evs)) @ new
        \<and> list_all2 same_event new evs
        \<and> ar_StreamID res = StreamID (hd evs) \<and> ar_Successful res
        \<and> ar_NextExpectedVersion res = length (history s' (StreamID (hd evs)))"
    and save_frame: "inv s \<Longrightarrow> save s evs st = (s', res, None) \<Longrightarrow> evs \<noteq> [] \<Longrightarrow>
      sid \<noteq> StreamID (hd evs) \<Longrightarrow> history s' sid = history s sid"
    and save_checked: "inv s \<Longrightarrow> save s evs (Revision r) = (s', res, None) \<Longrightarrow> evs \<noteq> [] \<Longrightarrow>
      length (history s (StreamID (hd evs))) = r"
    and save_checked_new: "inv s \<Longrightarrow> save s evs NoStream = (s', res, None) \<Longrightarrow> evs \<noteq> [] \<Longrightarrow>
      history s (StreamID (hd evs)) = []"
    and load_prefix: "inv s \<Longrightarrow> loads st \<Longrightarrow> load_start st \<le> length (history s sid) \<Longrightarrow> load s sid st = Inr (envs, err) \<Longrightarrow>
      prefix envs (drop (load_start st) (history s sid))
      \<and> (err = None \<longrightarrow> envs = drop (load_start st) (history s sid))"
    and save_current: "inv s \<Longrightarrow> evs \<noteq> [] \<Longrightarrow>
      save s evs (Revision (length (history s (StreamID (hd evs))))) = (s', res, Some e) \<Longrightarrow> As_conflict e = None"
begin

text \<open>Whatever is saved, a stream's history only grows at its end.\<close>

lemma save_extends:
  assumes "inv s" "save s evs st = (s', res, err)"
  shows "prefix (history s sid) (history s' sid)"
proof (cases "evs = [] \<or> err \<noteq> None")
  case True
  then have "s' = s" using assms save_failed save_empty by (cases err) auto
  then show ?thesis by simp
next
  case False
  then show ?thesis
    using save_appends [OF assms(1), of evs st s' res] save_frame [OF assms(1), of evs st s' res sid] assms(2)
    by (cases "sid = StreamID (hd evs)") (auto simp: prefix_def)
qed

lemma run_saves_inv: "inv s \<Longrightarrow> inv (run_saves save saves s)"
proof (induction saves arbitrary: s)
  case (Cons c saves)
  obtain evs st where c: "c = (evs, st)" by (cases c)
  obtain s' res err where "save s evs st = (s', res, err)" by (metis prod_cases3)
  with Cons save_inv [OF Cons.prems, of evs st s' res err] show ?case by (simp add: c)
qed simp

lemma run_saves_extends: "inv s \<Longrightarrow> prefix (history s sid) (history (run_saves save saves s) sid)"
proof (induction saves arbitrary: s)
  case (Cons c saves)
  obtain evs st where c: "c = (evs, st)" by (cases c)
  obtain s' res err where s': "save s evs st = (s', res, err)" by (metis prod_cases3)
  have "prefix (history s' sid) (history (run_saves save saves s') sid)"
    using Cons.IH save_inv [OF Cons.prems s'] by blast
  with save_extends [OF Cons.prems s', of sid] show ?case
    by (simp add: c s')
qed simp

lemma run_saves_append: "run_saves save (xs @ ys) s = run_saves save ys (run_saves save xs s)"
  by (induction xs arbitrary: s) auto

lemma history_version:
  assumes "inv s" "i < length (history s sid)"
  shows "Version (history s sid ! i) = Suc i"
proof -
  have "map Version (history s sid) ! i = [1..<Suc (length (history s sid))] ! i"
    by (simp only: versions [OF assms(1)])
  also have "\<dots> = Suc i" using assms(2) by (subst nth_upt) auto
  finally show ?thesis using assms(2) by simp
qed

end

end
