(* ===== verification/ES_Memory_Store.thy ===== *)
theory ES_Memory_Store
  imports ES_Registry ES_Iterator ES_Store_Spec
begin

text \<open>
  The in-memory event store (\<open>memory/eventstore.go\<close>):
  the record \<open>event_store\<close> (closed flag, global log, streams), and one definition per method. A
  method runs under the store's lock, so it is one step on the state; \<open>Save\<close> encodes before it
  takes the lock and then decides and appends in one critical section.

  \<open>store_inv\<close> is the structural invariant: positions are \<open>1, 2, \<dots>\<close> in append order, a stream is the
  sub-log of its events, its versions are \<open>1, 2, \<dots>\<close>. \<open>store_ok\<close> adds that every record decodes to
  the event it was made from.
\<close>

section \<open>memory/eventstore.go\<close>

record ('e, 'v) mrecord =
  r_env :: "('e, 'v) envelope"
  r_name :: string
  r_payload :: string
  r_metadata :: string

record ('e, 'v) event_store =
  es_closed :: bool
  es_global :: "('e, 'v) mrecord list"
  es_events :: "string \<rightharpoonup> ('e, 'v) mrecord list"

definition NewEventStore :: "('e, 'v) event_store" where
  "NewEventStore = \<lparr>es_closed = False, es_global = [], es_events = Map.empty\<rparr>"

text \<open>\<open>m.events[id]\<close>: a missing key reads as a nil slice.\<close>

definition stream :: "('e, 'v) event_store \<Rightarrow> string \<Rightarrow> ('e, 'v) mrecord list" where
  "stream m sid = (case es_events m sid of None \<Rightarrow> [] | Some recs \<Rightarrow> recs)"

definition record_envelope ::
    "('e, 'v) event_impl \<Rightarrow> 'e registry \<Rightarrow> ('e, 'v) mrecord \<Rightarrow> go_error + ('e, 'v) envelope" where
  "record_envelope impl reg r =
     (case DecodeEvent impl reg (r_name r) (r_payload r) of
        Inl err \<Rightarrow> Inl err
      | Inr ev \<Rightarrow> (case DecodeMetadata impl (r_metadata r) of
          Inl err \<Rightarrow> Inl (Errorf (''event '' @ r_name r) [err])
        | Inr meta \<Rightarrow> Inr ((r_env r)\<lparr>Event := Some ev, Metadata := Some meta\<rparr>)))"

definition matches :: "('e, 'v) mrecord \<Rightarrow> string list \<Rightarrow> string list \<Rightarrow> bool" where
  "matches r types pfxs =
     (if types \<noteq> [] \<and> r_name r \<notin> set types then False
      else if pfxs = [] then True
      else list_ex (\<lambda>p. prefix p (StreamID (r_env r))) pfxs)"

text \<open>The loop of \<open>ReadAll\<close>, over the records from index \<open>after\<close> on.\<close>

fun read_loop :: "('e, 'v) event_impl \<Rightarrow> 'e registry \<Rightarrow> read_options \<Rightarrow> nat
    \<Rightarrow> ('e, 'v) mrecord list \<Rightarrow> ('e, 'v) read_result \<Rightarrow> go_error + ('e, 'v) read_result" where
  "read_loop impl reg opts limit [] res = Inr res"
| "read_loop impl reg opts limit (r # rs) res =
     (let res = res\<lparr>rr_Next := GlobalPosition (r_env r)\<rparr> in
      if matches r (ro_EventTypes opts) (ro_StreamPrefixes opts) then
        (case record_envelope impl reg r of
           Inl err \<Rightarrow> Inl err
         | Inr env \<Rightarrow>
             let res = res\<lparr>rr_Events := rr_Events res @ [env]\<rparr> in
             if length (rr_Events res) = limit then Inr res
             else read_loop impl reg opts limit rs res)
      else read_loop impl reg opts limit rs res)"

definition page_limit :: "read_options \<Rightarrow> nat" where
  "page_limit opts = (if ro_Limit opts \<le> 0 then 500 else nat (ro_Limit opts))"

definition ReadAll :: "('e, 'v) event_impl \<Rightarrow> 'e registry \<Rightarrow> go_error option \<Rightarrow> ('e, 'v) event_store
    \<Rightarrow> uint64 \<Rightarrow> read_options \<Rightarrow> go_error + ('e, 'v) read_result" where
  "ReadAll impl reg ctxErr m after opts =
     (case ctxErr of
        Some err \<Rightarrow> Inl err
      | None \<Rightarrow>
          (case read_loop impl reg opts (page_limit opts) (drop after (es_global m))
                  \<lparr>rr_Events = [], rr_Next = after, rr_AtEnd = False\<rparr> of
             Inl err \<Rightarrow> Inl (Errorf ''read all'' [err])
           | Inr res \<Rightarrow> Inr (res\<lparr>rr_AtEnd := rr_Next res \<ge> length (es_global m)\<rparr>)))"

definition Head :: "('e, 'v) event_store \<Rightarrow> uint64" where
  "Head m = length (es_global m)"

text \<open>The validation loop of \<open>Save\<close>: the first offending event decides the error.\<close>

fun validate_batch :: "string \<Rightarrow> ('e, 'v) envelope list \<Rightarrow> go_error option" where
  "validate_batch sid [] = None"
| "validate_batch sid (env # envs) =
     (if StreamID env \<noteq> sid then
        Some (Errorf ''save events: different stream ID'' [Sentinel ErrInvalidEventBatch])
      else if EventID env = uuid_Nil then
        Some (Errorf ''save events: no event ID'' [Sentinel ErrInvalidEventBatch])
      else validate_batch sid envs)"

text \<open>The encoding loop of \<open>Save\<close>; \<open>now i\<close> is the clock when event \<open>i\<close> is stamped.\<close>

fun encode_batch :: "('e, 'v) event_impl \<Rightarrow> 'e registry \<Rightarrow> (nat \<Rightarrow> gotime) \<Rightarrow> nat
    \<Rightarrow> ('e, 'v) envelope list \<Rightarrow> go_error + ('e, 'v) mrecord list" where
  "encode_batch impl reg now i [] = Inr []"
| "encode_batch impl reg now i (env # envs) =
     (case EncodeEvent impl reg (Event env) of
        Inl err \<Rightarrow> Inl (Errorf ''save events'' [err])
      | Inr payload \<Rightarrow> (case EncodeMetadata impl (Metadata env) of
          Inl err \<Rightarrow> Inl (Errorf ''save events'' [err])
        | Inr metadata \<Rightarrow>
            let name = (case Event env of None \<Rightarrow> [] | Some ev \<Rightarrow> EventType impl ev);
                env = env\<lparr>Event := None, Metadata := None,
                          OccurredAt := (if OccurredAt env = 0 then now i else OccurredAt env)\<rparr>
            in (case encode_batch impl reg now (Suc i) envs of
                  Inl err \<Rightarrow> Inl err
                | Inr recs \<Rightarrow>
                    Inr (\<lparr>r_env = env, r_name = name, r_payload = payload, r_metadata = metadata\<rparr> # recs))))"

text \<open>The revision switch of \<open>Save\<close>: \<open>None\<close> when the expectation holds.\<close>

definition check_revision ::
    "string \<Rightarrow> uint64 \<Rightarrow> stream_state \<Rightarrow> (append_result \<times> go_error) option" where
  "check_revision sid currentVersion revision =
     (case revision of
        Any \<Rightarrow> None
      | NoStream \<Rightarrow> if currentVersion \<noteq> 0
          then Some (failed_result sid, Errorf (''stream '' @ sid @ '': already exists'') [Sentinel ErrStreamExists])
          else None
      | StreamExists \<Rightarrow> if currentVersion = 0
          then Some (failed_result sid, Errorf (''stream '' @ sid @ '': should exist'') [Sentinel ErrStreamNotFound])
          else None
      | Revision expected \<Rightarrow> if currentVersion \<noteq> expected
          then Some (zero_result, StreamRevisionConflictError sid (Some (Revision expected)) (Some (Revision currentVersion)))
          else None
      | OtherState _ \<Rightarrow>
          Some (failed_result sid, Errorf (''unsupported revision type for stream '' @ sid) [Sentinel ErrInvalidRevision]))"

text \<open>The append loop of \<open>Save\<close>, one record at a time.\<close>

definition append_record :: "string \<Rightarrow> ('e, 'v) mrecord
    \<Rightarrow> ('e, 'v) event_store \<times> uint64 \<Rightarrow> ('e, 'v) event_store \<times> uint64" where
  "append_record sid r = (\<lambda>(m, currentVersion).
     let r = r\<lparr>r_env := (r_env r)\<lparr>Version := currentVersion + 1,
                                   GlobalPosition := length (es_global m) + 1\<rparr>\<rparr>
     in (m\<lparr>es_events := (es_events m)(sid \<mapsto> stream m sid @ [r]), es_global := es_global m @ [r]\<rparr>,
         currentVersion + 1))"

definition Save :: "('e, 'v) event_impl \<Rightarrow> 'e registry \<Rightarrow> (nat \<Rightarrow> gotime) \<Rightarrow> ('e, 'v) event_store
    \<Rightarrow> ('e, 'v) envelope list \<Rightarrow> stream_state
    \<Rightarrow> ('e, 'v) event_store \<times> append_result \<times> go_error option" where
  "Save impl reg now m events revision =
     (case events of
        [] \<Rightarrow> (m, zero_result\<lparr>ar_Successful := True\<rparr>, None)
      | env0 # _ \<Rightarrow>
          let sid = StreamID env0 in
          (case validate_batch sid events of
             Some err \<Rightarrow> (m, failed_result sid, Some err)
           | None \<Rightarrow> (case encode_batch impl reg now 0 events of
               Inl err \<Rightarrow> (m, failed_result sid, Some err)
             | Inr records \<Rightarrow>
                 if es_closed m then (m, zero_result, Some (NewError ''save events: event store is closed''))
                 else (case check_revision sid (length (stream m sid)) revision of
                     Some (res, err) \<Rightarrow> (m, res, Some err)
                   | None \<Rightarrow>
                       (case fold (append_record sid) records (m, length (stream m sid)) of
                          (m', currentVersion) \<Rightarrow>
                            (m', \<lparr>ar_Successful = True, ar_StreamID = sid,
                                  ar_NextExpectedVersion = currentVersion,
                                  ar_GlobalPosition = length (es_global m')\<rparr>, None))))))"

text \<open>The closure of the iterators of \<open>LoadStreamFrom\<close> and \<open>LoadCorrelation\<close> over a snapshot.\<close>

definition snapshot_next :: "('e, 'v) event_impl \<Rightarrow> 'e registry \<Rightarrow> string \<Rightarrow> ('e, 'v) mrecord list
    \<Rightarrow> nat \<Rightarrow> (go_error + ('e, 'v) envelope) \<times> nat" where
  "snapshot_next impl reg what recs offset =
     (if offset \<ge> length recs then (Inl (Sentinel IoEOF), offset)
      else (case record_envelope impl reg (recs ! offset) of
          Inl err \<Rightarrow> (Inl (Errorf what [err]), offset + 1)
        | Inr env \<Rightarrow> (Inr env, offset + 1)))"

definition load_offset :: "('e, 'v) event_store \<Rightarrow> string \<Rightarrow> stream_state \<Rightarrow> go_error + uint64" where
  "load_offset m sid version =
     (case version of
        NoStream \<Rightarrow> if es_events m sid \<noteq> None
          then Inl (Errorf (''load stream '' @ sid @ '': expected empty stream'') [Sentinel ErrStreamExists])
          else Inr 0
      | StreamExists \<Rightarrow> if es_events m sid = None
          then Inl (Errorf (''load stream '' @ sid @ '': expected existing stream'') [Sentinel ErrStreamNotFound])
          else Inr 0
      | Revision v \<Rightarrow> if v > length (stream m sid)
          then Inl (Errorf (''load stream '' @ sid @ '': requested revision'') [Sentinel ErrInvalidRevision])
          else Inr v
      | Any \<Rightarrow> Inr 0
      | OtherState _ \<Rightarrow> Inr 0)"

definition LoadStreamFrom :: "('e, 'v) event_impl \<Rightarrow> 'e registry \<Rightarrow> (nat \<Rightarrow> go_error option)
    \<Rightarrow> ('e, 'v) event_store \<Rightarrow> string \<Rightarrow> stream_state
    \<Rightarrow> go_error + (nat, ('e, 'v) envelope) iterator" where
  "LoadStreamFrom impl reg ctx m sid version =
     (case load_offset m sid version of
        Inl err \<Rightarrow> Inl err
      | Inr offset \<Rightarrow>
          Inr (NewIteratorFunc ctx (snapshot_next impl reg (''load stream '' @ sid) (stream m sid)) None offset))"

definition LoadStream :: "('e, 'v) event_impl \<Rightarrow> 'e registry \<Rightarrow> (nat \<Rightarrow> go_error option)
    \<Rightarrow> ('e, 'v) event_store \<Rightarrow> string \<Rightarrow> go_error + (nat, ('e, 'v) envelope) iterator" where
  "LoadStream impl reg ctx m sid = LoadStreamFrom impl reg ctx m sid StreamExists"

definition LoadCorrelation :: "('e, 'v) event_impl \<Rightarrow> 'e registry \<Rightarrow> (nat \<Rightarrow> go_error option)
    \<Rightarrow> ('e, 'v) event_store \<Rightarrow> string \<Rightarrow> go_error + (nat, ('e, 'v) envelope) iterator" where
  "LoadCorrelation impl reg ctx m sid =
     (if sid = [] then Inl (Errorf ''load correlation'' [Sentinel ErrEmptyCorrelationID])
      else let chain = filter (\<lambda>r. CorrelationID (r_env r) = sid) (es_global m) in
        Inr (NewIteratorFunc ctx (snapshot_next impl reg (''load correlation '' @ sid) chain) None 0))"

definition CloseStore :: "('e, 'v) event_store \<Rightarrow> ('e, 'v) event_store" where
  "CloseStore m = (if es_closed m then m
     else m\<lparr>es_closed := True, es_events := Map.empty, es_global := []\<rparr>)"

section \<open>Invariants\<close>

definition store_inv :: "('e, 'v) event_store \<Rightarrow> bool" where
  "store_inv m \<longleftrightarrow>
     map (GlobalPosition \<circ> r_env) (es_global m) = [1..<Suc (length (es_global m))]
     \<and> (\<forall>sid. stream m sid = filter (\<lambda>r. StreamID (r_env r) = sid) (es_global m))
     \<and> (\<forall>sid. map (Version \<circ> r_env) (stream m sid) = [1..<Suc (length (stream m sid))])
     \<and> (\<forall>sid. es_events m sid \<noteq> Some [])
     \<and> (es_closed m \<longrightarrow> es_global m = [])"

definition record_ok :: "('e, 'v) event_impl \<Rightarrow> 'e registry \<Rightarrow> ('e, 'v) mrecord \<Rightarrow> bool" where
  "record_ok impl reg r \<longleftrightarrow>
     (\<exists>ev meta. DecodeEvent impl reg (r_name r) (r_payload r) = Inr ev \<and> EventType impl ev = r_name r
        \<and> DecodeMetadata impl (r_metadata r) = Inr meta)"

definition store_ok :: "('e, 'v) event_impl \<Rightarrow> 'e registry \<Rightarrow> ('e, 'v) event_store \<Rightarrow> bool" where
  "store_ok impl reg m \<longleftrightarrow>
     registry_inv impl reg \<and> json_ok impl \<and> store_inv m
     \<and> (\<forall>r \<in> set (es_global m). record_ok impl reg r)"

text \<open>The envelope a record stands for, and the log and streams of envelopes of a store.\<close>

definition decoded :: "('e, 'v) event_impl \<Rightarrow> 'e registry \<Rightarrow> ('e, 'v) mrecord \<Rightarrow> ('e, 'v) envelope" where
  "decoded impl reg r = (case record_envelope impl reg r of Inr env \<Rightarrow> env | Inl _ \<Rightarrow> r_env r)"

definition log_of :: "('e, 'v) event_impl \<Rightarrow> 'e registry \<Rightarrow> ('e, 'v) event_store \<Rightarrow> ('e, 'v) envelope list" where
  "log_of impl reg m = map (decoded impl reg) (es_global m)"

definition history_of ::
    "('e, 'v) event_impl \<Rightarrow> 'e registry \<Rightarrow> ('e, 'v) event_store \<Rightarrow> string \<Rightarrow> ('e, 'v) envelope list" where
  "history_of impl reg m sid = filter (\<lambda>env. StreamID env = sid) (log_of impl reg m)"

text \<open>
  The abstract effect of an append: event \<open>i\<close> of the batch as it reads back, stamped with its place
  in its stream and in the log.
\<close>

definition stamped :: "(nat \<Rightarrow> gotime) \<Rightarrow> nat \<Rightarrow> uint64 \<Rightarrow> uint64 \<Rightarrow> ('e, 'v) envelope \<Rightarrow> ('e, 'v) envelope" where
  "stamped now i ver pos env =
     env\<lparr>Metadata := Some (case Metadata env of None \<Rightarrow> Map.empty | Some md \<Rightarrow> md),
         OccurredAt := (if OccurredAt env = 0 then now i else OccurredAt env),
         Version := Suc ver, GlobalPosition := Suc pos\<rparr>"

fun stamp_batch :: "(nat \<Rightarrow> gotime) \<Rightarrow> nat \<Rightarrow> uint64 \<Rightarrow> uint64 \<Rightarrow> ('e, 'v) envelope list \<Rightarrow> ('e, 'v) envelope list" where
  "stamp_batch now i ver pos [] = []"
| "stamp_batch now i ver pos (env # envs) =
     stamped now i ver pos env # stamp_batch now (Suc i) (Suc ver) (Suc pos) envs"

section \<open>Lemmas on the loops\<close>

lemma validate_batch_None:
  "validate_batch sid envs = None \<longleftrightarrow> (\<forall>env \<in> set envs. StreamID env = sid \<and> EventID env \<noteq> uuid_Nil)"
  by (induction envs) auto

lemma validate_batch_Some:
  "validate_batch sid envs = Some err \<Longrightarrow> errors_Is err ErrInvalidEventBatch"
  by (induction envs) (auto split: if_splits)

lemma validate_batch_no_conflict:
  "validate_batch sid envs = Some err \<Longrightarrow> As_conflict err = None"
  by (induction envs) (auto split: if_splits)

lemma encode_batch_no_conflict:
  "json_ok impl \<Longrightarrow> encode_batch impl reg now i envs = Inl err \<Longrightarrow> As_conflict err = None"
proof (induction envs arbitrary: i)
  case (Cons env envs)
  then show ?case
    by (auto simp: EncodeEvent_def EncodeMetadata_def json_ok_def Let_def
        split: sum.splits option.splits if_splits)
qed simp

text \<open>The append loop in one go: the records with the versions and positions they get.\<close>

fun place_batch :: "uint64 \<Rightarrow> uint64 \<Rightarrow> ('e, 'v) mrecord list \<Rightarrow> ('e, 'v) mrecord list" where
  "place_batch ver pos [] = []"
| "place_batch ver pos (r # rs) =
     r\<lparr>r_env := (r_env r)\<lparr>Version := Suc ver, GlobalPosition := Suc pos\<rparr>\<rparr> # place_batch (Suc ver) (Suc pos) rs"

lemma length_place_batch [simp]: "length (place_batch ver pos rs) = length rs"
  by (induction rs arbitrary: ver pos) auto

lemma place_batch_eq_Nil [simp]: "place_batch ver pos rs = [] \<longleftrightarrow> rs = []"
  by (cases rs) auto

lemma positions_place_batch:
  "map (GlobalPosition \<circ> r_env) (place_batch ver pos rs) = [Suc pos..<Suc (pos + length rs)]"
  by (induction rs arbitrary: ver pos) (auto simp: upt_conv_Cons simp del: upt_Suc)

lemma versions_place_batch:
  "map (Version \<circ> r_env) (place_batch ver pos rs) = [Suc ver..<Suc (ver + length rs)]"
  by (induction rs arbitrary: ver pos) (auto simp: upt_conv_Cons simp del: upt_Suc)

lemma streams_place_batch:
  "map (StreamID \<circ> r_env) (place_batch ver pos rs) = map (StreamID \<circ> r_env) rs"
  by (induction rs arbitrary: ver pos) auto

lemma record_ok_place [simp]:
  "record_ok impl reg (r\<lparr>r_env := e\<rparr>) = record_ok impl reg r"
  by (simp add: record_ok_def)

lemma record_ok_place_batch:
  "(\<forall>r \<in> set (place_batch ver pos rs). record_ok impl reg r) \<longleftrightarrow> (\<forall>r \<in> set rs. record_ok impl reg r)"
  by (induction rs arbitrary: ver pos) auto

lemma fold_append_record:
  "fold (append_record sid) rs (m, ver) =
     (m\<lparr>es_events := (if rs = [] then es_events m
          else (es_events m)(sid \<mapsto> stream m sid @ place_batch ver (length (es_global m)) rs)),
        es_global := es_global m @ place_batch ver (length (es_global m)) rs\<rparr>, ver + length rs)"
proof (induction rs arbitrary: m ver)
  case Nil
  then show ?case by simp
next
  case (Cons r rs)
  then show ?case
    by (simp add: append_record_def Let_def stream_def fun_upd_def) (auto simp: fun_eq_iff)
qed

text \<open>The encoding loop: the records it makes decode to the events they were made from.\<close>

lemma encode_batch_InrE:
  assumes "encode_batch impl reg now i (env # envs) = Inr recs"
  obtains payload metadata rs where "EncodeEvent impl reg (Event env) = Inr payload"
    "EncodeMetadata impl (Metadata env) = Inr metadata"
    "encode_batch impl reg now (Suc i) envs = Inr rs"
    "recs = \<lparr>r_env = env\<lparr>Event := None, Metadata := None,
                OccurredAt := (if OccurredAt env = 0 then now i else OccurredAt env)\<rparr>,
              r_name = (case Event env of None \<Rightarrow> [] | Some ev \<Rightarrow> EventType impl ev),
              r_payload = payload, r_metadata = metadata\<rparr> # rs"
  using assms by (auto simp: Let_def split: sum.splits)

lemma encode_batch_streams:
  "encode_batch impl reg now i envs = Inr recs \<Longrightarrow> map (StreamID \<circ> r_env) recs = map StreamID envs"
  by (induction envs arbitrary: i recs) (auto elim!: encode_batch_InrE simp del: encode_batch.simps(2))

lemma encode_batch_length:
  "encode_batch impl reg now i envs = Inr recs \<Longrightarrow> length recs = length envs"
  by (drule encode_batch_streams) (metis length_map)

lemma encode_batch_decoded:
  assumes "registry_inv impl reg" "json_ok impl" "encode_batch impl reg now i envs = Inr recs"
  shows "(\<forall>r \<in> set recs. record_ok impl reg r)
    \<and> map (decoded impl reg) (place_batch ver pos recs) = stamp_batch now i ver pos envs"
  using assms(3)
proof (induction envs arbitrary: i ver pos recs)
  case Nil
  then show ?case by simp
next
  case (Cons env envs)
  from Cons.prems show ?case
  proof (rule encode_batch_InrE)
    fix payload metadata rs
    assume p: "EncodeEvent impl reg (Event env) = Inr payload"
      and m: "EncodeMetadata impl (Metadata env) = Inr metadata"
      and rs: "encode_batch impl reg now (Suc i) envs = Inr rs"
      and recs: "recs = \<lparr>r_env = env\<lparr>Event := None, Metadata := None,
                OccurredAt := (if OccurredAt env = 0 then now i else OccurredAt env)\<rparr>,
              r_name = (case Event env of None \<Rightarrow> [] | Some ev \<Rightarrow> EventType impl ev),
              r_payload = payload, r_metadata = metadata\<rparr> # rs"
    obtain ev where ev: "Event env = Some ev" "DecodeEvent impl reg (EventType impl ev) payload = Inr ev"
      using encode_decode [OF assms(1,2) p] by blast
    note md = EncodeMetadata_roundtrip [OF assms(2) m]
    show ?thesis
      using Cons.IH [OF rs, of "Suc ver" "Suc pos"] ev md
      by (auto simp: recs record_ok_def decoded_def record_envelope_def stamped_def)
  qed
qed

section \<open>The outcome of Save\<close>

lemma Save_failed:
  assumes "Save impl reg now m events revision = (m', res, Some err)"
  shows "m' = m \<and> \<not> ar_Successful res"
  using assms
  by (auto simp: Save_def check_revision_def Let_def fold_append_record
      split: list.splits option.splits sum.splits if_splits stream_state.splits)

lemma Save_empty: "Save impl reg now m [] revision = (m, zero_result\<lparr>ar_Successful := True\<rparr>, None)"
  by (simp add: Save_def)

lemma Save_unchanged:
  assumes "Save impl reg now m events revision = (m', res, err)" "\<not> (err = None \<and> events \<noteq> [])"
  shows "m' = m"
  using assms Save_failed [of impl reg now m events revision m' res]
  by (cases err) (auto simp: Save_empty)

lemma Save_successE:
  assumes "Save impl reg now m events revision = (m', res, None)" "events \<noteq> []"
  obtains sid recs where "sid = StreamID (hd events)" "validate_batch sid events = None"
    "encode_batch impl reg now 0 events = Inr recs" "\<not> es_closed m"
    "check_revision sid (length (stream m sid)) revision = None"
    "m' = m\<lparr>es_events := (es_events m)(sid \<mapsto> stream m sid @
               place_batch (length (stream m sid)) (length (es_global m)) recs),
            es_global := es_global m @ place_batch (length (stream m sid)) (length (es_global m)) recs\<rparr>"
    "res = \<lparr>ar_Successful = True, ar_StreamID = sid,
            ar_NextExpectedVersion = length (stream m sid) + length events,
            ar_GlobalPosition = length (es_global m) + length events\<rparr>"
proof -
  obtain env0 envs where ev: "events = env0 # envs" using assms(2) by (cases events) auto
  obtain recs where r: "validate_batch (StreamID env0) events = None"
    "encode_batch impl reg now 0 events = Inr recs" "\<not> es_closed m"
    "check_revision (StreamID env0) (length (stream m (StreamID env0))) revision = None"
    using assms(1) unfolding ev
    by (auto simp: Save_def check_revision_def Let_def simp del: validate_batch.simps encode_batch.simps
        split: option.splits sum.splits if_splits stream_state.splits)
  have len: "length recs = length events" using encode_batch_length [OF r(2)] .
  then have "recs \<noteq> []" using ev by auto
  with r len assms(1) show thesis
    by (intro that [of "StreamID env0" recs])
      (simp_all add: ev Save_def Let_def fold_append_record del: validate_batch.simps encode_batch.simps)
qed

lemma Save_success_conv:
  assumes "validate_batch sid events = None" "encode_batch impl reg now 0 events = Inr recs"
    and "\<not> es_closed m" "check_revision sid (length (stream m sid)) revision = None"
    and "events = env0 # envs" "sid = StreamID env0"
  shows "\<exists>m' res. Save impl reg now m events revision = (m', res, None)"
  using assms by (simp add: Save_def Let_def split: prod.splits)

section \<open>Preservation of the invariants\<close>

lemma stream_NewEventStore [simp]: "stream NewEventStore sid = []"
  by (simp add: stream_def NewEventStore_def)

lemma store_inv_NewEventStore: "store_inv NewEventStore"
  by (simp add: store_inv_def NewEventStore_def stream_def)

lemma store_inv_CloseStore: "store_inv m \<Longrightarrow> store_inv (CloseStore m)"
  by (simp add: store_inv_def CloseStore_def stream_def)

lemma stream_upd:
  "stream (m\<lparr>es_events := (es_events m)(sid \<mapsto> xs), es_global := g\<rparr>) s =
     (if s = sid then xs else stream m s)"
  by (simp add: stream_def)

lemma filter_stream_batch:
  assumes "map (StreamID \<circ> r_env) rs = map StreamID events" "validate_batch sid events = None"
  shows "filter (\<lambda>r. StreamID (r_env r) = s) (place_batch ver pos rs) =
     (if s = sid then place_batch ver pos rs else [])"
proof -
  have "\<forall>x \<in> set (map (StreamID \<circ> r_env) (place_batch ver pos rs)). x = sid"
    using assms(2) unfolding streams_place_batch assms(1) by (auto simp: validate_batch_None)
  then have "\<forall>r \<in> set (place_batch ver pos rs). StreamID (r_env r) = sid" by auto
  then show ?thesis by (auto simp: filter_id_conv filter_empty_conv)
qed

lemma store_inv_append:
  assumes inv: "store_inv m" and opn: "\<not> es_closed m" and ne: "rs \<noteq> []"
    and ids: "map (StreamID \<circ> r_env) rs = map StreamID events" "validate_batch sid events = None"
    and rs': "rs' = place_batch (length (stream m sid)) (length (es_global m)) rs"
  shows "store_inv (m\<lparr>es_events := (es_events m)(sid \<mapsto> stream m sid @ rs'), es_global := es_global m @ rs'\<rparr>)"
proof -
  let ?m = "m\<lparr>es_events := (es_events m)(sid \<mapsto> stream m sid @ rs'), es_global := es_global m @ rs'\<rparr>"
  have pos: "map (GlobalPosition \<circ> r_env) (es_global ?m) = [1..<Suc (length (es_global ?m))]"
    using inv upt_add_eq_append [of 1 "Suc (length (es_global m))" "length rs"]
    by (simp add: store_inv_def rs' positions_place_batch del: upt_Suc)
  have st: "stream ?m s = filter (\<lambda>r. StreamID (r_env r) = s) (es_global ?m)" for s
    using inv by (simp add: store_inv_def stream_upd rs' filter_stream_batch [OF ids])
  have ver: "map (Version \<circ> r_env) (stream ?m s) = [1..<Suc (length (stream ?m s))]" for s
  proof -
    have "map (Version \<circ> r_env) (stream m s) = [1..<Suc (length (stream m s))]" for s
      using inv unfolding store_inv_def by blast
    then show ?thesis
      using upt_add_eq_append [of 1 "Suc (length (stream m sid))" "length rs"]
      by (simp add: stream_upd rs' versions_place_batch del: upt_Suc)
  qed
  show ?thesis
    using pos st ver inv opn ne by (simp add: store_inv_def rs')
qed

lemma store_inv_Save:
  assumes inv: "store_inv m" and save: "Save impl reg now m events revision = (m', res, err)"
  shows "store_inv m'"
proof (cases "err = None \<and> events \<noteq> []")
  case False
  then have "m' = m" using save Save_unchanged by blast
  with inv show ?thesis by simp
next
  case True
  with save have "Save impl reg now m events revision = (m', res, None)" "events \<noteq> []" by auto
  then show ?thesis
  proof (rule Save_successE)
    fix sid recs
    assume v: "validate_batch sid events = None" and e: "encode_batch impl reg now 0 events = Inr recs"
      and m': "m' = m\<lparr>es_events := (es_events m)(sid \<mapsto> stream m sid @
               place_batch (length (stream m sid)) (length (es_global m)) recs),
            es_global := es_global m @ place_batch (length (stream m sid)) (length (es_global m)) recs\<rparr>"
      and "\<not> es_closed m"
    moreover have "recs \<noteq> []" using encode_batch_length [OF e] True by auto
    ultimately show "store_inv m'"
      using store_inv_append [OF inv _ _ encode_batch_streams [OF e] v refl] by simp
  qed
qed

lemma record_envelope_ok: "record_ok impl reg r \<Longrightarrow> record_envelope impl reg r = Inr (decoded impl reg r)"
  by (auto simp: record_ok_def record_envelope_def decoded_def)

lemma decoded_fields [simp]:
  "StreamID (decoded impl reg r) = StreamID (r_env r)" "Version (decoded impl reg r) = Version (r_env r)"
  "GlobalPosition (decoded impl reg r) = GlobalPosition (r_env r)"
  "CorrelationID (decoded impl reg r) = CorrelationID (r_env r)"
  by (simp_all add: decoded_def record_envelope_def split: sum.splits)

lemma history_stream:
  assumes "store_inv m"
  shows "history_of impl reg m sid = map (decoded impl reg) (stream m sid)"
proof -
  have "stream m sid = filter (\<lambda>r. StreamID (r_env r) = sid) (es_global m)"
    using assms by (simp add: store_inv_def)
  then show ?thesis by (simp add: history_of_def log_of_def filter_map o_def)
qed

text \<open>The abstract effect of a successful save: the stamped batch at the end of the log.\<close>

lemma Save_log:
  assumes ok: "store_ok impl reg m" and save: "Save impl reg now m events revision = (m', res, None)"
    and ne: "events \<noteq> []"
  shows "store_ok impl reg m'
    \<and> log_of impl reg m' = log_of impl reg m @
        stamp_batch now 0 (length (history_of impl reg m (StreamID (hd events)))) (length (log_of impl reg m)) events
    \<and> (\<forall>env \<in> set events. StreamID env = StreamID (hd events))
    \<and> res = \<lparr>ar_Successful = True, ar_StreamID = StreamID (hd events),
             ar_NextExpectedVersion = length (history_of impl reg m (StreamID (hd events))) + length events,
             ar_GlobalPosition = length (log_of impl reg m) + length events\<rparr>
    \<and> check_revision (StreamID (hd events)) (length (history_of impl reg m (StreamID (hd events)))) revision = None"
proof -
  have inv: "store_inv m" "registry_inv impl reg" "json_ok impl" using ok by (auto simp: store_ok_def)
  from save ne show ?thesis
  proof (rule Save_successE)
    fix sid recs
    assume a: "sid = StreamID (hd events)" "validate_batch sid events = None"
      "encode_batch impl reg now 0 events = Inr recs"
      "check_revision sid (length (stream m sid)) revision = None"
      and m': "m' = m\<lparr>es_events := (es_events m)(sid \<mapsto> stream m sid @
               place_batch (length (stream m sid)) (length (es_global m)) recs),
            es_global := es_global m @ place_batch (length (stream m sid)) (length (es_global m)) recs\<rparr>"
      and res: "res = \<lparr>ar_Successful = True, ar_StreamID = sid,
            ar_NextExpectedVersion = length (stream m sid) + length events,
            ar_GlobalPosition = length (es_global m) + length events\<rparr>"
    note dec = encode_batch_decoded [OF inv(2,3) a(3)]
    have "store_ok impl reg m'"
      using ok store_inv_Save [OF inv(1) save] dec
        record_ok_place_batch [of "length (stream m sid)" "length (es_global m)" recs impl reg]
      by (auto simp: store_ok_def m')
    then show ?thesis
      using a res dec history_stream [OF inv(1), of impl reg]
      by (simp add: m' log_of_def validate_batch_None)
  qed
qed

lemma stamp_batch_fields:
  "length (stamp_batch now i ver pos envs) = length envs"
  "map StreamID (stamp_batch now i ver pos envs) = map StreamID envs"
  "map GlobalPosition (stamp_batch now i ver pos envs) = [Suc pos..<Suc (pos + length envs)]"
  "map Version (stamp_batch now i ver pos envs) = [Suc ver..<Suc (ver + length envs)]"
  by (induction envs arbitrary: i ver pos) (auto simp: stamped_def upt_conv_Cons simp del: upt_Suc)

lemma stamp_batch_same: "list_all2 same_event (stamp_batch now i ver pos envs) envs"
  by (induction envs arbitrary: i ver pos) (auto simp: stamped_def same_event_def)

lemma filter_stamp_batch:
  assumes "\<forall>env \<in> set envs. StreamID env = sid"
  shows "filter (\<lambda>env. StreamID env = s) (stamp_batch now i ver pos envs) =
     (if s = sid then stamp_batch now i ver pos envs else [])"
proof -
  have "set (map StreamID (stamp_batch now i ver pos envs)) \<subseteq> {sid}"
    using assms unfolding stamp_batch_fields(2) by auto
  then have "\<forall>e \<in> set (stamp_batch now i ver pos envs). StreamID e = sid" by auto
  then show ?thesis by (auto simp: filter_id_conv filter_empty_conv)
qed

lemma Save_history:
  assumes "store_ok impl reg m" "Save impl reg now m events revision = (m', res, None)" "events \<noteq> []"
  shows "history_of impl reg m' sid = history_of impl reg m sid @
    (if sid = StreamID (hd events)
     then stamp_batch now 0 (length (history_of impl reg m sid)) (length (log_of impl reg m)) events else [])"
  using Save_log [OF assms]
  by (auto simp: history_of_def filter_stamp_batch [of events "StreamID (hd events)"])

lemma store_ok_Save:
  assumes "store_ok impl reg m" "Save impl reg now m events revision = (m', res, err)"
  shows "store_ok impl reg m'"
proof (cases "err = None \<and> events \<noteq> []")
  case False
  then have "m' = m" using assms(2) Save_unchanged by blast
  with assms(1) show ?thesis by simp
qed (use Save_log [OF assms(1)] assms(2) in auto)

section \<open>Reading the global log\<close>

text \<open>The filter of \<open>ReadOptions\<close> on envelopes.\<close>

definition selects :: "('e, 'v) event_impl \<Rightarrow> read_options \<Rightarrow> ('e, 'v) envelope \<Rightarrow> bool" where
  "selects impl opts env \<longleftrightarrow>
     (ro_EventTypes opts = [] \<or> (\<exists>ev. Event env = Some ev \<and> EventType impl ev \<in> set (ro_EventTypes opts)))
     \<and> (ro_StreamPrefixes opts = [] \<or> (\<exists>p \<in> set (ro_StreamPrefixes opts). prefix p (StreamID env)))"

lemma matches_decoded:
  "record_ok impl reg r \<Longrightarrow>
     matches r (ro_EventTypes opts) (ro_StreamPrefixes opts) \<longleftrightarrow> selects impl opts (decoded impl reg r)"
  by (auto simp: matches_def selects_def record_ok_def decoded_def record_envelope_def list_ex_iff)

lemma filter_matches_decoded:
  "\<forall>r \<in> set rs. record_ok impl reg r \<Longrightarrow>
     map (decoded impl reg) (filter (\<lambda>r. matches r (ro_EventTypes opts) (ro_StreamPrefixes opts)) rs) =
     filter (selects impl opts) (map (decoded impl reg) rs)"
  by (induction rs) (auto simp: matches_decoded)

lemma page_limit_pos: "0 < page_limit opts"
  by (auto simp: page_limit_def)

lemma read_loop_spec:
  assumes "\<forall>r \<in> set rs. record_ok impl reg r" "length (rr_Events res) < limit"
  shows "\<exists>k \<le> length rs. \<exists>evs. evs = rr_Events res @ filter (selects impl opts) (map (decoded impl reg) (take k rs))
    \<and> read_loop impl reg opts limit rs res = Inr (res\<lparr>rr_Events := evs,
        rr_Next := (if k = 0 then rr_Next res else GlobalPosition (r_env (rs ! (k - 1))))\<rparr>)
    \<and> length evs \<le> limit \<and> (k < length rs \<longrightarrow> 0 < k \<and> length evs = limit)"
  using assms
proof (induction rs arbitrary: res)
  case Nil
  then show ?case by (auto intro!: exI [of _ "0::nat"])
next
  case (Cons r rs)
  let ?n = "res\<lparr>rr_Next := GlobalPosition (r_env r)\<rparr>"
  let ?d = "decoded impl reg r"
  let ?e = "?n\<lparr>rr_Events := rr_Events res @ [?d]\<rparr>"
  have ok: "record_ok impl reg r" "\<forall>r \<in> set rs. record_ok impl reg r" using Cons.prems by auto
  note env = record_envelope_ok [OF ok(1)]
  show ?case
  proof (cases "selects impl opts ?d")
    case False
    obtain k where "k \<le> length rs"
      "read_loop impl reg opts limit rs ?n = Inr (?n\<lparr>rr_Events := rr_Events res @ filter (selects impl opts) (map (decoded impl reg) (take k rs)),
        rr_Next := (if k = 0 then rr_Next ?n else GlobalPosition (r_env (rs ! (k - 1))))\<rparr>)"
      "length (rr_Events res @ filter (selects impl opts) (map (decoded impl reg) (take k rs))) \<le> limit"
      "k < length rs \<longrightarrow> 0 < k \<and> length (rr_Events res @ filter (selects impl opts) (map (decoded impl reg) (take k rs))) = limit"
      using Cons.IH [OF ok(2), of ?n] Cons.prems(2) by auto
    then show ?thesis
      using False matches_decoded [OF ok(1), of opts] by (intro exI [of _ "Suc k"]) (auto simp: nth_Cons')
  next
    case True
    show ?thesis
    proof (cases "Suc (length (rr_Events res)) = limit")
      case full: True
      then show ?thesis
        using True matches_decoded [OF ok(1), of opts] env by (intro exI [of _ 1]) (auto simp: Let_def)
    next
      case False
      obtain k where "k \<le> length rs"
        "read_loop impl reg opts limit rs ?e = Inr (?e\<lparr>rr_Events := rr_Events ?e @ filter (selects impl opts) (map (decoded impl reg) (take k rs)),
          rr_Next := (if k = 0 then rr_Next ?e else GlobalPosition (r_env (rs ! (k - 1))))\<rparr>)"
        "length (rr_Events ?e @ filter (selects impl opts) (map (decoded impl reg) (take k rs))) \<le> limit"
        "k < length rs \<longrightarrow> 0 < k \<and> length (rr_Events ?e @ filter (selects impl opts) (map (decoded impl reg) (take k rs))) = limit"
        using Cons.IH [OF ok(2), of ?e] Cons.prems(2) False by auto
      then show ?thesis
        using True False matches_decoded [OF ok(1), of opts] env
        by (intro exI [of _ "Suc k"]) (auto simp: nth_Cons' Let_def)
    qed
  qed
qed

lemma store_ok_positions:
  "store_ok impl reg m \<Longrightarrow> map GlobalPosition (log_of impl reg m) = [1..<Suc (length (log_of impl reg m))]"
  by (simp add: store_ok_def store_inv_def log_of_def o_def)

lemma ReadAll_spec:
  fixes impl :: "('e, 'v) event_impl"
  assumes ok: "store_ok impl reg m"
  shows "\<exists>k evs. k \<le> length (log_of impl reg m) - after
    \<and> evs = filter (\<lambda>e. after < GlobalPosition e \<and> GlobalPosition e \<le> after + k \<and> selects impl opts e) (log_of impl reg m)
    \<and> ReadAll impl reg None m after opts =
        Inr \<lparr>rr_Events = evs, rr_Next = after + k, rr_AtEnd = (length (log_of impl reg m) \<le> after + k)\<rparr>
    \<and> length evs \<le> page_limit opts
    \<and> (after + k < length (log_of impl reg m) \<longrightarrow> 0 < k \<and> length evs = page_limit opts)"
proof -
  let ?rs = "drop after (es_global m)"
  let ?r0 = "\<lparr>rr_Events = [], rr_Next = after, rr_AtEnd = False\<rparr> :: ('e, 'v) read_result"
  have "\<forall>r \<in> set ?rs. record_ok impl reg r" using ok by (auto simp: store_ok_def dest: in_set_dropD)
  moreover have "length (rr_Events ?r0) < page_limit opts" by (simp add: page_limit_pos)
  ultimately have "\<exists>k \<le> length ?rs. \<exists>evs. evs = rr_Events ?r0 @ filter (selects impl opts) (map (decoded impl reg) (take k ?rs))
    \<and> read_loop impl reg opts (page_limit opts) ?rs ?r0 = Inr (?r0\<lparr>rr_Events := evs,
        rr_Next := (if k = 0 then rr_Next ?r0 else GlobalPosition (r_env (?rs ! (k - 1))))\<rparr>)
    \<and> length evs \<le> page_limit opts \<and> (k < length ?rs \<longrightarrow> 0 < k \<and> length evs = page_limit opts)"
    by (rule read_loop_spec)
  then obtain k evs where k0: "k \<le> length ?rs"
    "evs = rr_Events ?r0 @ filter (selects impl opts) (map (decoded impl reg) (take k ?rs))"
    "read_loop impl reg opts (page_limit opts) ?rs ?r0 = Inr (?r0\<lparr>rr_Events := evs,
       rr_Next := (if k = 0 then rr_Next ?r0 else GlobalPosition (r_env (?rs ! (k - 1))))\<rparr>)"
    "length evs \<le> page_limit opts" "k < length ?rs \<longrightarrow> 0 < k \<and> length evs = page_limit opts"
    by (elim exE conjE)
  then have k: "k \<le> length ?rs" "evs = filter (selects impl opts) (map (decoded impl reg) (take k ?rs))"
    "read_loop impl reg opts (page_limit opts) ?rs ?r0 = Inr \<lparr>rr_Events = evs,
       rr_Next = (if k = 0 then after else GlobalPosition (r_env (?rs ! (k - 1)))), rr_AtEnd = False\<rparr>"
    "length evs \<le> page_limit opts" "k < length ?rs \<longrightarrow> 0 < k \<and> length evs = page_limit opts"
    by simp_all
  have pos: "map (GlobalPosition \<circ> r_env) (es_global m) = [1..<Suc (length (es_global m))]"
    using ok unfolding store_ok_def store_inv_def by blast
  have nxt: "(if k = 0 then after else GlobalPosition (r_env (?rs ! (k - 1)))) = after + k"
  proof (cases k)
    case (Suc j)
    then have "map (GlobalPosition \<circ> r_env) (es_global m) ! (after + j) = [1..<Suc (length (es_global m))] ! (after + j)"
      by (simp only: pos)
    then show ?thesis using Suc k(1) by (simp add: nth_append del: upt_Suc)
  qed simp
  have "filter (\<lambda>e. after < GlobalPosition e \<and> GlobalPosition e \<le> after + k \<and> selects impl opts e) (log_of impl reg m)
      = filter (selects impl opts) (filter (\<lambda>e. after < GlobalPosition e \<and> GlobalPosition e \<le> after + k) (log_of impl reg m))"
    by (simp add: conj_ac)
  also have "\<dots> = filter (selects impl opts) (map (decoded impl reg) (take k ?rs))"
    by (subst filter_range_slice [OF store_ok_positions [OF ok]]) (simp add: log_of_def take_map drop_map)
  finally show ?thesis
    using k unfolding nxt
    by (intro exI [of _ k] exI [of _ evs]) (auto simp: ReadAll_def log_of_def)
qed

interpretation mlog: global_log
  "\<lambda>m after opts. ReadAll impl reg None m after opts" Head "store_ok impl reg" "log_of impl reg" "selects impl" "\<lambda>_. True"
  for impl :: "('e, 'v) event_impl" and reg :: "'e registry"
proof
  fix s :: "('e, 'v) event_store" and after opts and res :: "('e, 'v) read_result"
  assume ok: "store_ok impl reg s"
  note pos = store_ok_positions [OF ok]
  show "sorted_wrt (<) (map GlobalPosition (log_of impl reg s))"
    unfolding pos by (rule sorted_wrt_upt)
  show "Head s = (if log_of impl reg s = [] then 0 else GlobalPosition (last (log_of impl reg s)))"
  proof (cases "log_of impl reg s" rule: rev_cases)
    case (snoc ys y)
    then show ?thesis using pos by (simp add: Head_def log_of_def) (metis length_append_singleton length_map)
  qed (simp add: Head_def log_of_def)
  show "\<exists>res. ReadAll impl reg None s after opts = Inr res" using ReadAll_spec [OF ok] by blast
  fix env assume "env \<in> set (log_of impl reg s)"
  then have "GlobalPosition env \<in> set (map GlobalPosition (log_of impl reg s))" by simp
  then show "0 < GlobalPosition env" unfolding pos by (auto simp del: upt_Suc)
  show True by simp
next
  fix s :: "('e, 'v) event_store" and after opts and res :: "('e, 'v) read_result"
  assume ok: "store_ok impl reg s" and res: "ReadAll impl reg None s after opts = Inr res"
  obtain k where k: "k \<le> length (log_of impl reg s) - after"
    "rr_Events res = filter (\<lambda>e. after < GlobalPosition e \<and> GlobalPosition e \<le> after + k \<and> selects impl opts e) (log_of impl reg s)"
    "rr_Next res = after + k" "rr_AtEnd res = (length (log_of impl reg s) \<le> after + k)"
    "length (rr_Events res) \<le> page_limit opts" "after + k < length (log_of impl reg s) \<longrightarrow> 0 < k"
    using ReadAll_spec [OF ok, of after opts] res by auto
  have set: "GlobalPosition ` set (log_of impl reg s) = {1..<Suc (length (log_of impl reg s))}"
    using store_ok_positions [OF ok] by (metis set_map set_upt)
  show "rr_Events res = filter (\<lambda>e. after < GlobalPosition e \<and> GlobalPosition e \<le> rr_Next res \<and> selects impl opts e) (log_of impl reg s)"
    using k(2,3) by simp
  show "rr_Next res = after \<or> after < rr_Next res \<and> rr_Next res \<in> GlobalPosition ` set (log_of impl reg s)"
    unfolding set using k(1,3) by auto
  have "(\<forall>e \<in> set (log_of impl reg s). GlobalPosition e \<le> rr_Next res) \<longleftrightarrow>
        (\<forall>p \<in> GlobalPosition ` set (log_of impl reg s). p \<le> rr_Next res)" by simp
  also have "\<dots> \<longleftrightarrow> rr_AtEnd res" unfolding set using k by (auto simp: less_Suc_eq_le)
  finally show "rr_AtEnd res \<longleftrightarrow> (\<forall>e \<in> set (log_of impl reg s). GlobalPosition e \<le> rr_Next res)" by simp
  show "\<not> rr_AtEnd res \<Longrightarrow> after < rr_Next res" using k by simp
  show "0 < ro_Limit opts \<Longrightarrow> length (rr_Events res) \<le> nat (ro_Limit opts)"
    using k(5) by (simp add: page_limit_def)
qed

section \<open>Loading a stream\<close>

text \<open>\<open>LoadStreamFrom\<close> and then reading the iterator to its end; the fuel is one more than the stream.\<close>

definition load_all :: "('e, 'v) event_impl \<Rightarrow> 'e registry \<Rightarrow> (nat \<Rightarrow> go_error option) \<Rightarrow> ('e, 'v) event_store
    \<Rightarrow> string \<Rightarrow> stream_state \<Rightarrow> go_error + ('e, 'v) envelope list \<times> go_error option" where
  "load_all impl reg ctx m sid st =
     (case LoadStreamFrom impl reg ctx m sid st of
        Inl err \<Rightarrow> Inl err
      | Inr it \<Rightarrow> (case All (Suc (length (stream m sid))) it of
          Some (items, err) \<Rightarrow> Inr (map the items, err)
        | None \<Rightarrow> Inr ([], None)))"

text \<open>
  Reading a snapshot whose records decode always ends: with everything from the offset on, or, when
  the context is cancelled on the way, with its error after some of it.
\<close>

lemma snapshot_Values:
  assumes "it_next it = snapshot_next impl reg what recs" "it_close it = None"
    and "\<forall>r \<in> set recs. record_ok impl reg r"
    and "\<not> it_done it" "it_err it = None" "it_closeErr it = None" "length recs - it_src it < fuel"
  shows "\<exists>ys zs it'. Values fuel (\<lambda>xs v. (True, xs @ [v])) acc it = Some (acc @ map Some ys, it')
    \<and> map (decoded impl reg) (drop (it_src it) recs) = ys @ zs
    \<and> (Err it' = None \<longrightarrow> zs = []) \<and> (Err it' \<noteq> None \<longrightarrow> (\<exists>k. it_ctx it k \<noteq> None))"
  using assms
proof (induction fuel arbitrary: acc it)
  case 0
  then show ?case by simp
next
  case (Suc fuel)
  show ?case
  proof (cases "it_ctx it (it_tick it)")
    case (Some err)
    then show ?thesis
      using Suc.prems
      by (intro exI [of _ "[]"] exI [of _ "map (decoded impl reg) (drop (it_src it) recs)"]) (auto simp: Next_def finish_def Close_def Err_def Let_def intro: exI [of _ "it_tick it"])
  next
    case None
    show ?thesis
    proof (cases "it_src it \<ge> length recs")
      case True
      with None Suc.prems show ?thesis
        by (auto simp: Next_def finish_def Close_def snapshot_next_def Err_def Let_def)
    next
      case False
      let ?d = "decoded impl reg (recs ! it_src it)"
      let ?it = "it\<lparr>it_tick := Suc (it_tick it), it_src := Suc (it_src it), it_current := Some ?d\<rparr>"
      have "record_envelope impl reg (recs ! it_src it) = Inr ?d"
        using Suc.prems(3) False by (intro record_envelope_ok) simp
      then have nxt: "Next it = (True, ?it)"
        using Suc.prems None False by (simp add: Next_def snapshot_next_def Let_def)
      have "\<exists>ys zs it'. Values fuel (\<lambda>xs v. (True, xs @ [v])) (acc @ [Some ?d]) ?it = Some ((acc @ [Some ?d]) @ map Some ys, it')
        \<and> map (decoded impl reg) (drop (it_src ?it) recs) = ys @ zs
        \<and> (Err it' = None \<longrightarrow> zs = []) \<and> (Err it' \<noteq> None \<longrightarrow> (\<exists>k. it_ctx ?it k \<noteq> None))"
        by (rule Suc.IH) (use Suc.prems False in simp_all)
      then obtain ys zs it' where *: "Values fuel (\<lambda>xs v. (True, xs @ [v])) (acc @ [Some ?d]) ?it =
          Some ((acc @ [Some ?d]) @ map Some ys, it')"
        "map (decoded impl reg) (drop (it_src ?it) recs) = ys @ zs"
        "Err it' = None \<longrightarrow> zs = []" "Err it' \<noteq> None \<longrightarrow> (\<exists>k. it_ctx ?it k \<noteq> None)"
        by (elim exE conjE)
      have "drop (it_src it) recs = recs ! it_src it # drop (Suc (it_src it)) recs"
        using False by (simp add: Cons_nth_drop_Suc)
      with nxt * show ?thesis
        by (intro exI [of _ "?d # ys"] exI [of _ zs] exI [of _ it']) (simp add: Value_def)
    qed
  qed
qed

lemma snapshot_All:
  assumes "\<forall>r \<in> set recs. record_ok impl reg r" "length recs - off < fuel"
  shows "\<exists>ys zs err. All fuel (NewIteratorFunc ctx (snapshot_next impl reg what recs) None off) = Some (map Some ys, err)
    \<and> map (decoded impl reg) (drop off recs) = ys @ zs \<and> (err = None \<longrightarrow> zs = [])
    \<and> ((\<forall>k. ctx k = None) \<longrightarrow> zs = [] \<and> err = None)"
proof -
  let ?it = "NewIteratorFunc ctx (snapshot_next impl reg what recs) None off"
  have "\<exists>ys zs it'. Values fuel (\<lambda>xs v. (True, xs @ [v])) [] ?it = Some ([] @ map Some ys, it')
    \<and> map (decoded impl reg) (drop (it_src ?it) recs) = ys @ zs
    \<and> (Err it' = None \<longrightarrow> zs = []) \<and> (Err it' \<noteq> None \<longrightarrow> (\<exists>k. it_ctx ?it k \<noteq> None))"
    by (rule snapshot_Values) (use assms in \<open>simp_all add: NewIteratorFunc_def\<close>)
  then obtain ys zs it' where "Values fuel (\<lambda>xs v. (True, xs @ [v])) [] ?it = Some ([] @ map Some ys, it')"
    "map (decoded impl reg) (drop (it_src ?it) recs) = ys @ zs"
    "Err it' = None \<longrightarrow> zs = []" "Err it' \<noteq> None \<longrightarrow> (\<exists>k. it_ctx ?it k \<noteq> None)"
    by (elim exE conjE)
  then show ?thesis
    by (intro exI [of _ ys] exI [of _ zs] exI [of _ "Err it'"]) (auto simp: All_def NewIteratorFunc_def)
qed

lemma store_okD: "store_ok impl reg m \<Longrightarrow> store_inv m"
  by (simp add: store_ok_def)

lemma stream_records_ok:
  "store_ok impl reg m \<Longrightarrow> \<forall>r \<in> set (stream m sid). record_ok impl reg r"
  by (auto simp: store_ok_def store_inv_def)

lemma stream_All:
  assumes "store_ok impl reg m"
  obtains ys zs err where
    "All (Suc (length (stream m sid))) (NewIteratorFunc ctx (snapshot_next impl reg what (stream m sid)) None off)
       = Some (map Some ys, err)"
    "map (decoded impl reg) (drop off (stream m sid)) = ys @ zs" "err = None \<longrightarrow> zs = []"
    "(\<forall>k. ctx k = None) \<longrightarrow> zs = [] \<and> err = None"
  using snapshot_All [OF stream_records_ok [OF assms, of sid] diff_less_Suc, where ctx = ctx and what = what and off = off]
  by (elim exE conjE) (rule that)

lemma load_offset_start:
  "load_offset m sid st = Inr off \<Longrightarrow> off = load_start st \<and> load_start st \<le> length (stream m sid)"
  by (auto simp: load_offset_def load_start_def split: stream_state.splits if_splits)

lemma load_all_spec:
  assumes ok: "store_ok impl reg m" and ld: "load_all impl reg ctx m sid st = Inr (envs, err)"
  shows "prefix envs (drop (load_start st) (history_of impl reg m sid))
    \<and> load_start st \<le> length (history_of impl reg m sid)
    \<and> (err = None \<longrightarrow> envs = drop (load_start st) (history_of impl reg m sid))"
proof -
  obtain off where off: "load_offset m sid st = Inr off"
    using ld by (auto simp: load_all_def LoadStreamFrom_def split: sum.splits)
  have h: "history_of impl reg m sid = map (decoded impl reg) (stream m sid)"
    by (rule history_stream [OF store_okD [OF ok]])
  show ?thesis
  proof (rule stream_All [OF ok, of sid ctx "''load stream '' @ sid" off])
    fix ys zs e
    assume a: "All (Suc (length (stream m sid)))
        (NewIteratorFunc ctx (snapshot_next impl reg (''load stream '' @ sid) (stream m sid)) None off) = Some (map Some ys, e)"
      "map (decoded impl reg) (drop off (stream m sid)) = ys @ zs" "e = None \<longrightarrow> zs = []"
    have "envs = ys" "err = e"
      using ld unfolding load_all_def LoadStreamFrom_def off sum.case a(1) by (simp_all add: o_def)
    then show ?thesis
      using a(2,3) load_offset_start [OF off] by (simp add: h drop_map)
  qed
qed

lemma load_all_live:
  assumes ok: "store_ok impl reg m" and off: "load_offset m sid st = Inr off" and "\<forall>k. ctx k = None"
  shows "load_all impl reg ctx m sid st = Inr (drop off (history_of impl reg m sid), None)"
proof (rule stream_All [OF ok, of sid ctx "''load stream '' @ sid" off])
  fix ys zs e
  assume a: "All (Suc (length (stream m sid)))
      (NewIteratorFunc ctx (snapshot_next impl reg (''load stream '' @ sid) (stream m sid)) None off) = Some (map Some ys, e)"
    "map (decoded impl reg) (drop off (stream m sid)) = ys @ zs" "(\<forall>k. ctx k = None) \<longrightarrow> zs = [] \<and> e = None"
  have "history_of impl reg m sid = map (decoded impl reg) (stream m sid)"
    by (rule history_stream [OF store_okD [OF ok]])
  with a assms(3) show ?thesis
    unfolding load_all_def LoadStreamFrom_def off sum.case a(1) by (simp add: drop_map o_def)
qed

lemma store_ok_versions:
  assumes "store_ok impl reg m"
  shows "map Version (history_of impl reg m sid) = [1..<Suc (length (history_of impl reg m sid))]"
proof -
  have inv: "store_inv m" using assms by (simp add: store_ok_def)
  then have "map (Version \<circ> r_env) (stream m sid) = [1..<Suc (length (stream m sid))]"
    unfolding store_inv_def by blast
  then show ?thesis by (simp add: history_stream [OF inv] o_def del: upt_Suc)
qed

lemma Save_current:
  assumes ok: "store_ok impl reg m" and ne: "events \<noteq> []"
    and save: "Save impl reg now m events (Revision (length (history_of impl reg m (StreamID (hd events))))) = (m', res, Some e)"
  shows "As_conflict e = None"
proof -
  obtain env0 envs where ev: "events = env0 # envs" using ne by (cases events) auto
  have "length (history_of impl reg m (StreamID env0)) = length (stream m (StreamID env0))"
    using history_stream [OF store_okD [OF ok], of impl reg "StreamID env0"] by simp
  then have "validate_batch (StreamID env0) events = Some e \<or> encode_batch impl reg now 0 events = Inl e
      \<or> e = NewError ''save events: event store is closed''"
    using save unfolding ev
    by (auto simp: Save_def check_revision_def Let_def simp del: validate_batch.simps encode_batch.simps
        split: option.splits sum.splits if_splits prod.splits)
  then show ?thesis
    using validate_batch_no_conflict [of "StreamID env0" events e]
      encode_batch_no_conflict [of impl reg now 0 events e] ok by (auto simp: store_ok_def)
qed

interpretation mstore: stream_store
  "Save impl reg now" "load_all impl reg ctx" "store_ok impl reg" "history_of impl reg" "\<lambda>_. True"
  for impl :: "('e, 'v) event_impl" and reg :: "'e registry" and now :: "nat \<Rightarrow> gotime"
    and ctx :: "nat \<Rightarrow> go_error option"
proof
  fix s s' :: "('e, 'v) event_store" and sid st res err envs r and e :: go_error
    and evs :: "('e, 'v) envelope list"
  assume ok: "store_ok impl reg s"
  show "map Version (history_of impl reg s sid) = [1..<Suc (length (history_of impl reg s sid))]"
    by (rule store_ok_versions [OF ok])
  show "Save impl reg now s evs st = (s', res, err) \<Longrightarrow> store_ok impl reg s'"
    by (rule store_ok_Save [OF ok])
  show "Save impl reg now s evs st = (s', res, Some e) \<Longrightarrow> s' = s" using Save_failed by blast
  show "Save impl reg now s [] st = (s', res, err) \<Longrightarrow> s' = s" by (simp add: Save_empty)
  show "load_all impl reg ctx s sid st = Inr (envs, err) \<Longrightarrow>
      prefix envs (drop (load_start st) (history_of impl reg s sid))
      \<and> (err = None \<longrightarrow> envs = drop (load_start st) (history_of impl reg s sid))"
    using load_all_spec [OF ok] by blast
  assume ne: "evs \<noteq> []"
  show "\<exists>new. history_of impl reg s' (StreamID (hd evs)) = history_of impl reg s (StreamID (hd evs)) @ new
        \<and> list_all2 same_event new evs \<and> ar_StreamID res = StreamID (hd evs) \<and> ar_Successful res
        \<and> ar_NextExpectedVersion res = length (history_of impl reg s' (StreamID (hd evs)))"
    if "Save impl reg now s evs st = (s', res, None)"
    using Save_log [OF ok that ne] Save_history [OF ok that ne, of "StreamID (hd evs)"]
    by (auto simp: stamp_batch_same stamp_batch_fields(1))
  show "sid \<noteq> StreamID (hd evs) \<Longrightarrow> history_of impl reg s' sid = history_of impl reg s sid"
    if "Save impl reg now s evs st = (s', res, None)"
    using Save_history [OF ok that ne, of sid] by simp
  show "length (history_of impl reg s (StreamID (hd evs))) = r"
    if "Save impl reg now s evs (Revision r) = (s', res, None)"
    using Save_log [OF ok that ne] by (simp add: check_revision_def split: if_splits)
  show "history_of impl reg s (StreamID (hd evs)) = []"
    if "Save impl reg now s evs NoStream = (s', res, None)"
    using Save_log [OF ok that ne] by (simp add: check_revision_def split: if_splits)
  show "As_conflict e = None"
    if "Save impl reg now s evs (Revision (length (history_of impl reg s (StreamID (hd evs))))) = (s', res, Some e)"
    by (rule Save_current [OF ok ne that])
qed simp_all

end
