(* ===== verification/ES_Memory_Props.thy ===== *)
theory ES_Memory_Props
  imports ES_Memory_Store
begin

text \<open>
  What the in-memory event store promises, over the lemmas of \<open>ES_Memory_Store\<close> and the facts of
  the two interpretations: reachable stores and their invariant, the effect and the errors of
  \<open>Save\<close>, the load round trips, and the read model of \<open>ReadAll\<close>, including a reader that stops
  and resumes while others append.
\<close>

section \<open>Reachable stores\<close>

text \<open>The states of a store from \<open>NewEventStore\<close> on, under any calls by any clients.\<close>

inductive store_reachable :: "('e, 'v) event_impl \<Rightarrow> 'e registry \<Rightarrow> ('e, 'v) event_store \<Rightarrow> bool"
  for impl :: "('e, 'v) event_impl" and reg :: "'e registry" where
  new: "store_reachable impl reg NewEventStore"
| save: "store_reachable impl reg m \<Longrightarrow> Save impl reg now m events revision = (m', res, err) \<Longrightarrow>
     store_reachable impl reg m'"
| close: "store_reachable impl reg m \<Longrightarrow> store_reachable impl reg (CloseStore m)"

lemma store_ok_new: "registry_inv impl reg \<Longrightarrow> json_ok impl \<Longrightarrow> store_ok impl reg NewEventStore"
  by (simp add: store_ok_def store_inv_NewEventStore) (simp add: NewEventStore_def)

lemma store_ok_close: "store_ok impl reg m \<Longrightarrow> store_ok impl reg (CloseStore m)"
  by (simp add: store_ok_def store_inv_CloseStore) (simp add: CloseStore_def)

lemma reachable_store_ok:
  assumes "store_reachable impl reg m" "registry_inv impl reg" "json_ok impl"
  shows "store_ok impl reg m"
  using assms(1)
  by induction (use assms(2,3) store_ok_new store_ok_Save store_ok_close in blast)+

text \<open>Saves only extend the log.\<close>

lemma Save_extends_log:
  assumes "store_ok impl reg m" "Save impl reg now m events revision = (m', res, err)"
  shows "prefix (log_of impl reg m) (log_of impl reg m')"
proof (cases "err = None \<and> events \<noteq> []")
  case False
  then have "m' = m" using assms(2) Save_unchanged by blast
  then show ?thesis by simp
next
  case True
  then have "Save impl reg now m events revision = (m', res, None)" "events \<noteq> []" using assms(2) by simp_all
  from Save_log [OF assms(1) this] show ?thesis by (elim conjE) (simp only: prefixI)
qed

lemma run_saves_log:
  "store_ok impl reg m \<Longrightarrow>
     store_ok impl reg (run_saves (Save impl reg now) saves m)
     \<and> prefix (log_of impl reg m) (log_of impl reg (run_saves (Save impl reg now) saves m))"
proof (induction saves arbitrary: m)
  case (Cons c saves)
  obtain evs st where c: "c = (evs, st)" by (cases c)
  obtain m' res err where s: "Save impl reg now m evs st = (m', res, err)" by (metis prod_cases3)
  have "prefix (log_of impl reg m) (log_of impl reg m')"
    by (rule Save_extends_log [OF Cons.prems s])
  with Cons.IH [OF store_ok_Save [OF Cons.prems s]] show ?case
    by (auto simp: c s)
qed simp

section \<open>A store for the witnesses\<close>

definition demo_env :: "uuid \<Rightarrow> string \<Rightarrow> string \<Rightarrow> (string, unit) envelope" where
  "demo_env u sid ev = \<lparr>EventID = u, StreamID = sid, Metadata = None, CorrelationID = ''c'',
     CausationID = [], Event = Some ev, Version = 0, GlobalPosition = 0, OccurredAt = 0\<rparr>"

definition demo_store :: "(string, unit) event_store" where
  "demo_store = fst (Save demo_impl demo_reg (\<lambda>_. 7) NewEventStore [demo_env 1 ''s'' ''x''] NoStream)"

definition demo_opts :: read_options where
  "demo_opts = \<lparr>ro_Limit = 0, ro_EventTypes = [], ro_StreamPrefixes = []\<rparr>"

lemma demo_new_ok [simp]: "store_ok demo_impl demo_reg NewEventStore"
  by (simp add: store_ok_new)

lemma demo_env_simps [simp]:
  "StreamID (demo_env u sid ev) = sid" "EventID (demo_env u sid ev) = u" "Event (demo_env u sid ev) = Some ev"
  "Metadata (demo_env u sid ev) = None" "CorrelationID (demo_env u sid ev) = ''c''"
  by (simp_all add: demo_env_def)

lemma demo_encode: "\<exists>recs. encode_batch demo_impl demo_reg now i [demo_env u sid ev] = Inr recs"
  by simp

lemma demo_valid: "0 < u \<Longrightarrow> validate_batch sid [demo_env u sid ev] = None"
  by (simp add: uuid_Nil_def)

lemma demo_save_ok:
  assumes "\<not> es_closed m" "0 < u" "check_revision sid (length (stream m sid)) st = None"
  shows "\<exists>m' res. Save demo_impl demo_reg now m [demo_env u sid ev] st = (m', res, None)"
proof -
  obtain recs where r: "encode_batch demo_impl demo_reg now 0 [demo_env u sid ev] = Inr recs"
    using demo_encode by blast
  show ?thesis
    by (rule Save_success_conv [OF demo_valid [OF assms(2)] r assms(1,3) refl]) simp
qed

lemma demo_save:
  "Save demo_impl demo_reg (\<lambda>_. 7) NewEventStore [demo_env 1 ''s'' ''x''] NoStream =
     (demo_store, \<lparr>ar_Successful = True, ar_StreamID = ''s'', ar_NextExpectedVersion = 1, ar_GlobalPosition = 1\<rparr>, None)"
proof -
  obtain m' res where s: "Save demo_impl demo_reg (\<lambda>_. 7) NewEventStore [demo_env 1 ''s'' ''x''] NoStream = (m', res, None)"
    using demo_save_ok [of NewEventStore 1 "''s''" NoStream "\<lambda>_. 7" "''x''"]
    by (auto simp: NewEventStore_def check_revision_def stream_def)
  have "res = \<lparr>ar_Successful = True, ar_StreamID = ''s'', ar_NextExpectedVersion = 1, ar_GlobalPosition = 1\<rparr>"
    using Save_log [OF demo_new_ok s] by (simp add: history_of_def log_of_def NewEventStore_def)
  with s show ?thesis unfolding demo_store_def by (simp only: fst_conv)
qed

lemma demo_store_reachable: "store_reachable demo_impl demo_reg demo_store"
  by (rule store_reachable.save [OF store_reachable.new demo_save])

lemma demo_store_ok [simp]: "store_ok demo_impl demo_reg demo_store"
  by (rule store_ok_Save [OF demo_new_ok demo_save])

lemma demo_log:
  "log_of demo_impl demo_reg demo_store = [stamped (\<lambda>_. 7) 0 0 0 (demo_env 1 ''s'' ''x'')]"
  using Save_log [OF demo_new_ok demo_save] by (simp add: history_of_def log_of_def NewEventStore_def)

lemma demo_history:
  "history_of demo_impl demo_reg demo_store ''s'' = [stamped (\<lambda>_. 7) 0 0 0 (demo_env 1 ''s'' ''x'')]"
  by (simp add: history_of_def demo_log stamped_def)

lemma demo_stream: "length (stream demo_store ''s'') = 1"
  using demo_history history_stream [OF store_okD [OF demo_store_ok], of demo_impl demo_reg "''s''"]
  by (metis length_map length_Cons list.size(3) One_nat_def)

lemma demo_open: "\<not> es_closed demo_store"
  using demo_log store_okD [OF demo_store_ok] by (auto simp: store_inv_def log_of_def)

section \<open>Where a reader ends\<close>

text \<open>Reading to the end from inside the log ends at the head; what is appended later lies beyond it.\<close>

lemma read_pages_end:
  assumes "store_ok impl reg m" "after \<le> Head m"
    and "read_pages fuel (\<lambda>a. ReadAll impl reg None m a opts) after = Some (Inr (evs, nxt))"
  shows "nxt = Head m"
  using assms(2,3)
proof (induction fuel arbitrary: after evs)
  case (Suc fuel)
  obtain k evs' where k: "k \<le> length (log_of impl reg m) - after"
    "ReadAll impl reg None m after opts =
        Inr \<lparr>rr_Events = evs', rr_Next = after + k, rr_AtEnd = (length (log_of impl reg m) \<le> after + k)\<rparr>"
    using ReadAll_spec [OF assms(1), of after opts] by (elim exE conjE)
  have "after + k \<le> Head m" using k(1) Suc.prems(1) by (simp add: Head_def log_of_def)
  with Suc.prems Suc.IH [of "after + k"] k show ?case
    by (auto simp: Head_def log_of_def split: if_splits option.splits sum.splits)
qed simp

lemma new_positions:
  assumes "map GlobalPosition old = [1..<Suc (length old)]"
    and "map GlobalPosition (old @ new) = [1..<Suc (length (old @ new))]"
  shows "\<forall>e \<in> set new. length old < GlobalPosition e"
proof -
  have "map GlobalPosition new = drop (length old) (map GlobalPosition (old @ new))" by simp
  also have "\<dots> = [Suc (length old)..<Suc (length (old @ new))]"
    unfolding assms(2) by (simp add: drop_upt del: upt_Suc)
  finally have "GlobalPosition ` set new = set [Suc (length old)..<Suc (length (old @ new))]"
    by (metis set_map)
  then have "\<forall>p \<in> GlobalPosition ` set new. length old < p" by (auto simp only: set_upt atLeastLessThan_iff Suc_le_eq)
  then show ?thesis by simp
qed

section \<open>Properties\<close>

text \<open>
  (C4) Every reachable store keeps its structure: the global positions are \<open>1, 2, \<dots>\<close> in append
  order, a stream is exactly the sub-log of its events in that order, and its versions are
  \<open>1, 2, \<dots>\<close> without gaps.
\<close>

theorem store_structure:
  assumes "store_reachable impl reg m"
  shows "map (GlobalPosition \<circ> r_env) (es_global m) = [1..<Suc (length (es_global m))]
    \<and> stream m sid = filter (\<lambda>r. StreamID (r_env r) = sid) (es_global m)
    \<and> map (Version \<circ> r_env) (stream m sid) = [1..<Suc (length (stream m sid))]"
proof -
  have "store_inv m"
    using assms by induction (use store_inv_NewEventStore store_inv_Save store_inv_CloseStore in blast)+
  then show ?thesis unfolding store_inv_def by blast
qed

theorem store_structure_witness:
  "map (GlobalPosition \<circ> r_env) (es_global demo_store) = [1] \<and> length (stream demo_store ''s'') = 1"
proof -
  have "length (es_global demo_store) = 1"
    using arg_cong [OF demo_log, of length] by (simp add: log_of_def)
  then have "map (GlobalPosition \<circ> r_env) (es_global demo_store) = [1]"
    using store_structure [OF demo_store_reachable, of "''s''"] by simp
  with demo_stream show ?thesis by (rule conjI [rotated])
qed

text \<open>
  (C2) \<open>Save\<close> is all or nothing. A failed save changes nothing and reports no success; a successful
  one appends exactly the batch, all of one stream, to the log, each event keeping its identity, payload,
  correlation and causation and stamped with the next version of the stream and the next global
  position; the result names the new version and position.
\<close>

theorem save_effect:
  assumes "store_ok impl reg m" "Save impl reg now m events revision = (m', res, err)"
  shows "(err \<noteq> None \<longrightarrow> m' = m \<and> \<not> ar_Successful res)
    \<and> (err = None \<longrightarrow> log_of impl reg m' = log_of impl reg m @
         stamp_batch now 0 (length (history_of impl reg m (StreamID (hd events)))) (length (log_of impl reg m)) events)
    \<and> (err = None \<and> events \<noteq> [] \<longrightarrow> (\<forall>env \<in> set events. StreamID env = StreamID (hd events))
         \<and> res = \<lparr>ar_Successful = True, ar_StreamID = StreamID (hd events),
             ar_NextExpectedVersion = length (history_of impl reg m' (StreamID (hd events))),
             ar_GlobalPosition = length (log_of impl reg m')\<rparr>)"
proof (cases err)
  case (Some e)
  with Save_failed [of impl reg now m events revision m' res e] assms(2) show ?thesis by simp
next
  case None
  show ?thesis
  proof (cases "events = []")
    case True
    then show ?thesis using assms(2) None by (auto simp: Save_empty)
  next
    case False
    note s = assms(2) [unfolded None]
    note l = Save_log [OF assms(1) s False]
      and h = Save_history [OF assms(1) s False, of "StreamID (hd events)"]
    from l have log: "log_of impl reg m' = log_of impl reg m @
         stamp_batch now 0 (length (history_of impl reg m (StreamID (hd events)))) (length (log_of impl reg m)) events"
      by blast
    have lens: "length (history_of impl reg m' (StreamID (hd events))) =
        length (history_of impl reg m (StreamID (hd events))) + length events"
      unfolding h by (simp add: stamp_batch_fields(1))
    have lenl: "length (log_of impl reg m') = length (log_of impl reg m) + length events"
      unfolding log by (simp add: stamp_batch_fields(1))
    show ?thesis using l None unfolding lens lenl by blast
  qed
qed

theorem save_effect_witness:
  "log_of demo_impl demo_reg demo_store = [stamped (\<lambda>_. 7) 0 0 0 (demo_env 1 ''s'' ''x'')]"
  using save_effect [OF demo_new_ok demo_save]
  by (simp add: history_of_def log_of_def NewEventStore_def)

text \<open>
  (C3) Optimistic concurrency. On an open store, a batch that validates and encodes is accepted
  exactly when the caller's expectation holds of the stream: always under \<open>Any\<close>, on an empty stream
  under \<open>NoStream\<close>, on a non-empty one under \<open>StreamExists\<close>, at version \<open>r\<close> under \<open>Revision r\<close>. Each
  rejection carries its own error, a conflict the expected and the actual revision.
\<close>

theorem save_revision_check:
  assumes "store_ok impl reg m" "\<not> es_closed m" "events \<noteq> []" "sid = StreamID (hd events)"
    and "validate_batch sid events = None" "encode_batch impl reg now 0 events = Inr recs"
    and "v = length (history_of impl reg m sid)"
  shows "snd (snd (Save impl reg now m events Any)) = None
    \<and> (case snd (snd (Save impl reg now m events NoStream)) of
         None \<Rightarrow> v = 0 | Some err \<Rightarrow> v > 0 \<and> errors_Is err ErrStreamExists)
    \<and> (case snd (snd (Save impl reg now m events StreamExists)) of
         None \<Rightarrow> v > 0 | Some err \<Rightarrow> v = 0 \<and> errors_Is err ErrStreamNotFound)
    \<and> (case snd (snd (Save impl reg now m events (Revision r))) of
         None \<Rightarrow> v = r
       | Some err \<Rightarrow> v \<noteq> r \<and> As_conflict err = Some (sid, Some (Revision r), Some (Revision v)))
    \<and> (case snd (snd (Save impl reg now m events (OtherState k))) of
         None \<Rightarrow> False | Some err \<Rightarrow> errors_Is err ErrInvalidRevision)"
proof -
  obtain env0 envs where ev: "events = env0 # envs" using assms(3) by (cases events) auto
  have "v = length (stream m sid)"
    using assms(7) history_stream [OF store_okD [OF assms(1)]] by simp
  moreover have "\<And>st. snd (snd (Save impl reg now m events st)) =
      map_option snd (check_revision sid (length (stream m sid)) st)"
    using assms(2,4-6) unfolding ev
    by (auto simp: Save_def Let_def simp del: validate_batch.simps encode_batch.simps split: option.splits prod.splits)
  ultimately show ?thesis by (simp add: check_revision_def)
qed

theorem save_revision_check_witness:
  "\<exists>err. snd (snd (Save demo_impl demo_reg (\<lambda>_. 7) demo_store [demo_env 2 ''s'' ''y''] (Revision 4))) = Some err
     \<and> As_conflict err = Some (''s'', Some (Revision 4), Some (Revision 1))"
proof -
  obtain recs where r: "encode_batch demo_impl demo_reg (\<lambda>_. 7) 0 [demo_env 2 ''s'' ''y''] = Inr recs"
    using demo_encode by blast
  have v: "validate_batch ''s'' [demo_env 2 ''s'' ''y''] = None" by (rule demo_valid) simp
  have "1 = length (history_of demo_impl demo_reg demo_store ''s'')" by (simp add: demo_history)
  from save_revision_check [OF demo_store_ok demo_open _ _ v r this, of 4 0]
  show ?thesis by (auto split: option.splits)
qed

text \<open>
  A batch that mixes streams or holds an event without an ID is refused with
  \<open>ErrInvalidEventBatch\<close>, whatever revision is expected; nothing is stored.
\<close>

theorem save_rejects_invalid:
  assumes "events \<noteq> []"
    and "\<exists>env \<in> set events. StreamID env \<noteq> StreamID (hd events) \<or> EventID env = uuid_Nil"
  shows "\<exists>err. Save impl reg now m events revision = (m, failed_result (StreamID (hd events)), Some err)
    \<and> errors_Is err ErrInvalidEventBatch"
proof -
  obtain err where "validate_batch (StreamID (hd events)) events = Some err"
    using assms(2) validate_batch_None [of "StreamID (hd events)" events] by (metis not_None_eq)
  with assms(1) validate_batch_Some show ?thesis
    by (cases events) (auto simp: Save_def Let_def simp del: validate_batch.simps)
qed

theorem save_rejects_invalid_witness:
  "\<exists>err. Save demo_impl demo_reg (\<lambda>_. 7) demo_store [demo_env 2 ''s'' ''y'', demo_env 3 ''t'' ''z''] Any =
     (demo_store, failed_result ''s'', Some err) \<and> errors_Is err ErrInvalidEventBatch"
  using save_rejects_invalid [of "[demo_env 2 ''s'' ''y'', demo_env 3 ''t'' ''z'']" demo_impl demo_reg "\<lambda>_. 7" demo_store Any]
  by simp

text \<open>
  (C12) Save and load. After a successful save, loading the stream gives the old history followed by
  the saved events, and loading it from the revision it had before gives exactly the saved events,
  those with a version strictly above that revision; every other stream loads as before.
\<close>

theorem save_load_roundtrip:
  assumes "store_ok impl reg m" "Save impl reg now m events revision = (m', res, None)" "events \<noteq> []"
    and "sid = StreamID (hd events)" "v = length (history_of impl reg m sid)"
    and "saved = stamp_batch now 0 v (length (log_of impl reg m)) events"
    and "\<forall>k. ctx k = None"
  shows "load_all impl reg ctx m' sid Any = Inr (history_of impl reg m sid @ saved, None)
    \<and> load_all impl reg ctx m' sid StreamExists = load_all impl reg ctx m' sid Any
    \<and> load_all impl reg ctx m' sid (Revision v) = Inr (saved, None)
    \<and> map Version saved = [Suc v..<Suc (v + length events)]
    \<and> (\<forall>other. other \<noteq> sid \<longrightarrow> load_all impl reg ctx m' other Any = load_all impl reg ctx m other Any)"
proof -
  note ok' = store_ok_Save [OF assms(1,2)]
  have h: "history_of impl reg m' sid = history_of impl reg m sid @ saved"
    using Save_history [OF assms(1-3), of sid] assms(4-6) by simp
  have len: "length (stream m' sid) = v + length events"
    using arg_cong [OF h, of length] assms(5,6) history_stream [OF store_okD [OF ok'], of impl reg sid]
    by (simp add: stamp_batch_fields(1))
  then have "stream m' sid \<noteq> []" using assms(3) by auto
  then have "es_events m' sid \<noteq> None" by (auto simp: stream_def split: option.splits)
  then have off: "load_offset m' sid Any = Inr 0" "load_offset m' sid StreamExists = Inr 0"
    "load_offset m' sid (Revision v) = Inr v"
    using len by (simp_all add: load_offset_def)
  have "load_all impl reg ctx m' other Any = load_all impl reg ctx m other Any" if "other \<noteq> sid" for other
    using load_all_live [OF ok' _ assms(7), of other Any 0] load_all_live [OF assms(1) _ assms(7), of other Any 0]
      Save_history [OF assms(1-3), of other] that assms(4)
    by (simp add: load_offset_def)
  then show ?thesis
    using off [THEN load_all_live [OF ok' _ assms(7)]] assms(5,6)
    by (simp add: h stamp_batch_fields(4))
qed

theorem save_load_roundtrip_witness:
  "load_all demo_impl demo_reg (\<lambda>_. None) demo_store ''s'' Any =
     Inr ([stamped (\<lambda>_. 7) 0 0 0 (demo_env 1 ''s'' ''x'')], None)"
  using save_load_roundtrip [OF demo_new_ok demo_save _ refl refl refl, of "\<lambda>_. None"]
  by (simp add: history_of_def log_of_def NewEventStore_def)

text \<open>
  What loading a stream finds depends on the stream only as \<open>LoadStreamFrom\<close> documents: \<open>Any\<close>
  never fails, \<open>StreamExists\<close> fails with \<open>ErrStreamNotFound\<close> exactly on an empty stream, \<open>NoStream\<close>
  with \<open>ErrStreamExists\<close> exactly on a non-empty one, and \<open>Revision r\<close> with \<open>ErrInvalidRevision\<close>
  exactly beyond the end of the stream; a failure is reported before any event is delivered.
\<close>

theorem load_errors:
  assumes "store_ok impl reg m" "v = length (history_of impl reg m sid)"
  shows "(\<exists>it. LoadStreamFrom impl reg ctx m sid Any = Inr it)
    \<and> (case LoadStreamFrom impl reg ctx m sid StreamExists of
         Inl err \<Rightarrow> v = 0 \<and> errors_Is err ErrStreamNotFound | Inr _ \<Rightarrow> v > 0)
    \<and> (case LoadStreamFrom impl reg ctx m sid NoStream of
         Inl err \<Rightarrow> v > 0 \<and> errors_Is err ErrStreamExists | Inr _ \<Rightarrow> v = 0)
    \<and> (case LoadStreamFrom impl reg ctx m sid (Revision r) of
         Inl err \<Rightarrow> v < r \<and> errors_Is err ErrInvalidRevision | Inr _ \<Rightarrow> r \<le> v)
    \<and> LoadStream impl reg ctx m sid = LoadStreamFrom impl reg ctx m sid StreamExists"
proof -
  have inv: "store_inv m" by (rule store_okD [OF assms(1)])
  have len: "v = length (stream m sid)" using assms(2) history_stream [OF inv] by simp
  have "es_events m sid \<noteq> Some []" using inv unfolding store_inv_def by blast
  then have "es_events m sid = None \<longleftrightarrow> v = 0"
    unfolding len by (auto simp: stream_def split: option.splits)
  then show ?thesis
    by (auto simp: LoadStreamFrom_def LoadStream_def load_offset_def len)
qed

theorem load_errors_witness:
  "\<exists>err. LoadStreamFrom demo_impl demo_reg (\<lambda>_. None) demo_store ''s'' (Revision 2) = Inl err
     \<and> errors_Is err ErrInvalidRevision"
proof -
  have "1 = length (history_of demo_impl demo_reg demo_store ''s'')" by (simp add: demo_history)
  from load_errors [OF demo_store_ok this, of "\<lambda>_. None" 2] show ?thesis by (auto split: sum.splits)
qed

text \<open>
  A page of \<open>ReadAll\<close> holds exactly the selected events after the given position and up to
  \<open>Next\<close>, in ascending order, at most \<open>Limit\<close> (500 when that is not positive); it is full or the end
  of the log is reached, \<open>AtEnd\<close> says which, and \<open>Next\<close> advances when there is more.
\<close>

theorem read_all_page:
  assumes "store_ok impl reg m"
  shows "\<exists>res. ReadAll impl reg None m after opts = Inr res
    \<and> rr_Events res = filter (\<lambda>e. after < GlobalPosition e \<and> GlobalPosition e \<le> rr_Next res \<and> selects impl opts e)
                        (log_of impl reg m)
    \<and> sorted_wrt (<) (map GlobalPosition (rr_Events res))
    \<and> length (rr_Events res) \<le> (if ro_Limit opts \<le> 0 then 500 else nat (ro_Limit opts))
    \<and> (rr_AtEnd res \<longleftrightarrow> Head m \<le> rr_Next res)
    \<and> (\<not> rr_AtEnd res \<longrightarrow> after < rr_Next res \<and> length (rr_Events res) = page_limit opts)"
proof -
  obtain k evs where k: "ReadAll impl reg None m after opts =
        Inr \<lparr>rr_Events = evs, rr_Next = after + k, rr_AtEnd = (length (log_of impl reg m) \<le> after + k)\<rparr>"
    "length evs \<le> page_limit opts"
    "after + k < length (log_of impl reg m) \<longrightarrow> 0 < k \<and> length evs = page_limit opts"
    using ReadAll_spec [OF assms, of after opts] by (elim exE conjE)
  from mlog.page_events [OF assms k(1)] mlog.page_ascending [OF assms k(1)] k show ?thesis
    by (intro exI [of _ "\<lparr>rr_Events = evs, rr_Next = after + k, rr_AtEnd = (length (log_of impl reg m) \<le> after + k)\<rparr>"])
      (auto simp: page_limit_def Head_def log_of_def)
qed

theorem read_all_page_witness:
  "\<exists>res. ReadAll demo_impl demo_reg None demo_store 0 \<lparr>ro_Limit = 1, ro_EventTypes = [], ro_StreamPrefixes = [''s'']\<rparr> = Inr res
     \<and> length (rr_Events res) \<le> 1"
  using read_all_page [OF demo_store_ok, of 0 "\<lparr>ro_Limit = 1, ro_EventTypes = [], ro_StreamPrefixes = [''s'']\<rparr>"]
  by auto

text \<open>
  (C11) Catching up and resuming. Reading page by page from any position ends, having delivered every
  selected event after it exactly once and in order. When other clients then save, whatever they
  save, and the reader resumes from the position it had reached, the two runs together deliver
  exactly the selected events of the grown log: none is missed, none is repeated.
\<close>

theorem read_resume_exactly_once:
  assumes "store_ok impl reg m" "m' = run_saves (Save impl reg now) saves m"
    and "after \<le> Head m" "Head m < fuel" "Head m' < fuel"
  shows "\<exists>evs nxt evs' nxt'.
      read_pages fuel (\<lambda>a. ReadAll impl reg None m a opts) after = Some (Inr (evs, nxt))
    \<and> evs = filter (\<lambda>e. after < GlobalPosition e \<and> selects impl opts e) (log_of impl reg m)
    \<and> read_pages fuel (\<lambda>a. ReadAll impl reg None m' a opts) nxt = Some (Inr (evs', nxt'))
    \<and> evs @ evs' = filter (\<lambda>e. after < GlobalPosition e \<and> selects impl opts e) (log_of impl reg m')"
proof -
  have ok': "store_ok impl reg m'" and pre: "prefix (log_of impl reg m) (log_of impl reg m')"
    using run_saves_log [OF assms(1)] assms(2) by blast+
  have short: "length (filter P (log_of impl reg s)) \<le> Head s" for P s
    using length_filter_le [of P "log_of impl reg s"] by (simp add: Head_def log_of_def)
  obtain nxt where a: "read_pages fuel (\<lambda>a. ReadAll impl reg None m a opts) after =
      Some (Inr (filter (\<lambda>e. after < GlobalPosition e \<and> selects impl opts e) (log_of impl reg m), nxt))"
    "after \<le> nxt" "\<forall>e \<in> set (log_of impl reg m). GlobalPosition e \<le> nxt"
    using mlog.read_pages_complete [OF assms(1) TrueI, of after fuel opts] short assms(4) by (meson le_less_trans)
  obtain nxt' where b: "read_pages fuel (\<lambda>a. ReadAll impl reg None m' a opts) nxt =
      Some (Inr (filter (\<lambda>e. nxt < GlobalPosition e \<and> selects impl opts e) (log_of impl reg m'), nxt'))"
    using mlog.read_pages_complete [OF ok' TrueI, of nxt fuel opts] short assms(5) by (meson le_less_trans)
  have nxt: "nxt = Head m"
    by (rule read_pages_end [OF assms(1,3) a(1)])
  obtain new where new: "log_of impl reg m' = log_of impl reg m @ new" using pre by (auto simp: prefix_def)
  have "map GlobalPosition (log_of impl reg m @ new) = [1..<Suc (length (log_of impl reg m @ new))]"
    using store_ok_positions [OF ok'] by (simp only: new)
  then have "\<forall>e \<in> set new. nxt < GlobalPosition e"
    using new_positions [OF store_ok_positions [OF assms(1)]] by (simp add: nxt Head_def log_of_def)
  moreover have "filter (\<lambda>e. nxt < GlobalPosition e \<and> selects impl opts e) (log_of impl reg m) = []"
    using a(3) by (auto simp: filter_empty_conv)
  ultimately have "filter (\<lambda>e. after < GlobalPosition e \<and> selects impl opts e) (log_of impl reg m')
      = filter (\<lambda>e. after < GlobalPosition e \<and> selects impl opts e) (log_of impl reg m)
        @ filter (\<lambda>e. nxt < GlobalPosition e \<and> selects impl opts e) (log_of impl reg m')"
    using a(2) by (auto simp: new intro!: filter_cong)
  with a(1) b show ?thesis
    by (intro exI conjI) (rule a(1), rule refl, rule b, erule sym)
qed


theorem read_resume_exactly_once_witness:
  "\<exists>evs nxt evs' nxt'.
      read_pages 9 (\<lambda>a. ReadAll demo_impl demo_reg None NewEventStore a demo_opts) 0 = Some (Inr (evs, nxt))
    \<and> read_pages 9 (\<lambda>a. ReadAll demo_impl demo_reg None demo_store a demo_opts) nxt = Some (Inr (evs', nxt'))
    \<and> evs @ evs' = [stamped (\<lambda>_. 7) 0 0 0 (demo_env 1 ''s'' ''x'')]"
proof -
  have run: "demo_store = run_saves (Save demo_impl demo_reg (\<lambda>_. 7)) [([demo_env 1 ''s'' ''x''], NoStream)] NewEventStore"
    by (simp add: demo_store_def)
  have heads: "Head demo_store < 9" "Head (NewEventStore :: (string, unit) event_store) < 9"
    using arg_cong [OF demo_log, of length] by (simp_all add: Head_def log_of_def NewEventStore_def)
  have "filter (\<lambda>e. 0 < GlobalPosition e \<and> selects demo_impl demo_opts e) (log_of demo_impl demo_reg demo_store) =
      [stamped (\<lambda>_. 7) 0 0 0 (demo_env 1 ''s'' ''x'')]"
    by (simp add: demo_log stamped_def selects_def demo_opts_def)
  with read_resume_exactly_once [OF demo_new_ok run le0 heads(2,1), of demo_opts] show ?thesis
    by (elim exE conjE) (simp only:, blast)
qed

text \<open>
  \<open>LoadCorrelation\<close> refuses an empty ID; otherwise it delivers exactly the events of that
  correlation, across all streams, in the order they were appended.
\<close>

theorem load_correlation_chain:
  assumes "store_ok impl reg m" "\<forall>k. ctx k = None"
  shows "(case LoadCorrelation impl reg ctx m cid of
       Inl err \<Rightarrow> cid = [] \<and> errors_Is err ErrEmptyCorrelationID
     | Inr it \<Rightarrow> cid \<noteq> []
         \<and> All (Suc (length (es_global m))) it =
             Some (map Some (filter (\<lambda>e. CorrelationID e = cid) (log_of impl reg m)), None))"
proof (cases "cid = []")
  case True
  then show ?thesis by (simp add: LoadCorrelation_def)
next
  case False
  let ?c = "filter (\<lambda>r. CorrelationID (r_env r) = cid) (es_global m)"
  have "\<forall>r \<in> set ?c. record_ok impl reg r" using assms(1) by (auto simp: store_ok_def)
  moreover have "length ?c - 0 < Suc (length (es_global m))" by (simp add: less_Suc_eq_le)
  ultimately have "\<exists>ys zs err. All (Suc (length (es_global m)))
      (NewIteratorFunc ctx (snapshot_next impl reg (''load correlation '' @ cid) ?c) None 0) = Some (map Some ys, err)
    \<and> map (decoded impl reg) (drop 0 ?c) = ys @ zs \<and> (err = None \<longrightarrow> zs = [])
    \<and> ((\<forall>k. ctx k = None) \<longrightarrow> zs = [] \<and> err = None)"
    by (rule snapshot_All)
  moreover have "filter (\<lambda>e. CorrelationID e = cid) (log_of impl reg m) = map (decoded impl reg) ?c"
    by (simp add: log_of_def filter_map o_def)
  ultimately show ?thesis
    using False assms(2) by (auto simp: LoadCorrelation_def Let_def)
qed

theorem load_correlation_chain_witness:
  "\<exists>it. LoadCorrelation demo_impl demo_reg (\<lambda>_. None) demo_store ''c'' = Inr it
     \<and> All 2 it = Some ([Some (stamped (\<lambda>_. 7) 0 0 0 (demo_env 1 ''s'' ''x''))], None)"
proof -
  have "Suc (length (es_global demo_store)) = 2"
    using arg_cong [OF demo_log, of length] by (simp add: log_of_def)
  moreover have "filter (\<lambda>e. CorrelationID e = ''c'') (log_of demo_impl demo_reg demo_store) =
      [stamped (\<lambda>_. 7) 0 0 0 (demo_env 1 ''s'' ''x'')]"
    by (simp add: demo_log stamped_def)
  ultimately show ?thesis
    using load_correlation_chain [OF demo_store_ok, of "\<lambda>_. None" "''c''"]
    by (cases "LoadCorrelation demo_impl demo_reg (\<lambda>_. None) demo_store ''c''") (simp_all add: numeral_2_eq_2)
qed

end
