(* ===== verification/ES_Log_Refinement.thy ===== *)
theory ES_Log_Refinement
  imports ES_Memory_Props
begin

text \<open>
  The in-memory event store refines the simplest event store there is: one list of envelopes. The
  abstract log has no per-stream index, no encoded records and no iterators; a save appends to the
  list, a load filters it, a read cuts a page out of it. \<open>store_run\<close> and \<open>log_run\<close> execute the same
  sequence of calls on the two, and the refinement theorem says that they give the same answers.
\<close>

section \<open>The abstract log\<close>

record ('e, 'v) event_log =
  lg_closed :: bool
  lg_events :: "('e, 'v) envelope list"

datatype ('e, 'v) store_call =
    CallSave "nat \<Rightarrow> gotime" "('e, 'v) envelope list" stream_state
  | CallLoad string stream_state
  | CallRead uint64 read_options
  | CallCorrelation string
  | CallHead
  | CallClose

datatype ('e, 'v) store_answer =
    Saved uint64 uint64 \<comment> \<open>the version of the stream and the position of the log after the save\<close>
  | Delivered "('e, 'v) envelope list"
  | Page "('e, 'v) read_result"
  | AtPosition uint64
  | Refused

definition expectation_met :: "stream_state \<Rightarrow> nat \<Rightarrow> bool" where
  "expectation_met st version =
     (case st of Any \<Rightarrow> True | NoStream \<Rightarrow> version = 0 | StreamExists \<Rightarrow> version > 0 | Revision r \<Rightarrow> version = r | OtherState _ \<Rightarrow> False)"

definition load_allowed :: "stream_state \<Rightarrow> nat \<Rightarrow> bool" where
  "load_allowed st version =
     (case st of NoStream \<Rightarrow> version = 0 | StreamExists \<Rightarrow> version > 0 | Revision r \<Rightarrow> r \<le> version | _ \<Rightarrow> True)"

definition encodable :: "('e, 'v) event_impl \<Rightarrow> 'e registry \<Rightarrow> ('e, 'v) envelope \<Rightarrow> bool" where
  "encodable impl reg env = (\<not> isl (EncodeEvent impl reg (Event env)) \<and> \<not> isl (EncodeMetadata impl (Metadata env)))"

definition in_stream :: "string \<Rightarrow> ('e, 'v) envelope list \<Rightarrow> ('e, 'v) envelope list" where
  "in_stream sid L = filter (\<lambda>env. StreamID env = sid) L"

definition log_save :: "('e, 'v) event_impl \<Rightarrow> 'e registry \<Rightarrow> (nat \<Rightarrow> gotime) \<Rightarrow> ('e, 'v) envelope list \<Rightarrow> stream_state
    \<Rightarrow> ('e, 'v) event_log \<Rightarrow> ('e, 'v) event_log \<times> ('e, 'v) store_answer" where
  "log_save impl reg now events st L =
     (if events = [] then (L, Saved 0 0)
      else let sid = StreamID (hd events); version = length (in_stream sid (lg_events L)) in
        if list_all (\<lambda>env. StreamID env = sid \<and> EventID env \<noteq> uuid_Nil \<and> encodable impl reg env) events
           \<and> \<not> lg_closed L \<and> expectation_met st version
        then (L\<lparr>lg_events := lg_events L @ stamp_batch now 0 version (length (lg_events L)) events\<rparr>,
              Saved (version + length events) (length (lg_events L) + length events))
        else (L, Refused))"

definition log_page :: "('e, 'v) event_impl \<Rightarrow> uint64 \<Rightarrow> read_options \<Rightarrow> ('e, 'v) envelope list \<Rightarrow> ('e, 'v) read_result" where
  "log_page impl after opts L =
     (let sel = filter (selects impl opts) (drop after L);
          full = (page_limit opts \<le> length sel);
          nxt = (if full then GlobalPosition (sel ! (page_limit opts - 1)) else max after (length L))
      in \<lparr>rr_Events = take (page_limit opts) sel, rr_Next = nxt, rr_AtEnd = (length L \<le> nxt)\<rparr>)"

fun log_call :: "('e, 'v) event_impl \<Rightarrow> 'e registry \<Rightarrow> ('e, 'v) store_call \<Rightarrow> ('e, 'v) event_log
    \<Rightarrow> ('e, 'v) event_log \<times> ('e, 'v) store_answer" where
  "log_call impl reg (CallSave now events st) L = log_save impl reg now events st L"
| "log_call impl reg (CallLoad sid st) L =
     (L, if load_allowed st (length (in_stream sid (lg_events L)))
         then Delivered (drop (load_start st) (in_stream sid (lg_events L))) else Refused)"
| "log_call impl reg (CallRead after opts) L = (L, Page (log_page impl after opts (lg_events L)))"
| "log_call impl reg (CallCorrelation cid) L =
     (L, if cid = [] then Refused else Delivered (filter (\<lambda>env. CorrelationID env = cid) (lg_events L)))"
| "log_call impl reg CallHead L = (L, AtPosition (length (lg_events L)))"
| "log_call impl reg CallClose L = (\<lparr>lg_closed = True, lg_events = []\<rparr>, AtPosition 0)"

section \<open>The same calls on the store\<close>

text \<open>The answers of the store as a caller with a live context sees them; an iterator is read to its end.\<close>

definition read_to_end :: "nat \<Rightarrow> go_error + (nat, ('e, 'v) envelope) iterator \<Rightarrow> ('e, 'v) store_answer" where
  "read_to_end fuel r =
     (case r of
        Inl _ \<Rightarrow> Refused
      | Inr it \<Rightarrow> (case All fuel it of Some (items, None) \<Rightarrow> Delivered (map the items) | _ \<Rightarrow> Refused))"

fun exec_call :: "('e, 'v) event_impl \<Rightarrow> 'e registry \<Rightarrow> ('e, 'v) store_call \<Rightarrow> ('e, 'v) event_store
    \<Rightarrow> ('e, 'v) event_store \<times> ('e, 'v) store_answer" where
  "exec_call impl reg (CallSave now events st) m =
     (case Save impl reg now m events st of
        (m', res, None) \<Rightarrow> (m', Saved (ar_NextExpectedVersion res) (ar_GlobalPosition res))
      | (m', res, Some _) \<Rightarrow> (m', Refused))"
| "exec_call impl reg (CallLoad sid st) m =
     (m, read_to_end (Suc (length (es_global m))) (LoadStreamFrom impl reg (\<lambda>_. None) m sid st))"
| "exec_call impl reg (CallRead after opts) m =
     (m, case ReadAll impl reg None m after opts of Inl _ \<Rightarrow> Refused | Inr res \<Rightarrow> Page res)"
| "exec_call impl reg (CallCorrelation cid) m =
     (m, read_to_end (Suc (length (es_global m))) (LoadCorrelation impl reg (\<lambda>_. None) m cid))"
| "exec_call impl reg CallHead m = (m, AtPosition (Head m))"
| "exec_call impl reg CallClose m = (CloseStore m, AtPosition 0)"

fun run_calls :: "('c \<Rightarrow> 's \<Rightarrow> 's \<times> 'a) \<Rightarrow> 'c list \<Rightarrow> 's \<Rightarrow> 's \<times> 'a list" where
  "run_calls f [] s = (s, [])"
| "run_calls f (c # cs) s = (case f c s of (s', a) \<Rightarrow> (case run_calls f cs s' of (s'', as) \<Rightarrow> (s'', a # as)))"

definition abs_log :: "('e, 'v) event_impl \<Rightarrow> 'e registry \<Rightarrow> ('e, 'v) event_store \<Rightarrow> ('e, 'v) event_log" where
  "abs_log impl reg m = \<lparr>lg_closed = es_closed m, lg_events = log_of impl reg m\<rparr>"

section \<open>The simulation\<close>

lemma abs_log_simps [simp]: "lg_closed (abs_log impl reg m) = es_closed m" "lg_events (abs_log impl reg m) = log_of impl reg m"
  by (simp_all add: abs_log_def)

lemma in_stream_log: "in_stream sid (log_of impl reg m) = history_of impl reg m sid"
  by (simp add: in_stream_def history_of_def)

lemma check_revision_None: "check_revision sid v st = None \<longleftrightarrow> expectation_met st v"
  by (auto simp: check_revision_def expectation_met_def split: stream_state.splits)

lemma encode_batch_encodable: "\<not> isl (encode_batch impl reg now i envs) \<longleftrightarrow> list_all (encodable impl reg) envs"
proof (induction envs arbitrary: i)
  case (Cons env envs)
  have "isl (encode_batch impl reg now i (env # envs)) \<longleftrightarrow> \<not> encodable impl reg env \<or> isl (encode_batch impl reg now (Suc i) envs)"
    by (auto simp: encodable_def Let_def split: sum.splits)
  then show ?case by (simp add: Cons.IH del: encode_batch.simps)
qed simp

lemma save_refines:
  assumes ok: "store_ok impl reg m" and s: "exec_call impl reg (CallSave now events st) m = (m', a)"
  shows "log_call impl reg (CallSave now events st) (abs_log impl reg m) = (abs_log impl reg m', a)"
proof (cases "events = []")
  case True
  then show ?thesis using s by (auto simp: Save_empty log_save_def zero_result_def)
next
  case False
  obtain env0 envs where ev: "events = env0 # envs" using False by (cases events) auto
  let ?sid = "StreamID (hd events)"
  obtain mm res err where sv: "Save impl reg now m events st = (mm, res, err)" by (metis prod_cases3)
  have len: "length (history_of impl reg m ?sid) = length (stream m ?sid)"
    using history_stream [OF store_okD [OF ok], of impl reg ?sid] by simp
  have acc: "err = None \<longleftrightarrow> validate_batch ?sid events = None \<and> \<not> isl (encode_batch impl reg now 0 events) \<and> \<not> es_closed m
      \<and> check_revision ?sid (length (stream m ?sid)) st = None"
    using sv unfolding ev
    by (cases "validate_batch (StreamID env0) (env0 # envs)"; cases "encode_batch impl reg now 0 (env0 # envs)";
        cases "check_revision (StreamID env0) (length (stream m (StreamID env0))) st"; cases "es_closed m")
      (simp_all add: Save_def Let_def del: validate_batch.simps encode_batch.simps split: prod.splits, blast+)
  have all: "err = None \<longleftrightarrow> list_all (\<lambda>env. StreamID env = ?sid \<and> EventID env \<noteq> uuid_Nil \<and> encodable impl reg env) events
      \<and> \<not> es_closed m \<and> expectation_met st (length (history_of impl reg m ?sid))"
    unfolding acc validate_batch_None encode_batch_encodable check_revision_None len by (auto simp: list_all_iff)
  show ?thesis
  proof (cases err)
    case (Some e)
    have "m' = m" "a = Refused" using s sv Some Save_failed [of impl reg now m events st mm res e] by auto
    then show ?thesis using Some all False by (auto simp: log_save_def Let_def in_stream_log)
  next
    case None
    note s' = sv [unfolded None]
    have cl: "es_closed mm = es_closed m" by (rule Save_successE [OF s' False]) simp
    have lens: "length (stream m ?sid) + length events = ar_NextExpectedVersion res" "length (es_global m) + length events = ar_GlobalPosition res"
      by (rule Save_successE [OF s' False], simp)+
    have "m' = mm" "a = Saved (ar_NextExpectedVersion res) (ar_GlobalPosition res)" using s sv None by auto
    moreover have "log_of impl reg mm = log_of impl reg m @
        stamp_batch now 0 (length (history_of impl reg m ?sid)) (length (log_of impl reg m)) events"
      using Save_log [OF ok s' False] by blast
    moreover have "length (log_of impl reg m) = length (es_global m)" by (simp add: log_of_def)
    ultimately show ?thesis
      using None all False cl lens len by (simp add: log_save_def Let_def in_stream_log abs_log_def)
  qed
qed

lemma store_ok_call:
  assumes "store_ok impl reg m" "exec_call impl reg c m = (m', a)"
  shows "store_ok impl reg m'"
  using assms by (cases c) (auto simp: store_ok_close store_ok_Save split: prod.splits option.splits)

lemma load_offset_allowed:
  assumes "store_inv m"
  shows "load_offset m sid st = (if load_allowed st (length (stream m sid)) then Inr (load_start st) else load_offset m sid st)"
    "isl (load_offset m sid st) \<longleftrightarrow> \<not> load_allowed st (length (stream m sid))"
proof -
  have "es_events m sid \<noteq> Some []" using assms unfolding store_inv_def by blast
  then have e: "es_events m sid = None \<longleftrightarrow> length (stream m sid) = 0" by (auto simp: stream_def split: option.splits)
  show "load_offset m sid st = (if load_allowed st (length (stream m sid)) then Inr (load_start st) else load_offset m sid st)"
    "isl (load_offset m sid st) \<longleftrightarrow> \<not> load_allowed st (length (stream m sid))"
    using e by (auto simp: load_offset_def load_allowed_def load_start_def split: stream_state.splits)
qed

lemma snapshot_read_to_end:
  assumes "\<forall>r \<in> set recs. record_ok impl reg r" "length recs \<le> n"
  shows "read_to_end (Suc n) (Inr (NewIteratorFunc (\<lambda>_. None) (snapshot_next impl reg what recs) None off))
    = Delivered (drop off (map (decoded impl reg) recs))"
proof -
  have "length recs - off < Suc n" using assms(2) by simp
  from snapshot_All [OF assms(1) this, of "\<lambda>_. None" what] have
    "All (Suc n) (NewIteratorFunc (\<lambda>_. None) (snapshot_next impl reg what recs) None off)
       = Some (map Some (map (decoded impl reg) (drop off recs)), None)"
    by (elim exE conjE) (simp only: simp_thms append_Nil2)
  then show ?thesis by (simp add: read_to_end_def drop_map o_def)
qed

lemma load_refines:
  assumes ok: "store_ok impl reg m"
  shows "read_to_end (Suc (length (es_global m))) (LoadStreamFrom impl reg (\<lambda>_. None) m sid st) =
    (if load_allowed st (length (history_of impl reg m sid)) then Delivered (drop (load_start st) (history_of impl reg m sid)) else Refused)"
proof -
  note inv = store_okD [OF ok]
  have h: "history_of impl reg m sid = map (decoded impl reg) (stream m sid)" by (rule history_stream [OF inv])
  have "stream m sid = filter (\<lambda>r. StreamID (r_env r) = sid) (es_global m)" using inv unfolding store_inv_def by blast
  then have short: "length (stream m sid) \<le> length (es_global m)" by simp
  show ?thesis
  proof (cases "load_allowed st (length (stream m sid))")
    case True
    then show ?thesis
      using load_offset_allowed(1) [OF inv, of sid st] snapshot_read_to_end [OF stream_records_ok [OF ok] short]
      by (simp add: LoadStreamFrom_def h)
  next
    case False
    then obtain e where "load_offset m sid st = Inl e" using load_offset_allowed(2) [OF inv, of sid st] by (auto simp: isl_def)
    then show ?thesis using False by (simp add: LoadStreamFrom_def h read_to_end_def)
  qed
qed

lemma correlation_refines:
  assumes ok: "store_ok impl reg m"
  shows "read_to_end (Suc (length (es_global m))) (LoadCorrelation impl reg (\<lambda>_. None) m cid) =
    (if cid = [] then Refused else Delivered (filter (\<lambda>env. CorrelationID env = cid) (log_of impl reg m)))"
proof (cases "cid = []")
  case False
  let ?c = "filter (\<lambda>r. CorrelationID (r_env r) = cid) (es_global m)"
  have "\<forall>r \<in> set ?c. record_ok impl reg r" using ok by (auto simp: store_ok_def)
  from snapshot_read_to_end [OF this, of "length (es_global m)" "''load correlation '' @ cid" 0] False
  show ?thesis by (simp add: LoadCorrelation_def Let_def log_of_def filter_map o_def)
qed (simp add: LoadCorrelation_def read_to_end_def)

text \<open>The reading loop as a page cut out of the decoded records.\<close>

lemma read_loop_page:
  assumes "\<forall>r \<in> set rs. record_ok impl reg r" "length (rr_Events res) < limit"
  shows "read_loop impl reg opts limit rs res = Inr (
    let sel = filter (selects impl opts) (map (decoded impl reg) rs); n = limit - length (rr_Events res) in
    res\<lparr>rr_Events := rr_Events res @ take n sel,
        rr_Next := (if n \<le> length sel then GlobalPosition (sel ! (n - 1)) else if rs = [] then rr_Next res else GlobalPosition (r_env (last rs)))\<rparr>)"
  using assms
proof (induction rs arbitrary: res)
  case (Cons r rs)
  have ok: "record_ok impl reg r" "\<forall>r \<in> set rs. record_ok impl reg r" using Cons.prems by auto
  note m = matches_decoded [OF ok(1), of opts] and env = record_envelope_ok [OF ok(1)]
  show ?case
  proof (cases "selects impl opts (decoded impl reg r)")
    case False
    then show ?thesis using m Cons.IH [OF ok(2), of "res\<lparr>rr_Next := GlobalPosition (r_env r)\<rparr>"] Cons.prems(2) by (simp add: Let_def)
  next
    case True
    show ?thesis
    proof (cases "Suc (length (rr_Events res)) = limit")
      case full: True
      then have "limit - length (rr_Events res) = 1" by simp
      then show ?thesis using True m env full by (simp add: Let_def)
    next
      case False
      let ?e = "res\<lparr>rr_Next := GlobalPosition (r_env r), rr_Events := rr_Events res @ [decoded impl reg r]\<rparr>"
      obtain n where n: "limit - length (rr_Events res) = Suc n" "limit - length (rr_Events ?e) = n" "0 < n"
        using Cons.prems(2) False by (cases "limit - length (rr_Events res)") auto
      have "length (rr_Events ?e) < limit" using Cons.prems(2) False by simp
      from Cons.IH [OF ok(2) this] n True False m env show ?thesis
        by (auto simp: Let_def nth_Cons' simp del: map_map)
    qed
  qed
qed simp

lemma read_refines:
  assumes ok: "store_ok impl reg m"
  shows "ReadAll impl reg None m after opts = Inr (log_page impl after opts (log_of impl reg m))"
proof -
  let ?rs = "drop after (es_global m)"
  let ?sel = "filter (selects impl opts) (drop after (log_of impl reg m))"
  have oks: "\<forall>r \<in> set ?rs. record_ok impl reg r" using ok by (auto simp: store_ok_def dest: in_set_dropD)
  have len: "length (log_of impl reg m) = length (es_global m)" by (simp add: log_of_def)
  have pos: "map (GlobalPosition \<circ> r_env) (es_global m) = [1..<Suc (length (es_global m))]"
    using ok unfolding store_ok_def store_inv_def by blast
  have lst: "(if ?rs = [] then after else GlobalPosition (r_env (last ?rs))) = max after (length (log_of impl reg m))"
  proof (cases "?rs = []")
    case False
    then have ne: "es_global m \<noteq> []" by auto
    have "last (map (GlobalPosition \<circ> r_env) (es_global m)) = length (es_global m)"
      unfolding pos using ne by (cases "es_global m") (simp_all only: list.size upt_Suc, auto)
    then show ?thesis using False ne by (simp add: len last_map last_drop)
  qed (simp add: len)
  have sel: "filter (selects impl opts) (map (decoded impl reg) ?rs) = ?sel" by (simp add: log_of_def drop_map)
  have "read_loop impl reg opts (page_limit opts) ?rs \<lparr>rr_Events = [], rr_Next = after, rr_AtEnd = False\<rparr> =
    Inr \<lparr>rr_Events = take (page_limit opts) ?sel,
      rr_Next = (if page_limit opts \<le> length ?sel then GlobalPosition (?sel ! (page_limit opts - 1)) else max after (length (log_of impl reg m))),
      rr_AtEnd = False\<rparr>"
    using read_loop_page [OF oks, of "\<lparr>rr_Events = [], rr_Next = after, rr_AtEnd = False\<rparr>" "page_limit opts" opts] lst
    by (simp add: page_limit_pos Let_def sel del: filter_map drop_eq_Nil cong: if_cong)
  then show ?thesis by (simp add: ReadAll_def log_page_def Let_def len)
qed

lemma call_refines:
  assumes "store_ok impl reg m" "exec_call impl reg c m = (m', a)"
  shows "log_call impl reg c (abs_log impl reg m) = (abs_log impl reg m', a)"
proof (cases c)
  case (CallSave now events st)
  then show ?thesis using save_refines assms by blast
next
  case (CallLoad sid st)
  then show ?thesis using assms load_refines [OF assms(1)] by (auto simp: in_stream_log)
next
  case (CallRead after opts)
  then show ?thesis using assms read_refines [OF assms(1)] by auto
next
  case (CallCorrelation cid)
  then show ?thesis using assms correlation_refines [OF assms(1)] by auto
next
  case CallHead
  then show ?thesis using assms by (auto simp: Head_def log_of_def)
next
  case CallClose
  moreover have "es_closed m \<Longrightarrow> es_global m = []" using store_okD [OF assms(1)] unfolding store_inv_def by blast
  ultimately show ?thesis using assms(2) by (auto simp: CloseStore_def abs_log_def log_of_def)
qed

text \<open>
  (C5) Refinement. Whatever clients call on a new in-memory store, and in whatever order, they get
  exactly the answers of a plain list of events: every save is accepted or refused, versioned and
  positioned as on the list, and every load, correlation load, page and head is what the list gives.
\<close>

theorem memory_store_refines_log:
  assumes "registry_inv impl reg" "json_ok impl"
  shows "case run_calls (exec_call impl reg) calls NewEventStore of (m, answers) \<Rightarrow>
    run_calls (log_call impl reg) calls \<lparr>lg_closed = False, lg_events = []\<rparr> = (abs_log impl reg m, answers)"
proof -
  have sim: "run_calls (log_call impl reg) calls (abs_log impl reg m) =
      (case run_calls (exec_call impl reg) calls m of (m', as) \<Rightarrow> (abs_log impl reg m', as))"
    if "store_ok impl reg m" for m
    using that
  proof (induction calls arbitrary: m)
    case (Cons c calls)
    obtain m' a where c: "exec_call impl reg c m = (m', a)" by (cases "exec_call impl reg c m")
    from Cons.IH [OF store_ok_call [OF Cons.prems c]] call_refines [OF Cons.prems c] c show ?case
      by (auto split: prod.split)
  qed simp
  have "abs_log impl reg NewEventStore = \<lparr>lg_closed = False, lg_events = []\<rparr>"
    by (simp add: abs_log_def NewEventStore_def log_of_def)
  with sim [OF store_ok_new [OF assms]] show ?thesis by (auto split: prod.split)
qed

theorem memory_store_refines_log_witness:
  "snd (run_calls (exec_call demo_impl demo_reg)
        [CallSave (\<lambda>_. 7) [demo_env 1 ''s'' ''x''] NoStream, CallSave (\<lambda>_. 8) [demo_env 2 ''s'' ''y''] NoStream,
         CallLoad ''s'' (Revision 1), CallHead] NewEventStore) = [Saved 1 1, Refused, Delivered [], AtPosition 1]"
proof -
  let ?cs = "[CallSave (\<lambda>_. 7) [demo_env 1 ''s'' ''x''] NoStream, CallSave (\<lambda>_. 8) [demo_env 2 ''s'' ''y''] NoStream,
         CallLoad ''s'' (Revision 1), CallHead]"
  have enc: "encodable demo_impl demo_reg (demo_env u s x)" for u s x
  proof -
    have "list_all (encodable demo_impl demo_reg) [demo_env u s x]"
      unfolding encode_batch_encodable [symmetric, where now = "\<lambda>_. 0" and i = 0] using demo_encode by (metis sum.disc(2))
    then show ?thesis by simp
  qed
  have "snd (run_calls (log_call demo_impl demo_reg) ?cs \<lparr>lg_closed = False, lg_events = []\<rparr>) = [Saved 1 1, Refused, Delivered [], AtPosition 1]"
    by (simp add: log_save_def enc Let_def in_stream_def expectation_met_def load_allowed_def load_start_def stamped_def uuid_Nil_def)
  with memory_store_refines_log [OF demo_registry_inv demo_json_ok, of ?cs] show ?thesis by (auto split: prod.splits)
qed

end
