(* ===== verification/Sql_Events.thy ===== *)
theory Sql_Events
  imports ES_Log_Refinement
begin

text \<open>
  The event store on SQLite (\<open>sqlite/eventstore.go\<close>, \<open>sqlite/import.go\<close>). The table \<open>events\<close> of \<open>schema.sql\<close> is a list of rows with the
  sequence its \<open>AUTOINCREMENT\<close> key draws from, and every SQL statement of the source is a function on it: \<open>WHERE\<close> a filter,
  \<open>ORDER BY\<close> a stable sort, \<open>LIMIT\<close> a prefix, \<open>UNIQUE\<close> a check of the insert. What the driver may fail with is an argument of
  each call. A transaction begins with the write lock (\<open>Open\<close>), so no other writer acts inside \<open>Save\<close>, and one that does not
  commit changes nothing; \<open>ReadAll\<close> runs two statements outside a transaction, and between them the table may grow. \<open>uuid.Parse\<close> is
  the argument \<open>parse\<close>.
\<close>

section \<open>The table and its statements\<close>

record event_row =
  er_id :: nat
  er_event_id :: string
  er_stream_id :: string
  er_stream_position :: nat
  er_event_type :: string
  er_payload :: string
  er_metadata :: string
  er_occurred_at :: int
  er_correlation_id :: string
  er_causation_id :: string

record events_table =
  et_rows :: "event_row list"
  et_seq :: nat

definition Schema_events :: events_table where
  "Schema_events = \<lparr>et_rows = [], et_seq = 0\<rparr>"

definition select_version :: "string \<Rightarrow> events_table \<Rightarrow> nat" where
  "select_version sid T = foldr max (map er_stream_position (filter (\<lambda>r. er_stream_id r = sid) (et_rows T))) 0"

definition select_events :: "(event_row \<Rightarrow> bool) \<Rightarrow> (event_row \<Rightarrow> nat) \<Rightarrow> events_table \<Rightarrow> event_row list" where
  "select_events cond key T = sort_key key (filter cond (et_rows T))"

datatype insert_result = Inserted events_table nat | UniqueViolation | InsertFailed go_error

definition insert_event :: "event_row \<Rightarrow> events_table \<Rightarrow> insert_result" where
  "insert_event r T =
     (if list_ex (\<lambda>q. er_stream_id q = er_stream_id r \<and> er_stream_position q = er_stream_position r) (et_rows T) then UniqueViolation
      else if int (et_seq T) \<ge> max_int64 then InsertFailed (NewError ''database or disk is full'')
      else let n = et_seq T + 1 in Inserted (T\<lparr>et_rows := et_rows T @ [r\<lparr>er_id := n\<rparr>], et_seq := n\<rparr>) n)"

text \<open>\<open>substr(X, 1, n)\<close> of a text counts characters of UTF-8, and ends at a NUL: a byte of 192 or more starts a character that
  takes the continuation bytes after it.\<close>

definition utf8_continues :: "char \<Rightarrow> bool" where
  "utf8_continues c \<longleftrightarrow> 128 \<le> (of_char c :: nat) \<and> (of_char c :: nat) < 192"

fun sql_substr :: "nat \<Rightarrow> string \<Rightarrow> string" where
  "sql_substr 0 s = []"
| "sql_substr (Suc n) [] = []"
| "sql_substr (Suc n) (c # s) =
     (if (of_char c :: nat) = 0 then []
      else if 192 \<le> (of_char c :: nat) then c # takeWhile utf8_continues s @ sql_substr n (dropWhile utf8_continues s)
      else c # sql_substr n s)"

section \<open>Times\<close>

text \<open>Instants count nanoseconds from the zero time, the first of January of the year 1. \<open>UnixNano\<close> is computed in \<open>int64\<close> and
  wraps outside the years 1678 to 2262.\<close>

definition unix_epoch :: gotime where
  "unix_epoch = 62135596800 * 10 ^ 9"

definition UnixNano :: "gotime \<Rightarrow> int" where
  "UnixNano t = (t - unix_epoch + 2 ^ 63) mod 2 ^ 64 - 2 ^ 63"

definition time_Unix :: "int \<Rightarrow> gotime" where
  "time_Unix nsec = unix_epoch + nsec"

section \<open>Save\<close>

text \<open>What the driver answers to the statements of one transaction; \<open>None\<close> is success.\<close>

record save_faults =
  sf_begin :: "go_error option"
  sf_version :: "go_error option"
  sf_insert :: "nat \<Rightarrow> go_error option"
  sf_commit :: "go_error option"

fun encode_rows :: "('e, 'v) event_impl \<Rightarrow> 'e registry \<Rightarrow> (nat \<Rightarrow> gotime) \<Rightarrow> nat \<Rightarrow> ('e, 'v) envelope list \<Rightarrow> go_error + event_row list" where
  "encode_rows impl reg now i [] = Inr []"
| "encode_rows impl reg now i (env # envs) =
     (case EncodeEvent impl reg (Event env) of
        Inl err \<Rightarrow> Inl (Errorf ''save events'' [err])
      | Inr payload \<Rightarrow> (case EncodeMetadata impl (Metadata env) of
          Inl err \<Rightarrow> Inl (Errorf ''save events'' [err])
        | Inr metadata \<Rightarrow>
            let occurredAt = (if OccurredAt env = 0 then now i else OccurredAt env);
                r = \<lparr>er_id = 0, er_event_id = UuidString impl (EventID env), er_stream_id = [], er_stream_position = 0,
                     er_event_type = (case Event env of None \<Rightarrow> [] | Some ev \<Rightarrow> EventType impl ev),
                     er_payload = payload, er_metadata = metadata, er_occurred_at = UnixNano occurredAt,
                     er_correlation_id = CorrelationID env, er_causation_id = CausationID env\<rparr>
            in (case encode_rows impl reg now (Suc i) envs of
                  Inl err \<Rightarrow> Inl err
                | Inr rows \<Rightarrow> Inr (r # rows))))"

definition sql_check_revision :: "string \<Rightarrow> nat \<Rightarrow> stream_state \<Rightarrow> go_error option" where
  "sql_check_revision sid currentVersion revision =
     (case revision of
        Any \<Rightarrow> None
      | NoStream \<Rightarrow> if currentVersion \<noteq> 0 then Some (Errorf (''stream '' @ sid @ '': already exists'') [Sentinel ErrStreamExists]) else None
      | StreamExists \<Rightarrow> if currentVersion = 0 then Some (Errorf (''stream '' @ sid @ '': does not exist'') [Sentinel ErrStreamNotFound]) else None
      | Revision rv \<Rightarrow> if currentVersion \<noteq> rv
          then Some (StreamRevisionConflictError sid (Some (Revision rv)) (Some (Revision currentVersion))) else None
      | OtherState _ \<Rightarrow> Some (Errorf (''unsupported revision type for stream '' @ sid) [Sentinel ErrInvalidRevision]))"

text \<open>The inserts of a transaction, and what it returns for the first that fails.\<close>

fun insert_rows :: "save_faults \<Rightarrow> string \<Rightarrow> stream_state \<Rightarrow> nat \<Rightarrow> nat \<Rightarrow> event_row list \<Rightarrow> events_table \<times> nat \<Rightarrow> go_error + events_table \<times> nat" where
  "insert_rows F sid revision currentVersion i [] st = Inr st"
| "insert_rows F sid revision currentVersion i (r # rs) (T, lastID) =
     (case (case sf_insert F i of
          Some err \<Rightarrow> InsertFailed err
        | None \<Rightarrow> insert_event (r\<lparr>er_stream_id := sid, er_stream_position := currentVersion + i + 1\<rparr>) T) of
        UniqueViolation \<Rightarrow> Inl (StreamRevisionConflictError sid (Some revision) (Some (Revision currentVersion)))
      | InsertFailed err \<Rightarrow> Inl (Errorf (''save events to stream '' @ sid @ '': insert event'') [err])
      | Inserted T lastID \<Rightarrow> insert_rows F sid revision currentVersion (Suc i) rs (T, lastID))"

definition sql_Save :: "('e, 'v) event_impl \<Rightarrow> 'e registry \<Rightarrow> (nat \<Rightarrow> gotime) \<Rightarrow> save_faults \<Rightarrow> events_table
    \<Rightarrow> ('e, 'v) envelope list \<Rightarrow> stream_state \<Rightarrow> events_table \<times> append_result \<times> go_error option" where
  "sql_Save impl reg now F T events revision =
     (case events of
        [] \<Rightarrow> (T, zero_result\<lparr>ar_Successful := True\<rparr>, None)
      | env0 # _ \<Rightarrow>
          let sid = StreamID env0; fail = (\<lambda>err. (T, failed_result sid, Some err)) in
          (case validate_batch sid events of
             Some err \<Rightarrow> fail err
           | None \<Rightarrow> (case encode_rows impl reg now 0 events of
               Inl err \<Rightarrow> fail err
             | Inr rows \<Rightarrow> (case sf_begin F of
                 Some err \<Rightarrow> fail (Errorf (''save events to stream '' @ sid @ '': begin tx'') [err])
               | None \<Rightarrow> (case sf_version F of
                   Some err \<Rightarrow> fail (Errorf (''save events to stream '' @ sid @ '': get stream version'') [err])
                 | None \<Rightarrow>
                     let currentVersion = select_version sid T in
                     (case sql_check_revision sid currentVersion revision of
                        Some err \<Rightarrow> fail err
                      | None \<Rightarrow> (case insert_rows F sid revision currentVersion 0 rows (T, 0) of
                          Inl err \<Rightarrow> fail err
                        | Inr (T', lastID) \<Rightarrow> (case sf_commit F of
                            Some err \<Rightarrow> fail (Errorf (''save events to stream '' @ sid @ '': commit'') [err])
                          | None \<Rightarrow> (T', \<lparr>ar_Successful = True, ar_StreamID = sid,
                              ar_NextExpectedVersion = currentVersion + length events, ar_GlobalPosition = lastID\<rparr>, None)))))))))"

section \<open>Reading rows\<close>

definition scanEnvelope :: "('e, 'v) event_impl \<Rightarrow> 'e registry \<Rightarrow> (string \<Rightarrow> go_error + uuid) \<Rightarrow> event_row \<Rightarrow> go_error + ('e, 'v) envelope" where
  "scanEnvelope impl reg parse r =
     (case parse (er_event_id r) of
        Inl err \<Rightarrow> Inl (Errorf (''scan envelope: event id '' @ er_event_id r) [err])
      | Inr uid \<Rightarrow> (case DecodeEvent impl reg (er_event_type r) (er_payload r) of
          Inl err \<Rightarrow> Inl (Errorf ''scan envelope'' [err])
        | Inr ev \<Rightarrow>
            let meta = (case DecodeMetadata impl (er_metadata r) of Inl _ \<Rightarrow> Map.empty | Inr meta \<Rightarrow> meta) in
            Inr \<lparr>EventID = uid, StreamID = er_stream_id r, Metadata = Some meta, CorrelationID = er_correlation_id r,
                 CausationID = er_causation_id r, Event = Some ev, Version = er_stream_position r, GlobalPosition = er_id r,
                 OccurredAt = time_Unix (er_occurred_at r)\<rparr>))"

fun scan_rows :: "('e, 'v) event_impl \<Rightarrow> 'e registry \<Rightarrow> (string \<Rightarrow> go_error + uuid) \<Rightarrow> event_row list \<Rightarrow> go_error + ('e, 'v) envelope list" where
  "scan_rows impl reg parse [] = Inr []"
| "scan_rows impl reg parse (r # rs) =
     (case scanEnvelope impl reg parse r of
        Inl err \<Rightarrow> Inl err
      | Inr env \<Rightarrow> (case scan_rows impl reg parse rs of Inl err \<Rightarrow> Inl err | Inr envs \<Rightarrow> Inr (env # envs)))"

text \<open>A query may fail at once, or after some rows.\<close>

record query_fault =
  qf_query :: "go_error option"
  qf_rows :: "(nat \<times> go_error) option"

definition no_fault :: query_fault where
  "no_fault = \<lparr>qf_query = None, qf_rows = None\<rparr>"

definition queryEnvelopes :: "('e, 'v) event_impl \<Rightarrow> 'e registry \<Rightarrow> (string \<Rightarrow> go_error + uuid) \<Rightarrow> query_fault \<Rightarrow> event_row list
    \<Rightarrow> go_error + ('e, 'v) envelope list" where
  "queryEnvelopes impl reg parse q rows =
     (case qf_query q of
        Some err \<Rightarrow> Inl err
      | None \<Rightarrow> (case qf_rows q of
          None \<Rightarrow> scan_rows impl reg parse rows
        | Some (k, rerr) \<Rightarrow> (case scan_rows impl reg parse (take k rows) of Inl err \<Rightarrow> Inl err | Inr _ \<Rightarrow> Inl rerr)))"

section \<open>Loading\<close>

definition sql_exists :: "query_fault \<Rightarrow> events_table \<Rightarrow> string \<Rightarrow> go_error + bool" where
  "sql_exists q T sid =
     (case qf_query q of
        Some err \<Rightarrow> Inl (Errorf ''check existence'' [err])
      | None \<Rightarrow> Inr (list_ex (\<lambda>r. er_stream_id r = sid) (et_rows T)))"

definition sql_LoadStream :: "('e, 'v) event_impl \<Rightarrow> 'e registry \<Rightarrow> (string \<Rightarrow> go_error + uuid) \<Rightarrow> query_fault \<Rightarrow> (nat \<Rightarrow> go_error option)
    \<Rightarrow> events_table \<Rightarrow> string \<Rightarrow> go_error + (nat, ('e, 'v) envelope) iterator" where
  "sql_LoadStream impl reg parse q ctx T sid =
     (case queryEnvelopes impl reg parse q (select_events (\<lambda>r. er_stream_id r = sid) er_stream_position T) of
        Inl err \<Rightarrow> Inl (Errorf (''load stream '' @ sid) [err])
      | Inr envs \<Rightarrow> if length envs = 0 then Inl (Errorf (''load stream '' @ sid) [Sentinel ErrStreamNotFound])
          else Inr (NewSliceIterator ctx envs))"

text \<open>The outer result is the panic of \<open>ToRawInt64\<close>.\<close>

definition sql_LoadStreamFrom :: "('e, 'v) event_impl \<Rightarrow> 'e registry \<Rightarrow> (string \<Rightarrow> go_error + uuid) \<Rightarrow> query_fault \<Rightarrow> (nat \<Rightarrow> go_error option)
    \<Rightarrow> events_table \<Rightarrow> string \<Rightarrow> stream_state \<Rightarrow> (go_error + (nat, ('e, 'v) envelope) iterator) panics" where
  "sql_LoadStreamFrom impl reg parse q ctx T sid version =
     (let all = queryEnvelopes impl reg parse q (select_events (\<lambda>r. er_stream_id r = sid) er_stream_position T) in
      (case version of
         NoStream \<Rightarrow> Inr (case sql_exists q T sid of
             Inl err \<Rightarrow> Inl (Errorf (''load stream '' @ sid) [err])
           | Inr True \<Rightarrow> Inl (Errorf (''load stream '' @ sid @ '': expected empty stream'') [Sentinel ErrStreamExists])
           | Inr False \<Rightarrow> Inr (NewSliceIterator ctx []))
       | StreamExists \<Rightarrow> Inr (case all of
             Inl err \<Rightarrow> Inl (Errorf (''load stream '' @ sid) [err])
           | Inr envs \<Rightarrow> if length envs = 0 then Inl (Errorf (''load stream '' @ sid @ '': expected existing stream'') [Sentinel ErrStreamNotFound])
               else Inr (NewSliceIterator ctx envs))
       | Any \<Rightarrow> Inr (case all of
             Inl err \<Rightarrow> Inl (Errorf (''load stream '' @ sid) [err])
           | Inr envs \<Rightarrow> Inr (NewSliceIterator ctx envs))
       | _ \<Rightarrow> (case ToRawInt64 version of
             Inl msg \<Rightarrow> Inl msg
           | Inr n \<Rightarrow> Inr (case queryEnvelopes impl reg parse q
                 (select_events (\<lambda>r. er_stream_id r = sid \<and> int (er_stream_position r) > n) er_stream_position T) of
               Inl err \<Rightarrow> Inl (Errorf (''load stream '' @ sid) [err])
             | Inr envs \<Rightarrow> Inr (NewSliceIterator ctx envs)))))"

definition sql_LoadCorrelation :: "('e, 'v) event_impl \<Rightarrow> 'e registry \<Rightarrow> (string \<Rightarrow> go_error + uuid) \<Rightarrow> query_fault \<Rightarrow> (nat \<Rightarrow> go_error option)
    \<Rightarrow> events_table \<Rightarrow> string \<Rightarrow> go_error + (nat, ('e, 'v) envelope) iterator" where
  "sql_LoadCorrelation impl reg parse q ctx T cid =
     (if cid = [] then Inl (Errorf ''load correlation'' [Sentinel ErrEmptyCorrelationID])
      else (case queryEnvelopes impl reg parse q (select_events (\<lambda>r. er_correlation_id r = cid) er_id T) of
          Inl err \<Rightarrow> Inl (Errorf (''load correlation '' @ cid) [err])
        | Inr envs \<Rightarrow> Inr (NewSliceIterator ctx envs)))"

section \<open>Reading the log\<close>

definition sql_Head :: "go_error option \<Rightarrow> events_table \<Rightarrow> go_error + uint64" where
  "sql_Head err T =
     (case err of Some e \<Rightarrow> Inl (Errorf ''head'' [e]) | None \<Rightarrow> Inr (foldr max (map er_id (et_rows T)) 0))"

definition sql_matches :: "read_options \<Rightarrow> event_row \<Rightarrow> bool" where
  "sql_matches opts r \<longleftrightarrow>
     (length (ro_EventTypes opts) > 0 \<longrightarrow> er_event_type r \<in> set (ro_EventTypes opts))
     \<and> (length (ro_StreamPrefixes opts) > 0 \<longrightarrow> list_ex (\<lambda>p. sql_substr (length p) (er_stream_id r) = p) (ro_StreamPrefixes opts))"

definition sql_limit :: "read_options \<Rightarrow> nat" where
  "sql_limit opts = (if ro_Limit opts \<le> 0 then 500 else nat (ro_Limit opts))"

text \<open>\<open>T\<close> is the table when \<open>Head\<close> reads it, \<open>T'\<close> when the page is selected.\<close>

definition sql_ReadAll :: "('e, 'v) event_impl \<Rightarrow> 'e registry \<Rightarrow> (string \<Rightarrow> go_error + uuid) \<Rightarrow> go_error option \<Rightarrow> query_fault
    \<Rightarrow> events_table \<Rightarrow> events_table \<Rightarrow> uint64 \<Rightarrow> read_options \<Rightarrow> go_error + ('e, 'v) read_result" where
  "sql_ReadAll impl reg parse herr q T T' after opts =
     (if int after > max_int64 then Inl (Errorf ''read all'' [Sentinel ErrInvalidRevision])
      else let limit = sql_limit opts in
        (case sql_Head herr T of
           Inl err \<Rightarrow> Inl (Errorf ''read all'' [err])
         | Inr head \<Rightarrow>
             let res = \<lparr>rr_Events = [], rr_Next = max after head, rr_AtEnd = True\<rparr> in
             if head \<le> after then Inr (res\<lparr>rr_Next := after\<rparr>)
             else (case queryEnvelopes impl reg parse q
                     (take limit (select_events (\<lambda>r. er_id r > after \<and> er_id r \<le> head \<and> sql_matches opts r) er_id T')) of
                 Inl err \<Rightarrow> Inl (Errorf ''read all'' [err])
               | Inr envs \<Rightarrow>
                   let res = res\<lparr>rr_Events := envs\<rparr> in
                   if length envs = limit
                   then let nxt = GlobalPosition (last envs) in Inr (res\<lparr>rr_Next := nxt, rr_AtEnd := nxt \<ge> head\<rparr>)
                   else Inr res)))"

definition sql_Close :: "events_table \<Rightarrow> events_table \<times> go_error option" where
  "sql_Close T = (T, None)"

section \<open>Import\<close>

text \<open>
  Copying a log. The loop of pages takes fuel, \<open>None\<close> is running out of it; \<open>save\<close> is \<open>Save\<close> of the destination, and \<open>counts\<close> is how many
  events of each stream are copied so far.
\<close>

fun import_page :: "('s \<Rightarrow> ('e, 'v) envelope list \<Rightarrow> stream_state \<Rightarrow> 's \<times> append_result \<times> go_error option) \<Rightarrow> ('e, 'v) envelope list
    \<Rightarrow> 's \<times> (string \<Rightarrow> uint64) \<times> nat \<Rightarrow> ('s \<times> (string \<Rightarrow> uint64) \<times> nat) \<times> go_error option" where
  "import_page save [] st = (st, None)"
| "import_page save (env # envs) (dst, counts, copied) =
     (let n = counts (StreamID env) in
      case save dst [env] (Revision n) of
        (dst, _, Some err) \<Rightarrow> ((dst, counts, copied), Some (Errorf (''sqlite: import: event of stream '' @ StreamID env) [err]))
      | (dst, _, None) \<Rightarrow> import_page save envs (dst, counts(StreamID env := n + 1), copied + 1))"

fun Import_loop :: "nat \<Rightarrow> (uint64 \<Rightarrow> go_error + ('e, 'v) read_result)
    \<Rightarrow> ('s \<Rightarrow> ('e, 'v) envelope list \<Rightarrow> stream_state \<Rightarrow> 's \<times> append_result \<times> go_error option)
    \<Rightarrow> uint64 \<Rightarrow> 's \<times> (string \<Rightarrow> uint64) \<times> nat \<Rightarrow> ('s \<times> nat \<times> go_error option) option" where
  "Import_loop 0 read save after st = None"
| "Import_loop (Suc fuel) read save after (dst, counts, copied) =
     (case read after of
        Inl err \<Rightarrow> Some (dst, copied, Some (Errorf ''sqlite: import: read'' [err]))
      | Inr page \<Rightarrow> (case import_page save (rr_Events page) (dst, counts, copied) of
          ((dst, counts, copied), Some err) \<Rightarrow> Some (dst, copied, Some err)
        | ((dst, counts, copied), None) \<Rightarrow>
            if rr_AtEnd page then Some (dst, copied, None)
            else Import_loop fuel read save (rr_Next page) (dst, counts, copied)))"

definition import_opts :: read_options where
  "import_opts = \<lparr>ro_Limit = 500, ro_EventTypes = [], ro_StreamPrefixes = []\<rparr>"

definition Import :: "nat \<Rightarrow> (uint64 \<Rightarrow> read_options \<Rightarrow> go_error + ('e, 'v) read_result)
    \<Rightarrow> ('s \<Rightarrow> ('e, 'v) envelope list \<Rightarrow> stream_state \<Rightarrow> 's \<times> append_result \<times> go_error option) \<Rightarrow> 's \<Rightarrow> ('s \<times> nat \<times> go_error option) option" where
  "Import fuel readAll save dst = Import_loop fuel (\<lambda>after. readAll after import_opts) save 0 (dst, (\<lambda>_. 0), 0)"

end
