(* ===== verification/Pg_Events.thy ===== *)
theory Pg_Events
  imports Sql_Events "HOL-Library.AList"
begin

text \<open>
  The event store on PostgreSQL (\<open>postgres/eventstore.go\<close>). Any number of \<open>Save\<close> calls run at once, each a transaction whose statements
  interleave with those of the others, so \<open>Save\<close> is a program of one step per statement over a shared database: the rows that are committed, the
  sequence of the \<open>BIGSERIAL\<close> key, which a rollback does not give back, the advisory locks and the open transactions with the rows they wrote. A
  statement that waits for a lock, or for the outcome of another transaction's row, has no step. The isolation level is \<open>READ COMMITTED\<close>,
  PostgreSQL's default: a statement sees what is committed when it runs, and what its own transaction wrote. What the driver fails with is an
  argument of each statement; a transaction that fails rolls back, and a commit whose answer is lost may have happened. The function \<open>hashtext\<close> of the
  server is the argument \<open>hash\<close>, and \<open>tz\<close> gives the instant a \<open>timestamptz\<close> column holds for one.
\<close>

section \<open>The database\<close>

record pg_row =
  pr_id :: nat
  pr_event_id :: uuid
  pr_stream_id :: string
  pr_stream_position :: nat
  pr_event_type :: string
  pr_payload :: string
  pr_metadata :: string
  pr_occurred_at :: gotime
  pr_correlation_id :: string
  pr_causation_id :: string

text \<open>Where a \<open>Save\<close> stands: the statement it runs next.\<close>

datatype pg_pc = AtStreamLock | AtVersion | AtCheck | AtAppendLock | AtInsert | AtCommit

record pg_tx =
  tx_stream :: string
  tx_revision :: stream_state
  tx_events :: nat
  tx_rows :: "pg_row list"
  tx_index :: nat
  tx_version :: nat
  tx_lastID :: nat
  tx_written :: "pg_row list"
  tx_pc :: pg_pc

record pg_db =
  pg_rows :: "pg_row list"
  pg_seq :: nat
  pg_stream_locks :: "int \<Rightarrow> nat option"
  pg_append_lock :: "nat option"
  pg_txs :: "(nat \<times> pg_tx) list"
  pg_done :: "nat \<Rightarrow> (append_result \<times> go_error option) option"

definition Schema_pg :: pg_db where
  "Schema_pg = \<lparr>pg_rows = [], pg_seq = 0, pg_stream_locks = (\<lambda>_. None), pg_append_lock = None, pg_txs = [], pg_done = (\<lambda>_. None)\<rparr>"

definition tx_of :: "pg_db \<Rightarrow> nat \<Rightarrow> pg_tx option" where
  "tx_of db k = map_of (pg_txs db) k"

text \<open>A call returns; the end of its transaction gives its advisory locks back.\<close>

definition pg_return :: "nat \<Rightarrow> append_result \<Rightarrow> go_error option \<Rightarrow> pg_db \<Rightarrow> pg_db" where
  "pg_return k res err db = db\<lparr>pg_done := (pg_done db)(k \<mapsto> (res, err))\<rparr>"

definition pg_end :: "nat \<Rightarrow> pg_db \<Rightarrow> pg_db" where
  "pg_end k db =
     db\<lparr>pg_txs := AList.delete k (pg_txs db),
       pg_stream_locks := (\<lambda>h. if pg_stream_locks db h = Some k then None else pg_stream_locks db h),
       pg_append_lock := (if pg_append_lock db = Some k then None else pg_append_lock db)\<rparr>"

definition pg_rollback :: "nat \<Rightarrow> pg_tx \<Rightarrow> go_error \<Rightarrow> pg_db \<Rightarrow> pg_db" where
  "pg_rollback k tx err db = pg_return k (failed_result (tx_stream tx)) (Some err) (pg_end k db)"

definition put_tx :: "nat \<Rightarrow> pg_tx \<Rightarrow> pg_db \<Rightarrow> pg_db" where
  "put_tx k tx db = db\<lparr>pg_txs := AList.update k tx (pg_txs db)\<rparr>"

section \<open>Save\<close>

fun pg_encode_rows :: "('e, 'v) event_impl \<Rightarrow> 'e registry \<Rightarrow> (nat \<Rightarrow> gotime) \<Rightarrow> nat \<Rightarrow> ('e, 'v) envelope list \<Rightarrow> go_error + pg_row list" where
  "pg_encode_rows impl reg now i [] = Inr []"
| "pg_encode_rows impl reg now i (env # envs) =
     (case EncodeEvent impl reg (Event env) of
        Inl err \<Rightarrow> Inl (Errorf ''save events'' [err])
      | Inr payload \<Rightarrow> (case EncodeMetadata impl (Metadata env) of
          Inl err \<Rightarrow> Inl (Errorf ''save events'' [err])
        | Inr metadata \<Rightarrow>
            let occurredAt = (if OccurredAt env = 0 then now i else OccurredAt env);
                r = \<lparr>pr_id = 0, pr_event_id = EventID env, pr_stream_id = [], pr_stream_position = 0,
                     pr_event_type = (case Event env of None \<Rightarrow> [] | Some ev \<Rightarrow> EventType impl ev),
                     pr_payload = payload, pr_metadata = metadata, pr_occurred_at = occurredAt,
                     pr_correlation_id = CorrelationID env, pr_causation_id = CausationID env\<rparr>
            in (case pg_encode_rows impl reg now (Suc i) envs of
                  Inl err \<Rightarrow> Inl err
                | Inr rows \<Rightarrow> Inr (r # rows))))"

text \<open>\<open>Save\<close> up to the beginning of its transaction: call \<open>k\<close> returns at once, or has a transaction.\<close>

definition pg_Save :: "('e, 'v) event_impl \<Rightarrow> 'e registry \<Rightarrow> (nat \<Rightarrow> gotime) \<Rightarrow> go_error option \<Rightarrow> nat \<Rightarrow> ('e, 'v) envelope list \<Rightarrow> stream_state
    \<Rightarrow> pg_db \<Rightarrow> pg_db" where
  "pg_Save impl reg now fault k events revision db =
     (case events of
        [] \<Rightarrow> pg_return k (zero_result\<lparr>ar_Successful := True\<rparr>) None db
      | env0 # _ \<Rightarrow>
          let sid = StreamID env0; fail = (\<lambda>err. pg_return k (failed_result sid) (Some err) db) in
          (case validate_batch sid events of
             Some err \<Rightarrow> fail err
           | None \<Rightarrow> (case pg_encode_rows impl reg now 0 events of
               Inl err \<Rightarrow> fail err
             | Inr rows \<Rightarrow> (case fault of
                 Some err \<Rightarrow> fail (Errorf (''save events to stream '' @ sid @ '': begin tx'') [err])
               | None \<Rightarrow> put_tx k \<lparr>tx_stream = sid, tx_revision = revision, tx_events = length events, tx_rows = rows, tx_index = 0, tx_version = 0,
                   tx_lastID = 0, tx_written = [], tx_pc = AtStreamLock\<rparr> db))))"

definition pg_stream_lock :: "(string \<Rightarrow> int) \<Rightarrow> go_error option \<Rightarrow> nat \<Rightarrow> pg_tx \<Rightarrow> pg_db \<Rightarrow> pg_db option" where
  "pg_stream_lock hash fault k tx db =
     (case fault of
        Some err \<Rightarrow> Some (pg_rollback k tx (Errorf (''save events to stream '' @ tx_stream tx @ '': acquire lock'') [err]) db)
      | None \<Rightarrow>
          let h = hash (tx_stream tx) in
          if pg_stream_locks db h \<noteq> None \<and> pg_stream_locks db h \<noteq> Some k then None
          else Some (put_tx k (tx\<lparr>tx_pc := AtVersion\<rparr>) (db\<lparr>pg_stream_locks := (pg_stream_locks db)(h \<mapsto> k)\<rparr>)))"

definition pg_max_position :: "string \<Rightarrow> pg_row list \<Rightarrow> nat" where
  "pg_max_position sid rows = foldr max (map pr_stream_position (filter (\<lambda>r. pr_stream_id r = sid) rows)) 0"

definition pg_version :: "go_error option \<Rightarrow> nat \<Rightarrow> pg_tx \<Rightarrow> pg_db \<Rightarrow> pg_db option" where
  "pg_version fault k tx db = Some
     (case fault of
        Some err \<Rightarrow> pg_rollback k tx (Errorf (''save events to stream '' @ tx_stream tx @ '': get stream version'') [err]) db
      | None \<Rightarrow> put_tx k (tx\<lparr>tx_version := pg_max_position (tx_stream tx) (pg_rows db @ tx_written tx), tx_pc := AtCheck\<rparr>) db)"

definition pg_check_revision :: "string \<Rightarrow> nat \<Rightarrow> stream_state \<Rightarrow> go_error option" where
  "pg_check_revision sid currentVersion revision =
     (case revision of
        Any \<Rightarrow> None
      | NoStream \<Rightarrow> if currentVersion \<noteq> 0 then Some (Errorf (''stream '' @ sid @ '': already exists'') [Sentinel ErrStreamExists]) else None
      | StreamExists \<Rightarrow> if currentVersion = 0 then Some (Errorf (''stream '' @ sid @ '': does not exist'') [Sentinel ErrStreamNotFound]) else None
      | Revision rv \<Rightarrow> if currentVersion \<noteq> rv
          then Some (StreamRevisionConflictError sid (Some (Revision rv)) (Some (Revision currentVersion))) else None
      | OtherState _ \<Rightarrow> Some (Errorf (''unsupported revision type for stream '' @ sid) [Sentinel ErrInvalidRevision]))"

definition pg_check :: "nat \<Rightarrow> pg_tx \<Rightarrow> pg_db \<Rightarrow> pg_db option" where
  "pg_check k tx db = Some
     (case pg_check_revision (tx_stream tx) (tx_version tx) (tx_revision tx) of
        Some err \<Rightarrow> pg_rollback k tx err db
      | None \<Rightarrow> put_tx k (tx\<lparr>tx_pc := AtAppendLock\<rparr>) db)"

definition pg_take_append_lock :: "go_error option \<Rightarrow> nat \<Rightarrow> pg_tx \<Rightarrow> pg_db \<Rightarrow> pg_db option" where
  "pg_take_append_lock fault k tx db =
     (case fault of
        Some err \<Rightarrow> Some (pg_rollback k tx (Errorf (''save events to stream '' @ tx_stream tx @ '': acquire append lock'') [err]) db)
      | None \<Rightarrow>
          if pg_append_lock db \<noteq> None \<and> pg_append_lock db \<noteq> Some k then None
          else Some (put_tx k (tx\<lparr>tx_pc := AtInsert\<rparr>) (db\<lparr>pg_append_lock := Some k\<rparr>)))"

text \<open>An insert draws the next number of the sequence, which ends at \<open>2^63 - 1\<close>; \<open>applied\<close> says whether one that fails has drawn it. A row with the
  same place in the stream violates the unique index when it is visible, and makes the insert wait when another open transaction wrote it.\<close>

definition same_place :: "pg_row \<Rightarrow> pg_row \<Rightarrow> bool" where
  "same_place r q \<longleftrightarrow> pr_stream_id q = pr_stream_id r \<and> pr_stream_position q = pr_stream_position r"

definition pg_insert :: "(gotime \<Rightarrow> gotime) \<Rightarrow> go_error option \<Rightarrow> bool \<Rightarrow> nat \<Rightarrow> pg_tx \<Rightarrow> pg_db \<Rightarrow> pg_db option" where
  "pg_insert tz fault applied k tx db =
     (case tx_rows tx of
        [] \<Rightarrow> Some (put_tx k (tx\<lparr>tx_pc := AtCommit\<rparr>) db)
      | r # rs \<Rightarrow>
          let n = pg_seq db + 1;
              r = r\<lparr>pr_id := n, pr_stream_id := tx_stream tx, pr_stream_position := tx_version tx + 1 + tx_index tx, pr_occurred_at := tz (pr_occurred_at r)\<rparr> in
          (case fault of
             Some err \<Rightarrow> Some (pg_rollback k tx (Errorf (''save events to stream '' @ tx_stream tx @ '': insert event'') [err])
               (if applied \<and> int n \<le> max_int64 then db\<lparr>pg_seq := n\<rparr> else db))
           | None \<Rightarrow>
               if int n > max_int64
               then Some (pg_rollback k tx (Errorf (''save events to stream '' @ tx_stream tx @ '': insert event'') [NewError ''nextval: reached maximum value of sequence'']) db)
               else if list_ex (same_place r) (pg_rows db @ tx_written tx)
               then Some (pg_rollback k tx (StreamRevisionConflictError (tx_stream tx) (Some (tx_revision tx)) (Some (Revision (tx_version tx)))) (db\<lparr>pg_seq := n\<rparr>))
               else if list_ex (\<lambda>j. j \<noteq> k \<and> (case tx_of db j of None \<Rightarrow> False | Some other \<Rightarrow> list_ex (same_place r) (tx_written other))) (map fst (pg_txs db)) then None
               else Some (put_tx k (tx\<lparr>tx_rows := rs, tx_index := tx_index tx + 1, tx_lastID := n, tx_written := tx_written tx @ [r],
                      tx_pc := (if rs = [] then AtCommit else AtInsert)\<rparr>) (db\<lparr>pg_seq := n\<rparr>))))"

text \<open>\<open>applied\<close>: whether a commit that the driver reports as failed took place.\<close>

definition pg_commit :: "go_error option \<Rightarrow> bool \<Rightarrow> nat \<Rightarrow> pg_tx \<Rightarrow> pg_db \<Rightarrow> pg_db option" where
  "pg_commit fault applied k tx db = Some
     (case fault of
        Some err \<Rightarrow> pg_rollback k tx (Errorf (''save events to stream '' @ tx_stream tx @ '': commit'') [err])
          (if applied then db\<lparr>pg_rows := pg_rows db @ tx_written tx\<rparr> else db)
      | None \<Rightarrow> pg_return k \<lparr>ar_Successful = True, ar_StreamID = tx_stream tx, ar_NextExpectedVersion = tx_version tx + tx_events tx,
            ar_GlobalPosition = tx_lastID tx\<rparr> None (pg_end k (db\<lparr>pg_rows := pg_rows db @ tx_written tx\<rparr>)))"

definition pg_statement :: "(string \<Rightarrow> int) \<Rightarrow> (gotime \<Rightarrow> gotime) \<Rightarrow> go_error option \<Rightarrow> bool \<Rightarrow> nat \<Rightarrow> pg_db \<Rightarrow> pg_db option" where
  "pg_statement hash tz fault applied k db =
     (case tx_of db k of
        None \<Rightarrow> None
      | Some tx \<Rightarrow> (case tx_pc tx of
          AtStreamLock \<Rightarrow> pg_stream_lock hash fault k tx db
        | AtVersion \<Rightarrow> pg_version fault k tx db
        | AtCheck \<Rightarrow> pg_check k tx db
        | AtAppendLock \<Rightarrow> pg_take_append_lock fault k tx db
        | AtInsert \<Rightarrow> pg_insert tz fault applied k tx db
        | AtCommit \<Rightarrow> pg_commit fault applied k tx db))"

section \<open>Reading\<close>

text \<open>The columns have the types that \<open>Scan\<close> expects of them, so a row that arrives scans.\<close>

definition pg_scanEnvelope :: "('e, 'v) event_impl \<Rightarrow> 'e registry \<Rightarrow> pg_row \<Rightarrow> go_error + ('e, 'v) envelope" where
  "pg_scanEnvelope impl reg r =
     (case DecodeEvent impl reg (pr_event_type r) (pr_payload r) of
        Inl err \<Rightarrow> Inl (Errorf ''scan envelope'' [err])
      | Inr ev \<Rightarrow>
          let meta = (case DecodeMetadata impl (pr_metadata r) of Inl _ \<Rightarrow> Map.empty | Inr meta \<Rightarrow> meta) in
          Inr \<lparr>EventID = pr_event_id r, StreamID = pr_stream_id r, Metadata = Some meta, CorrelationID = pr_correlation_id r,
               CausationID = pr_causation_id r, Event = Some ev, Version = pr_stream_position r, GlobalPosition = pr_id r,
               OccurredAt = pr_occurred_at r\<rparr>)"

definition pg_select :: "(pg_row \<Rightarrow> bool) \<Rightarrow> (pg_row \<Rightarrow> nat) \<Rightarrow> pg_db \<Rightarrow> pg_row list" where
  "pg_select cond key db = sort_key key (filter cond (pg_rows db))"

text \<open>The lazy iterator over the rows of a query: its state is the number of rows read. The connection may fail after some of them.\<close>

definition pg_next_row :: "('e, 'v) event_impl \<Rightarrow> 'e registry \<Rightarrow> query_fault \<Rightarrow> pg_row list \<Rightarrow> nat \<Rightarrow> (go_error + ('e, 'v) envelope) \<times> nat" where
  "pg_next_row impl reg q rows i =
     (let n = (case qf_rows q of None \<Rightarrow> length rows | Some (m, _) \<Rightarrow> min m (length rows)) in
      if i \<ge> n then (case qf_rows q of None \<Rightarrow> (Inl (Sentinel IoEOF), i) | Some (_, err) \<Rightarrow> (Inl err, i))
      else (pg_scanEnvelope impl reg (rows ! i), i + 1))"

definition pg_queryRows :: "('e, 'v) event_impl \<Rightarrow> 'e registry \<Rightarrow> query_fault \<Rightarrow> (nat \<Rightarrow> go_error option) \<Rightarrow> pg_row list
    \<Rightarrow> go_error + (nat, ('e, 'v) envelope) iterator" where
  "pg_queryRows impl reg q ctx rows =
     (case qf_query q of
        Some err \<Rightarrow> Inl err
      | None \<Rightarrow> Inr (NewIteratorFunc ctx (pg_next_row impl reg q rows) (Some (\<lambda>i. (None, i))) 0))"

definition pg_exists :: "go_error option \<Rightarrow> pg_db \<Rightarrow> string \<Rightarrow> go_error + bool" where
  "pg_exists fault db sid =
     (case fault of
        Some err \<Rightarrow> Inl (Errorf (''load stream '' @ sid @ '': check existence'') [err])
      | None \<Rightarrow> Inr (list_ex (\<lambda>r. pr_stream_id r = sid) (pg_rows db)))"

text \<open>Two statements: \<open>db\<close> is the database at the first, \<open>db'\<close> at the second.\<close>

definition pg_LoadStream :: "('e, 'v) event_impl \<Rightarrow> 'e registry \<Rightarrow> go_error option \<Rightarrow> query_fault \<Rightarrow> (nat \<Rightarrow> go_error option) \<Rightarrow> pg_db \<Rightarrow> pg_db \<Rightarrow> string
    \<Rightarrow> go_error + (nat, ('e, 'v) envelope) iterator" where
  "pg_LoadStream impl reg fault q ctx db db' sid =
     (case pg_exists fault db sid of
        Inl err \<Rightarrow> Inl err
      | Inr False \<Rightarrow> Inl (Errorf (''load stream '' @ sid) [Sentinel ErrStreamNotFound])
      | Inr True \<Rightarrow> pg_queryRows impl reg q ctx (pg_select (\<lambda>r. pr_stream_id r = sid) pr_stream_position db'))"

text \<open>\<open>NoStream\<close> answers with an empty slice, whose iterator is the first of the sum; the outer result is the panic of \<open>ToRawInt64\<close>.\<close>

definition pg_LoadStreamFrom :: "('e, 'v) event_impl \<Rightarrow> 'e registry \<Rightarrow> go_error option \<Rightarrow> query_fault \<Rightarrow> (nat \<Rightarrow> go_error option) \<Rightarrow> pg_db \<Rightarrow> pg_db \<Rightarrow> string
    \<Rightarrow> stream_state \<Rightarrow> (go_error + (nat, ('e, 'v) envelope) iterator) panics" where
  "pg_LoadStreamFrom impl reg fault q ctx db db' sid version =
     (let all = pg_queryRows impl reg q ctx (pg_select (\<lambda>r. pr_stream_id r = sid) pr_stream_position db') in
      (case version of
         NoStream \<Rightarrow> Inr (case pg_exists fault db sid of
             Inl err \<Rightarrow> Inl err
           | Inr True \<Rightarrow> Inl (Errorf (''load stream '' @ sid @ '': expected empty stream'') [Sentinel ErrStreamExists])
           | Inr False \<Rightarrow> Inr (NewSliceIterator ctx []))
       | StreamExists \<Rightarrow> Inr (case pg_exists fault db sid of
             Inl err \<Rightarrow> Inl err
           | Inr False \<Rightarrow> Inl (Errorf (''load stream '' @ sid @ '': expected existing stream'') [Sentinel ErrStreamNotFound])
           | Inr True \<Rightarrow> all)
       | Any \<Rightarrow> Inr all
       | _ \<Rightarrow> (case ToRawInt64 version of
             Inl msg \<Rightarrow> Inl msg
           | Inr n \<Rightarrow> Inr (pg_queryRows impl reg q ctx
               (pg_select (\<lambda>r. pr_stream_id r = sid \<and> int (pr_stream_position r) > n) pr_stream_position db')))))"

definition pg_LoadCorrelation :: "('e, 'v) event_impl \<Rightarrow> 'e registry \<Rightarrow> query_fault \<Rightarrow> (nat \<Rightarrow> go_error option) \<Rightarrow> pg_db \<Rightarrow> string
    \<Rightarrow> go_error + (nat, ('e, 'v) envelope) iterator" where
  "pg_LoadCorrelation impl reg q ctx db cid =
     (if cid = [] then Inl (Errorf ''load correlation'' [Sentinel ErrEmptyCorrelationID])
      else (case pg_queryRows impl reg q ctx (pg_select (\<lambda>r. pr_correlation_id r = cid) pr_id db) of
          Inl err \<Rightarrow> Inl (Errorf (''load correlation '' @ cid) [err])
        | Inr it \<Rightarrow> Inr it))"

definition pg_Head :: "go_error option \<Rightarrow> pg_db \<Rightarrow> go_error + uint64" where
  "pg_Head fault db =
     (case fault of Some err \<Rightarrow> Inl (Errorf ''head'' [err]) | None \<Rightarrow> Inr (foldr max (map pr_id (pg_rows db)) 0))"

definition pg_matches :: "read_options \<Rightarrow> pg_row \<Rightarrow> bool" where
  "pg_matches opts r \<longleftrightarrow>
     (length (ro_EventTypes opts) = 0 \<or> pr_event_type r \<in> set (ro_EventTypes opts))
     \<and> (length (ro_StreamPrefixes opts) = 0 \<or> list_ex (\<lambda>p. prefix p (pr_stream_id r)) (ro_StreamPrefixes opts))"

fun pg_scan_rows :: "('e, 'v) event_impl \<Rightarrow> 'e registry \<Rightarrow> pg_row list \<Rightarrow> go_error + ('e, 'v) envelope list" where
  "pg_scan_rows impl reg [] = Inr []"
| "pg_scan_rows impl reg (r # rs) =
     (case pg_scanEnvelope impl reg r of
        Inl err \<Rightarrow> Inl err
      | Inr env \<Rightarrow> (case pg_scan_rows impl reg rs of Inl err \<Rightarrow> Inl err | Inr envs \<Rightarrow> Inr (env # envs)))"

definition pg_query :: "('e, 'v) event_impl \<Rightarrow> 'e registry \<Rightarrow> query_fault \<Rightarrow> pg_row list \<Rightarrow> go_error + ('e, 'v) envelope list" where
  "pg_query impl reg q rows =
     (case qf_query q of
        Some err \<Rightarrow> Inl err
      | None \<Rightarrow> (case qf_rows q of
          None \<Rightarrow> pg_scan_rows impl reg rows
        | Some (m, rerr) \<Rightarrow> (case pg_scan_rows impl reg (take m rows) of Inl err \<Rightarrow> Inl err | Inr _ \<Rightarrow> Inl rerr)))"

text \<open>\<open>db\<close> is the database when \<open>Head\<close> reads it, \<open>db'\<close> when the page is selected.\<close>

definition pg_ReadAll :: "('e, 'v) event_impl \<Rightarrow> 'e registry \<Rightarrow> go_error option \<Rightarrow> query_fault \<Rightarrow> pg_db \<Rightarrow> pg_db \<Rightarrow> uint64 \<Rightarrow> read_options
    \<Rightarrow> go_error + ('e, 'v) read_result" where
  "pg_ReadAll impl reg herr q db db' after opts =
     (if int after > max_int64 then Inl (Errorf ''read all'' [Sentinel ErrInvalidRevision])
      else let limit = (if ro_Limit opts \<le> 0 then 500 else nat (ro_Limit opts)) in
        (case pg_Head herr db of
           Inl err \<Rightarrow> Inl (Errorf ''read all'' [err])
         | Inr head \<Rightarrow>
             let res = \<lparr>rr_Events = [], rr_Next = max after head, rr_AtEnd = True\<rparr> in
             if head \<le> after then Inr (res\<lparr>rr_Next := after\<rparr>)
             else (case pg_query impl reg q (take limit (pg_select (\<lambda>r. pr_id r > after \<and> pr_id r \<le> head \<and> pg_matches opts r) pr_id db')) of
                 Inl err \<Rightarrow> Inl (Errorf ''read all'' [err])
               | Inr envs \<Rightarrow>
                   let res = res\<lparr>rr_Events := envs\<rparr> in
                   if length envs = limit
                   then let nxt = GlobalPosition (last envs) in Inr (res\<lparr>rr_Next := nxt, rr_AtEnd := nxt \<ge> head\<rparr>)
                   else Inr res)))"

text \<open>\<open>Close\<close> closes the pool: the database stays, and what later calls fail with is what their statements are given.\<close>

definition pg_Close :: "pg_db \<Rightarrow> pg_db \<times> go_error option" where
  "pg_Close db = (db, None)"

end
