(* ===== verification/Pg_Events_Props.thy ===== *)
theory Pg_Events_Props
  imports Pg_Events ES_Memory_Props
begin

text \<open>
  The invariant of the event store on PostgreSQL under any interleaving of the statements of any number of \<open>Save\<close> calls, and what follows
  from it: the two advisory locks make the rows of a transaction come after every committed row, so that positions become visible in order, and make
  the version a call checked the length of its stream until it commits.
\<close>

section \<open>Steps\<close>

inductive pg_step :: "(string \<Rightarrow> int) \<Rightarrow> (gotime \<Rightarrow> gotime) \<Rightarrow> ('e, 'v) event_impl \<Rightarrow> 'e registry \<Rightarrow> pg_db \<Rightarrow> pg_db \<Rightarrow> bool"
  for hash :: "string \<Rightarrow> int" and tz :: "gotime \<Rightarrow> gotime" and impl :: "('e, 'v) event_impl" and reg :: "'e registry" where
  call: "tx_of db k = None \<Longrightarrow> pg_done db k = None \<Longrightarrow> pg_step hash tz impl reg db (pg_Save impl reg now fault k events revision db)"
| statement: "pg_statement hash tz fault applied k db = Some db' \<Longrightarrow> pg_step hash tz impl reg db db'"

lemma tx_of_simps [simp]:
  "tx_of (put_tx k tx db) j = (if j = k then Some tx else tx_of db j)" "tx_of (pg_end k db) j = (if j = k then None else tx_of db j)"
  "tx_of (pg_return k res err db) j = tx_of db j" "tx_of (db\<lparr>pg_rows := rows\<rparr>) j = tx_of db j" "tx_of (db\<lparr>pg_seq := n\<rparr>) j = tx_of db j"
  "tx_of (db\<lparr>pg_stream_locks := L\<rparr>) j = tx_of db j" "tx_of (db\<lparr>pg_append_lock := A\<rparr>) j = tx_of db j"
  by (simp_all add: tx_of_def put_tx_def pg_end_def pg_return_def update_conv' delete_conv')

lemma db_simps [simp]:
  "pg_rows (put_tx k tx db) = pg_rows db" "pg_seq (put_tx k tx db) = pg_seq db" "pg_stream_locks (put_tx k tx db) = pg_stream_locks db"
  "pg_append_lock (put_tx k tx db) = pg_append_lock db" "pg_done (put_tx k tx db) = pg_done db"
  "pg_rows (pg_end k db) = pg_rows db" "pg_seq (pg_end k db) = pg_seq db"
  "pg_rows (pg_return k res err db) = pg_rows db" "pg_seq (pg_return k res err db) = pg_seq db" "pg_stream_locks (pg_return k res err db) = pg_stream_locks db"
  "pg_append_lock (pg_return k res err db) = pg_append_lock db" "pg_done (pg_return k res err db) = (pg_done db)(k \<mapsto> (res, err))" "pg_done (pg_end k db) = pg_done db"
  "pg_stream_locks (pg_end k db) h = (if pg_stream_locks db h = Some k then None else pg_stream_locks db h)"
  "pg_append_lock (pg_end k db) = (if pg_append_lock db = Some k then None else pg_append_lock db)"
  by (simp_all add: put_tx_def pg_end_def pg_return_def)

section \<open>The invariant\<close>

definition in_pg_stream :: "string \<Rightarrow> pg_row list \<Rightarrow> pg_row list" where
  "in_pg_stream sid rows = filter (\<lambda>r. pr_stream_id r = sid) rows"

text \<open>An open transaction: the locks it holds at each statement, the version it read, and the rows it wrote.\<close>

definition tx_ok :: "(string \<Rightarrow> int) \<Rightarrow> pg_db \<Rightarrow> nat \<Rightarrow> pg_tx \<Rightarrow> bool" where
  "tx_ok hash db k tx \<longleftrightarrow>
     (tx_pc tx \<noteq> AtStreamLock \<longrightarrow> pg_stream_locks db (hash (tx_stream tx)) = Some k)
     \<and> (tx_pc tx \<in> {AtInsert, AtCommit} \<longleftrightarrow> pg_append_lock db = Some k)
     \<and> (tx_pc tx \<in> {AtCheck, AtAppendLock, AtInsert, AtCommit} \<longrightarrow> tx_version tx = length (in_pg_stream (tx_stream tx) (pg_rows db)))
     \<and> (tx_pc tx \<in> {AtAppendLock, AtInsert, AtCommit} \<longrightarrow> pg_check_revision (tx_stream tx) (tx_version tx) (tx_revision tx) = None)
     \<and> (tx_pc tx \<notin> {AtInsert, AtCommit} \<longrightarrow> tx_written tx = [])
     \<and> tx_index tx = length (tx_written tx) \<and> tx_events tx = tx_index tx + length (tx_rows tx) \<and> 0 < tx_events tx
     \<and> (tx_pc tx = AtCommit \<longrightarrow> tx_rows tx = []) \<and> (tx_pc tx = AtInsert \<longrightarrow> tx_rows tx \<noteq> [])
     \<and> (tx_written tx \<noteq> [] \<longrightarrow> tx_lastID tx = pr_id (last (tx_written tx)))
     \<and> (\<forall>r \<in> set (tx_written tx). pr_stream_id r = tx_stream tx)
     \<and> map pr_stream_position (tx_written tx) = [Suc (tx_version tx)..<Suc (tx_version tx + length (tx_written tx))]
     \<and> sorted_wrt (<) (map pr_id (pg_rows db @ tx_written tx)) \<and> (\<forall>r \<in> set (tx_written tx). 0 < pr_id r \<and> pr_id r \<le> pg_seq db)"

definition rows_inv :: "pg_db \<Rightarrow> bool" where
  "rows_inv db \<longleftrightarrow> sorted_wrt (<) (map pr_id (pg_rows db)) \<and> (\<forall>r \<in> set (pg_rows db). 0 < pr_id r \<and> pr_id r \<le> pg_seq db) \<and> int (pg_seq db) \<le> max_int64
     \<and> (\<forall>sid. map pr_stream_position (in_pg_stream sid (pg_rows db)) = [1..<Suc (length (in_pg_stream sid (pg_rows db)))])"

definition pg_inv :: "(string \<Rightarrow> int) \<Rightarrow> pg_db \<Rightarrow> bool" where
  "pg_inv hash db \<longleftrightarrow> rows_inv db \<and> (\<forall>k tx. tx_of db k = Some tx \<longrightarrow> tx_ok hash db k tx)
     \<and> (\<forall>h k. pg_stream_locks db h = Some k \<longrightarrow> (\<exists>tx. tx_of db k = Some tx \<and> hash (tx_stream tx) = h \<and> tx_pc tx \<noteq> AtStreamLock))
     \<and> (\<forall>k. pg_append_lock db = Some k \<longrightarrow> (\<exists>tx. tx_of db k = Some tx \<and> tx_pc tx \<in> {AtInsert, AtCommit}))"

lemma pg_inv_init: "pg_inv hash Schema_pg"
  by (simp add: pg_inv_def rows_inv_def Schema_pg_def tx_of_def in_pg_stream_def max_int64_def)

text \<open>What a step of call \<open>k\<close> keeps of the others.\<close>

definition others_same :: "nat \<Rightarrow> pg_db \<Rightarrow> pg_db \<Rightarrow> bool" where
  "others_same k db db' \<longleftrightarrow> pg_seq db \<le> pg_seq db' \<and> (\<forall>j. j \<noteq> k \<longrightarrow> tx_of db' j = tx_of db j
     \<and> (\<forall>h. (pg_stream_locks db' h = Some j) = (pg_stream_locks db h = Some j)) \<and> (pg_append_lock db' = Some j) = (pg_append_lock db = Some j))"

definition own_ok :: "(string \<Rightarrow> int) \<Rightarrow> nat \<Rightarrow> pg_db \<Rightarrow> bool" where
  "own_ok hash k db \<longleftrightarrow> int (pg_seq db) \<le> max_int64 \<and> (\<forall>tx. tx_of db k = Some tx \<longrightarrow> tx_ok hash db k tx)
     \<and> (\<forall>h. pg_stream_locks db h = Some k \<longrightarrow> (\<exists>tx. tx_of db k = Some tx \<and> hash (tx_stream tx) = h \<and> tx_pc tx \<noteq> AtStreamLock))
     \<and> (pg_append_lock db = Some k \<longrightarrow> (\<exists>tx. tx_of db k = Some tx \<and> tx_pc tx \<in> {AtInsert, AtCommit}))"

lemma pg_invD:
  assumes "pg_inv hash db"
  shows "rows_inv db" "tx_of db k = Some tx \<Longrightarrow> tx_ok hash db k tx" "own_ok hash k db"
  using assms by (simp_all add: pg_inv_def own_ok_def rows_inv_def)

lemma others_ok:
  assumes "tx_ok hash db j tx" "others_same k db db'" "pg_rows db' = pg_rows db" "j \<noteq> k"
  shows "tx_ok hash db' j tx"
proof -
  have same: "\<And>h. (pg_stream_locks db' h = Some j) = (pg_stream_locks db h = Some j)" "(pg_append_lock db' = Some j) = (pg_append_lock db = Some j)"
    and seq: "pg_seq db \<le> pg_seq db'" using assms(2,4) by (auto simp: others_same_def)
  then show ?thesis using assms(1) order_trans [OF _ seq] unfolding tx_ok_def same assms(3) by blast
qed

lemma pg_inv_own:
  assumes "pg_inv hash db" "others_same k db db'" "pg_rows db' = pg_rows db" "own_ok hash k db'"
  shows "pg_inv hash db'"
proof -
  note o = assms(2) [unfolded others_same_def]
  have "rows_inv db'" using assms(1,3,4) o by (fastforce simp: pg_inv_def rows_inv_def own_ok_def)
  moreover have "tx_ok hash db' j tx" if "tx_of db' j = Some tx" for j tx
  proof (cases "j = k")
    case False
    then have "tx_of db j = Some tx" using o that by simp
    then show ?thesis using others_ok [OF pg_invD(2) [OF assms(1)] assms(2,3) False] by blast
  qed (use assms(4) that in \<open>simp add: own_ok_def\<close>)
  moreover have "\<exists>tx. tx_of db' j = Some tx \<and> hash (tx_stream tx) = h \<and> tx_pc tx \<noteq> AtStreamLock" if "pg_stream_locks db' h = Some j" for h j
    using assms(1,4) o that by (cases "j = k") (auto simp: own_ok_def pg_inv_def)
  moreover have "\<exists>tx. tx_of db' j = Some tx \<and> tx_pc tx \<in> {AtInsert, AtCommit}" if "pg_append_lock db' = Some j" for j
    using assms(1,4) o that by (cases "j = k") (auto simp: own_ok_def pg_inv_def)
  ultimately show ?thesis by (simp add: pg_inv_def)
qed

lemma not_open_no_locks:
  assumes "pg_inv hash db" "tx_of db k = None"
  shows "pg_stream_locks db h \<noteq> Some k" "pg_append_lock db \<noteq> Some k"
  using pg_invD(3) [OF assms(1), of k] assms(2) by (auto simp: own_ok_def)

lemma rollback_inv:
  assumes "pg_inv hash db" "pg_seq db \<le> n" "int n \<le> max_int64"
  shows "pg_inv hash (pg_rollback k tx err (db\<lparr>pg_seq := n\<rparr>))"
proof (rule pg_inv_own [OF assms(1)])
  show "others_same k db (pg_rollback k tx err (db\<lparr>pg_seq := n\<rparr>))" using assms(2) by (auto simp: others_same_def pg_rollback_def)
  show "own_ok hash k (pg_rollback k tx err (db\<lparr>pg_seq := n\<rparr>))" using assms(3) by (simp add: own_ok_def pg_rollback_def)
qed (simp add: pg_rollback_def)

lemma rollback_same_inv: "pg_inv hash db \<Longrightarrow> pg_inv hash (pg_rollback k tx err db)"
  using rollback_inv [of hash db "pg_seq db"] pg_invD(1) [of hash db] by (simp add: rows_inv_def)

lemma encode_length: "pg_encode_rows impl reg now i envs = Inr rows \<Longrightarrow> length rows = length envs"
  by (induction envs arbitrary: i rows) (auto simp: Let_def split: sum.splits)

lemma tx_ok_return [simp]: "tx_ok hash (pg_return j res err db) k tx = tx_ok hash db k tx"
  unfolding tx_ok_def db_simps ..

lemma own_ok_return [simp]: "own_ok hash k (pg_return j res err db) = own_ok hash k db"
  unfolding own_ok_def tx_ok_return tx_of_simps db_simps ..

lemma return_inv:
  assumes "pg_inv hash db"
  shows "pg_inv hash (pg_return k res err db)"
  by (rule pg_inv_own [where k = k, OF assms]) (use pg_invD(3) [OF assms] in \<open>simp_all add: others_same_def\<close>)

lemma save_inv:
  assumes "pg_inv hash db" "tx_of db k = None"
  shows "pg_inv hash (pg_Save impl reg now fault k events revision db)"
proof -
  have "pg_inv hash (put_tx k \<lparr>tx_stream = sid, tx_revision = revision, tx_events = length events, tx_rows = rows, tx_index = 0, tx_version = 0,
                   tx_lastID = 0, tx_written = [], tx_pc = AtStreamLock\<rparr> db)" (is "pg_inv hash ?db")
    if "pg_encode_rows impl reg now 0 events = Inr rows" "events \<noteq> []" for rows sid
  proof (rule pg_inv_own [OF assms(1)])
    show "others_same k db ?db" by (simp add: others_same_def)
    show "own_ok hash k ?db" using not_open_no_locks [OF assms] encode_length [OF that(1)] that(2) pg_invD(1) [OF assms(1)]
      by (simp add: own_ok_def tx_ok_def rows_inv_def)
  qed simp
  then show ?thesis using assms(1) return_inv by (auto simp: pg_Save_def Let_def split: list.split option.split sum.split)
qed

lemma stream_lock_inv:
  assumes "pg_inv hash db" "tx_of db k = Some tx" "tx_pc tx = AtStreamLock" "pg_stream_lock hash fault k tx db = Some db'"
  shows "pg_inv hash db'"
proof (cases fault)
  case None
  let ?h = "hash (tx_stream tx)"
  have free: "pg_stream_locks db ?h = None \<or> pg_stream_locks db ?h = Some k"
    and db': "db' = put_tx k (tx\<lparr>tx_pc := AtVersion\<rparr>) (db\<lparr>pg_stream_locks := (pg_stream_locks db)(?h \<mapsto> k)\<rparr>)"
    using assms(4) None by (auto simp: pg_stream_lock_def Let_def split: if_splits)
  show ?thesis unfolding db'
  proof (rule pg_inv_own [OF assms(1)])
    show "others_same k db (put_tx k (tx\<lparr>tx_pc := AtVersion\<rparr>) (db\<lparr>pg_stream_locks := (pg_stream_locks db)(?h \<mapsto> k)\<rparr>))"
      using free by (auto simp: others_same_def)
    show "own_ok hash k (put_tx k (tx\<lparr>tx_pc := AtVersion\<rparr>) (db\<lparr>pg_stream_locks := (pg_stream_locks db)(?h \<mapsto> k)\<rparr>))"
      using pg_invD(2,3) [OF assms(1), of k] assms(2,3) by (auto simp: own_ok_def tx_ok_def split: if_splits)
  qed simp
qed (use assms rollback_same_inv in \<open>auto simp: pg_stream_lock_def\<close>)

lemma foldr_max_bound: "\<forall>x \<in> set xs. x \<le> b \<Longrightarrow> foldr max xs b = (b :: nat)"
  by (induction xs) auto

lemma pg_foldr_max_upt: "foldr max [Suc 0..<Suc n] 0 = n"
proof (cases n)
  case (Suc m)
  have "[Suc 0..<Suc n] = [Suc 0..<n] @ [n]" using Suc by simp
  then have "foldr max [Suc 0..<Suc n] 0 = foldr max [Suc 0..<n] n" by (simp del: upt_Suc)
  also have "\<dots> = n" by (rule foldr_max_bound) simp
  finally show ?thesis .
qed simp

lemma max_position_length:
  assumes "rows_inv db"
  shows "pg_max_position sid (pg_rows db) = length (in_pg_stream sid (pg_rows db))"
proof -
  have "map pr_stream_position (in_pg_stream sid (pg_rows db)) = [Suc 0..<Suc (length (in_pg_stream sid (pg_rows db)))]"
    using assms unfolding rows_inv_def One_nat_def by blast
  then have "pg_max_position sid (pg_rows db) = foldr max [Suc 0..<Suc (length (in_pg_stream sid (pg_rows db)))] 0"
    unfolding pg_max_position_def in_pg_stream_def by (rule arg_cong [where f = "\<lambda>xs. foldr max xs 0"])
  then show ?thesis by (rule trans) (rule pg_foldr_max_upt)
qed

lemma version_inv:
  assumes "pg_inv hash db" "tx_of db k = Some tx" "tx_pc tx = AtVersion" "pg_version fault k tx db = Some db'"
  shows "pg_inv hash db'"
proof (cases fault)
  case None
  have ok: "tx_ok hash db k tx" by (rule pg_invD(2) [OF assms(1,2)])
  then have w: "tx_written tx = []" using assms(3) by (simp add: tx_ok_def)
  let ?tx = "tx\<lparr>tx_version := length (in_pg_stream (tx_stream tx) (pg_rows db)), tx_pc := AtCheck\<rparr>"
  have db': "db' = put_tx k ?tx db"
    using assms(4) None w by (simp add: pg_version_def max_position_length [OF pg_invD(1) [OF assms(1)]])
  show ?thesis unfolding db'
  proof (rule pg_inv_own [OF assms(1)])
    show "others_same k db (put_tx k ?tx db)" by (simp add: others_same_def)
    have "tx_ok hash (put_tx k ?tx db) k ?tx" using ok assms(3) w by (auto simp: tx_ok_def)
    then show "own_ok hash k (put_tx k ?tx db)" using pg_invD(3) [OF assms(1), of k] assms(2,3) by (auto simp: own_ok_def)
  qed simp
qed (use assms rollback_same_inv in \<open>auto simp: pg_version_def\<close>)

lemma check_inv:
  assumes "pg_inv hash db" "tx_of db k = Some tx" "tx_pc tx = AtCheck" "pg_check k tx db = Some db'"
  shows "pg_inv hash db'"
proof (cases "pg_check_revision (tx_stream tx) (tx_version tx) (tx_revision tx)")
  case None
  let ?tx = "tx\<lparr>tx_pc := AtAppendLock\<rparr>"
  have db': "db' = put_tx k ?tx db" using assms(4) None by (simp add: pg_check_def)
  have ok: "tx_ok hash db k tx" by (rule pg_invD(2) [OF assms(1,2)])
  show ?thesis unfolding db'
  proof (rule pg_inv_own [OF assms(1)])
    show "others_same k db (put_tx k ?tx db)" by (simp add: others_same_def)
    have "tx_ok hash (put_tx k ?tx db) k ?tx" using ok assms(3) None by (auto simp: tx_ok_def simp del: upt_Suc)
    then show "own_ok hash k (put_tx k ?tx db)" using pg_invD(3) [OF assms(1), of k] assms(2,3) by (auto simp: own_ok_def)
  qed simp
qed (use assms rollback_same_inv in \<open>auto simp: pg_check_def\<close>)

lemma append_lock_inv:
  assumes "pg_inv hash db" "tx_of db k = Some tx" "tx_pc tx = AtAppendLock" "pg_take_append_lock fault k tx db = Some db'"
  shows "pg_inv hash db'"
proof (cases fault)
  case None
  let ?tx = "tx\<lparr>tx_pc := AtInsert\<rparr>"
  have free: "pg_append_lock db = None \<or> pg_append_lock db = Some k" and db': "db' = put_tx k ?tx (db\<lparr>pg_append_lock := Some k\<rparr>)"
    using assms(4) None by (auto simp: pg_take_append_lock_def split: if_splits)
  have ok: "tx_ok hash db k tx" by (rule pg_invD(2) [OF assms(1,2)])
  show ?thesis unfolding db'
  proof (rule pg_inv_own [OF assms(1)])
    show "others_same k db (put_tx k ?tx (db\<lparr>pg_append_lock := Some k\<rparr>))" using free by (auto simp: others_same_def)
    have "tx_ok hash (put_tx k ?tx (db\<lparr>pg_append_lock := Some k\<rparr>)) k ?tx" using ok assms(3) by (auto simp: tx_ok_def)
    then show "own_ok hash k (put_tx k ?tx (db\<lparr>pg_append_lock := Some k\<rparr>))" using pg_invD(3) [OF assms(1), of k] assms(2,3) by (auto simp: own_ok_def)
  qed simp
qed (use assms rollback_same_inv in \<open>auto simp: pg_take_append_lock_def\<close>)

lemma tx_okD:
  assumes "tx_ok hash db k tx"
  shows "tx_pc tx \<noteq> AtStreamLock \<Longrightarrow> pg_stream_locks db (hash (tx_stream tx)) = Some k"
    "(tx_pc tx \<in> {AtInsert, AtCommit}) = (pg_append_lock db = Some k)"
    "tx_pc tx \<in> {AtCheck, AtAppendLock, AtInsert, AtCommit} \<Longrightarrow> tx_version tx = length (in_pg_stream (tx_stream tx) (pg_rows db))"
    "tx_pc tx \<in> {AtAppendLock, AtInsert, AtCommit} \<Longrightarrow> pg_check_revision (tx_stream tx) (tx_version tx) (tx_revision tx) = None"
    "tx_pc tx \<notin> {AtInsert, AtCommit} \<Longrightarrow> tx_written tx = []"
    "tx_index tx = length (tx_written tx)" "tx_events tx = tx_index tx + length (tx_rows tx)" "0 < tx_events tx"
    "tx_pc tx = AtCommit \<Longrightarrow> tx_rows tx = []" "tx_pc tx = AtInsert \<Longrightarrow> tx_rows tx \<noteq> []"
    "tx_written tx \<noteq> [] \<Longrightarrow> tx_lastID tx = pr_id (last (tx_written tx))"
    "\<forall>r \<in> set (tx_written tx). pr_stream_id r = tx_stream tx"
    "map pr_stream_position (tx_written tx) = [Suc (tx_version tx)..<Suc (tx_version tx + length (tx_written tx))]"
    "sorted_wrt (<) (map pr_id (pg_rows db @ tx_written tx))" "\<forall>r \<in> set (tx_written tx). 0 < pr_id r \<and> pr_id r \<le> pg_seq db"
  using assms unfolding tx_ok_def by blast+

lemma rows_below_seq:
  assumes "pg_inv hash db" "tx_of db k = Some tx"
  shows "\<forall>r \<in> set (pg_rows db @ tx_written tx). 0 < pr_id r \<and> pr_id r \<le> pg_seq db"
  using pg_invD(1) [OF assms(1)] tx_okD(15) [OF pg_invD(2) [OF assms]] by (auto simp: rows_inv_def)

text \<open>The row that an insert writes.\<close>

definition inserted_row :: "(gotime \<Rightarrow> gotime) \<Rightarrow> pg_tx \<Rightarrow> pg_db \<Rightarrow> pg_row \<Rightarrow> pg_row" where
  "inserted_row tz tx db r = r\<lparr>pr_id := Suc (pg_seq db), pr_stream_id := tx_stream tx, pr_stream_position := Suc (tx_version tx + tx_index tx),
     pr_occurred_at := tz (pr_occurred_at r)\<rparr>"

definition inserted_tx :: "pg_tx \<Rightarrow> nat \<Rightarrow> pg_row \<Rightarrow> pg_row list \<Rightarrow> pg_tx" where
  "inserted_tx tx n r rs = tx\<lparr>tx_rows := rs, tx_index := Suc (tx_index tx), tx_lastID := n, tx_written := tx_written tx @ [r],
     tx_pc := (if rs = [] then AtCommit else AtInsert)\<rparr>"

lemma inserted_simps [simp]:
  "pr_id (inserted_row tz tx db r) = Suc (pg_seq db)" "pr_stream_id (inserted_row tz tx db r) = tx_stream tx"
  "pr_stream_position (inserted_row tz tx db r) = Suc (tx_version tx + tx_index tx)"
  "tx_rows (inserted_tx tx n r rs) = rs" "tx_index (inserted_tx tx n r rs) = Suc (tx_index tx)" "tx_lastID (inserted_tx tx n r rs) = n"
  "tx_written (inserted_tx tx n r rs) = tx_written tx @ [r]" "tx_pc (inserted_tx tx n r rs) = (if rs = [] then AtCommit else AtInsert)"
  "tx_stream (inserted_tx tx n r rs) = tx_stream tx" "tx_version (inserted_tx tx n r rs) = tx_version tx"
  "tx_revision (inserted_tx tx n r rs) = tx_revision tx" "tx_events (inserted_tx tx n r rs) = tx_events tx"
  by (simp_all add: inserted_row_def inserted_tx_def)

lemma insert_cases:
  assumes "pg_insert tz fault applied k tx db = Some db'" "tx_rows tx = r # rs"
  obtains (rolled) e n where "db' = pg_rollback k tx e (db\<lparr>pg_seq := n\<rparr>)" "pg_seq db \<le> n" "n = pg_seq db \<or> int n \<le> max_int64"
  | (written) "int (Suc (pg_seq db)) \<le> max_int64" "db' = put_tx k (inserted_tx tx (Suc (pg_seq db)) (inserted_row tz tx db r) rs) (db\<lparr>pg_seq := Suc (pg_seq db)\<rparr>)"
proof (cases fault)
  case (Some err)
  show thesis
  proof (cases "applied \<and> int (Suc (pg_seq db)) \<le> max_int64")
    case True
    then show thesis using assms Some by (intro rolled [of _ "Suc (pg_seq db)"]) (auto simp: pg_insert_def Let_def)
  next
    case False
    then show thesis using assms Some by (intro rolled [of _ "pg_seq db"]) (auto simp: pg_insert_def Let_def)
  qed
next
  case None
  show thesis
  proof (cases "int (Suc (pg_seq db)) \<le> max_int64")
    case True
    then have "(\<exists>e. db' = pg_rollback k tx e (db\<lparr>pg_seq := Suc (pg_seq db)\<rparr>))
      \<or> db' = put_tx k (inserted_tx tx (Suc (pg_seq db)) (inserted_row tz tx db r) rs) (db\<lparr>pg_seq := Suc (pg_seq db)\<rparr>)"
      using assms unfolding pg_insert_def inserted_row_def inserted_tx_def None by (auto simp: Let_def split: if_splits)
    then show thesis using rolled [of _ "Suc (pg_seq db)"] written True by auto
  next
    case False
    then show thesis using assms None by (intro rolled [of _ "pg_seq db"]) (auto simp: pg_insert_def Let_def)
  qed
qed

lemma inserted_ok:
  assumes "pg_inv hash db" "tx_of db k = Some tx" "tx_pc tx = AtInsert" "tx_rows tx = r # rs"
    and "db' = put_tx k (inserted_tx tx (Suc (pg_seq db)) (inserted_row tz tx db r) rs) (db\<lparr>pg_seq := Suc (pg_seq db)\<rparr>)"
  shows "tx_ok hash db' k (inserted_tx tx (Suc (pg_seq db)) (inserted_row tz tx db r) rs)"
proof -
  note ok = tx_okD [OF pg_invD(2) [OF assms(1,2)]] and below = rows_below_seq [OF assms(1,2)]
  have "sorted_wrt (<) (map pr_id (pg_rows db @ tx_written tx @ [inserted_row tz tx db r]))"
    using ok(14) below by (auto simp: sorted_wrt_append less_Suc_eq_le)
  moreover have "map pr_stream_position (tx_written tx @ [inserted_row tz tx db r]) =
      [Suc (tx_version tx)..<Suc (tx_version tx + length (tx_written tx @ [inserted_row tz tx db r]))]"
    using ok(6,13) by simp
  moreover have "\<forall>q \<in> set (tx_written tx). pr_id q \<le> Suc (pg_seq db)" using ok(15) by auto
  ultimately show ?thesis unfolding tx_ok_def assms(5)
    using ok(1,2,3,4,6,7,8,12,15) assms(3,4) by (simp del: upt_Suc map_append)
qed

lemma insert_inv:
  assumes "pg_inv hash db" "tx_of db k = Some tx" "tx_pc tx = AtInsert" "pg_insert tz fault applied k tx db = Some db'"
  shows "pg_inv hash db'"
proof -
  obtain r rs where rows: "tx_rows tx = r # rs" using tx_okD(10) [OF pg_invD(2) [OF assms(1,2)] assms(3)] by (auto simp: neq_Nil_conv)
  from assms(4) rows show ?thesis
  proof (cases rule: insert_cases)
    case written
    note ok = inserted_ok [OF assms(1-3) rows written(2)]
    have "own_ok hash k db'" using pg_invD(3) [OF assms(1), of k] assms(2,3) ok written(1) unfolding written(2) own_ok_def by simp
    then show ?thesis unfolding written(2) by (intro pg_inv_own [OF assms(1), of k]) (simp_all add: others_same_def)
  next
    case (rolled e n)
    then have "int n \<le> max_int64" using pg_invD(1) [OF assms(1)] by (auto simp: rows_inv_def)
    then show ?thesis unfolding rolled(1) by (rule rollback_inv [OF assms(1) rolled(2)])
  qed
qed

text \<open>A commit: the rows written follow every committed row, and complete their stream.\<close>

definition pg_apply :: "pg_tx \<Rightarrow> pg_db \<Rightarrow> pg_db" where
  "pg_apply tx db = db\<lparr>pg_rows := pg_rows db @ tx_written tx\<rparr>"

lemma commit_rows_inv:
  assumes "pg_inv hash db" "tx_of db k = Some tx" "tx_pc tx = AtCommit"
  shows "rows_inv (pg_apply tx db)"
proof -
  note ok = tx_okD [OF pg_invD(2) [OF assms(1,2)]] and ws = tx_okD(12) [OF pg_invD(2) [OF assms(1,2)]]
  let ?n = "length (in_pg_stream (tx_stream tx) (pg_rows db))"
  have v: "tx_version tx = ?n" using ok(3) assms(3) by simp
  have ps: "map pr_stream_position (tx_written tx) = [Suc ?n..<Suc (?n + length (tx_written tx))]" using ok(13) unfolding v .
  have own: "in_pg_stream (tx_stream tx) (tx_written tx) = tx_written tx" using ws by (simp add: in_pg_stream_def filter_id_conv)
  have other: "in_pg_stream sid (tx_written tx) = []" if "sid \<noteq> tx_stream tx" for sid using ws that by (auto simp: in_pg_stream_def filter_empty_conv)
  have app: "in_pg_stream sid (pg_rows db @ tx_written tx) = in_pg_stream sid (pg_rows db) @ in_pg_stream sid (tx_written tx)" for sid by (simp add: in_pg_stream_def)
  have base: "map pr_stream_position (in_pg_stream sid (pg_rows db)) = [1..<Suc (length (in_pg_stream sid (pg_rows db)))]" for sid
    using pg_invD(1) [OF assms(1)] unfolding rows_inv_def by blast
  have "map pr_stream_position (in_pg_stream sid (pg_rows db @ tx_written tx)) = [1..<Suc (length (in_pg_stream sid (pg_rows db @ tx_written tx)))]" for sid
  proof (cases "sid = tx_stream tx")
    case True
    have "[1..<Suc ?n] @ [Suc ?n..<Suc (?n + length (tx_written tx))] = [1..<Suc (?n + length (tx_written tx))]"
      using upt_add_eq_append [of 1 "Suc ?n" "length (tx_written tx)"] by simp
    then show ?thesis unfolding True app own map_append base ps by simp
  qed (use base app other in \<open>simp del: upt_Suc\<close>)
  then show ?thesis using ok(14) rows_below_seq [OF assms(1,2)] pg_invD(1) [OF assms(1)] unfolding rows_inv_def pg_apply_def by simp
qed

text \<open>No other transaction has written, and none that has read its version writes to the same stream.\<close>

lemma holder_others:
  assumes "pg_inv hash db" "tx_of db k = Some tx" "tx_pc tx \<in> {AtInsert, AtCommit}" "tx_of db j = Some tx'" "j \<noteq> k"
  shows "tx_pc tx' \<notin> {AtInsert, AtCommit}" "tx_written tx' = []" "tx_pc tx' \<noteq> AtStreamLock \<Longrightarrow> tx_stream tx' \<noteq> tx_stream tx"
proof -
  note ok = tx_okD [OF pg_invD(2) [OF assms(1,2)]] and ok' = tx_okD [OF pg_invD(2) [OF assms(1,4)]]
  have "pg_append_lock db = Some k" using ok(2) assms(3) by simp
  then show no: "tx_pc tx' \<notin> {AtInsert, AtCommit}" using ok'(2) assms(5) by simp
  show "tx_written tx' = []" by (rule ok'(5) [OF no])
  show "tx_stream tx' \<noteq> tx_stream tx" if "tx_pc tx' \<noteq> AtStreamLock"
    using ok(1) ok'(1) [OF that] assms(3,5) by auto
qed

lemma commit_other_ok:
  assumes "pg_inv hash db" "tx_of db k = Some tx" "tx_pc tx = AtCommit" "tx_of db j = Some tx'" "j \<noteq> k"
  shows "tx_ok hash (pg_end k (pg_apply tx db)) j tx'"
proof -
  note ok = tx_okD [OF pg_invD(2) [OF assms(1,2)]] and ok' = tx_okD [OF pg_invD(2) [OF assms(1,4)]] and o = holder_others [OF assms(1,2) _ assms(4,5)]
  have same: "in_pg_stream (tx_stream tx') (pg_rows db @ tx_written tx) = in_pg_stream (tx_stream tx') (pg_rows db)" if "tx_pc tx' \<noteq> AtStreamLock"
    using o(3) [OF _ that] assms(3) ok(12) by (auto simp: in_pg_stream_def filter_empty_conv)
  show ?thesis unfolding tx_ok_def
    using ok'(1,2,3,4,6,7,8,9,10) o(1,2) assms(3) same ok(14) assms(5) by (simp add: pg_apply_def)
qed

lemma apply_simps [simp]:
  "tx_of (pg_apply tx db) j = tx_of db j" "pg_rows (pg_apply tx db) = pg_rows db @ tx_written tx" "pg_seq (pg_apply tx db) = pg_seq db"
  "pg_stream_locks (pg_apply tx db) = pg_stream_locks db" "pg_append_lock (pg_apply tx db) = pg_append_lock db" "pg_done (pg_apply tx db) = pg_done db"
  by (simp_all add: pg_apply_def)

lemma apply_end_inv:
  assumes "pg_inv hash db" "tx_of db k = Some tx" "tx_pc tx = AtCommit"
  shows "pg_inv hash (pg_end k (pg_apply tx db))"
  unfolding pg_inv_def
proof (intro conjI allI impI)
  show "rows_inv (pg_end k (pg_apply tx db))" using commit_rows_inv [OF assms] by (simp add: rows_inv_def)
  show "tx_ok hash (pg_end k (pg_apply tx db)) j tx'" if "tx_of (pg_end k (pg_apply tx db)) j = Some tx'" for j tx'
    using that commit_other_ok [OF assms] by (simp split: if_splits)
  show "\<exists>tx'. tx_of (pg_end k (pg_apply tx db)) j = Some tx' \<and> hash (tx_stream tx') = h \<and> tx_pc tx' \<noteq> AtStreamLock"
    if "pg_stream_locks (pg_end k (pg_apply tx db)) h = Some j" for h j
    using that assms(1) by (auto simp: pg_inv_def split: if_splits)
  show "\<exists>tx'. tx_of (pg_end k (pg_apply tx db)) j = Some tx' \<and> tx_pc tx' \<in> {AtInsert, AtCommit}"
    if "pg_append_lock (pg_end k (pg_apply tx db)) = Some j" for j
    using that assms(1) by (auto simp: pg_inv_def split: if_splits)
qed

lemma pg_commit_cases:
  assumes "pg_commit fault applied k tx db = Some db'"
  obtains (rolled) e where "db' = pg_rollback k tx e db"
  | (lost) e where "db' = pg_rollback k tx e (pg_apply tx db)"
  | (committed) "db' = pg_return k \<lparr>ar_Successful = True, ar_StreamID = tx_stream tx, ar_NextExpectedVersion = tx_version tx + tx_events tx,
      ar_GlobalPosition = tx_lastID tx\<rparr> None (pg_end k (pg_apply tx db))"
  using assms by (auto simp: pg_commit_def pg_apply_def split: option.splits if_splits)

lemma commit_inv:
  assumes "pg_inv hash db" "tx_of db k = Some tx" "tx_pc tx = AtCommit" "pg_commit fault applied k tx db = Some db'"
  shows "pg_inv hash db'"
  using assms(4) by (cases rule: pg_commit_cases) (use rollback_same_inv return_inv apply_end_inv [OF assms(1-3)] assms(1) in \<open>auto simp: pg_rollback_def\<close>)

lemma statement_inv:
  assumes "pg_inv hash db" "pg_statement hash tz fault applied k db = Some db'"
  shows "pg_inv hash db'"
proof -
  obtain tx where "tx_of db k = Some tx" using assms(2) by (auto simp: pg_statement_def split: option.splits)
  note tx = assms(1) this
  show ?thesis using stream_lock_inv [OF tx] version_inv [OF tx] check_inv [OF tx] append_lock_inv [OF tx] insert_inv [OF tx] commit_inv [OF tx] assms(2) tx(2)
    by (cases "tx_pc tx") (simp_all add: pg_statement_def)
qed

lemma step_inv: "pg_step hash tz impl reg db db' \<Longrightarrow> pg_inv hash db \<Longrightarrow> pg_inv hash db'"
  by (induction rule: pg_step.induct) (simp_all add: save_inv statement_inv)

lemma steps_inv: "(pg_step hash tz impl reg)\<^sup>*\<^sup>* db db' \<Longrightarrow> pg_inv hash db \<Longrightarrow> pg_inv hash db'"
  by (induction rule: rtranclp_induct) (simp_all add: step_inv)

end
