(* ===== verification/ES_Command_Handler.thy ===== *)
theory ES_Command_Handler
  imports ES_Memory_Props
begin

text \<open>
  The generic command handler (\<open>command_handler.go\<close>): its options, one run of the
  load-evolve-decide-save cycle (\<open>handler_attempt\<close>), and \<open>NewCommandHandler\<close>, which hands that cycle
  to \<open>backoff.RetryWithData\<close>.

  The handler works on any event store, given here by its \<open>save\<close> and \<open>load\<close> (\<open>LoadStreamFrom\<close> and
  reading the iterator to its end). Other clients work on the same store: \<open>interf t\<close> is what they do
  between two calls of the handler, at tick \<open>2 k\<close> before attempt \<open>k\<close> loads and at tick \<open>2 k + 1\<close>
  between its load and its save. \<open>uuid.New\<close> and \<open>time.Now\<close> are the arguments \<open>newID\<close> and \<open>now\<close>.

  \<open>backoff.RetryWithData\<close> is a library: it is the argument \<open>retry\<close>, and \<open>retry_contract\<close> is what its
  documentation says of it.
\<close>

section \<open>command.go and the options of command_handler.go\<close>

record 'c command_impl =
  CommandAggregateID :: "'c \<Rightarrow> string"
  CommandType :: "'c \<Rightarrow> string"

record ('c, 'e, 'v, 'b) handler_options =
  ho_StreamState :: stream_state
  ho_RetryStrategy :: "'b option"
  ho_MetadataFuncs :: "(('e, 'v) ctx_values \<Rightarrow> (string \<rightharpoonup> 'v)) list"
  ho_StreamNamer :: "('e, 'v) ctx_values \<Rightarrow> 'c \<Rightarrow> string"

definition DefaultStreamNamer :: "'c command_impl \<Rightarrow> ('e, 'v) ctx_values \<Rightarrow> 'c \<Rightarrow> string" where
  "DefaultStreamNamer ci ctx cmd = CommandAggregateID ci cmd"

definition WithStreamState ::
    "stream_state \<Rightarrow> ('c, 'e, 'v, 'b) handler_options \<Rightarrow> ('c, 'e, 'v, 'b) handler_options" where
  "WithStreamState st cfg = cfg\<lparr>ho_StreamState := st\<rparr>"

text \<open>A nil factory leaves the strategy as it is; a factory is modelled by the \<open>BackOff\<close> it makes, nil being \<open>None\<close>.\<close>

definition WithRetryStrategy ::
    "'b option option \<Rightarrow> ('c, 'e, 'v, 'b) handler_options \<Rightarrow> ('c, 'e, 'v, 'b) handler_options" where
  "WithRetryStrategy newBackOff cfg =
     (case newBackOff of None \<Rightarrow> cfg | Some b \<Rightarrow> cfg\<lparr>ho_RetryStrategy := b\<rparr>)"

definition WithMetadataExtractor :: "(('e, 'v) ctx_values \<Rightarrow> (string \<rightharpoonup> 'v))
    \<Rightarrow> ('c, 'e, 'v, 'b) handler_options \<Rightarrow> ('c, 'e, 'v, 'b) handler_options" where
  "WithMetadataExtractor fn cfg = cfg\<lparr>ho_MetadataFuncs := ho_MetadataFuncs cfg @ [fn]\<rparr>"

definition WithStreamNamer :: "(('e, 'v) ctx_values \<Rightarrow> 'c \<Rightarrow> string) option
    \<Rightarrow> ('c, 'e, 'v, 'b) handler_options \<Rightarrow> ('c, 'e, 'v, 'b) handler_options" where
  "WithStreamNamer namer cfg = (case namer of None \<Rightarrow> cfg | Some f \<Rightarrow> cfg\<lparr>ho_StreamNamer := f\<rparr>)"

text \<open>The defaults and then the options, in order; \<open>stop\<close> is \<open>backoff.StopBackOff\<close>.\<close>

definition handler_config :: "'c command_impl \<Rightarrow> 'b
    \<Rightarrow> (('c, 'e, 'v, 'b) handler_options \<Rightarrow> ('c, 'e, 'v, 'b) handler_options) list
    \<Rightarrow> ('c, 'e, 'v, 'b) handler_options" where
  "handler_config ci stop opts = fold (\<lambda>opt cfg. opt cfg) opts
     \<lparr>ho_StreamState = Any, ho_RetryStrategy = Some stop, ho_MetadataFuncs = [],
      ho_StreamNamer = DefaultStreamNamer ci\<rparr>"

definition retryStrategy :: "'b \<Rightarrow> 'b option \<Rightarrow> 'b" where
  "retryStrategy stop newBackOff = (case newBackOff of None \<Rightarrow> stop | Some b \<Rightarrow> b)"

definition autoConverge :: "stream_state \<Rightarrow> bool" where
  "autoConverge st = (st = Any \<or> st = StreamExists)"

definition firstLoadState :: "stream_state \<Rightarrow> stream_state" where
  "firstLoadState st = (case st of Revision _ \<Rightarrow> Any | _ \<Rightarrow> st)"

section \<open>The cycle\<close>

text \<open>
  What an application supplies for its commands and aggregates: \<open>MetaString\<close> is a string as a metadata
  value.
\<close>

record ('t, 'c, 'e, 'v) aggregate =
  ag_initialState :: 't
  ag_evolve :: "'t \<Rightarrow> ('e, 'v) envelope \<Rightarrow> 't"
  ag_decide :: "'t \<Rightarrow> 'c \<Rightarrow> go_error + 'e option list"
  ag_MetaString :: "string \<Rightarrow> 'v"

text \<open>The variables the closure of a call keeps across attempts, with the store and the tick.\<close>

record ('s, 't) handler_world =
  w_store :: 's
  w_state :: 't
  w_loadState :: stream_state
  w_lastVersion :: uint64
  w_tick :: nat

definition base_metadata :: "('t, 'c, 'e, 'v) aggregate \<Rightarrow> 'c command_impl \<Rightarrow> ('c, 'e, 'v, 'b) handler_options
    \<Rightarrow> ('e, 'v) ctx_values \<Rightarrow> string \<Rightarrow> 'c \<Rightarrow> (string \<rightharpoonup> 'v)" where
  "base_metadata ag ci cfg ctx commandID cmd =
     fold (\<lambda>fn base. base ++ fn ctx) (ho_MetadataFuncs cfg)
       [''command_type'' \<mapsto> ag_MetaString ag (CommandType ci cmd), ''command_id'' \<mapsto> ag_MetaString ag commandID]"

text \<open>The envelope loop; the first event names the correlation when the context has none.\<close>

fun wrap_events :: "('e, 'v) event_impl \<Rightarrow> (nat \<Rightarrow> uuid) \<Rightarrow> (nat \<Rightarrow> gotime) \<Rightarrow> string \<Rightarrow> (string \<rightharpoonup> 'v)
    \<Rightarrow> string \<Rightarrow> uint64 \<Rightarrow> nat \<Rightarrow> string \<Rightarrow> 'e option list \<Rightarrow> ('e, 'v) envelope list" where
  "wrap_events impl newID now sid base causationID nextVersion i correlationID [] = []"
| "wrap_events impl newID now sid base causationID nextVersion i correlationID (event # events) =
     (let eventID = newID i;
          correlationID = (if correlationID = [] then UuidString impl eventID else correlationID)
      in \<lparr>EventID = eventID, StreamID = sid, Metadata = Some base, CorrelationID = correlationID,
          CausationID = causationID, Event = event, Version = nextVersion + i, GlobalPosition = 0,
          OccurredAt = now i\<rparr>
         # wrap_events impl newID now sid base causationID nextVersion (Suc i) correlationID events)"

text \<open>The fold over the loaded events: each one moves the state, the load state and the last version.\<close>

definition evolve_step :: "('t, 'c, 'e, 'v) aggregate \<Rightarrow> ('s, 't) handler_world \<Rightarrow> ('e, 'v) envelope
    \<Rightarrow> ('s, 't) handler_world" where
  "evolve_step ag w event = w\<lparr>w_loadState := Revision (Version event), w_lastVersion := Version event,
     w_state := ag_evolve ag (w_state w) event\<rparr>"

definition conflict_actual :: "stream_state option \<Rightarrow> uint64" where
  "conflict_actual ac = (case ac of Some (Revision n) \<Rightarrow> n | _ \<Rightarrow> 0)"

type_synonym ('s, 'e, 'v) save_op =
  "'s \<Rightarrow> ('e, 'v) envelope list \<Rightarrow> stream_state \<Rightarrow> 's \<times> append_result \<times> go_error option"
type_synonym ('s, 'e, 'v) load_op =
  "'s \<Rightarrow> string \<Rightarrow> stream_state \<Rightarrow> go_error + ('e, 'v) envelope list \<times> go_error option"

text \<open>What one call of the handler is given by its surroundings.\<close>

record ('s, 'e, 'v) call_env =
  ce_impl :: "('e, 'v) event_impl"
  ce_ctx :: "('e, 'v) ctx_values"
  ce_commandID :: string
  ce_newID :: "nat \<Rightarrow> nat \<Rightarrow> uuid"
  ce_now :: "nat \<Rightarrow> nat \<Rightarrow> gotime"
  ce_interf :: "nat \<Rightarrow> 's \<Rightarrow> 's"

definition handler_fail :: "string \<Rightarrow> uint64 \<Rightarrow> append_result" where
  "handler_fail sid v = (failed_result sid)\<lparr>ar_NextExpectedVersion := v\<rparr>"

definition save_attempt :: "('s, 'e, 'v) save_op \<Rightarrow> stream_state \<Rightarrow> string \<Rightarrow> ('s, 't) handler_world
    \<Rightarrow> ('e, 'v) envelope list \<Rightarrow> ('s, 't) handler_world \<times> append_result \<times> go_error option" where
  "save_attempt save st sid w envelopes =
     (let saveState = (if autoConverge st then Revision (w_lastVersion w) else st) in
      case save (w_store w) envelopes saveState of
        (s, result, err) \<Rightarrow>
          let w = w\<lparr>w_store := s\<rparr> in
          (case err of
             None \<Rightarrow> (w, result, None)
           | Some e \<Rightarrow> (case As_conflict e of
               Some (cs, ex, ac) \<Rightarrow>
                 let wrapped = Errorf ''concurrency conflict'' [StreamRevisionConflictError cs ex ac] in
                 (w, handler_fail sid (conflict_actual ac),
                  Some (if autoConverge st then wrapped else Permanent wrapped))
             | None \<Rightarrow> (w, result, Some (Permanent (Errorf ''failed to save event'' [e]))))))"

definition handler_attempt :: "('s, 'e, 'v) save_op \<Rightarrow> ('s, 'e, 'v) load_op \<Rightarrow> ('s, 'e, 'v) call_env
    \<Rightarrow> ('t, 'c, 'e, 'v) aggregate \<Rightarrow> 'c command_impl \<Rightarrow> ('c, 'e, 'v, 'b) handler_options \<Rightarrow> string \<Rightarrow> 'c
    \<Rightarrow> ('s, 't) handler_world \<Rightarrow> ('s, 't) handler_world \<times> append_result \<times> go_error option" where
  "handler_attempt save load ce ag ci cfg sid cmd w =
     (let t = w_tick w;
          w = w\<lparr>w_tick := Suc t, w_store := ce_interf ce (2 * t) (w_store w)\<rparr> in
      case load (w_store w) sid (w_loadState w) of
        Inl err \<Rightarrow> (w, handler_fail sid (w_lastVersion w), Some (Permanent (Errorf ''load failed'' [err])))
      | Inr (envs, iterErr) \<Rightarrow>
          let w = foldl (evolve_step ag) w envs in
          (case iterErr of
             Some err \<Rightarrow> (w, handler_fail sid (w_lastVersion w), Some (Permanent (Errorf ''iter failed'' [err])))
           | None \<Rightarrow> (case ag_decide ag (w_state w) cmd of
               Inl err \<Rightarrow>
                 (w, handler_fail sid (w_lastVersion w),
                  Some (Permanent (Errorf ''handle command'' (case NewBusinessRuleViolation (Some err) of
                     None \<Rightarrow> [] | Some v \<Rightarrow> [v]))))
             | Inr events \<Rightarrow>
                 if events = [] then
                   (w, \<lparr>ar_Successful = True, ar_StreamID = sid, ar_NextExpectedVersion = w_lastVersion w,
                        ar_GlobalPosition = 0\<rparr>, None)
                 else
                   let base = base_metadata ag ci cfg (ce_ctx ce) (ce_commandID ce) cmd;
                       envelopes = wrap_events (ce_impl ce) (ce_newID ce t) (ce_now ce t) sid base
                         (CausationIDFromContext (ce_ctx ce)) (w_lastVersion w + 1) 0
                         (CorrelationIDFromContext (ce_ctx ce)) events
                   in save_attempt save (ho_StreamState cfg) sid
                        (w\<lparr>w_store := ce_interf ce (2 * t + 1) (w_store w)\<rparr>) envelopes)))"

type_synonym ('b, 'w) retry_op = "'b \<Rightarrow> ('w \<Rightarrow> 'w \<times> append_result \<times> go_error option) \<Rightarrow> 'w
    \<Rightarrow> ('w \<times> append_result \<times> go_error option) option"

definition NewCommandHandler :: "('s, 'e, 'v) save_op \<Rightarrow> ('s, 'e, 'v) load_op \<Rightarrow> ('b, ('s, 't) handler_world) retry_op \<Rightarrow> 'b
    \<Rightarrow> ('t, 'c, 'e, 'v) aggregate \<Rightarrow> 'c command_impl
    \<Rightarrow> (('c, 'e, 'v, 'b) handler_options \<Rightarrow> ('c, 'e, 'v, 'b) handler_options) list
    \<Rightarrow> ('s, 'e, 'v) call_env \<Rightarrow> 's \<Rightarrow> 'c
    \<Rightarrow> (('s, 't) handler_world \<times> append_result \<times> go_error option) option" where
  "NewCommandHandler save load retry stop ag ci opts ce s cmd =
     (let cfg = handler_config ci stop opts;
          sid = ho_StreamNamer cfg (ce_ctx ce) cmd
      in retry (retryStrategy stop (ho_RetryStrategy cfg)) (handler_attempt save load ce ag ci cfg sid cmd)
           \<lparr>w_store = s, w_state = ag_initialState ag, w_loadState = firstLoadState (ho_StreamState cfg),
            w_lastVersion = 0, w_tick = 0\<rparr>)"

section \<open>The contract of backoff.RetryWithData\<close>

text \<open>The \<open>n\<close>-th run of an operation, every earlier run having left its state behind.\<close>

fun op_iter :: "('w \<Rightarrow> 'w \<times> 'r \<times> go_error option) \<Rightarrow> nat \<Rightarrow> 'w \<Rightarrow> 'w \<times> 'r \<times> go_error option" where
  "op_iter op 0 w = op w"
| "op_iter op (Suc n) w = op_iter op n (fst (op w))"

text \<open>A run is retried only when it failed with an error that is not marked permanent.\<close>

definition retryable :: "go_error option \<Rightarrow> bool" where
  "retryable err = (case err of None \<Rightarrow> False | Some e \<Rightarrow> As_permanent e = None)"

text \<open>
  \<open>RetryWithData\<close> runs the operation until a run succeeds, fails permanently, or the strategy or the
  context says stop. It returns the last run's result, with its error: nil for nil, the marked error
  without its mark, and otherwise the error itself or the context's. It may not return (\<open>None\<close>), but it
  does when some run is not to be retried.
\<close>

definition retry_contract :: "(('w \<Rightarrow> 'w \<times> append_result \<times> go_error option) \<Rightarrow> 'w
    \<Rightarrow> ('w \<times> append_result \<times> go_error option) option) \<Rightarrow> bool" where
  "retry_contract retry \<longleftrightarrow> (\<forall>op w.
     (\<forall>w' r e. retry op w = Some (w', r, e) \<longrightarrow>
        (\<exists>n err. (\<forall>i < n. retryable (snd (snd (op_iter op i w)))) \<and> op_iter op n w = (w', r, err)
           \<and> (err = None \<longrightarrow> e = None)
           \<and> (\<forall>x. err = Some x \<longrightarrow> e \<noteq> None \<and> (\<forall>y. As_permanent x = Some y \<longrightarrow> e = Some y))))
     \<and> ((\<exists>n. \<not> retryable (snd (snd (op_iter op n w)))) \<longrightarrow> retry op w \<noteq> None))"

text \<open>A retry with a budget and no context, the strategy \<open>backoff.WithMaxRetries\<close> gives.\<close>

fun retry_max :: "nat \<Rightarrow> ('w \<Rightarrow> 'w \<times> append_result \<times> go_error option) \<Rightarrow> 'w
    \<Rightarrow> ('w \<times> append_result \<times> go_error option) option" where
  "retry_max k op w =
     (case op w of
        (w', r, None) \<Rightarrow> Some (w', r, None)
      | (w', r, Some x) \<Rightarrow> (case As_permanent x of
          Some y \<Rightarrow> Some (w', r, Some y)
        | None \<Rightarrow> (case k of 0 \<Rightarrow> Some (w', r, Some x) | Suc k' \<Rightarrow> retry_max k' op w')))"

declare retry_max.simps [simp del]

section \<open>Lemmas on retrying\<close>

lemma op_iter_Suc: "op_iter op (Suc n) w = op (fst (op_iter op n w))"
  by (induction n arbitrary: w) auto

lemma op_iter_last:
  assumes "P w" "\<And>w. P w \<Longrightarrow> retryable (snd (snd (op w))) \<Longrightarrow> P (fst (op w))"
    and "\<forall>i < n. retryable (snd (snd (op_iter op i w)))"
  shows "\<exists>w0. P w0 \<and> op_iter op n w = op w0"
  using assms(1,3)
proof (induction n arbitrary: w)
  case (Suc n)
  have "retryable (snd (snd (op w)))" using Suc.prems(2) by force
  moreover have "\<forall>i < n. retryable (snd (snd (op_iter op i (fst (op w)))))" using Suc.prems(2) by force
  ultimately show ?case using Suc.IH [OF assms(2)] Suc.prems(1) by simp
qed auto

lemma retry_max_spec:
  "\<exists>w' r e n err. retry_max k op w = Some (w', r, e)
     \<and> (\<forall>i < n. retryable (snd (snd (op_iter op i w)))) \<and> op_iter op n w = (w', r, err)
     \<and> (err = None \<longrightarrow> e = None)
     \<and> (\<forall>x. err = Some x \<longrightarrow> e \<noteq> None \<and> (\<forall>y. As_permanent x = Some y \<longrightarrow> e = Some y))"
proof (induction k op w rule: retry_max.induct)
  case (1 k op w)
  obtain w' r err where run: "op w = (w', r, err)" by (metis prod_cases3)
  show ?case
  proof (cases "retryable err \<and> k \<noteq> 0")
    case False
    then show ?thesis
      by (intro exI [of _ w'] exI [of _ r]
          exI [of _ "case err of None \<Rightarrow> None | Some x \<Rightarrow> (case As_permanent x of None \<Rightarrow> Some x | Some y \<Rightarrow> Some y)"]
          exI [of _ 0] exI [of _ err])
        (auto simp: retry_max.simps [of k op w] run retryable_def split: option.splits nat.splits)
  next
    case True
    then obtain x k' where x: "err = Some x" "As_permanent x = None" "k = Suc k'"
      by (auto simp: retryable_def gr0_conv_Suc split: option.splits)
    obtain w2 r2 e n err2 where ih: "retry_max k' op w' = Some (w2, r2, e)"
      "\<forall>i < n. retryable (snd (snd (op_iter op i w')))" "op_iter op n w' = (w2, r2, err2)"
      "err2 = None \<longrightarrow> e = None"
      "\<forall>x. err2 = Some x \<longrightarrow> e \<noteq> None \<and> (\<forall>y. As_permanent x = Some y \<longrightarrow> e = Some y)"
      using "1.IH" [OF run [symmetric] refl x(1,2,3)] by (elim exE conjE)
    have "\<forall>i < Suc n. retryable (snd (snd (op_iter op i w)))"
      using ih(2) True by (auto simp: run less_Suc_eq_0_disj)
    moreover have "op_iter op (Suc n) w = (w2, r2, err2)" using ih(3) by (simp add: run)
    moreover have "retry_max k op w = Some (w2, r2, e)"
      using ih(1) by (subst retry_max.simps) (simp add: run x)
    ultimately show ?thesis
      using ih(4,5) by (intro exI [of _ w2] exI [of _ r2] exI [of _ e] exI [of _ "Suc n"] exI [of _ err2]) simp
  qed
qed

lemma retry_max_contract: "retry_contract (retry_max k)"
proof -
  have "\<exists>n err. (\<forall>i < n. retryable (snd (snd (op_iter op i w)))) \<and> op_iter op n w = (w', r, err)
           \<and> (err = None \<longrightarrow> e = None)
           \<and> (\<forall>x. err = Some x \<longrightarrow> e \<noteq> None \<and> (\<forall>y. As_permanent x = Some y \<longrightarrow> e = Some y))"
    if "retry_max k op w = Some (w', r, e)" for op :: "'a \<Rightarrow> 'a \<times> append_result \<times> go_error option" and w w' r e
    using retry_max_spec [of k op w] that by auto
  moreover have "retry_max k op w \<noteq> None" for op :: "'a \<Rightarrow> 'a \<times> append_result \<times> go_error option" and w
    using retry_max_spec [of k op w] by auto
  ultimately show ?thesis unfolding retry_contract_def by blast
qed

text \<open>What a returned call of the handler was: some attempt, all before it retryable.\<close>

lemma retry_contractE:
  assumes "retry_contract retry" "retry op w = Some (w', r, e)"
  obtains n err where "\<forall>i < n. retryable (snd (snd (op_iter op i w)))" "op_iter op n w = (w', r, err)"
    "err = None \<longleftrightarrow> e = None" "\<And>x y. err = Some x \<Longrightarrow> As_permanent x = Some y \<Longrightarrow> e = Some y"
proof -
  have "\<exists>n err. (\<forall>i < n. retryable (snd (snd (op_iter op i w)))) \<and> op_iter op n w = (w', r, err)
           \<and> (err = None \<longrightarrow> e = None)
           \<and> (\<forall>x. err = Some x \<longrightarrow> e \<noteq> None \<and> (\<forall>y. As_permanent x = Some y \<longrightarrow> e = Some y))"
    using assms unfolding retry_contract_def by blast
  then obtain n err where n: "\<forall>i < n. retryable (snd (snd (op_iter op i w)))" "op_iter op n w = (w', r, err)"
    "err = None \<longrightarrow> e = None"
    "\<forall>x. err = Some x \<longrightarrow> e \<noteq> None \<and> (\<forall>y. As_permanent x = Some y \<longrightarrow> e = Some y)"
    by (elim exE conjE)
  show thesis by (rule that [OF n(1,2)]) (use n(3,4) in auto)
qed

section \<open>The cycle on any store\<close>

text \<open>
  What holds between attempts: the state is the fold of the part of the history already read, and the
  next load starts right after it.
\<close>

definition handler_inv :: "('s \<Rightarrow> bool) \<Rightarrow> ('s \<Rightarrow> string \<Rightarrow> ('e, 'v) envelope list) \<Rightarrow> ('t, 'c, 'e, 'v) aggregate
    \<Rightarrow> stream_state \<Rightarrow> string \<Rightarrow> ('s, 't) handler_world \<Rightarrow> bool" where
  "handler_inv sinv history ag st sid w \<longleftrightarrow>
     sinv (w_store w) \<and> w_lastVersion w \<le> length (history (w_store w) sid)
     \<and> w_state w = foldl (ag_evolve ag) (ag_initialState ag) (take (w_lastVersion w) (history (w_store w) sid))
     \<and> w_loadState w = (if w_lastVersion w = 0 then firstLoadState st else Revision (w_lastVersion w))"

text \<open>Other clients only save.\<close>

definition foreign :: "('s, 'e, 'v) save_op \<Rightarrow> (nat \<Rightarrow> 's \<Rightarrow> 's) \<Rightarrow> bool" where
  "foreign save interf \<longleftrightarrow> (\<forall>t s. \<exists>saves. interf t s = run_saves save saves s)"

text \<open>An attempt that did not reach the save, or whose save failed, left the store to the others.\<close>

lemma wrap_events_Nil [simp]:
  "wrap_events impl newID now sid base cause nv i corr events = [] \<longleftrightarrow> events = []"
  by (cases events) (auto simp: Let_def)

lemma wrap_events_stream:
  "env \<in> set (wrap_events impl newID now sid base cause nv i corr events) \<Longrightarrow> StreamID env = sid"
  by (induction events arbitrary: i corr) (auto simp: Let_def)

lemma wrap_events_hd:
  "events \<noteq> [] \<Longrightarrow> StreamID (hd (wrap_events impl newID now sid base cause nv i corr events)) = sid"
  by (cases events) (auto simp: Let_def)

lemma load_start_first: "load_start (firstLoadState st) = 0"
  by (cases st) (auto simp: load_start_def firstLoadState_def)

lemma foldl_evolve_store [simp]:
  "w_store (foldl (evolve_step ag) w envs) = w_store w" "w_tick (foldl (evolve_step ag) w envs) = w_tick w"
  by (induction envs arbitrary: w) (auto simp: evolve_step_def)

lemma foldl_evolve:
  "w_state (foldl (evolve_step ag) w envs) = foldl (ag_evolve ag) (w_state w) envs"
  "envs \<noteq> [] \<Longrightarrow> w_lastVersion (foldl (evolve_step ag) w envs) = Version (last envs)
     \<and> w_loadState (foldl (evolve_step ag) w envs) = Revision (Version (last envs))"
proof -
  show "w_state (foldl (evolve_step ag) w envs) = foldl (ag_evolve ag) (w_state w) envs"
    by (induction envs arbitrary: w) (auto simp: evolve_step_def)
  show "envs \<noteq> [] \<Longrightarrow> w_lastVersion (foldl (evolve_step ag) w envs) = Version (last envs)
     \<and> w_loadState (foldl (evolve_step ag) w envs) = Revision (Version (last envs))"
    by (cases envs rule: rev_cases) (auto simp: evolve_step_def)
qed

context stream_store
begin

abbreviation hinv where "hinv \<equiv> handler_inv inv history"

lemma hinv_foreign:
  assumes "hinv ag st sid w"
  shows "hinv ag st sid (w\<lparr>w_store := run_saves save saves (w_store w)\<rparr>)"
proof -
  have "inv (w_store w)" using assms by (simp add: handler_inv_def)
  then obtain new where "history (run_saves save saves (w_store w)) sid = history (w_store w) sid @ new"
    using run_saves_extends [of "w_store w" sid saves] by (auto simp: prefix_def)
  with assms run_saves_inv [of "w_store w" saves] show ?thesis by (simp add: handler_inv_def)
qed

lemma hinv_interf:
  "hinv ag st sid w \<Longrightarrow> foreign save interf \<Longrightarrow> hinv ag st sid (w\<lparr>w_store := interf t (w_store w)\<rparr>)"
  using hinv_foreign [of ag st sid w] by (metis foreign_def)

lemma hinv_tick: "hinv ag st sid (w\<lparr>w_tick := t\<rparr>) = hinv ag st sid w"
  by (simp add: handler_inv_def)

lemma hinv_load_start: "hinv ag st sid w \<Longrightarrow> load_start (w_loadState w) = w_lastVersion w"
  by (simp add: handler_inv_def load_start_first) (simp add: load_start_def)

text \<open>Folding what a load delivered keeps the invariant; a load that ended reached the whole history.\<close>

lemma hinv_loads: "hinv ag st sid w \<Longrightarrow> loads (firstLoadState st) \<Longrightarrow> loads (w_loadState w)"
  by (simp add: handler_inv_def loads_known)

lemma hinv_load:
  assumes h: "hinv ag st sid w" and k: "loads (firstLoadState st)" and ld: "load (w_store w) sid (w_loadState w) = Inr (envs, err)"
  shows "hinv ag st sid (foldl (evolve_step ag) w envs)
    \<and> (err = None \<longrightarrow> w_lastVersion (foldl (evolve_step ag) w envs) = length (history (w_store w) sid))"
proof -
  let ?h = "history (w_store w) sid" and ?v = "w_lastVersion w"
  have i: "inv (w_store w)" "?v \<le> length ?h" using h by (simp_all add: handler_inv_def)
  have pre: "prefix envs (drop ?v ?h)" "err = None \<longrightarrow> envs = drop ?v ?h"
    using load_prefix [OF i(1) hinv_loads [OF h k] _ ld] hinv_load_start [OF h] i(2) by auto
  then have e: "envs = take (length envs) (drop ?v ?h)" "length envs \<le> length ?h - ?v"
    using prefix_length_le [OF pre(1)] by (auto simp: prefix_def)
  have v: "w_lastVersion (foldl (evolve_step ag) w envs) = ?v + length envs
      \<and> w_loadState (foldl (evolve_step ag) w envs) =
          (if ?v + length envs = 0 then firstLoadState st else Revision (?v + length envs))"
  proof (cases "envs = []")
    case True
    then show ?thesis using h by (simp add: handler_inv_def)
  next
    case False
    then have "last envs = ?h ! (?v + length envs - 1)"
      using e by (metis One_nat_def Suc_leI add_diff_assoc diff_less last_conv_nth le_add1
          length_greater_0_conv lessI nth_drop nth_take i(2))
    moreover have "?v + length envs - 1 < length ?h" using False e(2) i(2) by (cases envs) auto
    ultimately have "Version (last envs) = ?v + length envs"
      using history_version [OF i(1)] False by (cases envs) auto
    then show ?thesis using foldl_evolve(2) [OF False, of ag w] False by simp
  qed
  have "?v + length envs \<le> length ?h" using e(2) i(2) by simp
  moreover have "take (?v + length envs) ?h = take ?v ?h @ envs"
    using e(1) by (simp add: take_add)
  ultimately have "hinv ag st sid (foldl (evolve_step ag) w envs)"
    using h v i by (simp add: handler_inv_def foldl_evolve(1))
  moreover have "err = None \<longrightarrow> ?v + length envs = length ?h" using pre(2) i(2) by auto
  ultimately show ?thesis using v by simp
qed

text \<open>The save of an attempt.\<close>

lemma save_attempt_spec:
  assumes h: "hinv ag st' sid w" and ne: "envelopes \<noteq> []" "StreamID (hd envelopes) = sid"
    and run: "save_attempt save st sid w envelopes = (w', res, err)"
  shows "hinv ag st' sid w'
    \<and> (err \<noteq> None \<longrightarrow> w' = w)
    \<and> (retryable err \<longrightarrow> autoConverge st \<and> w_lastVersion w \<noteq> length (history (w_store w) sid))
    \<and> (err = None \<longrightarrow>
         (\<exists>new. history (w_store w') sid = history (w_store w) sid @ new \<and> list_all2 same_event new envelopes)
         \<and> ar_NextExpectedVersion res = length (history (w_store w') sid)
         \<and> (autoConverge st \<longrightarrow> length (history (w_store w) sid) = w_lastVersion w)
         \<and> (st = NoStream \<longrightarrow> history (w_store w) sid = [])
         \<and> (\<forall>r. st = Revision r \<longrightarrow> length (history (w_store w) sid) = r))"
proof -
  let ?st = "if autoConverge st then Revision (w_lastVersion w) else st"
  have i: "inv (w_store w)" using h by (simp add: handler_inv_def)
  obtain s r e where s: "save (w_store w) envelopes ?st = (s, r, e)" by (metis prod_cases3)
  note ext = save_extends [OF i s, of sid] and s' = save_inv [OF i s]
  then have h': "hinv ag st' sid (w\<lparr>w_store := s\<rparr>)"
    using h by (auto simp: handler_inv_def prefix_def)
  show ?thesis
  proof (cases e)
    case (Some x)
    have eq: "s = w_store w" using save_failed [OF i] s Some by blast
    have "As_conflict x = None" if "autoConverge st" "w_lastVersion w = length (history (w_store w) sid)"
      using save_current [OF i ne(1)] s Some that ne(2) by simp
    moreover have "w' = w \<and> err \<noteq> None \<and> (retryable err \<longrightarrow> autoConverge st \<and> As_conflict x \<noteq> None)"
      using run s unfolding save_attempt_def Let_def Some eq
      by (cases "As_conflict x") (auto simp: retryable_def split: if_splits)
    ultimately show ?thesis using h by auto
  next
    case None
    note sv = s [unfolded None]
    have w': "w' = w\<lparr>w_store := s\<rparr>" "res = r" "err = None"
      using run sv by (simp_all add: save_attempt_def Let_def)
    have chk: "length (history (w_store w) sid) = r" if "?st = Revision r" for r
      using save_checked [OF i sv [unfolded that] ne(1)] ne(2) by simp
    have "autoConverge st \<longrightarrow> length (history (w_store w) sid) = w_lastVersion w"
      using chk by simp
    moreover have "st = NoStream \<longrightarrow> history (w_store w) sid = []"
      using save_checked_new [OF i _ ne(1)] sv ne(2) by (auto simp: autoConverge_def)
    moreover have "\<forall>r. st = Revision r \<longrightarrow> length (history (w_store w) sid) = r"
      using chk by (simp add: autoConverge_def)
    ultimately show ?thesis
      using h' save_appends [OF i sv ne(1)] unfolding w' ne(2)
      by (elim exE conjE) (intro conjI impI exI, simp_all add: retryable_def)
  qed
qed

lemma interf_run:
  "foreign save interf \<Longrightarrow> \<exists>saves. interf t s = run_saves save saves s"
  unfolding foreign_def by blast

text \<open>
  An attempt: it keeps the invariant; a failure leaves the store to the other clients, and is
  retryable only under \<open>autoConverge\<close> and when somebody saved to the stream after the load; a success
  is a decision on a history \<open>h\<close> and, unless there was nothing to save, an append of the decided events.
\<close>

lemma attempt_spec:
  assumes h: "hinv ag (ho_StreamState cfg) sid w" and k: "loads (firstLoadState (ho_StreamState cfg))" and fr: "foreign save (ce_interf ce)"
    and run: "handler_attempt save load ce ag ci cfg sid cmd w = (w', res, err)"
  shows "hinv ag (ho_StreamState cfg) sid w'
    \<and> (err \<noteq> None \<longrightarrow> (\<exists>saves. w_store w' = run_saves save saves (w_store w)))
    \<and> (retryable err \<longrightarrow> autoConverge (ho_StreamState cfg)
         \<and> (\<exists>s. inv s \<and> history (ce_interf ce (2 * w_tick w + 1) s) sid \<noteq> history s sid))
    \<and> (err = None \<longrightarrow> (\<exists>h0 hs events new.
         ag_decide ag (foldl (ag_evolve ag) (ag_initialState ag) h0) cmd = Inr events
         \<and> prefix h0 hs \<and> history (w_store w') sid = hs @ new
         \<and> list_all2 same_event new (wrap_events (ce_impl ce) (ce_newID ce (w_tick w)) (ce_now ce (w_tick w)) sid
              (base_metadata ag ci cfg (ce_ctx ce) (ce_commandID ce) cmd) (CausationIDFromContext (ce_ctx ce))
              (Suc (length h0)) 0 (CorrelationIDFromContext (ce_ctx ce)) events)
         \<and> ar_NextExpectedVersion res = length (hs @ new)
         \<and> (ho_StreamState cfg \<in> {Any, StreamExists, NoStream} \<longrightarrow> hs = h0)
         \<and> (\<forall>r. ho_StreamState cfg = Revision r \<and> events \<noteq> [] \<longrightarrow> length hs = r)))"
proof -
  let ?st = "ho_StreamState cfg" and ?t = "w_tick w"
  define w0 where "w0 = w\<lparr>w_tick := Suc ?t, w_store := ce_interf ce (2 * ?t) (w_store w)\<rparr>"
  have w0: "hinv ag ?st sid w0"
    using hinv_interf [OF _ fr, of ag ?st sid "w\<lparr>w_tick := Suc ?t\<rparr>" "2 * ?t"] h by (simp add: w0_def hinv_tick)
  obtain sv0 where sv0: "w_store w0 = run_saves save sv0 (w_store w)"
    using interf_run [OF fr] by (auto simp: w0_def)
  note at = run [unfolded handler_attempt_def Let_def, folded w0_def]
  show ?thesis
  proof (cases "load (w_store w0) sid (w_loadState w0)")
    case (Inl e)
    then show ?thesis using at w0 sv0 by (auto simp: retryable_def)
  next
    case (Inr p)
    obtain envs ie where p: "p = (envs, ie)" by (cases p)
    define w1 where "w1 = foldl (evolve_step ag) w0 envs"
    have w1: "hinv ag ?st sid w1" "ie = None \<longrightarrow> w_lastVersion w1 = length (history (w_store w0) sid)"
      using hinv_load [OF w0 k Inr [unfolded p]] by (simp_all add: w1_def)
    have st1: "w_store w1 = w_store w0" by (simp add: w1_def)
    show ?thesis
    proof (cases "ie = None \<and> (\<exists>events. ag_decide ag (w_state w1) cmd = Inr events)")
      case False
      then show ?thesis
        using at Inr p w1 sv0 st1 by (auto simp: w1_def [symmetric] retryable_def split: option.splits sum.splits)
    next
      case True
      then obtain events where ev: "ie = None" "ag_decide ag (w_state w1) cmd = Inr events" by blast
      let ?h0 = "history (w_store w0) sid"
      have state: "w_state w1 = foldl (ag_evolve ag) (ag_initialState ag) ?h0" "w_lastVersion w1 = length ?h0"
        using w1 ev(1) st1 by (simp_all add: handler_inv_def)
      show ?thesis
      proof (cases "events = []")
        case empty: True
        then have w': "w' = w1" "err = None" "ar_NextExpectedVersion res = w_lastVersion w1"
          using at Inr p ev by (auto simp: w1_def [symmetric])
        show ?thesis
          by (intro conjI impI; (rule exI [of _ ?h0], rule exI [of _ ?h0], rule exI [of _ "[]"], rule exI [of _ "[]"])?)
            (use w' w1 ev state st1 empty in \<open>simp_all add: retryable_def\<close>)
      next
        case False
        define w2 where "w2 = w1\<lparr>w_store := ce_interf ce (2 * ?t + 1) (w_store w1)\<rparr>"
        obtain sv1 where sv1: "w_store w2 = run_saves save (sv0 @ sv1) (w_store w)"
          using interf_run [OF fr, of "2 * ?t + 1" "w_store w1"] by (auto simp: w2_def st1 sv0 run_saves_append)
        let ?envs = "wrap_events (ce_impl ce) (ce_newID ce ?t) (ce_now ce ?t) sid
              (base_metadata ag ci cfg (ce_ctx ce) (ce_commandID ce) cmd) (CausationIDFromContext (ce_ctx ce))
              (Suc (length ?h0)) 0 (CorrelationIDFromContext (ce_ctx ce)) events"
        have sa: "save_attempt save ?st sid w2 ?envs = (w', res, err)"
          using at Inr p ev False state by (simp add: w1_def [symmetric] w2_def)
        have w2: "hinv ag ?st sid w2" unfolding w2_def by (rule hinv_interf [OF w1(1) fr])
        have lv: "w_lastVersion w2 = length ?h0" using state by (simp add: w2_def)
        have pre: "prefix ?h0 (history (w_store w2) sid)"
          using run_saves_extends w0 interf_run [OF fr, of "2 * ?t + 1" "w_store w1"]
          by (auto simp: w2_def st1 handler_inv_def)
        note sp = save_attempt_spec [OF w2 _ wrap_events_hd [OF False] sa]
        have i0: "inv (w_store w0)" using w0 by (simp add: handler_inv_def)
        show ?thesis
        proof (cases err)
          case (Some e)
          have "history (ce_interf ce (2 * ?t + 1) (w_store w0)) sid \<noteq> history (w_store w0) sid" if "retryable err"
            using sp that lv False by (auto simp: w2_def st1)
          then show ?thesis using sp False Some sv1 i0 by auto
        next
          case None
          then obtain new where new: "history (w_store w') sid = history (w_store w2) sid @ new"
            "list_all2 same_event new ?envs" "ar_NextExpectedVersion res = length (history (w_store w') sid)"
            using sp False by auto
          have eq: "history (w_store w2) sid = ?h0" if "?st \<in> {Any, StreamExists, NoStream}"
            using sp None False that pre lv by (auto simp: autoConverge_def prefix_def)
          have at_r: "\<forall>r. ?st = Revision r \<longrightarrow> length (history (w_store w2) sid) = r"
            using sp None False by auto
          have h': "hinv ag ?st sid w'" using sp False by auto
          show ?thesis
            by (intro conjI impI; (rule exI [of _ ?h0], rule exI [of _ "history (w_store w2) sid"],
                  rule exI [of _ events], rule exI [of _ new])?)
              (use new pre ev(2) None state(1) eq at_r h' in \<open>simp_all add: retryable_def\<close>)
        qed
      qed
    qed
  qed
qed

text \<open>A whole call: the invariant starts out true, and every retried attempt keeps it.\<close>

lemma hinv_start:
  "inv s \<Longrightarrow> hinv ag st sid \<lparr>w_store = s, w_state = ag_initialState ag, w_loadState = firstLoadState st,
     w_lastVersion = 0, w_tick = 0\<rparr>"
  by (simp add: handler_inv_def)

lemma attempt_tick:
  "w_tick (fst (handler_attempt save load ce ag ci cfg sid cmd w)) = Suc (w_tick w)"
  by (auto simp: handler_attempt_def save_attempt_def Let_def split: sum.splits option.splits prod.splits)

lemma handler_last_attempt:
  assumes "inv s" "foreign save (ce_interf ce)" "\<And>b. retry_contract (retry b)"
    and run: "NewCommandHandler save load retry stop ag ci opts ce s cmd = Some (w', res, e)"
    and cfg: "cfg = handler_config ci stop opts" "sid = ho_StreamNamer cfg (ce_ctx ce) cmd"
    and k: "loads (firstLoadState (ho_StreamState cfg))"
  obtains w0 err saves where "hinv ag (ho_StreamState cfg) sid w0" "w_store w0 = run_saves save saves s"
    "handler_attempt save load ce ag ci cfg sid cmd w0 = (w', res, err)" "err = None \<longleftrightarrow> e = None"
    "\<not> autoConverge (ho_StreamState cfg) \<Longrightarrow> w_tick w0 = 0"
proof -
  let ?op = "handler_attempt save load ce ag ci cfg sid cmd"
  let ?w = "\<lparr>w_store = s, w_state = ag_initialState ag, w_loadState = firstLoadState (ho_StreamState cfg),
     w_lastVersion = 0, w_tick = 0\<rparr>"
  let ?P = "\<lambda>w. hinv ag (ho_StreamState cfg) sid w \<and> (\<exists>saves. w_store w = run_saves save saves s)
     \<and> (\<not> autoConverge (ho_StreamState cfg) \<longrightarrow> w_tick w = 0)"
  have "retry (retryStrategy stop (ho_RetryStrategy cfg)) ?op ?w = Some (w', res, e)"
    using run by (simp add: NewCommandHandler_def Let_def cfg)
  with assms(3) obtain n err where n: "\<forall>i < n. retryable (snd (snd (op_iter ?op i ?w)))"
    "op_iter ?op n ?w = (w', res, err)" "err = None \<longleftrightarrow> e = None"
    by (rule retry_contractE)
  have step: "?P (fst (?op w))" if P: "?P w" and r: "retryable (snd (snd (?op w)))" for w
  proof -
    obtain w1 r1 e1 where o: "?op w = (w1, r1, e1)" by (metis prod_cases3)
    have "e1 \<noteq> None" using r o by (auto simp: retryable_def split: option.splits)
    with attempt_spec [OF _ k assms(2) o] P r o obtain sv where
      "hinv ag (ho_StreamState cfg) sid w1" "w_store w1 = run_saves save sv (w_store w)" "autoConverge (ho_StreamState cfg)"
      by auto
    then show ?thesis using P o by (metis fst_conv run_saves_append)
  qed
  have start: "?P ?w" using hinv_start [OF assms(1), of ag "ho_StreamState cfg" sid] by (auto intro: exI [of _ "[]"])
  have "\<exists>w0. ?P w0 \<and> op_iter ?op n ?w = ?op w0"
    by (rule op_iter_last [of ?P, OF start _ n(1)]) (rule step)
  then obtain w0 where w0: "?P w0" "op_iter ?op n ?w = ?op w0" by (rule exE) (erule conjE)
  have "?op w0 = (w', res, err)" using w0(2) n(2) by simp
  with w0(1) show thesis using that n(3) by blast
qed

text \<open>
  A successful call: there is a history \<open>h0\<close> the decision was made on, and the decided events are what
  was appended, to \<open>h0\<close> itself unless the caller pinned a revision.
\<close>

lemma handler_serializable:
  assumes "inv s" "foreign save (ce_interf ce)" "\<And>b. retry_contract (retry b)"
    and "NewCommandHandler save load retry stop ag ci opts ce s cmd = Some (w', res, None)"
    and "cfg = handler_config ci stop opts" "sid = ho_StreamNamer cfg (ce_ctx ce) cmd" "loads (firstLoadState (ho_StreamState cfg))"
  shows "\<exists>k h0 hs events new.
      ag_decide ag (foldl (ag_evolve ag) (ag_initialState ag) h0) cmd = Inr events
    \<and> prefix h0 hs \<and> history (w_store w') sid = hs @ new
    \<and> list_all2 same_event new (wrap_events (ce_impl ce) (ce_newID ce k) (ce_now ce k) sid
         (base_metadata ag ci cfg (ce_ctx ce) (ce_commandID ce) cmd) (CausationIDFromContext (ce_ctx ce))
         (Suc (length h0)) 0 (CorrelationIDFromContext (ce_ctx ce)) events)
    \<and> ar_NextExpectedVersion res = length (hs @ new)
    \<and> (ho_StreamState cfg \<in> {Any, StreamExists, NoStream} \<longrightarrow> hs = h0)
    \<and> (\<forall>r. ho_StreamState cfg = Revision r \<and> events \<noteq> [] \<longrightarrow> length hs = r)"
proof (rule handler_last_attempt [where retry = retry, OF assms(1-7)])
  fix w0 err
  assume h: "hinv ag (ho_StreamState cfg) sid w0" and e: "err = None \<longleftrightarrow> None = None"
    and a: "handler_attempt save load ce ag ci cfg sid cmd w0 = (w', res, err)"
  have "err = None" using e by simp
  from attempt_spec [OF h assms(7,2) a] have "err = None \<longrightarrow> ?thesis"
    by (intro impI exI [of _ "w_tick w0"]) (elim conjE, drule (1) mp)
  with \<open>err = None\<close> show ?thesis by (rule mp [rotated])
qed

lemma handler_error_pure:
  assumes "inv s" "foreign save (ce_interf ce)" "\<And>b. retry_contract (retry b)"
    and "NewCommandHandler save load retry stop ag ci opts ce s cmd = Some (w', res, Some e)"
    and "loads (firstLoadState (ho_StreamState (handler_config ci stop opts)))"
  shows "\<exists>saves. w_store w' = run_saves save saves s"
proof (rule handler_last_attempt [where retry = retry, OF assms(1-4) refl refl assms(5)])
  fix w0 err saves
  assume h: "hinv ag (ho_StreamState (handler_config ci stop opts))
      (ho_StreamNamer (handler_config ci stop opts) (ce_ctx ce) cmd) w0"
    and a: "handler_attempt save load ce ag ci (handler_config ci stop opts)
      (ho_StreamNamer (handler_config ci stop opts) (ce_ctx ce) cmd) cmd w0 = (w', res, err)"
    and s: "w_store w0 = run_saves save saves s" and e: "err = None \<longleftrightarrow> Some e = None"
  from attempt_spec [OF h assms(5,2) a] e obtain sv where "w_store w' = run_saves save sv (w_store w0)" by auto
  with s show ?thesis by (metis run_saves_append)
qed

text \<open>Once others leave the stream alone between one load and its save, the call returns.\<close>

lemma handler_converges:
  assumes "inv s" "foreign save (ce_interf ce)" "\<And>b. retry_contract (retry b)"
    and cfg: "cfg = handler_config ci stop opts" "sid = ho_StreamNamer cfg (ce_ctx ce) cmd"
    and k: "loads (firstLoadState (ho_StreamState cfg))"
    and quiet: "\<forall>s. inv s \<longrightarrow> history (ce_interf ce (2 * k + 1) s) sid = history s sid"
  shows "NewCommandHandler save load retry stop ag ci opts ce s cmd \<noteq> None"
proof -
  let ?op = "handler_attempt save load ce ag ci cfg sid cmd"
  let ?w = "\<lparr>w_store = s, w_state = ag_initialState ag, w_loadState = firstLoadState (ho_StreamState cfg),
     w_lastVersion = 0, w_tick = 0\<rparr>"
  have "\<exists>n. \<not> retryable (snd (snd (op_iter ?op n ?w)))"
  proof (rule ccontr)
    assume "\<nexists>n. \<not> retryable (snd (snd (op_iter ?op n ?w)))"
    then have all: "\<forall>i < Suc n. retryable (snd (snd (op_iter ?op i ?w)))" for n by blast
    have hk: "hinv ag (ho_StreamState cfg) sid (fst (op_iter ?op n ?w)) \<and> w_tick (fst (op_iter ?op n ?w)) = Suc n" for n
    proof (induction n)
      case 0
      obtain w1 r1 e1 where o: "?op ?w = (w1, r1, e1)" by (metis prod_cases3)
      with attempt_spec [OF hinv_start [OF assms(1)] k assms(2) o] attempt_tick [of ce ag ci cfg sid cmd ?w]
      show ?case by simp
    next
      case (Suc n)
      obtain w1 r1 e1 where o: "?op (fst (op_iter ?op n ?w)) = (w1, r1, e1)" by (metis prod_cases3)
      with attempt_spec [OF _ k assms(2) o] Suc attempt_tick [of ce ag ci cfg sid cmd "fst (op_iter ?op n ?w)"]
      show ?case by (simp add: op_iter_Suc del: op_iter.simps)
    qed
    obtain w0 where w0: "hinv ag (ho_StreamState cfg) sid w0" "w_tick w0 = k" "op_iter ?op k ?w = ?op w0"
    proof (cases k)
      case 0
      then show thesis using that [OF hinv_start [OF assms(1)]] by simp
    next
      case (Suc j)
      then show thesis using that [of "fst (op_iter ?op j ?w)"] hk [of j] by (simp add: op_iter_Suc del: op_iter.simps)
    qed
    obtain w1 r1 e1 where o: "?op w0 = (w1, r1, e1)" by (metis prod_cases3)
    have "retryable e1" using all [of k] w0(3) o by (metis lessI snd_conv)
    then show False using attempt_spec [OF w0(1) k assms(2) o] quiet w0(2) by auto
  qed
  then show ?thesis
    using assms(3) by (auto simp: NewCommandHandler_def Let_def cfg retry_contract_def)
qed

end

end
