(* ===== verification/ES_Handler_Props.thy ===== *)
theory ES_Handler_Props
  imports ES_Command_Handler
begin

text \<open>
  What a command handler on the in-memory store promises while other clients use the store: decisions
  are serializable, failures leave no trace, calls return once the stream is quiet, pinned expectations
  are never retried, rejections are business-rule violations, and events are stamped with their chain.
  The last theorem is a run that shows the limit of a pinned \<open>Revision\<close>.
\<close>

section \<open>Lemmas\<close>

lemma attempt_retryable:
  "retryable (snd (snd (handler_attempt save load ce ag ci cfg sid cmd w))) \<Longrightarrow> autoConverge (ho_StreamState cfg)"
  by (auto simp: handler_attempt_def save_attempt_def retryable_def Let_def
      split: sum.splits option.splits prod.splits if_splits)

lemma attempt_permanent:
  "handler_attempt save load ce ag ci cfg sid cmd w = (w', res, Some x) \<Longrightarrow> \<not> retryable (Some x) \<Longrightarrow>
     \<exists>y. As_permanent x = Some y"
  by (auto simp: retryable_def)

lemma retry_once:
  assumes "retry_contract retry" "op w = (w', res, err)" "\<not> retryable err"
  shows "retry op w = Some (w', res, map_option (\<lambda>x. the (As_permanent x)) err)"
proof -
  have "\<not> retryable (snd (snd (op_iter op 0 w)))" using assms(2,3) by simp
  then have "retry op w \<noteq> None" using assms(1) unfolding retry_contract_def by blast
  then obtain w2 r2 e where run: "retry op w = Some (w2, r2, e)" by auto
  show ?thesis
  proof (rule retry_contractE [OF assms(1) run])
    fix n err2
    assume a: "\<forall>i < n. retryable (snd (snd (op_iter op i w)))" "op_iter op n w = (w2, r2, err2)"
      "err2 = None \<longleftrightarrow> e = None" "\<And>x y. err2 = Some x \<Longrightarrow> As_permanent x = Some y \<Longrightarrow> e = Some y"
    have "n = 0" using a(1) assms(2,3) by (metis gr0I op_iter.simps(1) snd_conv)
    then have "w2 = w'" "r2 = res" "err2 = err" using a(2) assms(2) by auto
    then show ?thesis using run a(3,4) assms(3) by (auto simp: retryable_def split: option.splits)
  qed
qed

lemma length_wrap_events [simp]:
  "length (wrap_events impl newID now sid base cause nv i corr events) = length events"
  by (induction events arbitrary: i corr) (auto simp: Let_def)

lemma wrap_events_fields:
  assumes "\<forall>u. UuidString impl u \<noteq> []"
  shows "map Event (wrap_events impl newID now sid base cause nv i corr events) = events
    \<and> map Version (wrap_events impl newID now sid base cause nv i corr events) = map (\<lambda>k. nv + k) [i..<i + length events]
    \<and> map EventID (wrap_events impl newID now sid base cause nv i corr events) = map newID [i..<i + length events]
    \<and> (\<forall>env \<in> set (wrap_events impl newID now sid base cause nv i corr events).
         StreamID env = sid \<and> CausationID env = cause \<and> Metadata env = Some base
         \<and> CorrelationID env = (if corr = [] then UuidString impl (newID i) else corr))"
  using assms by (induction events arbitrary: i corr) (simp_all add: Let_def upt_rec)

section \<open>An aggregate for the witnesses\<close>

text \<open>The aggregate counts its events, and each command notes how many there were.\<close>

definition demo_ci :: "unit command_impl" where
  "demo_ci = \<lparr>CommandAggregateID = (\<lambda>_. ''s''), CommandType = (\<lambda>_. ''Note'')\<rparr>"

definition demo_ag :: "(nat, unit, string, unit) aggregate" where
  "demo_ag = \<lparr>ag_initialState = 0, ag_evolve = (\<lambda>n _. Suc n),
     ag_decide = (\<lambda>n _. if n < 5 then Inr [Some (replicate n CHR ''n'')] else Inl (NewError ''full'')),
     ag_MetaString = (\<lambda>_. ())\<rparr>"

definition demo_ce :: "(nat \<Rightarrow> (string, unit) event_store \<Rightarrow> (string, unit) event_store)
    \<Rightarrow> ((string, unit) event_store, string, unit) call_env" where
  "demo_ce interf = \<lparr>ce_impl = demo_impl, ce_ctx = Background, ce_commandID = ''id'',
     ce_newID = (\<lambda>t i. Suc (10 * t + i)), ce_now = (\<lambda>_ _. 9), ce_interf = interf\<rparr>"

text \<open>Another client that saves its event between the load and the save of the first attempt, or nobody.\<close>

definition demo_rival :: "nat \<Rightarrow> (string, unit) event_store \<Rightarrow> (string, unit) event_store" where
  "demo_rival t s =
     (if t = 1 then fst (Save demo_impl demo_reg (\<lambda>_. 7) s [demo_env 1 ''s'' ''x''] NoStream) else s)"

definition demo_nobody :: "nat \<Rightarrow> (string, unit) event_store \<Rightarrow> (string, unit) event_store" where
  "demo_nobody t s = s"

abbreviation demo_handler where
  "demo_handler k st interf m \<equiv>
     NewCommandHandler (Save demo_impl demo_reg (\<lambda>_. 7)) (load_all demo_impl demo_reg (\<lambda>_. None))
       (\<lambda>_ :: unit. retry_max k) () demo_ag demo_ci [WithStreamState st] (demo_ce interf) m ()"

lemma demo_foreign:
  "foreign (Save demo_impl demo_reg (\<lambda>_. 7)) demo_rival" "foreign (Save demo_impl demo_reg (\<lambda>_. 7)) demo_nobody"
proof -
  show "foreign (Save demo_impl demo_reg (\<lambda>_. 7)) demo_rival"
    unfolding foreign_def
  proof (intro allI)
    fix t s
    show "\<exists>saves. demo_rival t s = run_saves (Save demo_impl demo_reg (\<lambda>_. 7)) saves s"
      by (cases "t = 1")
        (auto simp: demo_rival_def intro: exI [of _ "[([demo_env 1 ''s'' ''x''], NoStream)]"] exI [of _ "[]"])
  qed
  show "foreign (Save demo_impl demo_reg (\<lambda>_. 7)) demo_nobody"
    unfolding foreign_def demo_nobody_def by (auto intro: exI [of _ "[]"])
qed

lemma demo_config:
  "ho_StreamState (handler_config demo_ci () [WithStreamState st]) = st"
  "ho_StreamNamer (handler_config demo_ci () [WithStreamState st]) ctx cmd = ''s''"
  "base_metadata demo_ag demo_ci (handler_config demo_ci () [WithStreamState st]) ctx cid cmd = demo_metadata"
  by (simp_all add: handler_config_def WithStreamState_def DefaultStreamNamer_def demo_ci_def
      base_metadata_def demo_metadata_def)

lemma demo_ag_simps [simp]:
  "ag_initialState demo_ag = 0"
  "ag_decide demo_ag n c = (if n < 5 then Inr [Some (replicate n CHR ''n'')] else Inl (NewError ''full''))"
  by (simp_all add: demo_ag_def)

lemma demo_ce_simps [simp]:
  "ce_impl (demo_ce interf) = demo_impl" "ce_ctx (demo_ce interf) = Background" "ce_interf (demo_ce interf) = interf"
  by (simp_all add: demo_ce_def)

lemma demo_new_facts:
  "history_of demo_impl demo_reg NewEventStore ''s'' = []" "\<not> es_closed (NewEventStore :: (string, unit) event_store)"
  "load_offset (NewEventStore :: (string, unit) event_store) ''s'' Any = Inr 0"
  by (simp_all add: history_of_def log_of_def NewEventStore_def load_offset_def)

lemma demo_fold: "foldl (ag_evolve demo_ag) n h = n + length h"
  by (induction h arbitrary: n) (simp_all add: demo_ag_def)

lemma demo_command_save:
  assumes "store_ok demo_impl demo_reg m" "\<not> es_closed m" "check_revision ''s'' (length (stream m ''s'')) st = None"
    and "es = wrap_events demo_impl newID now' ''s'' demo_metadata cause nv 0 corr [Some ev]" "newID 0 \<noteq> 0"
  shows "\<exists>m' res. Save demo_impl demo_reg now m es st = (m', res, None)
    \<and> map Event (history_of demo_impl demo_reg m' ''s'') = map Event (history_of demo_impl demo_reg m ''s'') @ [Some ev]"
proof -
  obtain env where es: "es = [env]" "StreamID env = ''s''" "EventID env \<noteq> uuid_Nil" "Event env = Some ev"
    "Metadata env = Some demo_metadata"
    using assms(4,5) by (simp add: Let_def uuid_Nil_def)
  obtain recs where r: "encode_batch demo_impl demo_reg now 0 es = Inr recs" using es by simp
  have "\<exists>m' res. Save demo_impl demo_reg now m es st = (m', res, None)"
    by (rule Save_success_conv [OF _ r assms(2,3) es(1)]) (use es in simp_all)
  then obtain m' res where s: "Save demo_impl demo_reg now m es st = (m', res, None)" by blast
  have "es \<noteq> []" using es by simp
  from Save_history [OF assms(1) s this, of "''s''"] s show ?thesis
    by (auto simp: es stamped_def)
qed

text \<open>One successful attempt of a call, from the state of the store at its load and at its save.\<close>

lemma demo_run:
  assumes ok: "store_ok demo_impl demo_reg (interf 0 m)" "store_ok demo_impl demo_reg (interf 1 (interf 0 m))"
    and opn: "\<not> es_closed (interf 1 (interf 0 m))"
    and off: "load_offset (interf 0 m) ''s'' (firstLoadState st) = Inr 0"
    and n: "n = length (history_of demo_impl demo_reg (interf 0 m) ''s'')" "n < 5"
    and chk: "check_revision ''s'' (length (stream (interf 1 (interf 0 m)) ''s''))
                (if autoConverge st then Revision n else st) = None"
  shows "\<exists>w' res. demo_handler k st interf m = Some (w', res, None)
    \<and> map Event (history_of demo_impl demo_reg (w_store w') ''s'') =
        map Event (history_of demo_impl demo_reg (interf 1 (interf 0 m)) ''s'') @ [Some (replicate n CHR ''n'')]"
proof -
  let ?cfg = "handler_config demo_ci () [WithStreamState st] :: (unit, string, unit, unit) handler_options"
  let ?w = "\<lparr>w_store = m, w_state = ag_initialState demo_ag, w_loadState = firstLoadState (ho_StreamState ?cfg),
            w_lastVersion = 0, w_tick = 0\<rparr>"
  let ?h = "history_of demo_impl demo_reg (interf 0 m) ''s''"
  define w0 :: "((string, unit) event_store, nat) handler_world"
    where "w0 = \<lparr>w_store = interf 0 m, w_state = 0, w_loadState = firstLoadState st, w_lastVersion = 0, w_tick = Suc 0\<rparr>"
  define w1 where "w1 = foldl (evolve_step demo_ag) w0 ?h"
  have w0: "w_store w0 = interf 0 m" "w_state w0 = 0" "w_loadState w0 = firstLoadState st"
    by (simp_all add: w0_def)
  have ld: "load_all demo_impl demo_reg (\<lambda>_. None) (interf 0 m) ''s'' (firstLoadState st) = Inr (?h, None)"
    using load_all_live [OF ok(1) off, of "\<lambda>_. None"] by simp
  have "handler_inv (store_ok demo_impl demo_reg) (history_of demo_impl demo_reg) demo_ag st ''s'' w0"
    using ok(1) by (simp add: w0_def handler_inv_def)
  from mstore.hinv_load [OF this TrueI, of "\<lambda>_. None" ?h None] ld
  have w1: "w_state w1 = n" "w_lastVersion w1 = n" "w_store w1 = interf 0 m"
    unfolding w1_def by (simp_all add: w0 foldl_evolve(1) demo_fold n)
  let ?w2 = "w1\<lparr>w_store := interf 1 (interf 0 m)\<rparr>"
  let ?es = "wrap_events demo_impl (ce_newID (demo_ce interf) 0) (ce_now (demo_ce interf) 0) ''s'' demo_metadata
      [] (Suc n) 0 [] [Some (replicate n CHR ''n'')]"
  obtain m' res where sv: "Save demo_impl demo_reg (\<lambda>_. 7) (interf 1 (interf 0 m)) ?es
      (if autoConverge st then Revision n else st) = (m', res, None)"
    "map Event (history_of demo_impl demo_reg m' ''s'') =
       map Event (history_of demo_impl demo_reg (interf 1 (interf 0 m)) ''s'') @ [Some (replicate n CHR ''n'')]"
    using demo_command_save [OF ok(2) opn chk refl, of "ce_newID (demo_ce interf) 0" "\<lambda>_. 7"
        "ce_now (demo_ce interf) 0" "[]" "Suc n" "[]" "replicate n CHR ''n''"]
    by (auto simp: demo_ce_def simp del: wrap_events.simps)
  have at: "handler_attempt (Save demo_impl demo_reg (\<lambda>_. 7)) (load_all demo_impl demo_reg (\<lambda>_. None)) (demo_ce interf)
      demo_ag demo_ci ?cfg ''s'' () ?w = (?w2\<lparr>w_store := m'\<rparr>, res, None)"
    using ld w1 n(2) sv(1)
    by (cases "autoConverge st")
      (simp_all add: handler_attempt_def save_attempt_def demo_config From_Background w0_def [symmetric] w1_def [symmetric]
        Let_def del: wrap_events.simps)
  have "demo_handler k st interf m = Some (?w2\<lparr>w_store := m'\<rparr>, res, map_option (\<lambda>x. the (As_permanent x)) None)"
    unfolding NewCommandHandler_def Let_def demo_config(2)
    by (rule retry_once [where op = "handler_attempt (Save demo_impl demo_reg (\<lambda>_. 7))
          (load_all demo_impl demo_reg (\<lambda>_. None)) (demo_ce interf) demo_ag demo_ci ?cfg ''s'' ()",
          OF retry_max_contract at]) (simp add: retryable_def)
  then show ?thesis using sv(2) by simp
qed


section \<open>Properties\<close>



text \<open>
  A call that fails, for whatever reason and after however many attempts, leaves the store exactly
  as the other clients' saves made it.
\<close>

theorem handler_failure_leaves_no_trace:
  assumes "store_ok impl reg m" "foreign (Save impl reg now) (ce_interf ce)" "\<And>b. retry_contract (retry b)"
    and "NewCommandHandler (Save impl reg now) (load_all impl reg ctx) retry stop ag ci opts ce m cmd = Some (w', res, Some e)"
  shows "\<exists>saves. w_store w' = run_saves (Save impl reg now) saves m"
  using mstore.handler_error_pure [where retry = retry, OF assms TrueI] .

theorem handler_failure_leaves_no_trace_witness:
  "\<exists>w' res e saves. demo_handler 0 StreamExists demo_nobody NewEventStore = Some (w', res, Some e)
     \<and> w_store w' = run_saves (Save demo_impl demo_reg (\<lambda>_. 7)) saves NewEventStore"
proof -
  have fr: "foreign (Save demo_impl demo_reg (\<lambda>_. 7)) (ce_interf (demo_ce demo_nobody))"
    using demo_foreign(2) by simp
  obtain w' res e where run: "demo_handler 0 StreamExists demo_nobody NewEventStore = Some (w', res, Some e)"
    by (simp add: NewCommandHandler_def Let_def demo_config retry_max.simps handler_attempt_def firstLoadState_def
        load_all_def LoadStreamFrom_def load_offset_def demo_nobody_def NewEventStore_def)
  from handler_failure_leaves_no_trace [OF demo_new_ok fr retry_max_contract run] run show ?thesis by blast
qed

text \<open>
  (C39) Conflicts converge. If during at least one attempt nobody else saves to the stream between its
  load and its save, the call returns: the handler cannot spin on conflicts of its own making.
\<close>

theorem handler_returns_when_quiet:
  assumes "store_ok impl reg m" "foreign (Save impl reg now) (ce_interf ce)" "\<And>b. retry_contract (retry b)"
    and "cfg = handler_config ci stop opts" "sid = ho_StreamNamer cfg (ce_ctx ce) cmd"
    and "\<forall>s. store_ok impl reg s \<longrightarrow> history_of impl reg (ce_interf ce (2 * k + 1) s) sid = history_of impl reg s sid"
  shows "NewCommandHandler (Save impl reg now) (load_all impl reg ctx) retry stop ag ci opts ce m cmd \<noteq> None"
  using mstore.handler_converges [where retry = retry, OF assms(1-5) TrueI assms(6)] .

theorem handler_returns_when_quiet_witness:
  "demo_handler 0 Any demo_nobody demo_store \<noteq> None"
proof -
  have fr: "foreign (Save demo_impl demo_reg (\<lambda>_. 7)) (ce_interf (demo_ce demo_nobody))"
    using demo_foreign(2) by simp
  show ?thesis
    by (rule handler_returns_when_quiet [OF demo_store_ok fr retry_max_contract refl refl, of 0])
      (simp add: demo_nobody_def)
qed

text \<open>
  A pinned expectation is never retried. Under \<open>NoStream\<close> or a \<open>Revision\<close>, on any store and with
  any retry strategy, the call is exactly one attempt, its error handed back without the retry marker.
\<close>

theorem pinned_single_attempt:
  assumes "\<And>b. retry_contract (retry b)"
    and "cfg = handler_config ci stop opts" "sid = ho_StreamNamer cfg (ce_ctx ce) cmd"
    and "ho_StreamState cfg = NoStream \<or> ho_StreamState cfg = Revision r"
    and "handler_attempt save load ce ag ci cfg sid cmd
           \<lparr>w_store = s, w_state = ag_initialState ag, w_loadState = firstLoadState (ho_StreamState cfg),
            w_lastVersion = 0, w_tick = 0\<rparr> = (w', res, err)"
  shows "NewCommandHandler save load retry stop ag ci opts ce s cmd =
      Some (w', res, map_option (\<lambda>x. the (As_permanent x)) err)"
proof -
  let ?op = "handler_attempt save load ce ag ci cfg sid cmd"
  have "\<not> autoConverge (ho_StreamState cfg)" using assms(4) by (auto simp: autoConverge_def)
  then have "\<not> retryable err"
    using attempt_retryable [where save = save and load = load and ce = ce and ag = ag and ci = ci and cfg = cfg
        and sid = sid and cmd = cmd] assms(5) by (metis snd_conv)
  from retry_once [where op = ?op, OF assms(1) assms(5) this] show ?thesis
    by (simp add: NewCommandHandler_def Let_def assms(2,3))
qed

theorem pinned_single_attempt_witness:
  "\<exists>w' res e. demo_handler 3 NoStream demo_nobody demo_store = Some (w', res, Some e) \<and> errors_Is e ErrStreamExists"
proof -
  have ex: "es_events demo_store ''s'' \<noteq> None"
    using demo_stream by (auto simp: stream_def split: option.splits)
  let ?cfg = "handler_config demo_ci () [WithStreamState NoStream] :: (unit, string, unit, unit) handler_options"
  obtain w' res e where a: "handler_attempt (Save demo_impl demo_reg (\<lambda>_. 7)) (load_all demo_impl demo_reg (\<lambda>_. None))
      (demo_ce demo_nobody) demo_ag demo_ci ?cfg (ho_StreamNamer ?cfg (ce_ctx (demo_ce demo_nobody)) ()) ()
      \<lparr>w_store = demo_store, w_state = ag_initialState demo_ag, w_loadState = firstLoadState (ho_StreamState ?cfg),
       w_lastVersion = 0, w_tick = 0\<rparr> = (w', res, Some (Permanent e))" "errors_Is e ErrStreamExists"
    using ex by (simp add: handler_attempt_def demo_config firstLoadState_def load_all_def LoadStreamFrom_def
        load_offset_def demo_nobody_def Let_def)
  have "ho_StreamState ?cfg = NoStream \<or> ho_StreamState ?cfg = Revision 0" by (simp add: demo_config)
  from pinned_single_attempt [where retry = "\<lambda>_ :: unit. retry_max 3", OF retry_max_contract refl refl this a(1)] a(2) show ?thesis by simp
qed

text \<open>
  When \<open>decide\<close> rejects the command on the history that is loaded, the call ends with a business
  rule violation that carries the decider's error, reports no success, and saves nothing; it is not
  retried, whatever the strategy.
\<close>

theorem handler_business_violation:
  assumes "\<And>b. retry_contract (retry b)"
    and "cfg = handler_config ci stop opts" "sid = ho_StreamNamer cfg (ce_ctx ce) cmd"
    and "load (ce_interf ce 0 s) sid (firstLoadState (ho_StreamState cfg)) = Inr (h, None)"
    and "ag_decide ag (foldl (ag_evolve ag) (ag_initialState ag) h) cmd = Inl reason"
  shows "\<exists>w' res e. NewCommandHandler save load retry stop ag ci opts ce s cmd = Some (w', res, Some e)
    \<and> As_business_rule e = Some (Some reason) \<and> \<not> ar_Successful res \<and> w_store w' = ce_interf ce 0 s"
proof -
  let ?w = "\<lparr>w_store = s, w_state = ag_initialState ag, w_loadState = firstLoadState (ho_StreamState cfg),
            w_lastVersion = 0, w_tick = 0\<rparr>"
  let ?e = "Errorf ''handle command'' [BusinessRuleViolationError (Some reason)]"
  obtain w' res where a: "handler_attempt save load ce ag ci cfg sid cmd ?w = (w', res, Some (Permanent ?e))"
    "\<not> ar_Successful res" "w_store w' = ce_interf ce 0 s"
    using assms(4,5) by (simp add: handler_attempt_def Let_def foldl_evolve(1) NewBusinessRuleViolation_def handler_fail_def failed_result_def zero_result_def)
  from retry_once [where op = "handler_attempt save load ce ag ci cfg sid cmd", OF assms(1) a(1)] have
    "NewCommandHandler save load retry stop ag ci opts ce s cmd = Some (w', res, Some ?e)"
    by (simp add: NewCommandHandler_def Let_def assms(2,3) retryable_def)
  with a(2,3) show ?thesis by simp
qed

theorem handler_business_violation_witness:
  "\<exists>w' res e. NewCommandHandler (Save demo_impl demo_reg (\<lambda>_. 7)) (load_all demo_impl demo_reg (\<lambda>_. None))
       (\<lambda>_ :: unit. retry_max 2) () (demo_ag\<lparr>ag_initialState := 9\<rparr>) demo_ci [] (demo_ce demo_nobody) NewEventStore ()
       = Some (w', res, Some e) \<and> As_business_rule e = Some (Some (NewError ''full''))"
proof -
  have "load_all demo_impl demo_reg (\<lambda>_. None) (ce_interf (demo_ce demo_nobody) 0 NewEventStore) ''s'' Any = Inr ([], None)"
    using load_all_live [OF demo_new_ok demo_new_facts(3), of "\<lambda>_. None"] by (simp add: demo_nobody_def demo_new_facts)
  then have ld: "load_all demo_impl demo_reg (\<lambda>_. None) (ce_interf (demo_ce demo_nobody) 0 NewEventStore)
      (ho_StreamNamer (handler_config demo_ci () []) (ce_ctx (demo_ce demo_nobody)) ())
      (firstLoadState (ho_StreamState (handler_config demo_ci () []))) = Inr ([], None)"
    by (simp add: handler_config_def DefaultStreamNamer_def demo_ci_def firstLoadState_def)
  show ?thesis
    using handler_business_violation [where retry = "\<lambda>_ :: unit. retry_max 2" and load = "load_all demo_impl demo_reg (\<lambda>_. None)"
        and ce = "demo_ce demo_nobody" and ag = "demo_ag\<lparr>ag_initialState := 9\<rparr>" and reason = "NewError ''full''"
        and save = "Save demo_impl demo_reg (\<lambda>_. 7)", OF retry_max_contract refl refl ld]
    by (auto simp: demo_ag_def)
qed

text \<open>
  The envelopes of one command: the decided events in order, with fresh IDs and consecutive
  versions from the given one on, all of the handler's stream, with the metadata and the causation
  of the call, and all in one correlation: the context's, or a new one named after the first event.
\<close>

theorem wrap_events_chain:
  assumes "\<forall>u. UuidString impl u \<noteq> []"
  shows "let es = wrap_events impl newID now sid base cause nv 0 corr events in
      map Event es = events \<and> map EventID es = map newID [0..<length events]
    \<and> map Version es = [nv..<nv + length events]
    \<and> (\<forall>env \<in> set es. StreamID env = sid \<and> CausationID env = cause \<and> Metadata env = Some base
         \<and> CorrelationID env = (if corr = [] then UuidString impl (newID 0) else corr))"
  using wrap_events_fields [OF assms, of newID now sid base cause nv 0 corr events]
  by (simp add: Let_def map_add_upt add.commute)


theorem wrap_events_chain_witness:
  "map CorrelationID (wrap_events (demo_impl\<lparr>UuidString := (\<lambda>u. ''u'')\<rparr>) (\<lambda>i. i + 1) (\<lambda>_. 3) ''s''
     Map.empty ''c'' 4 0 [] [Some ''a'', Some ''b'']) = [''u'', ''u'']"
  using wrap_events_chain [of "demo_impl\<lparr>UuidString := (\<lambda>u. ''u'')\<rparr>" "\<lambda>i. i + 1" "\<lambda>_. 3" "''s''" Map.empty "''c''" 4 "[]"
      "[Some ''a'', Some ''b'']"]
  by (simp add: Let_def)

text \<open>
  The limit of a pinned \<open>Revision\<close>: the revision gates the save but not the load. A call pinned
  to revision 1 loads an empty stream, another client saves the first event, and the save, checked
  against revision 1, goes through: the stream now ends with an event that was decided on no events at
  all (it notes zero events, \<open>[]\<close>), although it comes after one.
\<close>

theorem pinned_revision_stale_decision:
  "\<exists>w' res. demo_handler k (Revision 1) demo_rival NewEventStore = Some (w', res, None)
     \<and> map Event (history_of demo_impl demo_reg (w_store w') ''s'') = [Some ''x'', Some []]"
proof -
  have s: "demo_rival 0 NewEventStore = NewEventStore" "demo_rival 1 NewEventStore = demo_store"
    by (simp_all add: demo_rival_def demo_store_def)
  show ?thesis
    using demo_run [where interf = demo_rival and m = NewEventStore and st = "Revision 1" and n = 0 and k = k]
    unfolding s
    by (simp add: demo_new_facts demo_open demo_stream demo_history firstLoadState_def check_revision_def
        autoConverge_def stamped_def)
qed

end
