(* ===== verification/Sql_Events_Props.thy ===== *)
theory Sql_Events_Props
  imports Sql_Events ES_Handler_Props
begin

text \<open>
  The event store on SQLite against the same contracts as the store in memory. A table stands for a store in memory
  (\<open>mem_of\<close>), with the times as the table keeps them, and every operation on the table gives what the operation on that store
  gives; so the table interprets \<open>stream_store\<close> and \<open>global_log\<close>, and what is proved there of command handlers and of readers
  holds on SQLite too.
\<close>

section \<open>The store a table stands for\<close>

definition row_record :: "(string \<Rightarrow> go_error + uuid) \<Rightarrow> event_row \<Rightarrow> ('e, 'v) mrecord" where
  "row_record parse r =
     \<lparr>r_env = \<lparr>EventID = projr (parse (er_event_id r)), StreamID = er_stream_id r, Metadata = None, CorrelationID = er_correlation_id r,
        CausationID = er_causation_id r, Event = None, Version = er_stream_position r, GlobalPosition = er_id r,
        OccurredAt = time_Unix (er_occurred_at r)\<rparr>,
      r_name = er_event_type r, r_payload = er_payload r, r_metadata = er_metadata r\<rparr>"

definition mem_of :: "(string \<Rightarrow> go_error + uuid) \<Rightarrow> events_table \<Rightarrow> ('e, 'v) event_store" where
  "mem_of parse T =
     (let recs = map (row_record parse) (et_rows T) in
      \<lparr>es_closed = False, es_global = recs,
       es_events = (\<lambda>sid. if list_ex (\<lambda>r. er_stream_id r = sid) (et_rows T)
          then Some (filter (\<lambda>r. StreamID (r_env r) = sid) recs) else None)\<rparr>)"

definition sql_ok :: "('e, 'v) event_impl \<Rightarrow> 'e registry \<Rightarrow> (string \<Rightarrow> go_error + uuid) \<Rightarrow> events_table \<Rightarrow> bool" where
  "sql_ok impl reg parse T \<longleftrightarrow>
     store_ok impl reg (mem_of parse T) \<and> (\<forall>u. parse (UuidString impl u) = Inr u)
     \<and> (\<forall>r \<in> set (et_rows T). \<not> isl (parse (er_event_id r))) \<and> et_seq T = length (et_rows T) \<and> int (et_seq T) \<le> max_int64"

abbreviation sql_log where "sql_log impl reg parse T \<equiv> log_of impl reg (mem_of parse T)"
abbreviation sql_history where "sql_history impl reg parse T sid \<equiv> history_of impl reg (mem_of parse T) sid"

lemma row_record_simps [simp]:
  "StreamID (r_env (row_record parse r)) = er_stream_id r" "Version (r_env (row_record parse r)) = er_stream_position r"
  "GlobalPosition (r_env (row_record parse r)) = er_id r" "CorrelationID (r_env (row_record parse r)) = er_correlation_id r"
  "r_name (row_record parse r) = er_event_type r"
  by (simp_all add: row_record_def)

lemma mem_of_simps [simp]: "\<not> es_closed (mem_of parse T)" "es_global (mem_of parse T) = map (row_record parse) (et_rows T)"
  by (simp_all add: mem_of_def Let_def)

lemma stream_mem_of: "stream (mem_of parse T) sid = map (row_record parse) (filter (\<lambda>r. er_stream_id r = sid) (et_rows T))"
proof -
  have "filter (\<lambda>r. er_stream_id r = sid) (et_rows T) = []" if "\<not> list_ex (\<lambda>r. er_stream_id r = sid) (et_rows T)"
    using that by (auto simp: filter_empty_conv list_ex_iff)
  then show ?thesis by (auto simp: stream_def mem_of_def Let_def filter_map o_def)
qed

lemma sql_okD:
  fixes impl :: "('e, 'v) event_impl"
  assumes "sql_ok impl reg parse T"
  shows "store_ok impl reg (mem_of parse T)" "store_inv (mem_of parse T :: ('e, 'v) event_store)" "parse (UuidString impl u) = Inr u" "et_seq T = length (et_rows T)"
    "int (length (et_rows T)) \<le> max_int64"
  using assms by (auto simp: sql_ok_def store_ok_def)

lemma rows_ids:
  fixes impl :: "('e, 'v) event_impl"
  assumes "sql_ok impl reg parse T"
  shows "map er_id (et_rows T) = [1..<Suc (length (et_rows T))]"
proof -
  let ?m = "mem_of parse T :: ('e, 'v) event_store"
  have "map (GlobalPosition \<circ> r_env) (es_global ?m) = [1..<Suc (length (es_global ?m))]"
    using sql_okD(2) [OF assms] unfolding store_inv_def by blast
  then show ?thesis by (simp add: o_def del: upt_Suc)
qed

lemma rows_positions:
  fixes impl :: "('e, 'v) event_impl"
  assumes "sql_ok impl reg parse T"
  shows "map er_stream_position (filter (\<lambda>r. er_stream_id r = sid) (et_rows T)) =
    [1..<Suc (length (filter (\<lambda>r. er_stream_id r = sid) (et_rows T)))]"
proof -
  let ?m = "mem_of parse T :: ('e, 'v) event_store"
  have "map (Version \<circ> r_env) (stream ?m sid) = [1..<Suc (length (stream ?m sid))]"
    using sql_okD(2) [OF assms] unfolding store_inv_def by blast
  then show ?thesis by (simp add: stream_mem_of o_def del: upt_Suc)
qed

text \<open>What the aggregates and the orders of the statements come to.\<close>

lemma foldr_max_upt: "foldr max [1..<Suc n] (0::nat) = n"
proof -
  have "foldr max [1..<Suc n] a = (if n \<le> a then a else n)" for a by (induction n arbitrary: a) auto
  then show ?thesis by simp
qed

lemma select_version_length:
  assumes "sql_ok impl reg parse T"
  shows "select_version sid T = length (filter (\<lambda>r. er_stream_id r = sid) (et_rows T))"
  unfolding select_version_def rows_positions [OF assms] by (rule foldr_max_upt)

lemma sql_Head_length: "sql_ok impl reg parse T \<Longrightarrow> sql_Head None T = Inr (length (et_rows T))"
  by (simp only: sql_Head_def rows_ids foldr_max_upt option.case)

lemma sort_key_sorted: "sorted (map f xs) \<Longrightarrow> sort_key f xs = xs"
  by (induction xs) (auto simp: insort_is_Cons)

lemma sorted_filter_map: "sorted (map f xs) \<Longrightarrow> sorted (map f (filter P xs))"
  by (induction xs) auto

lemma select_subset [simp]: "set (select_events P key T) \<subseteq> set (et_rows T)"
  by (simp add: select_events_def)

lemma select_by_id:
  assumes "sql_ok impl reg parse T"
  shows "select_events P er_id T = filter P (et_rows T)"
proof -
  have "sorted (map er_id (et_rows T))" by (simp add: rows_ids [OF assms] del: upt_Suc)
  then show ?thesis by (simp add: select_events_def sort_key_sorted sorted_filter_map)
qed

lemma select_by_position:
  assumes "sql_ok impl reg parse T" "\<And>r. P r \<Longrightarrow> er_stream_id r = sid"
  shows "select_events P er_stream_position T = filter P (et_rows T)"
proof -
  have "sorted (map er_stream_position (filter (\<lambda>r. er_stream_id r = sid) (et_rows T)))"
    by (simp add: rows_positions [OF assms(1)] del: upt_Suc)
  then have "sorted (map er_stream_position (filter P (filter (\<lambda>r. er_stream_id r = sid) (et_rows T))))" by (rule sorted_filter_map)
  moreover have "filter P (filter (\<lambda>r. er_stream_id r = sid) (et_rows T)) = filter P (et_rows T)"
    using assms(2) by (auto simp: filter_filter intro: filter_cong)
  ultimately show ?thesis by (simp add: select_events_def sort_key_sorted)
qed

text \<open>Reading rows back.\<close>

lemma scan_ok:
  assumes "sql_ok impl reg parse T" "set rows \<subseteq> set (et_rows T)"
  shows "scan_rows impl reg parse rows = Inr (map (\<lambda>r. decoded impl reg (row_record parse r)) rows)"
  using assms(2)
proof (induction rows)
  case (Cons r rows)
  have "record_ok impl reg (row_record parse r)" "\<not> isl (parse (er_event_id r))"
    using assms(1) Cons.prems by (auto simp: sql_ok_def store_ok_def)
  then have "scanEnvelope impl reg parse r = Inr (decoded impl reg (row_record parse r))"
    by (auto simp: record_ok_def scanEnvelope_def decoded_def record_envelope_def row_record_def isl_def split: sum.splits)
  with Cons show ?case by simp
qed simp

lemma query_ok:
  assumes "sql_ok impl reg parse T" "set rows \<subseteq> set (et_rows T)"
  shows "queryEnvelopes impl reg parse no_fault rows = Inr (map (\<lambda>r. decoded impl reg (row_record parse r)) rows)"
  using scan_ok [OF assms] by (simp add: queryEnvelopes_def no_fault_def)

lemma query_Inr:
  assumes "sql_ok impl reg parse T" "set rows \<subseteq> set (et_rows T)" "queryEnvelopes impl reg parse q rows = Inr envs"
  shows "envs = map (\<lambda>r. decoded impl reg (row_record parse r)) rows"
proof -
  have "set (take k rows) \<subseteq> set (et_rows T)" for k using assms(2) by (meson order_trans set_take_subset)
  then show ?thesis
    using assms(3) scan_ok [OF assms(1,2)] scan_ok [OF assms(1)]
    by (auto simp: queryEnvelopes_def split: option.splits prod.splits sum.splits)
qed

section \<open>Saving\<close>

text \<open>The events of a batch with their times as the table keeps them.\<close>

fun stored_times :: "(nat \<Rightarrow> gotime) \<Rightarrow> nat \<Rightarrow> ('e, 'v) envelope list \<Rightarrow> ('e, 'v) envelope list" where
  "stored_times now i [] = []"
| "stored_times now i (env # envs) =
     env\<lparr>OccurredAt := time_Unix (UnixNano (if OccurredAt env = 0 then now i else OccurredAt env))\<rparr> # stored_times now (Suc i) envs"

lemma stored_times_simps [simp]:
  "length (stored_times now i envs) = length envs" "stored_times now i envs = [] \<longleftrightarrow> envs = []"
  by (induction envs arbitrary: i) auto

lemma stored_times_same: "list_all2 same_event (stored_times now i envs) envs"
  by (induction envs arbitrary: i) (auto simp: same_event_def)

lemma stored_times_valid: "validate_batch sid (stored_times now i envs) = validate_batch sid envs"
  by (induction envs arbitrary: i) auto

lemma stored_nonzero: "time_Unix (UnixNano t) \<noteq> 0"
proof -
  have "- (2 ^ 63) \<le> UnixNano t" by (simp add: UnixNano_def)
  then show ?thesis by (simp add: time_Unix_def unix_epoch_def)
qed

definition place_row :: "string \<Rightarrow> nat \<Rightarrow> nat \<Rightarrow> event_row \<Rightarrow> event_row" where
  "place_row sid v n r = r\<lparr>er_stream_id := sid, er_stream_position := v, er_id := n\<rparr>"

fun place_rows :: "string \<Rightarrow> nat \<Rightarrow> nat \<Rightarrow> event_row list \<Rightarrow> event_row list" where
  "place_rows sid ver pos [] = []"
| "place_rows sid ver pos (r # rs) = place_row sid (Suc ver) (Suc pos) r # place_rows sid (Suc ver) (Suc pos) rs"

lemma length_place_rows [simp]: "length (place_rows sid ver pos rs) = length rs"
  by (induction rs arbitrary: ver pos) auto

lemma place_rows_uuid: "er_event_id ` set (place_rows sid ver pos rs) = er_event_id ` set rs"
  by (induction rs arbitrary: ver pos) (auto simp: place_row_def)

lemma placed_record: "row_record parse (place_row sid v n r) = (row_record parse r)\<lparr>r_env := (r_env (row_record parse r))
    \<lparr>StreamID := sid, Version := v, GlobalPosition := n\<rparr>\<rparr>"
  by (simp add: row_record_def place_row_def)

lemma encoded_record:
  "row_record parse \<lparr>er_id = n, er_event_id = u, er_stream_id = sid, er_stream_position = v, er_event_type = t, er_payload = p, er_metadata = m,
     er_occurred_at = o', er_correlation_id = c, er_causation_id = k\<rparr> =
   \<lparr>r_env = \<lparr>EventID = projr (parse u), StreamID = sid, Metadata = None, CorrelationID = c, CausationID = k, Event = None, Version = v,
      GlobalPosition = n, OccurredAt = time_Unix o'\<rparr>, r_name = t, r_payload = p, r_metadata = m\<rparr>"
  by (simp add: row_record_def)

text \<open>The encoding loops of the two stores agree.\<close>

lemma encode_rows_Inl:
  "encode_rows impl reg now i envs = Inl e \<longleftrightarrow> encode_batch impl reg now' i (stored_times now i envs) = Inl e"
proof (induction envs arbitrary: i)
  case (Cons env envs)
  show ?case using Cons.IH [of "Suc i"]
    by (cases "encode_rows impl reg now (Suc i) envs"; cases "encode_batch impl reg now' (Suc i) (stored_times now (Suc i) envs)")
      (auto simp: Let_def split: sum.splits)
qed simp

lemma encode_rows_Inr:
  assumes "encode_rows impl reg now i envs = Inr rows" "\<And>env. env \<in> set envs \<Longrightarrow> StreamID env = sid" "\<And>u. parse (UuidString impl u) = Inr u"
    and "encode_batch impl reg now' i (stored_times now i envs) = Inr recs"
  shows "map (row_record parse) (place_rows sid ver pos rows) = place_batch ver pos recs
    \<and> (\<forall>r \<in> set rows. \<not> isl (parse (er_event_id r)))"
  using assms
proof (induction envs arbitrary: i rows recs ver pos)
  case (Cons env envs)
  obtain rows' where rows: "encode_rows impl reg now (Suc i) envs = Inr rows'"
    using Cons.prems(1) by (auto simp: Let_def split: sum.splits)
  obtain recs' where recs: "encode_batch impl reg now' (Suc i) (stored_times now (Suc i) envs) = Inr recs'"
    using Cons.prems(4) by (auto simp: Let_def split: sum.splits)
  have "map (row_record parse) (place_rows sid (Suc ver) (Suc pos) rows') = place_batch (Suc ver) (Suc pos) recs'
      \<and> (\<forall>r \<in> set rows'. \<not> isl (parse (er_event_id r)))"
    by (rule Cons.IH [OF rows _ Cons.prems(3) recs]) (simp add: Cons.prems(2))
  moreover have "StreamID env = sid" by (simp add: Cons.prems(2))
  ultimately show ?case
    using Cons.prems(1,4) rows recs Cons.prems(3) [of "EventID env"]
    by (cases "OccurredAt env = 0"; cases env) (auto simp: Let_def placed_record encoded_record stored_nonzero split: sum.splits)
qed simp

text \<open>The inserts of a transaction that went through, and when they do.\<close>

lemma insert_rows_Inr:
  assumes "insert_rows F sid st cv i rows (T, l) = Inr (T', l')"
  shows "T' = T\<lparr>et_rows := et_rows T @ place_rows sid (cv + i) (et_seq T) rows, et_seq := et_seq T + length rows\<rparr>
    \<and> l' = (if rows = [] then l else et_seq T + length rows) \<and> (rows \<noteq> [] \<longrightarrow> int (et_seq T + length rows) \<le> max_int64)"
  using assms
proof (induction rows arbitrary: i T l)
  case (Cons r rows)
  obtain T1 l1 where ins: "insert_event (r\<lparr>er_stream_id := sid, er_stream_position := cv + i + 1\<rparr>) T = Inserted T1 l1"
    "insert_rows F sid st cv (Suc i) rows (T1, l1) = Inr (T', l')"
    using Cons.prems by (auto split: option.splits insert_result.splits)
  then have T1: "T1 = T\<lparr>et_rows := et_rows T @ [place_row sid (Suc (cv + i)) (Suc (et_seq T)) r], et_seq := Suc (et_seq T)\<rparr>" "l1 = Suc (et_seq T)"
    "int (et_seq T) < max_int64"
    by (auto simp: insert_event_def place_row_def Let_def split: if_splits)
  then show ?case using Cons.IH [OF ins(2)] by auto
qed simp

lemma insert_rows_succeeds:
  assumes "\<And>i. sf_insert F i = None" "\<And>r. r \<in> set (et_rows T) \<Longrightarrow> er_stream_id r = sid \<Longrightarrow> er_stream_position r \<le> cv + i"
    and "int (et_seq T + length rows) \<le> max_int64"
  shows "\<exists>T' l'. insert_rows F sid st cv i rows (T, l) = Inr (T', l')"
  using assms(2,3)
proof (induction rows arbitrary: i T l)
  case (Cons r rows)
  let ?T = "T\<lparr>et_rows := et_rows T @ [r\<lparr>er_stream_id := sid, er_stream_position := cv + i + 1, er_id := et_seq T + 1\<rparr>], et_seq := et_seq T + 1\<rparr>"
  have "insert_event (r\<lparr>er_stream_id := sid, er_stream_position := cv + i + 1\<rparr>) T = Inserted ?T (et_seq T + 1)"
    using Cons.prems by (fastforce simp: insert_event_def list_ex_iff Let_def)
  moreover have "\<exists>T' l'. insert_rows F sid st cv (Suc i) rows (?T, et_seq T + 1) = Inr (T', l')"
  proof (rule Cons.IH)
    fix q assume q: "q \<in> set (et_rows ?T)" "er_stream_id q = sid"
    show "er_stream_position q \<le> cv + Suc i"
    proof (cases "q \<in> set (et_rows T)")
      case True
      then show ?thesis using Cons.prems(1) [OF True q(2)] by simp
    next
      case False
      then have "er_stream_position q = cv + i + 1" using q(1) by auto
      then show ?thesis by simp
    qed
  qed (use Cons.prems(2) in simp)
  ultimately show ?case using assms(1) by simp
qed simp

text \<open>A table with rows appended to it stands for the store with the records appended.\<close>

lemma mem_of_append:
  assumes "rows \<noteq> []" "\<And>r. r \<in> set rows \<Longrightarrow> er_stream_id r = sid"
  shows "mem_of parse (T\<lparr>et_rows := et_rows T @ rows, et_seq := n\<rparr>) =
    (mem_of parse T)\<lparr>es_events := (es_events (mem_of parse T))(sid \<mapsto> stream (mem_of parse T) sid @ map (row_record parse) rows),
       es_global := es_global (mem_of parse T) @ map (row_record parse) rows\<rparr>"
proof -
  have "list_ex (\<lambda>r. er_stream_id r = s) rows \<longleftrightarrow> s = sid" "filter (\<lambda>r. er_stream_id r = s) rows = (if s = sid then rows else [])" for s
    using assms by (auto simp: list_ex_iff filter_id_conv filter_empty_conv neq_Nil_conv)
  then show ?thesis unfolding stream_mem_of by (auto simp: mem_of_def Let_def fun_eq_iff filter_map o_def)
qed

lemma place_rows_stream: "r \<in> set (place_rows sid ver pos rs) \<Longrightarrow> er_stream_id r = sid"
  by (induction rs arbitrary: ver pos) (auto simp: place_row_def)

lemma sql_check_None: "sql_check_revision sid v st = None \<longleftrightarrow> check_revision sid v st = None"
  by (auto simp: sql_check_revision_def check_revision_def split: stream_state.splits)

text \<open>A save that fails leaves no trace, wherever in its transaction it failed.\<close>

lemma sql_Save_failed: "sql_Save impl reg now F T events st = (T', res, Some e) \<Longrightarrow> T' = T \<and> \<not> ar_Successful res"
  by (auto simp: sql_Save_def Let_def split: list.splits option.splits sum.splits)

lemma sql_Save_empty: "sql_Save impl reg now F T [] st = (T, zero_result\<lparr>ar_Successful := True\<rparr>, None)"
  by (simp add: sql_Save_def)

lemma sql_Save_successE:
  assumes "sql_Save impl reg now F T events st = (T', res, None)" "events \<noteq> []"
  obtains sid rows lastID where "sid = StreamID (hd events)" "validate_batch sid events = None" "encode_rows impl reg now 0 events = Inr rows"
    "sql_check_revision sid (select_version sid T) st = None" "insert_rows F sid st (select_version sid T) 0 rows (T, 0) = Inr (T', lastID)"
    "res = \<lparr>ar_Successful = True, ar_StreamID = sid, ar_NextExpectedVersion = select_version sid T + length events, ar_GlobalPosition = lastID\<rparr>"
  using assms
  by (cases events) (auto simp: sql_Save_def Let_def simp del: validate_batch.simps encode_rows.simps split: option.splits sum.splits prod.splits)

lemma encode_rows_length: "encode_rows impl reg now i envs = Inr rows \<Longrightarrow> length rows = length envs"
  by (induction envs arbitrary: i rows) (auto simp: Let_def split: sum.splits)

lemma sql_Save_memory:
  fixes impl :: "('e, 'v) event_impl"
  assumes ok: "sql_ok impl reg parse T" and sv: "sql_Save impl reg now F T events st = (T', res, None)" and ne: "events \<noteq> []"
  shows "Save impl reg now (mem_of parse T) (stored_times now 0 events) st = (mem_of parse T', res, None)"
    and "sql_ok impl reg parse T'" and "\<exists>new. et_rows T' = et_rows T @ new"
proof -
  let ?m = "mem_of parse T :: ('e, 'v) event_store" and ?ev = "stored_times now 0 events"
  note D = sql_okD [OF ok]
  from sv ne have "Save impl reg now ?m ?ev st = (mem_of parse T', res, None) \<and> (\<exists>new. et_rows T' = et_rows T @ new)
      \<and> et_seq T' = length (et_rows T') \<and> int (et_seq T') \<le> max_int64 \<and> (\<forall>r \<in> set (et_rows T'). \<not> isl (parse (er_event_id r)))"
  proof (rule sql_Save_successE)
    fix sid rows lastID
    assume a: "sid = StreamID (hd events)" "validate_batch sid events = None" "encode_rows impl reg now 0 events = Inr rows"
        "sql_check_revision sid (select_version sid T) st = None" "insert_rows F sid st (select_version sid T) 0 rows (T, 0) = Inr (T', lastID)"
        "res = \<lparr>ar_Successful = True, ar_StreamID = sid, ar_NextExpectedVersion = select_version sid T + length events, ar_GlobalPosition = lastID\<rparr>"
    have ver: "select_version sid T = length (stream ?m sid)" by (simp add: select_version_length [OF ok] stream_mem_of)
    let ?new = "place_rows sid (length (stream ?m sid)) (length (et_rows T)) rows"
    have nonempty: "rows \<noteq> []" using encode_rows_length [OF a(3)] ne by auto
    obtain recs where recs: "encode_batch impl reg now 0 ?ev = Inr recs"
      using a(3) encode_rows_Inl [of impl reg now 0 events _ now] by (cases "encode_batch impl reg now 0 ?ev") auto
    have rec: "map (row_record parse) ?new = place_batch (length (stream ?m sid)) (length (et_rows T)) recs" "\<forall>r \<in> set rows. \<not> isl (parse (er_event_id r))"
      using encode_rows_Inr [OF a(3) _ D(3) recs] a(2) by (auto simp: validate_batch_None)
    have T': "T' = T\<lparr>et_rows := et_rows T @ ?new, et_seq := et_seq T + length rows\<rparr>" "lastID = length (et_rows T) + length events"
        "int (et_seq T + length rows) \<le> max_int64"
      using insert_rows_Inr [OF a(5)] nonempty encode_rows_length [OF a(3)] by (auto simp: ver D(4))
    have "mem_of parse T' = ?m\<lparr>es_events := (es_events ?m)(sid \<mapsto> stream ?m sid @ map (row_record parse) ?new),
        es_global := es_global ?m @ map (row_record parse) ?new\<rparr>"
      unfolding T'(1) using nonempty place_rows_stream [of _ sid] by (intro mem_of_append) (auto simp: neq_Nil_conv)
    moreover have "StreamID (hd ?ev) = sid" using a(1) ne by (cases events) auto
    moreover have "recs \<noteq> []" "length recs = length events" using encode_batch_length [OF recs] ne by auto
    ultimately have "Save impl reg now ?m ?ev st = (mem_of parse T', res, None)"
      using a(2,4) recs ver rec(1) ne T'(2) D(4) stored_times_valid [of sid now 0 events]
      by (cases ?ev) (simp_all add: Save_def Let_def a(6) sql_check_None fold_append_record del: validate_batch.simps encode_batch.simps)
    moreover have "\<not> isl (parse (er_event_id r))" if r: "r \<in> set (et_rows T')" for r
    proof (cases "r \<in> set (et_rows T)")
      case False
      then have "er_event_id r \<in> er_event_id ` set ?new" using r by (auto simp: T'(1))
      then show ?thesis using rec(2) unfolding place_rows_uuid by auto
    qed (use ok in \<open>auto simp: sql_ok_def\<close>)
    ultimately show ?thesis using T'(1,3) D(4) by simp
  qed
  moreover from this have "store_ok impl reg (mem_of parse T')" using store_ok_Save [OF D(1)] by blast
  ultimately show "Save impl reg now ?m ?ev st = (mem_of parse T', res, None)" "sql_ok impl reg parse T'" "\<exists>new. et_rows T' = et_rows T @ new"
    using D(3) by (auto simp: sql_ok_def)
qed

definition live_tx :: save_faults where
  "live_tx = \<lparr>sf_begin = None, sf_version = None, sf_insert = (\<lambda>_. None), sf_commit = None\<rparr>"

lemma sql_Save_succeeds:
  assumes ok: "sql_ok impl reg parse T" and sv: "Save impl reg now (mem_of parse T) (stored_times now 0 events) st = (m', res, None)"
    and ne: "events \<noteq> []" and room: "int (length (et_rows T) + length events) \<le> max_int64"
  shows "\<exists>T' res. sql_Save impl reg now live_tx T events st = (T', res, None)"
proof -
  let ?ev = "stored_times now 0 events" and ?sid = "StreamID (hd events)"
  have hd: "StreamID (hd ?ev) = ?sid" using ne by (cases events) auto
  have "?ev \<noteq> []" using ne by simp
  from sv this show ?thesis
  proof (rule Save_successE)
    fix sid recs
    assume a: "sid = StreamID (hd ?ev)" "validate_batch sid ?ev = None" "encode_batch impl reg now 0 ?ev = Inr recs"
      "check_revision sid (length (stream (mem_of parse T) sid)) st = None"
    obtain rows where rows: "encode_rows impl reg now 0 events = Inr rows"
      using a(3) encode_rows_Inl [of impl reg now 0 events _ now] by (cases "encode_rows impl reg now 0 events") auto
    have ver: "select_version ?sid T = length (filter (\<lambda>r. er_stream_id r = ?sid) (et_rows T))" by (rule select_version_length [OF ok])
    have "er_stream_position r \<le> select_version ?sid T + 0" if "r \<in> set (et_rows T)" "er_stream_id r = ?sid" for r
    proof -
      have "er_stream_position r \<in> set (map er_stream_position (filter (\<lambda>r. er_stream_id r = ?sid) (et_rows T)))" using that by simp
      then show ?thesis unfolding rows_positions [OF ok] ver by (simp del: upt_Suc)
    qed
    then obtain T' l' where "insert_rows live_tx ?sid st (select_version ?sid T) 0 rows (T, 0) = Inr (T', l')"
      using insert_rows_succeeds [of live_tx T ?sid "select_version ?sid T" 0 rows st 0] room encode_rows_length [OF rows] sql_okD(4) [OF ok]
      by (auto simp: live_tx_def)
    moreover have "validate_batch ?sid events = None" "sql_check_revision ?sid (select_version ?sid T) st = None"
      using a(1,2,4) hd by (simp_all add: stored_times_valid sql_check_None ver stream_mem_of)
    ultimately show ?thesis
      using rows ne by (cases events) (simp_all add: sql_Save_def Let_def live_tx_def del: validate_batch.simps encode_rows.simps)
  qed
qed

section \<open>Loading\<close>

lemma filter_above:
  fixes f :: "'a \<Rightarrow> nat"
  assumes "map f xs = [1..<Suc (length xs)]"
  shows "filter (\<lambda>x. r < f x) xs = drop r xs"
proof -
  have "filter (\<lambda>x. k + r < f x) xs = drop r xs" if "map f xs = [Suc k..<Suc k + length xs]" for k
    using that
  proof (induction xs arbitrary: k r)
    case (Cons x xs)
    have f: "f x = Suc k" "map f xs = [Suc (Suc k)..<Suc (Suc k) + length xs]" using Cons.prems by (simp_all add: upt_conv_Cons del: upt_Suc)
    show ?case
    proof (cases r)
      case 0
      then show ?thesis using Cons.IH [OF f(2), of 0] f(1) Cons.prems by (auto simp: filter_id_conv)
    next
      case (Suc r')
      then show ?thesis using Cons.IH [OF f(2), of r'] f(1) by simp
    qed
  qed simp
  from this [of 0] assms show ?thesis by simp
qed

lemma sql_history_rows:
  assumes "sql_ok impl reg parse T"
  shows "sql_history impl reg parse T sid = map (\<lambda>r. decoded impl reg (row_record parse r)) (filter (\<lambda>r. er_stream_id r = sid) (et_rows T))"
  using history_stream [OF sql_okD(2) [OF assms], of impl reg sid] by (simp add: stream_mem_of o_def)

lemma rows_after:
  assumes "sql_ok impl reg parse T"
  shows "filter (\<lambda>r. er_stream_id r = sid \<and> n < er_stream_position r) (et_rows T) = drop n (filter (\<lambda>r. er_stream_id r = sid) (et_rows T))"
  using filter_above [OF rows_positions [OF assms, of sid], of n] by (simp add: filter_filter conj_commute)

text \<open>Reading a slice iterator to its end, also when the context is cancelled on the way.\<close>

lemma slice_Values_ctx:
  assumes "it_next it = slice_next s" "it_close it = None" "\<not> it_done it" "it_err it = None" "it_closeErr it = None" "length s - it_src it < fuel"
  shows "\<exists>ys zs it'. Values fuel (\<lambda>xs v. (True, xs @ [v])) acc it = Some (acc @ map Some ys, it')
    \<and> drop (it_src it) s = ys @ zs \<and> (Err it' = None \<longrightarrow> zs = []) \<and> (Err it' \<noteq> None \<longrightarrow> (\<exists>k. it_ctx it k \<noteq> None))"
  using assms
proof (induction fuel arbitrary: acc it)
  case 0
  then show ?case by simp
next
  case (Suc fuel)
  show ?case
  proof (cases "it_ctx it (it_tick it)")
    case (Some err)
    then show ?thesis
      using Suc.prems
      by (intro exI [of _ "[]"] exI [of _ "drop (it_src it) s"]) (auto simp: Next_def finish_def Close_def Err_def Let_def intro: exI [of _ "it_tick it"])
  next
    case None
    show ?thesis
    proof (cases "it_src it \<ge> length s")
      case True
      with None Suc.prems show ?thesis by (auto simp: Next_def finish_def Close_def slice_next_def Err_def Let_def)
    next
      case False
      let ?it = "it\<lparr>it_tick := Suc (it_tick it), it_src := Suc (it_src it), it_current := Some (s ! it_src it)\<rparr>"
      have nxt: "Next it = (True, ?it)" using Suc.prems None False by (simp add: Next_def slice_next_def Let_def)
      have "\<exists>ys zs it'. Values fuel (\<lambda>xs v. (True, xs @ [v])) (acc @ [Some (s ! it_src it)]) ?it = Some ((acc @ [Some (s ! it_src it)]) @ map Some ys, it')
        \<and> drop (it_src ?it) s = ys @ zs \<and> (Err it' = None \<longrightarrow> zs = []) \<and> (Err it' \<noteq> None \<longrightarrow> (\<exists>k. it_ctx ?it k \<noteq> None))"
        by (rule Suc.IH) (use Suc.prems False in simp_all)
      then obtain ys zs it' where *: "Values fuel (\<lambda>xs v. (True, xs @ [v])) (acc @ [Some (s ! it_src it)]) ?it =
          Some ((acc @ [Some (s ! it_src it)]) @ map Some ys, it')" "drop (it_src ?it) s = ys @ zs"
        "Err it' = None \<longrightarrow> zs = []" "Err it' \<noteq> None \<longrightarrow> (\<exists>k. it_ctx ?it k \<noteq> None)"
        by (elim exE conjE)
      have "drop (it_src it) s = s ! it_src it # drop (Suc (it_src it)) s" using False by (simp add: Cons_nth_drop_Suc)
      with nxt * show ?thesis by (intro exI [of _ "s ! it_src it # ys"] exI [of _ zs] exI [of _ it']) (simp add: Value_def)
    qed
  qed
qed

lemma slice_All_ctx:
  assumes "length s < fuel"
  obtains ys zs err where "All fuel (NewSliceIterator ctx s) = Some (map Some ys, err)" "s = ys @ zs" "err = None \<longrightarrow> zs = []"
    "(\<forall>k. ctx k = None) \<longrightarrow> zs = [] \<and> err = None"
proof -
  have "\<exists>ys zs it'. Values fuel (\<lambda>xs v. (True, xs @ [v])) [] (NewSliceIterator ctx s) = Some ([] @ map Some ys, it')
    \<and> drop (it_src (NewSliceIterator ctx s)) s = ys @ zs \<and> (Err it' = None \<longrightarrow> zs = [])
    \<and> (Err it' \<noteq> None \<longrightarrow> (\<exists>k. it_ctx (NewSliceIterator ctx s) k \<noteq> None))"
    by (rule slice_Values_ctx) (use assms in \<open>simp_all add: NewSliceIterator_def NewIteratorFunc_def\<close>)
  then obtain ys zs it' where "Values fuel (\<lambda>xs v. (True, xs @ [v])) [] (NewSliceIterator ctx s) = Some ([] @ map Some ys, it')"
    "drop (it_src (NewSliceIterator ctx s)) s = ys @ zs" "Err it' = None \<longrightarrow> zs = []"
    "Err it' \<noteq> None \<longrightarrow> (\<exists>k. it_ctx (NewSliceIterator ctx s) k \<noteq> None)"
    by (elim exE conjE)
  then show thesis by (intro that [of ys "Err it'" zs]) (simp_all add: All_def NewSliceIterator_def NewIteratorFunc_def, auto)
qed

text \<open>
  \<open>LoadStreamFrom\<close> and then reading the iterator to its end. \<open>Q\<close> says what the driver answers, depending on the call. The panic of a revision that
  does not fit \<open>int64\<close> ends the call here like an error; a caller that resumes inside the stream never meets it.
\<close>

definition sql_load_all :: "('e, 'v) event_impl \<Rightarrow> 'e registry \<Rightarrow> (string \<Rightarrow> go_error + uuid) \<Rightarrow> (events_table \<Rightarrow> string \<Rightarrow> stream_state \<Rightarrow> query_fault)
    \<Rightarrow> (nat \<Rightarrow> go_error option) \<Rightarrow> events_table \<Rightarrow> string \<Rightarrow> stream_state \<Rightarrow> go_error + ('e, 'v) envelope list \<times> go_error option" where
  "sql_load_all impl reg parse Q ctx T sid st =
     (case sql_LoadStreamFrom impl reg parse (Q T sid st) ctx T sid st of
        Inl msg \<Rightarrow> Inl (NewError msg)
      | Inr (Inl err) \<Rightarrow> Inl err
      | Inr (Inr it) \<Rightarrow> (case All (Suc (length (et_rows T))) it of
          Some (items, err) \<Rightarrow> Inr (map the items, err)
        | None \<Rightarrow> Inr ([], None)))"

text \<open>A successful call gives an iterator over the rest of the stream.\<close>

lemma sql_LoadStreamFrom_Inr:
  assumes ok: "sql_ok impl reg parse T" and st: "\<And>n. st \<noteq> OtherState n" and ld: "sql_LoadStreamFrom impl reg parse q ctx T sid st = Inr (Inr it)"
  shows "it = NewSliceIterator ctx (drop (load_start st) (sql_history impl reg parse T sid))"
proof -
  let ?rows = "filter (\<lambda>r. er_stream_id r = sid) (et_rows T)"
  note sel = select_by_position [OF ok, of _ sid] and h = sql_history_rows [OF ok, of sid]
  have all: "envs = sql_history impl reg parse T sid"
    if "queryEnvelopes impl reg parse q (select_events (\<lambda>r. er_stream_id r = sid) er_stream_position T) = Inr envs" for envs
    using query_Inr [OF ok select_subset that] by (simp add: sel h)
  show ?thesis
  proof (cases st)
    case NoStream
    then have "?rows = []" using ld by (auto simp: sql_LoadStreamFrom_def sql_exists_def filter_empty_conv list_ex_iff split: option.splits if_splits bool.splits)
    then show ?thesis using ld NoStream by (auto simp: sql_LoadStreamFrom_def load_start_def h split: sum.splits bool.splits)
  next
    case (Revision r)
    have "envs = drop r (sql_history impl reg parse T sid)"
      if "queryEnvelopes impl reg parse q (select_events (\<lambda>x. er_stream_id x = sid \<and> int (er_stream_position x) > int r) er_stream_position T) = Inr envs" for envs
      using query_Inr [OF ok select_subset that] by (simp add: sel [of "\<lambda>x. er_stream_id x = sid \<and> r < er_stream_position x"] h rows_after [OF ok] drop_map)
    then show ?thesis using ld Revision by (auto simp: sql_LoadStreamFrom_def ToRawInt64_def load_start_def split: if_splits sum.splits)
  qed (use ld st all in \<open>auto simp: sql_LoadStreamFrom_def load_start_def split: sum.splits if_splits\<close>)
qed

lemma sql_load_spec:
  assumes ok: "sql_ok impl reg parse T" and st: "\<And>n. st \<noteq> OtherState n" and ld: "sql_load_all impl reg parse Q ctx T sid st = Inr (envs, err)"
  shows "prefix envs (drop (load_start st) (sql_history impl reg parse T sid))
    \<and> (err = None \<longrightarrow> envs = drop (load_start st) (sql_history impl reg parse T sid))"
proof -
  let ?h = "drop (load_start st) (sql_history impl reg parse T sid)"
  obtain it where it: "sql_LoadStreamFrom impl reg parse (Q T sid st) ctx T sid st = Inr (Inr it)"
    using ld by (auto simp: sql_load_all_def split: sum.splits)
  have "length ?h \<le> length (et_rows T)" by (simp add: sql_history_rows [OF ok] le_diff_conv trans_le_add1)
  then have short: "length ?h < Suc (length (et_rows T))" by simp
  obtain ys zs e where "All (Suc (length (et_rows T))) (NewSliceIterator ctx ?h) = Some (map Some ys, e)" "?h = ys @ zs" "e = None \<longrightarrow> zs = []"
    by (rule slice_All_ctx [OF short, of ctx])
  then show ?thesis using ld it sql_LoadStreamFrom_Inr [OF ok st it] by (auto simp: sql_load_all_def o_def)
qed

section \<open>The table as an event store\<close>

text \<open>Whatever the driver fails with, it is not the conflict error of this library.\<close>

definition driver_errors :: "save_faults \<Rightarrow> bool" where
  "driver_errors F \<longleftrightarrow> (\<forall>e. sf_begin F = Some e \<or> sf_version F = Some e \<or> (\<exists>i. sf_insert F i = Some e) \<or> sf_commit F = Some e \<longrightarrow> As_conflict e = None)"

lemma insert_rows_no_conflict:
  assumes "driver_errors F" "\<And>r. r \<in> set (et_rows T) \<Longrightarrow> er_stream_id r = sid \<Longrightarrow> er_stream_position r \<le> cv + i"
    and "insert_rows F sid st cv i rows (T, l) = Inl e"
  shows "As_conflict e = None"
  using assms(2,3)
proof (induction rows arbitrary: i T l)
  case (Cons r rows)
  let ?r = "r\<lparr>er_stream_id := sid, er_stream_position := cv + i + 1\<rparr>"
  show ?case
  proof (cases "sf_insert F i")
    case (Some err)
    then show ?thesis using Cons.prems(2) assms(1) by (auto simp: driver_errors_def)
  next
    case None
    have "\<not> list_ex (\<lambda>q. er_stream_id q = sid \<and> er_stream_position q = Suc (cv + i)) (et_rows T)"
      unfolding list_ex_iff using Cons.prems(1) by (metis Suc_n_not_le_n)
    then have fresh: "insert_event ?r T \<noteq> UniqueViolation" by (simp add: insert_event_def Let_def)
    show ?thesis
    proof (cases "insert_event ?r T")
      case (Inserted T1 l1)
      then have T1: "et_rows T1 = et_rows T @ [?r\<lparr>er_id := et_seq T + 1\<rparr>]" by (auto simp: insert_event_def Let_def split: if_splits)
      have "er_stream_position q \<le> cv + Suc i" if q: "q \<in> set (et_rows T1)" "er_stream_id q = sid" for q
        using Cons.prems(1) [of q] q by (cases "q \<in> set (et_rows T)") (auto simp: T1)
      then show ?thesis using Cons.IH [of T1 "Suc i" l1] Cons.prems(2) None Inserted by simp
    qed (use fresh None Cons.prems(2) in \<open>auto simp: insert_event_def Let_def split: if_splits\<close>)
  qed
qed simp

lemma stream_positions_bound:
  assumes "sql_ok impl reg parse T" "r \<in> set (et_rows T)" "er_stream_id r = sid"
  shows "er_stream_position r \<le> select_version sid T"
proof -
  have "er_stream_position r \<in> set (map er_stream_position (filter (\<lambda>r. er_stream_id r = sid) (et_rows T)))" using assms(2,3) by simp
  then show ?thesis unfolding rows_positions [OF assms(1)] select_version_length [OF assms(1)] by (simp del: upt_Suc)
qed

lemma sql_Save_current:
  assumes ok: "sql_ok impl reg parse T" and F: "driver_errors F" and ne: "events \<noteq> []"
    and sv: "sql_Save impl reg now F T events (Revision (length (sql_history impl reg parse T (StreamID (hd events))))) = (T', res, Some e)"
  shows "As_conflict e = None"
proof -
  let ?sid = "StreamID (hd events)"
  let ?st = "Revision (length (sql_history impl reg parse T ?sid))"
  have check: "sql_check_revision ?sid (select_version ?sid T) ?st = None"
    by (simp add: sql_check_revision_def select_version_length [OF ok] sql_history_rows [OF ok])
  have json: "json_ok impl" using sql_okD(1) [OF ok] by (simp add: store_ok_def)
  have enc: "As_conflict e = None" if "encode_rows impl reg now 0 events = Inl e"
    using that encode_batch_no_conflict [of impl reg now 0 "stored_times now 0 events" e] json unfolding encode_rows_Inl [where now' = now] by blast
  have ins: "As_conflict e = None" if "insert_rows F ?sid ?st (select_version ?sid T) 0 rows (T, 0) = Inl e" for rows
    by (rule insert_rows_no_conflict [OF F _ that]) (use stream_positions_bound [OF ok] in simp)
  show ?thesis
    using sv enc ins check validate_batch_no_conflict [of ?sid events e] F ne
    by (cases events)
      (auto simp: sql_Save_def Let_def driver_errors_def simp del: validate_batch.simps encode_rows.simps insert_rows.simps
        split: option.splits sum.splits prod.splits)
qed

lemma same_events_trans: "list_all2 same_event xs ys \<Longrightarrow> list_all2 same_event ys zs \<Longrightarrow> list_all2 same_event xs zs"
  by (rule list_all2_trans [of same_event same_event same_event]) (simp_all add: same_event_def)

interpretation sstore: stream_store
  "\<lambda>T evs st. sql_Save impl reg now (F T evs st) T evs st" "sql_load_all impl reg parse Q ctx"
  "\<lambda>T. sql_ok impl reg parse T \<and> (\<forall>T evs st. driver_errors (F T evs st))" "\<lambda>T. sql_history impl reg parse T" "\<lambda>st. \<forall>n. st \<noteq> OtherState n"
  for impl :: "('e, 'v) event_impl" and reg :: "'e registry" and now parse F Q ctx
proof
  fix s s' :: events_table and sid st res err envs r and e :: go_error and evs :: "('e, 'v) envelope list"
  assume inv: "sql_ok impl reg parse s \<and> (\<forall>T evs st. driver_errors (F T evs st))"
  then have ok: "sql_ok impl reg parse s" by blast
  show "map Version (sql_history impl reg parse s sid) = [1..<Suc (length (sql_history impl reg parse s sid))]"
    by (rule store_ok_versions [OF sql_okD(1) [OF ok]])
  show "sql_Save impl reg now (F s evs st) s evs st = (s', res, err) \<Longrightarrow> sql_ok impl reg parse s' \<and> (\<forall>T evs st. driver_errors (F T evs st))"
    using inv sql_Save_failed [of impl reg now "F s evs st" s evs st s' res] sql_Save_memory(2) [OF ok, of now "F s evs st" evs st s' res]
    by (cases "evs = []"; cases err) (auto simp: sql_Save_empty)
  show "sql_Save impl reg now (F s evs st) s evs st = (s', res, Some e) \<Longrightarrow> s' = s" using sql_Save_failed by blast
  show "sql_Save impl reg now (F s [] st) s [] st = (s', res, err) \<Longrightarrow> s' = s" by (simp add: sql_Save_empty)
  show "\<forall>n. st \<noteq> OtherState n \<Longrightarrow> sql_load_all impl reg parse Q ctx s sid st = Inr (envs, err) \<Longrightarrow>
      prefix envs (drop (load_start st) (sql_history impl reg parse s sid))
      \<and> (err = None \<longrightarrow> envs = drop (load_start st) (sql_history impl reg parse s sid))"
    by (rule sql_load_spec [OF ok]) auto
  assume ne: "evs \<noteq> []"
  have hd: "StreamID (hd (stored_times now 0 evs)) = StreamID (hd evs)" "stored_times now 0 evs \<noteq> []" using ne by (cases evs; simp)+
  show "As_conflict e = None"
    if "sql_Save impl reg now (F s evs (Revision (length (sql_history impl reg parse s (StreamID (hd evs)))))) s evs
          (Revision (length (sql_history impl reg parse s (StreamID (hd evs))))) = (s', res, Some e)"
    by (rule sql_Save_current [OF ok _ ne that]) (use inv in blast)
  note mem = sql_Save_memory(1) [OF ok _ ne] and ok' = sql_okD(1) [OF ok]
  show "\<exists>new. sql_history impl reg parse s' (StreamID (hd evs)) = sql_history impl reg parse s (StreamID (hd evs)) @ new
        \<and> list_all2 same_event new evs \<and> ar_StreamID res = StreamID (hd evs) \<and> ar_Successful res
        \<and> ar_NextExpectedVersion res = length (sql_history impl reg parse s' (StreamID (hd evs)))"
    if "sql_Save impl reg now (F s evs st) s evs st = (s', res, None)"
    using mstore.save_appends [OF ok' mem [OF that] hd(2)] unfolding hd(1)
    by (elim exE conjE) (intro exI conjI, assumption, erule same_events_trans [OF _ stored_times_same], assumption+)
  show "sid \<noteq> StreamID (hd evs) \<Longrightarrow> sql_history impl reg parse s' sid = sql_history impl reg parse s sid"
    if "sql_Save impl reg now (F s evs st) s evs st = (s', res, None)"
    using mstore.save_frame [OF ok' mem [OF that] hd(2)] hd(1) by simp
  show "length (sql_history impl reg parse s (StreamID (hd evs))) = r"
    if "sql_Save impl reg now (F s evs (Revision r)) s evs (Revision r) = (s', res, None)"
    using mstore.save_checked [OF ok' mem [OF that] hd(2)] hd(1) by simp
  show "sql_history impl reg parse s (StreamID (hd evs)) = []"
    if "sql_Save impl reg now (F s evs NoStream) s evs NoStream = (s', res, None)"
    using mstore.save_checked_new [OF ok' mem [OF that] hd(2)] hd(1) by simp
qed simp_all

section \<open>Reading the log\<close>

definition sql_selects :: "('e, 'v) event_impl \<Rightarrow> read_options \<Rightarrow> ('e, 'v) envelope \<Rightarrow> bool" where
  "sql_selects impl opts env \<longleftrightarrow>
     (ro_EventTypes opts = [] \<or> (\<exists>ev. Event env = Some ev \<and> EventType impl ev \<in> set (ro_EventTypes opts)))
     \<and> (ro_StreamPrefixes opts = [] \<or> (\<exists>p \<in> set (ro_StreamPrefixes opts). sql_substr (length p) (StreamID env) = p))"

text \<open>A page of a list of events: at most \<open>limit\<close> selected ones after a position.\<close>

definition cut_page :: "(('e, 'v) envelope \<Rightarrow> bool) \<Rightarrow> nat \<Rightarrow> uint64 \<Rightarrow> ('e, 'v) envelope list \<Rightarrow> ('e, 'v) read_result" where
  "cut_page sel limit after L =
     (let s = filter sel (drop after L);
          nxt = (if limit \<le> length s then GlobalPosition (s ! (limit - 1)) else max after (length L))
      in \<lparr>rr_Events = take limit s, rr_Next = nxt, rr_AtEnd = (length L \<le> nxt)\<rparr>)"

lemma log_page_cut: "log_page impl after opts L = cut_page (selects impl opts) (page_limit opts) after L"
  by (simp add: log_page_def cut_page_def Let_def)

lemma sql_limit_page: "sql_limit opts = page_limit opts"
  by (simp add: sql_limit_def page_limit_def)

lemma take_ascending:
  fixes f :: "'a \<Rightarrow> nat"
  assumes "sorted_wrt (<) (map f xs)" "k < length xs"
  shows "filter (\<lambda>x. f x \<le> f (xs ! k)) xs = take (Suc k) xs"
  using assms
proof (induction xs arbitrary: k)
  case (Cons x xs)
  show ?case
  proof (cases k)
    case 0
    then show ?thesis using Cons.prems by (auto simp: filter_empty_conv)
  next
    case (Suc j)
    then have j: "j < length xs" "xs ! j \<in> set xs" using Cons.prems(2) by auto
    then have "f x \<le> f (xs ! j)" using Cons.prems(1) by (auto intro: less_imp_le)
    then show ?thesis using Suc Cons.IH [OF _ j(1)] Cons.prems(1) by simp
  qed
qed simp

lemma cut_page_laws:
  assumes pos: "map GlobalPosition L = [1..<Suc (length L)]" and "0 < limit" and res: "res = cut_page sel limit after L"
  shows "rr_Events res = filter (\<lambda>e. after < GlobalPosition e \<and> GlobalPosition e \<le> rr_Next res \<and> sel e) L"
    and "rr_Next res = after \<or> after < rr_Next res \<and> rr_Next res \<in> GlobalPosition ` set L"
    and "rr_AtEnd res \<longleftrightarrow> (\<forall>e \<in> set L. GlobalPosition e \<le> rr_Next res)"
    and "\<not> rr_AtEnd res \<Longrightarrow> after < rr_Next res" and "length (rr_Events res) \<le> limit"
proof -
  let ?s = "filter sel (drop after L)"
  have s: "?s = filter (\<lambda>e. after < GlobalPosition e \<and> sel e) L" using filter_above [OF pos, of after] by (metis filter_filter)
  have asc: "sorted_wrt (<) (map GlobalPosition ?s)"
  proof -
    have "sorted_wrt (<) (map GlobalPosition L)" unfolding pos by (rule sorted_wrt_upt)
    then show ?thesis unfolding s by (simp add: sorted_wrt_map sorted_wrt_filter)
  qed
  have set: "GlobalPosition ` set L = {1..<Suc (length L)}" using pos by (metis set_map set_upt)
  have le: "GlobalPosition e \<le> length L" if "e \<in> set L" for e
    using imageI [OF that, of GlobalPosition] unfolding set by simp
  have at: "?s ! (limit - 1) \<in> set ?s" if "limit \<le> length ?s" using that assms(2) by (intro nth_mem) simp
  have cut: "filter (\<lambda>e. GlobalPosition e \<le> n) ?s = filter (\<lambda>e. after < GlobalPosition e \<and> GlobalPosition e \<le> n \<and> sel e) L" for n
    unfolding s by (auto simp: filter_filter intro: filter_cong)
  show ev: "rr_Events res = filter (\<lambda>e. after < GlobalPosition e \<and> GlobalPosition e \<le> rr_Next res \<and> sel e) L"
  proof (cases "limit \<le> length ?s")
    case True
    then have "take limit ?s = filter (\<lambda>e. GlobalPosition e \<le> GlobalPosition (?s ! (limit - 1))) ?s"
      using take_ascending [OF asc, of "limit - 1"] assms(2) by simp
    also have "\<dots> = filter (\<lambda>e. after < GlobalPosition e \<and> GlobalPosition e \<le> GlobalPosition (?s ! (limit - 1)) \<and> sel e) L"
      by (rule cut)
    finally show ?thesis using True by (simp add: res cut_page_def Let_def)
  next
    case False
    have "filter (\<lambda>e. after < GlobalPosition e \<and> GlobalPosition e \<le> max after (length L) \<and> sel e) L = ?s"
      unfolding s using le by (intro filter_cong refl) (simp add: le_max_iff_disj)
    then show ?thesis using False by (simp add: res cut_page_def Let_def)
  qed
  show "rr_Next res = after \<or> after < rr_Next res \<and> rr_Next res \<in> GlobalPosition ` set L"
    using at unfolding s set by (auto simp: res cut_page_def Let_def s max_def dest!: le)
  have all: "(\<forall>e \<in> set L. GlobalPosition e \<le> n) \<longleftrightarrow> length L \<le> n" for n
  proof -
    have "(\<forall>e \<in> set L. GlobalPosition e \<le> n) \<longleftrightarrow> (\<forall>q \<in> {1..<Suc (length L)}. q \<le> n)" unfolding set [symmetric] by simp
    then show ?thesis by (cases "length L") auto
  qed
  show "rr_AtEnd res \<longleftrightarrow> (\<forall>e \<in> set L. GlobalPosition e \<le> rr_Next res)" unfolding all by (simp add: res cut_page_def Let_def)
  show "\<not> rr_AtEnd res \<Longrightarrow> after < rr_Next res" using at unfolding s by (auto simp: res cut_page_def Let_def s split: if_splits)
  show "length (rr_Events res) \<le> limit" by (simp add: res cut_page_def Let_def)
qed

lemma sql_matches_selects:
  assumes "sql_ok impl reg parse T" "r \<in> set (et_rows T)"
  shows "sql_matches opts r \<longleftrightarrow> sql_selects impl opts (decoded impl reg (row_record parse r))"
proof -
  have "record_ok impl reg (row_record parse r)" using assms by (auto simp: sql_ok_def store_ok_def)
  then show ?thesis by (auto simp: record_ok_def sql_matches_def sql_selects_def decoded_def record_envelope_def list_ex_iff)
qed

text \<open>The rows of a page: appends after the head was read do not show.\<close>

lemma page_rows:
  assumes ok: "sql_ok impl reg parse T" "sql_ok impl reg parse T'" and ext: "et_rows T' = et_rows T @ new"
  shows "map (\<lambda>r. decoded impl reg (row_record parse r))
      (select_events (\<lambda>r. er_id r > after \<and> er_id r \<le> length (et_rows T) \<and> sql_matches opts r) er_id T')
    = filter (sql_selects impl opts) (drop after (sql_log impl reg parse T))"
proof -
  let ?n = "length (et_rows T)" and ?d = "\<lambda>r. decoded impl reg (row_record parse r)"
  have ids: "map er_id (et_rows T) = [1..<Suc ?n]" by (rule rows_ids [OF ok(1)])
  have "map er_id new = [Suc ?n..<Suc (?n + length new)]"
    using rows_ids [OF ok(2)] ids upt_add_eq_append [of 1 "Suc ?n" "length new"] by (simp add: ext del: upt_Suc)
  then have above: "?n < er_id r" if "r \<in> set new" for r
    using imageI [OF that, of er_id] by (metis Suc_le_lessD atLeastLessThan_iff list.set_map set_upt)
  have below: "er_id r \<le> ?n" if "r \<in> set (et_rows T)" for r
    using imageI [OF that, of er_id] ids by (metis atLeastLessThan_iff less_Suc_eq_le list.set_map set_upt)
  have "filter (\<lambda>r. er_id r > after \<and> er_id r \<le> ?n \<and> sql_matches opts r) new = []"
    by (auto simp: filter_empty_conv dest: above)
  moreover have "filter (\<lambda>r. er_id r > after \<and> er_id r \<le> ?n \<and> sql_matches opts r) (et_rows T)
      = filter (\<lambda>r. after < er_id r \<and> sql_matches opts r) (et_rows T)"
    by (intro filter_cong refl) (auto dest: below)
  ultimately have "filter (\<lambda>r. er_id r > after \<and> er_id r \<le> ?n \<and> sql_matches opts r) (et_rows T')
      = filter (\<lambda>r. after < er_id r \<and> sql_matches opts r) (et_rows T)" by (simp add: ext)
  also have "\<dots> = filter (sql_matches opts) (drop after (et_rows T))"
    by (simp only: filter_filter [symmetric] filter_above [OF ids])
  also have "\<dots> = filter (\<lambda>r. sql_selects impl opts (?d r)) (drop after (et_rows T))"
    using sql_matches_selects [OF ok(1)] by (intro filter_cong refl) (meson in_set_dropD)
  finally show ?thesis by (simp add: select_by_id [OF ok(2)] log_of_def drop_map filter_map o_def)
qed

lemma sql_ReadAll_page:
  assumes ok: "sql_ok impl reg parse T" "sql_ok impl reg parse T'" and ext: "et_rows T' = et_rows T @ new" and after: "int after \<le> max_int64"
  shows "sql_ReadAll impl reg parse herr q T T' after opts = Inr res \<Longrightarrow> res = cut_page (sql_selects impl opts) (sql_limit opts) after (sql_log impl reg parse T)"
    and "\<exists>res. sql_ReadAll impl reg parse None no_fault T T' after opts = Inr res"
proof -
  let ?rows = "select_events (\<lambda>r. er_id r > after \<and> er_id r \<le> length (et_rows T) \<and> sql_matches opts r) er_id T'"
  let ?L = "sql_log impl reg parse T" and ?limit = "sql_limit opts"
  let ?s = "filter (sql_selects impl opts) (drop after ?L)"
  have len: "length ?L = length (et_rows T)" by (simp add: log_of_def)
  have lim: "0 < ?limit" by (simp add: sql_limit_def)
  have sub: "set (take ?limit ?rows) \<subseteq> set (et_rows T')" using set_take_subset [of ?limit ?rows] select_subset by (meson order_trans)
  have tk: "map (\<lambda>r. decoded impl reg (row_record parse r)) (take ?limit ?rows) = take ?limit ?s"
    unfolding take_map [symmetric] page_rows [OF ok ext] by simp
  have lst: "last (take ?limit ?s) = ?s ! (?limit - 1)" if "length (take ?limit ?s) = ?limit"
    using that lim by (subst last_conv_nth) (auto simp: min_def split: if_splits)
  show "res = cut_page (sql_selects impl opts) ?limit after ?L" if rd: "sql_ReadAll impl reg parse herr q T T' after opts = Inr res"
  proof -
    have herr: "herr = None" using rd after by (auto simp: sql_ReadAll_def sql_Head_def split: option.splits)
    show ?thesis
    proof (cases "length (et_rows T) \<le> after")
      case True
      then show ?thesis using rd after herr lim by (simp add: sql_ReadAll_def sql_Head_length [OF ok(1)] cut_page_def Let_def len max_def)
    next
      case False
      obtain envs where envs: "queryEnvelopes impl reg parse q (take ?limit ?rows) = Inr envs"
        using rd after herr False by (auto simp: sql_ReadAll_def sql_Head_length [OF ok(1)] Let_def split: sum.splits)
      have e: "envs = take ?limit ?s" using query_Inr [OF ok(2) sub envs] tk by simp
      show ?thesis
        using rd after herr False envs lst by (auto simp: sql_ReadAll_def sql_Head_length [OF ok(1)] cut_page_def Let_def len e split: if_splits)
    qed
  qed
  show "\<exists>res. sql_ReadAll impl reg parse None no_fault T T' after opts = Inr res"
    using after query_ok [OF ok(2) sub] by (auto simp: sql_ReadAll_def sql_Head_length [OF ok(1)] Let_def)
qed

interpretation slog: global_log
  "\<lambda>T after opts. sql_ReadAll impl reg parse None no_fault T T after opts" "\<lambda>T. projr (sql_Head None T)"
  "sql_ok impl reg parse" "sql_log impl reg parse" "sql_selects impl" "\<lambda>p. int p \<le> max_int64"
  for impl :: "('e, 'v) event_impl" and reg :: "'e registry" and parse
proof
  fix s :: events_table and after opts and res :: "('e, 'v) read_result"
  assume ok: "sql_ok impl reg parse s"
  let ?L = "sql_log impl reg parse s"
  note pos = store_ok_positions [OF sql_okD(1) [OF ok]]
  have len: "length ?L = length (et_rows s)" by (simp add: log_of_def)
  show "sorted_wrt (<) (map GlobalPosition ?L)" by (rule mlog.ascending [OF sql_okD(1) [OF ok]])
  show "projr (sql_Head None s) = (if ?L = [] then 0 else GlobalPosition (last ?L))"
    using mlog.head_last [OF sql_okD(1) [OF ok]] by (simp add: sql_Head_length [OF ok] Head_def)
  show "\<exists>res. sql_ReadAll impl reg parse None no_fault s s after opts = Inr res" if "int after \<le> max_int64"
    by (rule sql_ReadAll_page(2) [OF ok ok _ that, of "[]"]) simp
  show "0 < GlobalPosition env" "int (GlobalPosition env) \<le> max_int64" if env: "env \<in> set ?L" for env
  proof -
    have "GlobalPosition env \<in> set (map GlobalPosition ?L)" using env by simp
    then show "0 < GlobalPosition env" "int (GlobalPosition env) \<le> max_int64" unfolding pos using sql_okD(5) [OF ok] by (auto simp: len simp del: upt_Suc)
  qed
  assume rd: "sql_ReadAll impl reg parse None no_fault s s after opts = Inr res"
  have "int after \<le> max_int64" using rd by (simp add: sql_ReadAll_def split: if_splits)
  then have res: "res = cut_page (sql_selects impl opts) (sql_limit opts) after ?L"
    using sql_ReadAll_page(1) [OF ok ok _ _ rd, of "[]"] by simp
  have lim: "0 < sql_limit opts" by (simp add: sql_limit_def)
  note laws = cut_page_laws [OF pos lim res]
  show "rr_Events res = filter (\<lambda>e. after < GlobalPosition e \<and> GlobalPosition e \<le> rr_Next res \<and> sql_selects impl opts e) ?L" by (rule laws)
  show "rr_Next res = after \<or> after < rr_Next res \<and> rr_Next res \<in> GlobalPosition ` set ?L" by (rule laws)
  show "rr_AtEnd res \<longleftrightarrow> (\<forall>e \<in> set ?L. GlobalPosition e \<le> rr_Next res)" by (rule laws)
  show "\<not> rr_AtEnd res \<Longrightarrow> after < rr_Next res" by (rule laws)
  show "0 < ro_Limit opts \<Longrightarrow> length (rr_Events res) \<le> nat (ro_Limit opts)" using laws(5) by (simp add: sql_limit_def)
qed

end
