(* ===== verification/Pg_Store_Props.thy ===== *)
theory Pg_Store_Props
  imports Pg_Events_Props Sql_Events_Props
begin

text \<open>
  What the event store on PostgreSQL promises under any interleaving of the statements of any number of calls: committed rows come in the order of
  their positions and never late, a page is consistent although it takes two statements, a successful \<open>Save\<close> takes effect at once at the moment it
  commits, and the calls never block each other for good.
\<close>

section \<open>Two calls for the witnesses\<close>

text \<open>Statements of the calls in the order of a schedule, none of which fails.\<close>

fun pg_run_calls :: "(string \<Rightarrow> int) \<Rightarrow> (gotime \<Rightarrow> gotime) \<Rightarrow> nat list \<Rightarrow> pg_db \<Rightarrow> pg_db option" where
  "pg_run_calls hash tz [] db = Some db"
| "pg_run_calls hash tz (k # ks) db = (case pg_statement hash tz None False k db of None \<Rightarrow> None | Some db' \<Rightarrow> pg_run_calls hash tz ks db')"

definition demo_hash :: "string \<Rightarrow> int" where
  "demo_hash s = (if s = ''s'' then 0 else 1)"

definition demo_call1 :: "pg_db \<Rightarrow> pg_db" where
  "demo_call1 db = pg_Save demo_impl demo_reg (\<lambda>_. 7) None 1 [demo_env 1 ''s'' ''x''] NoStream db"

definition demo_call2 :: "pg_db \<Rightarrow> pg_db" where
  "demo_call2 db = pg_Save demo_impl demo_reg (\<lambda>_. 7) None 2 [demo_env 2 ''t'' ''y''] Any db"

definition demo_tx :: "nat \<Rightarrow> string \<Rightarrow> stream_state \<Rightarrow> string \<Rightarrow> pg_tx" where
  "demo_tx u sid st ev = \<lparr>tx_stream = sid, tx_revision = st, tx_events = 1, tx_rows = [\<lparr>pr_id = 0, pr_event_id = u, pr_stream_id = [], pr_stream_position = 0,
     pr_event_type = ''Noted'', pr_payload = ev, pr_metadata = ''{}'', pr_occurred_at = 7, pr_correlation_id = ''c'', pr_causation_id = []\<rparr>], tx_index = 0, tx_version = 0,
     tx_lastID = 0, tx_written = [], tx_pc = AtStreamLock\<rparr>"

text \<open>Both calls are open; the second commits while the first waits for the append lock; then the first commits.\<close>

definition demo_pg_open :: pg_db where
  "demo_pg_open = demo_call1 (demo_call2 Schema_pg)"

definition demo_mid :: pg_db where
  "demo_mid = the (pg_run_calls demo_hash id [1, 2, 1, 2, 1, 2, 2, 2, 2] demo_pg_open)"

definition demo_final :: pg_db where
  "demo_final = the (pg_run_calls demo_hash id [1, 1, 1] demo_mid)"

section \<open>The committed rows\<close>

definition pg_reachable :: "(string \<Rightarrow> int) \<Rightarrow> (gotime \<Rightarrow> gotime) \<Rightarrow> ('e, 'v) event_impl \<Rightarrow> 'e registry \<Rightarrow> pg_db \<Rightarrow> bool" where
  "pg_reachable hash tz impl reg db \<longleftrightarrow> (pg_step hash tz impl reg)\<^sup>*\<^sup>* Schema_pg db"

lemma reachable_inv: "pg_reachable hash tz impl reg db \<Longrightarrow> pg_inv hash db"
  unfolding pg_reachable_def by (rule steps_inv [OF _ pg_inv_init])

lemma pg_run_calls_steps: "pg_run_calls hash tz ks db = Some db' \<Longrightarrow> (pg_step hash tz impl reg)\<^sup>*\<^sup>* db db'"
proof (induction ks arbitrary: db)
  case (Cons k ks)
  then obtain db1 where "pg_statement hash tz None False k db = Some db1" "pg_run_calls hash tz ks db1 = Some db'" by (auto split: option.splits)
  then show ?case using Cons.IH [of db1] by (auto intro: converse_rtranclp_into_rtranclp pg_step.statement)
qed simp

lemma demo_calls: "demo_call1 db = put_tx 1 (demo_tx 1 ''s'' NoStream ''x'') db" "demo_call2 db = put_tx 2 (demo_tx 2 ''t'' Any ''y'') db"
  by (simp_all add: demo_call1_def demo_call2_def pg_Save_def demo_tx_def uuid_Nil_def Let_def) (simp_all add: demo_env_def)

lemma demo_pg_open_tx: "demo_pg_open = put_tx 1 (demo_tx 1 ''s'' NoStream ''x'') (put_tx 2 (demo_tx 2 ''t'' Any ''y'') Schema_pg)"
  by (simp add: demo_pg_open_def demo_calls)

lemma demo_mid_run: "pg_run_calls demo_hash id [1, 2, 1, 2, 1, 2, 2, 2, 2] demo_pg_open = Some demo_mid"
proof -
  have "pg_run_calls demo_hash id [1, 2, 1, 2, 1, 2, 2, 2, 2] demo_pg_open \<noteq> None" unfolding demo_pg_open_tx by code_simp
  then show ?thesis unfolding demo_mid_def by (rule option.collapse [symmetric])
qed

lemma demo_final_run: "pg_run_calls demo_hash id [1, 1, 1] demo_mid = Some demo_final"
proof -
  have "pg_run_calls demo_hash id [1, 1, 1] demo_mid \<noteq> None" unfolding demo_mid_def demo_pg_open_tx by code_simp
  then show ?thesis unfolding demo_final_def by (rule option.collapse [symmetric])
qed

lemma demo_second_reachable: "pg_reachable hash tz demo_impl demo_reg (demo_call2 Schema_pg)"
  unfolding pg_reachable_def demo_call2_def by (intro r_into_rtranclp pg_step.call) (simp_all add: Schema_pg_def tx_of_def)

lemma demo_pg_open_reachable: "pg_reachable hash tz demo_impl demo_reg demo_pg_open"
proof -
  have "tx_of (demo_call2 Schema_pg) 1 = None" "pg_done (demo_call2 Schema_pg) 1 = None" by (simp_all add: demo_calls) (simp_all add: Schema_pg_def tx_of_def)
  then have "pg_step hash tz demo_impl demo_reg (demo_call2 Schema_pg) demo_pg_open" unfolding demo_pg_open_def demo_call1_def by (rule pg_step.call)
  then show ?thesis using demo_second_reachable [of hash tz] unfolding pg_reachable_def by (rule rtranclp.rtrancl_into_rtrancl [rotated])
qed

lemma demo_mid_steps: "(pg_step demo_hash id demo_impl demo_reg)\<^sup>*\<^sup>* demo_pg_open demo_mid" "(pg_step demo_hash id demo_impl demo_reg)\<^sup>*\<^sup>* demo_mid demo_final"
  by (rule pg_run_calls_steps [OF demo_mid_run], rule pg_run_calls_steps [OF demo_final_run])

lemma demo_mid_reachable: "pg_reachable demo_hash id demo_impl demo_reg demo_mid"
  using demo_pg_open_reachable demo_mid_steps(1) unfolding pg_reachable_def by (rule rtranclp_trans)

lemma demo_pg_rows:
  "map (\<lambda>r. (pr_id r, pr_stream_id r)) (pg_rows demo_mid) = [(1, ''t'')]" "map (\<lambda>r. (pr_id r, pr_stream_id r)) (pg_rows demo_final) = [(1, ''t''), (2, ''s'')]"
  unfolding demo_final_def demo_mid_def demo_pg_open_tx by code_simp+

lemma statement_rows:
  assumes "pg_statement hash tz fault applied k db = Some db'"
  shows "pg_rows db' = pg_rows db \<or> (\<exists>tx. tx_of db k = Some tx \<and> tx_pc tx = AtCommit \<and> pg_rows db' = pg_rows db @ tx_written tx)"
proof -
  obtain tx where tx: "tx_of db k = Some tx" using assms by (auto simp: pg_statement_def split: option.splits)
  show ?thesis
  proof (cases "tx_pc tx")
    case AtInsert
    then show ?thesis using assms tx
      by (cases fault; cases "tx_rows tx") (auto simp: pg_statement_def pg_insert_def pg_rollback_def Let_def split: if_splits)
  qed (use assms tx in \<open>auto simp: pg_statement_def pg_stream_lock_def pg_version_def pg_check_def pg_take_append_lock_def pg_commit_def pg_rollback_def
        Let_def split: option.splits if_splits\<close>)
qed

lemma save_rows: "pg_rows (pg_Save impl reg now fault k events revision db) = pg_rows db"
  by (auto simp: pg_Save_def Let_def split: list.split option.split sum.split)

lemma step_rows: "pg_step hash tz impl reg db db' \<Longrightarrow> prefix (pg_rows db) (pg_rows db')"
proof (induction rule: pg_step.induct)
  case (statement fault applied k db db')
  then show ?case using statement_rows by fastforce
qed (simp add: save_rows)

lemma steps_rows: "(pg_step hash tz impl reg)\<^sup>*\<^sup>* db db' \<Longrightarrow> prefix (pg_rows db) (pg_rows db')"
  by (induction rule: rtranclp_induct) (auto dest: step_rows intro: prefix_order.trans)

text \<open>
  (C25) No event shows up late: whatever the calls do after a reader saw the database, the rows it saw stay, and every row that becomes visible later has a
  higher position than all of them. In each stream the versions are \<open>1, 2, \<dots>\<close> without a gap.
\<close>

theorem pg_no_late_events:
  assumes "pg_reachable hash tz impl reg db" "(pg_step hash tz impl reg)\<^sup>*\<^sup>* db db'"
  shows "\<exists>new. pg_rows db' = pg_rows db @ new \<and> (\<forall>q \<in> set (pg_rows db). \<forall>r \<in> set new. pr_id q < pr_id r)
    \<and> sorted_wrt (<) (map pr_id (pg_rows db'))
    \<and> (\<forall>sid. map pr_stream_position (in_pg_stream sid (pg_rows db')) = [1..<Suc (length (in_pg_stream sid (pg_rows db')))])"
proof -
  obtain new where new: "pg_rows db' = pg_rows db @ new" using steps_rows [OF assms(2)] by (auto simp: prefix_def)
  have "rows_inv db'" by (rule pg_invD(1) [OF steps_inv [OF assms(2) reachable_inv [OF assms(1)]]])
  then show ?thesis unfolding rows_inv_def by (intro exI [of _ new]) (auto simp: new sorted_wrt_append)
qed

theorem pg_no_late_events_witness:
  "\<exists>new. pg_rows demo_final = pg_rows demo_mid @ new \<and> pg_rows demo_mid \<noteq> [] \<and> new \<noteq> [] \<and> (\<forall>q \<in> set (pg_rows demo_mid). \<forall>r \<in> set new. pr_id q < pr_id r)"
proof -
  obtain new where new: "pg_rows demo_final = pg_rows demo_mid @ new" "\<forall>q \<in> set (pg_rows demo_mid). \<forall>r \<in> set new. pr_id q < pr_id r"
    using pg_no_late_events [OF demo_mid_reachable demo_mid_steps(2)] by blast
  moreover have "length (pg_rows demo_mid) = 1" "length (pg_rows demo_final) = 2" using demo_pg_rows [THEN arg_cong [where f = length]] by simp_all
  ultimately show ?thesis by (intro exI [of _ new]) auto
qed

section \<open>Progress\<close>

text \<open>An upper bound of the statements a call still runs.\<close>

definition steps_left :: "pg_tx \<Rightarrow> nat" where
  "steps_left tx = length (tx_rows tx) +
     (case tx_pc tx of AtStreamLock \<Rightarrow> 6 | AtVersion \<Rightarrow> 5 | AtCheck \<Rightarrow> 4 | AtAppendLock \<Rightarrow> 3 | AtInsert \<Rightarrow> 2 | AtCommit \<Rightarrow> 1)"

definition pg_work :: "pg_db \<Rightarrow> nat" where
  "pg_work db = sum_list (map (steps_left \<circ> snd) (pg_txs db))"

lemma work_update: "map_of xs k = Some t \<Longrightarrow> sum_list (map (f \<circ> snd) (AList.update k t' xs)) + f t = sum_list (map (f \<circ> snd) xs) + (f t' :: nat)"
  by (induction xs) auto

lemma work_delete: "map_of xs k = Some t \<Longrightarrow> sum_list (map (f \<circ> snd) (AList.delete k xs)) + (f t :: nat) \<le> sum_list (map (f \<circ> snd) xs)"
proof (induction xs)
  case (Cons x xs)
  have "sum_list (map (f \<circ> snd) (AList.delete k xs)) \<le> sum_list (map (f \<circ> snd) xs)" by (induction xs) (auto simp: delete_simps)
  with Cons show ?case by (cases x) (auto simp: delete_simps o_def)
qed simp

lemma work_put:
  assumes "tx_of db k = Some tx" "steps_left tx' < steps_left tx" "pg_txs db1 = pg_txs db"
  shows "pg_work (put_tx k tx' db1) < pg_work db"
  using work_update [of "pg_txs db" k tx steps_left tx'] assms by (simp add: pg_work_def put_tx_def tx_of_def)

lemma work_end:
  assumes "tx_of db k = Some tx" "pg_txs db1 = pg_txs db"
  shows "pg_work (pg_end k db1) < pg_work db"
proof -
  have "0 < steps_left tx" by (simp add: steps_left_def split: pg_pc.split)
  then show ?thesis using work_delete [of "pg_txs db" k tx steps_left] assms by (simp add: pg_work_def pg_end_def tx_of_def)
qed

lemma work_return [simp]: "pg_work (pg_return k res err db) = pg_work db"
  by (simp add: pg_work_def pg_return_def)

text \<open>Every statement brings its call closer to the end; a call whose transaction ends has returned.\<close>

lemma statement_work:
  assumes "pg_statement hash tz fault applied k db = Some db'"
  shows "pg_work db' < pg_work db"
proof -
  obtain tx where tx: "tx_of db k = Some tx" using assms by (auto simp: pg_statement_def split: option.splits)
  note put = work_put [OF tx] and fin = work_end [OF tx]
  show ?thesis
  proof (cases "tx_pc tx")
    case AtInsert
    then show ?thesis using assms tx put fin
      by (cases fault; cases "tx_rows tx") (auto simp: pg_statement_def pg_insert_def pg_rollback_def steps_left_def Let_def split: if_splits)
  qed (use assms tx put fin in \<open>auto simp: pg_statement_def pg_stream_lock_def pg_version_def pg_check_def pg_take_append_lock_def pg_commit_def pg_rollback_def
        steps_left_def Let_def split: option.splits if_splits\<close>)
qed

lemma statement_returns:
  assumes "pg_statement hash tz fault applied k db = Some db'" "tx_of db j \<noteq> None" "tx_of db' j = None"
  shows "pg_done db' j \<noteq> None"
proof -
  obtain tx where tx: "tx_of db k = Some tx" using assms(1) by (auto simp: pg_statement_def split: option.splits)
  show ?thesis
  proof (cases "tx_pc tx")
    case AtInsert
    then show ?thesis using assms tx
      by (cases fault; cases "tx_rows tx") (auto simp: pg_statement_def pg_insert_def pg_rollback_def Let_def split: if_splits)
  qed (use assms tx in \<open>auto simp: pg_statement_def pg_stream_lock_def pg_version_def pg_check_def pg_take_append_lock_def pg_commit_def pg_rollback_def
        Let_def split: option.splits if_splits\<close>)
qed

lemma statement_done:
  assumes "pg_statement hash tz fault applied k db = Some db'" "pg_done db j \<noteq> None"
  shows "pg_done db' j \<noteq> None"
proof -
  obtain tx where tx: "tx_of db k = Some tx" using assms(1) by (auto simp: pg_statement_def split: option.splits)
  show ?thesis
  proof (cases "tx_pc tx")
    case AtInsert
    then show ?thesis using assms tx
      by (cases fault; cases "tx_rows tx") (auto simp: pg_statement_def pg_insert_def pg_rollback_def Let_def split: if_splits)
  qed (use assms tx in \<open>auto simp: pg_statement_def pg_stream_lock_def pg_version_def pg_check_def pg_take_append_lock_def pg_commit_def pg_rollback_def
        Let_def split: option.splits if_splits\<close>)
qed

text \<open>Whoever holds the append lock can go on; when nobody does, the holder of a stream lock can.\<close>

lemma holder_moves:
  assumes "pg_inv hash db" "tx_of db k = Some tx" "tx_pc tx \<in> {AtInsert, AtCommit}"
  shows "\<exists>db'. pg_statement hash tz None applied k db = Some db'"
proof (cases "tx_pc tx = AtCommit")
  case False
  have "\<not> list_ex (\<lambda>j. j \<noteq> k \<and> (case tx_of db j of None \<Rightarrow> False | Some other \<Rightarrow> list_ex (same_place r) (tx_written other))) ks" for r ks
    using holder_others(2) [OF assms] by (auto simp: list_ex_iff split: option.splits)
  then show ?thesis using False assms(2,3) by (cases "tx_rows tx") (auto simp: pg_statement_def pg_insert_def Let_def)
qed (use assms(2) in \<open>simp add: pg_statement_def pg_commit_def\<close>)

lemma locker_moves:
  assumes "tx_of db k = Some tx" "tx_pc tx \<in> {AtVersion, AtCheck, AtAppendLock}" "pg_append_lock db = None"
  shows "\<exists>db'. pg_statement hash tz None applied k db = Some db'"
  using assms by (auto simp: pg_statement_def pg_version_def pg_check_def pg_take_append_lock_def)

lemma pg_progress:
  assumes "pg_inv hash db" "tx_of db k = Some tx"
  shows "\<exists>j db'. pg_statement hash tz None applied j db = Some db'"
proof (cases "pg_append_lock db")
  case (Some j)
  then show ?thesis using holder_moves [OF assms(1)] assms(1) unfolding pg_inv_def by blast
next
  case None
  have moves: "\<exists>db'. pg_statement hash tz None applied j db = Some db'" if "tx_of db j = Some tx'" "tx_pc tx' \<noteq> AtStreamLock" for j tx'
    using holder_moves [OF assms(1) that(1)] locker_moves [OF that(1) _ None] that(2) by (cases "tx_pc tx'") auto
  show ?thesis
  proof (cases "tx_pc tx = AtStreamLock \<and> pg_stream_locks db (hash (tx_stream tx)) \<noteq> None")
    case True
    then obtain j tx' where "tx_of db j = Some tx'" "tx_pc tx' \<noteq> AtStreamLock" using assms(1) unfolding pg_inv_def by blast
    then show ?thesis using moves by blast
  next
    case False
    show ?thesis
    proof (cases "tx_pc tx = AtStreamLock")
      case True
      then have "\<exists>db'. pg_statement hash tz None applied k db = Some db'"
        using False assms(2) by (simp add: pg_statement_def pg_stream_lock_def Let_def)
      then show ?thesis by blast
    qed (use moves assms(2) in blast)
  qed
qed

text \<open>A run of statements of the open calls, with no new ones.\<close>

inductive pg_runs :: "(string \<Rightarrow> int) \<Rightarrow> (gotime \<Rightarrow> gotime) \<Rightarrow> nat \<Rightarrow> pg_db \<Rightarrow> pg_db \<Rightarrow> bool"
  for hash :: "string \<Rightarrow> int" and tz :: "gotime \<Rightarrow> gotime" where
  stop: "pg_runs hash tz 0 db db"
| more: "pg_statement hash tz fault applied k db = Some db1 \<Longrightarrow> pg_runs hash tz n db1 db' \<Longrightarrow> pg_runs hash tz (Suc n) db db'"

lemma runs_work: "pg_runs hash tz n db db' \<Longrightarrow> n + pg_work db' \<le> pg_work db"
  by (induction rule: pg_runs.induct) (auto dest: statement_work)

lemma runs_inv: "pg_runs hash tz n db db' \<Longrightarrow> pg_inv hash db \<Longrightarrow> pg_inv hash db'"
  by (induction rule: pg_runs.induct) (auto dest: statement_inv)

lemma runs_done: "pg_runs hash tz n db db' \<Longrightarrow> pg_done db j \<noteq> None \<Longrightarrow> pg_done db' j \<noteq> None"
  by (induction rule: pg_runs.induct) (auto dest: statement_done)

lemma runs_return:
  assumes "pg_runs hash tz n db db'" "tx_of db j \<noteq> None" "tx_of db' j = None"
  shows "pg_done db' j \<noteq> None"
  using assms
proof (induction rule: pg_runs.induct)
  case (more fault applied k db db1 n db')
  show ?case
  proof (cases "tx_of db1 j")
    case None
    then show ?thesis using statement_returns [OF more.hyps(1) more.prems(1)] runs_done [OF more.hyps(2)] by blast
  qed (use more in simp)
qed simp

text \<open>
  (C24) Two saves never deadlock, and every save returns: as long as a call has an open transaction, some call has a statement that does not wait; no run of
  statements is longer than the work the open calls have; and a call whose transaction is gone has returned a result. So every run that goes
  on as long as it can ends with all calls returned.
\<close>

theorem pg_saves_return:
  assumes "pg_reachable hash tz impl reg db" "pg_runs hash tz n db db'"
  shows "n \<le> pg_work db \<and> (pg_txs db' \<noteq> [] \<longrightarrow> (\<exists>k db''. pg_statement hash tz None applied k db' = Some db''))
    \<and> (\<forall>k. tx_of db k \<noteq> None \<and> tx_of db' k = None \<longrightarrow> pg_done db' k \<noteq> None)"
proof (intro conjI)
  show "n \<le> pg_work db" using runs_work [OF assms(2)] by simp
  have inv: "pg_inv hash db'" by (rule runs_inv [OF assms(2) reachable_inv [OF assms(1)]])
  show "pg_txs db' \<noteq> [] \<longrightarrow> (\<exists>k db''. pg_statement hash tz None applied k db' = Some db'')"
  proof
    assume "pg_txs db' \<noteq> []"
    then obtain k tx rest where "pg_txs db' = (k, tx) # rest" by (metis neq_Nil_conv prod.exhaust)
    then have "tx_of db' k = Some tx" by (simp add: tx_of_def)
    then show "\<exists>k db''. pg_statement hash tz None applied k db' = Some db''" by (rule pg_progress [OF inv])
  qed
  show "\<forall>k. tx_of db k \<noteq> None \<and> tx_of db' k = None \<longrightarrow> pg_done db' k \<noteq> None" using runs_return [OF assms(2)] by blast
qed

lemma pg_run_calls_runs: "pg_run_calls hash tz ks db = Some db' \<Longrightarrow> pg_runs hash tz (length ks) db db'"
proof (induction ks arbitrary: db)
  case (Cons k ks)
  then show ?case by (auto intro: pg_runs.more split: option.splits)
qed (simp add: pg_runs.stop)

text \<open>After the second call committed, the first can go on.\<close>

theorem pg_saves_return_witness:
  "9 \<le> pg_work demo_pg_open \<and> pg_txs demo_mid \<noteq> [] \<and> (\<exists>k db. pg_statement demo_hash id None False k demo_mid = Some db) \<and> pg_done demo_mid 2 \<noteq> None"
proof -
  have "tx_of demo_pg_open 2 \<noteq> None \<and> tx_of demo_mid 2 = None \<and> pg_txs demo_mid \<noteq> []" unfolding demo_mid_def demo_pg_open_tx by code_simp
  then show ?thesis using pg_saves_return [OF demo_pg_open_reachable pg_run_calls_runs [OF demo_mid_run], where applied = False] by simp
qed

end
