(* ===== verification/Pg_Read_Props.thy ===== *)
theory Pg_Read_Props
  imports Pg_Store_Props
begin

text \<open>
  Reading the event store on PostgreSQL: the committed rows as a log of envelopes, the rows of every call decodable, and the pages of \<open>ReadAll\<close>, which
  interpret the contract of \<open>GlobalReader\<close> although positions have holes where a transaction rolled back.
\<close>

section \<open>The log\<close>

definition pg_record :: "pg_row \<Rightarrow> ('e, 'v) mrecord" where
  "pg_record r = \<lparr>r_env = \<lparr>EventID = pr_event_id r, StreamID = pr_stream_id r, Metadata = None, CorrelationID = pr_correlation_id r,
      CausationID = pr_causation_id r, Event = None, Version = pr_stream_position r, GlobalPosition = pr_id r, OccurredAt = pr_occurred_at r\<rparr>,
     r_name = pr_event_type r, r_payload = pr_payload r, r_metadata = pr_metadata r\<rparr>"

definition row_env :: "('e, 'v) event_impl \<Rightarrow> 'e registry \<Rightarrow> pg_row \<Rightarrow> ('e, 'v) envelope" where
  "row_env impl reg r = decoded impl reg (pg_record r)"

definition pg_log :: "('e, 'v) event_impl \<Rightarrow> 'e registry \<Rightarrow> pg_db \<Rightarrow> ('e, 'v) envelope list" where
  "pg_log impl reg db = map (row_env impl reg) (pg_rows db)"

definition row_ok :: "('e, 'v) event_impl \<Rightarrow> 'e registry \<Rightarrow> pg_row \<Rightarrow> bool" where
  "row_ok impl reg r \<longleftrightarrow> record_ok impl reg (pg_record r)"

definition pg_ok :: "(string \<Rightarrow> int) \<Rightarrow> ('e, 'v) event_impl \<Rightarrow> 'e registry \<Rightarrow> pg_db \<Rightarrow> bool" where
  "pg_ok hash impl reg db \<longleftrightarrow> registry_inv impl reg \<and> json_ok impl \<and> pg_inv hash db \<and> (\<forall>r \<in> set (pg_rows db). row_ok impl reg r)
     \<and> (\<forall>k tx. tx_of db k = Some tx \<longrightarrow> (\<forall>r \<in> set (tx_written tx) \<union> set (tx_rows tx). row_ok impl reg r))"

lemma row_env_simps [simp]:
  "GlobalPosition (row_env impl reg r) = pr_id r" "Version (row_env impl reg r) = pr_stream_position r" "StreamID (row_env impl reg r) = pr_stream_id r"
  by (simp_all add: row_env_def pg_record_def)

lemma scan_row: "row_ok impl reg r \<Longrightarrow> pg_scanEnvelope impl reg r = Inr (row_env impl reg r)"
  by (auto simp: row_ok_def record_ok_def pg_scanEnvelope_def row_env_def decoded_def record_envelope_def pg_record_def)

lemma scan_all: "\<forall>r \<in> set rows. row_ok impl reg r \<Longrightarrow> pg_scan_rows impl reg rows = Inr (map (row_env impl reg) rows)"
  by (induction rows) (simp_all add: scan_row)

lemma row_ok_cong:
  "pr_event_type r = pr_event_type q \<Longrightarrow> pr_payload r = pr_payload q \<Longrightarrow> pr_metadata r = pr_metadata q \<Longrightarrow> row_ok impl reg r = row_ok impl reg q"
  by (simp add: row_ok_def record_ok_def pg_record_def)

lemma encoded_rows_ok:
  assumes "registry_inv impl reg" "json_ok impl" "pg_encode_rows impl reg now i envs = Inr rows"
  shows "\<forall>r \<in> set rows. row_ok impl reg r"
  using assms(3)
proof (induction envs arbitrary: i rows)
  case (Cons env envs)
  obtain payload metadata rs where e: "EncodeEvent impl reg (Event env) = Inr payload" "EncodeMetadata impl (Metadata env) = Inr metadata"
    and rs: "pg_encode_rows impl reg now (Suc i) envs = Inr rs" using Cons.prems by (auto simp: Let_def split: sum.splits)
  obtain ev where "Event env = Some ev" "DecodeEvent impl reg (EventType impl ev) payload = Inr ev" using encode_decode [OF assms(1,2) e(1)] by blast
  then show ?case using Cons.IH [OF rs] Cons.prems e rs EncodeMetadata_roundtrip [OF assms(2) e(2)]
    by (auto simp: Let_def row_ok_def record_ok_def pg_record_def)
qed simp

text \<open>Steps keep every row decodable.\<close>

definition tx_decodes :: "('e, 'v) event_impl \<Rightarrow> 'e registry \<Rightarrow> pg_db \<Rightarrow> bool" where
  "tx_decodes impl reg db \<longleftrightarrow> (\<forall>k tx. tx_of db k = Some tx \<longrightarrow> (\<forall>r \<in> set (tx_written tx) \<union> set (tx_rows tx). row_ok impl reg r))"

lemma tx_decodesD: "tx_decodes impl reg db \<Longrightarrow> tx_of db k = Some tx \<Longrightarrow> r \<in> set (tx_written tx) \<union> set (tx_rows tx) \<Longrightarrow> row_ok impl reg r"
  unfolding tx_decodes_def by blast

lemma decodes_return [simp]: "tx_decodes impl reg (pg_return k res err db) = tx_decodes impl reg db"
  by (simp add: tx_decodes_def)

lemma decodes_rollback: "tx_decodes impl reg db \<Longrightarrow> pg_txs db1 = pg_txs db \<Longrightarrow> tx_decodes impl reg (pg_rollback k tx e db1)"
  by (auto simp: tx_decodes_def pg_rollback_def tx_of_def pg_return_def pg_end_def delete_conv' split: if_splits)

lemma decodes_put:
  assumes "tx_decodes impl reg db" "pg_txs db1 = pg_txs db" "\<forall>r \<in> set (tx_written tx) \<union> set (tx_rows tx). row_ok impl reg r"
  shows "tx_decodes impl reg (put_tx k tx db1)"
  using assms by (auto simp: tx_decodes_def tx_of_def put_tx_def update_conv' split: if_splits)

lemma statement_decodes:
  assumes "tx_decodes impl reg db" "pg_statement hash tz fault applied k db = Some db'"
  shows "tx_decodes impl reg db'"
proof -
  obtain tx where tx: "tx_of db k = Some tx" using assms(2) by (auto simp: pg_statement_def split: option.splits)
  note rows = tx_decodesD [OF assms(1) tx] and rb = decodes_rollback [OF assms(1)] and put = decodes_put [OF assms(1)]
  show ?thesis
  proof (cases "tx_pc tx")
    case AtInsert
    show ?thesis
    proof (cases "tx_rows tx")
      case Nil
      then show ?thesis using assms(2) tx rows AtInsert by (auto simp: pg_statement_def pg_insert_def intro!: put)
    next
      case (Cons r rs)
      have "row_ok impl reg (inserted_row tz tx db r)"
        using rows [of r] Cons row_ok_cong [of "inserted_row tz tx db r" r impl reg] by (simp add: inserted_row_def)
      moreover have "pg_insert tz fault applied k tx db = Some db'" using assms(2) tx AtInsert by (simp add: pg_statement_def)
      ultimately show ?thesis using Cons rows by (elim insert_cases) (auto intro!: put rb)
    qed
  next
    case AtCommit
    have "tx_decodes impl reg (pg_end k (pg_apply tx db))" "tx_decodes impl reg (pg_end k db)"
      using assms(1) by (auto simp: tx_decodes_def split: if_splits)
    moreover have "pg_commit fault applied k tx db = Some db'" using assms(2) tx AtCommit by (simp add: pg_statement_def)
    ultimately show ?thesis by (elim pg_commit_cases) (simp_all add: pg_rollback_def)
  qed (use assms tx rows rb put in \<open>auto simp: pg_statement_def pg_stream_lock_def pg_version_def pg_check_def pg_take_append_lock_def
        Let_def split: option.splits if_splits\<close>)
qed

lemma save_decodes:
  assumes "registry_inv impl reg" "json_ok impl" "tx_decodes impl reg db"
  shows "tx_decodes impl reg (pg_Save impl reg now fault k events revision db)"
proof -
  have "tx_decodes impl reg (pg_return k res err db)" for res err using assms(3) by (simp add: tx_decodes_def)
  moreover have "tx_decodes impl reg (put_tx k \<lparr>tx_stream = sid, tx_revision = revision, tx_events = length events, tx_rows = rows, tx_index = 0, tx_version = 0,
                   tx_lastID = 0, tx_written = [], tx_pc = AtStreamLock\<rparr> db)" if "pg_encode_rows impl reg now 0 events = Inr rows" for rows sid
    using encoded_rows_ok [OF assms(1,2) that] by (intro decodes_put [OF assms(3)]) simp_all
  ultimately show ?thesis by (auto simp: pg_Save_def Let_def split: list.split option.split sum.split)
qed

lemma pg_ok_step:
  assumes "pg_ok hash impl reg db" "pg_step hash tz impl reg db db'"
  shows "pg_ok hash impl reg db'"
proof -
  have "tx_decodes impl reg db" and base: "registry_inv impl reg" "json_ok impl" and rows: "\<forall>r \<in> set (pg_rows db). row_ok impl reg r"
    using assms(1) by (simp_all add: pg_ok_def tx_decodes_def)
  from assms(2) have "tx_decodes impl reg db' \<and> (\<forall>r \<in> set (pg_rows db'). row_ok impl reg r)"
  proof cases
    case (call k now fault events revision)
    show ?thesis unfolding call(1) save_rows using save_decodes [OF base \<open>tx_decodes impl reg db\<close>] rows by blast
  next
    case (statement fault applied k)
    show ?thesis using statement_decodes [OF \<open>tx_decodes impl reg db\<close> statement] statement_rows [OF statement] rows tx_decodesD [OF \<open>tx_decodes impl reg db\<close>] by auto
  qed
  then show ?thesis using assms base step_inv [OF assms(2)] by (simp add: pg_ok_def tx_decodes_def)
qed

lemma pg_ok_steps: "(pg_step hash tz impl reg)\<^sup>*\<^sup>* db db' \<Longrightarrow> pg_ok hash impl reg db \<Longrightarrow> pg_ok hash impl reg db'"
  by (induction rule: rtranclp_induct) (auto dest: pg_ok_step)

lemma pg_ok_init: "registry_inv impl reg \<Longrightarrow> json_ok impl \<Longrightarrow> pg_ok hash impl reg Schema_pg"
  using pg_inv_init by (simp add: pg_ok_def) (simp add: Schema_pg_def tx_of_def)

section \<open>Pages\<close>

text \<open>A page of an ascending log: at most \<open>limit\<close> selected events after a position.\<close>

definition log_head :: "('e, 'v) envelope list \<Rightarrow> uint64" where
  "log_head L = (if L = [] then 0 else GlobalPosition (last L))"

definition position_page :: "(('e, 'v) envelope \<Rightarrow> bool) \<Rightarrow> nat \<Rightarrow> uint64 \<Rightarrow> ('e, 'v) envelope list \<Rightarrow> ('e, 'v) read_result" where
  "position_page sel limit after L =
     (let s = filter (\<lambda>e. after < GlobalPosition e \<and> sel e) L;
          nxt = (if limit \<le> length s then GlobalPosition (s ! (limit - 1)) else max after (log_head L))
      in \<lparr>rr_Events = take limit s, rr_Next = nxt, rr_AtEnd = (log_head L \<le> nxt)\<rparr>)"

lemma ascending_last:
  assumes "sorted_wrt (<) (map GlobalPosition L)" "e \<in> set L"
  shows "GlobalPosition e \<le> log_head L" "log_head L \<in> GlobalPosition ` set L"
proof -
  obtain xs x where L: "L = xs @ [x]" using assms(2) by (metis empty_iff list.set(1) rev_exhaust)
  then show "GlobalPosition e \<le> log_head L" using assms by (auto simp: log_head_def sorted_wrt_append)
  show "log_head L \<in> GlobalPosition ` set L" by (simp add: L log_head_def)
qed

lemma position_page_laws:
  assumes asc: "sorted_wrt (<) (map GlobalPosition L)" and "0 < limit" and res: "res = position_page sel limit after L"
  shows "rr_Events res = filter (\<lambda>e. after < GlobalPosition e \<and> GlobalPosition e \<le> rr_Next res \<and> sel e) L"
    and "rr_Next res = after \<or> after < rr_Next res \<and> rr_Next res \<in> GlobalPosition ` set L"
    and "rr_AtEnd res \<longleftrightarrow> (\<forall>e \<in> set L. GlobalPosition e \<le> rr_Next res)"
    and "\<not> rr_AtEnd res \<Longrightarrow> after < rr_Next res" and "length (rr_Events res) \<le> limit"
proof -
  let ?s = "filter (\<lambda>e. after < GlobalPosition e \<and> sel e) L"
  have ascs: "sorted_wrt (<) (map GlobalPosition ?s)" using asc by (simp add: sorted_wrt_map sorted_wrt_filter)
  have at: "?s ! (limit - 1) \<in> set ?s" if "limit \<le> length ?s" using that assms(2) by (intro nth_mem) simp
  have cut: "filter (\<lambda>e. GlobalPosition e \<le> n) ?s = filter (\<lambda>e. after < GlobalPosition e \<and> GlobalPosition e \<le> n \<and> sel e) L" for n
    by (auto simp: filter_filter intro: filter_cong)
  show "rr_Events res = filter (\<lambda>e. after < GlobalPosition e \<and> GlobalPosition e \<le> rr_Next res \<and> sel e) L"
  proof (cases "limit \<le> length ?s")
    case True
    then have "take limit ?s = filter (\<lambda>e. GlobalPosition e \<le> GlobalPosition (?s ! (limit - 1))) ?s"
      using take_ascending [OF ascs, of "limit - 1"] assms(2) by simp
    also have "\<dots> = filter (\<lambda>e. after < GlobalPosition e \<and> GlobalPosition e \<le> GlobalPosition (?s ! (limit - 1)) \<and> sel e) L" by (rule cut)
    finally show ?thesis using True by (simp add: res position_page_def Let_def)
  next
    case False
    have "filter (\<lambda>e. after < GlobalPosition e \<and> GlobalPosition e \<le> max after (log_head L) \<and> sel e) L = ?s"
      using ascending_last(1) [OF asc] by (intro filter_cong refl) (simp add: le_max_iff_disj)
    then show ?thesis using False by (simp add: res position_page_def Let_def)
  qed
  show "rr_Next res = after \<or> after < rr_Next res \<and> rr_Next res \<in> GlobalPosition ` set L"
  proof (cases "limit \<le> length ?s")
    case True
    then show ?thesis using at by (simp add: res position_page_def Let_def)
  next
    case False
    have "log_head L \<in> GlobalPosition ` set L" if "after < log_head L"
      using that ascending_last(2) [OF asc] by (cases L) (auto simp: log_head_def)
    then show ?thesis using False by (auto simp: res position_page_def Let_def max_def)
  qed
  have all: "(\<forall>e \<in> set L. GlobalPosition e \<le> n) \<longleftrightarrow> log_head L \<le> n" for n
  proof (cases L)
    case (Cons x xs)
    then show ?thesis using ascending_last [OF asc, of x] ascending_last(1) [OF asc] by fastforce
  qed (simp add: log_head_def)
  show "rr_AtEnd res \<longleftrightarrow> (\<forall>e \<in> set L. GlobalPosition e \<le> rr_Next res)" unfolding all by (simp add: res position_page_def Let_def)
  show "\<not> rr_AtEnd res \<Longrightarrow> after < rr_Next res" using at by (auto simp: res position_page_def Let_def split: if_splits)
  show "length (rr_Events res) \<le> limit" by (simp add: res position_page_def Let_def)
qed

lemma foldr_max_ascending: "sorted_wrt (<) xs \<Longrightarrow> foldr max xs (0::nat) = (if xs = [] then 0 else last xs)"
proof (induction xs)
  case (Cons x xs)
  then show ?case by (cases "xs = []") (simp_all add: max_absorb2 less_imp_le)
qed simp

lemma pg_log_ascending: "pg_inv hash db \<Longrightarrow> sorted_wrt (<) (map GlobalPosition (pg_log impl reg db))"
  using pg_invD(1) [of hash db] by (simp add: pg_log_def rows_inv_def o_def)

lemma pg_Head_log: "pg_inv hash db \<Longrightarrow> pg_Head None db = Inr (log_head (pg_log impl reg db))"
  using pg_invD(1) [of hash db] by (simp add: pg_Head_def rows_inv_def foldr_max_ascending log_head_def pg_log_def last_map)

lemma pg_select_id:
  assumes "pg_inv hash db"
  shows "pg_select P pr_id db = filter P (pg_rows db)"
proof -
  have "sorted (map pr_id (pg_rows db))" using pg_invD(1) [OF assms] by (auto simp: rows_inv_def intro: strict_sorted_imp_sorted)
  then show ?thesis by (simp add: pg_select_def sort_key_sorted sorted_filter_map)
qed

lemma pg_matches_selects: "row_ok impl reg r \<Longrightarrow> pg_matches opts r \<longleftrightarrow> selects impl opts (row_env impl reg r)"
  by (auto simp: row_ok_def record_ok_def pg_matches_def selects_def row_env_def decoded_def record_envelope_def pg_record_def list_ex_iff)

lemma pg_query_Inr:
  assumes "\<forall>r \<in> set rows. row_ok impl reg r" "pg_query impl reg q rows = Inr envs"
  shows "envs = map (row_env impl reg) rows"
proof -
  have "pg_scan_rows impl reg (take m rows) = Inr (map (row_env impl reg) (take m rows))" for m
    by (rule scan_all) (use assms(1) in \<open>auto dest: in_set_takeD\<close>)
  then show ?thesis using assms scan_all [OF assms(1)] by (auto simp: pg_query_def split: option.splits prod.splits)
qed

text \<open>The rows of a page: what commits after the head was read does not show.\<close>

lemma pg_page_rows:
  assumes ok: "pg_ok hash impl reg db" "pg_ok hash impl reg db'" and ext: "pg_rows db' = pg_rows db @ new"
  shows "map (row_env impl reg) (pg_select (\<lambda>r. after < pr_id r \<and> pr_id r \<le> log_head (pg_log impl reg db) \<and> pg_matches opts r) pr_id db')
    = filter (\<lambda>e. after < GlobalPosition e \<and> selects impl opts e) (pg_log impl reg db)"
proof -
  let ?h = "log_head (pg_log impl reg db)" and ?L = "pg_log impl reg db"
  have inv: "pg_inv hash db" "pg_inv hash db'" and rows: "\<forall>r \<in> set (pg_rows db). row_ok impl reg r" using ok by (simp_all add: pg_ok_def)
  have below: "pr_id r \<le> ?h" if "r \<in> set (pg_rows db)" for r
    using ascending_last(1) [OF pg_log_ascending [OF inv(1)], of "row_env impl reg r" impl reg] that by (simp add: pg_log_def)
  have above: "?h < pr_id r" if "r \<in> set new" for r
  proof (cases "pg_rows db = []")
    case True
    then show ?thesis using pg_invD(1) [OF inv(2)] that by (simp add: pg_log_def log_head_def rows_inv_def ext)
  next
    case False
    then have "pr_id (last (pg_rows db)) < pr_id r"
      using pg_invD(1) [OF inv(2)] that by (auto simp: rows_inv_def ext sorted_wrt_append)
    then show ?thesis using False by (simp add: log_head_def pg_log_def last_map)
  qed
  have none: "filter (\<lambda>r. after < pr_id r \<and> pr_id r \<le> ?h \<and> pg_matches opts r) new = []" by (auto simp: filter_empty_conv dest: above)
  have "filter (\<lambda>r. after < pr_id r \<and> pr_id r \<le> ?h \<and> pg_matches opts r) (pg_rows db)
      = filter (\<lambda>r. after < GlobalPosition (row_env impl reg r) \<and> selects impl opts (row_env impl reg r)) (pg_rows db)"
    using below rows by (intro filter_cong refl) (auto simp: pg_matches_selects [of impl reg])
  then show ?thesis unfolding pg_select_id [OF inv(2)] ext filter_append none by (simp add: pg_log_def filter_map o_def)
qed

lemma pg_ReadAll_page:
  assumes ok: "pg_ok hash impl reg db" "pg_ok hash impl reg db'" and ext: "pg_rows db' = pg_rows db @ new" and after: "int after \<le> max_int64"
  shows "pg_ReadAll impl reg herr q db db' after opts = Inr res \<Longrightarrow> res = position_page (selects impl opts) (page_limit opts) after (pg_log impl reg db)"
    and "\<exists>res. pg_ReadAll impl reg None no_fault db db' after opts = Inr res"
proof -
  let ?L = "pg_log impl reg db" and ?limit = "page_limit opts"
  let ?rows = "pg_select (\<lambda>r. after < pr_id r \<and> pr_id r \<le> log_head ?L \<and> pg_matches opts r) pr_id db'"
  let ?s = "filter (\<lambda>e. after < GlobalPosition e \<and> selects impl opts e) ?L"
  have inv: "pg_inv hash db" and rows: "\<forall>r \<in> set (pg_rows db'). row_ok impl reg r" using ok by (simp_all add: pg_ok_def)
  note head = pg_Head_log [OF inv, of impl reg]
  have lim: "(if ro_Limit opts \<le> 0 then 500 else nat (ro_Limit opts)) = ?limit" "0 < ?limit" by (simp_all add: page_limit_def)
  have sub: "\<forall>r \<in> set (take ?limit ?rows). row_ok impl reg r" using rows by (auto simp: pg_select_def dest: in_set_takeD)
  have tk: "map (row_env impl reg) (take ?limit ?rows) = take ?limit ?s" unfolding take_map [symmetric] pg_page_rows [OF ok ext] ..
  have lst: "last (take ?limit ?s) = ?s ! (?limit - 1)" if "length (take ?limit ?s) = ?limit"
    using that lim(2) by (subst last_conv_nth) (auto simp: min_def split: if_splits)
  have none: "?s = []" if "log_head ?L \<le> after" using ascending_last(1) [OF pg_log_ascending [OF inv, of impl reg]] that by (fastforce simp: filter_empty_conv)
  show "res = position_page (selects impl opts) ?limit after ?L" if rd: "pg_ReadAll impl reg herr q db db' after opts = Inr res"
  proof -
    have herr: "herr = None" using rd after by (auto simp: pg_ReadAll_def pg_Head_def Let_def split: option.splits)
    show ?thesis
    proof (cases "log_head ?L \<le> after")
      case True
      then show ?thesis using rd after herr lim(2) none [OF True] by (simp add: pg_ReadAll_def head position_page_def Let_def max_def)
    next
      case False
      obtain envs where envs: "pg_query impl reg q (take ?limit ?rows) = Inr envs"
        using rd after herr False by (auto simp: pg_ReadAll_def lim(1) head Let_def split: sum.splits)
      have e: "envs = take ?limit ?s" using pg_query_Inr [OF sub envs] tk by simp
      show ?thesis using rd [unfolded pg_ReadAll_def herr lim(1) head] after False envs lst
        by (auto simp: position_page_def Let_def e split: if_splits)
    qed
  qed
  show "\<exists>res. pg_ReadAll impl reg None no_fault db db' after opts = Inr res"
    using after scan_all [OF sub] unfolding pg_ReadAll_def lim(1) head by (auto simp: pg_query_def no_fault_def Let_def)
qed

interpretation pglog: global_log
  "\<lambda>db after opts. pg_ReadAll impl reg None no_fault db db after opts" "\<lambda>db. projr (pg_Head None db)"
  "pg_ok hash impl reg" "pg_log impl reg" "selects impl" "\<lambda>p. int p \<le> max_int64"
  for impl :: "('e, 'v) event_impl" and reg :: "'e registry" and hash
proof
  fix s :: pg_db and after opts and res :: "('e, 'v) read_result"
  assume ok: "pg_ok hash impl reg s"
  let ?L = "pg_log impl reg s"
  have inv: "pg_inv hash s" using ok by (simp add: pg_ok_def)
  show asc: "sorted_wrt (<) (map GlobalPosition ?L)" by (rule pg_log_ascending [OF inv])
  show "projr (pg_Head None s) = (if ?L = [] then 0 else GlobalPosition (last ?L))"
    by (simp add: pg_Head_log [OF inv, of impl reg] log_head_def)
  show "\<exists>res. pg_ReadAll impl reg None no_fault s s after opts = Inr res" if "int after \<le> max_int64"
    by (rule pg_ReadAll_page(2) [OF ok ok _ that, of "[]"]) simp
  show "0 < GlobalPosition env" "int (GlobalPosition env) \<le> max_int64" if "env \<in> set ?L" for env
    using that pg_invD(1) [OF inv] by (fastforce simp: pg_log_def rows_inv_def)+
  assume rd: "pg_ReadAll impl reg None no_fault s s after opts = Inr res"
  have "int after \<le> max_int64" using rd by (simp add: pg_ReadAll_def split: if_splits)
  then have res: "res = position_page (selects impl opts) (page_limit opts) after ?L"
    using pg_ReadAll_page(1) [OF ok ok _ _ rd, of "[]"] by simp
  note laws = position_page_laws [OF asc page_limit_pos res]
  show "rr_Events res = filter (\<lambda>e. after < GlobalPosition e \<and> GlobalPosition e \<le> rr_Next res \<and> selects impl opts e) ?L" by (rule laws)
  show "rr_Next res = after \<or> after < rr_Next res \<and> rr_Next res \<in> GlobalPosition ` set ?L" by (rule laws)
  show "rr_AtEnd res \<longleftrightarrow> (\<forall>e \<in> set ?L. GlobalPosition e \<le> rr_Next res)" by (rule laws)
  show "\<not> rr_AtEnd res \<Longrightarrow> after < rr_Next res" by (rule laws)
  show "0 < ro_Limit opts \<Longrightarrow> length (rr_Events res) \<le> nat (ro_Limit opts)" using laws(5) by (simp add: page_limit_def)
qed

section \<open>Loading\<close>

text \<open>Reading the rows of a query to their end, also when the context is cancelled or the connection fails on the way. The error of a lost connection is
  no \<open>io.EOF\<close>: the driver makes it \<open>io.ErrUnexpectedEOF\<close>.\<close>

definition no_eof :: "query_fault \<Rightarrow> bool" where
  "no_eof q \<longleftrightarrow> (\<forall>m err. qf_rows q = Some (m, err) \<longrightarrow> \<not> errors_Is err IoEOF)"

definition row_cursor :: "('e, 'v) event_impl \<Rightarrow> 'e registry \<Rightarrow> query_fault \<Rightarrow> pg_row list \<Rightarrow> (nat, ('e, 'v) envelope) iterator \<Rightarrow> bool" where
  "row_cursor impl reg q rows it \<longleftrightarrow> it_next it = pg_next_row impl reg q rows \<and> it_close it = Some (\<lambda>i. (None, i)) \<and> \<not> it_done it
     \<and> it_err it = None \<and> it_closeErr it = None"

lemma rows_Values:
  assumes "row_cursor impl reg q rows it" "\<forall>r \<in> set rows. row_ok impl reg r" "no_eof q" "length rows - it_src it < fuel"
  shows "\<exists>ys zs it'. Values fuel (\<lambda>xs v. (True, xs @ [v])) acc it = Some (acc @ map Some ys, it')
    \<and> drop (it_src it) (map (row_env impl reg) rows) = ys @ zs \<and> (Err it' = None \<longrightarrow> zs = [])
    \<and> ((\<forall>k. it_ctx it k = None) \<and> qf_rows q = None \<longrightarrow> Err it' = None)"
  using assms(1,4)
proof (induction fuel arbitrary: acc it)
  case (Suc fuel)
  note cur = Suc.prems(1) [unfolded row_cursor_def]
  let ?n = "case qf_rows q of None \<Rightarrow> length rows | Some (m, _) \<Rightarrow> min m (length rows)" and ?i = "it_src it"
  let ?rest = "drop ?i (map (row_env impl reg) rows)"
  consider (cancelled) err where "it_ctx it (it_tick it) = Some err" | (ended) "it_ctx it (it_tick it) = None" "?n \<le> ?i" | (row) "it_ctx it (it_tick it) = None" "?i < ?n"
    by (cases "it_ctx it (it_tick it)") force+
  then show ?case
  proof cases
    case cancelled
    then show ?thesis using cur
      by (intro exI [of _ "[]"] exI [of _ ?rest]) (auto simp: Next_def finish_def Close_def Err_def Let_def)
  next
    case ended
    show ?thesis
    proof (cases "qf_rows q")
      case None
      then show ?thesis using cur ended
        by (intro exI [of _ "[]"] exI [of _ ?rest]) (auto simp: Next_def finish_def Close_def Err_def pg_next_row_def Let_def)
    next
      case (Some f)
      then show ?thesis using cur ended assms(3)
        by (cases f; intro exI [of _ "[]"] exI [of _ ?rest]) (auto simp: Next_def finish_def Close_def Err_def pg_next_row_def no_eof_def Let_def)
    qed
  next
    case row
    then have i: "?i < length rows" by (auto split: option.splits prod.splits)
    let ?e = "row_env impl reg (rows ! ?i)"
    let ?it = "it\<lparr>it_tick := Suc (it_tick it), it_src := Suc ?i, it_current := Some ?e\<rparr>"
    have nxt: "Next it = (True, ?it)" using cur row i scan_row [of impl reg "rows ! ?i"] assms(2) by (simp add: Next_def pg_next_row_def Let_def)
    have "row_cursor impl reg q rows ?it" "length rows - it_src ?it < fuel" using cur Suc.prems(2) i by (simp_all add: row_cursor_def)
    from Suc.IH [OF this, of "acc @ [Some ?e]"] obtain ys zs it' where *: "Values fuel (\<lambda>xs v. (True, xs @ [v])) (acc @ [Some ?e]) ?it = Some ((acc @ [Some ?e]) @ map Some ys, it')"
      "drop (it_src ?it) (map (row_env impl reg) rows) = ys @ zs" "Err it' = None \<longrightarrow> zs = []" "(\<forall>k. it_ctx ?it k = None) \<and> qf_rows q = None \<longrightarrow> Err it' = None"
      by (elim exE conjE)
    have "?rest = ?e # drop (Suc ?i) (map (row_env impl reg) rows)" using i Cons_nth_drop_Suc [of ?i "map (row_env impl reg) rows"] by simp
    with nxt * show ?thesis by (intro exI [of _ "?e # ys"] exI [of _ zs] exI [of _ it']) (simp add: Value_def)
  qed
qed simp

lemma queryRows_All:
  assumes "pg_queryRows impl reg q ctx rows = Inr it" "\<forall>r \<in> set rows. row_ok impl reg r" "no_eof q" "length rows < fuel"
  shows "\<exists>envs err. All fuel it = Some (map Some envs, err) \<and> prefix envs (map (row_env impl reg) rows) \<and> (err = None \<longrightarrow> envs = map (row_env impl reg) rows)
    \<and> ((\<forall>k. ctx k = None) \<and> qf_rows q = None \<longrightarrow> err = None)"
proof -
  have it: "it = NewIteratorFunc ctx (pg_next_row impl reg q rows) (Some (\<lambda>i. (None, i))) 0" using assms(1) by (auto simp: pg_queryRows_def split: option.splits)
  have "row_cursor impl reg q rows it" "length rows - it_src it < fuel" "it_src it = 0" "it_ctx it = ctx"
    using assms(4) by (simp_all add: it row_cursor_def NewIteratorFunc_def)
  note cur = this
  obtain ys zs it' where
    "Values fuel (\<lambda>xs v. (True, xs @ [v])) [] it = Some ([] @ map Some ys, it')" "drop 0 (map (row_env impl reg) rows) = ys @ zs" "Err it' = None \<longrightarrow> zs = []"
    "(\<forall>k. ctx k = None) \<and> qf_rows q = None \<longrightarrow> Err it' = None"
    using rows_Values [OF cur(1) assms(2,3) cur(2), of "[]"] unfolding cur(3,4) by (elim exE conjE)
  then show ?thesis by (intro exI [of _ ys] exI [of _ "Err it'"]) (auto simp: All_def)
qed

definition pg_history :: "('e, 'v) event_impl \<Rightarrow> 'e registry \<Rightarrow> pg_db \<Rightarrow> string \<Rightarrow> ('e, 'v) envelope list" where
  "pg_history impl reg db sid = map (row_env impl reg) (in_pg_stream sid (pg_rows db))"

lemma pg_select_position:
  assumes "pg_inv hash db" "\<And>r. P r \<Longrightarrow> pr_stream_id r = sid"
  shows "pg_select P pr_stream_position db = filter P (pg_rows db)"
proof -
  have "map pr_stream_position (in_pg_stream sid (pg_rows db)) = [1..<Suc (length (in_pg_stream sid (pg_rows db)))]"
    using pg_invD(1) [OF assms(1)] unfolding rows_inv_def by blast
  then have "sorted (map pr_stream_position (in_pg_stream sid (pg_rows db)))" by (simp del: upt_Suc)
  then have "sorted (map pr_stream_position (filter P (in_pg_stream sid (pg_rows db))))" by (rule sorted_filter_map)
  moreover have "filter P (in_pg_stream sid (pg_rows db)) = filter P (pg_rows db)" unfolding in_pg_stream_def using assms(2) by (auto simp: filter_filter intro: filter_cong)
  ultimately show ?thesis by (simp add: pg_select_def sort_key_sorted)
qed

lemma pg_rows_after:
  assumes "pg_inv hash db"
  shows "filter (\<lambda>r. pr_stream_id r = sid \<and> n < pr_stream_position r) (pg_rows db) = drop n (in_pg_stream sid (pg_rows db))"
proof -
  have "map pr_stream_position (in_pg_stream sid (pg_rows db)) = [1..<Suc (length (in_pg_stream sid (pg_rows db)))]"
    using pg_invD(1) [OF assms] unfolding rows_inv_def by blast
  from filter_above [OF this, of n] show ?thesis by (simp add: in_pg_stream_def filter_filter conj_commute)
qed

text \<open>The rows a load selects.\<close>

lemma load_rows:
  assumes "pg_inv hash db'" "\<And>n. st \<noteq> OtherState n" "pg_LoadStreamFrom impl reg fault q ctx db db' sid st = Inr (Inr it)" "st \<noteq> NoStream"
  shows "pg_queryRows impl reg q ctx (drop (load_start st) (in_pg_stream sid (pg_rows db'))) = Inr it"
proof -
  note sel = pg_select_position [OF assms(1), of _ sid]
  show ?thesis
  proof (cases st)
    case (Revision r)
    then show ?thesis using assms(3) sel [of "\<lambda>x. pr_stream_id x = sid \<and> r < pr_stream_position x"] pg_rows_after [OF assms(1), of sid r]
      by (auto simp: pg_LoadStreamFrom_def ToRawInt64_def load_start_def Let_def split: if_splits)
  qed (use assms(2-4) sel [of "\<lambda>x. pr_stream_id x = sid"] in
      \<open>auto simp: pg_LoadStreamFrom_def load_start_def in_pg_stream_def Let_def split: sum.splits if_splits bool.splits\<close>)
qed

text \<open>
  (C26) A load delivers its stream: reading the iterator of \<open>LoadStreamFrom\<close> to its end gives a beginning of what the stream holds after the revision, in order, when the rows are
  selected (for \<open>NoStream\<close>, when the stream is looked up), while other calls run; all of it when no error is reported, and none is when
  the context stays live and the connection does not fail.
\<close>

theorem pg_load_delivers_stream:
  assumes "registry_inv impl reg" "json_ok impl" "pg_reachable hash tz impl reg db" "(pg_step hash tz impl reg)\<^sup>*\<^sup>* db db'" "no_eof q" "\<And>n. st \<noteq> OtherState n"
    and "pg_LoadStreamFrom impl reg fault q ctx db db' sid st = Inr (Inr it)"
    and "h = drop (load_start st) (pg_history impl reg (if st = NoStream then db else db') sid)"
  shows "\<exists>envs err. All (Suc (length (pg_rows db'))) it = Some (map Some envs, err) \<and> prefix envs h \<and> (err = None \<longrightarrow> envs = h)
    \<and> ((\<forall>k. ctx k = None) \<and> qf_rows q = None \<longrightarrow> err = None)"
proof (cases "st = NoStream")
  case True
  then have it: "it = NewSliceIterator ctx []" "\<not> list_ex (\<lambda>r. pr_stream_id r = sid) (pg_rows db)"
    using assms(7) by (auto simp: pg_LoadStreamFrom_def pg_exists_def Let_def split: option.splits bool.splits)
  then have h: "h = []" using True assms(8) by (auto simp: pg_history_def in_pg_stream_def load_start_def filter_empty_conv list_ex_iff)
  obtain ys zs err where "All (Suc (length (pg_rows db'))) (NewSliceIterator ctx ([] :: ('a, 'b) envelope list)) = Some (map Some ys, err)" "[] = ys @ zs"
    "(\<forall>k. ctx k = None) \<longrightarrow> zs = [] \<and> err = None" by (rule slice_All_ctx [of "[]" "Suc (length (pg_rows db'))" ctx]) auto
  then show ?thesis by (auto simp: it(1) h)
next
  case False
  have "pg_ok hash impl reg db'" using pg_ok_steps [OF rtranclp_trans [OF assms(3) [unfolded pg_reachable_def] assms(4)]] pg_ok_init [OF assms(1,2)] by blast
  then have inv: "pg_inv hash db'" and rows: "\<forall>r \<in> set (pg_rows db'). row_ok impl reg r" by (simp_all add: pg_ok_def)
  let ?rows = "drop (load_start st) (in_pg_stream sid (pg_rows db'))"
  have ok: "\<forall>r \<in> set ?rows. row_ok impl reg r" using rows by (auto simp: in_pg_stream_def dest!: in_set_dropD)
  have "length ?rows < Suc (length (pg_rows db'))" by (simp add: in_pg_stream_def less_Suc_eq_le le_diff_conv trans_le_add1)
  from queryRows_All [OF load_rows [OF inv assms(6,7) False] ok assms(5) this] show ?thesis
    using False assms(8) by (simp add: pg_history_def drop_map)
qed

text \<open>A load of the second database, looked up in the first.\<close>

theorem pg_load_delivers_stream_witness:
  "\<exists>it envs err. pg_LoadStreamFrom demo_impl demo_reg None no_fault (\<lambda>_. None) demo_mid demo_final ''s'' Any = Inr (Inr it)
     \<and> All (Suc (length (pg_rows demo_final))) it = Some (map Some envs, err) \<and> envs = pg_history demo_impl demo_reg demo_final ''s''"
proof -
  obtain it where it: "pg_LoadStreamFrom demo_impl demo_reg None no_fault (\<lambda>_. None) demo_mid demo_final ''s'' Any = Inr (Inr it)"
    by (simp add: pg_LoadStreamFrom_def pg_queryRows_def no_fault_def)
  have q: "no_eof no_fault" "qf_rows no_fault = None" by (simp_all add: no_eof_def no_fault_def)
  obtain envs err where "All (Suc (length (pg_rows demo_final))) it = Some (map Some envs, err)"
    "err = None \<longrightarrow> envs = drop (load_start Any) (pg_history demo_impl demo_reg (if Any = NoStream then demo_mid else demo_final) ''s'')" "err = None"
    using pg_load_delivers_stream [OF demo_registry_inv demo_json_ok demo_mid_reachable demo_mid_steps(2) q(1) _ it refl] q(2) by blast
  then show ?thesis using it by (auto simp: load_start_def)
qed

text \<open>\<open>LoadStream\<close> is \<open>LoadStreamFrom\<close> of a stream that exists, and \<open>LoadCorrelation\<close> delivers the events of a correlation in the order of the log.\<close>

lemma pg_LoadStream_from:
  "pg_LoadStream impl reg fault q ctx db db' sid = Inr it \<longleftrightarrow> pg_LoadStreamFrom impl reg fault q ctx db db' sid StreamExists = Inr (Inr it)"
  by (auto simp: pg_LoadStream_def pg_LoadStreamFrom_def Let_def split: sum.splits bool.splits)

lemma pg_correlation_delivers:
  assumes "pg_ok hash impl reg db" "no_eof q" "pg_LoadCorrelation impl reg q ctx db cid = Inr it"
  shows "\<exists>envs err. All (Suc (length (pg_rows db))) it = Some (map Some envs, err)
    \<and> prefix envs (filter (\<lambda>e. CorrelationID e = cid) (pg_log impl reg db)) \<and> (err = None \<longrightarrow> envs = filter (\<lambda>e. CorrelationID e = cid) (pg_log impl reg db))"
proof -
  have inv: "pg_inv hash db" and rows: "\<forall>r \<in> set (pg_rows db). row_ok impl reg r" using assms(1) by (simp_all add: pg_ok_def)
  let ?rows = "filter (\<lambda>r. pr_correlation_id r = cid) (pg_rows db)"
  have "pg_queryRows impl reg q ctx ?rows = Inr it" using assms(3) by (auto simp: pg_LoadCorrelation_def pg_select_id [OF inv] split: if_splits sum.splits)
  moreover have "map (row_env impl reg) ?rows = filter (\<lambda>e. CorrelationID e = cid) (pg_log impl reg db)"
    by (simp add: pg_log_def filter_map o_def row_env_def pg_record_def)
  ultimately show ?thesis using queryRows_All [of impl reg q ctx ?rows it "Suc (length (pg_rows db))"] rows assms(2) by (auto simp: less_Suc_eq_le)
qed

section \<open>A reader beside the writers\<close>

text \<open>A reader calls \<open>ReadAll\<close> again and again, each time from where the last page ended; a read that fails is repeated. Of each read: what fails, the
  database when it reads the head, and when it selects the page.\<close>

type_synonym pg_read = "go_error option \<times> query_fault \<times> pg_db \<times> pg_db"

fun pg_read_on :: "('e, 'v) event_impl \<Rightarrow> 'e registry \<Rightarrow> read_options \<Rightarrow> uint64 \<Rightarrow> pg_read list \<Rightarrow> ('e, 'v) envelope list \<times> uint64" where
  "pg_read_on impl reg opts after [] = ([], after)"
| "pg_read_on impl reg opts after ((herr, q, db, db') # reads) =
     (case pg_ReadAll impl reg herr q db db' after opts of
        Inl _ \<Rightarrow> pg_read_on impl reg opts after reads
      | Inr res \<Rightarrow> (case pg_read_on impl reg opts (rr_Next res) reads of (evs, nxt) \<Rightarrow> (rr_Events res @ evs, nxt)))"

fun reads_along :: "(string \<Rightarrow> int) \<Rightarrow> (gotime \<Rightarrow> gotime) \<Rightarrow> ('e, 'v) event_impl \<Rightarrow> 'e registry \<Rightarrow> pg_db \<Rightarrow> pg_read list \<Rightarrow> pg_db \<Rightarrow> bool" where
  "reads_along hash tz impl reg db [] final \<longleftrightarrow> (pg_step hash tz impl reg)\<^sup>*\<^sup>* db final"
| "reads_along hash tz impl reg db ((_, _, db1, db2) # reads) final \<longleftrightarrow>
     (pg_step hash tz impl reg)\<^sup>*\<^sup>* db db1 \<and> (pg_step hash tz impl reg)\<^sup>*\<^sup>* db1 db2 \<and> reads_along hash tz impl reg db2 reads final"

lemma reads_along_steps: "reads_along hash tz impl reg db reads final \<Longrightarrow> (pg_step hash tz impl reg)\<^sup>*\<^sup>* db final"
proof (induction reads arbitrary: db)
  case (Cons x reads)
  then show ?case by (cases x) (auto intro: rtranclp_trans)
qed simp

text \<open>A page read at one time is the page of the same range at any later time.\<close>

lemma page_later:
  assumes ok: "pg_ok hash impl reg db" and steps: "(pg_step hash tz impl reg)\<^sup>*\<^sup>* db db1" "(pg_step hash tz impl reg)\<^sup>*\<^sup>* db1 final"
    and rd: "pg_ReadAll impl reg herr q db db1 after opts = Inr res"
  shows "after \<le> rr_Next res" "rr_Events res = filter (\<lambda>e. after < GlobalPosition e \<and> GlobalPosition e \<le> rr_Next res \<and> selects impl opts e) (pg_log impl reg final)"
proof -
  let ?L = "pg_log impl reg db"
  have inv: "pg_inv hash db" "pg_inv hash final" using ok pg_ok_steps [OF rtranclp_trans [OF steps] ok] by (simp_all add: pg_ok_def)
  obtain new where new: "pg_rows db1 = pg_rows db @ new" using steps_rows [OF steps(1)] by (auto simp: prefix_def)
  obtain more where more: "pg_rows final = pg_rows db @ more" using steps_rows [OF rtranclp_trans [OF steps]] by (auto simp: prefix_def)
  have "int after \<le> max_int64" using rd by (simp add: pg_ReadAll_def split: if_splits)
  then have res: "res = position_page (selects impl opts) (page_limit opts) after ?L"
    by (rule pg_ReadAll_page(1) [OF ok pg_ok_steps [OF steps(1) ok] new _ rd])
  note laws = position_page_laws [OF pg_log_ascending [OF inv(1)] page_limit_pos res]
  show "after \<le> rr_Next res" using laws(2) by auto
  have "\<not> (after < pr_id r \<and> pr_id r \<le> rr_Next res)" if "r \<in> set more" for r
  proof
    assume r: "after < pr_id r \<and> pr_id r \<le> rr_Next res"
    then obtain q where "q \<in> set (pg_rows db)" "rr_Next res = pr_id q" using laws(2) by (auto simp: pg_log_def)
    then have "rr_Next res < pr_id r" using pg_invD(1) [OF inv(2)] that by (auto simp: rows_inv_def more sorted_wrt_append)
    then show False using r by simp
  qed
  then show "rr_Events res = filter (\<lambda>e. after < GlobalPosition e \<and> GlobalPosition e \<le> rr_Next res \<and> selects impl opts e) (pg_log impl reg final)"
    using laws(1) by (auto simp: pg_log_def more filter_empty_conv)
qed

text \<open>
  (C9) A reader misses nothing and sees nothing twice, whatever the calls commit between and during its reads and whichever of its reads fail: what it got so far
  is, in order, exactly the selected events of the log between where it began and where it stands, as the log is at the end. So an event with a
  position it has passed can not become visible later.
\<close>

theorem pg_reader_misses_nothing:
  assumes "registry_inv impl reg" "json_ok impl" "pg_reachable hash tz impl reg db" "reads_along hash tz impl reg db reads final"
    and "pg_read_on impl reg opts after reads = (evs, nxt)"
  shows "evs = filter (\<lambda>e. after < GlobalPosition e \<and> GlobalPosition e \<le> nxt \<and> selects impl opts e) (pg_log impl reg final) \<and> after \<le> nxt"
proof -
  have ok: "pg_ok hash impl reg db" using pg_ok_steps [OF assms(3) [unfolded pg_reachable_def]] pg_ok_init [OF assms(1,2)] by blast
  show ?thesis using assms(4,5) ok
  proof (induction reads arbitrary: db after evs)
    case Nil
    then show ?case by (auto simp: filter_empty_conv)
  next
    case (Cons r reads)
    obtain herr q db1 db2 where r: "r = (herr, q, db1, db2)" by (cases r)
    then have s: "(pg_step hash tz impl reg)\<^sup>*\<^sup>* db db1" "(pg_step hash tz impl reg)\<^sup>*\<^sup>* db1 db2" "reads_along hash tz impl reg db2 reads final"
      using Cons.prems(1) by simp_all
    have ok1: "pg_ok hash impl reg db1" and ok2: "pg_ok hash impl reg db2" using pg_ok_steps [OF s(1) Cons.prems(3)] pg_ok_steps [OF s(2)] by blast+
    show ?case
    proof (cases "pg_ReadAll impl reg herr q db1 db2 after opts")
      case (Inl e)
      then show ?thesis using Cons.IH [OF s(3) _ ok2] Cons.prems(2) by (simp add: r)
    next
      case (Inr res)
      obtain evs' where evs': "pg_read_on impl reg opts (rr_Next res) reads = (evs', nxt)" "evs = rr_Events res @ evs'"
        using Cons.prems(2) Inr by (auto simp: r split: prod.splits)
      note page = page_later [OF ok1 s(2) reads_along_steps [OF s(3)] Inr] and rest = Cons.IH [OF s(3) evs'(1) ok2]
      have fin: "sorted_wrt (<) (map GlobalPosition (pg_log impl reg final))"
        using pg_ok_steps [OF reads_along_steps [OF s(3)] ok2] by (intro pg_log_ascending [of hash]) (simp add: pg_ok_def)
      have split: "filter (\<lambda>e. after < GlobalPosition e \<and> GlobalPosition e \<le> rr_Next res \<and> GlobalPosition e \<le> nxt \<and> selects impl opts e) (pg_log impl reg final) @
          filter (\<lambda>e. rr_Next res < GlobalPosition e \<and> GlobalPosition e \<le> nxt \<and> selects impl opts e) (pg_log impl reg final)
        = filter (\<lambda>e. after < GlobalPosition e \<and> GlobalPosition e \<le> nxt \<and> selects impl opts e) (pg_log impl reg final)"
        by (rule ascending_split [OF fin page(1), where P = "\<lambda>e. GlobalPosition e \<le> nxt \<and> selects impl opts e"])
      have "rr_Events res = filter (\<lambda>e. after < GlobalPosition e \<and> GlobalPosition e \<le> rr_Next res \<and> GlobalPosition e \<le> nxt \<and> selects impl opts e) (pg_log impl reg final)"
        unfolding page(2) using rest by (intro filter_cong refl) auto
      then show ?thesis using evs'(2) rest page(1) split by simp
    qed
  qed
qed

text \<open>The first page is pinned between the two commits, and its rows are selected after both; the second reads on.\<close>

theorem pg_reader_misses_nothing_witness:
  "\<exists>evs nxt. pg_read_on demo_impl demo_reg demo_opts 0 [(None, no_fault, demo_mid, demo_final), (None, no_fault, demo_final, demo_final)] = (evs, nxt)
     \<and> evs = filter (\<lambda>e. 0 < GlobalPosition e \<and> GlobalPosition e \<le> nxt \<and> selects demo_impl demo_opts e) (pg_log demo_impl demo_reg demo_final)"
proof -
  let ?reads = "[(None, no_fault, demo_mid, demo_final), (None, no_fault, demo_final, demo_final)]"
  obtain evs nxt where r: "pg_read_on demo_impl demo_reg demo_opts 0 ?reads = (evs, nxt)" by (metis prod.exhaust)
  have "reads_along demo_hash id demo_impl demo_reg demo_mid ?reads demo_final" using demo_mid_steps(2) by simp
  then show ?thesis
    using pg_reader_misses_nothing [OF demo_registry_inv demo_json_ok demo_mid_reachable _ r] r by blast
qed

end
