(* ===== verification/Pg_Save_Props.thy ===== *)
theory Pg_Save_Props
  imports Pg_Read_Props
begin

text \<open>
  \<open>Save\<close> on PostgreSQL as its caller sees it: a call that succeeds took effect in one step, at its commit, whatever other calls ran in between: the
  revision it expected held of its stream then, its events follow the stream directly, and the result tells where they are.
\<close>

section \<open>The rows of a call\<close>

text \<open>Row \<open>w\<close> is row \<open>r\<close> of the encoded batch, placed in stream \<open>sid\<close>.\<close>

definition placed_as :: "(gotime \<Rightarrow> gotime) \<Rightarrow> string \<Rightarrow> pg_row \<Rightarrow> pg_row \<Rightarrow> bool" where
  "placed_as tz sid r w \<longleftrightarrow> w = r\<lparr>pr_id := pr_id w, pr_stream_id := sid, pr_stream_position := pr_stream_position w, pr_occurred_at := tz (pr_occurred_at r)\<rparr>"

text \<open>The transaction of a call that saves the encoded rows \<open>batch\<close>.\<close>

definition tx_for :: "(gotime \<Rightarrow> gotime) \<Rightarrow> string \<Rightarrow> stream_state \<Rightarrow> pg_row list \<Rightarrow> pg_tx \<Rightarrow> bool" where
  "tx_for tz sid revision batch tx \<longleftrightarrow> tx_stream tx = sid \<and> tx_revision tx = revision
     \<and> (\<exists>placed. batch = placed @ tx_rows tx \<and> list_all2 (placed_as tz sid) placed (tx_written tx))"

lemma tx_for_cong:
  "tx_stream tx' = tx_stream tx \<Longrightarrow> tx_revision tx' = tx_revision tx \<Longrightarrow> tx_rows tx' = tx_rows tx \<Longrightarrow> tx_written tx' = tx_written tx
   \<Longrightarrow> tx_for tz sid revision batch tx' = tx_for tz sid revision batch tx"
  by (simp add: tx_for_def)

lemma tx_for_inserted:
  assumes "tx_for tz sid revision batch tx" "tx_rows tx = r # rs"
  shows "tx_for tz sid revision batch (inserted_tx tx n (inserted_row tz tx db r) rs)"
proof -
  obtain placed where p: "batch = placed @ r # rs" "list_all2 (placed_as tz sid) placed (tx_written tx)" "tx_stream tx = sid" "tx_revision tx = revision"
    using assms by (auto simp: tx_for_def)
  have "placed_as tz sid r (inserted_row tz tx db r)" by (simp add: placed_as_def p(3) inserted_row_def)
  then show ?thesis unfolding tx_for_def using p by (intro conjI exI [of _ "placed @ [r]"]) (simp_all add: list_all2_appendI)
qed

text \<open>How a statement of the call goes on: it stays open, it returns an error, or it commits.\<close>

lemma own_statement:
  assumes "pg_statement hash tz fault applied k db = Some db'" "tx_of db k = Some tx" "tx_for tz sid revision batch tx"
  obtains (goes_on) tx' where "tx_of db' k = Some tx'" "tx_for tz sid revision batch tx'" "pg_done db' = pg_done db" "pg_rows db' = pg_rows db"
  | (fails) res e where "tx_of db' k = None" "pg_done db' k = Some (res, Some e)"
  | (commits) "tx_pc tx = AtCommit" "tx_of db' k = None" "pg_rows db' = pg_rows db @ tx_written tx"
      "pg_done db' k = Some (\<lparr>ar_Successful = True, ar_StreamID = tx_stream tx, ar_NextExpectedVersion = tx_version tx + tx_events tx, ar_GlobalPosition = tx_lastID tx\<rparr>, None)"
proof -
  have same: "tx_for tz sid revision batch (tx\<lparr>tx_pc := pc\<rparr>)" "tx_for tz sid revision batch (tx\<lparr>tx_version := v, tx_pc := pc\<rparr>)" for pc v
    using assms(3) by (simp_all add: tx_for_def)
  show thesis
  proof (cases "tx_pc tx")
    case AtInsert
    then have ins: "pg_insert tz fault applied k tx db = Some db'" using assms(1,2) by (simp add: pg_statement_def)
    show thesis
    proof (cases "tx_rows tx")
      case Nil
      then show thesis using ins same(1) [of AtCommit] by (intro goes_on [of "tx\<lparr>tx_pc := AtCommit\<rparr>"]) (auto simp: pg_insert_def)
    next
      case (Cons r rs)
      note f = tx_for_inserted [OF assms(3) Cons]
      from ins Cons show thesis
      proof (cases rule: insert_cases)
        case (rolled e n)
        then show thesis by (intro fails) (simp_all add: pg_rollback_def)
      next
        case written
        then show thesis using f by (intro goes_on) simp_all
      qed
    qed
  next
    case AtCommit
    then have "pg_commit fault applied k tx db = Some db'" using assms(1,2) by (simp add: pg_statement_def)
    then show thesis
    proof (cases rule: pg_commit_cases)
      case committed
      then show thesis using AtCommit by (intro commits) simp_all
    qed (auto intro!: fails simp: pg_rollback_def)
  next
    case AtStreamLock
    then show thesis using assms(1,2) same(1) by (cases fault) (auto simp: pg_statement_def pg_stream_lock_def pg_rollback_def Let_def intro: goes_on fails split: if_splits)
  next
    case AtVersion
    then show thesis using assms(1,2) same(2) by (cases fault) (auto simp: pg_statement_def pg_version_def pg_rollback_def intro: goes_on fails)
  next
    case AtCheck
    then show thesis using assms(1,2) same(1)
      by (cases "pg_check_revision (tx_stream tx) (tx_version tx) (tx_revision tx)") (auto simp: pg_statement_def pg_check_def pg_rollback_def intro: goes_on fails)
  next
    case AtAppendLock
    then show thesis using assms(1,2) same(1)
      by (cases fault) (auto simp: pg_statement_def pg_take_append_lock_def pg_rollback_def Let_def intro: goes_on fails split: if_splits)
  qed
qed

text \<open>A statement of another call leaves this one alone.\<close>

lemma other_statement:
  assumes "pg_statement hash tz fault applied j db = Some db'" "j \<noteq> k"
  shows "tx_of db' k = tx_of db k \<and> pg_done db' k = pg_done db k"
proof -
  obtain tx where tx: "tx_of db j = Some tx" using assms(1) by (auto simp: pg_statement_def split: option.splits)
  show ?thesis
  proof (cases "tx_pc tx")
    case AtInsert
    then show ?thesis using assms tx
      by (cases fault; cases "tx_rows tx") (auto simp: pg_statement_def pg_insert_def pg_rollback_def Let_def split: if_splits)
  qed (use assms tx in \<open>auto simp: pg_statement_def pg_stream_lock_def pg_version_def pg_check_def pg_take_append_lock_def pg_commit_def pg_rollback_def
        Let_def split: option.splits if_splits\<close>)
qed

lemma other_call:
  assumes "j \<noteq> k"
  shows "tx_of (pg_Save impl reg now fault j events revision db) k = tx_of db k \<and> pg_done (pg_Save impl reg now fault j events revision db) k = pg_done db k"
  using assms by (auto simp: pg_Save_def Let_def split: list.split option.split sum.split)

lemma placed_in_stream: "placed_as tz sid r w \<Longrightarrow> pr_stream_id w = sid"
  unfolding placed_as_def by (drule arg_cong [where f = pr_stream_id]) simp

lemma placed_stream: "list_all2 (placed_as tz sid) batch new \<Longrightarrow> \<forall>w \<in> set new. pr_stream_id w = sid"
  by (induction rule: list_all2_induct) (simp_all add: placed_in_stream)

section \<open>One step\<close>

text \<open>What a successful call did to the rows: it found \<open>L\<close>, which holds all that \<open>base\<close> held, and put its batch directly behind.\<close>

definition pg_effect :: "(gotime \<Rightarrow> gotime) \<Rightarrow> string \<Rightarrow> stream_state \<Rightarrow> pg_row list \<Rightarrow> pg_row list \<Rightarrow> append_result \<Rightarrow> pg_row list \<Rightarrow> bool" where
  "pg_effect tz sid revision batch base res rows \<longleftrightarrow> (\<exists>L new later. rows = L @ new @ later \<and> prefix base L
     \<and> pg_check_revision sid (length (in_pg_stream sid L)) revision = None \<and> list_all2 (placed_as tz sid) batch new
     \<and> map pr_stream_position new = [Suc (length (in_pg_stream sid L))..<Suc (length (in_pg_stream sid L) + length batch)]
     \<and> res = \<lparr>ar_Successful = True, ar_StreamID = sid, ar_NextExpectedVersion = length (in_pg_stream sid L) + length batch, ar_GlobalPosition = pr_id (last new)\<rparr>)"

lemma effect_later: "pg_effect tz sid revision batch base res rows \<Longrightarrow> prefix rows rows' \<Longrightarrow> pg_effect tz sid revision batch base res rows'"
  unfolding pg_effect_def prefix_def by (metis append_assoc)

lemma pg_commit_effect:
  assumes "pg_inv hash db" "tx_of db k = Some tx" "tx_pc tx = AtCommit" "tx_for tz sid revision batch tx" "prefix base (pg_rows db)"
  shows "pg_effect tz sid revision batch base
    \<lparr>ar_Successful = True, ar_StreamID = tx_stream tx, ar_NextExpectedVersion = tx_version tx + tx_events tx, ar_GlobalPosition = tx_lastID tx\<rparr>
    (pg_rows db @ tx_written tx)"
proof -
  note ok = tx_okD [OF pg_invD(2) [OF assms(1,2)]]
  have rows: "tx_rows tx = []" by (rule ok(9) [OF assms(3)])
  then have f: "tx_stream tx = sid" "tx_revision tx = revision" "list_all2 (placed_as tz sid) batch (tx_written tx)" using assms(4) by (simp_all add: tx_for_def)
  have len: "length batch = length (tx_written tx)" by (rule list_all2_lengthD [OF f(3)])
  have v: "tx_version tx = length (in_pg_stream sid (pg_rows db))" using ok(3) assms(3) f(1) by simp
  have "tx_events tx = length (tx_written tx)" "tx_written tx \<noteq> []" using ok(6,7,8) rows by auto
  then show ?thesis unfolding pg_effect_def
    using assms(3,5) f ok(4,11,13) by (intro exI [of _ "pg_rows db"] exI [of _ "tx_written tx"] exI [of _ "[]"]) (simp add: v len del: upt_Suc)
qed

text \<open>Where call \<open>k\<close> is: it runs, it failed, or it succeeded.\<close>

definition call_inv :: "(gotime \<Rightarrow> gotime) \<Rightarrow> string \<Rightarrow> stream_state \<Rightarrow> pg_row list \<Rightarrow> pg_row list \<Rightarrow> nat \<Rightarrow> pg_db \<Rightarrow> bool" where
  "call_inv tz sid revision batch base k db \<longleftrightarrow> (case pg_done db k of
       None \<Rightarrow> prefix base (pg_rows db) \<and> (\<exists>tx. tx_of db k = Some tx \<and> tx_for tz sid revision batch tx)
     | Some (res, err) \<Rightarrow> tx_of db k = None \<and> (err = None \<longrightarrow> pg_effect tz sid revision batch base res (pg_rows db)))"

lemma call_inv_others:
  assumes "call_inv tz sid revision batch base k db" "tx_of db' k = tx_of db k" "pg_done db' k = pg_done db k" "prefix (pg_rows db) (pg_rows db')"
  shows "call_inv tz sid revision batch base k db'"
  using assms effect_later [OF _ assms(4)] unfolding call_inv_def
  by (auto split: option.splits intro: prefix_order.trans)

lemma call_inv_step:
  assumes "pg_step hash tz impl reg db db'" "pg_inv hash db" "call_inv tz sid revision batch base k db"
  shows "call_inv tz sid revision batch base k db'"
  using assms(1)
proof cases
  case (call j now fault events st)
  then have "j \<noteq> k" using assms(3) by (auto simp: call_inv_def)
  then show ?thesis unfolding call(1) by (intro call_inv_others [OF assms(3)]) (simp_all add: other_call save_rows)
next
  case (statement fault applied j)
  show ?thesis
  proof (cases "j = k")
    case False
    then show ?thesis using other_statement [OF statement False] step_rows [OF assms(1)] by (intro call_inv_others [OF assms(3)]) simp_all
  next
    case True
    obtain tx where tx: "tx_of db k = Some tx" using statement True by (auto simp: pg_statement_def split: option.splits)
    then have run: "pg_done db k = None" "prefix base (pg_rows db)" "tx_for tz sid revision batch tx" using assms(3) by (auto simp: call_inv_def split: option.splits)
    from statement [unfolded True] tx run(3) show ?thesis
    proof (cases rule: own_statement)
      case commits
      then show ?thesis using pg_commit_effect [OF assms(2) tx commits(1) run(3,2)] by (simp add: call_inv_def)
    qed (use run in \<open>simp_all add: call_inv_def\<close>)
  qed
qed

lemma call_inv_steps:
  assumes "(pg_step hash tz impl reg)\<^sup>*\<^sup>* db db'" "pg_inv hash db" "call_inv tz sid revision batch base k db"
  shows "call_inv tz sid revision batch base k db'"
  using assms(1)
proof (induction rule: rtranclp_induct)
  case (step db1 db2)
  then show ?case using call_inv_step steps_inv [OF step.hyps(1) assms(2)] by blast
qed (rule assms(3))

text \<open>What a call returned stays.\<close>

lemma returned_steps:
  assumes "(pg_step hash tz impl reg)\<^sup>*\<^sup>* db db'" "pg_done db k = Some x" "tx_of db k = None"
  shows "pg_done db' k = Some x \<and> tx_of db' k = None"
  using assms(1)
proof (induction rule: rtranclp_induct)
  case (step db1 db2)
  from step.hyps(2) show ?case
  proof cases
    case (call j now fault events st)
    then have "j \<noteq> k" using step.IH by auto
    then show ?thesis using step.IH unfolding call(1) by (simp add: other_call)
  next
    case (statement fault applied j)
    then have "j \<noteq> k" using step.IH by (auto simp: pg_statement_def)
    then show ?thesis using step.IH other_statement [OF statement] by simp
  qed
qed (use assms(2,3) in simp)

section \<open>The events of a call\<close>

text \<open>Event \<open>i\<close> of a batch as it reads back.\<close>

definition pg_stamped :: "(gotime \<Rightarrow> gotime) \<Rightarrow> gotime \<Rightarrow> uint64 \<Rightarrow> uint64 \<Rightarrow> ('e, 'v) envelope \<Rightarrow> ('e, 'v) envelope" where
  "pg_stamped tz now ver pos env = env\<lparr>Metadata := Some (case Metadata env of None \<Rightarrow> Map.empty | Some md \<Rightarrow> md),
     OccurredAt := tz (if OccurredAt env = 0 then now else OccurredAt env), Version := ver, GlobalPosition := pos\<rparr>"

lemma batch_reads_back:
  assumes "registry_inv impl reg" "json_ok impl" "pg_encode_rows impl reg now i envs = Inr batch" "\<forall>env \<in> set envs. StreamID env = sid"
    and "list_all2 (placed_as tz sid) batch new"
  shows "map (row_env impl reg) new = map2 (\<lambda>(w, j) env. pg_stamped tz (now j) (pr_stream_position w) (pr_id w) env) (zip new [i..<i + length new]) envs"
  using assms(3-5)
proof (induction envs arbitrary: i batch new)
  case (Cons env envs)
  obtain payload metadata rs where e: "EncodeEvent impl reg (Event env) = Inr payload" "EncodeMetadata impl (Metadata env) = Inr metadata"
    and rs: "pg_encode_rows impl reg now (Suc i) envs = Inr rs" using Cons.prems(1) by (auto simp: Let_def split: sum.splits)
  obtain ev where ev: "Event env = Some ev" "DecodeEvent impl reg (EventType impl ev) payload = Inr ev" using encode_decode [OF assms(1,2) e(1)] by blast
  obtain r where batch: "batch = r # rs" "r = \<lparr>pr_id = 0, pr_event_id = EventID env, pr_stream_id = [], pr_stream_position = 0, pr_event_type = EventType impl ev,
      pr_payload = payload, pr_metadata = metadata, pr_occurred_at = (if OccurredAt env = 0 then now i else OccurredAt env),
      pr_correlation_id = CorrelationID env, pr_causation_id = CausationID env\<rparr>" using Cons.prems(1) e rs ev by (simp add: Let_def)
  obtain w ws where new: "new = w # ws" "placed_as tz sid r w" "list_all2 (placed_as tz sid) rs ws" using Cons.prems(3) unfolding batch(1) by (auto simp: list_all2_Cons1)
  have w: "w = r\<lparr>pr_id := pr_id w, pr_stream_id := sid, pr_stream_position := pr_stream_position w, pr_occurred_at := tz (pr_occurred_at r)\<rparr>"
    using new(2) by (simp add: placed_as_def)
  have "row_env impl reg w = pg_stamped tz (now i) (pr_stream_position w) (pr_id w) env"
    by (subst w) (use ev e(2) EncodeMetadata_roundtrip [OF assms(2) e(2)] Cons.prems(2) in
      \<open>simp add: batch(2) row_env_def decoded_def record_envelope_def pg_record_def pg_stamped_def\<close>)
  moreover have "[i..<i + length new] = i # [Suc i..<Suc i + length ws]" using upt_conv_Cons [of i "i + length new"] by (simp add: new(1) del: upt_Suc)
  ultimately show ?case using Cons.IH [OF rs _ new(3)] Cons.prems(2) by (simp add: new(1) del: upt_Suc)
qed simp

lemma batch_nth:
  assumes "registry_inv impl reg" "json_ok impl" "pg_encode_rows impl reg now 0 envs = Inr batch" "\<forall>env \<in> set envs. StreamID env = sid"
    and "list_all2 (placed_as tz sid) batch new" "i < length envs"
  shows "row_env impl reg (new ! i) = pg_stamped tz (now i) (pr_stream_position (new ! i)) (pr_id (new ! i)) (envs ! i)"
proof -
  have len: "length new = length envs" using list_all2_lengthD [OF assms(5)] encode_length [OF assms(3)] by simp
  have "map (row_env impl reg) new ! i = pg_stamped tz (now i) (pr_stream_position (new ! i)) (pr_id (new ! i)) (envs ! i)"
    unfolding batch_reads_back [OF assms(1-5)] using assms(6) len by simp
  then show ?thesis using assms(6) len by simp
qed

text \<open>\<open>Save\<close> fails at once, or begins a transaction for its encoded batch.\<close>

lemma save_fails_at_once:
  assumes "tx_of db k = None" "pg_done db k = None" "events \<noteq> []" "pg_done (pg_Save impl reg now fault k events revision db) k \<noteq> None"
  shows "\<exists>res e. pg_done (pg_Save impl reg now fault k events revision db) k = Some (res, Some e) \<and> tx_of (pg_Save impl reg now fault k events revision db) k = None"
  using assms by (auto simp: pg_Save_def Let_def neq_Nil_conv simp del: validate_batch.simps pg_encode_rows.simps split: option.splits sum.splits)

lemma save_begins:
  assumes "tx_of db k = None" "pg_done db k = None" "events \<noteq> []" "pg_done (pg_Save impl reg now fault k events revision db) k = None"
  obtains batch where "validate_batch (StreamID (hd events)) events = None" "pg_encode_rows impl reg now 0 events = Inr batch"
    "call_inv tz (StreamID (hd events)) revision batch (pg_rows db) k (pg_Save impl reg now fault k events revision db)"
proof -
  obtain env rest where ev: "events = env # rest" using assms(3) by (cases events) auto
  obtain batch where b: "validate_batch (StreamID env) events = None" "pg_encode_rows impl reg now 0 events = Inr batch" "fault = None"
    using assms(4) unfolding ev pg_Save_def Let_def by (simp del: validate_batch.simps pg_encode_rows.simps split: option.splits sum.splits)
  have "call_inv tz (StreamID env) revision batch (pg_rows db) k (pg_Save impl reg now fault k events revision db)"
    using b assms(2) by (simp add: ev pg_Save_def Let_def call_inv_def tx_for_def del: validate_batch.simps pg_encode_rows.simps)
  then show thesis using that b ev by simp
qed

text \<open>What the caller of \<open>Save\<close> expects of a stream with \<open>n\<close> events.\<close>

fun expectation_holds :: "stream_state \<Rightarrow> nat \<Rightarrow> bool" where
  "expectation_holds Any n = True"
| "expectation_holds NoStream n = (n = 0)"
| "expectation_holds StreamExists n = (0 < n)"
| "expectation_holds (Revision r) n = (n = r)"
| "expectation_holds (OtherState _) n = False"

lemma pg_check_holds: "pg_check_revision sid n st = None \<longleftrightarrow> expectation_holds st n"
  by (cases st) (auto simp: pg_check_revision_def)

text \<open>
  (C8) A save is atomic and its check holds: when call \<open>k\<close> has returned without an error, then at some moment between its call and its return the log was \<open>L\<close>, the
  stream had the revision the caller expected, and the events went in directly behind \<open>L\<close> and before anything that came later, each stamped with the next version of its stream; the
  result names the new length of the stream and the position of the last event. No statement of another call comes in between, whatever the interleaving.
\<close>

theorem pg_save_atomic:
  assumes "registry_inv impl reg" "json_ok impl" "pg_reachable hash tz impl reg db" "tx_of db k = None" "pg_done db k = None" "events \<noteq> []"
    and "(pg_step hash tz impl reg)\<^sup>*\<^sup>* (pg_Save impl reg now fault k events revision db) db'" "pg_done db' k = Some (res, None)"
    and "sid = StreamID (hd events)"
  shows "\<exists>L new later. pg_rows db' = L @ new @ later \<and> prefix (pg_rows db) L
    \<and> expectation_holds revision (length (in_pg_stream sid L)) \<and> length new = length events
    \<and> (\<forall>i < length events. row_env impl reg (new ! i) = pg_stamped tz (now i) (Suc (length (in_pg_stream sid L) + i)) (pr_id (new ! i)) (events ! i))
    \<and> res = \<lparr>ar_Successful = True, ar_StreamID = sid, ar_NextExpectedVersion = length (in_pg_stream sid (L @ new)), ar_GlobalPosition = pr_id (last new)\<rparr>"
proof -
  let ?db = "pg_Save impl reg now fault k events revision db"
  have inv: "pg_inv hash ?db" by (rule save_inv [OF reachable_inv [OF assms(3)] assms(4)])
  have "pg_done ?db k = None"
    using save_fails_at_once [OF assms(4-6), of impl reg now fault revision] returned_steps [OF assms(7)] assms(8) by fastforce
  then obtain batch where b: "validate_batch sid events = None" "pg_encode_rows impl reg now 0 events = Inr batch"
    "call_inv tz sid revision batch (pg_rows db) k ?db" using save_begins [OF assms(4-6), of impl reg now fault revision tz] assms(9) by metis
  have "pg_effect tz sid revision batch (pg_rows db) res (pg_rows db')"
    using call_inv_steps [OF assms(7) inv b(3)] assms(8) by (simp add: call_inv_def)
  then obtain L new later where eff: "pg_rows db' = L @ new @ later" "prefix (pg_rows db) L"
    "expectation_holds revision (length (in_pg_stream sid L))" "list_all2 (placed_as tz sid) batch new"
    and pos: "map pr_stream_position new = [Suc (length (in_pg_stream sid L))..<Suc (length (in_pg_stream sid L) + length batch)]"
    and res: "res = \<lparr>ar_Successful = True, ar_StreamID = sid, ar_NextExpectedVersion = length (in_pg_stream sid L) + length batch, ar_GlobalPosition = pr_id (last new)\<rparr>"
    unfolding pg_effect_def pg_check_holds by blast
  have len: "length batch = length events" "length new = length events" using encode_length [OF b(2)] list_all2_lengthD [OF eff(4)] by simp_all
  have "pr_stream_position (new ! i) = Suc (length (in_pg_stream sid L) + i)" if "i < length events" for i
    using arg_cong [OF pos, of "\<lambda>xs. xs ! i"] that len by (simp del: upt_Suc)
  moreover have "\<forall>env \<in> set events. StreamID env = sid" using b(1) by (simp add: validate_batch_None)
  moreover have "in_pg_stream sid new = new" using placed_stream [OF eff(4)] by (simp add: in_pg_stream_def filter_id_conv)
  ultimately show ?thesis using batch_nth [OF assms(1,2) b(2) _ eff(4)] eff len
    by (intro exI [of _ L] exI [of _ new] exI [of _ later]) (simp add: res in_pg_stream_def)
qed

text \<open>The first call expects its stream not to exist, and another stream grows before it commits.\<close>

theorem pg_save_atomic_witness:
  "\<exists>res L new later. pg_done demo_final 1 = Some (res, None) \<and> pg_rows demo_final = L @ new @ later \<and> length (in_pg_stream ''s'' L) = 0 \<and> length new = 1
     \<and> ar_NextExpectedVersion res = length (in_pg_stream ''s'' (L @ new))"
proof -
  have start: "tx_of (demo_call2 Schema_pg) 1 = None" "pg_done (demo_call2 Schema_pg) 1 = None" by (simp_all add: demo_calls) (simp_all add: Schema_pg_def tx_of_def)
  have "(pg_step demo_hash id demo_impl demo_reg)\<^sup>*\<^sup>* demo_pg_open demo_final" by (rule rtranclp_trans [OF demo_mid_steps])
  then have run: "(pg_step demo_hash id demo_impl demo_reg)\<^sup>*\<^sup>* (pg_Save demo_impl demo_reg (\<lambda>_. 7) None 1 [demo_env 1 ''s'' ''x''] NoStream (demo_call2 Schema_pg)) demo_final"
    by (simp add: demo_pg_open_def demo_call1_def)
  have "pg_done demo_final 1 \<noteq> None \<and> snd (the (pg_done demo_final 1)) = None" unfolding demo_final_def demo_mid_def demo_pg_open_tx by code_simp
  then obtain res where res: "pg_done demo_final 1 = Some (res, None)" by auto
  have call: "[demo_env 1 ''s'' ''x''] \<noteq> []" "''s'' = StreamID (hd [demo_env 1 ''s'' ''x''])" by simp_all
  obtain L new later where "pg_rows demo_final = L @ new @ later" "expectation_holds NoStream (length (in_pg_stream ''s'' L))"
    "length new = length [demo_env 1 ''s'' ''x'']" "res = \<lparr>ar_Successful = True, ar_StreamID = ''s'', ar_NextExpectedVersion = length (in_pg_stream ''s'' (L @ new)),
       ar_GlobalPosition = pr_id (last new)\<rparr>"
    using pg_save_atomic [OF demo_registry_inv demo_json_ok demo_second_reachable start call(1) run res call(2)] by blast
  then show ?thesis using res by (intro exI [of _ res] exI [of _ L] exI [of _ new] exI [of _ later]) simp
qed

end
