(* ===== verification/Fencing.thy ===== *)
theory Fencing
  imports ES_Errors
begin

text \<open>
  The contract of fenced claims, which the projection store and the automation store share: a claim on
  a key is an owner and an epoch, every takeover raises the epoch, and within an epoch the claim can
  only be given up. From these two laws of a store's steps follows what fencing tokens are for: a claim
  that was lost stays lost, whatever happens later, so that a call made under it is refused for ever; and
  an epoch of a key belongs to one owner only.
\<close>

definition current_claim :: "('s \<Rightarrow> 'k \<Rightarrow> string) \<Rightarrow> ('s \<Rightarrow> 'k \<Rightarrow> uint64) \<Rightarrow> 's \<Rightarrow> 'k \<Rightarrow> string \<Rightarrow> uint64 \<Rightarrow> bool" where
  "current_claim holder epoch s k who e \<longleftrightarrow> who \<noteq> [] \<and> holder s k = who \<and> epoch s k = e"

locale fencing =
  fixes step :: "'s \<Rightarrow> 's \<Rightarrow> bool"
    and holder :: "'s \<Rightarrow> 'k \<Rightarrow> string"
    and epoch :: "'s \<Rightarrow> 'k \<Rightarrow> uint64"
  assumes epoch_mono: "step s s' \<Longrightarrow> epoch s k \<le> epoch s' k"
    and same_epoch: "step s s' \<Longrightarrow> epoch s' k = epoch s k \<Longrightarrow> holder s' k = holder s k \<or> holder s' k = []"
begin

lemma steps_epoch_mono: "step\<^sup>*\<^sup>* s s' \<Longrightarrow> epoch s k \<le> epoch s' k"
  by (induction rule: rtranclp_induct) (auto dest: epoch_mono [where k = k])

lemma stale_step:
  assumes "\<not> current_claim holder epoch s k who e" "e \<le> epoch s k" "step s s'"
  shows "\<not> current_claim holder epoch s' k who e \<and> e \<le> epoch s' k"
proof (cases "epoch s' k = epoch s k")
  case True
  have "holder s' k = holder s k \<or> holder s' k = []" by (rule same_epoch [OF assms(3) True])
  then show ?thesis using assms(1,2) True unfolding current_claim_def by metis
next
  case False
  with epoch_mono [OF assms(3), of k] assms(2) show ?thesis unfolding current_claim_def by linarith
qed

lemma stale_forever:
  assumes "\<not> current_claim holder epoch s k who e" "e \<le> epoch s k" "step\<^sup>*\<^sup>* s s'"
  shows "\<not> current_claim holder epoch s' k who e"
proof -
  have "\<not> current_claim holder epoch s' k who e \<and> e \<le> epoch s' k"
    using assms(3)
  proof (induction rule: rtranclp_induct)
    case base
    show ?case using assms(1,2) by (rule conjI)
  next
    case (step y z)
    from step(3) show ?case by (elim conjE) (rule stale_step [OF _ _ step(2)])
  qed
  then show ?thesis ..
qed

lemma lost_stays_lost:
  assumes "current_claim holder epoch s k who e" "step\<^sup>*\<^sup>* s s'" "\<not> current_claim holder epoch s' k who e" "step\<^sup>*\<^sup>* s' s''"
  shows "\<not> current_claim holder epoch s'' k who e"
proof -
  have "e \<le> epoch s' k" using assms(1) steps_epoch_mono [OF assms(2), of k] by (simp add: current_claim_def)
  with assms(3) show ?thesis by (rule stale_forever [OF _ _ assms(4)])
qed

lemma epoch_owner_unique:
  assumes "current_claim holder epoch s k who e" "step\<^sup>*\<^sup>* s s'" "current_claim holder epoch s' k other e"
  shows "other = who"
proof (rule ccontr)
  assume "other \<noteq> who"
  then have "\<not> current_claim holder epoch s k other e" using assms(1) by (simp add: current_claim_def)
  moreover have "e \<le> epoch s k" using assms(1) by (simp add: current_claim_def)
  ultimately show False using stale_forever assms(2,3) by blast
qed

end

end
