(* ===== verification/Proj_Store.thy ===== *)
theory Proj_Store
  imports Fencing
begin

text \<open>
  The projection store: its data (\<open>projection/store.go\<close>) and the in-memory store
  (\<open>memory/projection_store.go\<close>), one definition per method. A method runs under the store's mutex and
  is one step. \<open>Commit\<close> and \<open>Reset\<close> release the mutex while the caller's function runs: they are a check
  before it and a store step after it, and between the two other instances' steps may happen.

  A segment number is a \<open>nat\<close>. Go maps the code ranges over are functions where the order does not
  matter, and association lists where their contents are listed (instances, replay requests). A call of
  \<open>time.Now\<close> is the argument \<open>now\<close>.
\<close>

section \<open>projection/store.go\<close>

record checkpoint =
  cp_Position :: uint64
  cp_Version :: int
  cp_ReplayUntil :: uint64
  cp_Fingerprint :: string

datatype phase = Starting | Standby | CatchingUp | Live | Stalled

definition phase_String :: "phase \<Rightarrow> string" where
  "phase_String p = (case p of Starting \<Rightarrow> ''starting'' | Standby \<Rightarrow> ''standby'' | CatchingUp \<Rightarrow> ''catching_up''
     | Live \<Rightarrow> ''live'' | Stalled \<Rightarrow> ''stalled'')"

record status =
  st_Phase :: phase
  st_Position :: uint64
  st_Head :: uint64
  st_Version :: int
  st_LastError :: string
  st_Owner :: string
  st_Segment :: nat
  st_Age :: duration
  st_ReplayUntil :: uint64
  st_ClaimTTL :: duration
  st_RebuildRequested :: bool

record lease =
  l_Name :: string
  l_Segment :: nat
  l_Owner :: string
  l_Epoch :: uint64

record instance_info =
  in_Owner :: string
  in_Version :: int
  in_Segments :: nat
  in_Age :: duration

record dead_letter =
  dl_Position :: uint64
  dl_StreamID :: string
  dl_EventType :: string
  dl_Error :: string

record replay =
  rq_Number :: uint64
  rq_StreamID :: string
  rq_Segment :: nat

definition zero_checkpoint :: checkpoint where
  "zero_checkpoint = \<lparr>cp_Position = 0, cp_Version = 0, cp_ReplayUntil = 0, cp_Fingerprint = []\<rparr>"

definition zero_status :: status where
  "zero_status = \<lparr>st_Phase = Starting, st_Position = 0, st_Head = 0, st_Version = 0, st_LastError = [],
     st_Owner = [], st_Segment = 0, st_Age = 0, st_ReplayUntil = 0, st_ClaimTTL = 0, st_RebuildRequested = False\<rparr>"

definition zero_lease :: lease where
  "zero_lease = \<lparr>l_Name = [], l_Segment = 0, l_Owner = [], l_Epoch = 0\<rparr>"

section \<open>memory/projection_store.go\<close>

record memory_instance =
  mi_version :: int
  mi_heartbeat :: gotime
  mi_ttl :: duration

record replay_segment =
  rs_done :: bool
  rs_err :: string

record memory_replay =
  rp_streamID :: string
  rp_segments :: "(nat \<times> replay_segment) list"

record memory_row =
  mr_cp :: checkpoint
  mr_status :: status
  mr_owner :: string
  mr_epoch :: uint64
  mr_heartbeat :: gotime
  mr_ttl :: duration
  mr_deadLetters :: "dead_letter list"

record memory_projection =
  mp_segments :: nat
  mp_rows :: "nat \<rightharpoonup> memory_row"
  mp_rebuildsRequested :: uint64
  mp_rebuildsDone :: uint64
  mp_rebuildFailed :: uint64
  mp_rebuildErr :: string
  mp_replays :: "(uint64 \<times> memory_replay) list"

record projection_store =
  ps_projections :: "string \<rightharpoonup> memory_projection"
  ps_replays :: uint64
  ps_instances :: "string \<Rightarrow> (string \<times> memory_instance) list"

definition NewProjectionStore :: projection_store where
  "NewProjectionStore = \<lparr>ps_projections = Map.empty, ps_replays = 0, ps_instances = (\<lambda>_. [])\<rparr>"

definition new_row :: "uint64 \<Rightarrow> nat \<Rightarrow> memory_row" where
  "new_row replayUntil i =
     \<lparr>mr_cp = zero_checkpoint\<lparr>cp_ReplayUntil := replayUntil\<rparr>,
      mr_status = zero_status\<lparr>st_Phase := Starting, st_Segment := i\<rparr>,
      mr_owner = [], mr_epoch = 0, mr_heartbeat = 0, mr_ttl = 0, mr_deadLetters = []\<rparr>"

definition Declare :: "projection_store \<Rightarrow> string \<Rightarrow> nat \<Rightarrow> uint64 \<Rightarrow> projection_store \<times> go_error option" where
  "Declare s name segments replayUntil =
     (case ps_projections s name of
        None \<Rightarrow>
          (s\<lparr>ps_projections := (ps_projections s)(name \<mapsto>
             \<lparr>mp_segments = segments,
              mp_rows = (\<lambda>i. if i < segments then Some (new_row replayUntil i) else None),
              mp_rebuildsRequested = 0, mp_rebuildsDone = 0, mp_rebuildFailed = 0, mp_rebuildErr = [],
              mp_replays = []\<rparr>)\<rparr>, None)
      | Some p \<Rightarrow> if mp_segments p \<noteq> segments then (s, Some (Sentinel ErrSegmentsChanged)) else (s, None))"

definition row :: "projection_store \<Rightarrow> lease \<Rightarrow> memory_row option" where
  "row s l = (case ps_projections s (l_Name l) of None \<Rightarrow> None | Some p \<Rightarrow> mp_rows p (l_Segment l))"

definition owned :: "projection_store \<Rightarrow> lease \<Rightarrow> memory_row option" where
  "owned s l =
     (case row s l of
        None \<Rightarrow> None
      | Some r \<Rightarrow> if mr_owner r = [] \<or> mr_owner r \<noteq> l_Owner l \<or> mr_epoch r \<noteq> l_Epoch l then None else Some r)"

text \<open>Storing a changed row, or a changed projection, back (the code mutates them through pointers).\<close>

definition put_row :: "projection_store \<Rightarrow> lease \<Rightarrow> memory_row \<Rightarrow> projection_store" where
  "put_row s l r =
     (case ps_projections s (l_Name l) of
        None \<Rightarrow> s
      | Some p \<Rightarrow> s\<lparr>ps_projections := (ps_projections s)(l_Name l \<mapsto> p\<lparr>mp_rows := (mp_rows p)(l_Segment l \<mapsto> r)\<rparr>)\<rparr>)"

definition put_projection :: "projection_store \<Rightarrow> string \<Rightarrow> memory_projection \<Rightarrow> projection_store" where
  "put_projection s name p = s\<lparr>ps_projections := (ps_projections s)(name \<mapsto> p)\<rparr>"

definition Claim :: "gotime \<Rightarrow> projection_store \<Rightarrow> lease \<Rightarrow> duration
    \<Rightarrow> projection_store \<times> lease \<times> checkpoint \<times> bool" where
  "Claim now s l ttl =
     (case row s l of
        None \<Rightarrow> (s, zero_lease, zero_checkpoint, False)
      | Some r \<Rightarrow>
          if owned s l = None \<and> mr_owner r \<noteq> [] \<and> time_Sub now (mr_heartbeat r) \<le> mr_ttl r
          then (s, zero_lease, zero_checkpoint, False)
          else let r = (if owned s l = None then r\<lparr>mr_epoch := mr_epoch r + 1\<rparr> else r);
                   r = r\<lparr>mr_owner := l_Owner l, mr_heartbeat := now, mr_ttl := ttl,
                         mr_status := (mr_status r)\<lparr>st_Owner := l_Owner l\<rparr>\<rparr>
               in (put_row s l r, l\<lparr>l_Epoch := mr_epoch r\<rparr>, mr_cp r, True))"

text \<open>The part of \<open>Commit\<close> after \<open>fn\<close>, and the whole call: \<open>fn\<close> works on a world that holds the store.\<close>

definition commit_store :: "gotime \<Rightarrow> projection_store \<Rightarrow> lease \<Rightarrow> checkpoint \<Rightarrow> status
    \<Rightarrow> projection_store \<times> go_error option" where
  "commit_store now s l cp st =
     (case owned s l of
        None \<Rightarrow> (s, Some (Sentinel ErrClaimLost))
      | Some r \<Rightarrow> (put_row s l (r\<lparr>mr_cp := cp, mr_status := st, mr_heartbeat := now\<rparr>), None))"

definition Commit :: "gotime \<Rightarrow> lease \<Rightarrow> checkpoint \<Rightarrow> status
    \<Rightarrow> (projection_store \<times> 'w \<Rightarrow> (projection_store \<times> 'w) \<times> go_error option)
    \<Rightarrow> projection_store \<times> 'w \<Rightarrow> (projection_store \<times> 'w) \<times> go_error option" where
  "Commit now l cp st fn sw =
     (if owned (fst sw) l = None then (sw, Some (Sentinel ErrClaimLost))
      else (case fn sw of
          (sw, Some err) \<Rightarrow> (sw, Some err)
        | (sw, None) \<Rightarrow> (case commit_store now (fst sw) l cp st of (s, err) \<Rightarrow> ((s, snd sw), err))))"

definition reset_row :: "gotime \<Rightarrow> lease \<Rightarrow> int \<Rightarrow> nat \<Rightarrow> memory_row \<Rightarrow> memory_row" where
  "reset_row now l newVersion seg r =
     (let r = r\<lparr>mr_deadLetters := [],
                mr_cp := \<lparr>cp_Position = 0, cp_Version = newVersion,
                          cp_ReplayUntil = max (cp_ReplayUntil (mr_cp r)) (cp_Position (mr_cp r)), cp_Fingerprint = []\<rparr>,
                mr_status := (mr_status r)\<lparr>st_Position := 0, st_Version := newVersion, st_Head := 0, st_LastError := []\<rparr>\<rparr>
      in if seg = l_Segment l
         then r\<lparr>mr_status := (mr_status r)\<lparr>st_Phase := Starting\<rparr>, mr_heartbeat := now\<rparr>
         else r\<lparr>mr_owner := [], mr_status := (mr_status r)\<lparr>st_Owner := [], st_Phase := Standby\<rparr>\<rparr>)"

definition reset_store :: "gotime \<Rightarrow> projection_store \<Rightarrow> lease \<Rightarrow> int \<Rightarrow> projection_store \<times> go_error option" where
  "reset_store now s l newVersion =
     (case owned s l of
        None \<Rightarrow> (s, Some (Sentinel ErrClaimLost))
      | Some _ \<Rightarrow> (case ps_projections s (l_Name l) of
          None \<Rightarrow> (s, Some (Sentinel ErrClaimLost))
        | Some p \<Rightarrow>
            (put_projection s (l_Name l)
               (p\<lparr>mp_rebuildsDone := mp_rebuildsRequested p, mp_replays := [],
                  mp_rows := (\<lambda>seg. map_option (reset_row now l newVersion seg) (mp_rows p seg))\<rparr>), None)))"

definition Reset :: "gotime \<Rightarrow> lease \<Rightarrow> int
    \<Rightarrow> (projection_store \<times> 'w \<Rightarrow> (projection_store \<times> 'w) \<times> go_error option)
    \<Rightarrow> projection_store \<times> 'w \<Rightarrow> (projection_store \<times> 'w) \<times> go_error option" where
  "Reset now l newVersion wipe sw =
     (if owned (fst sw) l = None then (sw, Some (Sentinel ErrClaimLost))
      else (case wipe sw of
          (sw, Some err) \<Rightarrow> (sw, Some err)
        | (sw, None) \<Rightarrow> (case reset_store now (fst sw) l newVersion of (s, err) \<Rightarrow> ((s, snd sw), err))))"

definition Release :: "projection_store \<Rightarrow> lease \<Rightarrow> projection_store" where
  "Release s l =
     (case owned s l of
        None \<Rightarrow> s
      | Some r \<Rightarrow> put_row s l (r\<lparr>mr_owner := [], mr_status := (mr_status r)\<lparr>st_Owner := [], st_Phase := Standby\<rparr>\<rparr>))"

definition SaveStatus :: "gotime \<Rightarrow> projection_store \<Rightarrow> lease \<Rightarrow> status \<Rightarrow> projection_store \<times> go_error option" where
  "SaveStatus now s l st =
     (case owned s l of
        None \<Rightarrow> (s, Some (Sentinel ErrClaimLost))
      | Some r \<Rightarrow> (put_row s l (r\<lparr>mr_status := (mr_status r)\<lparr>st_Phase := st_Phase st, st_Head := st_Head st,
            st_LastError := st_LastError st\<rparr>, mr_heartbeat := now\<rparr>), None))"

definition load_status :: "gotime \<Rightarrow> memory_projection \<Rightarrow> nat \<Rightarrow> memory_row \<Rightarrow> status" where
  "load_status now p i r =
     (let st = (mr_status r)\<lparr>st_Segment := i, st_Position := cp_Position (mr_cp r), st_Version := cp_Version (mr_cp r),
                             st_Owner := mr_owner r\<rparr>;
          st = (if mr_heartbeat r \<noteq> 0 then st\<lparr>st_Age := time_Sub now (mr_heartbeat r)\<rparr> else st);
          st = (if mr_owner r \<noteq> [] then st\<lparr>st_ClaimTTL := mr_ttl r\<rparr> else st)
      in st\<lparr>st_ReplayUntil := cp_ReplayUntil (mr_cp r),
            st_RebuildRequested := (mp_rebuildsRequested p > mp_rebuildsDone p)\<rparr>)"

definition LoadStatuses :: "gotime \<Rightarrow> projection_store \<Rightarrow> string \<Rightarrow> status list" where
  "LoadStatuses now s name =
     (case ps_projections s name of
        None \<Rightarrow> []
      | Some p \<Rightarrow> List.map_filter (\<lambda>i. map_option (load_status now p i) (mp_rows p i)) [0..<mp_segments p])"

definition RequestRebuild :: "projection_store \<Rightarrow> string \<Rightarrow> projection_store \<times> (go_error + uint64)" where
  "RequestRebuild s name =
     (case ps_projections s name of
        None \<Rightarrow> (s, Inl (Sentinel ErrUnknownProjection))
      | Some p \<Rightarrow>
          (put_projection s name (p\<lparr>mp_rebuildsRequested := mp_rebuildsRequested p + 1\<rparr>), Inr (mp_rebuildsRequested p + 1)))"

definition Rebuilds :: "projection_store \<Rightarrow> string \<Rightarrow> uint64 \<times> uint64" where
  "Rebuilds s name = (case ps_projections s name of None \<Rightarrow> (0, 0) | Some p \<Rightarrow> (mp_rebuildsRequested p, mp_rebuildsDone p))"

definition FailRebuild :: "projection_store \<Rightarrow> lease \<Rightarrow> uint64 \<Rightarrow> string \<Rightarrow> projection_store \<times> go_error option" where
  "FailRebuild s l requested errMsg =
     (case (owned s l, ps_projections s (l_Name l)) of
        (Some _, Some p) \<Rightarrow>
          (if requested \<ge> mp_rebuildFailed p
           then put_projection s (l_Name l) (p\<lparr>mp_rebuildFailed := requested, mp_rebuildErr := errMsg\<rparr>) else s, None)
      | _ \<Rightarrow> (s, Some (Sentinel ErrClaimLost)))"

definition RebuildFailure :: "projection_store \<Rightarrow> string \<Rightarrow> uint64 \<times> string" where
  "RebuildFailure s name = (case ps_projections s name of None \<Rightarrow> (0, []) | Some p \<Rightarrow> (mp_rebuildFailed p, mp_rebuildErr p))"

definition SaveDeadLetter :: "projection_store \<Rightarrow> lease \<Rightarrow> dead_letter \<Rightarrow> projection_store \<times> go_error option" where
  "SaveDeadLetter s l d =
     (case row s l of
        None \<Rightarrow> (s, Some (Sentinel ErrClaimLost))
      | Some r \<Rightarrow>
          (put_row s l (r\<lparr>mr_deadLetters := slice_insert (mr_deadLetters r)
             (bsearch dl_Position (mr_deadLetters r) (dl_Position d)) d\<rparr>), None))"

definition LoadDeadLetters :: "projection_store \<Rightarrow> string \<Rightarrow> nat \<Rightarrow> dead_letter list" where
  "LoadDeadLetters s name segment =
     (case row s (zero_lease\<lparr>l_Name := name, l_Segment := segment\<rparr>) of None \<Rightarrow> [] | Some r \<Rightarrow> mr_deadLetters r)"

definition DeleteDeadLetter :: "projection_store \<Rightarrow> lease \<Rightarrow> uint64 \<Rightarrow> projection_store \<times> go_error option" where
  "DeleteDeadLetter s l position =
     (case row s l of
        None \<Rightarrow> (s, Some (Sentinel ErrClaimLost))
      | Some r \<Rightarrow>
          (put_row s l (r\<lparr>mr_deadLetters := filter (\<lambda>d. dl_Position d \<noteq> position) (mr_deadLetters r)\<rparr>), None))"

text \<open>Instances: the live ones, each judged by its own ttl, ordered by owner.\<close>

definition held_by :: "projection_store \<Rightarrow> string \<Rightarrow> string \<Rightarrow> nat" where
  "held_by s name who =
     (case ps_projections s name of
        None \<Rightarrow> 0
      | Some p \<Rightarrow> length (filter (\<lambda>i. case mp_rows p i of None \<Rightarrow> False | Some r \<Rightarrow> mr_owner r \<noteq> [] \<and> mr_owner r = who)
                     [0..<mp_segments p]))"

definition liveInstances :: "projection_store \<Rightarrow> string \<Rightarrow> gotime \<Rightarrow> instance_info list" where
  "liveInstances s name now =
     sort_key in_Owner (map (\<lambda>(o', m). \<lparr>in_Owner = o', in_Version = mi_version m, in_Segments = held_by s name o',
                                        in_Age = time_Sub now (mi_heartbeat m)\<rparr>)
       (filter (\<lambda>(o', m). time_Sub now (mi_heartbeat m) \<le> mi_ttl m) (ps_instances s name)))"

definition Heartbeat :: "gotime \<Rightarrow> projection_store \<Rightarrow> string \<Rightarrow> string \<Rightarrow> int \<Rightarrow> duration
    \<Rightarrow> projection_store \<times> instance_info list" where
  "Heartbeat now s name who version ttl =
     (let instances = ps_instances s name in
      if ttl = 0 then (s\<lparr>ps_instances := (ps_instances s)(name := filter (\<lambda>(o', m). o' \<noteq> who) instances)\<rparr>, [])
      else let instances = filter (\<lambda>(o', m). o' \<noteq> who) instances
                 @ [(who, \<lparr>mi_version = version, mi_heartbeat = now, mi_ttl = ttl\<rparr>)];
               instances = filter (\<lambda>(o', m). \<not> time_Sub now (mi_heartbeat m) > mi_ttl m) instances;
               s = s\<lparr>ps_instances := (ps_instances s)(name := instances)\<rparr>
           in (s, liveInstances s name now))"

definition LoadInstances :: "gotime \<Rightarrow> projection_store \<Rightarrow> string \<Rightarrow> instance_info list" where
  "LoadInstances now s name = liveInstances s name now"

text \<open>Replay requests.\<close>

definition RequestReplay :: "projection_store \<Rightarrow> string \<Rightarrow> string \<Rightarrow> projection_store \<times> (go_error + uint64)" where
  "RequestReplay s name streamID =
     (case ps_projections s name of
        None \<Rightarrow> (s, Inl (Sentinel ErrUnknownProjection))
      | Some p \<Rightarrow>
          let segs = filter (\<lambda>i. case mp_rows p i of None \<Rightarrow> False
                        | Some r \<Rightarrow> list_ex (\<lambda>d. dl_StreamID d = streamID) (mr_deadLetters r)) [0..<mp_segments p];
              req = \<lparr>rp_streamID = streamID, rp_segments = map (\<lambda>i. (i, \<lparr>rs_done = False, rs_err = []\<rparr>)) segs\<rparr>
          in if segs = [] then (s, Inr 0)
             else let n = ps_replays s + 1 in
               ((put_projection s name (p\<lparr>mp_replays := mp_replays p @ [(n, req)]\<rparr>))\<lparr>ps_replays := n\<rparr>, Inr n))"

definition PendingReplays :: "projection_store \<Rightarrow> string \<Rightarrow> replay list" where
  "PendingReplays s name =
     (case ps_projections s name of
        None \<Rightarrow> []
      | Some p \<Rightarrow> sort_key (\<lambda>r. (rq_Number r, rq_Segment r))
          (concat (map (\<lambda>(n, req). map (\<lambda>(seg, st). \<lparr>rq_Number = n, rq_StreamID = rp_streamID req, rq_Segment = seg\<rparr>)
             (filter (\<lambda>(seg, st). \<not> rs_done st) (rp_segments req))) (mp_replays p))))"

definition replay_finished :: "memory_replay \<Rightarrow> bool" where
  "replay_finished r = list_all (\<lambda>(seg, st). rs_done st) (rp_segments r)"

definition replay_succeeded :: "memory_replay \<Rightarrow> bool" where
  "replay_succeeded r = list_all (\<lambda>(seg, st). rs_done st \<and> rs_err st = []) (rp_segments r)"

definition FinishReplay :: "projection_store \<Rightarrow> lease \<Rightarrow> uint64 \<Rightarrow> string \<Rightarrow> projection_store \<times> go_error option" where
  "FinishReplay s l number errMsg =
     (case (owned s l, ps_projections s (l_Name l)) of
        (Some _, Some p) \<Rightarrow>
          (case map_of (mp_replays p) number of
             None \<Rightarrow> (s, None)
           | Some req \<Rightarrow>
               let req = req\<lparr>rp_segments := map (\<lambda>(seg, st). (seg,
                           if seg = l_Segment l then \<lparr>rs_done = True, rs_err = errMsg\<rparr> else st)) (rp_segments req)\<rparr>;
                   replays = map (\<lambda>(n, q). (n, if n = number then req else q)) (mp_replays p);
                   replays = (if replay_succeeded req
                              then filter (\<lambda>(n, q). \<not> (n \<le> number \<and> rp_streamID q = rp_streamID req \<and> replay_finished q)) replays
                              else replays)
               in (put_projection s (l_Name l) (p\<lparr>mp_replays := replays\<rparr>), None))
      | _ \<Rightarrow> (s, Some (Sentinel ErrClaimLost)))"

definition ReplayResult :: "projection_store \<Rightarrow> string \<Rightarrow> uint64 \<Rightarrow> nat \<times> string list" where
  "ReplayResult s name number =
     (case ps_projections s name of
        None \<Rightarrow> (0, [])
      | Some p \<Rightarrow> (case map_of (mp_replays p) number of
          None \<Rightarrow> (0, [])
        | Some req \<Rightarrow>
            let segs = sort_key fst (rp_segments req) in
            (length (filter (\<lambda>(seg, st). \<not> rs_done st) segs),
             map (rs_err \<circ> snd) (filter (\<lambda>(seg, st). rs_done st \<and> rs_err st \<noteq> []) segs))))"

end
