(* ===== verification/Sql_Projections.thy ===== *)
theory Sql_Projections
  imports Proj_Store
begin

text \<open>
  The projection store on SQLite (\<open>sqlite/projection_store.go\<close>), one definition per method. The tables of \<open>schema.sql\<close> are lists of rows, and the database also
  holds the read model, which the caller's functions write through the same transaction. A statement is a function on the tables; what the driver
  answers to each statement of a call is the argument \<open>F\<close>, and \<open>now\<close> is SQLite's clock in milliseconds at each statement that reads it. A transaction
  holds the write lock from its start and the database has one connection, so a call is one step, and one that does not commit changes nothing. A \<open>NULL\<close> is \<open>None\<close>.
  Positions and epochs, which the driver stores as \<open>int64\<close>, stay below \<open>2 ^ 63\<close>.
\<close>

section \<open>The tables\<close>

record segment_row =
  sg_name :: string
  sg_segment :: nat
  sg_position :: uint64
  sg_version :: int
  sg_replay_until :: uint64
  sg_fingerprint :: string
  sg_phase :: string
  sg_head :: uint64
  sg_last_error :: "string option"
  sg_owner :: "string option"
  sg_epoch :: uint64
  sg_heartbeat :: int
  sg_ttl_ms :: int

record rebuild_row =
  rb_name :: string
  rb_requested :: uint64
  rb_done :: uint64
  rb_failed :: uint64
  rb_error :: "string option"

record instance_row =
  ir_name :: string
  ir_owner :: string
  ir_version :: int
  ir_heartbeat :: int
  ir_ttl_ms :: int

record letter_row =
  lt_projection :: string
  lt_segment :: nat
  lt_global_position :: uint64
  lt_stream_id :: string
  lt_event_type :: string
  lt_error :: string
  lt_skipped_at :: int

record replay_row =
  rr_id :: nat
  rr_name :: string
  rr_stream_id :: string

record replay_segment_row =
  sr_replay :: nat
  sr_segment :: nat
  sr_done :: bool
  sr_error :: "string option"

record 'x projection_db =
  db_segments :: "segment_row list"
  db_rebuilds :: "rebuild_row list"
  db_instances :: "instance_row list"
  db_letters :: "letter_row list"
  db_replays :: "replay_row list"
  db_replay_seq :: nat
  db_replay_segments :: "replay_segment_row list"
  db_model :: 'x

text \<open>\<open>UPDATE\<close> and the number of rows it affects.\<close>

definition sql_update :: "('r \<Rightarrow> bool) \<Rightarrow> ('r \<Rightarrow> 'r) \<Rightarrow> 'r list \<Rightarrow> 'r list" where
  "sql_update cond f rows = map (\<lambda>r. if cond r then f r else r) rows"

definition nullString :: "string \<Rightarrow> string option" where
  "nullString s = (if s = [] then None else Some s)"

definition null_value :: "string option \<Rightarrow> string" where
  "null_value v = (case v of None \<Rightarrow> [] | Some s \<Rightarrow> s)"

definition parsePhase :: "string \<Rightarrow> phase" where
  "parsePhase s =
     (if s = ''standby'' then Standby else if s = ''catching_up'' then CatchingUp else if s = ''live'' then Live
      else if s = ''stalled'' then Stalled else Starting)"

text \<open>\<open>Duration.Milliseconds\<close> rounds toward zero.\<close>

definition Milliseconds :: "duration \<Rightarrow> int" where
  "Milliseconds d = (if d \<ge> 0 then d div 1000000 else - ((- d) div 1000000))"

section \<open>Transactions\<close>

record tx_faults =
  tf_begin :: "go_error option"
  tf_stmt :: "nat \<Rightarrow> go_error option"
  tf_commit :: "go_error option"

definition runTx :: "tx_faults \<Rightarrow> string \<Rightarrow> ('x projection_db \<Rightarrow> 'x projection_db \<times> go_error option) \<Rightarrow> 'x projection_db
    \<Rightarrow> 'x projection_db \<times> go_error option" where
  "runTx F op fn db =
     (case tf_begin F of
        Some err \<Rightarrow> (db, Some (Errorf (''sqlite: '' @ op @ '': begin'') [err]))
      | None \<Rightarrow> (case fn db of
          (_, Some err) \<Rightarrow> (db, Some err)
        | (db', None) \<Rightarrow> (case tf_commit F of
            Some err \<Rightarrow> (db, Some (Errorf (''sqlite: '' @ op @ '': commit'') [err]))
          | None \<Rightarrow> (db', None))))"

text \<open>A statement inside a transaction: it fails, or the rest goes on.\<close>

definition stmt :: "tx_faults \<Rightarrow> nat \<Rightarrow> 'x projection_db \<Rightarrow> ('x projection_db \<times> go_error option) \<Rightarrow> 'x projection_db \<times> go_error option" where
  "stmt F i db k = (case tf_stmt F i of Some err \<Rightarrow> (db, Some (Errorf ''sqlite'' [err])) | None \<Rightarrow> k)"

definition claimed_by :: "lease \<Rightarrow> segment_row \<Rightarrow> bool" where
  "claimed_by l r \<longleftrightarrow> sg_name r = l_Name l \<and> sg_segment r = l_Segment l \<and> sg_owner r = Some (l_Owner l) \<and> sg_epoch r = l_Epoch l"

definition ownedPosition :: "tx_faults \<Rightarrow> lease \<Rightarrow> 'x projection_db \<Rightarrow> go_error + uint64" where
  "ownedPosition F l db =
     (case tf_stmt F 0 of
        Some err \<Rightarrow> Inl (Errorf ''sqlite: read segment'' [err])
      | None \<Rightarrow> (case find (claimed_by l) (db_segments db) of
          None \<Rightarrow> Inl (Sentinel ErrClaimLost)
        | Some r \<Rightarrow> Inr (sg_position r)))"

text \<open>The driver says how many rows an update changed, or that it cannot tell.\<close>

definition sq_claimHeld :: "go_error option \<Rightarrow> nat \<Rightarrow> go_error option" where
  "sq_claimHeld RowsAffected_fault n =
     (case RowsAffected_fault of
        Some err \<Rightarrow> Some err
      | None \<Rightarrow> if n = 0 then Some (Sentinel ErrClaimLost) else None)"

section \<open>Claims and checkpoints\<close>

definition new_segment_row :: "string \<Rightarrow> nat \<Rightarrow> uint64 \<Rightarrow> int \<Rightarrow> segment_row" where
  "new_segment_row name i replayUntil now =
     \<lparr>sg_name = name, sg_segment = i, sg_position = 0, sg_version = 0, sg_replay_until = replayUntil, sg_fingerprint = [],
      sg_phase = ''starting'', sg_head = 0, sg_last_error = None, sg_owner = None, sg_epoch = 0, sg_heartbeat = now, sg_ttl_ms = 15000\<rparr>"

fun insert_segments :: "tx_faults \<Rightarrow> (nat \<Rightarrow> int) \<Rightarrow> string \<Rightarrow> uint64 \<Rightarrow> nat list \<Rightarrow> 'x projection_db \<Rightarrow> 'x projection_db \<times> go_error option" where
  "insert_segments F now name replayUntil [] db = (db, None)"
| "insert_segments F now name replayUntil (i # is) db =
     stmt F (Suc i) db (insert_segments F now name replayUntil is (db\<lparr>db_segments := db_segments db @ [new_segment_row name i replayUntil (now i)]\<rparr>))"

definition sq_Declare :: "tx_faults \<Rightarrow> (nat \<Rightarrow> int) \<Rightarrow> string \<Rightarrow> nat \<Rightarrow> uint64 \<Rightarrow> 'x projection_db \<Rightarrow> 'x projection_db \<times> go_error option" where
  "sq_Declare F now name segments replayUntil =
     runTx F ''declare'' (\<lambda>db. stmt F 0 db
       (let count = length (filter (\<lambda>r. sg_name r = name) (db_segments db)) in
        if count \<noteq> 0 then (if count \<noteq> segments then (db, Some (Sentinel ErrSegmentsChanged)) else (db, None))
        else insert_segments F now name replayUntil [0..<segments] db))"

definition claimable :: "int \<Rightarrow> lease \<Rightarrow> segment_row \<Rightarrow> bool" where
  "claimable now l r \<longleftrightarrow> sg_name r = l_Name l \<and> sg_segment r = l_Segment l
     \<and> ((sg_owner r = Some (l_Owner l) \<and> sg_epoch r = l_Epoch l) \<or> sg_owner r = None \<or> sg_heartbeat r < now - sg_ttl_ms r)"

definition claim_row :: "int \<Rightarrow> lease \<Rightarrow> duration \<Rightarrow> segment_row \<Rightarrow> segment_row" where
  "claim_row now l ttl r =
     r\<lparr>sg_owner := Some (l_Owner l), sg_heartbeat := now, sg_ttl_ms := Milliseconds ttl,
       sg_epoch := (if sg_owner r = Some (l_Owner l) \<and> sg_epoch r = l_Epoch l then sg_epoch r else sg_epoch r + 1)\<rparr>"

definition sq_Claim :: "go_error option \<Rightarrow> int \<Rightarrow> lease \<Rightarrow> duration \<Rightarrow> 'x projection_db
    \<Rightarrow> 'x projection_db \<times> (go_error + lease \<times> checkpoint \<times> bool)" where
  "sq_Claim fault now l ttl db =
     (case fault of
        Some err \<Rightarrow> (db, Inl (Errorf ''sqlite: claim'' [err]))
      | None \<Rightarrow> (case find (claimable now l) (db_segments db) of
          None \<Rightarrow> (db, Inr (zero_lease, zero_checkpoint, False))
        | Some r \<Rightarrow>
            let r = claim_row now l ttl r in
            (db\<lparr>db_segments := sql_update (claimable now l) (claim_row now l ttl) (db_segments db)\<rparr>,
             Inr (l\<lparr>l_Epoch := sg_epoch r\<rparr>,
                  \<lparr>cp_Position = sg_position r, cp_Version = sg_version r, cp_ReplayUntil = sg_replay_until r, cp_Fingerprint = sg_fingerprint r\<rparr>, True))))"

definition commit_row :: "int \<Rightarrow> checkpoint \<Rightarrow> status \<Rightarrow> segment_row \<Rightarrow> segment_row" where
  "commit_row now cp st r =
     r\<lparr>sg_position := cp_Position cp, sg_version := cp_Version cp, sg_replay_until := cp_ReplayUntil cp, sg_fingerprint := cp_Fingerprint cp,
       sg_phase := phase_String (st_Phase st), sg_head := st_Head st, sg_last_error := nullString (st_LastError st), sg_heartbeat := now\<rparr>"

text \<open>The caller's function writes through the transaction it finds in its context.\<close>

definition sq_Commit :: "tx_faults \<Rightarrow> int \<Rightarrow> lease \<Rightarrow> checkpoint \<Rightarrow> status \<Rightarrow> ('x projection_db \<Rightarrow> 'x projection_db \<times> go_error option)
    \<Rightarrow> 'x projection_db \<Rightarrow> 'x projection_db \<times> go_error option" where
  "sq_Commit F now l cp st fn =
     runTx F ''commit'' (\<lambda>db. case ownedPosition F l db of
         Inl err \<Rightarrow> (db, Some err)
       | Inr _ \<Rightarrow> (case fn db of
           (db, Some err) \<Rightarrow> (db, Some err)
         | (db, None) \<Rightarrow> stmt F 1 db
             (db\<lparr>db_segments := sql_update (claimed_by l) (commit_row now cp st) (db_segments db)\<rparr>,
              sq_claimHeld (tf_stmt F 2) (length (filter (claimed_by l) (db_segments db))))))"

definition reset_segment_row :: "int \<Rightarrow> lease \<Rightarrow> int \<Rightarrow> segment_row \<Rightarrow> segment_row" where
  "reset_segment_row now l newVersion r =
     r\<lparr>sg_replay_until := max (sg_replay_until r) (sg_position r), sg_position := 0, sg_version := newVersion, sg_fingerprint := [],
       sg_head := 0, sg_last_error := None,
       sg_phase := (if sg_segment r = l_Segment l then ''starting'' else ''standby''),
       sg_owner := (if sg_segment r = l_Segment l then sg_owner r else None),
       sg_heartbeat := (if sg_segment r = l_Segment l then now else sg_heartbeat r)\<rparr>"

definition sq_Reset :: "tx_faults \<Rightarrow> int \<Rightarrow> lease \<Rightarrow> int \<Rightarrow> ('x projection_db \<Rightarrow> 'x projection_db \<times> go_error option)
    \<Rightarrow> 'x projection_db \<Rightarrow> 'x projection_db \<times> go_error option" where
  "sq_Reset F now l newVersion wipe =
     runTx F ''reset'' (\<lambda>db. case ownedPosition F l db of
         Inl err \<Rightarrow> (db, Some err)
       | Inr _ \<Rightarrow> (case wipe db of
           (db, Some err) \<Rightarrow> (db, Some err)
         | (db, None) \<Rightarrow>
             let db1 = db\<lparr>db_segments := sql_update (\<lambda>r. sg_name r = l_Name l) (reset_segment_row now l newVersion) (db_segments db)\<rparr>;
                 db2 = db1\<lparr>db_letters := filter (\<lambda>d. lt_projection d \<noteq> l_Name l) (db_letters db1)\<rparr>;
                 ids = map rr_id (filter (\<lambda>r. rr_name r = l_Name l) (db_replays db2));
                 db3 = db2\<lparr>db_replay_segments := filter (\<lambda>s. sr_replay s \<notin> set ids) (db_replay_segments db2)\<rparr>;
                 db4 = db3\<lparr>db_replays := filter (\<lambda>r. rr_name r \<noteq> l_Name l) (db_replays db3)\<rparr>;
                 db5 = db4\<lparr>db_rebuilds := sql_update (\<lambda>r. rb_name r = l_Name l) (\<lambda>r. r\<lparr>rb_done := rb_requested r\<rparr>) (db_rebuilds db4)\<rparr>
             in stmt F 1 db (stmt F 2 db1 (stmt F 3 db2 (stmt F 4 db3 (stmt F 5 db4 (db5, None)))))))"

definition sq_Release :: "go_error option \<Rightarrow> lease \<Rightarrow> 'x projection_db \<Rightarrow> 'x projection_db \<times> go_error option" where
  "sq_Release fault l db =
     (case fault of
        Some err \<Rightarrow> (db, Some (Errorf ''sqlite: release'' [err]))
      | None \<Rightarrow> (db\<lparr>db_segments := sql_update (claimed_by l) (\<lambda>r. r\<lparr>sg_owner := None, sg_phase := ''standby''\<rparr>) (db_segments db)\<rparr>, None))"

definition status_row :: "int \<Rightarrow> status \<Rightarrow> segment_row \<Rightarrow> segment_row" where
  "status_row now st r =
     r\<lparr>sg_phase := phase_String (st_Phase st), sg_head := st_Head st, sg_last_error := nullString (st_LastError st), sg_heartbeat := now\<rparr>"

definition sq_SaveStatus :: "go_error option \<Rightarrow> go_error option \<Rightarrow> int \<Rightarrow> lease \<Rightarrow> status \<Rightarrow> 'x projection_db \<Rightarrow> 'x projection_db \<times> go_error option" where
  "sq_SaveStatus fault RowsAffected_fault now l st db =
     (case fault of
        Some err \<Rightarrow> (db, Some (Errorf ''sqlite: save status'' [err]))
      | None \<Rightarrow> (db\<lparr>db_segments := sql_update (claimed_by l) (status_row now st) (db_segments db)\<rparr>,
                  sq_claimHeld RowsAffected_fault (length (filter (claimed_by l) (db_segments db)))))"

text \<open>A row of \<open>LoadStatuses\<close>, joined with the rebuild requests of its projection.\<close>

definition row_status :: "int \<Rightarrow> 'x projection_db \<Rightarrow> segment_row \<Rightarrow> status" where
  "row_status now db r =
     \<lparr>st_Phase = parsePhase (sg_phase r), st_Position = sg_position r, st_Head = sg_head r, st_Version = sg_version r,
      st_LastError = null_value (sg_last_error r), st_Owner = null_value (sg_owner r), st_Segment = sg_segment r,
      st_Age = max (now - sg_heartbeat r) 0 * 1000000, st_ReplayUntil = sg_replay_until r,
      st_ClaimTTL = (if sg_owner r \<noteq> None then sg_ttl_ms r * 1000000 else 0),
      st_RebuildRequested = (case find (\<lambda>b. rb_name b = sg_name r) (db_rebuilds db) of None \<Rightarrow> False | Some b \<Rightarrow> rb_requested b > rb_done b)\<rparr>"

definition sq_LoadStatuses :: "go_error option \<Rightarrow> int \<Rightarrow> string \<Rightarrow> 'x projection_db \<Rightarrow> go_error + status list" where
  "sq_LoadStatuses fault now name db =
     (case fault of
        Some err \<Rightarrow> Inl (Errorf ''sqlite: load statuses'' [err])
      | None \<Rightarrow> Inr (map (row_status now db) (sort_key sg_segment (filter (\<lambda>r. sg_name r = name) (db_segments db)))))"

section \<open>Instances\<close>

definition row_instance :: "int \<Rightarrow> 'x projection_db \<Rightarrow> instance_row \<Rightarrow> instance_info" where
  "row_instance now db m =
     \<lparr>in_Owner = ir_owner m, in_Version = ir_version m,
      in_Segments = length (filter (\<lambda>s. sg_name s = ir_name m \<and> sg_owner s = Some (ir_owner m)) (db_segments db)),
      in_Age = max (now - ir_heartbeat m) 0 * 1000000\<rparr>"

definition upsert_instance :: "instance_row \<Rightarrow> instance_row list \<Rightarrow> instance_row list" where
  "upsert_instance m rows =
     (if list_ex (\<lambda>q. ir_name q = ir_name m \<and> ir_owner q = ir_owner m) rows
      then sql_update (\<lambda>q. ir_name q = ir_name m \<and> ir_owner q = ir_owner m)
             (\<lambda>q. q\<lparr>ir_version := ir_version m, ir_heartbeat := ir_heartbeat m, ir_ttl_ms := ir_ttl_ms m\<rparr>) rows
      else rows @ [m])"

definition sq_Heartbeat :: "tx_faults \<Rightarrow> (nat \<Rightarrow> int) \<Rightarrow> string \<Rightarrow> string \<Rightarrow> int \<Rightarrow> duration \<Rightarrow> 'x projection_db
    \<Rightarrow> 'x projection_db \<times> (go_error + instance_info list)" where
  "sq_Heartbeat F now name who version ttl db =
     (if ttl = 0 then
        (case tf_stmt F 0 of
           Some err \<Rightarrow> (db, Inl (Errorf ''sqlite: leave'' [err]))
         | None \<Rightarrow> (db\<lparr>db_instances := filter (\<lambda>m. \<not> (ir_name m = name \<and> ir_owner m = who)) (db_instances db)\<rparr>, Inr []))
      else
        let m = \<lparr>ir_name = name, ir_owner = who, ir_version = version, ir_heartbeat = now 0, ir_ttl_ms = Milliseconds ttl\<rparr> in
        (case runTx F ''heartbeat'' (\<lambda>db.
             let db1 = db\<lparr>db_instances := upsert_instance m (db_instances db)\<rparr>;
                 db2 = db1\<lparr>db_instances := filter (\<lambda>q. \<not> (ir_name q = name \<and> ir_heartbeat q < now 1 - ir_ttl_ms q)) (db_instances db1)\<rparr>
             in stmt F 0 db (stmt F 1 db1 (stmt F 2 db2 (db2, None)))) db of
           (db', Some err) \<Rightarrow> (db', Inl err)
         | (db', None) \<Rightarrow> (db', Inr (map (row_instance (now 2) db') (sort_key ir_owner (filter (\<lambda>q. ir_name q = name) (db_instances db')))))))"

definition sq_LoadInstances :: "go_error option \<Rightarrow> int \<Rightarrow> string \<Rightarrow> 'x projection_db \<Rightarrow> go_error + instance_info list" where
  "sq_LoadInstances fault now name db =
     (case fault of
        Some err \<Rightarrow> Inl (Errorf ''sqlite: load instances'' [err])
      | None \<Rightarrow> Inr (map (row_instance now db)
          (sort_key ir_owner (filter (\<lambda>m. ir_name m = name \<and> ir_heartbeat m \<ge> now - ir_ttl_ms m) (db_instances db)))))"

section \<open>Rebuilds\<close>

definition sq_RequestRebuild :: "go_error option \<Rightarrow> string \<Rightarrow> 'x projection_db \<Rightarrow> 'x projection_db \<times> (go_error + uint64)" where
  "sq_RequestRebuild fault name db =
     (case fault of
        Some err \<Rightarrow> (db, Inl (Errorf ''sqlite: request rebuild'' [err]))
      | None \<Rightarrow>
          if \<not> list_ex (\<lambda>r. sg_name r = name) (db_segments db) then (db, Inl (Sentinel ErrUnknownProjection))
          else (case find (\<lambda>r. rb_name r = name) (db_rebuilds db) of
              None \<Rightarrow> (db\<lparr>db_rebuilds := db_rebuilds db @ [\<lparr>rb_name = name, rb_requested = 1, rb_done = 0, rb_failed = 0, rb_error = None\<rparr>]\<rparr>, Inr 1)
            | Some r \<Rightarrow> (db\<lparr>db_rebuilds := sql_update (\<lambda>r. rb_name r = name) (\<lambda>r. r\<lparr>rb_requested := rb_requested r + 1\<rparr>) (db_rebuilds db)\<rparr>,
                         Inr (rb_requested r + 1))))"

definition sq_Rebuilds :: "go_error option \<Rightarrow> string \<Rightarrow> 'x projection_db \<Rightarrow> go_error + uint64 \<times> uint64" where
  "sq_Rebuilds fault name db =
     (case fault of
        Some err \<Rightarrow> Inl (Errorf ''sqlite: read rebuild requests'' [err])
      | None \<Rightarrow> Inr (case find (\<lambda>r. rb_name r = name) (db_rebuilds db) of None \<Rightarrow> (0, 0) | Some r \<Rightarrow> (rb_requested r, rb_done r)))"

definition sq_FailRebuild :: "tx_faults \<Rightarrow> lease \<Rightarrow> uint64 \<Rightarrow> string \<Rightarrow> 'x projection_db \<Rightarrow> 'x projection_db \<times> go_error option" where
  "sq_FailRebuild F l requested errMsg =
     runTx F ''fail rebuild'' (\<lambda>db. case ownedPosition F l db of
         Inl err \<Rightarrow> (db, Some err)
       | Inr _ \<Rightarrow> stmt F 1 db
           (db\<lparr>db_rebuilds := sql_update (\<lambda>r. rb_name r = l_Name l \<and> rb_failed r \<le> requested)
              (\<lambda>r. r\<lparr>rb_failed := requested, rb_error := Some errMsg\<rparr>) (db_rebuilds db)\<rparr>, None))"

definition sq_RebuildFailure :: "go_error option \<Rightarrow> string \<Rightarrow> 'x projection_db \<Rightarrow> go_error + uint64 \<times> string" where
  "sq_RebuildFailure fault name db =
     (case fault of
        Some err \<Rightarrow> Inl (Errorf ''sqlite: read rebuild failure'' [err])
      | None \<Rightarrow> Inr (case find (\<lambda>r. rb_name r = name) (db_rebuilds db) of None \<Rightarrow> (0, []) | Some r \<Rightarrow> (rb_failed r, null_value (rb_error r))))"

section \<open>Dead letters\<close>

text \<open>The two writes find the transaction of their commit in the context: \<open>inTx\<close> says whether there is one.\<close>

definition sq_SaveDeadLetter :: "bool \<Rightarrow> go_error option \<Rightarrow> int \<Rightarrow> lease \<Rightarrow> dead_letter \<Rightarrow> 'x projection_db \<Rightarrow> 'x projection_db \<times> go_error option" where
  "sq_SaveDeadLetter inTx fault now l d db =
     (if \<not> inTx then (db, Some (NewError ''sqlite: SaveDeadLetter called outside a ProjectionStore commit''))
      else (case fault of
          Some err \<Rightarrow> (db, Some (Errorf ''sqlite: save dead letter'' [err]))
        | None \<Rightarrow> (db\<lparr>db_letters := db_letters db @ [\<lparr>lt_projection = l_Name l, lt_segment = l_Segment l, lt_global_position = dl_Position d,
              lt_stream_id = dl_StreamID d, lt_event_type = dl_EventType d, lt_error = dl_Error d, lt_skipped_at = now\<rparr>]\<rparr>, None)))"

definition sq_LoadDeadLetters :: "go_error option \<Rightarrow> string \<Rightarrow> nat \<Rightarrow> 'x projection_db \<Rightarrow> go_error + dead_letter list" where
  "sq_LoadDeadLetters fault name segment db =
     (case fault of
        Some err \<Rightarrow> Inl (Errorf ''sqlite: load dead letters'' [err])
      | None \<Rightarrow> Inr (map (\<lambda>d. \<lparr>dl_Position = lt_global_position d, dl_StreamID = lt_stream_id d, dl_EventType = lt_event_type d, dl_Error = lt_error d\<rparr>)
          (sort_key lt_global_position (filter (\<lambda>d. lt_projection d = name \<and> lt_segment d = segment) (db_letters db)))))"

definition sq_DeleteDeadLetter :: "bool \<Rightarrow> go_error option \<Rightarrow> lease \<Rightarrow> uint64 \<Rightarrow> 'x projection_db \<Rightarrow> 'x projection_db \<times> go_error option" where
  "sq_DeleteDeadLetter inTx fault l pos db =
     (if \<not> inTx then (db, Some (NewError ''sqlite: DeleteDeadLetter called outside a ProjectionStore commit''))
      else (case fault of
          Some err \<Rightarrow> (db, Some (Errorf ''sqlite: delete dead letter'' [err]))
        | None \<Rightarrow> (db\<lparr>db_letters := filter (\<lambda>d. \<not> (lt_projection d = l_Name l \<and> lt_segment d = l_Segment l \<and> lt_global_position d = pos))
              (db_letters db)\<rparr>, None)))"

section \<open>Replay requests\<close>

text \<open>The number is that of the new request, or 0.\<close>

definition sq_RequestReplay :: "tx_faults \<Rightarrow> string \<Rightarrow> string \<Rightarrow> 'x projection_db \<Rightarrow> 'x projection_db \<times> (go_error + uint64)" where
  "sq_RequestReplay F name streamID db =
     (let held = filter (\<lambda>d. lt_projection d = name \<and> lt_stream_id d = streamID) (db_letters db);
          n = (if held = [] then 0 else db_replay_seq db + 1) in
      case runTx F ''request replay'' (\<lambda>db. stmt F 0 db
          (if \<not> list_ex (\<lambda>r. sg_name r = name) (db_segments db) then (db, Some (Sentinel ErrUnknownProjection))
           else stmt F 1 db (if held = [] then (db, None)
           else let db1 = db\<lparr>db_replays := db_replays db @ [\<lparr>rr_id = n, rr_name = name, rr_stream_id = streamID\<rparr>], db_replay_seq := n\<rparr>;
                    db2 = db1\<lparr>db_replay_segments := db_replay_segments db1
                      @ map (\<lambda>s. \<lparr>sr_replay = n, sr_segment = s, sr_done = False, sr_error = None\<rparr>) (remdups (map lt_segment held))\<rparr>
                in stmt F 2 db (stmt F 3 db1 (db2, None))))) db of
        (db', Some err) \<Rightarrow> (db', Inl err)
      | (db', None) \<Rightarrow> (db', Inr n))"

definition sq_PendingReplays :: "go_error option \<Rightarrow> string \<Rightarrow> 'x projection_db \<Rightarrow> go_error + replay list" where
  "sq_PendingReplays fault name db =
     (case fault of
        Some err \<Rightarrow> Inl (Errorf ''sqlite: load replay requests'' [err])
      | None \<Rightarrow> Inr (sort_key (\<lambda>p. (rq_Number p, rq_Segment p)) (concat (map (\<lambda>r.
          map (\<lambda>s. \<lparr>rq_Number = rr_id r, rq_StreamID = rr_stream_id r, rq_Segment = sr_segment s\<rparr>)
            (filter (\<lambda>s. sr_replay s = rr_id r \<and> \<not> sr_done s) (db_replay_segments db)))
          (filter (\<lambda>r. rr_name r = name) (db_replays db))))))"

definition replay_done :: "'x projection_db \<Rightarrow> string \<Rightarrow> string \<Rightarrow> nat \<Rightarrow> nat list" where
  "replay_done db name streamID number =
     map rr_id (filter (\<lambda>r. rr_name r = name \<and> rr_stream_id r = streamID \<and> rr_id r \<le> number
        \<and> \<not> list_ex (\<lambda>s. sr_replay s = rr_id r \<and> \<not> sr_done s) (db_replay_segments db)
        \<and> \<not> list_ex (\<lambda>s. sr_replay s = number \<and> (\<not> sr_done s \<or> sr_error s \<noteq> None)) (db_replay_segments db)) (db_replays db))"

definition sq_FinishReplay :: "tx_faults \<Rightarrow> lease \<Rightarrow> uint64 \<Rightarrow> string \<Rightarrow> 'x projection_db \<Rightarrow> 'x projection_db \<times> go_error option" where
  "sq_FinishReplay F l number errMsg =
     runTx F ''finish replay'' (\<lambda>db. case ownedPosition F l db of
         Inl err \<Rightarrow> (db, Some err)
       | Inr _ \<Rightarrow> stmt F 1 db (case find (\<lambda>r. rr_id r = number \<and> rr_name r = l_Name l) (db_replays db) of
           None \<Rightarrow> (db, None)
         | Some r \<Rightarrow>
             let db1 = db\<lparr>db_replay_segments := sql_update (\<lambda>s. sr_replay s = number \<and> sr_segment s = l_Segment l)
                         (\<lambda>s. s\<lparr>sr_done := True, sr_error := nullString errMsg\<rparr>) (db_replay_segments db)\<rparr>;
                 db2 = db1\<lparr>db_replay_segments := filter (\<lambda>s. sr_replay s \<notin> set (replay_done db1 (l_Name l) (rr_stream_id r) number)) (db_replay_segments db1)\<rparr>;
                 db3 = db2\<lparr>db_replays := filter (\<lambda>q. rr_id q \<notin> set (replay_done db2 (l_Name l) (rr_stream_id r) number)) (db_replays db2)\<rparr>
             in stmt F 2 db (stmt F 3 db1 (stmt F 4 db2 (db3, None)))))"

definition sq_ReplayResult :: "go_error option \<Rightarrow> string \<Rightarrow> uint64 \<Rightarrow> 'x projection_db \<Rightarrow> go_error + nat \<times> string list" where
  "sq_ReplayResult fault name number db =
     (case fault of
        Some err \<Rightarrow> Inl (Errorf ''sqlite: read replay'' [err])
      | None \<Rightarrow>
          let segs = (if list_ex (\<lambda>r. rr_name r = name \<and> rr_id r = number) (db_replays db)
                      then sort_key sr_segment (filter (\<lambda>s. sr_replay s = number) (db_replay_segments db)) else []) in
          Inr (length (filter (\<lambda>s. \<not> sr_done s) segs),
               List.map_filter (\<lambda>s. if sr_done s then sr_error s else None) segs))"

end
