(* ===== verification/Sql_Projections_Props.thy ===== *)
theory Sql_Projections_Props
  imports Sql_Projections
begin

text \<open>
  The contract of the projection store on SQLite: the rows and their claims, which make it an instance of \<open>fencing\<close> like the store in memory; a call
  under a lost claim changes nothing, not even the read model; a commit moves checkpoint and read model together or not at all; a
  reset starts every segment over.
\<close>

section \<open>Rows\<close>

definition row_key :: "segment_row \<Rightarrow> string \<times> nat" where
  "row_key r = (sg_name r, sg_segment r)"

definition segk :: "'x projection_db \<Rightarrow> string \<times> nat \<Rightarrow> segment_row option" where
  "segk db k = find (\<lambda>r. row_key r = k) (db_segments db)"

definition sq_holder :: "'x projection_db \<Rightarrow> string \<times> nat \<Rightarrow> string" where
  "sq_holder db k = (case segk db k of None \<Rightarrow> [] | Some r \<Rightarrow> null_value (sg_owner r))"

definition sq_epoch :: "'x projection_db \<Rightarrow> string \<times> nat \<Rightarrow> uint64" where
  "sq_epoch db k = (case segk db k of None \<Rightarrow> 0 | Some r \<Rightarrow> sg_epoch r)"

abbreviation sq_current :: "'x projection_db \<Rightarrow> lease \<Rightarrow> bool" where
  "sq_current db l \<equiv> current_claim sq_holder sq_epoch db (l_Name l, l_Segment l) (l_Owner l) (l_Epoch l)"

text \<open>The primary key of \<open>projection_segments\<close>.\<close>

definition keys_distinct :: "'x projection_db \<Rightarrow> bool" where
  "keys_distinct db \<longleftrightarrow> distinct (map row_key (db_segments db))"

lemma find_update:
  assumes "\<And>r. P (f r) = P r"
  shows "find P (sql_update c f rows) = map_option (\<lambda>r. if c r then f r else r) (find P rows)"
  using assms by (induction rows) (auto simp: sql_update_def)

lemma map_key_update:
  assumes "\<And>r. row_key (f r) = row_key r"
  shows "map row_key (sql_update c f rows) = map row_key rows"
  using assms by (induction rows) (auto simp: sql_update_def)

lemma row_ops_key [simp]:
  "row_key (claim_row now l ttl r) = row_key r" "row_key (commit_row now cp st r) = row_key r" "row_key (reset_segment_row now l v r) = row_key r"
  "row_key (status_row now st r) = row_key r" "row_key (r\<lparr>sg_owner := w, sg_phase := ph\<rparr>) = row_key r" "row_key (new_segment_row name i n now) = (name, i)"
  by (simp_all add: row_key_def claim_row_def commit_row_def reset_segment_row_def status_row_def new_segment_row_def)

lemma segk_update:
  assumes "\<And>r. row_key (f r) = row_key r"
  shows "segk (db\<lparr>db_segments := sql_update c f (db_segments db)\<rparr>) k = map_option (\<lambda>r. if c r then f r else r) (segk db k)"
  using assms by (simp add: segk_def find_update)

lemma segk_cong: "db_segments db' = db_segments db \<Longrightarrow> segk db' k = segk db k"
  by (simp add: segk_def)

text \<open>Under the primary key, a condition on the key selects the row of the key or none.\<close>

lemma find_key:
  assumes "distinct (map row_key rows)" "\<And>r. Q r \<Longrightarrow> row_key r = k"
  shows "find Q rows = (case find (\<lambda>r. row_key r = k) rows of None \<Rightarrow> None | Some r \<Rightarrow> if Q r then Some r else None)"
  using assms
proof (induction rows)
  case (Cons r rows)
  have "find Q rows = None" if "row_key r = k"
  proof -
    have "row_key q \<noteq> k" if "q \<in> set rows" for q using imageI [OF that, of row_key] Cons.prems(1) \<open>row_key r = k\<close> by auto
    then show ?thesis using Cons.prems(2) by (auto simp: find_None_iff)
  qed
  then show ?case using Cons by auto
qed simp

lemma key_find:
  assumes "keys_distinct db" "\<And>r. Q r \<Longrightarrow> row_key r = k"
  shows "find Q (db_segments db) = (case segk db k of None \<Rightarrow> None | Some r \<Rightarrow> if Q r then Some r else None)"
  unfolding segk_def by (rule find_key) (use assms in \<open>auto simp: keys_distinct_def\<close>)

lemma claim_keys: "claimed_by l r \<Longrightarrow> row_key r = (l_Name l, l_Segment l)" "claimable now l r \<Longrightarrow> row_key r = (l_Name l, l_Segment l)"
  by (simp_all add: claimed_by_def claimable_def row_key_def)

lemma claimed_current:
  assumes "keys_distinct db" "l_Owner l \<noteq> []"
  shows "find (claimed_by l) (db_segments db) \<noteq> None \<longleftrightarrow> sq_current db l"
proof -
  have "find (claimed_by l) (db_segments db) =
      (case segk db (l_Name l, l_Segment l) of None \<Rightarrow> None | Some r \<Rightarrow> if claimed_by l r then Some r else None)"
    by (rule key_find [OF assms(1)]) (rule claim_keys)
  moreover have "row_key r = (l_Name l, l_Segment l)" if "segk db (l_Name l, l_Segment l) = Some r" for r
    using that by (auto simp: segk_def find_Some_iff)
  ultimately show ?thesis
    using assms(2) by (auto simp: current_claim_def sq_holder_def sq_epoch_def claimed_by_def row_key_def null_value_def split: option.splits)
qed

section \<open>Transactions\<close>

lemma runTx_failed: "runTx F op fn db = (db', Some e) \<Longrightarrow> db' = db"
  by (auto simp: runTx_def split: option.splits prod.splits)

lemma runTx_success: "runTx F op fn db = (db', None) \<Longrightarrow> fn db = (db', None)"
  by (auto simp: runTx_def split: option.splits prod.splits)

lemma runTx_cases:
  obtains e where "runTx F op fn db = (db, Some e)" | db' where "runTx F op fn db = (db', None)" "fn db = (db', None)"
proof (cases "snd (runTx F op fn db)")
  case None
  then have "runTx F op fn db = (fst (runTx F op fn db), None)" by (metis prod.collapse)
  then show ?thesis using runTx_success that(2) by blast
next
  case (Some e)
  then have "runTx F op fn db = (fst (runTx F op fn db), Some e)" by (metis prod.collapse)
  then show ?thesis using runTx_failed that(1) by metis
qed

lemma stmt_success: "stmt F i db k = (db', None) \<longleftrightarrow> tf_stmt F i = None \<and> k = (db', None)"
  by (auto simp: stmt_def split: option.splits)

lemma ownedPosition_Inr: "ownedPosition F l db = Inr p \<Longrightarrow> find (claimed_by l) (db_segments db) \<noteq> None"
  by (auto simp: ownedPosition_def split: option.splits)

section \<open>Steps\<close>

text \<open>A unit of work writes the read model and the dead letters.\<close>

definition unit_of_work :: "('x projection_db \<Rightarrow> 'x projection_db \<times> go_error option) \<Rightarrow> bool" where
  "unit_of_work fn \<longleftrightarrow> (\<forall>db. \<exists>letters x. fst (fn db) = db\<lparr>db_letters := letters, db_model := x\<rparr>)"

inductive sq_step :: "'x projection_db \<Rightarrow> 'x projection_db \<Rightarrow> bool" where
  declared: "sq_step db (fst (sq_Declare F nows name segments replayUntil db))"
| claim: "sq_step db (fst (sq_Claim fault now l ttl db))"
| commit: "unit_of_work fn \<Longrightarrow> sq_step db (fst (sq_Commit F now l cp st fn db))"
| reset: "unit_of_work wipe \<Longrightarrow> sq_step db (fst (sq_Reset F now l v wipe db))"
| release: "sq_step db (fst (sq_Release fault l db))"
| status: "sq_step db (fst (sq_SaveStatus fault fault' now l st db))"
| heartbeat: "sq_step db (fst (sq_Heartbeat F nows name who v ttl db))"
| request_rebuild: "sq_step db (fst (sq_RequestRebuild fault name db))"
| fail_rebuild: "sq_step db (fst (sq_FailRebuild F l requested errMsg db))"
| save_letter: "sq_step db (fst (sq_SaveDeadLetter inTx fault now l d db))"
| delete_letter: "sq_step db (fst (sq_DeleteDeadLetter inTx fault l pos db))"
| request_replay: "sq_step db (fst (sq_RequestReplay F name streamID db))"
| finish_replay: "sq_step db (fst (sq_FinishReplay F l number errMsg db))"

definition seg_step :: "segment_row option \<Rightarrow> segment_row option \<Rightarrow> bool" where
  "seg_step r r' \<longleftrightarrow> (case (r, r') of
      (None, None) \<Rightarrow> True
    | (None, Some b) \<Rightarrow> sg_owner b = None \<and> sg_epoch b = 0
    | (Some a, Some b) \<Rightarrow> sg_epoch b = sg_epoch a \<and> (sg_owner b = sg_owner a \<or> sg_owner b = None) \<or> sg_epoch b = sg_epoch a + 1
    | (Some a, None) \<Rightarrow> False)"

lemma seg_step_refl [simp]: "seg_step r r"
  by (simp add: seg_step_def split: option.splits)

lemma seg_step_map: "(\<And>r. seg_step (Some r) (Some (f r))) \<Longrightarrow> seg_step (segk db k) (map_option (\<lambda>r. if c r then f r else r) (segk db k))"
  by (cases "segk db k") (auto simp: seg_step_def split: option.splits)

lemma seg_step_rows:
  "seg_step (Some r) (Some (claim_row now l ttl r))" "seg_step (Some r) (Some (commit_row now cp st r))" "seg_step (Some r) (Some (reset_segment_row now l v r))"
  "seg_step (Some r) (Some (status_row now st r))" "seg_step (Some r) (Some (r\<lparr>sg_owner := None, sg_phase := ph\<rparr>))"
  by (auto simp: seg_step_def claim_row_def commit_row_def reset_segment_row_def status_row_def)

text \<open>A step updates rows under their keys, or declares a projection that has none.\<close>

definition rows_step :: "'x projection_db \<Rightarrow> 'x projection_db \<Rightarrow> bool" where
  "rows_step db db' \<longleftrightarrow> (\<forall>k. seg_step (segk db k) (segk db' k)) \<and> (keys_distinct db \<longrightarrow> keys_distinct db')"

lemma rows_step_same:
  assumes "db_segments db' = db_segments db"
  shows "rows_step db db'"
  unfolding rows_step_def keys_distinct_def segk_cong [OF assms] assms by simp

lemma rows_step_update:
  assumes "db_segments db' = sql_update c f (db_segments db)" "\<And>r. row_key (f r) = row_key r" "\<And>r. seg_step (Some r) (Some (f r))"
  shows "rows_step db db'"
  unfolding rows_step_def keys_distinct_def
proof (intro conjI allI impI)
  fix k
  have "segk db' k = map_option (\<lambda>r. if c r then f r else r) (segk db k)" using assms(1,2) by (simp add: segk_def find_update)
  then show "seg_step (segk db k) (segk db' k)" by (simp only: seg_step_map [OF assms(3)])
qed (simp add: assms(1,2) map_key_update)

lemma find_append: "find P (xs @ ys) = (case find P xs of None \<Rightarrow> find P ys | Some r \<Rightarrow> Some r)"
  by (induction xs) auto

lemma rows_step_insert:
  assumes "insert_segments F now name replayUntil is db = (db', None)" "\<And>r. r \<in> set (db_segments db) \<Longrightarrow> sg_name r \<noteq> name" and "distinct is"
  shows "rows_step db db'"
proof -
  define new where "new = map (\<lambda>i. new_segment_row name i replayUntil (now i)) is"
  have seg: "db_segments db' = db_segments db @ new"
    unfolding new_def using assms(1) by (induction "is" arbitrary: db) (auto simp: stmt_success)
  have "seg_step None (find (\<lambda>r. row_key r = k) new)" for k
    unfolding new_def by (induction "is") (auto simp: seg_step_def new_segment_row_def)
  then have "seg_step (segk db k) (segk db' k)" for k
    by (cases "segk db k") (simp_all add: segk_def seg find_append)
  moreover have "distinct (map row_key (db_segments db'))" if "distinct (map row_key (db_segments db))"
    using that assms(2,3) by (auto simp: seg new_def distinct_map comp_def inj_on_def row_key_def new_segment_row_def)
  ultimately show ?thesis unfolding rows_step_def keys_distinct_def by blast
qed

lemma rows_step_refl [simp]: "rows_step db db"
  by (simp add: rows_step_same)

lemma runTx_rows:
  assumes "\<And>db'. fn db = (db', None) \<Longrightarrow> rows_step db db'"
  shows "rows_step db (fst (runTx F op fn db))"
  using assms by (cases rule: runTx_cases [of F op fn db]) auto

lemma runTx_segments:
  assumes "\<And>db'. fn db = (db', None) \<Longrightarrow> db_segments db' = db_segments db"
  shows "db_segments (fst (runTx F op fn db)) = db_segments db"
  using assms by (cases rule: runTx_cases [of F op fn db]) auto

lemma declare_rows: "rows_step db (fst (sq_Declare F now name segments replayUntil db))"
  unfolding sq_Declare_def
proof (rule runTx_rows)
  fix db'
  let ?count = "length (filter (\<lambda>r. sg_name r = name) (db_segments db))"
  assume "stmt F 0 db (let count = ?count in
      if count \<noteq> 0 then if count \<noteq> segments then (db, Some (Sentinel ErrSegmentsChanged)) else (db, None)
      else insert_segments F now name replayUntil [0..<segments] db) = (db', None)"
  then consider "db' = db" | "?count = 0" "insert_segments F now name replayUntil [0..<segments] db = (db', None)"
    by (auto simp: stmt_success Let_def split: if_splits)
  then show "rows_step db db'"
  proof cases
    case 2
    from 2(1) have "sg_name r \<noteq> name" if "r \<in> set (db_segments db)" for r using that by (auto simp: filter_empty_conv)
    then show ?thesis using rows_step_insert [OF 2(2)] by simp
  qed simp
qed

lemma unit_of_work_segments:
  assumes "unit_of_work fn" "fn db = (db', e)"
  shows "db_segments db' = db_segments db"
proof -
  obtain letters x where "fst (fn db) = db\<lparr>db_letters := letters, db_model := x\<rparr>" using assms(1) unfolding unit_of_work_def by blast
  then show ?thesis using assms(2) by simp
qed

text \<open>What a successful commit and a successful reset did.\<close>

lemma commit_success:
  assumes "sq_Commit F now l cp st fn db = (db', None)"
  obtains db1 where "find (claimed_by l) (db_segments db) \<noteq> None" "fn db = (db1, None)"
    "db' = db1\<lparr>db_segments := sql_update (claimed_by l) (commit_row now cp st) (db_segments db1)\<rparr>"
proof -
  note tx = runTx_success [OF assms [unfolded sq_Commit_def]]
  from tx obtain p db1 where op: "ownedPosition F l db = Inr p" and fn: "fn db = (db1, None)"
    by (auto split: sum.splits prod.splits option.splits)
  show ?thesis
    by (rule that [OF ownedPosition_Inr [OF op] fn]) (use tx op fn in \<open>auto simp: stmt_success Let_def\<close>)
qed

lemma reset_success:
  assumes "sq_Reset F now l v wipe db = (db', None)"
  obtains db1 where "find (claimed_by l) (db_segments db) \<noteq> None" "wipe db = (db1, None)"
    "db_segments db' = sql_update (\<lambda>r. sg_name r = l_Name l) (reset_segment_row now l v) (db_segments db1)"
    "db_letters db' = filter (\<lambda>d. lt_projection d \<noteq> l_Name l) (db_letters db1)"
    "db_replays db' = filter (\<lambda>r. rr_name r \<noteq> l_Name l) (db_replays db1)"
    "db_rebuilds db' = sql_update (\<lambda>r. rb_name r = l_Name l) (\<lambda>r. r\<lparr>rb_done := rb_requested r\<rparr>) (db_rebuilds db1)"
    "db_model db' = db_model db1"
proof -
  note tx = runTx_success [OF assms [unfolded sq_Reset_def]]
  from tx obtain p db1 where op: "ownedPosition F l db = Inr p" and fn: "wipe db = (db1, None)"
    by (auto split: sum.splits prod.splits option.splits)
  show ?thesis
    by (rule that [OF ownedPosition_Inr [OF op] fn]) (use tx op fn in \<open>auto simp: stmt_success Let_def\<close>)
qed

lemma commit_failed: "sq_Commit F now l cp st fn db = (db', Some e) \<Longrightarrow> db' = db"
  unfolding sq_Commit_def by (rule runTx_failed)

lemma reset_failed: "sq_Reset F now l v wipe db = (db', Some e) \<Longrightarrow> db' = db"
  unfolding sq_Reset_def by (rule runTx_failed)

lemma claim_rows: "rows_step db (fst (sq_Claim fault now l ttl db))"
proof (cases "fault = None \<and> find (claimable now l) (db_segments db) \<noteq> None")
  case True
  then have "db_segments (fst (sq_Claim fault now l ttl db)) = sql_update (claimable now l) (claim_row now l ttl) (db_segments db)"
    by (auto simp: sq_Claim_def Let_def)
  then show ?thesis by (rule rows_step_update) (simp_all add: seg_step_rows)
next
  case False
  then have "fst (sq_Claim fault now l ttl db) = db" by (auto simp: sq_Claim_def split: option.splits)
  then show ?thesis by simp
qed

lemma commit_rows:
  assumes "unit_of_work fn"
  shows "rows_step db (fst (sq_Commit F now l cp st fn db))"
proof (cases "sq_Commit F now l cp st fn db")
  case (Pair db' r)
  show ?thesis
  proof (cases r)
    case None
    with Pair have ok: "sq_Commit F now l cp st fn db = (db', None)" by simp
    show ?thesis
    proof (rule commit_success [OF ok])
      fix db1 assume fn: "fn db = (db1, None)"
        and db': "db' = db1\<lparr>db_segments := sql_update (claimed_by l) (commit_row now cp st) (db_segments db1)\<rparr>"
      have "db_segments db' = sql_update (claimed_by l) (commit_row now cp st) (db_segments db)"
        using db' unit_of_work_segments [OF assms fn] by simp
      then show ?thesis unfolding Pair fst_conv by (rule rows_step_update) (simp_all add: seg_step_rows)
    qed
  next
    case (Some e)
    with Pair have "db' = db" using commit_failed by blast
    then show ?thesis using Pair by simp
  qed
qed

lemma reset_rows:
  assumes "unit_of_work wipe"
  shows "rows_step db (fst (sq_Reset F now l v wipe db))"
proof (cases "sq_Reset F now l v wipe db")
  case (Pair db' r)
  show ?thesis
  proof (cases r)
    case None
    with Pair have ok: "sq_Reset F now l v wipe db = (db', None)" by simp
    show ?thesis
    proof (rule reset_success [OF ok])
      fix db1 assume fn: "wipe db = (db1, None)"
        and db': "db_segments db' = sql_update (\<lambda>r. sg_name r = l_Name l) (reset_segment_row now l v) (db_segments db1)"
      have "db_segments db' = sql_update (\<lambda>r. sg_name r = l_Name l) (reset_segment_row now l v) (db_segments db)"
        using db' unit_of_work_segments [OF assms fn] by simp
      then show ?thesis unfolding Pair fst_conv by (rule rows_step_update) (simp_all add: seg_step_rows)
    qed
  next
    case (Some e)
    with Pair have "db' = db" using reset_failed by blast
    then show ?thesis using Pair by simp
  qed
qed

lemma release_rows: "rows_step db (fst (sq_Release fault l db))"
proof (cases fault)
  case None
  then have "db_segments (fst (sq_Release fault l db)) = sql_update (claimed_by l) (\<lambda>r. r\<lparr>sg_owner := None, sg_phase := ''standby''\<rparr>) (db_segments db)"
    by (simp add: sq_Release_def)
  then show ?thesis by (rule rows_step_update) (simp_all add: seg_step_rows)
qed (simp add: sq_Release_def)

lemma status_rows: "rows_step db (fst (sq_SaveStatus fault fault' now l st db))"
proof (cases fault)
  case None
  then have "db_segments (fst (sq_SaveStatus fault fault' now l st db)) = sql_update (claimed_by l) (status_row now st) (db_segments db)"
    by (simp add: sq_SaveStatus_def)
  then show ?thesis by (rule rows_step_update) (simp_all add: seg_step_rows)
qed (simp add: sq_SaveStatus_def)

lemma request_replay_segments: "db_segments (fst (sq_RequestReplay F name streamID db)) = db_segments db"
  by (auto simp: sq_RequestReplay_def Let_def stmt_success dest!: runTx_failed runTx_success split: prod.splits option.splits if_splits)

lemma fail_rebuild_segments: "db_segments (fst (sq_FailRebuild F l requested errMsg db)) = db_segments db"
  unfolding sq_FailRebuild_def
  by (rule runTx_segments) (auto simp: stmt_success split: sum.splits)

lemma finish_replay_segments: "db_segments (fst (sq_FinishReplay F l number errMsg db)) = db_segments db"
  unfolding sq_FinishReplay_def
  by (rule runTx_segments) (auto simp: stmt_success Let_def split: sum.splits option.splits)

lemma heartbeat_segments: "db_segments (fst (sq_Heartbeat F nows name who v ttl db)) = db_segments db"
  by (auto simp: sq_Heartbeat_def Let_def stmt_success dest!: runTx_failed runTx_success split: prod.splits option.splits if_splits)

lemma sq_step_rows: "sq_step db db' \<Longrightarrow> rows_step db db'"
proof (induction rule: sq_step.induct)
  case (request_rebuild db fault name)
  show ?case by (rule rows_step_same) (auto simp: sq_RequestRebuild_def split: option.splits)
next
  case (save_letter db inTx fault now l d)
  show ?case by (rule rows_step_same) (auto simp: sq_SaveDeadLetter_def split: option.splits)
next
  case (delete_letter db inTx fault l pos)
  show ?case by (rule rows_step_same) (auto simp: sq_DeleteDeadLetter_def split: option.splits)
qed (simp_all add: declare_rows claim_rows commit_rows reset_rows release_rows status_rows rows_step_same
      heartbeat_segments fail_rebuild_segments request_replay_segments finish_replay_segments)

lemma sq_steps_keys: "sq_step\<^sup>*\<^sup>* db db' \<Longrightarrow> keys_distinct db \<Longrightarrow> keys_distinct db'"
  by (induction rule: rtranclp_induct) (auto dest: sq_step_rows simp: rows_step_def)

interpretation qfence: fencing "sq_step :: 'x projection_db \<Rightarrow> 'x projection_db \<Rightarrow> bool" sq_holder sq_epoch
proof
  fix db db' :: "'x projection_db" and k
  assume "sq_step db db'"
  then have r: "seg_step (segk db k) (segk db' k)" using sq_step_rows unfolding rows_step_def by blast
  then show "sq_epoch db k \<le> sq_epoch db' k"
    by (auto simp: seg_step_def sq_epoch_def split: option.splits)
  assume "sq_epoch db' k = sq_epoch db k"
  with r show "sq_holder db' k = sq_holder db k \<or> sq_holder db' k = []"
    by (auto simp: seg_step_def sq_epoch_def sq_holder_def null_value_def split: option.splits)
qed

section \<open>Fenced calls\<close>

definition tx_starts :: "tx_faults \<Rightarrow> bool" where
  "tx_starts F \<longleftrightarrow> tf_begin F = None \<and> tf_stmt F 0 = None"

text \<open>A lease under which every call fails and changes nothing, with \<open>ErrClaimLost\<close> when the driver answers.\<close>

definition sq_refused :: "'x projection_db \<Rightarrow> lease \<Rightarrow> bool" where
  "sq_refused db l \<longleftrightarrow>
     (\<forall>F now cp st fn. \<exists>e. sq_Commit F now l cp st fn db = (db, Some e) \<and> (tx_starts F \<longrightarrow> e = Sentinel ErrClaimLost))
     \<and> (\<forall>F now v wipe. \<exists>e. sq_Reset F now l v wipe db = (db, Some e) \<and> (tx_starts F \<longrightarrow> e = Sentinel ErrClaimLost))
     \<and> (\<forall>F requested msg. \<exists>e. sq_FailRebuild F l requested msg db = (db, Some e) \<and> (tx_starts F \<longrightarrow> e = Sentinel ErrClaimLost))
     \<and> (\<forall>F number msg. \<exists>e. sq_FinishReplay F l number msg db = (db, Some e) \<and> (tx_starts F \<longrightarrow> e = Sentinel ErrClaimLost))
     \<and> (\<forall>fault fault' now st. \<exists>e. sq_SaveStatus fault fault' now l st db = (db, Some e)
          \<and> (fault = None \<and> fault' = None \<longrightarrow> e = Sentinel ErrClaimLost))
     \<and> (\<forall>fault. fst (sq_Release fault l db) = db) \<and> snd (sq_Release None l db) = None
     \<and> (\<forall>fault now d. \<exists>e. sq_SaveDeadLetter False fault now l d db = (db, Some e))
     \<and> (\<forall>fault pos. \<exists>e. sq_DeleteDeadLetter False fault l pos db = (db, Some e))"

lemma update_none: "filter c rows = [] \<Longrightarrow> sql_update c f rows = rows"
  by (auto simp: sql_update_def filter_empty_conv map_idI)

lemma fenced_refused:
  assumes "find (claimed_by l) (db_segments db) = None"
  shows "\<exists>e. runTx F op (\<lambda>db. case ownedPosition F l db of Inl err \<Rightarrow> (db, Some err) | Inr p \<Rightarrow> g db) db = (db, Some e)
      \<and> (tx_starts F \<longrightarrow> e = Sentinel ErrClaimLost)"
  using assms by (auto simp: runTx_def ownedPosition_def tx_starts_def split: option.splits)

lemma not_claimed_refused:
  assumes "find (claimed_by l) (db_segments db) = None"
  shows "sq_refused db l"
proof -
  have none: "filter (claimed_by l) (db_segments db) = []" using assms by (auto simp: find_None_iff filter_empty_conv)
  have same: "sql_update (claimed_by l) f (db_segments db) = db_segments db" for f by (rule update_none [OF none])
  show ?thesis
    unfolding sq_refused_def sq_Commit_def sq_Reset_def sq_FailRebuild_def sq_FinishReplay_def
    by (intro conjI allI fenced_refused [OF assms])
      (auto simp: sq_SaveStatus_def sq_Release_def sq_claimHeld_def sq_SaveDeadLetter_def sq_DeleteDeadLetter_def none same split: option.splits)
qed

lemma claim_granted:
  assumes "sq_Claim fault now l ttl db = (db1, Inr (lse, cp, True))"
  obtains r where "find (claimable now l) (db_segments db) = Some r" "lse = l\<lparr>l_Epoch := sg_epoch (claim_row now l ttl r)\<rparr>"
    "cp = \<lparr>cp_Position = sg_position r, cp_Version = sg_version r, cp_ReplayUntil = sg_replay_until r, cp_Fingerprint = sg_fingerprint r\<rparr>"
    "db1 = db\<lparr>db_segments := sql_update (claimable now l) (claim_row now l ttl) (db_segments db)\<rparr>"
proof -
  from assms obtain r where "find (claimable now l) (db_segments db) = Some r"
    by (auto simp: sq_Claim_def split: option.splits)
  with assms show ?thesis by (intro that [of r]) (auto simp: sq_Claim_def Let_def claim_row_def split: option.splits)
qed

lemma claimable_row:
  assumes "keys_distinct db" "find (claimable now l) (db_segments db) = Some r"
  shows "segk db (l_Name l, l_Segment l) = Some r" "claimable now l r"
proof -
  have "find (claimable now l) (db_segments db) =
      (case segk db (l_Name l, l_Segment l) of None \<Rightarrow> None | Some r \<Rightarrow> if claimable now l r then Some r else None)"
    by (rule key_find [OF assms(1)]) (rule claim_keys)
  with assms(2) show "segk db (l_Name l, l_Segment l) = Some r" "claimable now l r" by (auto split: option.splits if_splits)
qed

lemma claim_current:
  assumes "sq_Claim fault now l ttl db = (db1, Inr (lse, cp, True))" "keys_distinct db" "l_Owner l \<noteq> []"
  shows "sq_current db1 lse" "sq_step db db1" "l_Name lse = l_Name l" "l_Segment lse = l_Segment l" "l_Owner lse = l_Owner l"
proof -
  obtain r where r: "find (claimable now l) (db_segments db) = Some r" "lse = l\<lparr>l_Epoch := sg_epoch (claim_row now l ttl r)\<rparr>"
    "db1 = db\<lparr>db_segments := sql_update (claimable now l) (claim_row now l ttl) (db_segments db)\<rparr>"
    by (rule claim_granted [OF assms(1)])
  show "l_Name lse = l_Name l" "l_Segment lse = l_Segment l" "l_Owner lse = l_Owner l" by (simp_all add: r(2))
  note row = claimable_row [OF assms(2) r(1)]
  have "segk db1 (l_Name l, l_Segment l) = Some (claim_row now l ttl r)" unfolding r(3) by (simp add: segk_update row)
  then show "sq_current db1 lse" using assms(3) by (simp add: r(2) current_claim_def sq_holder_def sq_epoch_def null_value_def claim_row_def)
  show "sq_step db db1" using sq_step.claim [of db fault now l ttl] assms(1) by simp
qed

lemma commit_segk:
  assumes "unit_of_work fn" "keys_distinct db" "find (claimed_by l) (db_segments db) \<noteq> None" "fn db = (db1, None)"
  shows "segk (db1\<lparr>db_segments := sql_update (claimed_by l) (commit_row now cp st) (db_segments db1)\<rparr>) k =
    (if k = (l_Name l, l_Segment l) then map_option (commit_row now cp st) (segk db k) else segk db k)"
proof -
  have same: "segk db1 k = segk db k" for k by (rule segk_cong) (rule unit_of_work_segments [OF assms(1,4)])
  have key: "row_key r = k" if "segk db k = Some r" for r k using that by (auto simp: segk_def find_Some_iff)
  obtain r where r: "find (claimed_by l) (db_segments db) = Some r" using assms(3) by blast
  have "find (claimed_by l) (db_segments db) =
      (case segk db (l_Name l, l_Segment l) of None \<Rightarrow> None | Some r \<Rightarrow> if claimed_by l r then Some r else None)"
    by (rule key_find [OF assms(2)]) (rule claim_keys)
  then have hit: "segk db (l_Name l, l_Segment l) = Some r \<and> claimed_by l r" using r by (auto split: option.splits if_splits)
  have miss: "\<not> claimed_by l q" if "segk db k = Some q" "k \<noteq> (l_Name l, l_Segment l)" for q k
    using key [OF that(1)] that(2) by (auto simp: claimed_by_def row_key_def)
  show ?thesis using hit miss [of k] by (cases "segk db k") (auto simp: segk_update same)
qed

lemma next_claim:
  assumes "sq_Claim fault now' l' ttl db' = (db2, Inr (lse, cp', True))" "keys_distinct db'"
    and "segk db' (l_Name l', l_Segment l') = map_option (commit_row now cp st) x"
  shows "cp' = cp"
proof -
  obtain r where r: "find (claimable now' l') (db_segments db') = Some r"
    "cp' = \<lparr>cp_Position = sg_position r, cp_Version = sg_version r, cp_ReplayUntil = sg_replay_until r, cp_Fingerprint = sg_fingerprint r\<rparr>"
    by (rule claim_granted [OF assms(1)])
  then have "segk db' (l_Name l', l_Segment l') = Some r" by (intro claimable_row [OF assms(2)])
  then show ?thesis using assms(3) r(2) by (auto simp: commit_row_def)
qed

section \<open>Properties\<close>


text \<open>Claims of a segment on SQLite exclude each other: a claim granted after another one of the same segment is a renewal that returns the
  same lease, or has a higher epoch, and the earlier lease is refused.\<close>

theorem sqlite_claim_exclusive:
  assumes "keys_distinct db" "sq_Claim fault now l ttl db = (db1, Inr (a, cp, True))" "l_Owner l \<noteq> []"
    and "sq_step\<^sup>*\<^sup>* db1 db2" "sq_Claim fault' now' l' ttl' db2 = (db3, Inr (b, cp', True))" "l_Owner l' \<noteq> []"
    and "l_Name l' = l_Name l" "l_Segment l' = l_Segment l"
  shows "b = a \<or> l_Epoch a < l_Epoch b \<and> sq_refused db3 a"
proof -
  note ca = claim_current [OF assms(2,1,3)]
  have k2: "keys_distinct db2" using assms(1,4) ca(2) sq_steps_keys by (meson converse_rtranclp_into_rtranclp)
  note cb = claim_current [OF assms(5) k2 assms(6)]
  have steps: "sq_step\<^sup>*\<^sup>* db1 db3" using assms(4) cb(2) by auto
  have k3: "keys_distinct db3" using cb(2) k2 sq_steps_keys by blast
  have key: "l_Name b = l_Name a" "l_Segment b = l_Segment a" using ca(3,4) cb(3,4) assms(7,8) by auto
  have le: "l_Epoch a \<le> l_Epoch b"
    using qfence.steps_epoch_mono [OF steps, of "(l_Name a, l_Segment a)"] ca(1) cb(1) key by (simp add: current_claim_def)
  show ?thesis
  proof (cases "l_Epoch b = l_Epoch a")
    case True
    have "l_Owner b = l_Owner a"
      using qfence.epoch_owner_unique [OF ca(1) steps, of "l_Owner b"] cb(1) key True by simp
    with key True show ?thesis by simp
  next
    case False
    then have "\<not> sq_current db3 a" using cb(1) key by (simp add: current_claim_def)
    then have "sq_refused db3 a" using claimed_current [OF k3, of a] ca(5) assms(3) not_claimed_refused by auto
    with le False show ?thesis by simp
  qed
qed

text \<open>(C29) A commit on SQLite moves the read model and the checkpoint together or not at all: when it fails, at any statement, the database is what it was;
  when it returns nil, the lease was the current claim, the unit of work ran without an error and its writes are in the database, the row of the segment
  has the new checkpoint and status and every other row is as it was; and whoever claims the segment next starts from that checkpoint.\<close>

theorem sqlite_commit_atomic:
  assumes "unit_of_work fn" "keys_distinct db" "sq_Commit F now l cp st fn db = (db', r)"
  shows "case r of
      Some e \<Rightarrow> db' = db
    | None \<Rightarrow> find (claimed_by l) (db_segments db) \<noteq> None \<and> snd (fn db) = None
        \<and> db_model db' = db_model (fst (fn db)) \<and> db_letters db' = db_letters (fst (fn db))
        \<and> (\<forall>k. segk db' k = (if k = (l_Name l, l_Segment l) then map_option (commit_row now cp st) (segk db k) else segk db k))
        \<and> (\<forall>fault now' l' ttl. case sq_Claim fault now' l' ttl db' of
              (_, Inr (_, cp', True)) \<Rightarrow> l_Name l' = l_Name l \<longrightarrow> l_Segment l' = l_Segment l \<longrightarrow> cp' = cp
            | _ \<Rightarrow> True)"
proof (cases r)
  case (Some e)
  then show ?thesis using assms(3) commit_failed by auto
next
  case None
  with assms(3) have ok: "sq_Commit F now l cp st fn db = (db', None)" by simp
  show ?thesis
  proof (rule commit_success [OF ok])
    fix db1
    assume held: "find (claimed_by l) (db_segments db) \<noteq> None" and fn: "fn db = (db1, None)"
      and db': "db' = db1\<lparr>db_segments := sql_update (claimed_by l) (commit_row now cp st) (db_segments db1)\<rparr>"
    have rows: "segk db' k = (if k = (l_Name l, l_Segment l) then map_option (commit_row now cp st) (segk db k) else segk db k)" for k
      using commit_segk [OF assms(1,2) held fn] db' by simp
    have "keys_distinct db'" using commit_rows [OF assms(1), of db F now l cp st] assms(2) ok by (simp add: rows_step_def)
    then have "cp' = cp" if "sq_Claim fault now' l' ttl db' = (db2, Inr (lse, cp', True))" "l_Name l' = l_Name l" "l_Segment l' = l_Segment l"
      for fault now' l' ttl db2 lse cp'
      using next_claim [OF that(1)] rows that(2,3) by simp
    then show ?thesis using None held fn db' rows by (auto split: prod.splits sum.splits bool.splits)
  qed
qed

section \<open>Witnesses\<close>

definition demo_rows :: "nat projection_db" where
  "demo_rows = \<lparr>db_segments = [new_segment_row ''p'' 0 0 0], db_rebuilds = [], db_instances = [], db_letters = [], db_replays = [], db_replay_seq = 0,
     db_replay_segments = [], db_model = 0\<rparr>"

definition demo_qa :: lease where
  "demo_qa = \<lparr>l_Name = ''p'', l_Segment = 0, l_Owner = ''a'', l_Epoch = 0\<rparr>"

definition demo_qb :: lease where
  "demo_qb = \<lparr>l_Name = ''p'', l_Segment = 0, l_Owner = ''b'', l_Epoch = 0\<rparr>"

definition demo_fine :: tx_faults where
  "demo_fine = \<lparr>tf_begin = None, tf_stmt = (\<lambda>_. None), tf_commit = None\<rparr>"

definition demo_work :: "nat projection_db \<Rightarrow> nat projection_db \<times> go_error option" where
  "demo_work db = (db\<lparr>db_letters := db_letters db, db_model := db_model db + 1\<rparr>, None)"

definition demo_checkpoint :: checkpoint where
  "demo_checkpoint = \<lparr>cp_Position = 7, cp_Version = 1, cp_ReplayUntil = 0, cp_Fingerprint = ''f''\<rparr>"

lemmas demo_sql = demo_rows_def demo_qa_def demo_qb_def demo_fine_def new_segment_row_def sq_Claim_def claimable_def claim_row_def sql_update_def
  Milliseconds_def claimed_by_def

definition demo_db1 :: "nat projection_db" where
  "demo_db1 = fst (sq_Claim None 1000 demo_qa 1000000 demo_rows)"

definition demo_db2 :: "nat projection_db" where
  "demo_db2 = fst (sq_Claim None 2000 demo_qb 1000000 demo_db1)"

lemma demo_row_keys: "keys_distinct demo_rows"
  by (simp add: demo_rows_def keys_distinct_def)

lemma demo_first: "sq_Claim None 1000 demo_qa 1000000 demo_rows = (demo_db1, Inr (demo_qa\<lparr>l_Epoch := 1\<rparr>, zero_checkpoint, True))"
  unfolding demo_db1_def by (simp add: demo_sql zero_checkpoint_def)

lemma demo_second: "sq_Claim None 2000 demo_qb 1000000 demo_db1 = (demo_db2, Inr (demo_qb\<lparr>l_Epoch := 2\<rparr>, zero_checkpoint, True))"
  unfolding demo_db2_def demo_db1_def by (simp add: demo_sql zero_checkpoint_def)

lemma demo_owners: "l_Owner demo_qa \<noteq> []" "l_Owner demo_qb \<noteq> []" "l_Name demo_qb = l_Name demo_qa" "l_Segment demo_qb = l_Segment demo_qa"
  by (simp_all add: demo_qa_def demo_qb_def)



theorem sqlite_claim_exclusive_witness: "l_Epoch (demo_qa\<lparr>l_Epoch := 1\<rparr>) < l_Epoch (demo_qb\<lparr>l_Epoch := 2\<rparr>) \<and> sq_refused demo_db2 (demo_qa\<lparr>l_Epoch := 1\<rparr>)"
  using sqlite_claim_exclusive [OF demo_row_keys demo_first demo_owners(1) rtranclp.rtrancl_refl demo_second demo_owners(2-4)]
  by (auto simp: demo_qa_def demo_qb_def)

lemma demo_work_unit: "unit_of_work demo_work"
  unfolding unit_of_work_def demo_work_def fst_conv by blast

lemma demo_db1_keys: "keys_distinct demo_db1"
  by (rule sq_steps_keys [OF _ demo_row_keys], unfold demo_db1_def, rule r_into_rtranclp) (rule sq_step.claim)

lemma demo_commit_nil: "sq_Commit demo_fine 1001 (demo_qa\<lparr>l_Epoch := 1\<rparr>) demo_checkpoint zero_status demo_work demo_db1 =
    (fst (sq_Commit demo_fine 1001 (demo_qa\<lparr>l_Epoch := 1\<rparr>) demo_checkpoint zero_status demo_work demo_db1), None)"
  by (simp add: demo_db1_def demo_sql demo_work_def sq_Commit_def runTx_def ownedPosition_def stmt_def sq_claimHeld_def)

theorem sqlite_commit_atomic_witness:
  "snd (demo_work demo_db1) = None \<and> db_model (fst (sq_Commit demo_fine 1001 (demo_qa\<lparr>l_Epoch := 1\<rparr>) demo_checkpoint zero_status demo_work demo_db1)) = 1"
  using sqlite_commit_atomic [OF demo_work_unit demo_db1_keys demo_commit_nil] by (simp add: demo_work_def demo_db1_def demo_sql)

end
