(* ===== verification/Auto_Store.thy ===== *)
theory Auto_Store
  imports Fencing "HOL-Library.AList"
begin

text \<open>
  The store of an automation's instances: the types of \<open>automation/store.go\<close> and every method of
  \<open>memory/automation_store.go\<close>. A Go map keyed by strings that the code also ranges over is an
  association list; wherever the code ranges over one, it sorts what it collected by the (unique)
  key before returning it, so the order of the list is not observable.
\<close>

section \<open>automation/store.go and the status of automation/automation.go\<close>

datatype auto_phase = AStarting | AWaiting | AIdle | AWorking | AStalled | APaused

definition auto_phase_String :: "auto_phase \<Rightarrow> string" where
  "auto_phase_String p = (case p of AStarting \<Rightarrow> ''starting'' | AWaiting \<Rightarrow> ''waiting'' | AIdle \<Rightarrow> ''idle''
     | AWorking \<Rightarrow> ''working'' | AStalled \<Rightarrow> ''stalled'' | APaused \<Rightarrow> ''paused'')"

record auto_status =
  au_Owner :: string
  au_Phase :: auto_phase
  au_WaitingFor :: string
  au_Processed :: uint64
  au_Failed :: uint64
  au_Deferred :: uint64
  au_LastError :: string
  au_Age :: duration

record segment_info =
  sg_Key :: string
  sg_Group :: string

record auto_segment_state =
  as_Key :: string
  as_Group :: string
  as_Owner :: string
  as_PausedFor :: duration

record segment_lease =
  sl_Name :: string
  sl_Key :: string
  sl_Owner :: string
  sl_Epoch :: uint64

record release_request =
  rr_Lease :: segment_lease
  rr_DeferFor :: duration
  rr_Served :: bool

record acquire_result =
  aq_Granted :: "segment_lease list"
  aq_Active :: nat
  aq_Eligible :: nat

section \<open>memory/automation_store.go\<close>

record published =
  pb_status :: auto_status
  pb_at :: gotime
  pb_ttl :: duration

record local_row =
  lr_group :: string
  lr_owner :: string
  lr_epoch :: uint64
  lr_leaseUntil :: gotime
  lr_pausedTill :: gotime
  lr_firstSeen :: gotime
  lr_lastServed :: gotime

record automation_store =
  at_rows :: "string \<Rightarrow> (string \<times> local_row) list"
  at_paused :: "string \<Rightarrow> bool"
  at_instances :: "string \<Rightarrow> (string \<times> published) list"

definition NewAutomationStore :: automation_store where
  "NewAutomationStore = \<lparr>at_rows = (\<lambda>_. []), at_paused = (\<lambda>_. False), at_instances = (\<lambda>_. [])\<rparr>"

text \<open>Looking a row up, and storing a changed row back (the code changes it through the pointer).\<close>

definition arow :: "automation_store \<Rightarrow> string \<Rightarrow> string \<Rightarrow> local_row option" where
  "arow s name key = map_of (at_rows s name) key"

definition put_arow :: "automation_store \<Rightarrow> string \<Rightarrow> string \<Rightarrow> local_row \<Rightarrow> automation_store" where
  "put_arow s name key r = s\<lparr>at_rows := (at_rows s)(name := AList.update key r (at_rows s name))\<rparr>"

definition fresh_row :: "gotime \<Rightarrow> local_row" where
  "fresh_row now = \<lparr>lr_group = [], lr_owner = [], lr_epoch = 0, lr_leaseUntil = 0, lr_pausedTill = 0,
     lr_firstSeen = now, lr_lastServed = 0\<rparr>"

definition local_row_of :: "automation_store \<Rightarrow> string \<Rightarrow> string \<Rightarrow> gotime \<Rightarrow> automation_store \<times> local_row" where
  "local_row_of s name key now =
     (case arow s name key of
        Some r \<Rightarrow> (s, r)
      | None \<Rightarrow> (put_arow s name key (fresh_row now), fresh_row now))"

definition waited :: "local_row \<Rightarrow> gotime" where
  "waited r = (if lr_lastServed r = 0 then lr_firstSeen r else lr_lastServed r)"

definition heldAt :: "local_row \<Rightarrow> gotime \<Rightarrow> bool" where
  "heldAt r now \<longleftrightarrow> lr_owner r \<noteq> [] \<and> lr_leaseUntil r > now"

subsection \<open>Acquire\<close>

text \<open>Recording the candidates: the second occurrence of a key is skipped; the keys come back in order.\<close>

fun note_candidates :: "gotime \<Rightarrow> string \<Rightarrow> segment_info list \<Rightarrow> automation_store \<Rightarrow> string list \<Rightarrow> automation_store \<times> string list" where
  "note_candidates now name [] s seen = (s, seen)"
| "note_candidates now name (c # cs) s seen =
     (if sg_Key c \<in> set seen then note_candidates now name cs s seen
      else case local_row_of s name (sg_Key c) now of
        (s, r) \<Rightarrow>
          let s = (if sg_Group c \<noteq> [] then put_arow s name (sg_Key c) (r\<lparr>lr_group := sg_Group c\<rparr>) else s)
          in note_candidates now name cs s (seen @ [sg_Key c]))"

text \<open>
  The order of the grants. \<open>R\<close> gives the row of a candidate. A group's turn is as old as the last time
  one of its keys was served, or as its first sight when none was; a key's rank is its place among the
  candidates of its group, longest waiting first.
\<close>

definition byGroup :: "(string \<Rightarrow> local_row) \<Rightarrow> string list \<Rightarrow> string \<Rightarrow> string list" where
  "byGroup R cands g = filter (\<lambda>k. lr_group (R k) = g) cands"

definition served_turn :: "(string \<Rightarrow> local_row) \<Rightarrow> string list \<Rightarrow> gotime option" where
  "served_turn R keys = foldl (\<lambda>t k.
     if lr_lastServed (R k) = 0 then t
     else (case t of
         None \<Rightarrow> Some (lr_lastServed (R k))
       | Some u \<Rightarrow> if lr_lastServed (R k) > u then Some (lr_lastServed (R k)) else t)) None keys"

definition groupTurn :: "(string \<Rightarrow> local_row) \<Rightarrow> string list \<Rightarrow> string \<Rightarrow> gotime" where
  "groupTurn R cands g =
     (let keys = byGroup R cands g in
      case served_turn R keys of
        Some t \<Rightarrow> t
      | None \<Rightarrow> foldl (\<lambda>f k. if lr_firstSeen (R k) < f then lr_firstSeen (R k) else f) (lr_firstSeen (R (hd keys))) (tl keys))"

definition grank :: "(string \<Rightarrow> local_row) \<Rightarrow> string list \<Rightarrow> string \<Rightarrow> nat" where
  "grank R cands k =
     (case index_func (\<lambda>k'. k' = k) (sort_key (\<lambda>k'. (waited (R k'), k')) (byGroup R cands (lr_group (R k)))) of
        Some i \<Rightarrow> i | None \<Rightarrow> 0)"

definition turn_key :: "(string \<Rightarrow> local_row) \<Rightarrow> string list \<Rightarrow> string \<Rightarrow> nat \<times> gotime \<times> string \<times> string" where
  "turn_key R cands k = (grank R cands k, groupTurn R cands (lr_group (R k)), lr_group (R k), k)"

definition grant_order :: "(string \<Rightarrow> local_row) \<Rightarrow> string list \<Rightarrow> string list" where
  "grant_order R cands = sort_key (turn_key R cands) cands"

fun grant_loop :: "gotime \<Rightarrow> string \<Rightarrow> string \<Rightarrow> int \<Rightarrow> duration \<Rightarrow> string list \<Rightarrow> automation_store \<Rightarrow> acquire_result
    \<Rightarrow> automation_store \<times> acquire_result" where
  "grant_loop now name owner maxn ttl [] s res = (s, res)"
| "grant_loop now name owner maxn ttl (k # ks) s res =
     (case arow s name k of
        None \<Rightarrow> grant_loop now name owner maxn ttl ks s res
      | Some r \<Rightarrow>
          if lr_pausedTill r > now then grant_loop now name owner maxn ttl ks s res
          else let res = res\<lparr>aq_Active := aq_Active res + 1\<rparr> in
               if heldAt r now then grant_loop now name owner maxn ttl ks s res
               else if int (length (aq_Granted res)) < maxn then
                 let r = r\<lparr>lr_owner := owner, lr_epoch := lr_epoch r + 1, lr_leaseUntil := now + ttl\<rparr>;
                     l = \<lparr>sl_Name = name, sl_Key = k, sl_Owner = owner, sl_Epoch = lr_epoch r\<rparr>
                 in grant_loop now name owner maxn ttl ks (put_arow s name k r) (res\<lparr>aq_Granted := aq_Granted res @ [l]\<rparr>)
               else grant_loop now name owner maxn ttl ks s (res\<lparr>aq_Eligible := aq_Eligible res + 1\<rparr>))"

definition Acquire :: "gotime \<Rightarrow> automation_store \<Rightarrow> string \<Rightarrow> string \<Rightarrow> segment_info list \<Rightarrow> int \<Rightarrow> duration
    \<Rightarrow> automation_store \<times> acquire_result" where
  "Acquire now s name owner candidates maxn ttl =
     (case note_candidates now name candidates s [] of
        (s, cands) \<Rightarrow>
          grant_loop now name owner maxn ttl (grant_order (\<lambda>k. the (arow s name k)) cands) s
            \<lparr>aq_Granted = [], aq_Active = 0, aq_Eligible = 0\<rparr>)"

subsection \<open>The other methods\<close>

fun Renew :: "gotime \<Rightarrow> automation_store \<Rightarrow> segment_lease list \<Rightarrow> duration \<Rightarrow> automation_store \<times> segment_lease list" where
  "Renew now s [] ttl = (s, [])"
| "Renew now s (l # ls) ttl =
     (case arow s (sl_Name l) (sl_Key l) of
        None \<Rightarrow> (case Renew now s ls ttl of (s, lost) \<Rightarrow> (s, l # lost))
      | Some r \<Rightarrow>
          if lr_owner r \<noteq> sl_Owner l \<or> lr_epoch r \<noteq> sl_Epoch l \<or> \<not> lr_leaseUntil r > now
          then (case Renew now s ls ttl of (s, lost) \<Rightarrow> (s, l # lost))
          else Renew now (put_arow s (sl_Name l) (sl_Key l) (r\<lparr>lr_leaseUntil := now + ttl\<rparr>)) ls ttl)"

definition release_row :: "gotime \<Rightarrow> release_request \<Rightarrow> local_row \<Rightarrow> local_row" where
  "release_row now q r =
     (let r = r\<lparr>lr_owner := [], lr_leaseUntil := 0\<rparr>;
          r = (if rr_DeferFor q > 0 \<and> now + rr_DeferFor q > lr_pausedTill r then r\<lparr>lr_pausedTill := now + rr_DeferFor q\<rparr> else r)
      in if rr_Served q then r\<lparr>lr_lastServed := now\<rparr> else r)"

fun auto_Release :: "gotime \<Rightarrow> automation_store \<Rightarrow> release_request list \<Rightarrow> automation_store \<times> segment_lease list" where
  "auto_Release now s [] = (s, [])"
| "auto_Release now s (q # qs) =
     (let l = rr_Lease q in
      case arow s (sl_Name l) (sl_Key l) of
        None \<Rightarrow> (case auto_Release now s qs of (s, lost) \<Rightarrow> (s, l # lost))
      | Some r \<Rightarrow>
          if lr_owner r \<noteq> sl_Owner l \<or> lr_epoch r \<noteq> sl_Epoch l
          then (case auto_Release now s qs of (s, lost) \<Rightarrow> (s, l # lost))
          else auto_Release now (put_arow s (sl_Name l) (sl_Key l) (release_row now q r)) qs)"

definition Defer :: "gotime \<Rightarrow> automation_store \<Rightarrow> string \<Rightarrow> string \<Rightarrow> duration \<Rightarrow> automation_store" where
  "Defer now s name key d =
     (case local_row_of s name key now of
        (s, r) \<Rightarrow> if now + d > lr_pausedTill r then put_arow s name key (r\<lparr>lr_pausedTill := now + d\<rparr>) else s)"

definition DeferredFor :: "gotime \<Rightarrow> automation_store \<Rightarrow> string \<Rightarrow> string \<Rightarrow> duration" where
  "DeferredFor now s name key =
     (case arow s name key of
        None \<Rightarrow> 0
      | Some r \<Rightarrow> let d = time_Sub (lr_pausedTill r) now in if d > 0 then d else 0)"

definition SetPaused :: "automation_store \<Rightarrow> string \<Rightarrow> bool \<Rightarrow> automation_store" where
  "SetPaused s name paused = s\<lparr>at_paused := (at_paused s)(name := paused)\<rparr>"

definition Paused :: "automation_store \<Rightarrow> string \<Rightarrow> bool" where
  "Paused s name = at_paused s name"

definition auto_SaveStatus :: "gotime \<Rightarrow> automation_store \<Rightarrow> string \<Rightarrow> auto_status \<Rightarrow> duration \<Rightarrow> automation_store" where
  "auto_SaveStatus now s name st ttl =
     (let inst = filter (\<lambda>(o', p). \<not> time_Sub now (pb_at p) > pb_ttl p) (at_instances s name);
          st = st\<lparr>au_Age := 0\<rparr>
      in s\<lparr>at_instances := (at_instances s)(name :=
             AList.update (au_Owner st) \<lparr>pb_status = st, pb_at = now, pb_ttl = ttl\<rparr> inst)\<rparr>)"

definition auto_LoadStatuses :: "gotime \<Rightarrow> automation_store \<Rightarrow> string \<Rightarrow> auto_status list" where
  "auto_LoadStatuses now s name =
     sort_key au_Owner (map (\<lambda>(o', p). (pb_status p)\<lparr>au_Age := time_Sub now (pb_at p)\<rparr>)
       (filter (\<lambda>(o', p). time_Sub now (pb_at p) \<le> pb_ttl p) (at_instances s name)))"

definition segment_view_of :: "gotime \<Rightarrow> string \<times> local_row \<Rightarrow> auto_segment_state" where
  "segment_view_of now = (\<lambda>(key, r).
     \<lparr>as_Key = key, as_Group = lr_group r, as_Owner = (if heldAt r now then lr_owner r else []),
      as_PausedFor = (let d = time_Sub (lr_pausedTill r) now in if d > 0 then d else 0)\<rparr>)"

definition LoadSegments :: "gotime \<Rightarrow> automation_store \<Rightarrow> string \<Rightarrow> auto_segment_state list" where
  "LoadSegments now s name = sort_key as_Key (map (segment_view_of now) (at_rows s name))"

end
