(* ===== verification/Sql_Automations.thy ===== *)
theory Sql_Automations
  imports Sql_Projections Auto_Store
begin

text \<open>
  The automation store on SQLite (\<open>sqlite/automation_store.go\<close>), one definition per method, over the tables \<open>automation_segments\<close>, \<open>automation_controls\<close> and
  \<open>automation_instances\<close> of \<open>schema.sql\<close> as lists of rows. As in the projection store, a statement is a function on the tables, \<open>F\<close> is what the driver
  answers to the statements of a call, and \<open>now i\<close> is SQLite's clock, in milliseconds, at its statement \<open>i\<close>. The candidates of \<open>Acquire\<close> travel as
  JSON: \<open>marshal\<close> gives what \<open>json_each\<close> reads of what \<open>json.Marshal\<close> wrote, or its error. The column \<open>phase\<close> holds the number of a phase.
\<close>

section \<open>The tables\<close>

record automation_row =
  ag_name :: string
  ag_segment_key :: string
  ag_group_key :: string
  ag_owner :: string
  ag_epoch :: uint64
  ag_lease_until :: int
  ag_paused_until :: int
  ag_first_seen :: int
  ag_last_served :: "int option"

record automation_instance_row =
  ai_name :: string
  ai_owner :: string
  ai_phase :: auto_phase
  ai_waiting_for :: string
  ai_processed :: uint64
  ai_failed :: uint64
  ai_deferred :: uint64
  ai_last_error :: string
  ai_heartbeat :: int
  ai_ttl_ms :: int

record automation_db =
  ad_segments :: "automation_row list"
  ad_controls :: "(string \<times> bool) list"
  ad_instances :: "automation_instance_row list"

definition Schema_automations :: automation_db where
  "Schema_automations = \<lparr>ad_segments = [], ad_controls = [], ad_instances = []\<rparr>"

definition is_segment :: "string \<Rightarrow> string \<Rightarrow> automation_row \<Rightarrow> bool" where
  "is_segment name key r \<longleftrightarrow> ag_name r = name \<and> ag_segment_key r = key"

definition new_automation_row :: "string \<Rightarrow> string \<Rightarrow> int \<Rightarrow> automation_row" where
  "new_automation_row name key now =
     \<lparr>ag_name = name, ag_segment_key = key, ag_group_key = [], ag_owner = [], ag_epoch = 0, ag_lease_until = 0, ag_paused_until = 0,
      ag_first_seen = now, ag_last_served = None\<rparr>"

section \<open>Transactions\<close>

definition auto_runTx :: "tx_faults \<Rightarrow> string \<Rightarrow> (automation_db \<Rightarrow> go_error + automation_db \<times> 'a) \<Rightarrow> automation_db
    \<Rightarrow> automation_db \<times> (go_error + 'a)" where
  "auto_runTx F op fn db =
     (case tf_begin F of
        Some err \<Rightarrow> (db, Inl (Errorf (''sqlite: '' @ op @ '': begin'') [err]))
      | None \<Rightarrow> (case fn db of
          Inl err \<Rightarrow> (db, Inl (Errorf (''sqlite: '' @ op) [err]))
        | Inr (db', x) \<Rightarrow> (case tf_commit F of
            Some err \<Rightarrow> (db, Inl (Errorf (''sqlite: '' @ op @ '': commit'') [err]))
          | None \<Rightarrow> (db', Inr x))))"

definition changed :: "go_error option \<Rightarrow> nat \<Rightarrow> go_error + bool" where
  "changed RowsAffected_fault n = (case RowsAffected_fault of Some err \<Rightarrow> Inl err | None \<Rightarrow> Inr (n > 0))"

section \<open>Acquire\<close>

fun unique_from :: "string list \<Rightarrow> segment_info list \<Rightarrow> segment_info list" where
  "unique_from seen [] = []"
| "unique_from seen (c # cs) = (if sg_Key c \<in> set seen then unique_from seen cs else c # unique_from (sg_Key c # seen) cs)"

definition uniqueCandidates :: "segment_info list \<Rightarrow> segment_info list" where
  "uniqueCandidates segs = unique_from [] segs"

text \<open>The upsert of one candidate: a new row, or the new group of a known one.\<close>

definition record_candidate :: "int \<Rightarrow> string \<Rightarrow> automation_row list \<Rightarrow> segment_info \<Rightarrow> automation_row list" where
  "record_candidate now name rows c =
     (if list_ex (is_segment name (sg_Key c)) rows
      then sql_update (\<lambda>r. is_segment name (sg_Key c) r \<and> sg_Group c \<noteq> []) (\<lambda>r. r\<lparr>ag_group_key := sg_Group c\<rparr>) rows
      else rows @ [(new_automation_row name (sg_Key c) now)\<lparr>ag_group_key := sg_Group c\<rparr>])"

text \<open>The window functions of the query: the place of a row in its group and the last turn of the group, among the rows selected.\<close>

definition coalesce_served :: "automation_row \<Rightarrow> int" where
  "coalesce_served r = (case ag_last_served r of None \<Rightarrow> ag_first_seen r | Some t \<Rightarrow> t)"

definition partition_of :: "automation_row list \<Rightarrow> automation_row \<Rightarrow> automation_row list" where
  "partition_of rows r = filter (\<lambda>q. ag_group_key q = ag_group_key r) rows"

definition row_number :: "automation_row list \<Rightarrow> automation_row \<Rightarrow> nat" where
  "row_number rows r =
     (case index_func (\<lambda>q. ag_segment_key q = ag_segment_key r) (sort_key (\<lambda>q. (coalesce_served q, ag_segment_key q)) (partition_of rows r)) of
        Some i \<Rightarrow> i + 1 | None \<Rightarrow> 0)"

definition max_served :: "automation_row list \<Rightarrow> int option" where
  "max_served rows =
     (case List.map_filter ag_last_served rows of [] \<Rightarrow> None | t # ts \<Rightarrow> Some (foldl max t ts))"

definition min_first_seen :: "automation_row list \<Rightarrow> int" where
  "min_first_seen rows = (case map ag_first_seen rows of [] \<Rightarrow> 0 | t # ts \<Rightarrow> foldl min t ts)"

definition window_turn :: "automation_row list \<Rightarrow> automation_row \<Rightarrow> int" where
  "window_turn rows r =
     (case max_served (partition_of rows r) of Some t \<Rightarrow> t | None \<Rightarrow> min_first_seen (partition_of rows r))"

definition select_candidates :: "string \<Rightarrow> string list \<Rightarrow> automation_row list \<Rightarrow> automation_row list" where
  "select_candidates name keys rows =
     (let sel = filter (\<lambda>r. ag_name r = name \<and> ag_segment_key r \<in> set keys) rows in
      sort_key (\<lambda>r. (row_number sel r, window_turn sel r, ag_group_key r, ag_segment_key r)) sel)"

text \<open>The loop over the rows collects the keys to grant and counts the active and the eligible ones that are left.\<close>

fun scan_candidates :: "int \<Rightarrow> int \<Rightarrow> automation_row list \<Rightarrow> string list \<Rightarrow> nat \<Rightarrow> nat \<Rightarrow> string list \<times> nat \<times> nat" where
  "scan_candidates now maxn [] grant active eligible = (grant, active, eligible)"
| "scan_candidates now maxn (r # rs) grant active eligible =
     (if ag_paused_until r > now then scan_candidates now maxn rs grant active eligible
      else if ag_owner r \<noteq> [] \<and> ag_lease_until r > now then scan_candidates now maxn rs grant (active + 1) eligible
      else if int (length grant) < maxn then scan_candidates now maxn rs (grant @ [ag_segment_key r]) (active + 1) eligible
      else scan_candidates now maxn rs grant (active + 1) (eligible + 1))"

definition grant_row :: "int \<Rightarrow> string \<Rightarrow> duration \<Rightarrow> automation_row \<Rightarrow> automation_row" where
  "grant_row now owner ttl r = r\<lparr>ag_owner := owner, ag_epoch := ag_epoch r + 1, ag_lease_until := now + Milliseconds ttl\<rparr>"

fun grant_rows :: "tx_faults \<Rightarrow> (nat \<Rightarrow> int) \<Rightarrow> string \<Rightarrow> string \<Rightarrow> duration \<Rightarrow> nat \<Rightarrow> string list \<Rightarrow> automation_row list \<Rightarrow> segment_lease list
    \<Rightarrow> go_error + automation_row list \<times> segment_lease list" where
  "grant_rows F now name owner ttl i [] rows granted = Inr (rows, granted)"
| "grant_rows F now name owner ttl i (key # keys) rows granted =
     (case tf_stmt F i of
        Some err \<Rightarrow> Inl (Errorf (''grant '' @ key) [err])
      | None \<Rightarrow> (case find (is_segment name key) rows of
          None \<Rightarrow> Inl (Errorf (''grant '' @ key) [NewError ''sql: no rows in result set''])
        | Some r \<Rightarrow> grant_rows F now name owner ttl (Suc i) keys (sql_update (is_segment name key) (grant_row (now i) owner ttl) rows)
            (granted @ [\<lparr>sl_Name = name, sl_Key = key, sl_Owner = owner, sl_Epoch = ag_epoch (grant_row (now i) owner ttl r)\<rparr>])))"

definition acquire_tx :: "tx_faults \<Rightarrow> (nat \<Rightarrow> int) \<Rightarrow> string \<Rightarrow> string \<Rightarrow> int \<Rightarrow> duration \<Rightarrow> segment_info list \<Rightarrow> automation_db
    \<Rightarrow> go_error + automation_db \<times> acquire_result" where
  "acquire_tx F now name owner maxn ttl js db =
     (case tf_stmt F 0 of
        Some err \<Rightarrow> Inl (Errorf ''record candidates'' [err])
      | None \<Rightarrow>
          let rows = foldl (record_candidate (now 0) name) (ad_segments db) js in
          (case tf_stmt F 1 of
             Some err \<Rightarrow> Inl (Errorf ''read candidates'' [err])
           | None \<Rightarrow> (case scan_candidates (now 1) maxn (select_candidates name (map sg_Key js) rows) [] 0 0 of
               (grant, active, eligible) \<Rightarrow>
                 (case grant_rows F now name owner ttl 2 grant rows [] of
                    Inl err \<Rightarrow> Inl err
                  | Inr (rows, granted) \<Rightarrow> Inr (db\<lparr>ad_segments := rows\<rparr>, \<lparr>aq_Granted = granted, aq_Active = active, aq_Eligible = eligible\<rparr>)))))"

definition sa_Acquire :: "(segment_info list \<Rightarrow> go_error + segment_info list) \<Rightarrow> tx_faults \<Rightarrow> (nat \<Rightarrow> int) \<Rightarrow> automation_db \<Rightarrow> string \<Rightarrow> string
    \<Rightarrow> segment_info list \<Rightarrow> int \<Rightarrow> duration \<Rightarrow> automation_db \<times> (go_error + acquire_result)" where
  "sa_Acquire marshal F now db name owner candidates maxn ttl =
     (let cands = uniqueCandidates candidates in
      if length cands = 0 then (db, Inr \<lparr>aq_Granted = [], aq_Active = 0, aq_Eligible = 0\<rparr>)
      else (case marshal cands of
          Inl err \<Rightarrow> (db, Inl (Errorf (''sqlite: acquire '' @ name) [err]))
        | Inr js \<Rightarrow> auto_runTx F (''acquire '' @ name) (acquire_tx F now name owner maxn ttl js) db))"

section \<open>Renew and Release\<close>

text \<open>Each lease takes two answers of the driver: to the update, and to \<open>RowsAffected\<close>.\<close>

definition leased_by :: "segment_lease \<Rightarrow> automation_row \<Rightarrow> bool" where
  "leased_by l r \<longleftrightarrow> is_segment (sl_Name l) (sl_Key l) r \<and> ag_owner r = sl_Owner l \<and> ag_epoch r = sl_Epoch l"

fun renew_rows :: "tx_faults \<Rightarrow> (nat \<Rightarrow> int) \<Rightarrow> duration \<Rightarrow> nat \<Rightarrow> segment_lease list \<Rightarrow> automation_row list \<Rightarrow> segment_lease list
    \<Rightarrow> go_error + automation_row list \<times> segment_lease list" where
  "renew_rows F now ttl i [] rows lost = Inr (rows, lost)"
| "renew_rows F now ttl i (l # ls) rows lost =
     (case tf_stmt F (2 * i) of
        Some err \<Rightarrow> Inl (Errorf (sl_Name l @ '' segment '' @ sl_Key l) [err])
      | None \<Rightarrow>
          let cond = (\<lambda>r. leased_by l r \<and> ag_lease_until r > now i) in
          (case changed (tf_stmt F (2 * i + 1)) (length (filter cond rows)) of
             Inl err \<Rightarrow> Inl err
           | Inr ok \<Rightarrow> renew_rows F now ttl (Suc i) ls (sql_update cond (\<lambda>r. r\<lparr>ag_lease_until := now i + Milliseconds ttl\<rparr>) rows)
               (if \<not> ok then lost @ [l] else lost)))"

definition sa_Renew :: "tx_faults \<Rightarrow> (nat \<Rightarrow> int) \<Rightarrow> automation_db \<Rightarrow> segment_lease list \<Rightarrow> duration \<Rightarrow> automation_db \<times> (go_error + segment_lease list)" where
  "sa_Renew F now db held ttl =
     auto_runTx F ''renew'' (\<lambda>db. case renew_rows F now ttl 0 held (ad_segments db) [] of
         Inl err \<Rightarrow> Inl err
       | Inr (rows, lost) \<Rightarrow> Inr (db\<lparr>ad_segments := rows\<rparr>, lost)) db"

definition sql_released_row :: "int \<Rightarrow> release_request \<Rightarrow> automation_row \<Rightarrow> automation_row" where
  "sql_released_row now q r =
     (let d = Milliseconds (rr_DeferFor q) in
      r\<lparr>ag_owner := [], ag_lease_until := 0,
        ag_paused_until := (if d > 0 then max (ag_paused_until r) (now + d) else ag_paused_until r),
        ag_last_served := (if rr_Served q then Some now else ag_last_served r)\<rparr>)"

fun release_rows :: "tx_faults \<Rightarrow> (nat \<Rightarrow> int) \<Rightarrow> nat \<Rightarrow> release_request list \<Rightarrow> automation_row list \<Rightarrow> segment_lease list
    \<Rightarrow> go_error + automation_row list \<times> segment_lease list" where
  "release_rows F now i [] rows lost = Inr (rows, lost)"
| "release_rows F now i (q # qs) rows lost =
     (let l = rr_Lease q in
      case tf_stmt F (2 * i) of
        Some err \<Rightarrow> Inl (Errorf (sl_Name l @ '' segment '' @ sl_Key l) [err])
      | None \<Rightarrow> (case changed (tf_stmt F (2 * i + 1)) (length (filter (leased_by l) rows)) of
             Inl err \<Rightarrow> Inl err
           | Inr ok \<Rightarrow> release_rows F now (Suc i) qs (sql_update (leased_by l) (sql_released_row (now i) q) rows)
               (if \<not> ok then lost @ [l] else lost)))"

definition sa_Release :: "tx_faults \<Rightarrow> (nat \<Rightarrow> int) \<Rightarrow> automation_db \<Rightarrow> release_request list \<Rightarrow> automation_db \<times> (go_error + segment_lease list)" where
  "sa_Release F now db rel =
     auto_runTx F ''release'' (\<lambda>db. case release_rows F now 0 rel (ad_segments db) [] of
         Inl err \<Rightarrow> Inl err
       | Inr (rows, lost) \<Rightarrow> Inr (db\<lparr>ad_segments := rows\<rparr>, lost)) db"

section \<open>Pauses\<close>

definition sa_Defer :: "go_error option \<Rightarrow> int \<Rightarrow> automation_db \<Rightarrow> string \<Rightarrow> string \<Rightarrow> duration \<Rightarrow> automation_db \<times> go_error option" where
  "sa_Defer fault now db name key d =
     (case fault of
        Some err \<Rightarrow> (db, Some (Errorf ''sqlite: defer'' [err]))
      | None \<Rightarrow>
          let until = now + Milliseconds d; rows = ad_segments db in
          (db\<lparr>ad_segments :=
              (if list_ex (is_segment name key) rows
               then sql_update (is_segment name key) (\<lambda>r. r\<lparr>ag_paused_until := max (ag_paused_until r) until\<rparr>) rows
               else rows @ [(new_automation_row name key now)\<lparr>ag_paused_until := until\<rparr>])\<rparr>, None))"

definition sa_DeferredFor :: "go_error option \<Rightarrow> int \<Rightarrow> automation_db \<Rightarrow> string \<Rightarrow> string \<Rightarrow> go_error + duration" where
  "sa_DeferredFor fault now db name key =
     (case fault of
        Some err \<Rightarrow> Inl (Errorf ''sqlite: deferred for'' [err])
      | None \<Rightarrow> Inr (case find (is_segment name key) (ad_segments db) of
          None \<Rightarrow> 0
        | Some r \<Rightarrow> max (ag_paused_until r - now) 0 * 1000000))"

definition sa_SetPaused :: "go_error option \<Rightarrow> automation_db \<Rightarrow> string \<Rightarrow> bool \<Rightarrow> automation_db \<times> go_error option" where
  "sa_SetPaused fault db name paused =
     (case fault of
        Some err \<Rightarrow> (db, Some (Errorf ''sqlite: set paused'' [err]))
      | None \<Rightarrow> (db\<lparr>ad_controls := AList.update name paused (ad_controls db)\<rparr>, None))"

definition sa_Paused :: "go_error option \<Rightarrow> automation_db \<Rightarrow> string \<Rightarrow> go_error + bool" where
  "sa_Paused fault db name =
     (case fault of
        Some err \<Rightarrow> Inl (Errorf ''sqlite: paused'' [err])
      | None \<Rightarrow> Inr (case map_of (ad_controls db) name of None \<Rightarrow> False | Some paused \<Rightarrow> paused))"

section \<open>Statuses\<close>

definition upsert_status :: "automation_instance_row \<Rightarrow> automation_instance_row list \<Rightarrow> automation_instance_row list" where
  "upsert_status m rows =
     (if list_ex (\<lambda>q. ai_name q = ai_name m \<and> ai_owner q = ai_owner m) rows
      then sql_update (\<lambda>q. ai_name q = ai_name m \<and> ai_owner q = ai_owner m) (\<lambda>_. m) rows
      else rows @ [m])"

definition sa_SaveStatus :: "tx_faults \<Rightarrow> (nat \<Rightarrow> int) \<Rightarrow> automation_db \<Rightarrow> string \<Rightarrow> auto_status \<Rightarrow> duration \<Rightarrow> automation_db \<times> go_error option" where
  "sa_SaveStatus F now db name st ttl =
     (case auto_runTx F (''save status '' @ name) (\<lambda>db.
        case tf_stmt F 0 of Some err \<Rightarrow> Inl (Errorf ''expire'' [err]) | None \<Rightarrow>
        let live = filter (\<lambda>q. \<not> (ai_name q = name \<and> ai_heartbeat q + ai_ttl_ms q < now 0)) (ad_instances db);
            m = \<lparr>ai_name = name, ai_owner = au_Owner st, ai_phase = au_Phase st, ai_waiting_for = au_WaitingFor st, ai_processed = au_Processed st,
                 ai_failed = au_Failed st, ai_deferred = au_Deferred st, ai_last_error = au_LastError st, ai_heartbeat = now 1, ai_ttl_ms = Milliseconds ttl\<rparr> in
        case tf_stmt F 1 of Some err \<Rightarrow> Inl (Errorf ''write'' [err]) | None \<Rightarrow> Inr (db\<lparr>ad_instances := upsert_status m live\<rparr>, ())) db of
        (db', Inl err) \<Rightarrow> (db', Some err)
      | (db', Inr _) \<Rightarrow> (db', None))"

definition row_auto_status :: "int \<Rightarrow> automation_instance_row \<Rightarrow> auto_status" where
  "row_auto_status now q =
     \<lparr>au_Owner = ai_owner q, au_Phase = ai_phase q, au_WaitingFor = ai_waiting_for q, au_Processed = ai_processed q, au_Failed = ai_failed q,
      au_Deferred = ai_deferred q, au_LastError = ai_last_error q, au_Age = (now - ai_heartbeat q) * 1000000\<rparr>"

definition sa_LoadStatuses :: "go_error option \<Rightarrow> int \<Rightarrow> automation_db \<Rightarrow> string \<Rightarrow> go_error + auto_status list" where
  "sa_LoadStatuses fault now db name =
     (case fault of
        Some err \<Rightarrow> Inl (Errorf ''sqlite: load statuses'' [err])
      | None \<Rightarrow> Inr (map (row_auto_status now)
          (sort_key ai_owner (filter (\<lambda>q. ai_name q = name \<and> ai_heartbeat q + ai_ttl_ms q \<ge> now) (ad_instances db)))))"

definition row_segment_state :: "int \<Rightarrow> automation_row \<Rightarrow> auto_segment_state" where
  "row_segment_state now r =
     \<lparr>as_Key = ag_segment_key r, as_Group = ag_group_key r,
      as_Owner = (if ag_owner r \<noteq> [] \<and> ag_lease_until r > now then ag_owner r else []),
      as_PausedFor = max (ag_paused_until r - now) 0 * 1000000\<rparr>"

definition sa_LoadSegments :: "go_error option \<Rightarrow> int \<Rightarrow> automation_db \<Rightarrow> string \<Rightarrow> go_error + auto_segment_state list" where
  "sa_LoadSegments fault now db name =
     (case fault of
        Some err \<Rightarrow> Inl (Errorf ''sqlite: load segments'' [err])
      | None \<Rightarrow> Inr (map (row_segment_state now) (sort_key ag_segment_key (filter (\<lambda>r. ag_name r = name) (ad_segments db)))))"

end
