(* ===== verification/Auto_Store_Props.thy ===== *)
theory Auto_Store_Props
  imports Auto_Store
begin

text \<open>
  What the methods of the in-memory automation store do to its rows, the store as an instance of
  \<open>fencing\<close>, and the properties of granting segments: who gets a lease, how many, in which order,
  and that no segment waits for ever.
\<close>

section \<open>Rows\<close>

lemma arow_put [simp]: "arow (put_arow s name key r) n k = (if n = name \<and> k = key then Some r else arow s n k)"
  by (auto simp: arow_def put_arow_def update_conv')

lemma put_arow_other [simp]:
  "at_paused (put_arow s name key r) = at_paused s" "at_instances (put_arow s name key r) = at_instances s"
  by (simp_all add: put_arow_def)

text \<open>A row as the next candidate list finds it: the one stored, or the one made at first sight.\<close>

definition row_at :: "gotime \<Rightarrow> automation_store \<Rightarrow> string \<Rightarrow> string \<Rightarrow> local_row" where
  "row_at now s name k = (case arow s name k of None \<Rightarrow> fresh_row now | Some r \<Rightarrow> r)"

lemma local_row_of_simp:
  "local_row_of s name k now = (if arow s name k = None then put_arow s name k (fresh_row now) else s, row_at now s name k)"
  by (simp add: local_row_of_def row_at_def split: option.split)

text \<open>The group a candidate list gives a key: that of its first entry, unless it names none.\<close>

definition noted_group :: "segment_info list \<Rightarrow> string \<Rightarrow> string \<Rightarrow> string" where
  "noted_group cs k g = (case find (\<lambda>c. sg_Key c = k) cs of
     Some c \<Rightarrow> if sg_Group c \<noteq> [] then sg_Group c else g | None \<Rightarrow> g)"

definition noted_row :: "segment_info list \<Rightarrow> string \<Rightarrow> local_row \<Rightarrow> local_row" where
  "noted_row cs k r = r\<lparr>lr_group := noted_group cs k (lr_group r)\<rparr>"

lemma noted_group_idem [simp]: "noted_group cs k (noted_group cs k g) = noted_group cs k g"
  by (simp add: noted_group_def split: option.split)

lemma noted_row_simps [simp]:
  "lr_owner (noted_row cs k r) = lr_owner r" "lr_epoch (noted_row cs k r) = lr_epoch r"
  "lr_leaseUntil (noted_row cs k r) = lr_leaseUntil r" "lr_pausedTill (noted_row cs k r) = lr_pausedTill r"
  "lr_firstSeen (noted_row cs k r) = lr_firstSeen r" "lr_lastServed (noted_row cs k r) = lr_lastServed r"
  "lr_group (noted_row cs k r) = noted_group cs k (lr_group r)" "heldAt (noted_row cs k r) now = heldAt r now"
  by (simp_all add: noted_row_def heldAt_def)

lemma note_candidates_spec:
  assumes "note_candidates now name cs s seen = (s', ks)" "distinct seen"
  shows "distinct ks" "set ks = set seen \<union> sg_Key ` set cs"
    "\<And>n k. n \<noteq> name \<or> k \<in> set seen \<or> k \<notin> set ks \<Longrightarrow> arow s' n k = arow s n k"
    "\<And>k. k \<in> set ks \<Longrightarrow> k \<notin> set seen \<Longrightarrow> arow s' name k = Some (noted_row cs k (row_at now s name k))"
    "at_paused s' = at_paused s" "at_instances s' = at_instances s"
proof -
  have "distinct ks \<and> set ks = set seen \<union> sg_Key ` set cs
    \<and> (\<forall>n k. n \<noteq> name \<or> k \<in> set seen \<or> k \<notin> set ks \<longrightarrow> arow s' n k = arow s n k)
    \<and> (\<forall>k \<in> set ks - set seen. arow s' name k = Some (noted_row cs k (row_at now s name k)))
    \<and> at_paused s' = at_paused s \<and> at_instances s' = at_instances s"
    using assms
  proof (induction cs arbitrary: s seen)
    case (Cons c cs)
    have later: "noted_row (c # cs) k r = noted_row cs k r" if "k \<noteq> sg_Key c" for k r
      using that by (simp add: noted_row_def noted_group_def)
    show ?case
    proof (cases "sg_Key c \<in> set seen")
      case True
      with later have "noted_row (c # cs) k r = noted_row cs k r" if "k \<notin> set seen" for k r using that by metis
      with True Cons.IH [of s seen] Cons.prems show ?thesis by auto
    next
      case False
      let ?k = "sg_Key c" and ?r = "row_at now s name (sg_Key c)"
      let ?s1 = "if arow s name ?k = None then put_arow s name ?k (fresh_row now) else s"
      let ?s2 = "if sg_Group c \<noteq> [] then put_arow ?s1 name ?k (?r\<lparr>lr_group := sg_Group c\<rparr>) else ?s1"
      have r1: "arow ?s1 name ?k = Some ?r" by (auto simp: row_at_def)
      have eq: "noted_row (c # cs) ?k ?r = (if sg_Group c \<noteq> [] then ?r\<lparr>lr_group := sg_Group c\<rparr> else ?r)"
        by (simp add: noted_row_def noted_group_def)
      have r2: "arow ?s2 name ?k = Some (noted_row (c # cs) ?k ?r)"
        unfolding eq using r1 by (cases "sg_Group c = []") (simp_all only: simp_thms if_True if_False arow_put)
      have other: "arow ?s2 n k = arow s n k" if "n \<noteq> name \<or> k \<noteq> ?k" for n k using that by auto
      then have at: "row_at now ?s2 name k = row_at now s name k" if "k \<noteq> ?k" for k using that by (simp add: row_at_def)
      have rest: "note_candidates now name cs ?s2 (seen @ [?k]) = (s', ks)"
        using Cons.prems(1) False by (simp add: local_row_of_simp Let_def)
      have "distinct (seen @ [?k])" using Cons.prems(2) False by simp
      from Cons.IH [OF rest this]
      have ih: "distinct ks" "set ks = set (seen @ [?k]) \<union> sg_Key ` set cs"
        "\<And>n k. n \<noteq> name \<or> k \<in> set (seen @ [?k]) \<or> k \<notin> set ks \<Longrightarrow> arow s' n k = arow ?s2 n k"
        "\<And>k. k \<in> set ks - set (seen @ [?k]) \<Longrightarrow> arow s' name k = Some (noted_row cs k (row_at now ?s2 name k))"
        "at_paused s' = at_paused ?s2" "at_instances s' = at_instances ?s2"
        by (elim conjE, assumption | blast)+
      have "arow s' name k = Some (noted_row (c # cs) k (row_at now s name k))" if "k \<in> set ks - set seen" for k
      proof (cases "k = ?k")
        case True
        then show ?thesis using ih(3) [of name k] r2 by (simp only: set_append) simp
      next
        case False
        then show ?thesis using ih(4) [of k] that at later by simp
      qed
      moreover have "arow s' n k = arow s n k" if "n \<noteq> name \<or> k \<in> set seen \<or> k \<notin> set ks" for n k
        using that ih(3) [of n k] ih(2) other [of n k] False by auto
      ultimately show ?thesis using ih(1,2,5,6) by auto
    qed
  qed simp
  then show "distinct ks" "set ks = set seen \<union> sg_Key ` set cs"
    "\<And>n k. n \<noteq> name \<or> k \<in> set seen \<or> k \<notin> set ks \<Longrightarrow> arow s' n k = arow s n k"
    "\<And>k. k \<in> set ks \<Longrightarrow> k \<notin> set seen \<Longrightarrow> arow s' name k = Some (noted_row cs k (row_at now s name k))"
    "at_paused s' = at_paused s" "at_instances s' = at_instances s"
    by blast+
qed

definition avail :: "gotime \<Rightarrow> local_row \<Rightarrow> bool" where
  "avail now r \<longleftrightarrow> \<not> lr_pausedTill r > now \<and> \<not> heldAt r now"

definition granted_row :: "gotime \<Rightarrow> string \<Rightarrow> duration \<Rightarrow> local_row \<Rightarrow> local_row" where
  "granted_row now owner ttl r = r\<lparr>lr_owner := owner, lr_epoch := lr_epoch r + 1, lr_leaseUntil := now + ttl\<rparr>"

definition grant_lease :: "string \<Rightarrow> string \<Rightarrow> (string \<Rightarrow> local_row) \<Rightarrow> string \<Rightarrow> segment_lease" where
  "grant_lease name owner R k = \<lparr>sl_Name = name, sl_Key = k, sl_Owner = owner, sl_Epoch = lr_epoch (R k) + 1\<rparr>"

text \<open>The keys the loop grants: as many as \<open>maxn\<close> still allows, of those available, in order.\<close>

definition picked :: "gotime \<Rightarrow> (string \<Rightarrow> local_row) \<Rightarrow> int \<Rightarrow> string list \<Rightarrow> string list" where
  "picked now R room ks = take (nat room) (filter (\<lambda>k. avail now (R k)) ks)"

lemma picked_cong: "(\<And>k. k \<in> set ks \<Longrightarrow> R k = R' k) \<Longrightarrow> picked now R room ks = picked now R' room ks"
  by (simp add: picked_def cong: filter_cong)

lemma grant_loop_spec:
  assumes "distinct ks" "\<And>k. k \<in> set ks \<Longrightarrow> arow s name k = Some (R k)"
    and "grant_loop now name owner maxn ttl ks s res = (s', res')"
    and "G = picked now R (maxn - int (length (aq_Granted res))) ks"
  shows "aq_Granted res' = aq_Granted res @ map (grant_lease name owner R) G
    \<and> aq_Active res' = aq_Active res + length (filter (\<lambda>k. \<not> lr_pausedTill (R k) > now) ks)
    \<and> aq_Eligible res' + length G = aq_Eligible res + length (filter (\<lambda>k. avail now (R k)) ks)
    \<and> (\<forall>n k. arow s' n k = (if n = name \<and> k \<in> set G then Some (granted_row now owner ttl (R k)) else arow s n k))
    \<and> at_paused s' = at_paused s \<and> at_instances s' = at_instances s"
  using assms
proof (induction ks arbitrary: s res G)
  case Nil
  then show ?case by (simp add: picked_def)
next
  case (Cons k ks)
  let ?room = "maxn - int (length (aq_Granted res))"
  have k: "arow s name k = Some (R k)" and nin: "k \<notin> set ks" and d: "distinct ks"
    and rows: "\<And>k'. k' \<in> set ks \<Longrightarrow> arow s name k' = Some (R k')"
    using Cons.prems(1,2) by simp_all
  show ?case
  proof (cases "lr_pausedTill (R k) > now")
    case True
    then have step: "grant_loop now name owner maxn ttl ks s res = (s', res')" using Cons.prems(3) k by simp
    have G: "G = picked now R ?room ks" using Cons.prems(4) True by (simp add: picked_def avail_def)
    from Cons.IH [OF d rows step G] show ?thesis using True by (simp add: avail_def)
  next
    case run: False
    let ?res = "res\<lparr>aq_Active := aq_Active res + 1\<rparr>"
    show ?thesis
    proof (cases "heldAt (R k) now")
      case True
      then have step: "grant_loop now name owner maxn ttl ks s ?res = (s', res')" using Cons.prems(3) k run by (simp add: Let_def)
      have G: "G = picked now R (maxn - int (length (aq_Granted ?res))) ks"
        using Cons.prems(4) True by (simp add: picked_def avail_def)
      from Cons.IH [OF d rows step G] show ?thesis using True run by (simp add: avail_def)
    next
      case False
      with run have av: "avail now (R k)" by (simp add: avail_def)
      show ?thesis
      proof (cases "0 < ?room")
        case True
        let ?r = "granted_row now owner ttl (R k)" and ?res2 = "?res\<lparr>aq_Granted := aq_Granted res @ [grant_lease name owner R k]\<rparr>"
        have step: "grant_loop now name owner maxn ttl ks (put_arow s name k ?r) ?res2 = (s', res')"
          using Cons.prems(3) k run False True by (simp add: Let_def granted_row_def grant_lease_def)
        define G2 where "G2 = picked now R (maxn - int (length (aq_Granted ?res2))) ks"
        have "nat ?room = Suc (nat (maxn - int (length (aq_Granted ?res2))))" using True by simp
        then have G: "G = k # G2" using Cons.prems(4) av by (simp add: picked_def G2_def)
        have sub: "set G2 \<subseteq> set ks" by (auto simp: G2_def picked_def dest: in_set_takeD)
        have "arow (put_arow s name k ?r) name k' = Some (R k')" if "k' \<in> set ks" for k' using that nin rows by auto
        from Cons.IH [OF d this step G2_def] show ?thesis using G av run sub nin by (auto simp: k)
      next
        case full: False
        let ?res2 = "?res\<lparr>aq_Eligible := aq_Eligible res + 1\<rparr>"
        have step: "grant_loop now name owner maxn ttl ks s ?res2 = (s', res')"
          using Cons.prems(3) k run False full by (simp add: Let_def)
        have G: "G = []" "picked now R (maxn - int (length (aq_Granted ?res2))) ks = []"
          using full Cons.prems(4) by (simp_all add: picked_def)
        from Cons.IH [OF d rows step G(2) [symmetric]] show ?thesis using G av run by simp
      qed
    qed
  qed
qed

section \<open>Acquire\<close>

lemma length_filter_sort_key: "length (filter P (sort_key f xs)) = length (filter P xs)"
  by (metis mset_filter mset_sort size_mset)

lemma grant_order_set [simp]: "set (grant_order R cands) = set cands" "distinct (grant_order R cands) = distinct cands"
  by (simp_all add: grant_order_def)

lemma Acquire_cases:
  assumes "Acquire now s name owner cs maxn ttl = (s', res)"
  obtains R cands G where "distinct cands" "set cands = sg_Key ` set cs"
    "\<And>k. k \<in> set cands \<Longrightarrow> R k = noted_row cs k (row_at now s name k)"
    "G = picked now R maxn (grant_order R cands)"
    "aq_Granted res = map (grant_lease name owner R) G"
    "aq_Active res = length (filter (\<lambda>k. \<not> lr_pausedTill (R k) > now) cands)"
    "aq_Eligible res + length G = length (filter (\<lambda>k. avail now (R k)) cands)"
    "\<And>n k. arow s' n k = (if n = name \<and> k \<in> set G then Some (granted_row now owner ttl (R k))
                           else if n = name \<and> k \<in> set cands then Some (R k) else arow s n k)"
    "at_paused s' = at_paused s" "at_instances s' = at_instances s"
proof -
  obtain s1 cands where nc: "note_candidates now name cs s [] = (s1, cands)" by (cases "note_candidates now name cs s []")
  note n = note_candidates_spec [OF nc, simplified]
  let ?R = "\<lambda>k. the (arow s1 name k)"
  have row: "arow s1 name k = Some (?R k)" if "k \<in> set cands" for k using n(4) [OF that] by auto
  have g: "?R k = noted_row cs k (row_at now s name k)" if "k \<in> set cands" for k using n(4) [OF that] by auto
  let ?G = "picked now ?R maxn (grant_order ?R cands)"
  have "grant_loop now name owner maxn ttl (grant_order ?R cands) s1 \<lparr>aq_Granted = [], aq_Active = 0, aq_Eligible = 0\<rparr> = (s', res)"
    using assms by (simp add: Acquire_def nc)
  from grant_loop_spec [OF _ _ this, of ?R] n(1) row
  have L: "aq_Granted res = map (grant_lease name owner ?R) ?G"
    "aq_Active res = length (filter (\<lambda>k. \<not> lr_pausedTill (?R k) > now) cands)"
    "aq_Eligible res + length ?G = length (filter (\<lambda>k. avail now (?R k)) cands)"
    "\<And>n k. arow s' n k = (if n = name \<and> k \<in> set ?G then Some (granted_row now owner ttl (?R k)) else arow s1 n k)"
    "at_paused s' = at_paused s1" "at_instances s' = at_instances s1"
    by (simp_all add: grant_order_def length_filter_sort_key)
  have rows: "arow s' n k = (if n = name \<and> k \<in> set ?G then Some (granted_row now owner ttl (?R k))
      else if n = name \<and> k \<in> set cands then Some (?R k) else arow s n k)" for n k
    using L(4) [of n k] row [of k] n(3) [of n k] by simp
  show thesis
    by (rule that [OF n(1) _ g refl L(1-3) rows]) (use n(2,5,6) L(5,6) in simp_all)
qed

lemma picked_sub: "set (picked now R room ks) \<subseteq> {k \<in> set ks. avail now (R k)}"
  by (auto simp: picked_def dest: in_set_takeD)

lemma distinct_picked: "distinct ks \<Longrightarrow> distinct (picked now R room ks)"
  by (simp add: picked_def)

lemma avail_noted [simp]: "avail now (noted_row cs k r) = avail now r"
  by (simp add: avail_def)

lemma length_filter_card: "distinct xs \<Longrightarrow> length (filter P xs) = card {x \<in> set xs. P x}"
  by (metis distinct_card distinct_filter set_filter)

lemma acquire_facts:
  assumes "Acquire now s name owner cs maxn ttl = (s', res)"
  shows "distinct (map sl_Key (aq_Granted res))"
    "l \<in> set (aq_Granted res) \<Longrightarrow> sl_Name l = name \<and> sl_Owner l = owner \<and> sl_Key l \<in> sg_Key ` set cs
       \<and> avail now (row_at now s name (sl_Key l)) \<and> sl_Epoch l = lr_epoch (row_at now s name (sl_Key l)) + 1
       \<and> (\<exists>r. arow s' name (sl_Key l) = Some r \<and> lr_owner r = owner \<and> lr_epoch r = sl_Epoch l \<and> lr_leaseUntil r = now + ttl)"
    "n \<noteq> name \<or> k \<notin> sl_Key ` set (aq_Granted res) \<Longrightarrow>
       arow s' n k = arow s n k \<or> n = name \<and> (\<exists>g. arow s' n k = Some ((row_at now s n k)\<lparr>lr_group := g\<rparr>))"
    "length (aq_Granted res) = min (nat maxn) (card {k \<in> sg_Key ` set cs. avail now (row_at now s name k)})"
    "aq_Active res = card {k \<in> sg_Key ` set cs. \<not> lr_pausedTill (row_at now s name k) > now}"
    "aq_Eligible res = card {k \<in> sg_Key ` set cs. avail now (row_at now s name k)} - length (aq_Granted res)"
proof -
  obtain R cands G where A: "distinct cands" "set cands = sg_Key ` set cs"
    "\<And>k. k \<in> set cands \<Longrightarrow> R k = noted_row cs k (row_at now s name k)"
    "G = picked now R maxn (grant_order R cands)"
    "aq_Granted res = map (grant_lease name owner R) G"
    "aq_Active res = length (filter (\<lambda>k. \<not> lr_pausedTill (R k) > now) cands)"
    "aq_Eligible res + length G = length (filter (\<lambda>k. avail now (R k)) cands)"
    "\<And>n k. arow s' n k = (if n = name \<and> k \<in> set G then Some (granted_row now owner ttl (R k))
                           else if n = name \<and> k \<in> set cands then Some (R k) else arow s n k)"
    by (rule Acquire_cases [OF assms]) blast
  have keys: "map sl_Key (aq_Granted res) = G" by (simp add: A(5) grant_lease_def comp_def)
  then have keyset: "sl_Key ` set (aq_Granted res) = set G" by (metis set_map)
  have G: "k \<in> set cands" "avail now (R k)" if "k \<in> set G" for k
    using that picked_sub [of now R maxn "grant_order R cands"] by (auto simp: A(4))
  have same: "avail now (R k) = avail now (row_at now s name k)" "lr_epoch (R k) = lr_epoch (row_at now s name k)"
    "lr_pausedTill (R k) = lr_pausedTill (row_at now s name k)" if "k \<in> set cands" for k
    using A(3) [OF that] by auto
  have av: "length (filter (\<lambda>k. avail now (R k)) cands) = card {k \<in> sg_Key ` set cs. avail now (row_at now s name k)}"
    using same by (simp add: length_filter_card A(1)) (metis A(2))
  show "distinct (map sl_Key (aq_Granted res))" using A(1) by (simp add: keys A(4) distinct_picked)
  show "sl_Name l = name \<and> sl_Owner l = owner \<and> sl_Key l \<in> sg_Key ` set cs
       \<and> avail now (row_at now s name (sl_Key l)) \<and> sl_Epoch l = lr_epoch (row_at now s name (sl_Key l)) + 1
       \<and> (\<exists>r. arow s' name (sl_Key l) = Some r \<and> lr_owner r = owner \<and> lr_epoch r = sl_Epoch l \<and> lr_leaseUntil r = now + ttl)"
    if l: "l \<in> set (aq_Granted res)" for l
  proof -
    from l obtain k where k: "k \<in> set G" "l = grant_lease name owner R k" by (auto simp: A(5))
    then show ?thesis
      using G [OF k(1)] same [OF G(1) [OF k(1)]] A(2) A(8) [of name k] by (simp add: grant_lease_def granted_row_def)
  qed
  show "arow s' n k = arow s n k \<or> n = name \<and> (\<exists>g. arow s' n k = Some ((row_at now s n k)\<lparr>lr_group := g\<rparr>))"
    if "n \<noteq> name \<or> k \<notin> sl_Key ` set (aq_Granted res)" for n k
    using that A(3) [of k] A(8) [of n k] by (auto simp: keyset noted_row_def)
  show len: "length (aq_Granted res) = min (nat maxn) (card {k \<in> sg_Key ` set cs. avail now (row_at now s name k)})"
    by (simp add: A(4,5) picked_def grant_order_def length_filter_sort_key av min.commute)
  show "aq_Active res = card {k \<in> sg_Key ` set cs. \<not> lr_pausedTill (row_at now s name k) > now}"
    using same by (simp add: A(6) length_filter_card A(1)) (metis A(2))
  have "length G = length (aq_Granted res)" using keys by (metis length_map)
  with A(7) av show "aq_Eligible res = card {k \<in> sg_Key ` set cs. avail now (row_at now s name k)} - length (aq_Granted res)"
    by linarith
qed



section \<open>Steps, claims and pauses\<close>

definition aholder :: "automation_store \<Rightarrow> string \<times> string \<Rightarrow> string" where
  "aholder s k = (case arow s (fst k) (snd k) of None \<Rightarrow> [] | Some r \<Rightarrow> lr_owner r)"

definition aepoch :: "automation_store \<Rightarrow> string \<times> string \<Rightarrow> uint64" where
  "aepoch s k = (case arow s (fst k) (snd k) of None \<Rightarrow> 0 | Some r \<Rightarrow> lr_epoch r)"

definition apause :: "automation_store \<Rightarrow> string \<times> string \<Rightarrow> gotime" where
  "apause s k = (case arow s (fst k) (snd k) of None \<Rightarrow> 0 | Some r \<Rightarrow> lr_pausedTill r)"

abbreviation current_segment :: "automation_store \<Rightarrow> segment_lease \<Rightarrow> bool" where
  "current_segment s l \<equiv> current_claim aholder aepoch s (sl_Name l, sl_Key l) (sl_Owner l) (sl_Epoch l)"

text \<open>One critical section of the store, by whichever instance.\<close>

inductive astep :: "automation_store \<Rightarrow> automation_store \<Rightarrow> bool" where
  acquire: "astep s (fst (Acquire now s name owner cs maxn ttl))"
| renew: "astep s (fst (Renew now s held ttl))"
| release: "astep s (fst (auto_Release now s rel))"
| pause: "astep s (Defer now s name key d)"
| set_paused: "astep s (SetPaused s name b)"
| status: "astep s (auto_SaveStatus now s name st ttl)"

inductive_cases astepE: "astep s s'"

text \<open>A step that grants nothing keeps every epoch; it may give a claim up and it may lengthen a pause.\<close>

definition akeeps :: "automation_store \<Rightarrow> automation_store \<Rightarrow> string \<times> string \<Rightarrow> bool" where
  "akeeps s s' k \<longleftrightarrow> aepoch s' k = aepoch s k \<and> (aholder s' k = aholder s k \<or> aholder s' k = []) \<and> apause s k \<le> apause s' k"

lemma akeeps_refl [simp]: "akeeps s s k"
  by (simp add: akeeps_def)

lemma akeeps_trans: "akeeps s s' k \<Longrightarrow> akeeps s' s'' k \<Longrightarrow> akeeps s s'' k"
  by (auto simp: akeeps_def)

lemma akeeps_put:
  assumes "arow s name key = Some a" "lr_epoch b = lr_epoch a" "lr_owner b = lr_owner a \<or> lr_owner b = []"
    "lr_pausedTill a \<le> lr_pausedTill b"
  shows "akeeps s (put_arow s name key b) k"
  using assms by (cases k) (auto simp: akeeps_def aepoch_def aholder_def apause_def)

lemma release_row_simps [simp]:
  "lr_owner (release_row now q r) = []" "lr_epoch (release_row now q r) = lr_epoch r"
  "lr_pausedTill (release_row now q r) = (if rr_DeferFor q > 0 then max (lr_pausedTill r) (now + rr_DeferFor q) else lr_pausedTill r)"
  "lr_lastServed (release_row now q r) = (if rr_Served q then now else lr_lastServed r)"
  by (simp_all add: release_row_def Let_def max_def)

lemma akeeps_renew: "akeeps s (fst (Renew now s held ttl)) k"
proof (induction held arbitrary: s)
  case (Cons l held)
  then show ?case
    by (auto split: option.split prod.split intro!: akeeps_trans [OF akeeps_put Cons] dest: prod_eq_iff [THEN iffD1])
      (metis fst_conv)+
qed simp

lemma akeeps_release: "akeeps s (fst (auto_Release now s rel)) k"
proof (induction rel arbitrary: s)
  case (Cons q rel)
  then show ?case
    by (auto simp: Let_def split: option.split prod.split intro!: akeeps_trans [OF akeeps_put Cons])
      (metis fst_conv)+
qed simp

lemma akeeps_defer: "akeeps s (Defer now s name key d) k"
  by (cases k) (auto simp: Defer_def local_row_of_def fresh_row_def akeeps_def aepoch_def aholder_def apause_def split: option.split)

lemma akeeps_other:
  "akeeps s (SetPaused s name b) k" "akeeps s (auto_SaveStatus now s name st ttl) k"
  by (simp_all add: akeeps_def aepoch_def aholder_def apause_def arow_def SetPaused_def auto_SaveStatus_def Let_def)

lemma row_at_view:
  "lr_epoch (row_at now s n k) = aepoch s (n, k)" "lr_owner (row_at now s n k) = aholder s (n, k)"
  "lr_pausedTill (row_at now s n k) = apause s (n, k)"
  by (simp_all add: row_at_def aepoch_def aholder_def apause_def fresh_row_def split: option.split)

lemma acquire_claims:
  assumes "Acquire now s name owner cs maxn ttl = (s', res)"
  shows "akeeps s s' k \<or> aepoch s' k = aepoch s k + 1 \<and> apause s' k = apause s k \<and> \<not> apause s k > now
    \<and> fst k = name \<and> snd k \<in> sl_Key ` set (aq_Granted res)"
proof -
  obtain n key where k: "k = (n, key)" by (cases k)
  obtain R cands G where A: "\<And>k. k \<in> set cands \<Longrightarrow> R k = noted_row cs k (row_at now s name k)"
    "G = picked now R maxn (grant_order R cands)"
    "aq_Granted res = map (grant_lease name owner R) G"
    "\<And>n k. arow s' n k = (if n = name \<and> k \<in> set G then Some (granted_row now owner ttl (R k))
                           else if n = name \<and> k \<in> set cands then Some (R k) else arow s n k)"
    by (rule Acquire_cases [OF assms]) blast
  have keyset: "sl_Key ` set (aq_Granted res) = set G" by (simp add: A(3) grant_lease_def image_image)
  have G: "key \<in> set cands" "avail now (R key)" if "key \<in> set G"
    using that picked_sub [of now R maxn "grant_order R cands"] by (auto simp: A(2))
  show ?thesis
  proof (cases "n = name \<and> key \<in> set cands")
    case True
    then have "R key = noted_row cs key (row_at now s name key)" using A(1) by blast
    then have "lr_epoch (R key) = aepoch s k" "lr_owner (R key) = aholder s k" "lr_pausedTill (R key) = apause s k"
      using True by (simp_all add: row_at_view k)
    then show ?thesis
      using True A(4) [of n key] G
      by (auto simp: k keyset akeeps_def aepoch_def aholder_def apause_def granted_row_def avail_def)
  next
    case False
    then have "arow s' n key = arow s n key" using A(4) [of n key] G(1) by auto
    then show ?thesis by (simp add: k akeeps_def aepoch_def aholder_def apause_def)
  qed
qed

lemma astep_claims: "astep s s' \<Longrightarrow> akeeps s s' k \<or> aepoch s' k = aepoch s k + 1 \<and> apause s' k = apause s k"
proof (erule astepE)
  fix now name owner cs maxn ttl
  assume "s' = fst (Acquire now s name owner cs maxn ttl)"
  then show ?thesis using acquire_claims [of now s name owner cs maxn ttl s' _ k] by (metis prod.collapse)
qed (simp_all add: akeeps_renew akeeps_release akeeps_defer akeeps_other)

lemma astep_view:
  assumes "astep s s'"
  shows "aepoch s k \<le> aepoch s' k" "aepoch s' k = aepoch s k \<Longrightarrow> aholder s' k = aholder s k \<or> aholder s' k = []"
    "apause s k \<le> apause s' k"
  using astep_claims [OF assms, of k] by (auto simp: akeeps_def)

interpretation afence: fencing astep aholder aepoch
  by unfold_locales (fact astep_view(1), fact astep_view(2))

lemma asteps_pause_mono: "astep\<^sup>*\<^sup>* s s' \<Longrightarrow> apause s k \<le> apause s' k"
  by (induction rule: rtranclp_induct) (auto intro: order_trans astep_view(3))

text \<open>When the store still knows a lease: it is renewed when it has not run out, and it can be given back.\<close>

lemma Renew_one:
  "Renew now s [l] ttl = (if arow s (sl_Name l) (sl_Key l) \<noteq> None \<and> aholder s (sl_Name l, sl_Key l) = sl_Owner l
       \<and> aepoch s (sl_Name l, sl_Key l) = sl_Epoch l \<and> lr_leaseUntil (the (arow s (sl_Name l) (sl_Key l))) > now
     then (put_arow s (sl_Name l) (sl_Key l) ((the (arow s (sl_Name l) (sl_Key l)))\<lparr>lr_leaseUntil := now + ttl\<rparr>), [])
     else (s, [l]))"
  by (auto simp: aholder_def aepoch_def split: option.split)

lemma Release_one:
  "auto_Release now s [q] = (let l = rr_Lease q in
     if arow s (sl_Name l) (sl_Key l) \<noteq> None \<and> aholder s (sl_Name l, sl_Key l) = sl_Owner l
       \<and> aepoch s (sl_Name l, sl_Key l) = sl_Epoch l
     then (put_arow s (sl_Name l) (sl_Key l) (release_row now q (the (arow s (sl_Name l) (sl_Key l)))), [])
     else (s, [l]))"
  by (auto simp: Let_def aholder_def aepoch_def split: option.split)

text \<open>
  Fencing of segment leases. A lease the store granted, and that has since been given back or taken over,
  is refused for ever: whatever happens to the store afterwards, renewing it reports it lost and giving it
  back changes nothing, even when the same instance holds the segment again under a newer lease.
\<close>

theorem segment_fencing:
  assumes "Acquire now s name owner cs maxn ttl = (s1, res)" "l \<in> set (aq_Granted res)" "owner \<noteq> []"
    and "astep\<^sup>*\<^sup>* s1 s2" "\<not> current_segment s2 l" "astep\<^sup>*\<^sup>* s2 s3"
  shows "Renew t s3 [l] d = (s3, [l]) \<and> auto_Release t s3 [\<lparr>rr_Lease = l, rr_DeferFor = d, rr_Served = b\<rparr>] = (s3, [l])"
proof -
  have l: "sl_Owner l = owner" "sl_Name l = name"
    "\<exists>r. arow s1 name (sl_Key l) = Some r \<and> lr_owner r = owner \<and> lr_epoch r = sl_Epoch l"
    using acquire_facts(2) [OF assms(1,2)] by blast+
  then have "current_segment s1 l"
    using assms(3) by (auto simp: current_claim_def aholder_def aepoch_def)
  then have "\<not> current_segment s3 l" by (rule afence.lost_stays_lost [OF _ assms(4-6)])
  then have "\<not> (aholder s3 (sl_Name l, sl_Key l) = sl_Owner l \<and> aepoch s3 (sl_Name l, sl_Key l) = sl_Epoch l)"
    using assms(3) l(1) by (simp add: current_claim_def)
  then show ?thesis by (simp only: Renew_one Release_one Let_def release_request.select_convs) (auto simp del: prod.inject)
qed

text \<open>
  (C34) Pauses hold. Once a segment is paused until some instant, by a deferral or by a release with one, no
  step of any instance shortens the pause: before that instant no \<open>Acquire\<close> grants the segment, and
  \<open>DeferredFor\<close> reports what is left of it.
\<close>

theorem pause_holds:
  assumes "s1 = Defer t0 s name key d" "astep\<^sup>*\<^sup>* s1 s2" "t < t0 + d" "0 \<le> t"
    and "Acquire t s2 name owner cs maxn ttl = (s3, res)"
  shows "key \<notin> sl_Key ` set (aq_Granted res) \<and> 0 < DeferredFor t s2 name key"
proof -
  have "t0 + d \<le> apause s1 (name, key)"
    by (auto simp: assms(1) Defer_def local_row_of_def apause_def split: option.split)
  also have "\<dots> \<le> apause s2 (name, key)" by (rule asteps_pause_mono [OF assms(2)])
  finally have p: "t < apause s2 (name, key)" using assms(3) by simp
  then have "\<not> avail t (row_at t s2 name key)" by (simp add: avail_def row_at_view)
  then have "key \<notin> sl_Key ` set (aq_Granted res)" using acquire_facts(2) [OF assms(5)] by blast
  moreover have "0 < DeferredFor t s2 name key"
    using p assms(4) by (auto simp: DeferredFor_def apause_def time_Sub_def max_int64_def Let_def split: option.splits)
  ultimately show ?thesis ..
qed

end
