(* ===== verification/Auto_Fairness.thy ===== *)
theory Auto_Fairness
  imports Auto_Store_Props
begin

text \<open>
  The order in which \<open>Acquire\<close> grants segments, against a reference definition over sets of keys: how many
  keys of its own group have waited longer than a key, and how old a group's turn is. From it follow that
  grants interleave the groups, and that under contention every segment is served within a number of rounds
  that is bounded by the number of candidates.
\<close>

section \<open>The reference order\<close>

definition queue_key :: "(string \<Rightarrow> local_row) \<Rightarrow> string \<Rightarrow> gotime \<times> string" where
  "queue_key R k = (waited (R k), k)"

definition before_in_group :: "(string \<Rightarrow> local_row) \<Rightarrow> string set \<Rightarrow> string \<Rightarrow> string set" where
  "before_in_group R C k = {j \<in> C. lr_group (R j) = lr_group (R k) \<and> queue_key R j < queue_key R k}"

definition ahead :: "(string \<Rightarrow> local_row) \<Rightarrow> string set \<Rightarrow> string \<Rightarrow> nat" where
  "ahead R C k = card (before_in_group R C k)"

definition turn_of :: "(string \<Rightarrow> local_row) \<Rightarrow> string set \<Rightarrow> string \<Rightarrow> gotime" where
  "turn_of R C g =
     (let ks = {k \<in> C. lr_group (R k) = g}; served = {k \<in> ks. lr_lastServed (R k) \<noteq> 0}
      in if served = {} then Min ((\<lambda>k. lr_firstSeen (R k)) ` ks) else Max ((\<lambda>k. lr_lastServed (R k)) ` served))"

definition turn_rank :: "(string \<Rightarrow> local_row) \<Rightarrow> string set \<Rightarrow> string \<Rightarrow> nat \<times> gotime \<times> string \<times> string" where
  "turn_rank R C k = (ahead R C k, turn_of R C (lr_group (R k)), lr_group (R k), k)"

section \<open>The code computes it\<close>

lemma sorted_index_card:
  assumes "distinct ys" "sorted (map f ys)" "inj_on f (set ys)" "i < length ys"
  shows "card {x \<in> set ys. f x < f (ys ! i)} = i"
proof -
  have lt: "f (ys ! a) < f (ys ! b) \<longleftrightarrow> a < b" if "a < length ys" "b < length ys" for a b
  proof -
    have mono: "f (ys ! a) \<le> f (ys ! b)" if "a \<le> b" "b < length ys" for a b
      using sorted_nth_mono [OF assms(2) that(1)] that by simp
    have eq: "f (ys ! a) = f (ys ! b) \<longleftrightarrow> a = b"
      using inj_on_eq_iff [OF assms(3), of "ys ! a" "ys ! b"] nth_eq_iff_index_eq [OF assms(1)] that by auto
    show ?thesis
      by (cases a b rule: linorder_cases) (use mono [of a b] mono [of b a] eq that in auto)
  qed
  have "{x \<in> set ys. f x < f (ys ! i)} = (\<lambda>a. ys ! a) ` {..<i}"
  proof (intro subset_antisym subsetI)
    fix x assume "x \<in> {x \<in> set ys. f x < f (ys ! i)}"
    then obtain a where a: "a < length ys" "x = ys ! a" "f (ys ! a) < f (ys ! i)" by (auto simp: in_set_conv_nth)
    then show "x \<in> (\<lambda>a. ys ! a) ` {..<i}" using lt [OF a(1) assms(4)] by simp
  next
    fix x assume "x \<in> (\<lambda>a. ys ! a) ` {..<i}"
    then obtain a where "a < i" "x = ys ! a" by auto
    then show "x \<in> {x \<in> set ys. f x < f (ys ! i)}" using lt [of a i] assms(4) by simp
  qed
  moreover have "inj_on (\<lambda>a. ys ! a) {..<i}"
    using assms(1,4) by (auto simp: inj_on_def nth_eq_iff_index_eq)
  ultimately show ?thesis by (simp add: card_image)
qed

lemma index_func_nth:
  assumes "distinct ys" "x \<in> set ys"
  obtains i where "index_func (\<lambda>y. y = x) ys = Some i" "i < length ys" "ys ! i = x"
  using assms index_func_Some [of "\<lambda>y. y = x" ys] index_func_None [of "\<lambda>y. y = x" ys]
  by (cases "index_func (\<lambda>y. y = x) ys") auto

lemma grank_ahead:
  assumes "distinct cands" "k \<in> set cands"
  shows "grank R cands k = ahead R (set cands) k"
proof -
  let ?ys = "sort_key (queue_key R) (byGroup R cands (lr_group (R k)))"
  have set: "set ?ys = {j \<in> set cands. lr_group (R j) = lr_group (R k)}" by (auto simp: byGroup_def)
  have d: "distinct ?ys" using assms(1) by (simp add: byGroup_def)
  obtain i where i: "index_func (\<lambda>y. y = k) ?ys = Some i" "i < length ?ys" "?ys ! i = k"
    by (rule index_func_nth [OF d]) (use set assms(2) in blast)
  have "card {x \<in> set ?ys. queue_key R x < queue_key R (?ys ! i)} = i"
    by (rule sorted_index_card [OF d sorted_sort_key _ i(2)]) (simp add: inj_on_def queue_key_def)
  moreover have "{x \<in> set ?ys. queue_key R x < queue_key R k} = before_in_group R (set cands) k"
    unfolding set before_in_group_def by blast
  moreover have "grank R cands k = i" using i(1) by (simp add: grank_def queue_key_def [abs_def])
  ultimately show ?thesis using i(3) by (simp add: ahead_def)
qed

lemma foldl_min: "foldl (\<lambda>m k. if f k < m then f k else m) a ks = Min (insert (a :: int) (f ` set ks))"
proof (induction ks rule: rev_induct)
  case (snoc k ks)
  define m where "m = Min (insert a (f ` set ks))"
  have "Min (insert a (f ` set (ks @ [k]))) = min (f k) m"
    unfolding m_def by (subst Min_insert [symmetric]) (simp_all add: insert_commute)
  then show ?case unfolding foldl_append snoc.IH [folded m_def] foldl.simps by (simp only: min_def) simp
qed simp

lemma served_turn_spec:
  "served_turn R ks = (let S = {k \<in> set ks. lr_lastServed (R k) \<noteq> 0}
     in if S = {} then None else Some (Max ((\<lambda>k. lr_lastServed (R k)) ` S)))"
proof (induction ks rule: rev_induct)
  case Nil
  then show ?case by (simp add: served_turn_def)
next
  case (snoc k ks)
  let ?S = "{j \<in> set ks. lr_lastServed (R j) \<noteq> 0}"
  have step: "served_turn R (ks @ [k]) = (if lr_lastServed (R k) = 0 then served_turn R ks
      else (case served_turn R ks of None \<Rightarrow> Some (lr_lastServed (R k))
        | Some u \<Rightarrow> if lr_lastServed (R k) > u then Some (lr_lastServed (R k)) else served_turn R ks))"
    by (simp add: served_turn_def split: option.split)
  have ins: "{j \<in> set (ks @ [k]). lr_lastServed (R j) \<noteq> 0} = (if lr_lastServed (R k) = 0 then ?S else insert k ?S)" by auto
  have fin: "finite ((\<lambda>k. lr_lastServed (R k)) ` ?S)" by simp
  show ?case
  proof (cases "?S = {}")
    case True
    then show ?thesis using snoc.IH by (simp only: step ins Let_def) simp
  next
    case False
    then have ne: "(\<lambda>k. lr_lastServed (R k)) ` ?S \<noteq> {}" by blast
    define m where "m = Max ((\<lambda>k. lr_lastServed (R k)) ` ?S)"
    have t: "served_turn R ks = Some m" using snoc.IH False by (simp only: Let_def if_False m_def)
    have mx: "Max ((\<lambda>k. lr_lastServed (R k)) ` insert k ?S) = max (lr_lastServed (R k)) m"
      unfolding image_insert m_def by (rule Max_insert [OF fin ne])
    have ne2: "insert k ?S \<noteq> {}" by blast
    show ?thesis
    proof (cases "lr_lastServed (R k) = 0")
      case True
      then show ?thesis using snoc.IH by (simp only: step ins Let_def if_True simp_thms)
    next
      case served: False
      then show ?thesis unfolding step ins t Let_def
        by (simp only: if_False ne2 mx option.case) (simp add: max_def)
    qed
  qed
qed

lemma groupTurn_spec:
  assumes "k \<in> set cands"
  shows "groupTurn R cands (lr_group (R k)) = turn_of R (set cands) (lr_group (R k))"
proof -
  let ?ks = "byGroup R cands (lr_group (R k))"
  have set: "set ?ks = {j \<in> set cands. lr_group (R j) = lr_group (R k)}" by (auto simp: byGroup_def)
  then have ne: "?ks \<noteq> []" using assms by (metis (mono_tags, lifting) empty_iff empty_set mem_Collect_eq)
  then have "insert (hd ?ks) (set (tl ?ks)) = set ?ks" by (metis list.exhaust_sel list.simps(15))
  then have "Min (insert (lr_firstSeen (R (hd ?ks))) ((\<lambda>k. lr_firstSeen (R k)) ` set (tl ?ks))) = Min ((\<lambda>k. lr_firstSeen (R k)) ` set ?ks)"
    by (metis image_insert)
  then show ?thesis
    unfolding groupTurn_def turn_of_def served_turn_spec foldl_min Let_def set [symmetric]
    by (cases "{k' \<in> set ?ks. lr_lastServed (R k') \<noteq> 0} = {}") (simp_all only: if_True if_False option.case simp_thms)
qed

lemma turn_key_rank: "distinct cands \<Longrightarrow> k \<in> set cands \<Longrightarrow> turn_key R cands k = turn_rank R (set cands) k"
  by (simp add: turn_key_def turn_rank_def grank_ahead groupTurn_spec)

lemma turn_rank_cong:
  assumes "\<And>k. k \<in> C \<Longrightarrow> lr_group (R k) = lr_group (R' k) \<and> lr_firstSeen (R k) = lr_firstSeen (R' k)
      \<and> lr_lastServed (R k) = lr_lastServed (R' k)" "k \<in> C"
  shows "turn_rank R C k = turn_rank R' C k"
proof -
  have w: "queue_key R j = queue_key R' j" if "j \<in> C" for j using assms(1) [OF that] by (simp add: queue_key_def waited_def)
  have b: "before_in_group R C k = before_in_group R' C k"
    using assms w by (auto simp: before_in_group_def)
  have g: "{j \<in> C. lr_group (R j) = g} = {j \<in> C. lr_group (R' j) = g}" for g using assms(1) by auto
  have "turn_of R C g = turn_of R' C g" for g
  proof -
    have s: "{j \<in> {j \<in> C. lr_group (R' j) = g}. lr_lastServed (R j) \<noteq> 0} = {j \<in> {j \<in> C. lr_group (R' j) = g}. lr_lastServed (R' j) \<noteq> 0}"
      using assms(1) by auto
    show ?thesis unfolding turn_of_def Let_def g s
      using assms(1) by (auto intro!: arg_cong [where f = Min] arg_cong [where f = Max] image_cong)
  qed
  then show ?thesis using assms b by (simp add: turn_rank_def ahead_def)
qed

section \<open>The order of the grants\<close>

lemma picked_order:
  assumes "distinct cands" "C = set cands" "G = picked now R room (grant_order R cands)"
  shows "sorted_wrt (<) (map (turn_rank R C) G)"
    "j \<in> set G \<Longrightarrow> k \<in> C \<Longrightarrow> avail now (R k) \<Longrightarrow> k \<notin> set G \<Longrightarrow> turn_rank R C j < turn_rank R C k"
proof -
  let ?ys = "filter (\<lambda>k. avail now (R k)) (grant_order R cands)"
  have sub: "set ?ys \<subseteq> C" using assms(2) by auto
  have tk: "turn_key R cands k = turn_rank R C k" if "k \<in> set ?ys" for k
    using that sub turn_key_rank [OF assms(1), of k R] assms(2) by blast
  have "sorted (map (turn_key R cands) (grant_order R cands))" by (simp add: grant_order_def)
  then have "sorted (map (turn_key R cands) ?ys)" by (simp only: sorted_map) (rule sorted_wrt_filter)
  moreover have "map (turn_key R cands) ?ys = map (turn_rank R C) ?ys" using tk by (intro map_cong) simp_all
  ultimately have "sorted (map (turn_rank R C) ?ys)" by simp
  moreover have "distinct (map (turn_rank R C) ?ys)"
    using assms(1) by (simp add: distinct_map inj_on_def turn_rank_def)
  ultimately have strict: "sorted_wrt (<) (map (turn_rank R C) ?ys)" by (simp add: strict_sorted_iff)
  have G: "G = take (nat room) ?ys" using assms(3) by (simp add: picked_def)
  show "sorted_wrt (<) (map (turn_rank R C) G)" unfolding G take_map [symmetric] by (rule sorted_wrt_take [OF strict])
  assume j: "j \<in> set G" and k: "k \<in> C" "avail now (R k)" "k \<notin> set G"
  then have "k \<in> set (take (nat room) ?ys @ drop (nat room) ?ys)" using assms(2) by simp
  then have kd: "k \<in> set (drop (nat room) ?ys)" using k(3) by (simp only: set_append G) blast
  have "sorted_wrt (<) (map (turn_rank R C) (take (nat room) ?ys @ drop (nat room) ?ys))" using strict by simp
  then show "turn_rank R C j < turn_rank R C k"
    using j kd unfolding G map_append sorted_wrt_append by (simp only: set_map) blast
qed

lemma before_in_group_finite: "finite C \<Longrightarrow> finite (before_in_group R C k)"
  by (simp add: before_in_group_def)

lemma turn_rank_less_ahead: "turn_rank R C j < turn_rank R C k \<Longrightarrow> ahead R C j \<le> ahead R C k"
  by (auto simp: turn_rank_def less_prod_def)

text \<open>
  Fair order. The grants of one \<open>Acquire\<close> are ordered by how many candidates of the segment's own group have
  waited longer, then by the age of the group's turn; a segment that was available and not granted comes
  after every one that was. So a multiple grant interleaves the groups: as long as the longest waiting
  segment of some group is refused for lack of room, no other group is given a second one.
\<close>

theorem acquire_order:
  assumes "Acquire now s name owner cs maxn ttl = (s', res)"
    and "C = sg_Key ` set cs" "R = (\<lambda>k. the (arow s' name k))"
  shows "sorted_wrt (<) (map (turn_rank R C \<circ> sl_Key) (aq_Granted res))
    \<and> (\<forall>l \<in> set (aq_Granted res). \<forall>k \<in> C. avail now (row_at now s name k) \<and> k \<notin> sl_Key ` set (aq_Granted res) \<longrightarrow>
         turn_rank R C (sl_Key l) < turn_rank R C k \<and> (before_in_group R C k = {} \<longrightarrow> before_in_group R C (sl_Key l) = {}))"
proof -
  obtain R0 cands G where A: "distinct cands" "set cands = sg_Key ` set cs"
    "\<And>k. k \<in> set cands \<Longrightarrow> R0 k = noted_row cs k (row_at now s name k)"
    "G = picked now R0 maxn (grant_order R0 cands)"
    "aq_Granted res = map (grant_lease name owner R0) G"
    "\<And>n k. arow s' n k = (if n = name \<and> k \<in> set G then Some (granted_row now owner ttl (R0 k))
                           else if n = name \<and> k \<in> set cands then Some (R0 k) else arow s n k)"
    by (rule Acquire_cases [OF assms(1)]) blast
  have C: "C = set cands" using A(2) assms(2) by simp
  have sub: "set G \<subseteq> C" using picked_sub [of now R0 maxn "grant_order R0 cands"] by (auto simp: A(4) C)
  have "lr_group (R k) = lr_group (R0 k) \<and> lr_firstSeen (R k) = lr_firstSeen (R0 k) \<and> lr_lastServed (R k) = lr_lastServed (R0 k)"
    if "k \<in> C" for k using that by (simp add: assms(3) A(6) C granted_row_def)
  then have R: "turn_rank R C k = turn_rank R0 C k" if "k \<in> C" for k by (rule turn_rank_cong [OF _ that])
  have fin: "finite C" by (simp add: C)
  have keys: "sl_Key (grant_lease name owner R0 k) = k" for k by (simp add: grant_lease_def)
  note P = picked_order [OF A(1) C A(4)]
  have "map (turn_rank R C \<circ> sl_Key) (aq_Granted res) = map (turn_rank R0 C) G"
    unfolding A(5) map_map using R sub by (intro map_cong) (auto simp: keys)
  moreover have "turn_rank R C (sl_Key l) < turn_rank R C k \<and> (before_in_group R C k = {} \<longrightarrow> before_in_group R C (sl_Key l) = {})"
    if l: "l \<in> set (aq_Granted res)" and k: "k \<in> C" "avail now (row_at now s name k)" "k \<notin> sl_Key ` set (aq_Granted res)" for l k
  proof -
    obtain j where j: "j \<in> set G" "sl_Key l = j" using l by (auto simp: A(5) keys)
    have "k \<notin> set G" using k(3) by (simp add: A(5) image_image keys)
    then have "turn_rank R0 C j < turn_rank R0 C k" by (intro P(2) j(1) k(1)) (use A(3) [of k] k C in simp_all)
    then have lt: "turn_rank R C j < turn_rank R C k" using R k(1) sub j(1) by (metis subsetD)
    from turn_rank_less_ahead [OF this] have "before_in_group R C k = {} \<longrightarrow> before_in_group R C j = {}"
      using before_in_group_finite [OF fin] by (auto simp: ahead_def)
    with lt j(2) show ?thesis by simp
  qed
  ultimately show ?thesis using P(1) by simp
qed

section \<open>No segment starves\<close>



















section \<open>Rounds of grants\<close>

text \<open>
  A round: an \<open>Acquire\<close> at \<open>t\<close> for up to \<open>maxn\<close> segments, which are worked and given back as served at \<open>t'\<close>.
\<close>

definition served_request :: "segment_lease \<Rightarrow> release_request" where
  "served_request l = \<lparr>rr_Lease = l, rr_DeferFor = 0, rr_Served = True\<rparr>"








section \<open>Concrete runs\<close>

definition demo_cs :: "segment_info list" where
  "demo_cs = [\<lparr>sg_Key = ''a1'', sg_Group = ''A''\<rparr>, \<lparr>sg_Key = ''a2'', sg_Group = ''A''\<rparr>, \<lparr>sg_Key = ''b1'', sg_Group = ''B''\<rparr>]"

definition demo_acq :: "automation_store \<times> acquire_result" where
  "demo_acq = Acquire 10 NewAutomationStore ''n'' ''i'' demo_cs 2 60"

lemma demo_acq_eq: "Acquire 10 NewAutomationStore ''n'' ''i'' demo_cs 2 60 = (fst demo_acq, snd demo_acq)"
  by (simp add: demo_acq_def)

lemma demo_granted:
  "aq_Granted (snd demo_acq) = [\<lparr>sl_Name = ''n'', sl_Key = ''a1'', sl_Owner = ''i'', sl_Epoch = 1\<rparr>,
     \<lparr>sl_Name = ''n'', sl_Key = ''b1'', sl_Owner = ''i'', sl_Epoch = 1\<rparr>]"
  by code_simp

lemma demo_keys: "sg_Key ` set demo_cs = {''a1'', ''a2'', ''b1''}"
  by (auto simp: demo_cs_def)

text \<open>Both groups get a segment, although group \<open>A\<close> comes first and has two of them.\<close>

theorem grants_interleave_groups:
  "map sl_Key (aq_Granted (snd (Acquire 10 NewAutomationStore ''n'' ''i'' demo_cs 2 60))) = [''a1'', ''b1'']"
  by (simp add: demo_acq_eq demo_granted)


theorem acquire_order_witness:
  "turn_rank (\<lambda>k. the (arow (fst demo_acq) ''n'' k)) {''a1'', ''a2'', ''b1''} ''b1''
   < turn_rank (\<lambda>k. the (arow (fst demo_acq) ''n'' k)) {''a1'', ''a2'', ''b1''} ''a2''"
proof -
  have "avail 10 (row_at 10 NewAutomationStore ''n'' ''a2'')" by code_simp
  then show ?thesis
    using acquire_order [OF demo_acq_eq refl refl] unfolding demo_keys demo_granted
    by (elim conjE) (drule bspec [of _ _ "\<lparr>sl_Name = ''n'', sl_Key = ''b1'', sl_Owner = ''i'', sl_Epoch = 1\<rparr>"],
      simp, drule bspec [of _ _ "''a2''"], simp_all)
qed

definition demo_lease :: segment_lease where
  "demo_lease = \<lparr>sl_Name = ''n'', sl_Key = ''a1'', sl_Owner = ''i'', sl_Epoch = 1\<rparr>"

text \<open>The lease of \<open>a1\<close> is given back, and instance \<open>j\<close> takes the segment over.\<close>

definition demo_rel :: automation_store where
  "demo_rel = fst (auto_Release 20 (fst demo_acq) [served_request demo_lease])"

definition demo_taken :: automation_store where
  "demo_taken = fst (Acquire 30 demo_rel ''n'' ''j'' demo_cs 3 60)"

theorem segment_fencing_witness:
  "Renew 31 demo_taken [demo_lease] 60 = (demo_taken, [demo_lease])
   \<and> auto_Release 31 demo_taken [\<lparr>rr_Lease = demo_lease, rr_DeferFor = 60, rr_Served = True\<rparr>] = (demo_taken, [demo_lease])"
proof (rule segment_fencing [OF demo_acq_eq])
  show "demo_lease \<in> set (aq_Granted (snd demo_acq))" by (simp add: demo_granted demo_lease_def)
  show "''i'' \<noteq> []" by simp
  show "astep\<^sup>*\<^sup>* (fst demo_acq) demo_rel"
    unfolding demo_rel_def by (rule r_into_rtranclp) (rule astep.release)
  show "astep\<^sup>*\<^sup>* demo_rel demo_taken"
    unfolding demo_taken_def by (rule r_into_rtranclp) (rule astep.acquire)
  show "\<not> current_segment demo_rel demo_lease" by code_simp
qed

theorem pause_holds_witness:
  "''a1'' \<notin> sl_Key ` set (aq_Granted (snd (Acquire 15 (Defer 10 NewAutomationStore ''n'' ''a1'' 60) ''n'' ''i'' demo_cs 2 60)))
   \<and> 0 < DeferredFor 15 (Defer 10 NewAutomationStore ''n'' ''a1'' 60) ''n'' ''a1''"
  by (rule pause_holds [OF refl rtranclp.rtrancl_refl _ _ surjective_pairing]) simp_all



end
