(* ===== verification/Sql_Automations_Props.thy ===== *)
theory Sql_Automations_Props
  imports Sql_Automations Auto_Fairness
begin

text \<open>
  The contract of the automation store on SQLite. A row of its table stands for a row of the store in memory, with instants in milliseconds; the
  window functions of the query order the candidates as the code in memory does; and every call answers as the same call on the store in
  memory does, or fails and changes nothing. For any clock and any driver the store is also an instance of \<open>fencing\<close>.
\<close>

section \<open>Rows\<close>

definition lrow :: "automation_row \<Rightarrow> local_row" where
  "lrow r = \<lparr>lr_group = ag_group_key r, lr_owner = ag_owner r, lr_epoch = ag_epoch r, lr_leaseUntil = ag_lease_until r, lr_pausedTill = ag_paused_until r,
     lr_firstSeen = ag_first_seen r, lr_lastServed = (case ag_last_served r of None \<Rightarrow> 0 | Some t \<Rightarrow> t)\<rparr>"

definition ag_key :: "automation_row \<Rightarrow> string \<times> string" where
  "ag_key r = (ag_name r, ag_segment_key r)"

text \<open>The primary key, and that no segment was served at the instant zero, which in memory stands for never.\<close>

definition rows_ok :: "automation_row list \<Rightarrow> bool" where
  "rows_ok rows \<longleftrightarrow> distinct (map ag_key rows) \<and> (\<forall>r \<in> set rows. ag_last_served r \<noteq> Some 0)"

abbreviation row_for :: "automation_row list \<Rightarrow> string \<Rightarrow> string \<Rightarrow> automation_row option" where
  "row_for rows n k \<equiv> find (is_segment n k) rows"

lemma is_segment_key: "is_segment n k r \<longleftrightarrow> ag_key r = (n, k)"
  by (auto simp: is_segment_def ag_key_def)

lemma row_for_mem: "row_for rows n k = Some r \<Longrightarrow> r \<in> set rows \<and> ag_key r = (n, k)"
  by (auto simp: find_Some_iff is_segment_key)

lemma row_for_self:
  assumes "distinct (map ag_key rows)" "r \<in> set rows"
  shows "row_for rows (ag_name r) (ag_segment_key r) = Some r"
  using assms
proof (induction rows)
  case (Cons q rows)
  show ?case
  proof (cases "r = q")
    case False
    then have "r \<in> set rows" using Cons.prems(2) by simp
    moreover have "ag_key q \<noteq> ag_key r" using imageI [OF calculation, of ag_key] Cons.prems(1) by auto
    then have "\<not> is_segment (ag_name r) (ag_segment_key r) q" by (simp add: is_segment_def ag_key_def)
    ultimately show ?thesis using Cons by simp
  qed (simp add: is_segment_def)
qed simp

lemma row_for_none: "row_for rows n k = None \<longleftrightarrow> \<not> list_ex (is_segment n k) rows"
  by (induction rows) auto

lemma row_for_append: "row_for (rows @ [r]) n k = (case row_for rows n k of None \<Rightarrow> if is_segment n k r then Some r else None | Some q \<Rightarrow> Some q)"
  by (induction rows) auto

lemma row_for_update:
  assumes "\<And>r. ag_key (f r) = ag_key r"
  shows "row_for (sql_update c f rows) n k = map_option (\<lambda>r. if c r then f r else r) (row_for rows n k)"
  using assms by (induction rows) (auto simp: sql_update_def is_segment_key)

lemma rows_ok_update:
  assumes "\<And>r. ag_key (f r) = ag_key r" "\<And>r. ag_last_served (f r) = Some 0 \<Longrightarrow> ag_last_served r = Some 0" "rows_ok rows"
  shows "rows_ok (sql_update c f rows)"
proof -
  have "map ag_key (sql_update c f rows) = map ag_key rows" using assms(1) by (induction rows) (auto simp: sql_update_def)
  moreover have "ag_last_served r \<noteq> Some 0" if "r \<in> set (sql_update c f rows)" for r
    using that assms(2,3) by (auto simp: sql_update_def rows_ok_def)
  ultimately show ?thesis using assms(3) unfolding rows_ok_def by simp
qed

lemma rows_ok_append:
  assumes "rows_ok rows" "row_for rows (ag_name r) (ag_segment_key r) = None" "ag_last_served r = None"
  shows "rows_ok (rows @ [r])"
  using assms by (auto simp: rows_ok_def find_None_iff is_segment_def ag_key_def)

lemma row_ops_keys [simp]:
  "ag_key (grant_row now owner ttl r) = ag_key r" "ag_key (sql_released_row now q r) = ag_key r" "ag_key (r\<lparr>ag_lease_until := x\<rparr>) = ag_key r"
  "ag_key (r\<lparr>ag_group_key := g\<rparr>) = ag_key r" "ag_key (r\<lparr>ag_paused_until := x\<rparr>) = ag_key r" "ag_key (new_automation_row n k now) = (n, k)"
  by (simp_all add: ag_key_def grant_row_def sql_released_row_def new_automation_row_def Let_def)

section \<open>The window functions\<close>

lemma map_insort_key:
  assumes "\<forall>x \<in> insert a (set xs). g x = h (f x)"
  shows "map f (insort_key g a xs) = insort_key h (f a) (map f xs)"
  using assms by (induction xs) auto

lemma map_sort_key:
  assumes "\<forall>x \<in> set xs. g x = h (f x)"
  shows "map f (sort_key g xs) = sort_key h (map f xs)"
  using assms
proof (induction xs)
  case (Cons a xs)
  then have "\<forall>x \<in> insert a (set (sort_key g xs)). g x = h (f x)" by simp
  then have "map f (insort_key g a (sort_key g xs)) = insort_key h (f a) (map f (sort_key g xs))" by (rule map_insort_key)
  with Cons show ?case by simp
qed simp

lemma index_func_map: "index_func P (map f xs) = index_func (\<lambda>x. P (f x)) xs"
  by (induction xs) auto

text \<open>The rows of the candidates and the rows in memory they stand for.\<close>

definition stands_for :: "automation_row list \<Rightarrow> (string \<Rightarrow> local_row) \<Rightarrow> bool" where
  "stands_for rows R \<longleftrightarrow> distinct (map ag_segment_key rows) \<and> (\<forall>r \<in> set rows. R (ag_segment_key r) = lrow r \<and> ag_last_served r \<noteq> Some 0)"

lemma coalesce_waited: "ag_last_served r \<noteq> Some 0 \<Longrightarrow> coalesce_served r = waited (lrow r)"
  by (auto simp: coalesce_served_def waited_def lrow_def split: option.split)

lemma partition_group:
  assumes "stands_for rows R" "r \<in> set rows"
  shows "map ag_segment_key (partition_of rows r) = byGroup R (map ag_segment_key rows) (lr_group (R (ag_segment_key r)))"
proof -
  have "lr_group (R (ag_segment_key q)) = ag_group_key q" if "q \<in> set rows" for q using that assms(1) by (simp add: stands_for_def lrow_def)
  then show ?thesis using assms(2) by (auto simp: partition_of_def byGroup_def filter_map comp_def intro!: arg_cong [where f = "map ag_segment_key"] filter_cong)
qed

lemma row_number_rank:
  assumes "stands_for rows R" "r \<in> set rows"
  shows "row_number rows r = grank R (map ag_segment_key rows) (ag_segment_key r) + 1"
proof -
  let ?P = "partition_of rows r" and ?k = "ag_segment_key r"
  have sub: "set ?P \<subseteq> set rows" "r \<in> set ?P" using assms(2) by (auto simp: partition_of_def)
  have eq: "\<forall>q \<in> set ?P. (coalesce_served q, ag_segment_key q) = (waited (R (ag_segment_key q)), ag_segment_key q)"
    using sub(1) assms(1) coalesce_waited by (auto simp: stands_for_def)
  let ?S = "sort_key (\<lambda>q. (coalesce_served q, ag_segment_key q)) ?P"
  have "map ag_segment_key ?S = sort_key (\<lambda>k. (waited (R k), k)) (map ag_segment_key ?P)" using eq by (rule map_sort_key)
  moreover have "index_func (\<lambda>q. ag_segment_key q = ?k) ?S = index_func (\<lambda>k. k = ?k) (map ag_segment_key ?S)" by (simp only: index_func_map)
  ultimately have idx: "index_func (\<lambda>q. ag_segment_key q = ?k) ?S
      = index_func (\<lambda>k. k = ?k) (sort_key (\<lambda>k. (waited (R k), k)) (byGroup R (map ag_segment_key rows) (lr_group (R ?k))))"
    by (simp only: partition_group [OF assms])
  have "index_func (\<lambda>q. ag_segment_key q = ?k) ?S \<noteq> None" using sub(2) by auto
  then obtain i where "index_func (\<lambda>q. ag_segment_key q = ?k) ?S = Some i" by blast
  then show ?thesis using idx by (simp add: row_number_def grank_def)
qed

lemma foldl_maximum: "foldl max (t :: int) ts = Max (insert t (set ts))"
proof -
  have "foldl max t ts = fold max ts t" by (induction ts arbitrary: t) (simp_all add: max.commute)
  then show ?thesis using Max.set_eq_fold [of t ts] by simp
qed

lemma foldl_minimum: "foldl min (t :: int) ts = Min (insert t (set ts))"
proof -
  have "foldl min t ts = fold min ts t" by (induction ts arbitrary: t) (simp_all add: min.commute)
  then show ?thesis using Min.set_eq_fold [of t ts] by simp
qed

lemma max_served_spec: "max_served rows = (let S = {t. Some t \<in> ag_last_served ` set rows} in if S = {} then None else Some (Max S))"
proof -
  have S: "set (List.map_filter ag_last_served rows) = {t. Some t \<in> ag_last_served ` set rows}"
    by (induction rows) (auto simp: map_filter_simps split: option.split)
  show ?thesis unfolding max_served_def S [symmetric] Let_def by (cases "List.map_filter ag_last_served rows") (auto simp: foldl_maximum)
qed

lemma min_first_seen_spec: "rows \<noteq> [] \<Longrightarrow> min_first_seen rows = Min (ag_first_seen ` set rows)"
  by (cases rows) (auto simp: min_first_seen_def foldl_minimum)

lemma window_turn_group:
  assumes "stands_for rows R" "r \<in> set rows"
  shows "window_turn rows r = groupTurn R (map ag_segment_key rows) (ag_group_key r)"
proof -
  let ?C = "set (map ag_segment_key rows)" and ?P = "set (partition_of rows r)" and ?g = "lr_group (R (ag_segment_key r))"
  let ?ks = "{k \<in> ?C. lr_group (R k) = ?g}"
  have row: "R (ag_segment_key q) = lrow q" "ag_last_served q \<noteq> Some 0" if "q \<in> set rows" for q using that assms(1) by (simp_all add: stands_for_def)
  have g: "?g = ag_group_key r" using row(1) [OF assms(2)] by (simp add: lrow_def)
  have ks: "?ks = ag_segment_key ` ?P" using row(1) g by (auto simp: partition_of_def lrow_def)
  have inP: "q \<in> set rows" if "q \<in> ?P" for q using that by (simp add: partition_of_def)
  have seen: "(\<lambda>k. lr_firstSeen (R k)) ` ?ks = ag_first_seen ` ?P"
    unfolding ks image_image using row(1) inP by (intro image_cong) (auto simp: lrow_def)
  have srv: "(\<lambda>k. lr_lastServed (R k)) ` {k \<in> ?ks. lr_lastServed (R k) \<noteq> 0} = {t. Some t \<in> ag_last_served ` ?P}" (is "?A = ?B")
  proof (intro subset_antisym subsetI)
    fix t assume "t \<in> ?A"
    then obtain q where q: "q \<in> ?P" "t = lr_lastServed (R (ag_segment_key q))" "t \<noteq> 0" unfolding ks by auto
    then have "ag_last_served q = Some t" using row(1) [OF inP [OF q(1)]] by (auto simp: lrow_def split: option.splits)
    then show "t \<in> ?B" using q(1) by force
  next
    fix t assume "t \<in> ?B"
    then obtain q where q: "q \<in> ?P" "ag_last_served q = Some t" by auto
    have "lr_lastServed (R (ag_segment_key q)) = t" "t \<noteq> 0" using row [OF inP [OF q(1)]] q(2) by (auto simp: lrow_def)
    then show "t \<in> ?A" unfolding ks using q(1) by blast
  qed
  have ne: "partition_of rows r \<noteq> []" using assms(2) by (auto simp: partition_of_def filter_empty_conv)
  have "groupTurn R (map ag_segment_key rows) ?g = turn_of R ?C ?g" by (rule groupTurn_spec) (use assms(2) in simp)
  also have "\<dots> = window_turn rows r"
    unfolding turn_of_def window_turn_def max_served_spec Let_def min_first_seen_spec [OF ne] seen [symmetric] srv [symmetric]
    by (cases "{k \<in> ?ks. lr_lastServed (R k) \<noteq> 0} = {}") (simp_all only: image_is_empty if_True if_False option.case simp_thms)
  finally show ?thesis using g by simp
qed

text \<open>So the query gives the candidates in the order of the store in memory.\<close>

lemma grant_order_cong:
  assumes "distinct ks" "distinct ks'" "set ks = set ks'" "\<And>k. k \<in> set ks \<Longrightarrow> R k = R' k"
  shows "grant_order R ks = grant_order R' ks'"
proof -
  have m: "mset ks = mset ks'" using assms(1-3) by (simp add: set_eq_iff_mset_eq_distinct)
  have "turn_key R ks k = turn_key R' ks' k" if "k \<in> set ks" for k
    using that assms turn_rank_cong [of "set ks" R R' k] by (simp add: turn_key_rank)
  then have "map (turn_key R ks) (grant_order R' ks') = map (turn_key R' ks') (grant_order R' ks')" using assms(3) by simp
  moreover have "sorted (map (turn_key R' ks') (grant_order R' ks'))" by (simp add: grant_order_def)
  ultimately have "sorted (map (turn_key R ks) (grant_order R' ks'))" by (simp only:)
  then show ?thesis unfolding grant_order_def [of R ks]
    by (intro sort_key_inj_key_eq) (simp_all add: m grant_order_def inj_on_def turn_key_def)
qed

lemma shift_first: "(a :: nat, x) \<le> (b, y) \<Longrightarrow> (a + 1, x) \<le> (b + 1, y)"
  by (simp add: less_eq_prod_def)

lemma query_order:
  assumes "stands_for rows R"
  shows "map ag_segment_key (sort_key (\<lambda>r. (row_number rows r, window_turn rows r, ag_group_key r, ag_segment_key r)) rows)
    = grant_order R (map ag_segment_key rows)"
proof -
  let ?ks = "map ag_segment_key rows"
  define h where "h k = (grank R ?ks k + 1, groupTurn R ?ks (lr_group (R k)), lr_group (R k), k)" for k
  have row: "lr_group (R (ag_segment_key q)) = ag_group_key q" if "q \<in> set rows" for q using that assms by (simp add: stands_for_def lrow_def)
  have "(row_number rows r, window_turn rows r, ag_group_key r, ag_segment_key r) = h (ag_segment_key r)" if "r \<in> set rows" for r
    unfolding h_def row_number_rank [OF assms that] window_turn_group [OF assms that] row [OF that] by (rule refl)
  then have "\<forall>r \<in> set rows. (row_number rows r, window_turn rows r, ag_group_key r, ag_segment_key r) = h (ag_segment_key r)" by blast
  then have "map ag_segment_key (sort_key (\<lambda>r. (row_number rows r, window_turn rows r, ag_group_key r, ag_segment_key r)) rows) = sort_key h ?ks"
    by (rule map_sort_key)
  also have "\<dots> = grant_order R ?ks"
  proof (rule sort_key_inj_key_eq)
    have mono: "h j \<le> h k" if "turn_key R ?ks j \<le> turn_key R ?ks k" for j k
      using that unfolding h_def turn_key_def by (rule shift_first)
    have "sorted_wrt (\<lambda>j k. turn_key R ?ks j \<le> turn_key R ?ks k) (grant_order R ?ks)"
      using sorted_sort_key [of "turn_key R ?ks" ?ks] unfolding grant_order_def sorted_map .
    then show "sorted (map h (grant_order R ?ks))" unfolding sorted_map by (rule sorted_wrt_mono_rel [rotated]) (rule mono)
    show "mset ?ks = mset (grant_order R ?ks)" by (simp add: grant_order_def)
    show "inj_on h (set ?ks)" by (rule inj_onI) (simp add: h_def)
  qed
  finally show ?thesis .
qed

section \<open>The statements of Acquire\<close>

lemma unique_from_facts:
  "distinct (map sg_Key (unique_from seen cs))" "set (map sg_Key (unique_from seen cs)) = sg_Key ` set cs - set seen"
  "k \<notin> set seen \<Longrightarrow> find (\<lambda>c. sg_Key c = k) (unique_from seen cs) = find (\<lambda>c. sg_Key c = k) cs"
proof (induction cs arbitrary: seen)
  case (Cons c cs)
  { case 1 show ?case using Cons.IH(1,2) by auto }
  { case 2 show ?case using Cons.IH(2) by auto }
  { case 3 then show ?case using Cons.IH(3) by auto }
qed auto

lemma uniqueCandidates_facts:
  "distinct (map sg_Key (uniqueCandidates cs))" "set (map sg_Key (uniqueCandidates cs)) = sg_Key ` set cs"
  "noted_group (uniqueCandidates cs) k g = noted_group cs k g" "uniqueCandidates cs = [] \<longleftrightarrow> cs = []"
proof -
  show keys: "set (map sg_Key (uniqueCandidates cs)) = sg_Key ` set cs" unfolding uniqueCandidates_def unique_from_facts(2) by simp
  show "uniqueCandidates cs = [] \<longleftrightarrow> cs = []" using keys by force
qed (simp_all add: uniqueCandidates_def unique_from_facts noted_group_def)

definition base_row :: "int \<Rightarrow> automation_row list \<Rightarrow> string \<Rightarrow> string \<Rightarrow> automation_row" where
  "base_row now rows n k = (case row_for rows n k of None \<Rightarrow> new_automation_row n k now | Some r \<Rightarrow> r)"

definition noted_seg :: "segment_info list \<Rightarrow> string \<Rightarrow> automation_row \<Rightarrow> automation_row" where
  "noted_seg cs k r = r\<lparr>ag_group_key := noted_group cs k (ag_group_key r)\<rparr>"

lemma noted_seg_lrow: "lrow (noted_seg cs k r) = noted_row cs k (lrow r)"
  by (simp add: noted_seg_def noted_row_def lrow_def)

lemma new_row_group [simp]: "(new_automation_row n k now)\<lparr>ag_group_key := []\<rparr> = new_automation_row n k now"
  by (simp add: new_automation_row_def)

lemma record_candidate_row:
  "row_for (record_candidate now name rows c) n k =
    (if n = name \<and> k = sg_Key c then Some (noted_seg [c] k (base_row now rows n k)) else row_for rows n k)"
proof (cases "list_ex (is_segment name (sg_Key c)) rows")
  case True
  then obtain r where r: "row_for rows name (sg_Key c) = Some r" using row_for_none [of name "sg_Key c" rows] by auto
  have same: "\<not> is_segment name (sg_Key c) q" if "row_for rows n k = Some q" "\<not> (n = name \<and> k = sg_Key c)" for q
    using row_for_mem [OF that(1)] that(2) by (auto simp: is_segment_key)
  show ?thesis
    using True r row_for_mem [OF r] same
    by (cases "row_for rows n k")
      (auto simp: record_candidate_def row_for_update base_row_def noted_seg_def noted_group_def is_segment_key)
next
  case False
  then have none: "row_for rows name (sg_Key c) = None" by (simp add: row_for_none)
  show ?thesis
    using False none
    by (cases "row_for rows n k")
      (auto simp: record_candidate_def row_for_append base_row_def noted_seg_def noted_group_def is_segment_key)
qed

lemma record_candidate_ok: "rows_ok rows \<Longrightarrow> rows_ok (record_candidate now name rows c)"
  unfolding record_candidate_def
  by (auto simp: row_for_none new_automation_row_def intro!: rows_ok_update rows_ok_append)

lemma record_candidates_row:
  assumes "distinct (map sg_Key cs)"
  shows "row_for (foldl (record_candidate now name) rows cs) n k =
    (if n = name \<and> k \<in> sg_Key ` set cs then Some (noted_seg cs k (base_row now rows n k)) else row_for rows n k)"
  using assms
proof (induction cs arbitrary: rows)
  case (Cons c cs)
  let ?rows = "record_candidate now name rows c"
  have ih: "row_for (foldl (record_candidate now name) ?rows cs) n k =
    (if n = name \<and> k \<in> sg_Key ` set cs then Some (noted_seg cs k (base_row now ?rows n k)) else row_for ?rows n k)"
    using Cons by simp
  show ?case
  proof (cases "k = sg_Key c")
    case True
    then have "k \<notin> sg_Key ` set cs" using Cons.prems by auto
    then show ?thesis using ih True by (simp add: record_candidate_row noted_seg_def noted_group_def)
  next
    case False
    then have "base_row now ?rows m k = base_row now rows m k" for m by (simp add: base_row_def record_candidate_row)
    moreover have "noted_seg (c # cs) k r = noted_seg cs k r" for r using False by (simp add: noted_seg_def noted_group_def)
    moreover have "row_for ?rows n k = row_for rows n k" using False by (simp add: record_candidate_row)
    ultimately show ?thesis using ih False by simp
  qed
qed simp

lemma record_candidates_ok: "rows_ok rows \<Longrightarrow> rows_ok (foldl (record_candidate now name) rows cs)"
  by (induction cs arbitrary: rows) (auto simp: record_candidate_ok)

lemma scan_candidates_spec:
  assumes "scan_candidates now maxn rs grant active eligible = (grant', active', eligible')"
    and "G = take (nat (maxn - int (length grant))) (filter (\<lambda>r. avail now (lrow r)) rs)"
  shows "grant' = grant @ map ag_segment_key G
    \<and> active' = active + length (filter (\<lambda>r. \<not> lr_pausedTill (lrow r) > now) rs)
    \<and> eligible' + length G = eligible + length (filter (\<lambda>r. avail now (lrow r)) rs)"
  using assms
proof (induction rs arbitrary: grant active eligible G)
  case (Cons r rs)
  let ?room = "nat (maxn - int (length grant))"
  have av: "avail now (lrow r) \<longleftrightarrow> \<not> ag_paused_until r > now \<and> \<not> (ag_owner r \<noteq> [] \<and> ag_lease_until r > now)"
    and pt: "lr_pausedTill (lrow r) = ag_paused_until r" by (auto simp: avail_def heldAt_def lrow_def)
  consider "ag_paused_until r > now" | "\<not> ag_paused_until r > now" "ag_owner r \<noteq> [] \<and> ag_lease_until r > now"
    | "avail now (lrow r)" "int (length grant) < maxn" | "avail now (lrow r)" "\<not> int (length grant) < maxn" using av by blast
  then show ?case
  proof cases
    case 2
    have "scan_candidates now maxn rs grant (active + 1) eligible = (grant', active', eligible')"
      using Cons.prems(1) 2 by auto
    from Cons.IH [OF this refl] show ?thesis using Cons.prems(2) 2 av pt by simp
  next
    case 3
    then have "?room = Suc (nat (maxn - int (length (grant @ [ag_segment_key r]))))" by simp
    then have G: "G = r # take (nat (maxn - int (length (grant @ [ag_segment_key r])))) (filter (\<lambda>r. avail now (lrow r)) rs)"
      using Cons.prems(2) 3(1) by simp
    have "scan_candidates now maxn rs (grant @ [ag_segment_key r]) (active + 1) eligible = (grant', active', eligible')"
      using Cons.prems(1) 3 av by auto
    from Cons.IH [OF this refl] show ?thesis unfolding G using 3(1) av pt by simp
  next
    case 4
    then have "?room = 0" by simp
    have "scan_candidates now maxn rs grant (active + 1) (eligible + 1) = (grant', active', eligible')"
      using Cons.prems(1) 4 av by auto
    from Cons.IH [OF this refl] show ?thesis using Cons.prems(2) \<open>?room = 0\<close> 4(1) av pt by simp
  qed (use Cons.IH Cons.prems av pt in auto)
qed simp

section \<open>Grants\<close>

lemma grant_rows_spec:
  assumes "grant_rows F now name owner ttl i ks rows granted = Inr (rows', granted')" "distinct ks"
  shows "granted' = granted @ map (\<lambda>k. \<lparr>sl_Name = name, sl_Key = k, sl_Owner = owner, sl_Epoch = ag_epoch (the (row_for rows name k)) + 1\<rparr>) ks
    \<and> (\<forall>n k. \<exists>t. row_for rows' n k = (if n = name \<and> k \<in> set ks then map_option (grant_row t owner ttl) (row_for rows n k) else row_for rows n k)
          \<and> (t \<in> range now))
    \<and> (rows_ok rows \<longrightarrow> rows_ok rows')"
  using assms
proof (induction ks arbitrary: i rows granted)
  case (Cons k ks)
  from Cons.prems(1) obtain r where r: "row_for rows name k = Some r"
    by (auto split: option.splits)
  let ?rows = "sql_update (is_segment name k) (grant_row (now i) owner ttl) rows"
  let ?l = "\<lparr>sl_Name = name, sl_Key = k, sl_Owner = owner, sl_Epoch = ag_epoch r + 1\<rparr>"
  have rest: "grant_rows F now name owner ttl (Suc i) ks ?rows (granted @ [?l]) = Inr (rows', granted')"
    using Cons.prems(1) r by (auto simp: grant_row_def [of "now i" owner ttl r] split: option.splits)
  have upd: "row_for ?rows n j = (if n = name \<and> j = k then map_option (grant_row (now i) owner ttl) (row_for rows n j) else row_for rows n j)" for n j
    using row_for_mem [of n j rows] by (cases "row_for rows n j") (auto simp: row_for_update is_segment_key)
  have ok: "rows_ok rows \<Longrightarrow> rows_ok ?rows" by (rule rows_ok_update) (simp_all add: grant_row_def ag_key_def)
  have nin: "k \<notin> set ks" and d: "distinct ks" using Cons.prems(2) by auto
  have ih: "granted' = (granted @ [?l]) @ map (\<lambda>k. \<lparr>sl_Name = name, sl_Key = k, sl_Owner = owner, sl_Epoch = ag_epoch (the (row_for ?rows name k)) + 1\<rparr>) ks"
    "\<And>n j. \<exists>t. row_for rows' n j = (if n = name \<and> j \<in> set ks then map_option (grant_row t owner ttl) (row_for ?rows n j) else row_for ?rows n j) \<and> t \<in> range now"
    "rows_ok ?rows \<longrightarrow> rows_ok rows'"
    using Cons.IH [OF rest d] by blast+
  have "map (\<lambda>k. \<lparr>sl_Name = name, sl_Key = k, sl_Owner = owner, sl_Epoch = ag_epoch (the (row_for ?rows name k)) + 1\<rparr>) ks
      = map (\<lambda>k. \<lparr>sl_Name = name, sl_Key = k, sl_Owner = owner, sl_Epoch = ag_epoch (the (row_for rows name k)) + 1\<rparr>) ks"
    using nin by (auto simp: upd)
  moreover have "\<exists>t. row_for rows' n j = (if n = name \<and> j \<in> set (k # ks) then map_option (grant_row t owner ttl) (row_for rows n j) else row_for rows n j) \<and> t \<in> range now" for n j
  proof (cases "n = name \<and> j = k")
    case True
    then have "row_for rows' n j = map_option (grant_row (now i) owner ttl) (row_for rows n j)" using ih(2) [of n j] nin upd [of n j] by auto
    then show ?thesis using True by auto
  next
    case False
    then have "row_for ?rows n j = row_for rows n j" by (simp only: upd if_False)
    then show ?thesis using ih(2) [of n j] False by auto
  qed
  ultimately show ?case using ih(1,3) ok r by simp
qed simp

lemma grant_rows_live:
  assumes "\<And>i. tf_stmt F i = None" "\<And>k. k \<in> set ks \<Longrightarrow> row_for rows name k \<noteq> None"
  shows "\<exists>rows' granted'. grant_rows F now name owner ttl i ks rows granted = Inr (rows', granted')"
  using assms(2)
proof (induction ks arbitrary: i rows granted)
  case (Cons k ks)
  then obtain r where r: "row_for rows name k = Some r" by fastforce
  have "row_for (sql_update (is_segment name k) (grant_row (now i) owner ttl) rows) name j \<noteq> None" if "j \<in> set ks" for j
    using Cons.prems [of j] that by (simp add: row_for_update)
  from Cons.IH [OF this] show ?case by (simp add: assms(1) r)
qed simp

section \<open>The database and the store in memory\<close>

definition sim :: "automation_db \<Rightarrow> automation_store \<Rightarrow> bool" where
  "sim db s \<longleftrightarrow> rows_ok (ad_segments db) \<and> (\<forall>n k. arow s n k = map_option lrow (row_for (ad_segments db) n k))
     \<and> (\<forall>n. at_paused s n = (case map_of (ad_controls db) n of None \<Rightarrow> False | Some b \<Rightarrow> b))"

definition live_driver :: "tx_faults \<Rightarrow> bool" where
  "live_driver F \<longleftrightarrow> tf_begin F = None \<and> (\<forall>i. tf_stmt F i = None) \<and> tf_commit F = None"

lemma auto_runTx_failed: "auto_runTx F op fn db = (db', Inl e) \<Longrightarrow> db' = db \<and> (live_driver F \<longrightarrow> (\<exists>e. fn db = Inl e))"
  by (auto simp: auto_runTx_def live_driver_def split: option.splits sum.splits prod.splits)

lemma auto_runTx_success: "auto_runTx F op fn db = (db', Inr x) \<Longrightarrow> fn db = Inr (db', x)"
  by (auto simp: auto_runTx_def split: option.splits sum.splits prod.splits)

lemma lrow_fields: "lr_epoch (lrow r) = ag_epoch r" "lr_owner (lrow r) = ag_owner r" "lr_leaseUntil (lrow r) = ag_lease_until r"
  "lr_pausedTill (lrow r) = ag_paused_until r"
  by (simp_all add: lrow_def)

lemma lrow_new [simp]: "lrow (new_automation_row n k t) = fresh_row t"
  by (simp add: lrow_def new_automation_row_def fresh_row_def)

lemma lrow_grant [simp]: "lrow (grant_row t owner ttl r) = granted_row t owner (Milliseconds ttl) (lrow r)"
  by (simp add: lrow_def grant_row_def granted_row_def)

lemma base_row_at: "sim db s \<Longrightarrow> lrow (base_row t (ad_segments db) n k) = row_at t s n k"
  by (auto simp: sim_def base_row_def row_at_def split: option.split)

text \<open>The rows after the upsert, the selection among them, and what it stands for.\<close>

lemma recorded_rows:
  assumes "sim db s" "rows = foldl (record_candidate t name) (ad_segments db) (uniqueCandidates cs)"
  shows "rows_ok rows" "k \<in> sg_Key ` set cs \<Longrightarrow> \<exists>r. row_for rows name k = Some r \<and> lrow r = noted_row cs k (row_at t s name k)"
    "n \<noteq> name \<or> k \<notin> sg_Key ` set cs \<Longrightarrow> row_for rows n k = row_for (ad_segments db) n k"
proof -
  note u = uniqueCandidates_facts [of cs]
  have keys: "sg_Key ` set (uniqueCandidates cs) = sg_Key ` set cs" using u(2) by simp
  have row: "row_for rows n k = (if n = name \<and> k \<in> sg_Key ` set cs then Some (noted_seg (uniqueCandidates cs) k (base_row t (ad_segments db) n k))
      else row_for (ad_segments db) n k)" for n k
    unfolding assms(2) record_candidates_row [OF u(1)] keys by (rule refl)
  show "rows_ok rows" unfolding assms(2) by (rule record_candidates_ok) (use assms(1) in \<open>simp add: sim_def\<close>)
  have "noted_row (uniqueCandidates cs) k q = noted_row cs k q" for q by (simp add: noted_row_def u(3))
  then show "\<exists>r. row_for rows name k = Some r \<and> lrow r = noted_row cs k (row_at t s name k)" if "k \<in> sg_Key ` set cs"
    using that row [of name k] by (simp add: noted_seg_lrow base_row_at [OF assms(1)])
  show "row_for rows n k = row_for (ad_segments db) n k" if "n \<noteq> name \<or> k \<notin> sg_Key ` set cs" using that row [of n k] by auto
qed

lemma selected_rows:
  assumes "rows_ok rows" "\<And>k. k \<in> C \<Longrightarrow> \<exists>r. row_for rows name k = Some r" "C = set keys"
    and "sel = filter (\<lambda>r. ag_name r = name \<and> ag_segment_key r \<in> set keys) rows" "R = (\<lambda>k. lrow (the (row_for rows name k)))"
  shows "stands_for sel R" "set (map ag_segment_key sel) = C"
proof -
  have d: "distinct (map ag_key rows)" using assms(1) by (simp add: rows_ok_def)
  have "distinct (map ag_key sel)" unfolding assms(4) using d by (rule distinct_map_filter)
  moreover have "map ag_key sel = map (Pair name) (map ag_segment_key sel)" by (simp add: assms(4) ag_key_def)
  ultimately have "distinct (map ag_segment_key sel)" by (metis distinct_map)
  moreover have "R (ag_segment_key r) = lrow r" if "r \<in> set sel" for r
    using that row_for_self [OF d, of r] by (auto simp: assms(4,5))
  ultimately show "stands_for sel R" using assms(1,4) by (auto simp: stands_for_def rows_ok_def)
  show "set (map ag_segment_key sel) = C"
  proof (intro subset_antisym subsetI)
    fix k assume "k \<in> C"
    then obtain r where r: "row_for rows name k = Some r" using assms(2) by blast
    then have "r \<in> set sel" "ag_segment_key r = k" using row_for_mem [OF r] \<open>k \<in> C\<close> assms(3,4) by (auto simp: ag_key_def)
    then show "k \<in> set (map ag_segment_key sel)" by force
  qed (use assms(3,4) in auto)
qed

lemma filter_keys: "filter P (map f xs) = map f (filter (\<lambda>x. P (f x)) xs)"
  by (simp add: filter_map comp_def)

text \<open>What the query and the loop over it grant and count.\<close>

lemma scan_selected:
  assumes "stands_for sel R" "S = sort_key (\<lambda>r. (row_number sel r, window_turn sel r, ag_group_key r, ag_segment_key r)) sel"
    and "scan_candidates t maxn S [] 0 0 = (grant, active, eligible)" "ks = map ag_segment_key sel"
  shows "grant = picked t R maxn (grant_order R ks)" "active = length (filter (\<lambda>k. \<not> lr_pausedTill (R k) > t) ks)"
    "eligible + length grant = length (filter (\<lambda>k. avail t (R k)) ks)"
proof -
  have order: "map ag_segment_key S = grant_order R ks" unfolding assms(2,4) by (rule query_order [OF assms(1)])
  have R: "R (ag_segment_key r) = lrow r" if "r \<in> set S" for r using that assms(1) by (simp add: assms(2) stands_for_def)
  have flt: "filter (\<lambda>k. P (R k)) (grant_order R ks) = map ag_segment_key (filter (\<lambda>r. P (lrow r)) S)" for P
    unfolding order [symmetric] filter_keys using R by (simp cong: filter_cong)
  have len: "length (filter P (grant_order R ks)) = length (filter P ks)" for P by (simp add: grant_order_def length_filter_sort_key)
  note sc = scan_candidates_spec [OF assms(3) refl]
  show g: "grant = picked t R maxn (grant_order R ks)" using sc flt [of "avail t"] by (simp add: picked_def take_map)
  show "active = length (filter (\<lambda>k. \<not> lr_pausedTill (R k) > t) ks)"
    using sc flt [of "\<lambda>r. \<not> lr_pausedTill r > t"] len [of "\<lambda>k. \<not> lr_pausedTill (R k) > t"] by simp
  show "eligible + length grant = length (filter (\<lambda>k. avail t (R k)) ks)"
    using sc flt [of "avail t"] len [of "\<lambda>k. avail t (R k)"] by simp
qed

lemma acquire_tx_success:
  assumes "acquire_tx F now name owner maxn ttl js db = Inr (db', res)"
  obtains rows sel grant active eligible rows' granted
  where "rows = foldl (record_candidate (now 0) name) (ad_segments db) js"
    "sel = filter (\<lambda>r. ag_name r = name \<and> ag_segment_key r \<in> set (map sg_Key js)) rows"
    "scan_candidates (now 1) maxn (sort_key (\<lambda>r. (row_number sel r, window_turn sel r, ag_group_key r, ag_segment_key r)) sel) [] 0 0 = (grant, active, eligible)"
    "grant_rows F now name owner ttl 2 grant rows [] = Inr (rows', granted)"
    "db' = db\<lparr>ad_segments := rows'\<rparr>" "res = \<lparr>aq_Granted = granted, aq_Active = active, aq_Eligible = eligible\<rparr>"
  using assms by (auto simp: acquire_tx_def Let_def select_candidates_def split: option.splits sum.splits prod.splits)

text \<open>The transaction grants what the reference order picks: \<open>R\<close> are the rows of the candidates as the store in memory notes them.\<close>

lemma acquire_tx_spec:
  assumes "sim db s" "acquire_tx F (\<lambda>_. t) name owner maxn ttl (uniqueCandidates cs) db = Inr (db', res)"
    and "distinct cands" "set cands = sg_Key ` set cs" "\<And>k. k \<in> set cands \<Longrightarrow> R k = noted_row cs k (row_at t s name k)"
    and "G = picked t R maxn (grant_order R cands)"
  shows "aq_Granted res = map (grant_lease name owner R) G"
    "aq_Active res = length (filter (\<lambda>k. \<not> lr_pausedTill (R k) > t) cands)"
    "aq_Eligible res + length G = length (filter (\<lambda>k. avail t (R k)) cands)"
    "map_option lrow (row_for (ad_segments db') n k) = (if n = name \<and> k \<in> set G then Some (granted_row t owner (Milliseconds ttl) (R k))
        else if n = name \<and> k \<in> set cands then Some (R k) else arow s n k)"
    "rows_ok (ad_segments db')" "ad_controls db' = ad_controls db"
proof -
  obtain rows sel grant active eligible rows' granted
    where rows: "rows = foldl (record_candidate t name) (ad_segments db) (uniqueCandidates cs)"
      and sel_def: "sel = filter (\<lambda>r. ag_name r = name \<and> ag_segment_key r \<in> set (map sg_Key (uniqueCandidates cs))) rows"
      and scan: "scan_candidates t maxn (sort_key (\<lambda>r. (row_number sel r, window_turn sel r, ag_group_key r, ag_segment_key r)) sel) [] 0 0 = (grant, active, eligible)"
      and gr: "grant_rows F (\<lambda>_. t) name owner ttl 2 grant rows [] = Inr (rows', granted)"
      and out: "db' = db\<lparr>ad_segments := rows'\<rparr>" "res = \<lparr>aq_Granted = granted, aq_Active = active, aq_Eligible = eligible\<rparr>"
    by (rule acquire_tx_success [OF assms(2)]) blast
  define Q where "Q = (\<lambda>k. lrow (the (row_for rows name k)))"
  let ?ks = "map ag_segment_key sel"
  note rec = recorded_rows [OF assms(1) rows]
  have sel: "stands_for sel Q" "set ?ks = sg_Key ` set cs"
    by (rule selected_rows [OF rec(1) _ _ sel_def Q_def]; use rec(2) uniqueCandidates_facts(2) [of cs] in \<open>simp; blast\<close>)+
  have row: "\<exists>r. row_for rows name k = Some r \<and> lrow r = R k" if "k \<in> set cands" for k using that rec(2) [of k] assms(4,5) by auto
  then have same: "Q k = R k" if "k \<in> set cands" for k using that by (fastforce simp: Q_def)
  have d: "distinct ?ks" "set ?ks = set cands" using sel assms(4) by (auto simp: stands_for_def)
  have order: "grant_order Q ?ks = grant_order R cands" by (rule grant_order_cong) (use d assms(3) same in auto)
  note sc = scan_selected [OF sel(1) refl scan refl]
  have G: "grant = G" unfolding sc(1) assms(6) order by (rule picked_cong) (simp add: same)
  have sub: "set G \<subseteq> set cands" using picked_sub [of t R maxn "grant_order R cands"] assms(6) by auto
  have dG: "distinct G" unfolding assms(6) by (rule distinct_picked) (simp add: assms(3))
  have cnt: "length (filter (\<lambda>k. P (Q k)) ?ks) = length (filter (\<lambda>k. P (R k)) cands)" for P
    unfolding length_filter_card [OF d(1)] length_filter_card [OF assms(3)] d(2) using same by (metis (mono_tags, lifting))
  note gs = grant_rows_spec [OF gr, unfolded G, OF dG]
  have "ag_epoch (the (row_for rows name k)) = lr_epoch (R k)" if "k \<in> set G" for k
    using same [of k] that sub unfolding Q_def by (metis lrow_fields(1) subsetD)
  then show "aq_Granted res = map (grant_lease name owner R) G" using gs by (simp add: out(2) grant_lease_def)
  show "aq_Active res = length (filter (\<lambda>k. \<not> lr_pausedTill (R k) > t) cands)" "aq_Eligible res + length G = length (filter (\<lambda>k. avail t (R k)) cands)"
    using sc(2,3) cnt [of "\<lambda>r. \<not> lr_pausedTill r > t"] cnt [of "avail t"] G by (simp_all add: out(2))
  have post: "row_for rows' n k = (if n = name \<and> k \<in> set G then map_option (grant_row t owner ttl) (row_for rows n k) else row_for rows n k)"
    using gs by auto
  have pre: "arow s n k = map_option lrow (row_for (ad_segments db) n k)" using assms(1) by (simp add: sim_def)
  show "map_option lrow (row_for (ad_segments db') n k) = (if n = name \<and> k \<in> set G then Some (granted_row t owner (Milliseconds ttl) (R k))
        else if n = name \<and> k \<in> set cands then Some (R k) else arow s n k)"
  proof (cases "n = name \<and> k \<in> set cands")
    case True
    then show ?thesis using row [of k] post by (auto simp: out(1))
  next
    case False
    then show ?thesis using rec(3) [of n k] post pre assms(4) sub by (auto simp: out(1))
  qed
  show "rows_ok (ad_segments db')" "ad_controls db' = ad_controls db" using gs rec(1) by (simp_all add: out(1))
qed

lemma acquire_sim:
  assumes "sim db s" "marshal (uniqueCandidates cs) = Inr (uniqueCandidates cs)" "sa_Acquire marshal F (\<lambda>_. t) db name owner cs maxn ttl = (db', Inr res)"
    and "Acquire t s name owner cs maxn (Milliseconds ttl) = (s', res')"
  shows "res = res' \<and> sim db' s'"
proof (cases "cs = []")
  case True
  then show ?thesis using assms by (auto simp: sa_Acquire_def uniqueCandidates_def Acquire_def grant_order_def)
next
  case False
  have "auto_runTx F (''acquire '' @ name) (acquire_tx F (\<lambda>_. t) name owner maxn ttl (uniqueCandidates cs)) db = (db', Inr res)"
    using assms(2,3) False uniqueCandidates_facts(4) [of cs] by (simp add: sa_Acquire_def Let_def)
  note tx = auto_runTx_success [OF this]
  obtain R cands G where A: "distinct cands" "set cands = sg_Key ` set cs"
    "\<And>k. k \<in> set cands \<Longrightarrow> R k = noted_row cs k (row_at t s name k)"
    "G = picked t R maxn (grant_order R cands)" "aq_Granted res' = map (grant_lease name owner R) G"
    "aq_Active res' = length (filter (\<lambda>k. \<not> lr_pausedTill (R k) > t) cands)"
    "aq_Eligible res' + length G = length (filter (\<lambda>k. avail t (R k)) cands)"
    "\<And>n k. arow s' n k = (if n = name \<and> k \<in> set G then Some (granted_row t owner (Milliseconds ttl) (R k))
                           else if n = name \<and> k \<in> set cands then Some (R k) else arow s n k)"
    "at_paused s' = at_paused s"
    by (rule Acquire_cases [OF assms(4)]) blast
  note T = acquire_tx_spec [OF assms(1) tx A(1-4)]
  have "res = res'" using T(1-3) A(5-7) by (cases res; cases res') simp
  moreover have "sim db' s'" using assms(1) T(4-6) A(8,9) by (simp add: sim_def)
  ultimately show ?thesis ..
qed

lemma acquire_tx_live:
  assumes "live_driver F" "js = uniqueCandidates cs"
  shows "\<exists>db' res. acquire_tx F now name owner maxn ttl js db = Inr (db', res)"
proof -
  let ?rows = "foldl (record_candidate (now 0) name) (ad_segments db) js"
  obtain grant active eligible where sc: "scan_candidates (now 1) maxn (select_candidates name (map sg_Key js) ?rows) [] 0 0 = (grant, active, eligible)"
    by (metis prod_cases3)
  have "row_for ?rows name k \<noteq> None" if kg: "k \<in> set grant" for k
  proof -
    have "set grant \<subseteq> ag_segment_key ` set (select_candidates name (map sg_Key js) ?rows)"
      using scan_candidates_spec [OF sc refl] by (auto dest!: in_set_takeD)
    then obtain r where "r \<in> set (select_candidates name (map sg_Key js) ?rows)" "ag_segment_key r = k" using kg by blast
    then have "k \<in> sg_Key ` set js" by (auto simp: select_candidates_def Let_def)
    then show ?thesis using uniqueCandidates_facts(1) [of cs] by (simp add: record_candidates_row assms(2))
  qed
  then show ?thesis using assms(1) grant_rows_live [where F = F and ks = grant and rows = ?rows and name = name and now = now and owner = owner and ttl = ttl and i = 2 and granted = "[]"] sc
    by (auto simp: acquire_tx_def live_driver_def Let_def)
qed

section \<open>The other statements\<close>

definition rsim :: "automation_row list \<Rightarrow> automation_store \<Rightarrow> bool" where
  "rsim rows s \<longleftrightarrow> rows_ok rows \<and> (\<forall>n k. arow s n k = map_option lrow (row_for rows n k))"

lemma sim_rows: "sim db s \<longleftrightarrow> rsim (ad_segments db) s \<and> (\<forall>n. at_paused s n = (case map_of (ad_controls db) n of None \<Rightarrow> False | Some b \<Rightarrow> b))"
  by (simp add: sim_def rsim_def)

text \<open>An update whose condition names a key changes the row of the key, or none.\<close>

lemma keyed_update:
  assumes "distinct (map ag_key rows)" "\<And>r. cond r \<Longrightarrow> is_segment n k r"
  shows "filter cond rows = (case row_for rows n k of None \<Rightarrow> [] | Some r \<Rightarrow> if cond r then [r] else [])"
  using assms(1)
proof (induction rows)
  case (Cons q rows)
  show ?case
  proof (cases "is_segment n k q")
    case True
    then have "(n, k) \<notin> ag_key ` set rows" using Cons.prems by (auto simp: is_segment_key)
    then have "row_for rows n k = None" unfolding find_None_iff is_segment_key by force
    then show ?thesis using Cons True assms(2) by simp
  next
    case False
    then show ?thesis using Cons assms(2) by auto
  qed
qed simp

lemma update_unmatched: "filter cond rows = [] \<Longrightarrow> sql_update cond f rows = rows"
  by (auto simp: sql_update_def filter_empty_conv map_idI)

lemma rsim_update:
  assumes "rsim rows s" "\<And>r. cond r \<Longrightarrow> is_segment n k r" "\<And>r. ag_key (f r) = ag_key r"
    and "\<And>r. ag_last_served (f r) = Some 0 \<Longrightarrow> ag_last_served r = Some 0" "row_for rows n k = Some r" "cond r"
  shows "rsim (sql_update cond f rows) (put_arow s n k (lrow (f r)))"
proof -
  have "map_option lrow (row_for (sql_update cond f rows) m j) = arow (put_arow s n k (lrow (f r))) m j" for m j
  proof (cases "m = n \<and> j = k")
    case True
    then show ?thesis using assms(5,6) by (simp add: row_for_update [OF assms(3)])
  next
    case False
    then have "\<not> cond q" if "row_for rows m j = Some q" for q using row_for_mem [OF that] assms(2) [of q] by (auto simp: is_segment_key)
    then show ?thesis using False assms(1) by (cases "row_for rows m j") (auto simp: row_for_update [OF assms(3)] rsim_def)
  qed
  moreover have "rows_ok (sql_update cond f rows)" by (rule rows_ok_update [OF assms(3,4)]) (use assms(1) in \<open>simp_all add: rsim_def\<close>)
  ultimately show ?thesis by (simp add: rsim_def)
qed

lemma leased_key: "leased_by l r \<Longrightarrow> is_segment (sl_Name l) (sl_Key l) r"
  by (simp add: leased_by_def)

lemma renew_sim:
  assumes "rsim rows s" "renew_rows F (\<lambda>_. t) ttl i ls rows lost = Inr (rows', lost')" "Renew t s ls (Milliseconds ttl) = (s', l2)"
  shows "lost' = lost @ l2 \<and> rsim rows' s' \<and> at_paused s' = at_paused s"
  using assms
proof (induction ls arbitrary: rows s i lost l2)
  case (Cons l ls)
  let ?cond = "\<lambda>r. leased_by l r \<and> ag_lease_until r > t" and ?f = "\<lambda>r :: automation_row. r\<lparr>ag_lease_until := t + Milliseconds ttl\<rparr>"
  have ok: "distinct (map ag_key rows)" and row: "arow s (sl_Name l) (sl_Key l) = map_option lrow (row_for rows (sl_Name l) (sl_Key l))"
    using Cons.prems(1) by (simp_all add: rsim_def rows_ok_def)
  have flt: "filter ?cond rows = (case row_for rows (sl_Name l) (sl_Key l) of None \<Rightarrow> [] | Some r \<Rightarrow> if ?cond r then [r] else [])"
    by (rule keyed_update [OF ok]) (simp add: leased_by_def)
  have rest: "renew_rows F (\<lambda>_. t) ttl (Suc i) ls (sql_update ?cond ?f rows) (if filter ?cond rows = [] then lost @ [l] else lost) = Inr (rows', lost')"
    using Cons.prems(2) by (auto simp: changed_def Let_def split: option.splits if_splits)
  show ?case
  proof (cases "\<exists>r. row_for rows (sl_Name l) (sl_Key l) = Some r \<and> ?cond r")
    case True
    then obtain r where r: "row_for rows (sl_Name l) (sl_Key l) = Some r" "?cond r" by blast
    have mem: "Renew t (put_arow s (sl_Name l) (sl_Key l) (lrow (?f r))) ls (Milliseconds ttl) = (s', l2)"
      using Cons.prems(3) row r by (auto simp: leased_by_def lrow_def)
    have "rsim (sql_update ?cond ?f rows) (put_arow s (sl_Name l) (sl_Key l) (lrow (?f r)))"
      by (rule rsim_update [where cond = ?cond and f = ?f, OF Cons.prems(1) _ _ _ r]) (simp_all add: leased_by_def)
    from Cons.IH [OF this rest mem] show ?thesis using flt r by simp
  next
    case False
    then have none: "filter ?cond rows = []" using flt by (auto split: option.splits)
    obtain l3 where mem: "Renew t s ls (Milliseconds ttl) = (s', l3)" "l2 = l # l3"
      using Cons.prems(3) row False row_for_mem [of "sl_Name l" "sl_Key l" rows]
      by (auto simp: leased_by_def lrow_def is_segment_key split: option.splits prod.splits if_splits)
    have "rsim (sql_update ?cond ?f rows) s" using Cons.prems(1) update_unmatched [OF none] by simp
    from Cons.IH [OF this rest mem(1)] show ?thesis using none mem(2) by simp
  qed
qed (simp)

definition ms_request :: "release_request \<Rightarrow> release_request" where
  "ms_request q = q\<lparr>rr_DeferFor := Milliseconds (rr_DeferFor q)\<rparr>"

lemma lrow_released: "lrow (sql_released_row t q r) = release_row t (ms_request q) (lrow r)"
  by (auto simp: lrow_def sql_released_row_def release_row_def ms_request_def Let_def max_def)

lemma release_sim:
  assumes "rsim rows s" "t \<noteq> 0" "release_rows F (\<lambda>_. t) i qs rows lost = Inr (rows', lost')" "auto_Release t s (map ms_request qs) = (s', l2)"
  shows "lost' = lost @ l2 \<and> rsim rows' s' \<and> at_paused s' = at_paused s"
  using assms(1,3,4)
proof (induction qs arbitrary: rows s i lost l2)
  case (Cons q qs)
  let ?l = "rr_Lease q"
  have lq: "rr_Lease (ms_request q) = ?l" by (simp add: ms_request_def)
  have ok: "distinct (map ag_key rows)" and row: "arow s (sl_Name ?l) (sl_Key ?l) = map_option lrow (row_for rows (sl_Name ?l) (sl_Key ?l))"
    using Cons.prems(1) by (simp_all add: rsim_def rows_ok_def)
  have flt: "filter (leased_by ?l) rows = (case row_for rows (sl_Name ?l) (sl_Key ?l) of None \<Rightarrow> [] | Some r \<Rightarrow> if leased_by ?l r then [r] else [])"
    by (rule keyed_update [OF ok]) (rule leased_key)
  have rest: "release_rows F (\<lambda>_. t) (Suc i) qs (sql_update (leased_by ?l) (sql_released_row t q) rows) (if filter (leased_by ?l) rows = [] then lost @ [?l] else lost)
      = Inr (rows', lost')"
    using Cons.prems(2) by (auto simp: changed_def Let_def split: option.splits if_splits)
  show ?case
  proof (cases "\<exists>r. row_for rows (sl_Name ?l) (sl_Key ?l) = Some r \<and> leased_by ?l r")
    case True
    then obtain r where r: "row_for rows (sl_Name ?l) (sl_Key ?l) = Some r" "leased_by ?l r" by blast
    have mem: "auto_Release t (put_arow s (sl_Name ?l) (sl_Key ?l) (lrow (sql_released_row t q r))) (map ms_request qs) = (s', l2)"
      using Cons.prems(3) row r by (auto simp: leased_by_def lrow_fields lrow_released lq Let_def)
    have "rsim (sql_update (leased_by ?l) (sql_released_row t q) rows) (put_arow s (sl_Name ?l) (sl_Key ?l) (lrow (sql_released_row t q r)))"
      by (rule rsim_update [where cond = "leased_by ?l" and f = "sql_released_row t q", OF Cons.prems(1) leased_key _ _ r]) (use assms(2) in \<open>simp_all add: sql_released_row_def Let_def ag_key_def split: if_splits\<close>)
    from Cons.IH [OF this rest mem] show ?thesis using flt r by simp
  next
    case False
    then have none: "filter (leased_by ?l) rows = []" using flt by (auto split: option.splits)
    obtain l3 where mem: "auto_Release t s (map ms_request qs) = (s', l3)" "l2 = ?l # l3"
      using Cons.prems(3) row False row_for_mem [of "sl_Name ?l" "sl_Key ?l" rows]
      by (auto simp: leased_by_def lrow_fields is_segment_key lq Let_def split: option.splits prod.splits if_splits)
    have "rsim (sql_update (leased_by ?l) (sql_released_row t q) rows) s" using Cons.prems(1) update_unmatched [OF none] by simp
    from Cons.IH [OF this rest mem(1)] show ?thesis using none mem(2) by simp
  qed
qed (simp)

end
