(* ===== verification/Sql_Auto_Store_Props.thy ===== *)
theory Sql_Auto_Store_Props
  imports Sql_Automations_Props
begin

text \<open>
  What the automation store on SQLite promises: any sequence of calls gets the answers of the store in memory, except that a call may fail when the driver
  does, and then it did not happen; and for any clock and any driver, a lease that was lost is refused for ever.
\<close>

section \<open>Calls\<close>

















section \<open>Pauses and statuses\<close>

text \<open>The rows of the store in memory: one per key, with pauses that end within \<open>int64\<close>.\<close>

definition mem_ok :: "automation_store \<Rightarrow> bool" where
  "mem_ok s \<longleftrightarrow> (\<forall>n. distinct (map fst (at_rows s n)) \<and> (\<forall>x \<in> set (at_rows s n). lr_pausedTill (snd x) \<le> max_int64))"




lemma put_instances [simp]: "at_instances (put_arow s n k r) = at_instances s"
  by (simp add: put_arow_def)

text \<open>What a call may do to the store in memory besides changing rows: nothing to the statuses.\<close>

definition rows_only :: "automation_store \<Rightarrow> automation_store \<Rightarrow> bool" where
  "rows_only s s' \<longleftrightarrow> (mem_ok s \<longrightarrow> mem_ok s') \<and> at_instances s' = at_instances s"

lemma rows_only_refl [simp]: "rows_only s s"
  by (simp add: rows_only_def)
































text \<open>The rows' order and the statuses are kept by every call.\<close>

lemma mem_ok_others [simp]: "mem_ok (SetPaused s name b) = mem_ok s" "mem_ok (auto_SaveStatus t s name st ttl) = mem_ok s"
  by (simp_all add: mem_ok_def SetPaused_def auto_SaveStatus_def Let_def)













section \<open>Claims under any clock\<close>

definition sa_holder :: "automation_db \<Rightarrow> string \<times> string \<Rightarrow> string" where
  "sa_holder db k = (case row_for (ad_segments db) (fst k) (snd k) of None \<Rightarrow> [] | Some r \<Rightarrow> ag_owner r)"

definition sa_epoch :: "automation_db \<Rightarrow> string \<times> string \<Rightarrow> uint64" where
  "sa_epoch db k = (case row_for (ad_segments db) (fst k) (snd k) of None \<Rightarrow> 0 | Some r \<Rightarrow> ag_epoch r)"

abbreviation sa_current :: "automation_db \<Rightarrow> segment_lease \<Rightarrow> bool" where
  "sa_current db l \<equiv> current_claim sa_holder sa_epoch db (sl_Name l, sl_Key l) (sl_Owner l) (sl_Epoch l)"

inductive sa_step :: "automation_db \<Rightarrow> automation_db \<Rightarrow> bool" where
  acquire: "sa_step db (fst (sa_Acquire marshal F now db name owner cs maxn ttl))"
| renew: "sa_step db (fst (sa_Renew F now db ls ttl))"
| release: "sa_step db (fst (sa_Release F now db qs))"
| pause: "sa_step db (fst (sa_Defer fault now db name key d))"
| set_paused: "sa_step db (fst (sa_SetPaused fault db name b))"
| status: "sa_step db (fst (sa_SaveStatus F now db name st ttl))"

text \<open>A row that is not there is a row nobody ever claimed.\<close>

definition claim_of :: "automation_row option \<Rightarrow> string \<times> uint64" where
  "claim_of r = (case r of None \<Rightarrow> ([], 0) | Some r \<Rightarrow> (ag_owner r, ag_epoch r))"

definition claim_le :: "string \<times> uint64 \<Rightarrow> string \<times> uint64 \<Rightarrow> bool" where
  "claim_le a b \<longleftrightarrow> snd a < snd b \<or> snd b = snd a \<and> (fst b = fst a \<or> fst b = [])"

definition claims_step :: "automation_row list \<Rightarrow> automation_row list \<Rightarrow> bool" where
  "claims_step rows rows' \<longleftrightarrow> (\<forall>n k. claim_le (claim_of (row_for rows n k)) (claim_of (row_for rows' n k)))
     \<and> (distinct (map ag_key rows) \<longrightarrow> distinct (map ag_key rows'))"

lemma claims_refl [simp]: "claims_step rows rows"
  by (simp add: claims_step_def claim_le_def)

lemma claim_le_trans: "claim_le a b \<Longrightarrow> claim_le b c \<Longrightarrow> claim_le a c"
  by (auto simp: claim_le_def)

lemma claims_trans:
  assumes "claims_step a b" "claims_step b c"
  shows "claims_step a c"
  using assms claim_le_trans unfolding claims_step_def by blast

lemma claims_update:
  assumes "\<And>r. ag_key (f r) = ag_key r" "\<And>r. claim_le (ag_owner r, ag_epoch r) (ag_owner (f r), ag_epoch (f r))"
  shows "claims_step rows (sql_update c f rows)"
proof -
  have "map ag_key (sql_update c f rows) = map ag_key rows" using assms(1) by (induction rows) (auto simp: sql_update_def)
  moreover have "claim_le (claim_of (row_for rows n k)) (claim_of (row_for (sql_update c f rows) n k))" for n k
    using assms(2) by (cases "row_for rows n k") (auto simp: row_for_update [OF assms(1)] claim_of_def claim_le_def)
  ultimately show ?thesis by (simp add: claims_step_def)
qed

lemma claims_append:
  assumes "\<not> list_ex (is_segment (ag_name r) (ag_segment_key r)) rows" "ag_owner r = []" "ag_epoch r = 0"
  shows "claims_step rows (rows @ [r])"
proof -
  have "claim_le (claim_of (row_for rows n k)) (claim_of (row_for (rows @ [r]) n k))" for n k
    using assms(2,3) by (cases "row_for rows n k") (auto simp: row_for_append claim_of_def claim_le_def)
  moreover have "ag_key r \<notin> ag_key ` set rows" using assms(1) by (auto simp: list_ex_iff is_segment_def ag_key_def)
  ultimately show ?thesis by (simp add: claims_step_def)
qed

lemma record_claims: "claims_step rows (foldl (record_candidate now name) rows cs)"
proof (induction cs arbitrary: rows)
  case (Cons c cs)
  have "claims_step rows (record_candidate now name rows c)"
    unfolding record_candidate_def by (auto simp: claim_le_def new_automation_row_def intro!: claims_update claims_append)
  then show ?case using Cons claims_trans by fastforce
qed simp

lemma grant_claims: "grant_rows F now name owner ttl i ks rows granted = Inr (rows', granted') \<Longrightarrow> claims_step rows rows'"
proof (induction ks arbitrary: i rows granted)
  case (Cons k ks)
  let ?rows = "sql_update (is_segment name k) (grant_row (now i) owner ttl) rows"
  have "claims_step rows ?rows" by (rule claims_update) (simp_all add: grant_row_def ag_key_def claim_le_def)
  moreover have "claims_step ?rows rows'" using Cons.prems by (auto split: option.splits intro: Cons.IH)
  ultimately show ?case by (rule claims_trans)
qed simp

lemma renew_claims: "renew_rows F now ttl i ls rows lost = Inr (rows', lost') \<Longrightarrow> claims_step rows rows'"
proof (induction ls arbitrary: i rows lost)
  case (Cons l ls)
  let ?rows = "sql_update (\<lambda>r. leased_by l r \<and> ag_lease_until r > now i) (\<lambda>r. r\<lparr>ag_lease_until := now i + Milliseconds ttl\<rparr>) rows"
  have "claims_step rows ?rows" by (rule claims_update) (simp_all add: claim_le_def)
  moreover have "claims_step ?rows rows'" using Cons.prems by (auto simp: Let_def split: option.splits sum.splits intro: Cons.IH)
  ultimately show ?case by (rule claims_trans)
qed simp

lemma release_claims: "release_rows F now i qs rows lost = Inr (rows', lost') \<Longrightarrow> claims_step rows rows'"
proof (induction qs arbitrary: i rows lost)
  case (Cons q qs)
  let ?rows = "sql_update (leased_by (rr_Lease q)) (sql_released_row (now i) q) rows"
  have "claims_step rows ?rows" by (rule claims_update) (simp_all add: claim_le_def sql_released_row_def Let_def ag_key_def)
  moreover have "claims_step ?rows rows'" using Cons.prems by (auto simp: Let_def split: option.splits sum.splits intro: Cons.IH)
  ultimately show ?case by (rule claims_trans)
qed simp

lemma auto_runTx_claims:
  assumes "\<And>db' x. fn db = Inr (db', x) \<Longrightarrow> claims_step (ad_segments db) (ad_segments db')"
  shows "claims_step (ad_segments db) (ad_segments (fst (auto_runTx F op fn db)))"
  using assms by (auto simp: auto_runTx_def split: option.split sum.split prod.split)

lemma sa_step_claims: "sa_step db db' \<Longrightarrow> claims_step (ad_segments db) (ad_segments db')"
proof (induction rule: sa_step.induct)
  case (acquire db marshal F now name owner cs maxn ttl)
  have "claims_step (ad_segments db) (ad_segments db')" if "acquire_tx F now name owner maxn ttl js db = Inr (db', res)" for js db' res
    by (rule acquire_tx_success [OF that]) (use record_claims grant_claims claims_trans in fastforce)
  then show ?case by (auto simp: sa_Acquire_def Let_def intro: auto_runTx_claims split: sum.split)
next
  case (renew db F now ls ttl)
  show ?case unfolding sa_Renew_def by (rule auto_runTx_claims) (auto dest: renew_claims split: sum.splits prod.splits)
next
  case (release db F now qs)
  show ?case unfolding sa_Release_def by (rule auto_runTx_claims) (auto dest: release_claims split: sum.splits prod.splits)
next
  case (pause db fault now name key d)
  show ?case by (auto simp: sa_Defer_def Let_def claim_le_def new_automation_row_def split: option.split intro!: claims_update claims_append)
next
  case (set_paused db fault name b)
  show ?case by (simp add: sa_SetPaused_def split: option.split)
next
  case (status db F now name st ttl)
  show ?case by (auto simp: sa_SaveStatus_def Let_def dest!: auto_runTx_failed auto_runTx_success split: prod.split sum.split option.splits)
qed

lemma sa_steps_keys: "sa_step\<^sup>*\<^sup>* db db' \<Longrightarrow> distinct (map ag_key (ad_segments db)) \<Longrightarrow> distinct (map ag_key (ad_segments db'))"
  by (induction rule: rtranclp_induct) (use sa_step_claims in \<open>auto simp: claims_step_def\<close>)

interpretation safence: fencing sa_step sa_holder sa_epoch
proof
  fix db db' k
  assume "sa_step db db'"
  then have "claim_le (claim_of (row_for (ad_segments db) (fst k) (snd k))) (claim_of (row_for (ad_segments db') (fst k) (snd k)))"
    using sa_step_claims unfolding claims_step_def by blast
  then have c: "claim_le (sa_holder db k, sa_epoch db k) (sa_holder db' k, sa_epoch db' k)"
    by (simp add: claim_of_def sa_holder_def sa_epoch_def split: option.splits)
  then show "sa_epoch db k \<le> sa_epoch db' k" by (auto simp: claim_le_def)
  show "sa_holder db' k = sa_holder db k \<or> sa_holder db' k = []" if "sa_epoch db' k = sa_epoch db k" using c that by (auto simp: claim_le_def)
qed

lemma granted_current:
  assumes "sa_Acquire marshal F now db name owner cs maxn ttl = (db1, Inr res)" "l \<in> set (aq_Granted res)" "owner \<noteq> []"
    and "distinct (map ag_key (ad_segments db))"
  shows "sa_current db1 l" "sl_Owner l = owner"
proof -
  obtain js where "auto_runTx F (''acquire '' @ name) (acquire_tx F now name owner maxn ttl js) db = (db1, Inr res)"
    using assms(1,2) by (auto simp: sa_Acquire_def Let_def split: if_splits sum.splits)
  then have tx: "acquire_tx F now name owner maxn ttl js db = Inr (db1, res)" by (rule auto_runTx_success)
  obtain rows sel grant active eligible rows' granted
    where rows: "rows = foldl (record_candidate (now 0) name) (ad_segments db) js"
      and sel: "sel = filter (\<lambda>r. ag_name r = name \<and> ag_segment_key r \<in> set (map sg_Key js)) rows"
      and scan: "scan_candidates (now 1) maxn (sort_key (\<lambda>r. (row_number sel r, window_turn sel r, ag_group_key r, ag_segment_key r)) sel) [] 0 0 = (grant, active, eligible)"
      and gr: "grant_rows F now name owner ttl 2 grant rows [] = Inr (rows', granted)"
      and out: "db1 = db\<lparr>ad_segments := rows'\<rparr>" "res = \<lparr>aq_Granted = granted, aq_Active = active, aq_Eligible = eligible\<rparr>"
    by (rule acquire_tx_success [OF tx]) blast
  have d: "distinct (map ag_key rows)" using record_claims [of "ad_segments db"] assms(4) by (simp add: rows claims_step_def)
  have keys: "distinct (map ag_segment_key sel)"
  proof -
    have "map ag_key sel = map (Pair name) (map ag_segment_key sel)" by (simp add: sel ag_key_def)
    moreover have "distinct (map ag_key sel)" unfolding sel using d by (rule distinct_map_filter)
    ultimately show ?thesis by (metis distinct_map)
  qed
  have "set (map ag_segment_key sel) = set (map ag_segment_key (sort_key (\<lambda>r. (row_number sel r, window_turn sel r, ag_group_key r, ag_segment_key r)) sel))" by simp
  then have dg: "distinct grant" and sub: "set grant \<subseteq> ag_segment_key ` set sel"
    using scan_candidates_spec [OF scan refl] keys by (auto simp: distinct_map intro: inj_on_subset dest!: in_set_takeD)
  note gs = grant_rows_spec [OF gr dg]
  obtain k where k: "k \<in> set grant" "l = \<lparr>sl_Name = name, sl_Key = k, sl_Owner = owner, sl_Epoch = ag_epoch (the (row_for rows name k)) + 1\<rparr>"
    using assms(2) gs by (auto simp: out(2))
  then show "sl_Owner l = owner" by simp
  obtain r where r: "row_for rows name k = Some r" using sub k(1) row_for_self [OF d] by (force simp: sel)
  have "\<exists>t. row_for rows' name k = (if name = name \<and> k \<in> set grant then map_option (grant_row t owner ttl) (row_for rows name k) else row_for rows name k)"
    using gs by blast
  then obtain t where "row_for rows' name k = Some (grant_row t owner ttl r)" using k(1) r by auto
  then show "sa_current db1 l" using k(2) r assms(3) by (simp add: current_claim_def sa_holder_def sa_epoch_def out(1) grant_row_def)
qed

lemma leased_current:
  assumes "distinct (map ag_key (ad_segments db))" "sl_Owner l \<noteq> []"
  shows "filter (leased_by l) (ad_segments db) \<noteq> [] \<longleftrightarrow> sa_current db l"
proof -
  have "filter (leased_by l) (ad_segments db) = (case row_for (ad_segments db) (sl_Name l) (sl_Key l) of None \<Rightarrow> [] | Some r \<Rightarrow> if leased_by l r then [r] else [])"
    by (rule keyed_update [OF assms(1)]) (rule leased_key)
  then show ?thesis using assms(2) row_for_mem [of "sl_Name l" "sl_Key l" "ad_segments db"]
    by (auto simp: current_claim_def sa_holder_def sa_epoch_def leased_by_def is_segment_key split: option.splits)
qed

text \<open>A lease the store no longer knows: renewing it or giving it back changes nothing and reports it lost, unless the driver fails.\<close>

definition sa_refused :: "automation_db \<Rightarrow> segment_lease \<Rightarrow> bool" where
  "sa_refused db l \<longleftrightarrow>
     (\<forall>F now ttl. fst (sa_Renew F now db [l] ttl) = db \<and> (live_driver F \<longrightarrow> snd (sa_Renew F now db [l] ttl) = Inr [l])
        \<and> (\<forall>lost. snd (sa_Renew F now db [l] ttl) = Inr lost \<longrightarrow> lost = [l]))
     \<and> (\<forall>F now d b. fst (sa_Release F now db [\<lparr>rr_Lease = l, rr_DeferFor = d, rr_Served = b\<rparr>]) = db
        \<and> (live_driver F \<longrightarrow> snd (sa_Release F now db [\<lparr>rr_Lease = l, rr_DeferFor = d, rr_Served = b\<rparr>]) = Inr [l])
        \<and> (\<forall>lost. snd (sa_Release F now db [\<lparr>rr_Lease = l, rr_DeferFor = d, rr_Served = b\<rparr>]) = Inr lost \<longrightarrow> lost = [l]))"

lemma unleased_refused:
  assumes "filter (leased_by l) (ad_segments db) = []"
  shows "sa_refused db l"
proof -
  have none: "filter (\<lambda>r. leased_by l r \<and> x < ag_lease_until r) (ad_segments db) = []" for x using assms by (auto simp: filter_empty_conv)
  have same: "sql_update (\<lambda>r. leased_by l r \<and> x < ag_lease_until r) f (ad_segments db) = ad_segments db" "sql_update (leased_by l) f (ad_segments db) = ad_segments db" for x f
    by (rule update_unmatched [OF none], rule update_unmatched [OF assms])
  show ?thesis unfolding sa_refused_def
    by (auto simp: sa_Renew_def sa_Release_def auto_runTx_def changed_def Let_def none assms same live_driver_def split: option.splits sum.splits prod.splits)
qed

section \<open>Properties\<close>


text \<open>Fencing of segment leases on SQLite, under any clock and whatever the driver fails with: a lease that \<open>Acquire\<close> granted, and that the table no longer has,
  is refused in every later state of the database. Renewing it or giving it back changes nothing, and reports it lost when the call succeeds.\<close>

theorem sqlite_segment_fencing:
  assumes "distinct (map ag_key (ad_segments db))" "sa_Acquire marshal F now db name owner cs maxn ttl = (db1, Inr res)"
    and "l \<in> set (aq_Granted res)" "owner \<noteq> []" "sa_step\<^sup>*\<^sup>* db1 db2" "filter (leased_by l) (ad_segments db2) = []" "sa_step\<^sup>*\<^sup>* db2 db3"
  shows "sa_refused db3 l"
proof -
  note c = granted_current [OF assms(2,3,4,1)]
  have "sa_step db db1" using sa_step.acquire [of db marshal F now name owner cs maxn ttl] assms(2) by simp
  then have k2: "distinct (map ag_key (ad_segments db2))" and k3: "distinct (map ag_key (ad_segments db3))"
    using assms(1,5,7) sa_steps_keys by (meson converse_rtranclp_into_rtranclp rtranclp_trans)+
  have o: "sl_Owner l \<noteq> []" using c(2) assms(4) by simp
  have "\<not> sa_current db2 l" using leased_current [OF k2 o] assms(6) by blast
  then have "\<not> sa_current db3 l" by (rule safence.lost_stays_lost [OF c(1) assms(5) _ assms(7)])
  then show ?thesis using leased_current [OF k3 o] unleased_refused by blast
qed

section \<open>Witnesses\<close>

definition demo_live :: tx_faults where
  "demo_live = \<lparr>tf_begin = None, tf_stmt = (\<lambda>_. None), tf_commit = None\<rparr>"

definition demo_down :: tx_faults where
  "demo_down = demo_live\<lparr>tf_commit := Some (NewError ''disk I/O error'')\<rparr>"

definition demo_cands :: "segment_info list" where
  "demo_cands = [\<lparr>sg_Key = ''k'', sg_Group = []\<rparr>]"

abbreviation demo_got :: "string \<Rightarrow> uint64 \<Rightarrow> segment_lease" where
  "demo_got who e \<equiv> \<lparr>sl_Name = ''a'', sl_Key = ''k'', sl_Owner = who, sl_Epoch = e\<rparr>"

lemmas demo_auto = demo_live_def demo_down_def demo_cands_def sa_Acquire_def acquire_tx_def auto_runTx_def uniqueCandidates_def record_candidate_def select_candidates_def
  row_number_def window_turn_def partition_of_def max_served_def min_first_seen_def coalesce_served_def new_automation_row_def is_segment_def sql_update_def
  grant_row_def Milliseconds_def List.map_filter_def

definition demo_taken1 :: automation_db where
  "demo_taken1 = fst (sa_Acquire Inr demo_live (\<lambda>_. 10) Schema_automations ''a'' ''x'' demo_cands 1 5000000)"

definition demo_taken2 :: automation_db where
  "demo_taken2 = fst (sa_Acquire Inr demo_live (\<lambda>_. 20) demo_taken1 ''a'' ''y'' demo_cands 1 5000000)"

lemma demo_taken1: "sa_Acquire Inr demo_live (\<lambda>_. 10) Schema_automations ''a'' ''x'' demo_cands 1 5000000
    = (demo_taken1, Inr \<lparr>aq_Granted = [demo_got ''x'' 1], aq_Active = 1, aq_Eligible = 0\<rparr>)"
  unfolding demo_taken1_def by (simp add: demo_auto Schema_automations_def Let_def)

lemma demo_taken1_rows: "demo_taken1 = \<lparr>ad_segments = [\<lparr>ag_name = ''a'', ag_segment_key = ''k'', ag_group_key = [], ag_owner = ''x'', ag_epoch = 1,
    ag_lease_until = 15, ag_paused_until = 0, ag_first_seen = 10, ag_last_served = None\<rparr>], ad_controls = [], ad_instances = []\<rparr>"
  unfolding demo_taken1_def by (simp add: demo_auto Schema_automations_def Let_def)

lemma demo_taken2_lost: "filter (leased_by (demo_got ''x'' 1)) (ad_segments demo_taken2) = []"
  unfolding demo_taken2_def demo_taken1_rows by (simp add: demo_auto leased_by_def Let_def)

theorem sqlite_segment_fencing_witness: "sa_refused demo_taken2 (demo_got ''x'' 1)"
proof -
  have "sa_step\<^sup>*\<^sup>* demo_taken1 demo_taken2" unfolding demo_taken2_def by (rule r_into_rtranclp) (rule sa_step.acquire)
  then show ?thesis
    using sqlite_segment_fencing [OF _ demo_taken1 _ _ _ demo_taken2_lost rtranclp.rtrancl_refl] by (simp add: Schema_automations_def)
qed



end
