(* ===== verification/Proj_Runner.thy ===== *)
theory Proj_Runner
  imports Proj_Store ES_Registry ES_Store_Spec Go_Std
begin

text \<open>
  The projection runner's own state (\<open>projection/runner.go\<close>, \<open>projection/projection.go\<close>): the
  definition of a projection, the runner and its segments, \<open>NewRunner\<close>, and the methods that work on
  the runner's memory under its mutex: statuses (\<open>projection/status.go\<close>), the quota and reservations
  (\<open>projection/instances.go\<close>) and the replay queue (\<open>projection/replay.go\<close>).

  The world a handler and the store work on has the type \<open>'x\<close>. A channel that is closed and replaced
  to wake waiters is the count of its closings; a nudge channel of capacity one is a flag; a call of the
  registered watchers is counted. Logging is left out.
\<close>

section \<open>projection/projection.go\<close>

definition DefaultBatchSize :: int where "DefaultBatchSize = 500"
definition DefaultPollInterval :: duration where "DefaultPollInterval = 1000000000"
definition DefaultClaimTTL :: duration where "DefaultClaimTTL = 15000000000"

definition ByStreamID :: "('e, 'v) envelope \<Rightarrow> string" where
  "ByStreamID env = StreamID env"

text \<open>The conversion to \<open>uint32\<close> of a count of segments, and the remainder at that width.\<close>

definition SegmentOf :: "string \<Rightarrow> int \<Rightarrow> nat panics" where
  "SegmentOf key segments =
     (if segments \<le> 1 then Inr 0
      else if (word_of_int segments :: 32 word) = 0 then Inl ''runtime error: integer divide by zero''
      else Inr (unat (fnv32a key mod word_of_int segments)))"

datatype error_policy = StallOnError | SkipWhenLive | SkipAlways

definition policy_String :: "error_policy \<Rightarrow> string" where
  "policy_String p = (case p of StallOnError \<Rightarrow> ''stall_on_error'' | SkipWhenLive \<Rightarrow> ''skip_when_live'' | SkipAlways \<Rightarrow> ''skip_always'')"

record ('e, 'v, 'x) projection_def =
  d_Name :: string
  d_Handler :: "(('e, 'v) ctx_values \<Rightarrow> 'e option \<Rightarrow> 'x \<Rightarrow> 'x \<times> go_error option) option"
  d_EventTypes :: "string list"
  d_Version :: int
  d_Reset :: "('x \<Rightarrow> 'x \<times> go_error option) option"
  d_Segments :: int
  d_SegmentKey :: "(('e, 'v) envelope \<Rightarrow> string) option"
  d_OnError :: error_policy
  d_Owner :: string
  d_BatchSize :: int
  d_PollInterval :: duration
  d_ClaimTTL :: duration

section \<open>projection/runner.go\<close>

record segment_state =
  ss_status :: status
  ss_lease :: lease
  ss_active :: bool
  ss_reserved :: bool
  ss_parked :: "string set"
  ss_hasParked :: bool
  ss_rebuilding :: bool
  ss_nudge :: bool

record ('e, 'v, 'x) runner =
  r_p :: "('e, 'v, 'x) projection_def"
  r_segments :: nat
  r_fingerprint :: string
  r_segs :: "segment_state list"
  r_changed :: nat
  r_notified :: nat
  r_pendingReplays :: "nat \<Rightarrow> replay list"
  r_queuedReplays :: "replay set"
  r_checkReplays :: bool
  r_replayed :: nat
  r_replayWaiters :: nat
  r_replayErrs :: "uint64 \<Rightarrow> go_error list"
  r_pollReplays :: bool
  r_checkRebuild :: bool
  r_warnedRebuild :: uint64
  r_rebuilt :: nat
  r_resetting :: bool
  r_rebuildFailed :: uint64
  r_rebuildErr :: "go_error option"
  r_quota :: nat
  r_held :: nat
  r_instancesOK :: bool
  r_stable :: nat
  r_membership :: string
  r_skipped :: nat

definition fingerprint :: "string list \<Rightarrow> string" where
  "fingerprint eventTypes =
     hex_EncodeToString (take 16 (sha256_Sum256 (strings_Join (slices_Compact (sort eventTypes)) [CHR 0x0A])))"

text \<open>The hostname, if it can be read, the process id and four random bytes are the environment's.\<close>

definition ownerOf :: "string option \<Rightarrow> int \<Rightarrow> nat list \<Rightarrow> string \<Rightarrow> string" where
  "ownerOf hostname pid rnd owner =
     (let owner = (if owner = [] then (case hostname of None \<Rightarrow> ''unknown'' | Some h \<Rightarrow> if h = [] then ''unknown'' else h) @ ''/'' @ Itoa pid
                   else owner)
      in owner @ ''/'' @ hex_EncodeToString rnd)"

definition new_segment :: "string \<Rightarrow> string \<Rightarrow> int \<Rightarrow> nat \<Rightarrow> segment_state" where
  "new_segment name owner version i =
     \<lparr>ss_status = zero_status\<lparr>st_Phase := Starting, st_Version := version, st_Segment := i\<rparr>,
      ss_lease = \<lparr>l_Name = name, l_Segment = i, l_Owner = owner, l_Epoch = 0\<rparr>,
      ss_active = False, ss_reserved = False, ss_parked = {}, ss_hasParked = False, ss_rebuilding = False, ss_nudge = False\<rparr>"

definition default_def :: "('e, 'v, 'x) projection_def \<Rightarrow> ('e, 'v, 'x) projection_def" where
  "default_def p =
     (let p = (if d_BatchSize p \<le> 0 then p\<lparr>d_BatchSize := DefaultBatchSize\<rparr> else p);
          p = (if d_PollInterval p \<le> 0 then p\<lparr>d_PollInterval := DefaultPollInterval\<rparr> else p)
      in if d_ClaimTTL p \<le> 0 then p\<lparr>d_ClaimTTL := DefaultClaimTTL\<rparr> else p)"

definition NewRunner :: "'e registry \<Rightarrow> string option \<Rightarrow> int \<Rightarrow> nat list \<Rightarrow> bool \<Rightarrow> bool
    \<Rightarrow> ('e, 'v, 'x) projection_def \<Rightarrow> ('e, 'v, 'x) runner panics" where
  "NewRunner reg hostname pid rnd hasReader hasStore p =
     (if d_Name p = [] then Inl ''projection: Definition.Name is required''
      else if d_Handler p = None then Inl ''Handler is required''
      else if d_EventTypes p = [] then Inl ''EventTypes is required''
      else if \<not> hasReader then Inl ''reader is required''
      else if \<not> hasStore then Inl ''store is required''
      else if d_Version p \<noteq> 0 \<and> d_Reset p = None then Inl ''Version > 0 requires Reset''
      else let segments = max (d_Segments p) 1 in
        if segments > 1 \<and> d_SegmentKey p = None then Inl ''Segments > 1 requires SegmentKey''
        else if list_ex (\<lambda>name. isl (NewEventByName reg name)) (d_EventTypes p) then Inl ''event is not registered''
        else let p = default_def p in
          if d_PollInterval p \<ge> d_ClaimTTL p then Inl ''PollInterval must be shorter than ClaimTTL''
          else let p = p\<lparr>d_Owner := ownerOf hostname pid rnd (d_Owner p)\<rparr> in
            Inr \<lparr>r_p = p, r_segments = nat segments, r_fingerprint = fingerprint (d_EventTypes p),
              r_segs = map (new_segment (d_Name p) (d_Owner p) (d_Version p)) [0..<nat segments],
              r_changed = 0, r_notified = 0, r_pendingReplays = (\<lambda>_. []), r_queuedReplays = {}, r_checkReplays = False,
              r_replayed = 0, r_replayWaiters = 0, r_replayErrs = (\<lambda>_. []), r_pollReplays = False, r_checkRebuild = False,
              r_warnedRebuild = 0, r_rebuilt = 0, r_resetting = False, r_rebuildFailed = 0, r_rebuildErr = None,
              r_quota = 0, r_held = 0, r_instancesOK = False, r_stable = 0, r_membership = [], r_skipped = 0\<rparr>)"

text \<open>The state of a segment, and changing it.\<close>

abbreviation seg_state :: "('e, 'v, 'x) runner \<Rightarrow> nat \<Rightarrow> segment_state" where
  "seg_state r seg \<equiv> r_segs r ! seg"

definition upd_seg :: "nat \<Rightarrow> (segment_state \<Rightarrow> segment_state) \<Rightarrow> ('e, 'v, 'x) runner \<Rightarrow> ('e, 'v, 'x) runner" where
  "upd_seg seg f r = r\<lparr>r_segs := (r_segs r)[seg := f (seg_state r seg)]\<rparr>"

definition Name :: "('e, 'v, 'x) runner \<Rightarrow> string" where "Name r = d_Name (r_p r)"
definition Owner :: "('e, 'v, 'x) runner \<Rightarrow> string" where "Owner r = d_Owner (r_p r)"
definition CanRebuild :: "('e, 'v, 'x) runner \<Rightarrow> bool" where "CanRebuild r = (d_Reset (r_p r) \<noteq> None)"
definition DeadLettered :: "('e, 'v, 'x) runner \<Rightarrow> nat" where "DeadLettered r = r_skipped r"

definition lease_of :: "('e, 'v, 'x) runner \<Rightarrow> nat \<Rightarrow> lease" where
  "lease_of r seg = ss_lease (seg_state r seg)"

definition position :: "('e, 'v, 'x) runner \<Rightarrow> nat \<Rightarrow> uint64" where
  "position r seg = st_Position (ss_status (seg_state r seg))"

definition readOptions :: "('e, 'v, 'x) runner \<Rightarrow> read_options" where
  "readOptions r = \<lparr>ro_Limit = d_BatchSize (r_p r), ro_EventTypes = d_EventTypes (r_p r), ro_StreamPrefixes = []\<rparr>"

definition Nudge :: "('e, 'v, 'x) runner \<Rightarrow> ('e, 'v, 'x) runner" where
  "Nudge r = r\<lparr>r_segs := map (\<lambda>s. s\<lparr>ss_nudge := True\<rparr>) (r_segs r)\<rparr>"

definition notifyWatchers :: "('e, 'v, 'x) runner \<Rightarrow> ('e, 'v, 'x) runner" where
  "notifyWatchers r = r\<lparr>r_notified := r_notified r + 1\<rparr>"

section \<open>projection/status.go\<close>

definition signalChange :: "('e, 'v, 'x) runner \<Rightarrow> ('e, 'v, 'x) runner" where
  "signalChange r = r\<lparr>r_changed := r_changed r + 1\<rparr>"

definition setStatus :: "nat \<Rightarrow> lease \<Rightarrow> status \<Rightarrow> ('e, 'v, 'x) runner \<Rightarrow> ('e, 'v, 'x) runner" where
  "setStatus seg l s r =
     (if ss_lease (seg_state r seg) \<noteq> l then r
      else let phaseChanged = (st_Phase (ss_status (seg_state r seg)) \<noteq> st_Phase s);
               r = signalChange (upd_seg seg (\<lambda>g. g\<lparr>ss_status := s\<rparr>) r)
           in if phaseChanged then notifyWatchers r else r)"

definition setPhase :: "nat \<Rightarrow> phase \<Rightarrow> string \<Rightarrow> bool \<Rightarrow> ('e, 'v, 'x) runner \<Rightarrow> ('e, 'v, 'x) runner" where
  "setPhase seg p lastErr owns r =
     notifyWatchers (signalChange (upd_seg seg (\<lambda>g. g\<lparr>ss_status := (ss_status g)\<lparr>st_Phase := p, st_LastError := lastErr,
       st_Owner := (if owns then d_Owner (r_p r) else [])\<rparr>\<rparr>) r))"

definition phaseRank :: "phase \<Rightarrow> nat" where
  "phaseRank p = (case p of Stalled \<Rightarrow> 0 | CatchingUp \<Rightarrow> 2 | Live \<Rightarrow> 3 | _ \<Rightarrow> 1)"

definition combine_status :: "status \<Rightarrow> status \<Rightarrow> status" where
  "combine_status out s =
     (let out = out\<lparr>st_Position := min (st_Position out) (st_Position s), st_Head := max (st_Head out) (st_Head s)\<rparr>;
          out = (if phaseRank (st_Phase s) < phaseRank (st_Phase out) then out\<lparr>st_Phase := st_Phase s\<rparr> else out);
          out = (if st_LastError out = [] then out\<lparr>st_LastError := st_LastError s\<rparr> else out)
      in if st_Owner out = [] then out\<lparr>st_Owner := st_Owner s\<rparr> else out)"

definition Status :: "('e, 'v, 'x) runner \<Rightarrow> status" where
  "Status r = foldl combine_status
     (zero_status\<lparr>st_Phase := Live, st_Position := st_Position (ss_status (seg_state r 0)), st_Version := d_Version (r_p r)\<rparr>)
     (map ss_status (r_segs r))"

definition status_IsLive :: "status \<Rightarrow> duration \<Rightarrow> bool" where
  "status_IsLive s claimTTL =
     (let claimTTL = (if st_ClaimTTL s > 0 then st_ClaimTTL s else claimTTL)
      in st_Phase s = Live \<and> st_Owner s \<noteq> [] \<and> st_Age s \<le> claimTTL)"

section \<open>projection/instances.go\<close>

definition shedGrace :: nat where "shedGrace = 2"

definition heartbeatInterval :: "('e, 'v, 'x) runner \<Rightarrow> duration" where
  "heartbeatInterval r = min (d_PollInterval (r_p r)) (d_ClaimTTL (r_p r) div 3)"

definition membership :: "instance_info list \<Rightarrow> string" where
  "membership instances = concat (map (\<lambda>m. in_Owner m @ [CHR 0x00] @ Itoa (in_Version m) @ [CHR 0x00]) instances)"

definition quota_top :: "instance_info list \<Rightarrow> int" where
  "quota_top instances = foldl (\<lambda>top m. max top (in_Version m)) 0 instances"

definition quota_live :: "instance_info list \<Rightarrow> instance_info list" where
  "quota_live instances =
     sort_key (\<lambda>m. (- int (in_Segments m), in_Owner m)) (filter (\<lambda>m. in_Version m = quota_top instances) instances)"

definition quota :: "instance_info list \<Rightarrow> string \<Rightarrow> nat \<Rightarrow> nat" where
  "quota instances owner segments =
     (let live = quota_live instances in
      case index_func (\<lambda>m. in_Owner m = owner) live of
        None \<Rightarrow> 0
      | Some i \<Rightarrow> (let n = length live; q = segments div n in if i < segments mod n then q + 1 else q))"

definition heartbeat_update :: "go_error + instance_info list \<Rightarrow> ('e, 'v, 'x) runner \<Rightarrow> ('e, 'v, 'x) runner" where
  "heartbeat_update res r =
     (case res of
        Inl err \<Rightarrow> r\<lparr>r_instancesOK := False\<rparr>
      | Inr instances \<Rightarrow>
          let r = (if membership instances = r_membership r then r\<lparr>r_stable := r_stable r + 1\<rparr>
                   else r\<lparr>r_membership := membership instances, r_stable := 0\<rparr>);
              r = r\<lparr>r_quota := quota instances (d_Owner (r_p r)) (r_segments r), r_instancesOK := True\<rparr>
          in if r_held r > r_quota r \<and> r_stable r \<ge> shedGrace then Nudge r else r)"

definition reserve :: "nat \<Rightarrow> ('e, 'v, 'x) runner \<Rightarrow> ('e, 'v, 'x) runner \<times> bool" where
  "reserve seg r =
     (if ss_reserved (seg_state r seg) then (r, True)
      else if \<not> r_instancesOK r \<or> r_held r \<ge> r_quota r then (r, False)
      else ((upd_seg seg (\<lambda>g. g\<lparr>ss_reserved := True\<rparr>) r)\<lparr>r_held := r_held r + 1\<rparr>, True))"

definition unreserve :: "nat \<Rightarrow> ('e, 'v, 'x) runner \<Rightarrow> ('e, 'v, 'x) runner" where
  "unreserve seg r =
     (if ss_reserved (seg_state r seg)
      then (upd_seg seg (\<lambda>g. g\<lparr>ss_reserved := False\<rparr>) r)\<lparr>r_held := r_held r - 1\<rparr> else r)"

text \<open>The scan from the highest segment down to 1.\<close>

fun shed_scan :: "segment_state list \<Rightarrow> nat \<Rightarrow> nat \<Rightarrow> bool" where
  "shed_scan segs 0 seg = (seg = 0)"
| "shed_scan segs (Suc i) seg = (if ss_reserved (segs ! Suc i) then Suc i = seg else shed_scan segs i seg)"

definition shouldShed :: "('e, 'v, 'x) runner \<Rightarrow> nat \<Rightarrow> bool" where
  "shouldShed r seg =
     (if \<not> r_instancesOK r \<or> r_stable r < shedGrace \<or> r_held r \<le> r_quota r then False
      else shed_scan (r_segs r) (length (r_segs r) - 1) seg)"

section \<open>projection/replay.go: the queue\<close>

definition noteParked :: "nat \<Rightarrow> ('e, 'v, 'x) runner \<Rightarrow> ('e, 'v, 'x) runner" where
  "noteParked seg r = upd_seg seg (\<lambda>g. g\<lparr>ss_hasParked := (ss_parked g \<noteq> {})\<rparr>) r"

definition replaysWanted :: "('e, 'v, 'x) runner \<Rightarrow> bool" where
  "replaysWanted r = (r_pollReplays r \<or> list_ex (\<lambda>g. ss_active g \<and> ss_hasParked g) (r_segs r))"

definition queue_one :: "('e, 'v, 'x) runner \<Rightarrow> replay \<Rightarrow> ('e, 'v, 'x) runner" where
  "queue_one r rp =
     (if rq_Segment rp \<ge> length (r_segs r) \<or> \<not> ss_active (seg_state r (rq_Segment rp)) \<or> rp \<in> r_queuedReplays r then r
      else upd_seg (rq_Segment rp) (\<lambda>g. g\<lparr>ss_nudge := True\<rparr>)
        (r\<lparr>r_queuedReplays := insert rp (r_queuedReplays r),
           r_pendingReplays := (r_pendingReplays r)(rq_Segment rp := r_pendingReplays r (rq_Segment rp) @ [rp])\<rparr>))"

definition queueReplays :: "go_error + replay list \<Rightarrow> ('e, 'v, 'x) runner \<Rightarrow> ('e, 'v, 'x) runner \<times> go_error option" where
  "queueReplays res r =
     (let r = r\<lparr>r_pollReplays := False\<rparr> in
      case res of
        Inl err \<Rightarrow> (r\<lparr>r_pollReplays := True\<rparr>, Some (Errorf ''load replay requests'' [err]))
      | Inr pending \<Rightarrow> (foldl queue_one r pending, None))"

definition takeReplays :: "nat \<Rightarrow> ('e, 'v, 'x) runner \<Rightarrow> ('e, 'v, 'x) runner \<times> replay list" where
  "takeReplays seg r = (r\<lparr>r_pendingReplays := (r_pendingReplays r)(seg := [])\<rparr>, r_pendingReplays r seg)"

definition dropReplays :: "replay list \<Rightarrow> ('e, 'v, 'x) runner \<Rightarrow> ('e, 'v, 'x) runner" where
  "dropReplays reqs r = r\<lparr>r_queuedReplays := r_queuedReplays r - set reqs\<rparr>"

definition setActive :: "nat \<Rightarrow> bool \<Rightarrow> ('e, 'v, 'x) runner \<Rightarrow> ('e, 'v, 'x) runner" where
  "setActive seg active r =
     (let r = upd_seg seg (\<lambda>g. g\<lparr>ss_active := active\<rparr>) r in
      if active then r\<lparr>r_pollReplays := True\<rparr>
      else r\<lparr>r_queuedReplays := r_queuedReplays r - set (r_pendingReplays r seg),
             r_pendingReplays := (r_pendingReplays r)(seg := [])\<rparr>)"

text \<open>Each error text that a segment here failed with is replaced by the error itself, once each; \<open>text\<close> is
  the \<open>Error\<close> method.\<close>

fun match_errors :: "(go_error \<Rightarrow> string) \<Rightarrow> go_error list \<Rightarrow> string list \<Rightarrow> go_error list" where
  "match_errors text errs [] = []"
| "match_errors text errs (msg # msgs) =
     (case index_func (\<lambda>e. text e = msg) errs of
        None \<Rightarrow> NewError msg # match_errors text errs msgs
      | Some j \<Rightarrow> errs ! j # match_errors text (take j errs @ drop (Suc j) errs) msgs)"

definition replayError :: "(go_error \<Rightarrow> string) \<Rightarrow> uint64 \<Rightarrow> string list \<Rightarrow> ('e, 'v, 'x) runner \<Rightarrow> go_error option" where
  "replayError text n msgs r = (if msgs = [] then None else Some (JoinError (match_errors text (r_replayErrs r n) msgs)))"

end
