(* ===== verification/Proj_Probe.thy ===== *)
theory Proj_Probe
  imports Proj_Runner
begin

text \<open>
  Following a projection from outside (\<open>projection/probe.go\<close>, and \<open>IsLive\<close> and \<open>WaitUntil\<close> of
  \<open>projection/status.go\<close>): the probe, the critical sections of \<open>WaitUntil\<close> and of its poller, and the
  error that reports an unfinished wait. A channel that is closed and replaced is the count of its
  closings; the cancel function of a poller's context is the number of the poller, so a poller is
  cancelled when the probe no longer names it. \<open>LoadStatuses\<close> of the store is an argument.
\<close>

section \<open>The probe\<close>

definition DefaultProbeInterval :: duration where "DefaultProbeInterval = 100000000"

record probe =
  pr_name :: string
  pr_interval :: duration
  pr_claimTTL :: duration
  pr_segments :: nat
  pr_waiters :: nat
  pr_stop :: "nat option"
  pr_statuses :: "status list"
  pr_storeErr :: "go_error option"
  pr_changed :: nat

record probe_definition =
  bd_Name :: string
  bd_PollInterval :: duration
  bd_ClaimTTL :: duration

definition NewProbe :: "probe_definition \<Rightarrow> bool \<Rightarrow> probe panics" where
  "NewProbe p hasStore =
     (if bd_Name p = [] then Inl ''projection: ProbeDefinition.Name is required''
      else if \<not> hasStore then Inl ''store is required''
      else Inr \<lparr>pr_name = bd_Name p,
        pr_interval = (if bd_PollInterval p \<le> 0 then DefaultProbeInterval else bd_PollInterval p),
        pr_claimTTL = (if bd_ClaimTTL p \<le> 0 then DefaultClaimTTL else bd_ClaimTTL p),
        pr_segments = 0, pr_waiters = 0, pr_stop = None, pr_statuses = [], pr_storeErr = None, pr_changed = 0\<rparr>)"

definition probe_Name :: "probe \<Rightarrow> string" where "probe_Name p = pr_name p"

definition Instances :: "(string \<Rightarrow> 'x \<Rightarrow> 'x \<times> (go_error + instance_info list)) \<Rightarrow> probe \<Rightarrow> 'x \<Rightarrow> 'x \<times> (go_error + instance_info list)" where
  "Instances loadInstances p x = loadInstances (pr_name p) x"

definition probe_complete :: "probe \<Rightarrow> status list \<Rightarrow> bool" where
  "probe_complete p statuses \<longleftrightarrow> length statuses > 0 \<and> length statuses \<ge> pr_segments p"

definition reached :: "probe \<Rightarrow> status list \<Rightarrow> uint64 \<Rightarrow> bool" where
  "reached p statuses pos \<longleftrightarrow> probe_complete p statuses \<and> list_all (\<lambda>s. \<not> st_Position s < pos) statuses"

definition probe_IsLive :: "(string \<Rightarrow> 'x \<Rightarrow> 'x \<times> (go_error + status list)) \<Rightarrow> probe \<Rightarrow> 'x \<Rightarrow> 'x \<times> (go_error + bool)" where
  "probe_IsLive load p x =
     (case load (pr_name p) x of
        (x, Inl err) \<Rightarrow> (x, Inl err)
      | (x, Inr statuses) \<Rightarrow> (x, Inr (probe_complete p statuses \<and> list_all (\<lambda>s. status_IsLive s (pr_claimTTL p)) statuses)))"

text \<open>A runner that owns its only segment answers from memory.\<close>

definition runner_IsLive :: "(string \<Rightarrow> 'x \<Rightarrow> 'x \<times> (go_error + status list)) \<Rightarrow> probe \<Rightarrow> ('e, 'v, 'y) runner \<Rightarrow> 'x \<Rightarrow> 'x \<times> (go_error + bool)" where
  "runner_IsLive load p r x =
     (let st = ss_status (seg_state r 0) in
      if r_segments r = 1 \<and> st_Owner st = d_Owner (r_p r) then (x, Inr (st_Phase st = Live))
      else probe_IsLive load p x)"

section \<open>NotReachedError\<close>

record not_reached =
  nr_Name :: string
  nr_Position :: uint64
  nr_Statuses :: "status list"
  nr_StoreErr :: "go_error option"
  nr_Err :: "go_error option"

fun behind_scan :: "uint64 \<Rightarrow> status option \<Rightarrow> status list \<Rightarrow> status option" where
  "behind_scan pos first [] = first"
| "behind_scan pos first (s # ss) =
     (if st_Position s \<ge> pos then behind_scan pos first ss
      else if st_Phase s = Stalled then Some s
      else behind_scan pos (case first of None \<Rightarrow> Some s | Some f \<Rightarrow> Some f) ss)"

definition Behind :: "not_reached \<Rightarrow> status option" where
  "Behind e = behind_scan (nr_Position e) None (nr_Statuses e)"

definition nr_Unwrap :: "not_reached \<Rightarrow> go_error list" where
  "nr_Unwrap e = List.map_filter (\<lambda>err. err) [nr_Err e, nr_StoreErr e]"

section \<open>The critical sections of WaitUntil and of the poller\<close>

text \<open>The first wait starts a poller, number \<open>k\<close>, and the last one stops it.\<close>

definition wait_enter :: "nat \<Rightarrow> probe \<Rightarrow> probe" where
  "wait_enter k p =
     (let p = p\<lparr>pr_waiters := pr_waiters p + 1\<rparr> in
      if pr_waiters p = 1 then p\<lparr>pr_statuses := [], pr_stop := Some k\<rparr> else p)"

definition wait_leave :: "probe \<Rightarrow> probe" where
  "wait_leave p =
     (let p = p\<lparr>pr_waiters := pr_waiters p - 1\<rparr> in
      if pr_waiters p = 0 then p\<lparr>pr_stop := None\<rparr> else p)"

text \<open>Where a wait is; \<open>WDone\<close> carries what \<open>WaitUntil\<close> returns, \<open>None\<close> for nil.\<close>

datatype wait_pc =
    WOut
  | WTop
  | WBlocked nat "status list" "go_error option"
  | WLeaving "not_reached option"
  | WDone "not_reached option"

definition wait_check :: "probe \<Rightarrow> uint64 \<Rightarrow> wait_pc" where
  "wait_check p pos =
     (if reached p (pr_statuses p) pos then WLeaving None
      else WBlocked (pr_changed p) (pr_statuses p) (pr_storeErr p))"

definition wait_cancelled :: "probe \<Rightarrow> uint64 \<Rightarrow> status list \<Rightarrow> go_error option \<Rightarrow> go_error \<Rightarrow> wait_pc" where
  "wait_cancelled p pos statuses storeErr ctxErr =
     WLeaving (Some \<lparr>nr_Name = pr_name p, nr_Position = pos, nr_Statuses = statuses, nr_StoreErr = storeErr, nr_Err = Some ctxErr\<rparr>)"

text \<open>What a read of poller \<open>k\<close> does to the probe: nothing once the poller has been stopped.\<close>

definition poll_publish :: "nat \<Rightarrow> go_error + status list \<Rightarrow> probe \<Rightarrow> probe" where
  "poll_publish k res p =
     (if pr_stop p \<noteq> Some k then p
      else (case res of
          Inl err \<Rightarrow> p\<lparr>pr_storeErr := Some err\<rparr>
        | Inr statuses \<Rightarrow> p\<lparr>pr_statuses := statuses, pr_storeErr := None\<rparr>)\<lparr>pr_changed := pr_changed p + 1\<rparr>)"

section \<open>WaitUntil of a runner\<close>

text \<open>
  One look of \<open>Runner.WaitUntil\<close> at the runner's memory: it goes on to the probe, returns, or waits for the next
  change with the statuses it saw.
\<close>

datatype runner_look = AskStore | Reached | Wait nat "status list"

definition runner_wait_look :: "('e, 'v, 'y) runner \<Rightarrow> uint64 \<Rightarrow> runner_look" where
  "runner_wait_look r pos =
     (let statuses = map ss_status (r_segs r) in
      if \<not> list_all (\<lambda>s. st_Owner s = d_Owner (r_p r)) statuses then AskStore
      else if list_all (\<lambda>s. st_Position s \<ge> pos) statuses then Reached
      else Wait (r_changed r) statuses)"

section \<open>Waits and pollers together\<close>

text \<open>
  All waits on one probe, their pollers and the store, whose state is \<open>'x\<close>. \<open>pb_session\<close> and \<open>pb_reads\<close> only record:
  the poller that ran when a wait began, and every read of the store with the state it saw.
\<close>

datatype poll_pc = PIdle | PTimer | PRead "go_error + status list" | PExit

record 'x probe_sys =
  pb_probe :: probe
  pb_wait :: "nat \<Rightarrow> wait_pc"
  pb_poll :: "nat \<Rightarrow> poll_pc"
  pb_next :: nat
  pb_store :: 'x
  pb_session :: "nat \<Rightarrow> nat"
  pb_reads :: "(nat \<times> 'x \<times> (go_error + status list)) list"

text \<open>\<open>load\<close> is the store's \<open>LoadStatuses\<close> for the probe's projection, \<open>pos w\<close> the position wait \<open>w\<close> waits for, and
  \<open>env\<close> what may happen to the store meanwhile.\<close>

inductive probe_step :: "('x \<Rightarrow> (go_error + status list) \<Rightarrow> bool) \<Rightarrow> ('x \<Rightarrow> 'x \<Rightarrow> bool) \<Rightarrow> (nat \<Rightarrow> uint64)
    \<Rightarrow> 'x probe_sys \<Rightarrow> 'x probe_sys \<Rightarrow> bool" for load env pos where
  enter: "pb_wait s w = WOut \<Longrightarrow> p' = wait_enter (pb_next s) (pb_probe s) \<Longrightarrow> started = (pr_waiters (pb_probe s) = 0) \<Longrightarrow>
     probe_step load env pos s (s\<lparr>pb_probe := p', pb_wait := (pb_wait s)(w := WTop),
       pb_poll := (if started then (pb_poll s)(pb_next s := PTimer) else pb_poll s),
       pb_next := (if started then pb_next s + 1 else pb_next s),
       pb_session := (pb_session s)(w := the (pr_stop p'))\<rparr>)"
| check: "pb_wait s w = WTop \<Longrightarrow>
     probe_step load env pos s (s\<lparr>pb_wait := (pb_wait s)(w := wait_check (pb_probe s) (pos w))\<rparr>)"
| wake: "pb_wait s w = WBlocked ch sts e \<Longrightarrow> ch < pr_changed (pb_probe s) \<Longrightarrow>
     probe_step load env pos s (s\<lparr>pb_wait := (pb_wait s)(w := WTop)\<rparr>)"
| cancel: "pb_wait s w = WBlocked ch sts e \<Longrightarrow>
     probe_step load env pos s (s\<lparr>pb_wait := (pb_wait s)(w := wait_cancelled (pb_probe s) (pos w) sts e ctxErr)\<rparr>)"
| leave: "pb_wait s w = WLeaving res \<Longrightarrow>
     probe_step load env pos s (s\<lparr>pb_probe := wait_leave (pb_probe s), pb_wait := (pb_wait s)(w := WDone res)\<rparr>)"
| read: "pb_poll s k = PTimer \<Longrightarrow> load (pb_store s) res \<Longrightarrow>
     probe_step load env pos s (s\<lparr>pb_poll := (pb_poll s)(k := PRead res), pb_reads := pb_reads s @ [(k, pb_store s, res)]\<rparr>)"
| stop: "pb_poll s k = PTimer \<Longrightarrow> pr_stop (pb_probe s) \<noteq> Some k \<Longrightarrow>
     probe_step load env pos s (s\<lparr>pb_poll := (pb_poll s)(k := PExit)\<rparr>)"
| publish: "pb_poll s k = PRead res \<Longrightarrow>
     probe_step load env pos s (s\<lparr>pb_probe := poll_publish k res (pb_probe s),
       pb_poll := (pb_poll s)(k := (if pr_stop (pb_probe s) = Some k then PTimer else PExit))\<rparr>)"
| other: "env (pb_store s) x \<Longrightarrow> probe_step load env pos s (s\<lparr>pb_store := x\<rparr>)"

definition probe_start :: "probe \<Rightarrow> 'x \<Rightarrow> 'x probe_sys" where
  "probe_start p x = \<lparr>pb_probe = p, pb_wait = (\<lambda>_. WOut), pb_poll = (\<lambda>_. PIdle), pb_next = 0, pb_store = x,
     pb_session = (\<lambda>_. 0), pb_reads = []\<rparr>"

end
