(* ===== verification/Proj_Quota.thy ===== *)
theory Proj_Quota
  imports Proj_Runner
begin

text \<open>
  How the instances of a projection share its segments: the quotas that every instance computes for itself
  from the same list of instances partition the segments evenly and leave a balanced assignment alone, and
  the reservations of one instance never go past its quota and are given up one at a time, highest segment
  first.
\<close>

section \<open>Quotas\<close>

definition quota_key :: "instance_info \<Rightarrow> int \<times> string" where
  "quota_key m = (- int (in_Segments m), in_Owner m)"

lemma quota_live_eq: "quota_live ms = sort_key quota_key (filter (\<lambda>m. in_Version m = quota_top ms) ms)"
  by (simp add: quota_live_def quota_key_def [abs_def])

lemma set_quota_live: "set (quota_live ms) = {m \<in> set ms. in_Version m = quota_top ms}"
  by (simp add: quota_live_def)

lemma mset_quota_live: "mset (quota_live ms) = mset (filter (\<lambda>m. in_Version m = quota_top ms) ms)"
  by (simp add: quota_live_def)

lemma distinct_quota_live: "distinct (map in_Owner ms) \<Longrightarrow> distinct (map in_Owner (quota_live ms))"
  by (metis (no_types, lifting) distinct_map_filter mset_map mset_quota_live mset_eq_imp_distinct_iff)

lemma index_func_distinct:
  "distinct (map f xs) \<Longrightarrow> i < length xs \<Longrightarrow> index_func (\<lambda>x. f x = f (xs ! i)) xs = Some i"
  by (induction xs arbitrary: i) (auto simp: nth_Cons image_iff split: nat.splits)

lemma quota_nth:
  assumes "distinct (map in_Owner ms)" "i < length (quota_live ms)"
  shows "quota ms (in_Owner (quota_live ms ! i)) segs =
    segs div length (quota_live ms) + (if i < segs mod length (quota_live ms) then 1 else 0)"
  using index_func_distinct [OF distinct_quota_live [OF assms(1)] assms(2)] by (simp add: quota_def Let_def)

lemma sum_indicator: "k \<le> n \<Longrightarrow> (\<Sum>i<n. if i < k then 1 else 0 :: nat) = k"
  by (induction n) (auto simp: le_Suc_eq intro: sum.neutral)



lemma foldl_max:
  fixes a :: int
  shows "a \<le> foldl (\<lambda>t m. max t (f m)) a xs \<and> (\<forall>m \<in> set xs. f m \<le> foldl (\<lambda>t m. max t (f m)) a xs)
    \<and> foldl (\<lambda>t m. max t (f m)) a xs \<in> insert a (f ` set xs)"
proof (induction xs arbitrary: a)
  case (Cons x xs)
  from Cons [of "max a (f x)"] show ?case by (auto simp: max_def split: if_splits)
qed simp

lemma quota_top_Max: "quota_top ms = Max (insert 0 (in_Version ` set ms))"
  using foldl_max [of 0 in_Version ms] by (intro Max_eqI [symmetric]) (auto simp: quota_top_def)



lemma quota_none: "\<forall>m \<in> set ms. in_Owner m = who \<longrightarrow> in_Version m \<noteq> quota_top ms \<Longrightarrow> quota ms who segs = 0"
proof -
  assume "\<forall>m \<in> set ms. in_Owner m = who \<longrightarrow> in_Version m \<noteq> quota_top ms"
  then have "index_func (\<lambda>m. in_Owner m = who) (quota_live ms) = None" by (auto simp: set_quota_live)
  then show ?thesis by (simp only: quota_def Let_def option.case)
qed


text \<open>Every instance computes the same quotas: they depend only on which instances there are, not on the order
  they are listed in.\<close>

theorem quota_order:
  assumes "distinct (map in_Owner ms)" "mset ms = mset ms'"
  shows "quota ms who segs = quota ms' who segs"
proof -
  have top: "quota_top ms = quota_top ms'" using mset_eq_setD [OF assms(2)] by (simp add: quota_top_Max)
  let ?f = "filter (\<lambda>m. in_Version m = quota_top ms)"
  have "inj_on quota_key (set (?f ms))"
    using assms(1) by (auto simp: inj_on_def quota_key_def distinct_map)
  moreover have "mset (?f ms) = mset (sort_key quota_key (?f ms'))" using assms(2) by simp
  ultimately have "sort_key quota_key (?f ms) = sort_key quota_key (?f ms')"
    by (intro sort_key_inj_key_eq) simp_all
  then have "quota_live ms = quota_live ms'" using top by (simp add: quota_live_eq)
  then show ?thesis by (simp add: quota_def)
qed

lemma quota_live_desc:
  assumes "i \<le> j" "j < length (quota_live ms)"
  shows "in_Segments (quota_live ms ! j) \<le> in_Segments (quota_live ms ! i)"
proof -
  have "sorted (map quota_key (quota_live ms))" by (simp add: quota_live_eq)
  from sorted_nth_mono [OF this, of i j] assms show ?thesis by (auto simp: quota_key_def less_eq_prod_def)
qed

lemma descending_split:
  fixes f :: "nat \<Rightarrow> nat"
  assumes "\<And>i. i < n \<Longrightarrow> f i = q \<or> f i = Suc q" "\<And>i j. i \<le> j \<Longrightarrow> j < n \<Longrightarrow> f j \<le> f i"
  shows "\<exists>k \<le> n. \<forall>i < n. f i = q + (if i < k then 1 else 0)"
proof (cases "\<exists>i < n. f i = q")
  case True
  define k where "k = (LEAST i. i < n \<and> f i = q)"
  have k: "k < n" "f k = q" using True LeastI_ex [of "\<lambda>i. i < n \<and> f i = q"] by (auto simp: k_def)
  have "f i = Suc q" if "i < k" for i
    using that k(1) assms(1) [of i] not_less_Least [of i "\<lambda>i. i < n \<and> f i = q"] by (auto simp: k_def)
  moreover have "f i = q" if "k \<le> i" "i < n" for i using assms(1) [of i] assms(2) [of k i] k that by auto
  ultimately have "\<forall>i < n. f i = q + (if i < k then 1 else 0)" by (simp add: not_less)
  with k(1) show ?thesis by (intro exI [of _ k]) simp
next
  case False
  then show ?thesis using assms(1) by (intro exI [of _ n]) auto
qed

text \<open>A segment only moves when the counts require it: when the instances on the highest version hold all the
  segments between them, and each holds the rounded-down or rounded-up share, everybody's quota is what it holds.\<close>

theorem quota_stable:
  assumes "distinct (map in_Owner ms)" "m \<in> set (quota_live ms)"
    and "(\<Sum>k\<leftarrow>quota_live ms. in_Segments k) = segs"
    and "\<forall>k \<in> set (quota_live ms). in_Segments k \<in> {segs div length (quota_live ms), segs div length (quota_live ms) + 1}"
  shows "quota ms (in_Owner m) segs = in_Segments m"
proof -
  let ?L = "quota_live ms" and ?n = "length (quota_live ms)"
  obtain k where k: "k \<le> ?n" "\<forall>i < ?n. in_Segments (?L ! i) = segs div ?n + (if i < k then 1 else 0)"
    using descending_split [of ?n "\<lambda>i. in_Segments (?L ! i)" "segs div ?n"] assms(4) quota_live_desc [of _ _ ms] by auto
  have n: "0 < ?n" using assms(2) by (cases ?L) auto
  have "segs = (\<Sum>i<?n. in_Segments (?L ! i))" using assms(3) by (simp add: sum_list_sum_nth atLeast0LessThan)
  also have "\<dots> = (\<Sum>i<?n. segs div ?n + (if i < k then 1 else 0))" using k(2) by (intro sum.cong) auto
  also have "\<dots> = ?n * (segs div ?n) + k" using k(1) by (simp add: sum.distrib sum_indicator)
  finally have "k = segs mod ?n" by (metis add_left_cancel mult_div_mod_eq)
  moreover obtain i where "i < ?n" "?L ! i = m" using assms(2) by (auto simp: in_set_conv_nth)
  ultimately show ?thesis using quota_nth [OF assms(1), of i segs] k(2) by auto
qed

text \<open>Instances whose versions are all negative get no quota at all, although nothing rejects such a version:
  the highest version starts from 0, so none of them counts as live and no segment is ever claimed.\<close>

theorem quota_negative_version:
  assumes "\<forall>m \<in> set ms. in_Version m < 0"
  shows "quota ms who segs = 0"
proof -
  have "0 \<le> quota_top ms" by (simp add: quota_top_Max)
  then show ?thesis using assms by (intro quota_none) force
qed

section \<open>Reservations\<close>

text \<open>What the goroutines of a runner do to its reservations: claim loops reserve and give back, heartbeats set the quota.\<close>

inductive qstep :: "('e, 'v, 'x) runner \<Rightarrow> ('e, 'v, 'x) runner \<Rightarrow> bool" where
  reserve: "seg < length (r_segs r) \<Longrightarrow> qstep r (fst (reserve seg r))"
| unreserve: "seg < length (r_segs r) \<Longrightarrow> qstep r (unreserve seg r)"
| heartbeat: "qstep r (heartbeat_update res r)"
| phase: "qstep r (setPhase seg p e owns r)"
| status: "qstep r (setStatus seg l st r)"
| active: "qstep r (setActive seg a r)"

inductive_cases qstepE: "qstep r r'"

definition reserved_count :: "('e, 'v, 'x) runner \<Rightarrow> nat" where
  "reserved_count r = length (filter ss_reserved (r_segs r))"

definition held_inv :: "('e, 'v, 'x) runner \<Rightarrow> bool" where
  "held_inv r \<longleftrightarrow> r_held r = reserved_count r"

lemma length_filter_update:
  "i < length xs \<Longrightarrow> length (filter p (xs[i := x])) + (if p (xs ! i) then 1 else 0) = length (filter p xs) + (if p x then 1 else 0)"
proof -
  assume i: "i < length xs"
  have "filter p xs = filter p (take i xs @ xs ! i # drop (Suc i) xs)" using i by (simp only: id_take_nth_drop [symmetric])
  then show ?thesis using i by (simp add: upd_conv_take_nth_drop)
qed

lemma reserved_count_upd:
  "seg < length (r_segs r) \<Longrightarrow>
   reserved_count (upd_seg seg f r) + (if ss_reserved (seg_state r seg) then 1 else 0)
     = reserved_count r + (if ss_reserved (f (seg_state r seg)) then 1 else 0)"
  using length_filter_update [of seg "r_segs r" ss_reserved "f (seg_state r seg)"]
  by (simp add: reserved_count_def upd_seg_def)

lemma reserved_count_same:
  "(\<And>g. ss_reserved (f g) = ss_reserved g) \<Longrightarrow> reserved_count (upd_seg seg f r) = reserved_count r"
proof (cases "seg < length (r_segs r)")
  case True
  assume "\<And>g. ss_reserved (f g) = ss_reserved g"
  with reserved_count_upd [OF True, of f] show ?thesis by simp
next
  case False
  then show ?thesis by (simp add: reserved_count_def upd_seg_def list_update_beyond)
qed

lemma reserved_count_Nudge: "reserved_count (Nudge r) = reserved_count r"
  by (simp add: reserved_count_def Nudge_def filter_map comp_def)

lemma r_upd_seg [simp]: "r_held (upd_seg seg f r) = r_held r" "r_quota (upd_seg seg f r) = r_quota r"
  "r_instancesOK (upd_seg seg f r) = r_instancesOK r" "r_p (upd_seg seg f r) = r_p r"
  "length (r_segs (upd_seg seg f r)) = length (r_segs r)"
  by (simp_all add: upd_seg_def)

lemma held_reserve:
  assumes "held_inv r" "seg < length (r_segs r)"
  shows "held_inv (fst (reserve seg r)) \<and> (snd (reserve seg r) \<longrightarrow> ss_reserved (seg_state (fst (reserve seg r)) seg))"
  using assms reserved_count_upd [OF assms(2), of "\<lambda>g. g\<lparr>ss_reserved := True\<rparr>"]
  by (auto simp: reserve_def held_inv_def reserved_count_def upd_seg_def)

lemma held_unreserve:
  assumes "held_inv r" "seg < length (r_segs r)"
  shows "held_inv (unreserve seg r)"
  using assms reserved_count_upd [OF assms(2), of "\<lambda>g. g\<lparr>ss_reserved := False\<rparr>"]
  by (auto simp: unreserve_def held_inv_def reserved_count_def upd_seg_def)

lemma held_inv_upd [simp]:
  "held_inv (r\<lparr>r_instancesOK := b\<rparr>) = held_inv r" "held_inv (r\<lparr>r_stable := n\<rparr>) = held_inv r" "held_inv (r\<lparr>r_membership := m\<rparr>) = held_inv r"
  "held_inv (r\<lparr>r_quota := n\<rparr>) = held_inv r" "held_inv (r\<lparr>r_changed := n\<rparr>) = held_inv r" "held_inv (r\<lparr>r_notified := n\<rparr>) = held_inv r"
  "held_inv (r\<lparr>r_pollReplays := b\<rparr>) = held_inv r" "held_inv (r\<lparr>r_queuedReplays := q\<rparr>) = held_inv r" "held_inv (r\<lparr>r_pendingReplays := f\<rparr>) = held_inv r"
  by (simp_all add: held_inv_def reserved_count_def)

lemma held_inv_Nudge [simp]: "held_inv (Nudge r) = held_inv r"
  by (simp add: held_inv_def reserved_count_Nudge) (simp add: Nudge_def)

lemma held_inv_upd_seg: "(\<And>g. ss_reserved (f g) = ss_reserved g) \<Longrightarrow> held_inv (upd_seg seg f r) = held_inv r"
  by (simp add: held_inv_def reserved_count_same)

lemma held_heartbeat: "held_inv r \<Longrightarrow> held_inv (heartbeat_update res r)"
  by (simp add: heartbeat_update_def Let_def split: sum.split)

lemma held_status:
  "held_inv r \<Longrightarrow> held_inv (setPhase seg p e owns r)" "held_inv r \<Longrightarrow> held_inv (setStatus seg l st r)"
  "held_inv r \<Longrightarrow> held_inv (setActive seg a r)"
  by (simp_all add: setPhase_def setStatus_def setActive_def notifyWatchers_def signalChange_def Let_def held_inv_upd_seg)

lemma qstep_held: "qstep r r' \<Longrightarrow> held_inv r \<Longrightarrow> held_inv r'"
  by (erule qstep.cases) (simp_all add: held_reserve held_unreserve held_heartbeat held_status)

lemma NewRunner_held: "NewRunner reg hostname pid rnd rd st p = Inr r \<Longrightarrow> held_inv r"
  by (auto simp: NewRunner_def Let_def held_inv_def reserved_count_def new_segment_def filter_map comp_def split: if_splits)

lemma shed_scan_unique:
  "shed_scan segs n a \<Longrightarrow> shed_scan segs n b \<Longrightarrow> a = b"
  by (induction n) (auto split: if_splits)

lemma shed_scan_top:
  "shed_scan segs n a \<Longrightarrow> a \<le> n \<and> (\<forall>j. a < j \<and> j \<le> n \<longrightarrow> \<not> ss_reserved (segs ! j)) \<and> (a = 0 \<or> ss_reserved (segs ! a))"
proof (induction n)
  case (Suc n)
  show ?case
  proof (cases "ss_reserved (segs ! Suc n)")
    case False
    then show ?thesis using Suc by (auto simp: le_Suc_eq)
  qed (use Suc.prems in auto)
qed simp

lemma shed_scan_ex: "\<exists>a \<le> n. shed_scan segs n a"
  by (induction n) (auto intro: le_SucI)

lemma filter_nonempty_nth: "0 < length (filter p xs) \<Longrightarrow> \<exists>i < length xs. p (xs ! i)"
  by (induction xs) (auto split: if_splits)

text \<open>The reservations of an instance: in every state a new runner can reach, the count of held segments is the
  number of reserved ones; a reservation that is granted leaves the count within the quota unless the segment was
  reserved already, and one that is refused changes nothing.\<close>

theorem reservation_invariant:
  assumes "NewRunner reg hostname pid rnd rd st p = Inr r0" "qstep\<^sup>*\<^sup>* r0 r" "seg < length (r_segs r)"
  shows "r_held r = length (filter ss_reserved (r_segs r))
    \<and> (case reserve seg r of (r', ok) \<Rightarrow>
         if ok then ss_reserved (seg_state r' seg) \<and> (ss_reserved (seg_state r seg) \<and> r' = r \<or> r_held r' \<le> r_quota r')
         else r' = r)"
proof -
  have "held_inv r" using assms(2) NewRunner_held [OF assms(1)]
    by (induction rule: rtranclp_induct) (auto intro: qstep_held)
  then have "r_held r = length (filter ss_reserved (r_segs r))" by (simp add: held_inv_def reserved_count_def)
  then show ?thesis using assms(3) by (auto simp: reserve_def upd_seg_def)
qed

text \<open>Shedding: an instance that holds more than its quota, while the instances have been stable for the grace
  period, gives up exactly one segment at a time, a reserved one, its highest-numbered, so segment 0 last; giving it
  up takes the count down by one and never below the quota. Otherwise it sheds nothing.\<close>

theorem shed_one_at_a_time:
  assumes "NewRunner reg hostname pid rnd rd st p = Inr r0" "qstep\<^sup>*\<^sup>* r0 r"
  shows "if r_instancesOK r \<and> shedGrace \<le> r_stable r \<and> r_quota r < r_held r
    then \<exists>seg < length (r_segs r). (\<forall>k. shouldShed r k \<longleftrightarrow> k = seg) \<and> ss_reserved (seg_state r seg)
      \<and> (\<forall>j < length (r_segs r). seg < j \<longrightarrow> \<not> ss_reserved (seg_state r j))
      \<and> r_held (unreserve seg r) = r_held r - 1 \<and> r_quota r \<le> r_held (unreserve seg r)
    else (\<forall>k. \<not> shouldShed r k)"
proof (cases "r_instancesOK r \<and> shedGrace \<le> r_stable r \<and> r_quota r < r_held r")
  case True
  have "held_inv r" using assms(2) NewRunner_held [OF assms(1)]
    by (induction rule: rtranclp_induct) (auto intro: qstep_held)
  then have "0 < length (filter ss_reserved (r_segs r))" using True
    unfolding held_inv_def reserved_count_def by linarith
  from filter_nonempty_nth [OF this] obtain i where i: "i < length (r_segs r)" "ss_reserved (seg_state r i)" by blast
  let ?n = "length (r_segs r) - 1"
  obtain a where a: "a \<le> ?n" "shed_scan (r_segs r) ?n a" using shed_scan_ex by blast
  note top = shed_scan_top [OF a(2)]
  have len: "a < length (r_segs r)" using a(1) i(1) by linarith
  have shed: "shouldShed r k \<longleftrightarrow> k = a" for k
  proof -
    have "shouldShed r k = shed_scan (r_segs r) ?n k" using True by (simp add: shouldShed_def)
    then show ?thesis using a(2) shed_scan_unique [OF a(2), of k] by blast
  qed
  have high: "\<not> ss_reserved (seg_state r j)" if "a < j" "j < length (r_segs r)" for j
  proof -
    have "j \<le> ?n" using that(2) by linarith
    with top that(1) show ?thesis by blast
  qed
  have "ss_reserved (seg_state r a)"
  proof (cases "a = 0")
    case True
    have "\<not> a < i" using high [of i] i by blast
    then have "i = a" using True by simp
    with i(2) show ?thesis by simp
  next
    case False
    with top show ?thesis by blast
  qed
  moreover from this have "r_held (unreserve a r) = r_held r - 1" by (simp add: unreserve_def)
  moreover have "r_quota r \<le> r_held r - 1" using True by linarith
  ultimately have "(\<forall>k. shouldShed r k \<longleftrightarrow> k = a) \<and> ss_reserved (seg_state r a)
      \<and> (\<forall>j < length (r_segs r). a < j \<longrightarrow> \<not> ss_reserved (seg_state r j))
      \<and> r_held (unreserve a r) = r_held r - 1 \<and> r_quota r \<le> r_held (unreserve a r)"
    using shed high by simp
  with len have "\<exists>seg < length (r_segs r). (\<forall>k. shouldShed r k \<longleftrightarrow> k = seg) \<and> ss_reserved (seg_state r seg)
      \<and> (\<forall>j < length (r_segs r). seg < j \<longrightarrow> \<not> ss_reserved (seg_state r j))
      \<and> r_held (unreserve seg r) = r_held r - 1 \<and> r_quota r \<le> r_held (unreserve seg r)" by blast
  then show ?thesis unfolding if_P [OF True] .
next
  case False
  then show ?thesis by (auto simp: shouldShed_def)
qed

section \<open>Witnesses\<close>

definition demo_inst :: "string \<Rightarrow> int \<Rightarrow> nat \<Rightarrow> instance_info" where
  "demo_inst who v n = \<lparr>in_Owner = who, in_Version = v, in_Segments = n, in_Age = 0\<rparr>"

definition demo_ms :: "instance_info list" where
  "demo_ms = [demo_inst ''a'' 1 2, demo_inst ''b'' 1 3, demo_inst ''c'' 0 0]"

lemma demo_ms_facts: "distinct (map in_Owner demo_ms)" "demo_inst ''a'' 1 2 \<in> set demo_ms" "0 \<le> in_Version (demo_inst ''a'' 1 2)"
  "quota_top demo_ms = 1"
  by (simp_all add: demo_ms_def demo_inst_def quota_top_def)

lemma demo_live: "quota_live demo_ms = [demo_inst ''b'' 1 3, demo_inst ''a'' 1 2]"
  by (simp add: quota_live_def demo_ms_facts(4)) (simp add: demo_ms_def demo_inst_def less_eq_prod_def)


theorem quota_order_witness: "quota demo_ms ''a'' 7 = quota (rev demo_ms) ''a'' 7"
  by (rule quota_order [OF demo_ms_facts(1)]) simp

theorem quota_stable_witness: "quota demo_ms ''a'' 5 = 2"
  using quota_stable [OF demo_ms_facts(1), of "demo_inst ''a'' 1 2" 5] by (simp add: demo_live demo_inst_def flip: numeral_2_eq_2)

theorem quota_negative_version_witness: "quota [demo_inst ''a'' (- 1) 0] ''a'' 4 = 0"
  by (rule quota_negative_version) (simp add: demo_inst_def)

definition demo_def :: "(string, 'v, 'x) projection_def" where
  "demo_def = \<lparr>d_Name = ''p'', d_Handler = Some (\<lambda>_ _ x. (x, None)), d_EventTypes = [''Noted''], d_Version = 0, d_Reset = None,
     d_Segments = 2, d_SegmentKey = Some ByStreamID, d_OnError = StallOnError, d_Owner = ''a'', d_BatchSize = 0, d_PollInterval = 0, d_ClaimTTL = 0\<rparr>"

definition demo_runner :: "(string, unit, unit) runner" where
  "demo_runner = projr (NewRunner demo_reg None 1 [] True True demo_def)"

lemma demo_runner: "NewRunner demo_reg None 1 [] True True (demo_def :: (string, unit, unit) projection_def) = Inr demo_runner"
  by (simp add: demo_runner_def NewRunner_def Let_def demo_def_def default_def_def NewEventByName_def demo_reg_def
      DefaultPollInterval_def DefaultClaimTTL_def)

lemma demo_runner_segs: "length (r_segs demo_runner) = 2"
  by (simp add: demo_runner_def NewRunner_def Let_def demo_def_def default_def_def NewEventByName_def demo_reg_def
      DefaultPollInterval_def DefaultClaimTTL_def)

definition demo_beat :: "(string, unit, unit) runner" where
  "demo_beat = heartbeat_update (Inr [demo_inst ''a/'' 0 0]) demo_runner"

lemma demo_beat_steps: "qstep\<^sup>*\<^sup>* demo_runner demo_beat" "length (r_segs demo_beat) = 2"
  by (auto simp: demo_beat_def qstep.heartbeat) (auto simp: heartbeat_update_def Let_def Nudge_def demo_runner_segs)

theorem reservation_invariant_witness: "r_held demo_beat = length (filter ss_reserved (r_segs demo_beat))"
  using reservation_invariant [OF demo_runner demo_beat_steps(1), of 0] by (simp add: demo_beat_steps(2))

theorem shed_one_at_a_time_witness: "r_held demo_beat \<le> r_quota demo_beat \<or> (\<exists>seg < 2. shouldShed demo_beat seg) \<or> r_stable demo_beat < shedGrace"
proof -
  have "r_instancesOK demo_beat" by (simp add: demo_beat_def heartbeat_update_def Let_def Nudge_def)
  then show ?thesis using shed_one_at_a_time [OF demo_runner demo_beat_steps(1)] demo_beat_steps(2)
    by (auto simp: not_le not_less split: if_splits)
qed

end
