(* ===== verification/Proj_Segment.thy ===== *)
theory Proj_Segment
  imports Proj_Quota
begin

text \<open>
  The segment loop of the projection runner (\<open>projection/segment.go\<close>), with the parts of
  \<open>projection/runner.go\<close>, \<open>projection/replay.go\<close> and \<open>projection/instances.go\<close> it calls.

  The runner works against two interfaces, \<open>Store\<close> (with the optional \<open>DeadLetterStore\<close>) and
  \<open>GlobalReader\<close>: the record \<open>runner_ops\<close>, whose operations work on a world of type \<open>'x\<close>. The world also
  holds the read model the handlers write, the clock and the state of the context, and an operation may
  include what other instances do before and after it, so a statement about every such record is one about
  every interleaving. A function of the loop takes the runner and the world and returns both, with an
  error. Loops that run until something ends them take fuel, and \<open>None\<close> means that they are still running.
\<close>

record ('e, 'v, 'x) runner_ops =
  o_impl :: "('e, 'v) event_impl"
  o_text :: "go_error \<Rightarrow> string"
  o_now :: "'x \<Rightarrow> gotime"
  o_ctxErr :: "'x \<Rightarrow> go_error option"
  o_sleep :: "duration \<Rightarrow> 'x \<Rightarrow> 'x"
  o_NextBackOff :: "'x \<Rightarrow> 'x \<times> duration"
  o_ResetBackOff :: "'x \<Rightarrow> 'x"
  o_Declare :: "string \<Rightarrow> nat \<Rightarrow> uint64 \<Rightarrow> 'x \<Rightarrow> 'x \<times> go_error option"
  o_Heartbeat :: "string \<Rightarrow> string \<Rightarrow> int \<Rightarrow> duration \<Rightarrow> 'x \<Rightarrow> 'x \<times> (go_error + instance_info list)"
  o_Claim :: "lease \<Rightarrow> duration \<Rightarrow> 'x \<Rightarrow> 'x \<times> (go_error + lease \<times> checkpoint \<times> bool)"
  o_Commit :: "lease \<Rightarrow> checkpoint \<Rightarrow> status \<Rightarrow> ('x \<Rightarrow> 'x \<times> go_error option) \<Rightarrow> 'x \<Rightarrow> 'x \<times> go_error option"
  o_Reset :: "lease \<Rightarrow> int \<Rightarrow> ('x \<Rightarrow> 'x \<times> go_error option) \<Rightarrow> 'x \<Rightarrow> 'x \<times> go_error option"
  o_Release :: "lease \<Rightarrow> 'x \<Rightarrow> 'x \<times> go_error option"
  o_SaveStatus :: "lease \<Rightarrow> status \<Rightarrow> 'x \<Rightarrow> 'x \<times> go_error option"
  o_Rebuilds :: "string \<Rightarrow> 'x \<Rightarrow> 'x \<times> (go_error + uint64 \<times> uint64)"
  o_FailRebuild :: "lease \<Rightarrow> uint64 \<Rightarrow> string \<Rightarrow> 'x \<Rightarrow> 'x \<times> go_error option"
  o_isDeadLetterStore :: bool
  o_SaveDeadLetter :: "lease \<Rightarrow> dead_letter \<Rightarrow> 'x \<Rightarrow> 'x \<times> go_error option"
  o_LoadDeadLetters :: "string \<Rightarrow> nat \<Rightarrow> 'x \<Rightarrow> 'x \<times> (go_error + dead_letter list)"
  o_DeleteDeadLetter :: "lease \<Rightarrow> uint64 \<Rightarrow> 'x \<Rightarrow> 'x \<times> go_error option"
  o_PendingReplays :: "string \<Rightarrow> 'x \<Rightarrow> 'x \<times> (go_error + replay list)"
  o_FinishReplay :: "lease \<Rightarrow> uint64 \<Rightarrow> string \<Rightarrow> 'x \<Rightarrow> 'x \<times> go_error option"
  o_ReadAll :: "uint64 \<Rightarrow> read_options \<Rightarrow> 'x \<Rightarrow> 'x \<times> (go_error + ('e, 'v) read_result)"
  o_Head :: "'x \<Rightarrow> 'x \<times> (go_error + uint64)"

type_synonym ('e, 'v, 'x) rx = "('e, 'v, 'x) runner \<times> 'x"

section \<open>Claims and commits\<close>

definition claim :: "('e, 'v, 'x) runner_ops \<Rightarrow> nat \<Rightarrow> ('e, 'v, 'x) rx \<Rightarrow> ('e, 'v, 'x) rx \<times> (go_error + checkpoint option)" where
  "claim S seg = (\<lambda>(r, x).
     case o_Claim S (lease_of r seg) (d_ClaimTTL (r_p r)) x of
       (x, Inl err) \<Rightarrow> ((r, x), Inl err)
     | (x, Inr (l, cp, ok)) \<Rightarrow>
         if \<not> ok then ((r, x), Inr None)
         else ((upd_seg seg (\<lambda>g. g\<lparr>ss_lease := l\<rparr>) r, x), Inr (Some cp)))"

definition commit :: "('e, 'v, 'x) runner_ops \<Rightarrow> nat \<Rightarrow> checkpoint \<Rightarrow> status \<Rightarrow> ('x \<Rightarrow> 'x \<times> go_error option)
    \<Rightarrow> ('e, 'v, 'x) rx \<Rightarrow> ('e, 'v, 'x) rx \<times> go_error option" where
  "commit S seg cp st fn = (\<lambda>(r, x).
     case o_Commit S (lease_of r seg) cp st fn x of
       (x, Some err) \<Rightarrow> ((r, x), Some err)
     | (x, None) \<Rightarrow> ((setStatus seg (lease_of r seg) st r, x), None))"

section \<open>Applying a batch\<close>

definition handle :: "('e, 'v, 'x) runner_ops \<Rightarrow> ('e, 'v, 'x) projection_def \<Rightarrow> uint64 \<Rightarrow> ('e, 'v) envelope \<Rightarrow> 'x \<Rightarrow> 'x \<times> go_error option" where
  "handle S p replayUntil env x =
     (case (the (d_Handler p)) (withEnvelope (o_impl S) Background env replayUntil) (Event env) x of
        (x, None) \<Rightarrow> (x, None)
      | (x, Some err) \<Rightarrow> if As_skipped err then (x, None) else (x, Some (HandlerError (GlobalPosition env) err)))"

fun handle_all :: "('e, 'v, 'x) runner_ops \<Rightarrow> ('e, 'v, 'x) projection_def \<Rightarrow> uint64 \<Rightarrow> ('e, 'v) envelope list \<Rightarrow> 'x \<Rightarrow> 'x \<times> go_error option" where
  "handle_all S p replayUntil [] x = (x, None)"
| "handle_all S p replayUntil (env # envs) x =
     (case handle S p replayUntil env x of
        (x, Some err) \<Rightarrow> (x, Some err)
      | (x, None) \<Rightarrow> handle_all S p replayUntil envs x)"

text \<open>A segment number outside the range of the remainder never equals \<open>seg\<close>; \<open>SegmentOf\<close> does not panic for
  the counts a runner has.\<close>

definition ownEvents :: "('e, 'v, 'x) runner \<Rightarrow> nat \<Rightarrow> ('e, 'v) envelope list \<Rightarrow> ('e, 'v) envelope list" where
  "ownEvents r seg events = filter (\<lambda>env. SegmentOf ((the (d_SegmentKey (r_p r))) env) (int (r_segments r)) = Inr seg) events"

definition shouldSkip :: "('e, 'v, 'x) projection_def \<Rightarrow> phase \<Rightarrow> bool \<Rightarrow> bool" where
  "shouldSkip p ph replaying =
     (case d_OnError p of SkipAlways \<Rightarrow> True | SkipWhenLive \<Rightarrow> ph = Live \<and> \<not> replaying | StallOnError \<Rightarrow> False)"

definition skipEvent :: "('e, 'v, 'x) runner_ops \<Rightarrow> nat \<Rightarrow> ('e, 'v) envelope \<Rightarrow> go_error \<Rightarrow> checkpoint \<Rightarrow> status
    \<Rightarrow> ('e, 'v, 'x) rx \<Rightarrow> ('e, 'v, 'x) rx \<times> go_error option" where
  "skipEvent S seg env cause cp st = (\<lambda>(r, x).
     let eventType = (case Event env of None \<Rightarrow> [] | Some ev \<Rightarrow> EventType (o_impl S) ev);
         fn = (\<lambda>x. if \<not> o_isDeadLetterStore S then (x, None)
                   else o_SaveDeadLetter S (lease_of r seg) \<lparr>dl_Position = GlobalPosition env, dl_StreamID = StreamID env,
                          dl_EventType = eventType, dl_Error = o_text S cause\<rparr> x)
     in case commit S seg cp st fn (r, x) of
          ((r, x), Some err) \<Rightarrow> ((r, x), Some err)
        | ((r, x), None) \<Rightarrow> ((r\<lparr>r_skipped := r_skipped r + 1\<rparr>, x), None))"

definition park :: "nat \<Rightarrow> string \<Rightarrow> ('e, 'v, 'x) runner \<Rightarrow> ('e, 'v, 'x) runner" where
  "park seg streamID r = noteParked seg (upd_seg seg (\<lambda>g. g\<lparr>ss_parked := insert streamID (ss_parked g)\<rparr>) r)"

fun apply_each :: "('e, 'v, 'x) runner_ops \<Rightarrow> nat \<Rightarrow> ('e, 'v) envelope list \<Rightarrow> checkpoint \<Rightarrow> status
    \<Rightarrow> ('e, 'v, 'x) rx \<Rightarrow> ('e, 'v, 'x) rx \<times> go_error option" where
  "apply_each S seg [] batchCP batchStatus rx = (rx, None)"
| "apply_each S seg (env # envs) batchCP batchStatus (r, x) =
     (case o_ctxErr S x of
        Some err \<Rightarrow> ((r, x), Some err)
      | None \<Rightarrow>
          let cp = batchCP\<lparr>cp_Position := GlobalPosition env\<rparr>;
              st = batchStatus\<lparr>st_Position := GlobalPosition env\<rparr>
          in if StreamID env \<in> ss_parked (seg_state r seg) then
               (case skipEvent S seg env (Sentinel ErrStreamParked) cp st (r, x) of
                  (rx, Some err) \<Rightarrow> (rx, Some err)
                | (rx, None) \<Rightarrow> apply_each S seg envs batchCP batchStatus rx)
             else
               (case commit S seg cp st (handle S (r_p r) (cp_ReplayUntil cp) env) (r, x) of
                  (rx, None) \<Rightarrow> apply_each S seg envs batchCP batchStatus rx
                | ((r, x), Some err) \<Rightarrow>
                    (case o_ctxErr S x of
                       Some e \<Rightarrow> ((r, x), Some e)
                     | None \<Rightarrow>
                         (case As_handler err of
                            None \<Rightarrow> ((r, x), Some err)
                          | Some herr \<Rightarrow>
                              if shouldSkip (r_p r) (st_Phase batchStatus) (GlobalPosition env \<le> cp_ReplayUntil cp) then
                                (case skipEvent S seg env herr cp st (r, x) of
                                   (rx, Some e) \<Rightarrow> (rx, Some e)
                                 | ((r, x), None) \<Rightarrow> apply_each S seg envs batchCP batchStatus (park seg (StreamID env) r, x))
                              else ((r, x), Some err)))))"

definition applyOneByOne :: "('e, 'v, 'x) runner_ops \<Rightarrow> nat \<Rightarrow> ('e, 'v) envelope list \<Rightarrow> checkpoint \<Rightarrow> status
    \<Rightarrow> ('e, 'v, 'x) rx \<Rightarrow> ('e, 'v, 'x) rx \<times> go_error option" where
  "applyOneByOne S seg events batchCP batchStatus rx =
     (case apply_each S seg events batchCP batchStatus rx of
        (rx, Some err) \<Rightarrow> (rx, Some err)
      | (rx, None) \<Rightarrow>
          (case (if cp_Position batchCP > GlobalPosition (last events)
                 then commit S seg batchCP batchStatus (\<lambda>x. (x, None)) rx else (rx, None)) of
             (rx, Some err) \<Rightarrow> (rx, Some err)
           | ((r, x), None) \<Rightarrow> ((notifyWatchers r, x), None)))"

definition applyBatch :: "('e, 'v, 'x) runner_ops \<Rightarrow> nat \<Rightarrow> ('e, 'v) envelope list \<Rightarrow> checkpoint \<Rightarrow> status
    \<Rightarrow> ('e, 'v, 'x) rx \<Rightarrow> ('e, 'v, 'x) rx \<times> go_error option" where
  "applyBatch S seg events cp st = (\<lambda>(r, x).
     if list_ex (\<lambda>env. StreamID env \<in> ss_parked (seg_state r seg)) events then applyOneByOne S seg events cp st (r, x)
     else (case commit S seg cp st (handle_all S (r_p r) (cp_ReplayUntil cp) events) (r, x) of
         ((r, x), None) \<Rightarrow> ((notifyWatchers r, x), None)
       | (rx, Some err) \<Rightarrow> if As_handler err \<noteq> None then applyOneByOne S seg events cp st rx else (rx, Some err)))"

section \<open>Parked streams and replays\<close>

definition set_parked :: "nat \<Rightarrow> string set \<Rightarrow> ('e, 'v, 'x) runner \<Rightarrow> ('e, 'v, 'x) runner" where
  "set_parked seg streams r = noteParked seg (upd_seg seg (\<lambda>g. g\<lparr>ss_parked := streams\<rparr>) r)"

definition loadParked :: "('e, 'v, 'x) runner_ops \<Rightarrow> nat \<Rightarrow> checkpoint \<Rightarrow> ('e, 'v, 'x) rx \<Rightarrow> ('e, 'v, 'x) rx \<times> go_error option" where
  "loadParked S seg cp = (\<lambda>(r, x).
     if cp_Position cp = 0 then ((set_parked seg {} r, x), None)
     else if \<not> o_isDeadLetterStore S then ((r, x), None)
     else (case o_LoadDeadLetters S (d_Name (r_p r)) seg x of
         (x, Inl err) \<Rightarrow> ((r, x), Some (Errorf ''load dead letters'' [err]))
       | (x, Inr letters) \<Rightarrow> ((set_parked seg (dl_StreamID ` set letters) r, x), None)))"

fun replay_letters :: "('e, 'v, 'x) runner_ops \<Rightarrow> nat \<Rightarrow> checkpoint \<Rightarrow> string \<Rightarrow> uint64 set \<Rightarrow> dead_letter list
    \<Rightarrow> ('e, 'v, 'x) rx \<Rightarrow> ('e, 'v, 'x) rx \<times> go_error option" where
  "replay_letters S seg cp streamID done [] rx = (rx, None)"
| "replay_letters S seg cp streamID done (d # ds) (r, x) =
     (if dl_StreamID d \<noteq> streamID \<or> dl_Position d \<in> done then replay_letters S seg cp streamID done ds (r, x)
      else (case o_ReadAll S (uint64_pred (dl_Position d)) \<lparr>ro_Limit = 1, ro_EventTypes = [], ro_StreamPrefixes = []\<rparr> x of
          (x, Inl err) \<Rightarrow> ((r, x), Some (Errorf ''replay: read event'' [err]))
        | (x, Inr res) \<Rightarrow>
            (case rr_Events res of
               [env] \<Rightarrow>
                 if GlobalPosition env \<noteq> dl_Position d then ((r, x), Some (NewError ''replay: event is not in the log''))
                 else (case commit S seg cp (ss_status (seg_state r seg))
                     (\<lambda>x. case handle S (r_p r) (cp_ReplayUntil cp) env x of
                        (x, Some err) \<Rightarrow> (x, Some err)
                      | (x, None) \<Rightarrow> o_DeleteDeadLetter S (lease_of r seg) (dl_Position d) x) (r, x) of
                       (rx, Some err) \<Rightarrow> (rx, Some (Errorf ''replay'' [err]))
                     | (rx, None) \<Rightarrow> replay_letters S seg cp streamID (insert (dl_Position d) done) ds rx)
             | _ \<Rightarrow> ((r, x), Some (NewError ''replay: event is not in the log'')))))"

definition replayStream :: "('e, 'v, 'x) runner_ops \<Rightarrow> nat \<Rightarrow> checkpoint \<Rightarrow> string
    \<Rightarrow> ('e, 'v, 'x) rx \<Rightarrow> ('e, 'v, 'x) rx \<times> go_error option" where
  "replayStream S seg cp streamID = (\<lambda>(r, x).
     case o_LoadDeadLetters S (d_Name (r_p r)) seg x of
       (x, Inl err) \<Rightarrow> ((r, x), Some (Errorf ''replay: load dead letters'' [err]))
     | (x, Inr letters) \<Rightarrow>
         (case replay_letters S seg cp streamID {} letters (r, x) of
            (rx, Some err) \<Rightarrow> (rx, Some err)
          | ((r, x), None) \<Rightarrow> ((notifyWatchers (set_parked seg (ss_parked (seg_state r seg) - {streamID}) r), x), None)))"

fun serve_each :: "('e, 'v, 'x) runner_ops \<Rightarrow> nat \<Rightarrow> checkpoint \<Rightarrow> replay list
    \<Rightarrow> ('e, 'v, 'x) rx \<Rightarrow> ('e, 'v, 'x) rx \<times> go_error option" where
  "serve_each S seg cp [] rx = (rx, None)"
| "serve_each S seg cp (rp # rps) rx =
     (case replayStream S seg cp (rq_StreamID rp) rx of
        ((r, x), err) \<Rightarrow>
          (case o_ctxErr S x of
             Some e \<Rightarrow> ((r, x), Some e)
           | None \<Rightarrow>
               if (case err of None \<Rightarrow> False | Some e \<Rightarrow> errors_Is e ErrClaimLost) then ((r, x), err)
               else let msg = (case err of None \<Rightarrow> [] | Some e \<Rightarrow> o_text S e);
                        r = (case err of None \<Rightarrow> r
                             | Some e \<Rightarrow> if r_replayWaiters r > 0
                                 then r\<lparr>r_replayErrs := (r_replayErrs r)(rq_Number rp := r_replayErrs r (rq_Number rp) @ [e])\<rparr> else r)
                    in (case o_FinishReplay S (lease_of r seg) (rq_Number rp) msg x of
                          (x, ferr) \<Rightarrow>
                            if (case ferr of None \<Rightarrow> False | Some e \<Rightarrow> errors_Is e ErrClaimLost) then ((r, x), ferr)
                            else serve_each S seg cp rps (r\<lparr>r_replayed := r_replayed r + 1\<rparr>, x))))"

definition serveReplays :: "('e, 'v, 'x) runner_ops \<Rightarrow> nat \<Rightarrow> checkpoint \<Rightarrow> ('e, 'v, 'x) rx \<Rightarrow> ('e, 'v, 'x) rx \<times> go_error option" where
  "serveReplays S seg cp = (\<lambda>(r, x).
     case takeReplays seg r of
       (r, reqs) \<Rightarrow>
         if reqs = [] then ((r, x), None)
         else (case serve_each S seg cp reqs (r, x) of
             ((r, x), err) \<Rightarrow> ((dropReplays reqs (r\<lparr>r_pollReplays := True\<rparr>), x), err)))"

section \<open>Rebuilds\<close>

definition reclaim :: "('e, 'v, 'x) runner_ops \<Rightarrow> nat \<Rightarrow> ('e, 'v, 'x) rx \<Rightarrow> ('e, 'v, 'x) rx \<times> (go_error + checkpoint)" where
  "reclaim S seg rx =
     (case claim S seg rx of
        (rx, Inl err) \<Rightarrow> (rx, Inl (Errorf ''reclaim segment'' [err]))
      | (rx, Inr None) \<Rightarrow> (rx, Inl (Sentinel ErrClaimLost))
      | (rx, Inr (Some cp)) \<Rightarrow> (rx, Inr cp))"

definition retire_segment :: "int \<Rightarrow> nat \<Rightarrow> nat \<Rightarrow> segment_state \<Rightarrow> segment_state" where
  "retire_segment version seg i g =
     (let g = g\<lparr>ss_status := (ss_status g)\<lparr>st_Position := 0, st_Version := version\<rparr>\<rparr>
      in if i = seg then g else g\<lparr>ss_lease := (ss_lease g)\<lparr>l_Epoch := 0\<rparr>\<rparr>)"

definition retire_all :: "nat \<Rightarrow> ('e, 'v, 'x) runner \<Rightarrow> ('e, 'v, 'x) runner" where
  "retire_all seg r = signalChange (r\<lparr>r_segs := map (\<lambda>(i, g). retire_segment (d_Version (r_p r)) seg i g) (enumerate 0 (r_segs r))\<rparr>)"

definition rebuild :: "('e, 'v, 'x) runner_ops \<Rightarrow> nat \<Rightarrow> ('e, 'v, 'x) rx \<Rightarrow> ('e, 'v, 'x) rx \<times> (go_error + checkpoint)" where
  "rebuild S seg = (\<lambda>(r, x).
     let r = r\<lparr>r_resetting := True\<rparr> in
     case o_Reset S (lease_of r seg) (d_Version (r_p r)) (the (d_Reset (r_p r))) x of
       (x, Some err) \<Rightarrow> ((r, x), Inl (Errorf ''rebuild'' [err]))
     | (x, None) \<Rightarrow>
         let head = st_Head (ss_status (seg_state r seg));
             r = set_parked seg {} (upd_seg seg (\<lambda>g. g\<lparr>ss_rebuilding := True\<rparr>) (retire_all seg r))
         in (case reclaim S seg (r, x) of
               (rx, Inl err) \<Rightarrow> (rx, Inl err)
             | ((r, x), Inr cp) \<Rightarrow>
                 ((notifyWatchers (setStatus seg (lease_of r seg)
                     (zero_status\<lparr>st_Phase := CatchingUp, st_Position := cp_Position cp, st_Head := head,
                       st_Version := d_Version (r_p r), st_Owner := d_Owner (r_p r), st_Segment := seg\<rparr>) r), x), Inr cp)))"

definition rebuildTried :: "('e, 'v, 'x) runner_ops \<Rightarrow> uint64 \<Rightarrow> go_error option \<Rightarrow> ('e, 'v, 'x) rx \<Rightarrow> ('e, 'v, 'x) rx" where
  "rebuildTried S requested err = (\<lambda>(r, x).
     let failed = (requested > 0 \<and> o_ctxErr S x = None \<and> (case err of None \<Rightarrow> False | Some e \<Rightarrow> \<not> errors_Is e ErrClaimLost));
         x = (if failed then fst (o_FailRebuild S (lease_of r 0) requested (o_text S (the err)) x) else x);
         r = r\<lparr>r_resetting := False\<rparr>;
         r = (if failed then r\<lparr>r_rebuildFailed := requested, r_rebuildErr := err\<rparr> else r)
     in (r\<lparr>r_rebuilt := r_rebuilt r + 1\<rparr>, x))"

text \<open>The last time segment 0 asked is 0 before the first time, as the zero instant.\<close>

definition rebuildDue :: "('e, 'v, 'x) runner_ops \<Rightarrow> gotime \<Rightarrow> ('e, 'v, 'x) rx \<Rightarrow> ('e, 'v, 'x) rx \<times> gotime \<times> (go_error + uint64)" where
  "rebuildDue S lastAsked = (\<lambda>(r, x).
     let asked = r_checkRebuild r;
         r = r\<lparr>r_checkRebuild := False\<rparr>
     in if \<not> asked \<and> lastAsked \<noteq> 0 \<and> time_Sub (o_now S x) lastAsked < d_PollInterval (r_p r) then ((r, x), lastAsked, Inr 0)
        else let lastAsked = o_now S x in
          (case o_Rebuilds S (d_Name (r_p r)) x of
             (x, Inl err) \<Rightarrow> ((r, x), lastAsked, Inl (Errorf ''read rebuild requests'' [err]))
           | (x, Inr (requested, done)) \<Rightarrow>
               if requested \<le> done then ((r, x), lastAsked, Inr 0)
               else if d_Reset (r_p r) = None then ((r\<lparr>r_warnedRebuild := requested\<rparr>, x), lastAsked, Inr 0)
               else ((r, x), lastAsked, Inr requested)))"

text \<open>A rebuild with its outcome recorded, as the segment loop makes it.\<close>

definition rebuild_tried :: "('e, 'v, 'x) runner_ops \<Rightarrow> nat \<Rightarrow> uint64 \<Rightarrow> ('e, 'v, 'x) rx \<Rightarrow> ('e, 'v, 'x) rx \<times> (go_error + checkpoint)" where
  "rebuild_tried S seg requested rx =
     (case rebuild S seg rx of
        (rx, res) \<Rightarrow> (rebuildTried S requested (case res of Inl err \<Rightarrow> Some err | Inr _ \<Rightarrow> None) rx, res))"

section \<open>The loop of a claimed segment\<close>

text \<open>What \<open>work\<close> does before its loop: parked streams, and a rebuild after an upgrade or a change of event types.\<close>

definition work_start :: "('e, 'v, 'x) runner_ops \<Rightarrow> nat \<Rightarrow> checkpoint \<Rightarrow> ('e, 'v, 'x) rx \<Rightarrow> ('e, 'v, 'x) rx \<times> (go_error + checkpoint)" where
  "work_start S seg cp rx =
     (case loadParked S seg cp rx of
        (rx, Some err) \<Rightarrow> (rx, Inl err)
      | ((r, x), None) \<Rightarrow>
          let upgraded = cp_Version cp < d_Version (r_p r);
              typesChanged = (cp_Fingerprint cp \<noteq> [] \<and> cp_Fingerprint cp \<noteq> r_fingerprint r)
          in if cp_Position cp = 0 then ((r, x), Inr cp)
             else if upgraded \<or> typesChanged \<and> d_Reset (r_p r) \<noteq> None \<and> r_segments r = 1 then rebuild_tried S seg 0 (r, x)
             else if typesChanged then ((r, x), Inl (Errorf ''projection'' [Sentinel ErrEventTypesChanged]))
             else ((r, x), Inr cp))"

definition waitLive :: "('e, 'v, 'x) runner_ops \<Rightarrow> nat \<Rightarrow> ('e, 'v, 'x) rx \<Rightarrow> ('e, 'v, 'x) rx \<times> bool" where
  "waitLive S seg = (\<lambda>(r, x).
     let x = (if ss_nudge (seg_state r seg) then x else o_sleep S (d_PollInterval (r_p r)) x);
         r = upd_seg seg (\<lambda>g. g\<lparr>ss_nudge := False\<rparr>) r
     in ((r, x), o_ctxErr S x = None))"

text \<open>The checks between two batches: shedding, rebuild requests on segment 0, queued replays.\<close>

definition between_batches :: "('e, 'v, 'x) runner_ops \<Rightarrow> nat \<Rightarrow> gotime \<Rightarrow> checkpoint \<Rightarrow> ('e, 'v, 'x) rx
    \<Rightarrow> ('e, 'v, 'x) rx \<times> gotime \<times> (go_error + checkpoint)" where
  "between_batches S seg lastAsked cp = (\<lambda>(r, x).
     if shouldShed r seg then ((r, x), lastAsked, Inl (Sentinel ErrShed))
     else let res = (if seg = 0 then
            (case rebuildDue S lastAsked (r, x) of
               (rx, lastAsked, Inl err) \<Rightarrow> (rx, lastAsked, Inl err)
             | (rx, lastAsked, Inr requested) \<Rightarrow>
                 if requested > 0 then (case rebuild_tried S seg requested rx of (rx, out) \<Rightarrow> (rx, lastAsked, out))
                 else (rx, lastAsked, Inr cp))
            else ((r, x), lastAsked, Inr cp))
     in (case res of
           (rx, lastAsked, Inl err) \<Rightarrow> (rx, lastAsked, Inl err)
         | (rx, lastAsked, Inr cp) \<Rightarrow>
             (case serveReplays S seg cp rx of
                (rx, Some err) \<Rightarrow> (rx, lastAsked, Inl err)
              | (rx, None) \<Rightarrow> (rx, lastAsked, Inr cp))))"

definition batch_checkpoint :: "('e, 'v, 'x) runner \<Rightarrow> checkpoint \<Rightarrow> uint64 \<Rightarrow> checkpoint" where
  "batch_checkpoint r cp nxt = \<lparr>cp_Position = nxt, cp_Version = d_Version (r_p r), cp_ReplayUntil = cp_ReplayUntil cp, cp_Fingerprint = r_fingerprint r\<rparr>"

definition batch_status :: "('e, 'v, 'x) runner \<Rightarrow> nat \<Rightarrow> bool \<Rightarrow> uint64 \<Rightarrow> uint64 \<Rightarrow> status" where
  "batch_status r seg atEnd nxt head = zero_status\<lparr>st_Phase := (if atEnd then Live else CatchingUp), st_Position := nxt, st_Head := head,
     st_Version := d_Version (r_p r), st_Owner := d_Owner (r_p r), st_Segment := seg\<rparr>"

text \<open>Reading a page and bringing it into the read model: the checkpoint to continue from, and whether the page
  ended at the head of the log.\<close>

definition read_batch :: "('e, 'v, 'x) runner_ops \<Rightarrow> nat \<Rightarrow> checkpoint \<Rightarrow> ('e, 'v, 'x) rx \<Rightarrow> ('e, 'v, 'x) rx \<times> (go_error + checkpoint \<times> bool)" where
  "read_batch S seg cp = (\<lambda>(r, x).
     case o_ReadAll S (cp_Position cp) (readOptions r) x of
       (x, Inl err) \<Rightarrow> ((r, x), Inl (Errorf ''read'' [err]))
     | (x, Inr res) \<Rightarrow>
         let nxt = max (rr_Next res) (cp_Position cp) in
         (case (if rr_AtEnd res then (x, Inr nxt)
                else (case o_Head S x of (x, Inl err) \<Rightarrow> (x, Inl (Errorf ''read head'' [err])) | (x, Inr h) \<Rightarrow> (x, Inr (max h nxt)))) of
            (x, Inl err) \<Rightarrow> ((r, x), Inl err)
          | (x, Inr head) \<Rightarrow>
              let events = (if r_segments r > 1 then ownEvents r seg (rr_Events res) else rr_Events res);
                  newCP = batch_checkpoint r cp nxt;
                  st = batch_status r seg (rr_AtEnd res) nxt head
              in if events \<noteq> [] then
                   (case applyBatch S seg events newCP st (r, x) of
                      (rx, Some err) \<Rightarrow> (rx, Inl err)
                    | (rx, None) \<Rightarrow> (rx, Inr (newCP, rr_AtEnd res)))
                 else if nxt > cp_Position cp then
                   (case commit S seg newCP st (\<lambda>x. (x, None)) (r, x) of
                      (rx, Some err) \<Rightarrow> (rx, Inl err)
                    | (rx, None) \<Rightarrow> (rx, Inr (newCP, rr_AtEnd res)))
                 else
                   (case o_SaveStatus S (lease_of r seg) st x of
                      (x, err) \<Rightarrow>
                        if (case err of None \<Rightarrow> False | Some e \<Rightarrow> errors_Is e ErrClaimLost) then ((r, x), Inl (the err))
                        else ((setStatus seg (lease_of r seg) st r, x), Inr (cp, rr_AtEnd res)))))"

text \<open>One turn of the loop of \<open>work\<close>, and the loop, which ends with an error only.\<close>

definition work_turn :: "('e, 'v, 'x) runner_ops \<Rightarrow> nat \<Rightarrow> gotime \<Rightarrow> checkpoint \<Rightarrow> ('e, 'v, 'x) rx
    \<Rightarrow> ('e, 'v, 'x) rx \<times> gotime \<times> (go_error + checkpoint)" where
  "work_turn S seg lastAsked cp = (\<lambda>(r, x).
     case o_ctxErr S x of
       Some err \<Rightarrow> ((r, x), lastAsked, Inl err)
     | None \<Rightarrow>
         (case between_batches S seg lastAsked cp (r, x) of
            (rx, lastAsked, Inl err) \<Rightarrow> (rx, lastAsked, Inl err)
          | (rx, lastAsked, Inr cp) \<Rightarrow>
              (case read_batch S seg cp rx of
                 (rx, Inl err) \<Rightarrow> (rx, lastAsked, Inl err)
               | ((r, x), Inr (cp, atEnd)) \<Rightarrow>
                   let r = (if atEnd \<and> ss_rebuilding (seg_state r seg) then upd_seg seg (\<lambda>g. g\<lparr>ss_rebuilding := False\<rparr>) r else r)
                   in if \<not> atEnd then ((r, x), lastAsked, Inr cp)
                      else (case waitLive S seg (r, x) of
                          ((r, x), True) \<Rightarrow> ((r, x), lastAsked, Inr cp)
                        | ((r, x), False) \<Rightarrow> ((r, x), lastAsked, Inl (the (o_ctxErr S x)))))))"

fun work_loop :: "nat \<Rightarrow> ('e, 'v, 'x) runner_ops \<Rightarrow> nat \<Rightarrow> gotime \<Rightarrow> checkpoint \<Rightarrow> ('e, 'v, 'x) rx \<Rightarrow> (('e, 'v, 'x) rx \<times> go_error) option" where
  "work_loop 0 S seg lastAsked cp rx = None"
| "work_loop (Suc fuel) S seg lastAsked cp rx =
     (case work_turn S seg lastAsked cp rx of
        (rx, lastAsked, Inl err) \<Rightarrow> Some (rx, err)
      | (rx, lastAsked, Inr cp) \<Rightarrow> work_loop fuel S seg lastAsked cp rx)"

definition work :: "nat \<Rightarrow> ('e, 'v, 'x) runner_ops \<Rightarrow> nat \<Rightarrow> checkpoint \<Rightarrow> ('e, 'v, 'x) rx \<Rightarrow> (('e, 'v, 'x) rx \<times> go_error) option" where
  "work fuel S seg cp rx =
     (case work_start S seg cp rx of
        (rx, Inl err) \<Rightarrow> Some (rx, err)
      | (rx, Inr cp) \<Rightarrow> work_loop fuel S seg 0 cp rx)"

section \<open>The loop of a segment\<close>

definition release :: "('e, 'v, 'x) runner_ops \<Rightarrow> nat \<Rightarrow> ('e, 'v, 'x) rx \<Rightarrow> ('e, 'v, 'x) rx" where
  "release S seg = (\<lambda>(r, x). (unreserve seg r, fst (o_Release S (lease_of r seg) x)))"

definition shed :: "('e, 'v, 'x) runner_ops \<Rightarrow> nat \<Rightarrow> ('e, 'v, 'x) rx \<Rightarrow> ('e, 'v, 'x) rx" where
  "shed S seg rx = (case release S seg rx of (r, x) \<Rightarrow> (setPhase seg Standby [] False r, x))"

definition publishStatus :: "('e, 'v, 'x) runner_ops \<Rightarrow> nat \<Rightarrow> ('e, 'v, 'x) rx \<Rightarrow> ('e, 'v, 'x) rx" where
  "publishStatus S seg = (\<lambda>(r, x). (r, fst (o_SaveStatus S (lease_of r seg) (ss_status (seg_state r seg)) x)))"

fun waitStalled :: "nat \<Rightarrow> ('e, 'v, 'x) runner_ops \<Rightarrow> nat \<Rightarrow> gotime \<Rightarrow> ('e, 'v, 'x) rx \<Rightarrow> ('e, 'v, 'x) rx option" where
  "waitStalled 0 S seg deadline rx = None"
| "waitStalled (Suc fuel) S seg deadline (r, x) =
     (let left = time_Sub deadline (o_now S x) in
      if left \<le> 0 \<or> o_ctxErr S x \<noteq> None then Some (r, x)
      else let x = o_sleep S (min left (d_PollInterval (r_p r))) x in
        if time_Sub deadline (o_now S x) \<le> 0 \<or> o_ctxErr S x \<noteq> None then Some (r, x)
        else (case o_SaveStatus S (lease_of r seg) (ss_status (seg_state r seg)) x of
            (x, err) \<Rightarrow> if (case err of None \<Rightarrow> False | Some e \<Rightarrow> errors_Is e ErrClaimLost) then Some (r, x)
              else waitStalled fuel S seg deadline (r, x)))"

text \<open>The local variables of \<open>runSegment\<close>, and how a turn of its loop ends: with the next turn or with its return.\<close>

record seg_loop =
  sl_held :: bool
  sl_outdated :: bool

datatype turn_end = Again | Return

definition standby :: "('e, 'v, 'x) runner_ops \<Rightarrow> nat \<Rightarrow> ('e, 'v, 'x) rx \<Rightarrow> ('e, 'v, 'x) rx" where
  "standby S seg = (\<lambda>(r, x). (setPhase seg Standby [] False r, o_sleep S (d_PollInterval (r_p r)) x))"

text \<open>What follows \<open>work\<close>, by the error it ended with.\<close>

definition after_work :: "nat \<Rightarrow> ('e, 'v, 'x) runner_ops \<Rightarrow> nat \<Rightarrow> uint64 \<Rightarrow> seg_loop \<Rightarrow> go_error \<Rightarrow> ('e, 'v, 'x) rx
    \<Rightarrow> (('e, 'v, 'x) rx \<times> seg_loop \<times> turn_end) option" where
  "after_work fuel S seg before v err = (\<lambda>(r, x).
     if o_ctxErr S x \<noteq> None then Some ((r, x), v, Return)
     else if errors_Is err ErrShed then
       (case shed S seg (r, x) of (r, x) \<Rightarrow> Some ((r, o_ResetBackOff S x), v\<lparr>sl_held := False\<rparr>, Again))
     else if errors_Is err ErrClaimLost then
       Some ((setPhase seg Standby [] False (unreserve seg r), o_ResetBackOff S x), v\<lparr>sl_held := False\<rparr>, Again)
     else
       let x = (if position r seg \<noteq> before then o_ResetBackOff S x else x) in
       (case publishStatus S seg (setPhase seg Stalled (o_text S err) True r, x) of
          (r, x) \<Rightarrow> (case o_NextBackOff S x of
            (x, wait) \<Rightarrow> (case waitStalled fuel S seg (o_now S x + wait) (r, x) of
               None \<Rightarrow> None
             | Some rx \<Rightarrow> Some (rx, v, Again)))))"

definition segment_turn :: "nat \<Rightarrow> ('e, 'v, 'x) runner_ops \<Rightarrow> nat \<Rightarrow> seg_loop \<Rightarrow> ('e, 'v, 'x) rx
    \<Rightarrow> (('e, 'v, 'x) rx \<times> seg_loop \<times> turn_end) option" where
  "segment_turn fuel S seg v rx =
     (case (if sl_held v \<and> shouldShed (fst rx) seg
            then (case shed S seg rx of (r, x) \<Rightarrow> ((r, o_ResetBackOff S x), v\<lparr>sl_held := False\<rparr>)) else (rx, v)) of
        ((r, x), v) \<Rightarrow>
          (case reserve seg r of
             (r, False) \<Rightarrow> Some (standby S seg (r, x), v, Again)
           | (r, True) \<Rightarrow>
               (case claim S seg (r, x) of
                  ((r, x), Inl err) \<Rightarrow>
                    (case o_NextBackOff S x of
                       (x, wait) \<Rightarrow> Some ((setPhase seg Stalled (o_text S err) False (unreserve seg r), o_sleep S wait x), v, Again))
                | ((r, x), Inr None) \<Rightarrow> Some (standby S seg (unreserve seg r, o_ResetBackOff S x), v\<lparr>sl_held := False\<rparr>, Again)
                | ((r, x), Inr (Some cp)) \<Rightarrow>
                    if cp_Version cp > d_Version (r_p r) then
                      Some (standby S seg (release S seg (r, x)), \<lparr>sl_held = False, sl_outdated = True\<rparr>, Again)
                    else
                      let before = position r seg in
                      (case work fuel S seg cp (setActive seg True r, x) of
                         None \<Rightarrow> None
                       | Some ((r, x), err) \<Rightarrow> after_work fuel S seg before \<lparr>sl_held = True, sl_outdated = False\<rparr> err (setActive seg False r, x)))))"

definition segment_exit :: "('e, 'v, 'x) runner_ops \<Rightarrow> nat \<Rightarrow> ('e, 'v, 'x) rx \<Rightarrow> ('e, 'v, 'x) rx" where
  "segment_exit S seg rx = (case release S seg rx of (r, x) \<Rightarrow> (setPhase seg Standby [] False r, x))"

fun runSegment :: "nat \<Rightarrow> ('e, 'v, 'x) runner_ops \<Rightarrow> nat \<Rightarrow> seg_loop \<Rightarrow> ('e, 'v, 'x) rx \<Rightarrow> ('e, 'v, 'x) rx option" where
  "runSegment 0 S seg v rx = None"
| "runSegment (Suc fuel) S seg v (r, x) =
     (if o_ctxErr S x \<noteq> None then Some (segment_exit S seg (r, x))
      else (case segment_turn fuel S seg v (r, x) of
          None \<Rightarrow> None
        | Some (rx, v, Return) \<Rightarrow> Some (segment_exit S seg rx)
        | Some (rx, v, Again) \<Rightarrow> runSegment fuel S seg v rx))"

section \<open>Starting and membership\<close>

definition heartbeat :: "('e, 'v, 'x) runner_ops \<Rightarrow> ('e, 'v, 'x) rx \<Rightarrow> ('e, 'v, 'x) rx \<times> go_error option" where
  "heartbeat S = (\<lambda>(r, x).
     case o_Heartbeat S (d_Name (r_p r)) (d_Owner (r_p r)) (d_Version (r_p r)) (d_ClaimTTL (r_p r)) x of
       (x, res) \<Rightarrow> ((heartbeat_update res r, x), case res of Inl err \<Rightarrow> Some err | Inr _ \<Rightarrow> None))"

definition leave :: "('e, 'v, 'x) runner_ops \<Rightarrow> ('e, 'v, 'x) rx \<Rightarrow> ('e, 'v, 'x) rx" where
  "leave S = (\<lambda>(r, x). (r, fst (o_Heartbeat S (d_Name (r_p r)) (d_Owner (r_p r)) (d_Version (r_p r)) 0 x)))"

definition startOnce :: "('e, 'v, 'x) runner_ops \<Rightarrow> ('e, 'v, 'x) rx \<Rightarrow> ('e, 'v, 'x) rx \<times> go_error option" where
  "startOnce S = (\<lambda>(r, x).
     case o_Head S x of
       (x, Inl err) \<Rightarrow> ((r, x), Some (Errorf ''read head'' [err]))
     | (x, Inr head) \<Rightarrow>
         (case o_Declare S (d_Name (r_p r)) (r_segments r) head x of
            (x, Some err) \<Rightarrow> ((r, x), Some (Errorf ''declare segments'' [err]))
          | (x, None) \<Rightarrow>
              (case heartbeat S (r, x) of
                 (rx, Some err) \<Rightarrow> (rx, Some (Errorf ''heartbeat'' [err]))
               | (rx, None) \<Rightarrow> (rx, None))))"

text \<open>The attempts of \<open>start\<close>, until the instant \<open>giveUp\<close>.\<close>

fun start :: "nat \<Rightarrow> ('e, 'v, 'x) runner_ops \<Rightarrow> gotime \<Rightarrow> ('e, 'v, 'x) rx \<Rightarrow> (('e, 'v, 'x) rx \<times> go_error option) option" where
  "start 0 S giveUp rx = None"
| "start (Suc fuel) S giveUp rx =
     (case startOnce S rx of
        (rx, None) \<Rightarrow> Some (rx, None)
      | ((r, x), Some err) \<Rightarrow>
          if o_ctxErr S x \<noteq> None \<or> errors_Is err ErrSegmentsChanged then Some ((r, x), Some err)
          else (case o_NextBackOff S x of
              (x, wait) \<Rightarrow>
                if o_now S x + wait > giveUp then Some ((r, x), Some err)
                else start fuel S giveUp (r, o_sleep S wait x)))"

end
