(* ===== verification/Proj_Coverage.thy ===== *)
theory Proj_Coverage
  imports Proj_Segment
begin

text \<open>
  No event is lost: whatever the handlers, the store and other instances do, while a runner holds a
  segment every event of the segment up to its checkpoint was delivered to the handler or is recorded as a
  dead letter. The locale \<open>segment_store\<close> states what the runner relies on, as laws of its operations on the
  world seen through one lease: an operation is framed, that is, other instances may act, but while the
  lease is current the checkpoint stays and nothing that was delivered or recorded is forgotten; a commit
  that succeeds ran its unit of work under the current claim and moved the checkpoint; a page of the log
  holds exactly the segment's events up to where it ends.
\<close>

definition page_own :: "('e, 'v, 'x) projection_def \<Rightarrow> nat \<Rightarrow> nat \<Rightarrow> ('e, 'v) envelope list \<Rightarrow> ('e, 'v) envelope list" where
  "page_own p n seg events =
     (if n > 1 then filter (\<lambda>env. SegmentOf ((the (d_SegmentKey p)) env) (int n) = Inr seg) events else events)"

definition page_opts :: "('e, 'v, 'x) projection_def \<Rightarrow> read_options" where
  "page_opts p = \<lparr>ro_Limit = d_BatchSize p, ro_EventTypes = d_EventTypes p, ro_StreamPrefixes = []\<rparr>"

lemma rx_cases:
  obtains a b c where "t = ((a, b), c)"
  by (metis surj_pair)

lemma rx3_cases:
  obtains a b c d where "t = ((a, b), c, d)"
  by (metis surj_pair)

locale segment_view =
  fixes wf :: "'x \<Rightarrow> bool"
    and current :: "'x \<Rightarrow> bool"
    and cpos :: "'x \<Rightarrow> uint64"
    and delivered :: "'x \<Rightarrow> uint64 set"
    and lettered :: "'x \<Rightarrow> uint64 set"
    and owns :: "'x \<Rightarrow> uint64 set"
    and tip :: "'x \<Rightarrow> uint64"
begin

definition accounted :: "'x \<Rightarrow> uint64 set" where
  "accounted x = delivered x \<union> lettered x"

definition covered :: "'x \<Rightarrow> bool" where
  "covered x \<longleftrightarrow> cpos x \<le> tip x \<and> owns x \<inter> {..cpos x} \<subseteq> accounted x"

definition log_grows :: "'x \<Rightarrow> 'x \<Rightarrow> bool" where
  "log_grows x x' \<longleftrightarrow> tip x \<le> tip x' \<and> owns x' \<inter> {..tip x} = owns x \<inter> {..tip x}"

definition frame :: "'x \<Rightarrow> 'x \<Rightarrow> bool" where
  "frame x x' \<longleftrightarrow> wf x' \<and> log_grows x x'
     \<and> (current x' \<longrightarrow> current x \<and> cpos x' = cpos x \<and> accounted x \<subseteq> accounted x')"

definition at :: "uint64 \<Rightarrow> 'x \<Rightarrow> bool" where
  "at c x \<longleftrightarrow> wf x \<and> (current x \<longrightarrow> covered x \<and> cpos x = c)"

lemma log_grows_refl [simp]: "log_grows x x"
  by (simp add: log_grows_def)

lemma log_grows_trans:
  assumes "log_grows x y" "log_grows y z"
  shows "log_grows x z"
proof -
  have "{..tip x} \<subseteq> {..tip y}" using assms by (simp add: log_grows_def)
  then have "A \<inter> {..tip x} = (A \<inter> {..tip y}) \<inter> {..tip x}" for A by auto
  note this [of "owns z"] this [of "owns y"]
  then show ?thesis using assms by (auto simp: log_grows_def)
qed

lemma frame_refl [simp]: "wf x \<Longrightarrow> frame x x"
  by (simp add: frame_def)

lemma frame_trans: "frame x y \<Longrightarrow> frame y z \<Longrightarrow> frame x z"
  using log_grows_trans [of x y z] by (auto simp: frame_def)

lemma frame_wf: "frame x y \<Longrightarrow> wf y"
  by (simp add: frame_def)

lemma at_frame:
  assumes "at c x" "frame x x'"
  shows "at c x'"
proof -
  have "covered x'" if "current x'"
  proof -
    have x: "covered x" "current x" and x': "cpos x' = cpos x" "accounted x \<subseteq> accounted x'"
      using assms that by (auto simp: at_def frame_def)
    have "owns x' \<inter> {..tip x} = owns x \<inter> {..tip x}" "tip x \<le> tip x'" using assms(2) by (auto simp: frame_def log_grows_def)
    moreover have "cpos x \<le> tip x" using x(1) by (simp add: covered_def)
    ultimately have "owns x' \<inter> {..cpos x} \<subseteq> owns x \<inter> {..cpos x}" by force
    then show ?thesis using x x' \<open>cpos x \<le> tip x\<close> \<open>tip x \<le> tip x'\<close> by (auto simp: covered_def)
  qed
  then show ?thesis using assms by (auto simp: at_def frame_def)
qed

end

locale segment_store = segment_view wf current cpos delivered lettered owns tip
  for wf :: "'x \<Rightarrow> bool" and current and cpos and delivered and lettered and owns and tip +
  fixes S :: "('e, 'v, 'x) runner_ops"
    and p :: "('e, 'v, 'x) projection_def"
    and n :: nat
    and seg :: nat
    and l :: lease
  assumes commit_ok: "wf x \<Longrightarrow> o_Commit S l cp st fn x = (x', None) \<Longrightarrow> (\<And>y. wf y \<Longrightarrow> frame y (fst (fn y))) \<Longrightarrow>
      \<exists>x0 x1 x2. frame x x0 \<and> current x0 \<and> fn x0 = (x1, None) \<and> frame x1 x2 \<and> current x2
        \<and> wf x' \<and> owns x' = owns x2 \<and> tip x' = tip x2 \<and> cpos x' = cp_Position cp \<and> accounted x' = accounted x2"
    and commit_err: "wf x \<Longrightarrow> o_Commit S l cp st fn x = (x', Some e) \<Longrightarrow> (\<And>y. wf y \<Longrightarrow> frame y (fst (fn y))) \<Longrightarrow> frame x x'"
    and handled: "wf x \<Longrightarrow> handle S p ru env x = (x', err) \<Longrightarrow> frame x x'
      \<and> (err = None \<longrightarrow> GlobalPosition env \<in> delivered x')"
    and save_letter: "wf x \<Longrightarrow> o_SaveDeadLetter S l d x = (x', err) \<Longrightarrow> frame x x'
      \<and> (err = None \<longrightarrow> dl_Position d \<in> lettered x')"
    and delete_letter: "wf x \<Longrightarrow> o_DeleteDeadLetter S l pos x = (x', err) \<Longrightarrow> pos \<in> delivered x \<Longrightarrow> frame x x'"
    and has_letters: "o_isDeadLetterStore S"
    and read_frame: "wf x \<Longrightarrow> frame x (fst (o_ReadAll S after opts x))"
    and page: "wf x \<Longrightarrow> o_ReadAll S after (page_opts p) x = (x', Inr res) \<Longrightarrow>
      sorted_wrt (<) (map GlobalPosition (page_own p n seg (rr_Events res)))
      \<and> GlobalPosition ` set (page_own p n seg (rr_Events res)) = owns x' \<inter> {after<..rr_Next res}
      \<and> rr_Next res \<le> max after (tip x')"
    and head_frame: "wf x \<Longrightarrow> frame x (fst (o_Head S x))"
    and status_frame: "wf x \<Longrightarrow> frame x (fst (o_SaveStatus S l st x))"
    and rebuilds_frame: "wf x \<Longrightarrow> frame x (fst (o_Rebuilds S name x))"
    and letters_frame: "wf x \<Longrightarrow> frame x (fst (o_LoadDeadLetters S name seg x))"
    and finish_frame: "wf x \<Longrightarrow> frame x (fst (o_FinishReplay S l number msg x))"
    and sleep_frame: "wf x \<Longrightarrow> frame x (o_sleep S dur x)"
begin

text \<open>What the runner's own state keeps while it works on the segment.\<close>

definition own_runner :: "('e, 'v, 'x) runner \<Rightarrow> bool" where
  "own_runner r \<longleftrightarrow> lease_of r seg = l \<and> r_p r = p \<and> r_segments r = n \<and> seg < length (r_segs r)"

lemma own_upd: "own_runner r \<Longrightarrow> (\<And>g. ss_lease (f g) = ss_lease g) \<Longrightarrow> own_runner (upd_seg i f r)"
  by (cases "i = seg") (auto simp: own_runner_def lease_of_def upd_seg_def nth_list_update)

lemma own_setStatus: "own_runner r \<Longrightarrow> own_runner (setStatus i k st r)"
proof -
  assume "own_runner r"
  then have "own_runner (upd_seg i (\<lambda>g. g\<lparr>ss_status := st\<rparr>) r)" by (rule own_upd) simp
  then show ?thesis using \<open>own_runner r\<close>
    by (simp add: setStatus_def Let_def signalChange_def notifyWatchers_def own_runner_def lease_of_def)
qed

lemma own_other [simp]:
  "own_runner (notifyWatchers r) = own_runner r" "own_runner (r\<lparr>r_skipped := a\<rparr>) = own_runner r" "own_runner (r\<lparr>r_replayErrs := e\<rparr>) = own_runner r"
  "own_runner (r\<lparr>r_replayed := a\<rparr>) = own_runner r" "own_runner (r\<lparr>r_pollReplays := b\<rparr>) = own_runner r" "own_runner (r\<lparr>r_checkRebuild := b\<rparr>) = own_runner r"
  "own_runner (r\<lparr>r_warnedRebuild := a\<rparr>) = own_runner r" "own_runner (dropReplays reqs r) = own_runner r" "own_runner (fst (takeReplays i r)) = own_runner r"
  by (simp_all add: own_runner_def lease_of_def notifyWatchers_def dropReplays_def takeReplays_def)

lemma own_set_parked: "own_runner r \<Longrightarrow> own_runner (set_parked i streams r)" "own_runner r \<Longrightarrow> own_runner (park i stream r)"
  by (auto simp: set_parked_def park_def noteParked_def intro!: own_upd)

text \<open>A commit whose unit of work accounts for the segment's events up to the new checkpoint.\<close>

definition unit_covers :: "uint64 \<Rightarrow> uint64 \<Rightarrow> ('x \<Rightarrow> 'x \<times> go_error option) \<Rightarrow> 'x \<Rightarrow> bool" where
  "unit_covers c c' fn x \<longleftrightarrow> (\<forall>y. wf y \<longrightarrow> frame y (fst (fn y)))
     \<and> (\<forall>y z. frame x y \<longrightarrow> fn y = (z, None) \<longrightarrow> current z \<longrightarrow> c' \<le> tip z \<and> owns z \<inter> {c<..c'} \<subseteq> accounted z)"

lemma commit_cases:
  assumes "own_runner r" "commit S seg cp st fn (r, x) = ((r', x'), err)"
  shows "o_Commit S l cp st fn x = (x', err) \<and> r' = (if err = None then setStatus seg l st r else r)"
proof (cases "o_Commit S l cp st fn x")
  case (Pair y e)
  then show ?thesis using assms by (cases e) (auto simp: commit_def own_runner_def)
qed

lemma commit_at:
  assumes "at c x" "own_runner r" "commit S seg cp st fn (r, x) = ((r', x'), err)" "unit_covers c (cp_Position cp) fn x" "c \<le> cp_Position cp"
  shows "own_runner r' \<and> (if err = None then at (cp_Position cp) x' \<and> log_grows x x' else at c x' \<and> frame x x')"
proof (cases err)
  case None
  have c: "o_Commit S l cp st fn x = (x', None)" and r': "r' = setStatus seg l st r"
    using commit_cases [OF assms(2,3)] None by simp_all
  have wf: "wf x" using assms(1) by (simp add: at_def)
  obtain x0 x1 x2 where x: "frame x x0" "current x0" "fn x0 = (x1, None)" "frame x1 x2" "current x2" "wf x'" "owns x' = owns x2" "tip x' = tip x2"
    "cpos x' = cp_Position cp" "accounted x' = accounted x2"
    using commit_ok [OF wf c] assms(4) by (auto simp: unit_covers_def)
  have "at c x0" by (rule at_frame [OF assms(1) x(1)])
  then have x0: "covered x0" "cpos x0 = c" "wf x0" using x(2) by (auto simp: at_def)
  have f: "frame x0 x1" using assms(4) x0(3) x(3) unfolding unit_covers_def by (metis fst_conv)
  have x1: "current x1" using x(4,5) by (simp add: frame_def)
  have new: "cp_Position cp \<le> tip x1" "owns x1 \<inter> {c<..cp_Position cp} \<subseteq> accounted x1"
    using assms(4) x(1,3) x1 by (auto simp: unit_covers_def)
  have f2: "frame x0 x2" using frame_trans [OF f x(4)] .
  then have acc: "accounted x0 \<subseteq> accounted x2" and lg: "log_grows x0 x2" using x(5) by (simp_all add: frame_def)
  have lg2: "log_grows x1 x2" and acc2: "accounted x1 \<subseteq> accounted x2" using x(4,5) by (simp_all add: frame_def)
  have ctop: "c \<le> tip x0" using x0(1,2) by (simp add: covered_def)
  have "owns x2 \<inter> {..c} \<subseteq> owns x0 \<inter> {..c}" using lg ctop by (force simp: log_grows_def)
  also have "\<dots> \<subseteq> accounted x2" using x0(1,2) acc by (auto simp: covered_def)
  finally have old: "owns x2 \<inter> {..c} \<subseteq> accounted x2" .
  have "owns x2 \<inter> {c<..cp_Position cp} \<subseteq> owns x1 \<inter> {c<..cp_Position cp}" using lg2 new(1) by (force simp: log_grows_def)
  with new(2) acc2 old have "owns x2 \<inter> {..cp_Position cp} \<subseteq> accounted x2" by (force simp: not_le)
  moreover have "cp_Position cp \<le> tip x2" using new(1) lg2 by (simp add: log_grows_def)
  ultimately have "at (cp_Position cp) x'" using x by (simp add: at_def covered_def)
  moreover have "log_grows x x'" using log_grows_trans [OF _ lg, of x] x(1,7,8) by (simp add: frame_def log_grows_def)
  ultimately show ?thesis using None r' own_setStatus [OF assms(2)] by simp
next
  case (Some e)
  have c: "o_Commit S l cp st fn x = (x', Some e)" and r': "r' = r"
    using commit_cases [OF assms(2,3)] Some by simp_all
  have wf: "wf x" using assms(1) by (simp add: at_def)
  have "frame x x'" by (rule commit_err [OF wf c]) (use assms(4) in \<open>simp add: unit_covers_def\<close>)
  then show ?thesis using at_frame [OF assms(1)] Some r' assms(2) by simp
qed

text \<open>The segment's events between two positions, as a page delivers them.\<close>

definition batch :: "uint64 \<Rightarrow> uint64 \<Rightarrow> ('e, 'v) envelope list \<Rightarrow> 'x \<Rightarrow> bool" where
  "batch c c' es x \<longleftrightarrow> c \<le> c' \<and> c' \<le> max c (tip x) \<and> sorted_wrt (<) (map GlobalPosition es)
     \<and> GlobalPosition ` set es = owns x \<inter> {c<..c'}"

lemma batch_grows: "batch c c' es x \<Longrightarrow> log_grows x y \<Longrightarrow> batch c c' es y"
proof -
  assume b: "batch c c' es x" and g: "log_grows x y"
  have "owns y \<inter> {c<..c'} = owns x \<inter> {c<..c'}"
  proof (cases "c' \<le> tip x")
    case True
    then have "{c<..c'} \<subseteq> {..tip x}" by auto
    moreover have "owns y \<inter> {..tip x} = owns x \<inter> {..tip x}" using g by (simp add: log_grows_def)
    ultimately show ?thesis by blast
  next
    case False
    then have "{c<..c'} = {}" using b by (auto simp: batch_def)
    then show ?thesis by simp
  qed
  then show ?thesis using b g by (auto simp: batch_def log_grows_def)
qed

lemma batch_Cons:
  assumes "batch c c' (e # es) x"
  shows "batch c (GlobalPosition e) [e] x" "batch (GlobalPosition e) c' es x" "c < GlobalPosition e" "GlobalPosition e \<le> c'"
proof -
  have s: "\<forall>q \<in> GlobalPosition ` set es. GlobalPosition e < q" "sorted_wrt (<) (map GlobalPosition es)"
    "insert (GlobalPosition e) (GlobalPosition ` set es) = owns x \<inter> {c<..c'}" "c' \<le> max c (tip x)"
    using assms by (auto simp: batch_def)
  have "GlobalPosition e \<in> owns x \<inter> {c<..c'}" unfolding s(3) [symmetric] by simp
  then show c: "c < GlobalPosition e" "GlobalPosition e \<le> c'" by simp_all
  have "owns x \<inter> {c<..GlobalPosition e} = (owns x \<inter> {c<..c'}) \<inter> {..GlobalPosition e}" using c by auto
  also have "\<dots> = {GlobalPosition e}" unfolding s(3) [symmetric] using s(1) by (auto simp: not_less [symmetric])
  finally have "owns x \<inter> {c<..GlobalPosition e} = {GlobalPosition e}" .
  then show "batch c (GlobalPosition e) [e] x" using c s(4) by (auto simp: batch_def)
  have "owns x \<inter> {GlobalPosition e<..c'} = (owns x \<inter> {c<..c'}) \<inter> {GlobalPosition e<..}" using c by auto
  also have "\<dots> = GlobalPosition ` set es" unfolding s(3) [symmetric] using s(1) by auto
  finally have "owns x \<inter> {GlobalPosition e<..c'} = GlobalPosition ` set es" .
  then show "batch (GlobalPosition e) c' es x" using c s(2,4) by (auto simp: batch_def)
qed

definition applies :: "('e, 'v) envelope list \<Rightarrow> ('x \<Rightarrow> 'x \<times> go_error option) \<Rightarrow> bool" where
  "applies es fn \<longleftrightarrow> (\<forall>y. wf y \<longrightarrow> frame y (fst (fn y)))
     \<and> (\<forall>y z. wf y \<longrightarrow> fn y = (z, None) \<longrightarrow> current z \<longrightarrow> GlobalPosition ` set es \<subseteq> accounted z)"

lemma applies_covers:
  assumes "at c x" "batch c c' es x" "applies es fn"
  shows "unit_covers c c' fn x"
  unfolding unit_covers_def
proof (intro conjI allI impI)
  fix y assume "wf y"
  then show "frame y (fst (fn y))" using assms(3) by (simp add: applies_def)
next
  fix y z assume y: "frame x y" "fn y = (z, None)" "current z"
  have wf: "wf y" using y(1) by (rule frame_wf)
  have yz: "frame y z" using assms(3) wf y(2) unfolding applies_def by (metis fst_conv)
  have f: "frame x z" using frame_trans [OF y(1) yz] .
  then have "at c z" by (rule at_frame [OF assms(1)])
  then have "c \<le> tip z" using y(3) by (simp add: at_def covered_def)
  moreover have b: "batch c c' es z" using batch_grows [OF assms(2)] f by (simp add: frame_def)
  ultimately show "c' \<le> tip z" by (auto simp: batch_def)
  have "GlobalPosition ` set es \<subseteq> accounted z" using assms(3) wf y(2,3) by (simp add: applies_def)
  then show "owns z \<inter> {c<..c'} \<subseteq> accounted z" using b by (simp add: batch_def)
qed

lemma commit_batch:
  assumes "at c x" "own_runner r" "batch c (cp_Position cp) es x" "applies es fn" "commit S seg cp st fn (r, x) = ((r', x'), err)"
  shows "own_runner r' \<and> (if err = None then at (cp_Position cp) x' \<and> log_grows x x' else at c x' \<and> frame x x')"
  using commit_at [OF assms(1,2,5) applies_covers [OF assms(1,3,4)]] assms(3) by (simp add: batch_def)

lemma applies_none: "applies [] (\<lambda>x. (x, None))"
  by (simp add: applies_def)

lemma applies_handle: "applies [env] (handle S p ru env)"
  unfolding applies_def using handled [of _ ru env] by (auto simp: accounted_def) (metis fst_conv prod.collapse)+

lemma handle_all_frame:
  "wf y \<Longrightarrow> handle_all S p ru es y = (z, err) \<Longrightarrow> frame y z \<and> (err = None \<longrightarrow> current z \<longrightarrow> GlobalPosition ` set es \<subseteq> accounted z)"
proof (induction es arbitrary: y)
  case (Cons e es)
  obtain y1 e1 where h: "handle S p ru e y = (y1, e1)" by fastforce
  note h1 = handled [OF Cons.prems(1) h]
  show ?case
  proof (cases e1)
    case None
    then have z: "handle_all S p ru es y1 = (z, err)" using Cons.prems(2) h by simp
    note ih = Cons.IH [OF frame_wf [OF conjunct1 [OF h1]] z]
    have "frame y z" using frame_trans h1 ih by blast
    moreover have "GlobalPosition e \<in> accounted z" if "current z"
      using h1 ih None that by (auto simp: frame_def accounted_def)
    ultimately show ?thesis using ih by auto
  next
    case (Some a)
    then show ?thesis using Cons.prems(2) h h1 by auto
  qed
qed simp

lemma applies_handle_all: "applies es (handle_all S p ru es)"
  unfolding applies_def using handle_all_frame [of _ ru es] by (metis prod.collapse)

lemma applies_save:
  assumes "dl_Position d = GlobalPosition env"
  shows "applies [env] (\<lambda>x. if \<not> o_isDeadLetterStore S then (x, None) else o_SaveDeadLetter S l d x)"
  unfolding applies_def using save_letter [of _ d] assms has_letters
  by (auto simp: accounted_def) (metis fst_conv prod.collapse)+

definition settled :: "'x \<Rightarrow> bool" where
  "settled x \<longleftrightarrow> wf x \<and> (current x \<longrightarrow> covered x)"

lemma at_settled: "at c x \<Longrightarrow> settled x"
  by (simp add: at_def settled_def)

lemma skipEvent_at:
  assumes "at c x" "own_runner r" "batch c (cp_Position cp) [env] x" "skipEvent S seg env cause cp st (r, x) = ((r', x'), err)"
  shows "own_runner r' \<and> (if err = None then at (cp_Position cp) x' \<and> log_grows x x' else at c x' \<and> frame x x')"
proof -
  let ?d = "\<lparr>dl_Position = GlobalPosition env, dl_StreamID = StreamID env,
      dl_EventType = (case Event env of None \<Rightarrow> [] | Some ev \<Rightarrow> EventType (o_impl S) ev), dl_Error = o_text S cause\<rparr>"
  let ?fn = "\<lambda>x. if \<not> o_isDeadLetterStore S then (x, None) else o_SaveDeadLetter S l ?d x"
  have a: "applies [env] ?fn" by (rule applies_save) simp
  obtain r1 x1 e1 where c: "commit S seg cp st ?fn (r, x) = ((r1, x1), e1)" by (rule rx_cases)
  have l: "lease_of r seg = l" using assms(2) by (simp add: own_runner_def)
  have "skipEvent S seg env cause cp st (r, x) =
      (case e1 of Some err \<Rightarrow> ((r1, x1), Some err) | None \<Rightarrow> ((r1\<lparr>r_skipped := r_skipped r1 + 1\<rparr>, x1), None))"
    unfolding skipEvent_def Let_def prod.case l c by (simp split: option.split)
  then show ?thesis using assms(4) commit_batch [OF assms(1-3) a c] by (cases e1) auto
qed

lemma apply_each_at:
  "at c x \<Longrightarrow> own_runner r \<Longrightarrow> batch c (cp_Position cp) es x \<Longrightarrow> apply_each S seg es cp st (r, x) = ((r', x'), err) \<Longrightarrow>
   own_runner r' \<and> (if err = None then at (if es = [] then c else GlobalPosition (last es)) x' \<and> log_grows x x' else settled x')"
proof (induction es arbitrary: c r x)
  case (Cons e es)
  note b = batch_Cons [OF Cons.prems(3)]
  let ?cp = "cp\<lparr>cp_Position := GlobalPosition e\<rparr>" and ?st = "st\<lparr>st_Position := GlobalPosition e\<rparr>"
  have p: "r_p r = p" using Cons.prems(2) by (simp add: own_runner_def)
  have rest: "own_runner r' \<and> (if err = None then at (if e # es = [] then c else GlobalPosition (last (e # es))) x' \<and> log_grows x x' else settled x')"
    if "at (GlobalPosition e) x1" "log_grows x x1" "own_runner r1" "apply_each S seg es cp st (r1, x1) = ((r', x'), err)" for r1 x1
    using Cons.IH [OF that(1,3) batch_grows [OF b(2) that(2)] that(4)] log_grows_trans [OF that(2)] by auto
  show ?case
  proof (cases "o_ctxErr S x")
    case (Some ce)
    then show ?thesis using Cons.prems at_settled by auto
  next
    case None
    have b1: "batch c (cp_Position ?cp) [e] x" using b(1) by simp
    show ?thesis
    proof (cases "StreamID e \<in> ss_parked (seg_state r seg)")
      case True
      obtain r1 x1 e1 where k: "skipEvent S seg e (Sentinel ErrStreamParked) ?cp ?st (r, x) = ((r1, x1), e1)" by (rule rx_cases)
      note sk = skipEvent_at [OF Cons.prems(1,2) b1 k]
      show ?thesis
      proof (cases e1)
        case e1: None
        then show ?thesis using sk Cons.prems(4) None True k by (intro rest [of x1 r1]) (simp_all add: Let_def)
      next
        case (Some a)
        then show ?thesis using sk Cons.prems(4) None True k at_settled by (auto simp: Let_def)
      qed
    next
      case np: False
      obtain r1 x1 e1 where k: "commit S seg ?cp ?st (handle S (r_p r) (cp_ReplayUntil cp) e) (r, x) = ((r1, x1), e1)" by (rule rx_cases)
      note cm = commit_batch [OF Cons.prems(1,2) b1 applies_handle k [unfolded p]]
      show ?thesis
      proof (cases e1)
        case e1: None
        then show ?thesis using cm Cons.prems(4) None np k by (intro rest [of x1 r1]) (simp_all add: Let_def)
      next
        case e1: (Some a)
        have x1: "at c x1" "own_runner r1" "frame x x1" using cm e1 by simp_all
        show ?thesis
        proof (cases "o_ctxErr S x1 = None \<and> As_handler a \<noteq> None \<and> shouldSkip (r_p r1) (st_Phase st) (GlobalPosition e \<le> cp_ReplayUntil cp)")
          case False
          then have "\<exists>e'. apply_each S seg (e # es) cp st (r, x) = ((r1, x1), Some e')"
            by (cases "o_ctxErr S x1"; cases "As_handler a") (auto simp: Let_def None np k e1)
          then show ?thesis using Cons.prems(4) x1 at_settled by auto
        next
          case True
          then obtain h where h: "As_handler a = Some h" by auto
          obtain r2 x2 e2 where k2: "skipEvent S seg e h ?cp ?st (r1, x1) = ((r2, x2), e2)" by (rule rx_cases)
          have lg: "log_grows x x1" using x1(3) by (simp add: frame_def)
          note sk = skipEvent_at [OF x1(1,2) batch_grows [OF b1 lg] k2]
          show ?thesis
          proof (cases e2)
            case e2: None
            then have "own_runner (park seg (StreamID e) r2)" using sk own_set_parked(2) by simp
            then show ?thesis using sk Cons.prems(4) None np k e1 True h k2 e2 log_grows_trans [OF lg]
              by (intro rest [of x2 "park seg (StreamID e) r2"]) (simp_all add: Let_def)
          next
            case (Some b)
            then show ?thesis using sk Cons.prems(4) None np k e1 True h k2 at_settled by (auto simp: Let_def)
          qed
        qed
      qed
    qed
  qed
qed simp

lemma batch_last:
  assumes "batch c c' es x" "es \<noteq> []"
  shows "GlobalPosition (last es) \<le> c' \<and> batch (GlobalPosition (last es)) c' [] x"
  using assms
proof (induction es arbitrary: c)
  case (Cons e es)
  note b = batch_Cons [OF Cons.prems(1)]
  show ?case
  proof (cases "es = []")
    case True
    then show ?thesis using b by simp
  next
    case False
    then show ?thesis using Cons.IH [OF b(2) False] by simp
  qed
qed simp

lemma applyOneByOne_at:
  assumes "at c x" "own_runner r" "batch c (cp_Position cp) es x" "es \<noteq> []" "applyOneByOne S seg es cp st (r, x) = ((r', x'), err)"
  shows "own_runner r' \<and> (if err = None then at (cp_Position cp) x' \<and> log_grows x x' else settled x')"
proof -
  obtain r1 x1 e1 where k: "apply_each S seg es cp st (r, x) = ((r1, x1), e1)" by (rule rx_cases)
  note ae = apply_each_at [OF assms(1-3) k]
  show ?thesis
  proof (cases e1)
    case e1: None
    have x1: "at (GlobalPosition (last es)) x1" "own_runner r1" "log_grows x x1" using ae e1 assms(4) by simp_all
    note bl = batch_last [OF batch_grows [OF assms(3) x1(3)] assms(4)]
    show ?thesis
    proof (cases "cp_Position cp > GlobalPosition (last es)")
      case True
      obtain r2 x2 e2 where k2: "commit S seg cp st (\<lambda>x. (x, None)) (r1, x1) = ((r2, x2), e2)" by (rule rx_cases)
      note cm = commit_batch [OF x1(1,2) _ applies_none k2] 
      then show ?thesis using bl assms(5) k e1 True k2 at_settled log_grows_trans [OF x1(3)]
        by (cases e2) (auto simp: applyOneByOne_def)
    next
      case False
      then have "cp_Position cp = GlobalPosition (last es)" using bl by simp
      then show ?thesis using assms(5) k e1 x1 by (auto simp: applyOneByOne_def)
    qed
  next
    case (Some a)
    then show ?thesis using ae assms(5) k by (auto simp: applyOneByOne_def)
  qed
qed

lemma applyBatch_at:
  assumes "at c x" "own_runner r" "batch c (cp_Position cp) es x" "es \<noteq> []" "applyBatch S seg es cp st (r, x) = ((r', x'), err)"
  shows "own_runner r' \<and> (if err = None then at (cp_Position cp) x' \<and> log_grows x x' else settled x')"
proof (cases "list_ex (\<lambda>env. StreamID env \<in> ss_parked (seg_state r seg)) es")
  case True
  then have "applyOneByOne S seg es cp st (r, x) = ((r', x'), err)" using assms(5) by (simp add: applyBatch_def)
  then show ?thesis by (rule applyOneByOne_at [OF assms(1-4)])
next
  case False
  obtain r1 x1 e1 where k: "commit S seg cp st (handle_all S (r_p r) (cp_ReplayUntil cp) es) (r, x) = ((r1, x1), e1)" by (rule rx_cases)
  have p: "r_p r = p" using assms(2) by (simp add: own_runner_def)
  note cm = commit_batch [OF assms(1-3) applies_handle_all k [unfolded p]]
  show ?thesis
  proof (cases e1)
    case None
    then show ?thesis using cm assms(5) k False by (auto simp: applyBatch_def)
  next
    case (Some a)
    then have x1: "own_runner r1" "at c x1" "frame x x1" using cm by simp_all
    show ?thesis
    proof (cases "As_handler a = None")
      case True
      then show ?thesis using assms(5) k False Some x1 at_settled by (auto simp: applyBatch_def)
    next
      case h: False
      have lg: "log_grows x x1" using x1(3) by (simp add: frame_def)
      have "applyOneByOne S seg es cp st (r1, x1) = ((r', x'), err)" using assms(5) k False Some h by (simp add: applyBatch_def)
      from applyOneByOne_at [OF x1(2,1) batch_grows [OF assms(3) lg] assms(4) this] show ?thesis
        using log_grows_trans [OF lg] by auto
    qed
  qed
qed

text \<open>A replay delivers the event of a dead letter before it deletes the letter, and leaves the checkpoint.\<close>

lemma applies_replay:
  assumes "GlobalPosition env = pos"
  shows "applies [] (\<lambda>x. case handle S p ru env x of (x, Some err) \<Rightarrow> (x, Some err) | (x, None) \<Rightarrow> o_DeleteDeadLetter S l pos x)"
proof -
  have "frame y (fst (case handle S p ru env y of (x, Some err) \<Rightarrow> (x, Some err) | (x, None) \<Rightarrow> o_DeleteDeadLetter S l pos x))" if "wf y" for y
  proof -
    obtain y1 e1 where h: "handle S p ru env y = (y1, e1)" by fastforce
    note h1 = handled [OF that h]
    obtain y2 e2 where d: "o_DeleteDeadLetter S l pos y1 = (y2, e2)" by fastforce
    show ?thesis
    proof (cases e1)
      case None
      have "frame y1 y2" using h1 None assms by (intro delete_letter [OF frame_wf d]) auto
      then show ?thesis using h None d h1 frame_trans by auto
    next
      case (Some a)
      then show ?thesis using h h1 by simp
    qed
  qed
  then show ?thesis by (simp add: applies_def)
qed

lemma batch_none: "batch c c [] x"
  by (simp add: batch_def)

lemma replay_letters_at:
  "at (cp_Position cp) x \<Longrightarrow> own_runner r \<Longrightarrow> replay_letters S seg cp streamID seen ds (r, x) = ((r', x'), err) \<Longrightarrow>
   own_runner r' \<and> at (cp_Position cp) x'"
proof (induction ds arbitrary: seen r x)
  case (Cons d ds)
  show ?case
  proof (cases "dl_StreamID d \<noteq> streamID \<or> dl_Position d \<in> seen")
    case True
    then show ?thesis using Cons.IH [OF Cons.prems(1,2)] Cons.prems(3) by simp
  next
    case False
    obtain x1 res where rd: "o_ReadAll S (uint64_pred (dl_Position d)) \<lparr>ro_Limit = 1, ro_EventTypes = [], ro_StreamPrefixes = []\<rparr> x = (x1, res)" by fastforce
    have "wf x" using Cons.prems(1) by (simp add: at_def)
    from read_frame [OF this, of "uint64_pred (dl_Position d)" "\<lparr>ro_Limit = 1, ro_EventTypes = [], ro_StreamPrefixes = []\<rparr>"]
    have x1: "at (cp_Position cp) x1" using at_frame [OF Cons.prems(1)] rd by simp
    show ?thesis
    proof (cases "\<exists>pg env. res = Inr pg \<and> rr_Events pg = [env] \<and> GlobalPosition env = dl_Position d")
      case nr: False
      then have "\<exists>e. replay_letters S seg cp streamID seen (d # ds) (r, x) = ((r, x1), Some e)"
        using False rd by (auto split: sum.splits list.splits)
      then show ?thesis using Cons.prems x1 by auto
    next
      case True
      then obtain pg env where pg: "res = Inr pg" "rr_Events pg = [env]" "GlobalPosition env = dl_Position d" by blast
      let ?fn = "\<lambda>x. case handle S (r_p r) (cp_ReplayUntil cp) env x of (x, Some err) \<Rightarrow> (x, Some err)
          | (x, None) \<Rightarrow> o_DeleteDeadLetter S (lease_of r seg) (dl_Position d) x"
      obtain r2 x2 e2 where k: "commit S seg cp (ss_status (seg_state r seg)) ?fn (r, x1) = ((r2, x2), e2)" by (rule rx_cases)
      have pl: "r_p r = p" "lease_of r seg = l" using Cons.prems(2) by (simp_all add: own_runner_def)
      note cm = commit_batch [OF x1 Cons.prems(2) batch_none applies_replay [OF pg(3)] k [unfolded pl]]
      show ?thesis using cm Cons.prems(3) False rd pg k Cons.IH [of x2 r2 "insert (dl_Position d) seen"]
        by (cases e2) auto
    qed
  qed
qed simp

lemma replayStream_at:
  assumes "at (cp_Position cp) x" "own_runner r" "replayStream S seg cp streamID (r, x) = ((r', x'), err)"
  shows "own_runner r' \<and> at (cp_Position cp) x'"
proof -
  obtain x1 res where ld: "o_LoadDeadLetters S (d_Name (r_p r)) seg x = (x1, res)" by fastforce
  have "wf x" using assms(1) by (simp add: at_def)
  from letters_frame [OF this, of "d_Name (r_p r)"] have x1: "at (cp_Position cp) x1" using at_frame [OF assms(1)] ld by simp
  show ?thesis
  proof (cases res)
    case (Inl e)
    then show ?thesis using assms ld x1 by (auto simp: replayStream_def)
  next
    case (Inr ls)
    obtain r2 x2 e2 where k: "replay_letters S seg cp streamID {} ls (r, x1) = ((r2, x2), e2)" by (rule rx_cases)
    note rl = replay_letters_at [OF x1 assms(2) k]
    then show ?thesis using assms(3) ld Inr k own_set_parked(1) by (cases e2) (auto simp: replayStream_def)
  qed
qed

lemma serve_each_at:
  "at (cp_Position cp) x \<Longrightarrow> own_runner r \<Longrightarrow> serve_each S seg cp reqs (r, x) = ((r', x'), err) \<Longrightarrow> own_runner r' \<and> at (cp_Position cp) x'"
proof (induction reqs arbitrary: r x)
  case (Cons rp rps)
  obtain r1 x1 e1 where k: "replayStream S seg cp (rq_StreamID rp) (r, x) = ((r1, x1), e1)" by (rule rx_cases)
  note rs = replayStream_at [OF Cons.prems(1,2) k]
  define r2 where "r2 = (case e1 of None \<Rightarrow> r1 | Some e \<Rightarrow> if r_replayWaiters r1 > 0
      then r1\<lparr>r_replayErrs := (r_replayErrs r1)(rq_Number rp := r_replayErrs r1 (rq_Number rp) @ [e])\<rparr> else r1)"
  have r2: "own_runner r2" using rs by (simp add: r2_def split: option.split)
  define msg where "msg = (case e1 of None \<Rightarrow> [] | Some e \<Rightarrow> o_text S e)"
  obtain x3 e3 where f: "o_FinishReplay S l (rq_Number rp) msg x1 = (x3, e3)" by fastforce
  have l: "lease_of r2 seg = l" using r2 by (simp add: own_runner_def)
  have "wf x1" using rs by (simp add: at_def)
  from finish_frame [OF this, of "rq_Number rp" msg] have x3: "at (cp_Position cp) x3"
    using at_frame [of "cp_Position cp" x1 x3] rs f by simp
  have "serve_each S seg cp (rp # rps) (r, x) =
      (case o_ctxErr S x1 of Some e \<Rightarrow> ((r1, x1), Some e)
       | None \<Rightarrow> if (case e1 of None \<Rightarrow> False | Some e \<Rightarrow> errors_Is e ErrClaimLost) then ((r1, x1), e1)
           else if (case e3 of None \<Rightarrow> False | Some e \<Rightarrow> errors_Is e ErrClaimLost) then ((r2, x3), e3)
           else serve_each S seg cp rps (r2\<lparr>r_replayed := r_replayed r2 + 1\<rparr>, x3))"
    unfolding serve_each.simps k prod.case Let_def r2_def [symmetric] msg_def [symmetric] l f by (rule refl)
  then show ?case using Cons.prems(3) rs r2 x3 Cons.IH [of x3 "r2\<lparr>r_replayed := r_replayed r2 + 1\<rparr>"]
    by (auto split: option.splits if_splits)
qed simp

lemma serveReplays_at:
  assumes "at (cp_Position cp) x" "own_runner r" "serveReplays S seg cp (r, x) = ((r', x'), err)"
  shows "own_runner r' \<and> at (cp_Position cp) x'"
proof -
  obtain r1 reqs where tk: "takeReplays seg r = (r1, reqs)" by fastforce
  have r1: "own_runner r1" using own_other(9) [of seg r] assms(2) tk by simp
  obtain r2 x2 e2 where k: "serve_each S seg cp reqs (r1, x) = ((r2, x2), e2)" by (rule rx_cases)
  note serve_each_at [OF assms(1) r1 k]
  then show ?thesis using assms tk r1 k by (auto simp: serveReplays_def split: if_splits)
qed

lemma rebuildDue_at:
  assumes "at c x" "own_runner r" "d_Reset p = None" "rebuildDue S lastAsked (r, x) = ((r', x'), last', res)"
  shows "own_runner r' \<and> at c x' \<and> (\<forall>n. res = Inr n \<longrightarrow> n = 0)"
proof -
  obtain x1 out where rb: "o_Rebuilds S (d_Name (r_p r)) x = (x1, out)" by fastforce
  have "wf x" using assms(1) by (simp add: at_def)
  from rebuilds_frame [OF this, of "d_Name (r_p r)"] have x1: "at c x1" using at_frame [OF assms(1)] rb by simp
  have "d_Reset (r_p r) = None" using assms(2,3) by (simp add: own_runner_def)
  then show ?thesis using assms(1,2,4) x1 rb by (auto simp: rebuildDue_def Let_def split: if_splits sum.splits prod.splits)
qed

lemma between_batches_at:
  assumes "at (cp_Position cp) x" "own_runner r" "d_Reset p = None" "between_batches S seg lastAsked cp (r, x) = ((r', x'), last', res)"
  shows "own_runner r' \<and> at (cp_Position cp) x' \<and> (\<forall>cp'. res = Inr cp' \<longrightarrow> cp' = cp)"
proof -
  obtain r1 x1 last1 res1 where due: "(if seg = 0 then
            (case rebuildDue S lastAsked (r, x) of
               (rx, lastAsked, Inl err) \<Rightarrow> (rx, lastAsked, Inl err)
             | (rx, lastAsked, Inr requested) \<Rightarrow>
                 if requested > 0 then (case rebuild_tried S seg requested rx of (rx, out) \<Rightarrow> (rx, lastAsked, out))
                 else (rx, lastAsked, Inr cp))
            else ((r, x), lastAsked, Inr cp)) = ((r1, x1), last1, res1)" by (rule rx3_cases)
  have d: "own_runner r1 \<and> at (cp_Position cp) x1 \<and> (\<forall>cp'. res1 = Inr cp' \<longrightarrow> cp' = cp)"
  proof (cases "seg = 0")
    case True
    obtain r2 x2 last2 res2 where rd: "rebuildDue S lastAsked (r, x) = ((r2, x2), last2, res2)" by (rule rx3_cases)
    note rebuildDue_at [OF assms(1-3) rd]
    then show ?thesis using due True rd by (cases res2) auto
  next
    case False
    then show ?thesis using due assms(1,2) by auto
  qed
  obtain r3 x3 e3 where sv: "serveReplays S seg cp (r1, x1) = ((r3, x3), e3)" by (rule rx_cases)
  have s: "own_runner r3 \<and> at (cp_Position cp) x3" using serveReplays_at [OF _ _ sv] d by blast
  have "between_batches S seg lastAsked cp (r, x) =
      (if shouldShed r seg then ((r, x), lastAsked, Inl (Sentinel ErrShed))
       else (case res1 of Inl err \<Rightarrow> ((r1, x1), last1, Inl err)
         | Inr cp' \<Rightarrow> (case serveReplays S seg cp' (r1, x1) of (rx, Some err) \<Rightarrow> (rx, last1, Inl err) | (rx, None) \<Rightarrow> (rx, last1, Inr cp'))))"
    unfolding between_batches_def prod.case Let_def due by (rule refl)
  then show ?thesis using assms d s sv by (cases res1; cases e3) (auto split: if_splits)
qed

lemma own_events:
  assumes "own_runner r"
  shows "(if r_segments r > 1 then ownEvents r seg es else es) = page_own p n seg es" "readOptions r = page_opts p"
  using assms by (simp_all add: own_runner_def ownEvents_def page_own_def readOptions_def page_opts_def)

text \<open>Bringing in a page that was read at \<open>x\<close>, of which the segment's events are \<open>es\<close>, up to \<open>nxt\<close>.\<close>

definition page_outcome :: "('e, 'v, 'x) runner \<Rightarrow> 'x \<Rightarrow> checkpoint \<Rightarrow> uint64 \<Rightarrow> uint64 \<Rightarrow> bool \<Rightarrow> ('e, 'v) envelope list
    \<Rightarrow> ('e, 'v, 'x) rx \<times> (go_error + checkpoint \<times> bool)" where
  "page_outcome r x cp nxt head atEnd events =
     (let newCP = batch_checkpoint r cp nxt; st = batch_status r seg atEnd nxt head
      in if events \<noteq> [] then
           (case applyBatch S seg events newCP st (r, x) of
              (rx, Some err) \<Rightarrow> (rx, Inl err)
            | (rx, None) \<Rightarrow> (rx, Inr (newCP, atEnd)))
         else if nxt > cp_Position cp then
           (case commit S seg newCP st (\<lambda>x. (x, None)) (r, x) of
              (rx, Some err) \<Rightarrow> (rx, Inl err)
            | (rx, None) \<Rightarrow> (rx, Inr (newCP, atEnd)))
         else
           (case o_SaveStatus S (lease_of r seg) st x of
              (x, err) \<Rightarrow>
                if (case err of None \<Rightarrow> False | Some e \<Rightarrow> errors_Is e ErrClaimLost) then ((r, x), Inl (the err))
                else ((setStatus seg (lease_of r seg) st r, x), Inr (cp, atEnd))))"

lemma page_outcome_at:
  assumes "at (cp_Position cp) x" "own_runner r" "batch (cp_Position cp) nxt es x" "page_outcome r x cp nxt head atEnd es = ((r', x'), res)"
  shows "own_runner r' \<and> (case res of Inl err \<Rightarrow> settled x' | Inr (cp', _) \<Rightarrow> at (cp_Position cp') x' \<and> cp_Position cp' = nxt)"
proof -
  let ?cp = "batch_checkpoint r cp nxt" and ?st = "batch_status r seg atEnd nxt head"
  have b: "batch (cp_Position cp) (cp_Position ?cp) es x" using assms(3) by (simp add: batch_checkpoint_def)
  have pos: "cp_Position ?cp = nxt" by (simp add: batch_checkpoint_def)
  consider "es \<noteq> []" | "es = []" "nxt > cp_Position cp" | "es = []" "\<not> nxt > cp_Position cp" by blast
  then show ?thesis
  proof cases
    case 1
    obtain r1 x1 e1 where k: "applyBatch S seg es ?cp ?st (r, x) = ((r1, x1), e1)" by (rule rx_cases)
    note ab = applyBatch_at [OF assms(1,2) b 1 k]
    then show ?thesis using assms(4) 1 k pos by (cases e1) (auto simp: page_outcome_def Let_def)
  next
    case 2
    obtain r1 x1 e1 where k: "commit S seg ?cp ?st (\<lambda>x. (x, None)) (r, x) = ((r1, x1), e1)" by (rule rx_cases)
    note cm = commit_batch [OF assms(1,2) b [unfolded 2(1)] applies_none k]
    then show ?thesis using assms(4) 2 k pos at_settled by (cases e1) (auto simp: page_outcome_def Let_def)
  next
    case 3
    then have nxt: "nxt = cp_Position cp" using assms(3) by (simp add: batch_def)
    have l: "lease_of r seg = l" using assms(2) by (simp add: own_runner_def)
    obtain x1 e1 where k: "o_SaveStatus S l ?st x = (x1, e1)" by fastforce
    have "wf x" using assms(1) by (simp add: at_def)
    from status_frame [OF this, of ?st] have x1: "at (cp_Position cp) x1" using at_frame [OF assms(1)] k by simp
    then show ?thesis using assms(2,4) 3 k l nxt own_setStatus [OF assms(2)] at_settled
      by (auto simp: page_outcome_def Let_def split: if_splits)
  qed
qed

lemma read_batch_at:
  assumes "at (cp_Position cp) x" "own_runner r" "read_batch S seg cp (r, x) = ((r', x'), res)"
  shows "own_runner r' \<and> (case res of Inl err \<Rightarrow> settled x' | Inr (cp', _) \<Rightarrow> at (cp_Position cp') x' \<and> cp_Position cp \<le> cp_Position cp')"
proof -
  have wf: "wf x" using assms(1) by (simp add: at_def)
  obtain x1 pg where rd: "o_ReadAll S (cp_Position cp) (page_opts p) x = (x1, pg)" by fastforce
  have x1: "at (cp_Position cp) x1" using read_frame [OF wf, of "cp_Position cp" "page_opts p"] at_frame [OF assms(1)] rd by simp
  note opts = own_events(2) [OF assms(2)] and own = own_events(1) [OF assms(2)]
  show ?thesis
  proof (cases pg)
    case (Inl e)
    then show ?thesis using assms(2,3) rd x1 at_settled by (auto simp: read_batch_def opts)
  next
    case (Inr pr)
    let ?nxt = "max (rr_Next pr) (cp_Position cp)" and ?es = "page_own p n seg (rr_Events pr)"
    have pg1: "sorted_wrt (<) (map GlobalPosition ?es)" "GlobalPosition ` set ?es = owns x1 \<inter> {cp_Position cp<..rr_Next pr}"
      "rr_Next pr \<le> max (cp_Position cp) (tip x1)"
      using page [OF wf rd [unfolded Inr]] by auto
    have "owns x1 \<inter> {cp_Position cp<..?nxt} = owns x1 \<inter> {cp_Position cp<..rr_Next pr}" by (auto simp: max_def)
    then have b: "batch (cp_Position cp) ?nxt ?es x1" using pg1 by (auto simp: batch_def)
    obtain x2 hd where hd: "(if rr_AtEnd pr then (x1, Inr ?nxt)
        else (case o_Head S x1 of (x, Inl err) \<Rightarrow> (x, Inl (Errorf ''read head'' [err])) | (x, Inr h) \<Rightarrow> (x, Inr (max h ?nxt)))) = (x2, hd)" by fastforce
    have wf1: "wf x1" using x1 by (simp add: at_def)
    have f2: "frame x1 x2" using hd head_frame [OF wf1] wf1 by (auto split: if_splits prod.splits sum.splits)
    have x2: "at (cp_Position cp) x2" by (rule at_frame [OF x1 f2])
    have lg: "log_grows x1 x2" using f2 by (simp add: frame_def)
    have eq: "read_batch S seg cp (r, x) = (case hd of Inl err \<Rightarrow> ((r, x2), Inl err)
        | Inr head \<Rightarrow> page_outcome r x2 cp ?nxt head (rr_AtEnd pr) ?es)"
      unfolding read_batch_def prod.case opts rd Inr sum.case Let_def hd own page_outcome_def by (rule refl)
    show ?thesis
    proof (cases hd)
      case (Inl e)
      then show ?thesis using assms(2,3) eq x2 at_settled by auto
    next
      case (Inr head)
      then have "page_outcome r x2 cp ?nxt head (rr_AtEnd pr) ?es = ((r', x'), res)" using assms(3) eq by simp
      from page_outcome_at [OF x2 assms(2) batch_grows [OF b lg] this] show ?thesis by (auto split: sum.splits)
    qed
  qed
qed

lemma work_turn_at:
  assumes "at (cp_Position cp) x" "own_runner r" "d_Reset p = None" "work_turn S seg lastAsked cp (r, x) = ((r', x'), last', res)"
  shows "own_runner r' \<and> (case res of Inl err \<Rightarrow> settled x' | Inr cp' \<Rightarrow> at (cp_Position cp') x' \<and> cp_Position cp \<le> cp_Position cp')"
proof (cases "o_ctxErr S x")
  case (Some e)
  then show ?thesis using assms at_settled by (auto simp: work_turn_def)
next
  case None
  obtain r1 x1 last1 res1 where bb: "between_batches S seg lastAsked cp (r, x) = ((r1, x1), last1, res1)" by (rule rx3_cases)
  note b = between_batches_at [OF assms(1-3) bb]
  show ?thesis
  proof (cases res1)
    case (Inl e)
    then show ?thesis using assms(4) None bb b at_settled by (auto simp: work_turn_def)
  next
    case (Inr cp1)
    then have cp1: "cp1 = cp" using b by simp
    obtain r2 x2 res2 where rb: "read_batch S seg cp (r1, x1) = ((r2, x2), res2)" by (rule rx_cases)
    have r: "own_runner r2 \<and> (case res2 of Inl err \<Rightarrow> settled x2 | Inr (cp', _) \<Rightarrow> at (cp_Position cp') x2 \<and> cp_Position cp \<le> cp_Position cp')"
      using read_batch_at [OF _ _ rb] b by blast
    show ?thesis
    proof (cases res2)
      case (Inl e)
      then show ?thesis using assms(4) None bb \<open>res1 = Inr cp1\<close> cp1 rb r by (auto simp: work_turn_def)
    next
      case (Inr ca)
      obtain cp2 atEnd where ca: "ca = (cp2, atEnd)" by fastforce
      define r3 where "r3 = (if atEnd \<and> ss_rebuilding (seg_state r2 seg) then upd_seg seg (\<lambda>g. g\<lparr>ss_rebuilding := False\<rparr>) r2 else r2)"
      have r3: "own_runner r3" using r by (auto simp: r3_def intro: own_upd)
      have x2: "at (cp_Position cp2) x2" "cp_Position cp \<le> cp_Position cp2" using r Inr ca by auto
      obtain r4 x4 ok where wl: "waitLive S seg (r3, x2) = ((r4, x4), ok)" by (rule rx_cases)
      have r4: "own_runner r4" using r3 wl by (auto simp: waitLive_def Let_def intro: own_upd)
      have "wf x2" using x2 by (simp add: at_def)
      then have "frame x2 x4" using wl sleep_frame by (auto simp: waitLive_def Let_def)
      then have x4: "at (cp_Position cp2) x4" by (rule at_frame [OF x2(1)])
      have "work_turn S seg lastAsked cp (r, x) = (if \<not> atEnd then ((r3, x2), last1, Inr cp2)
          else (case ok of True \<Rightarrow> ((r4, x4), last1, Inr cp2) | False \<Rightarrow> ((r4, x4), last1, Inl (the (o_ctxErr S x4)))))"
        unfolding work_turn_def prod.case None option.case bb \<open>res1 = Inr cp1\<close> sum.case cp1 rb Inr ca Let_def r3_def [symmetric] wl
        by (rule refl)
      then show ?thesis using assms(4) r3 r4 x2 x4 at_settled by (auto split: if_splits bool.splits)
    qed
  qed
qed

lemma work_loop_settled:
  "at (cp_Position cp) x \<Longrightarrow> own_runner r \<Longrightarrow> d_Reset p = None \<Longrightarrow> work_loop fuel S seg lastAsked cp (r, x) = Some ((r', x'), err) \<Longrightarrow>
   own_runner r' \<and> settled x'"
proof (induction fuel arbitrary: lastAsked cp r x)
  case (Suc fuel)
  obtain r1 x1 last1 res1 where wt: "work_turn S seg lastAsked cp (r, x) = ((r1, x1), last1, res1)" by (rule rx3_cases)
  note w = work_turn_at [OF Suc.prems(1-3) wt]
  show ?case
  proof (cases res1)
    case (Inl e)
    then show ?thesis using Suc.prems(4) wt w by auto
  next
    case (Inr cp1)
    then show ?thesis using Suc.prems(3,4) wt w Suc.IH [of cp1 x1 r1 last1] by auto
  qed
qed simp

end

end
