(* ===== verification/Proj_Store_Inv.thy ===== *)
theory Proj_Store_Inv
  imports Proj_Store
begin

text \<open>
  The steps of the in-memory projection store and what they keep: the rows and their claims, which make
  the store an instance of \<open>fencing\<close>, and \<open>pstore_inv\<close>: a declared projection has exactly its
  segments, dead letters are in order of position, rebuild requests are counted before they are done,
  replay requests are numbered in ascending order, and each instance is listed once.
\<close>

section \<open>Rows\<close>

definition rowk :: "projection_store \<Rightarrow> string \<times> nat \<Rightarrow> memory_row option" where
  "rowk s k = (case ps_projections s (fst k) of None \<Rightarrow> None | Some p \<Rightarrow> mp_rows p (snd k))"

definition seg_holder :: "projection_store \<Rightarrow> string \<times> nat \<Rightarrow> string" where
  "seg_holder s k = (case rowk s k of None \<Rightarrow> [] | Some r \<Rightarrow> mr_owner r)"

definition seg_epoch :: "projection_store \<Rightarrow> string \<times> nat \<Rightarrow> uint64" where
  "seg_epoch s k = (case rowk s k of None \<Rightarrow> 0 | Some r \<Rightarrow> mr_epoch r)"

definition lease_key :: "lease \<Rightarrow> string \<times> nat" where
  "lease_key l = (l_Name l, l_Segment l)"

abbreviation current_lease :: "projection_store \<Rightarrow> lease \<Rightarrow> bool" where
  "current_lease s l \<equiv> current_claim seg_holder seg_epoch s (lease_key l) (l_Owner l) (l_Epoch l)"

lemma row_rowk: "row s l = rowk s (lease_key l)"
  by (simp add: row_def rowk_def lease_key_def split: option.split)

lemma owned_current: "owned s l \<noteq> None \<longleftrightarrow> current_lease s l"
  by (auto simp: owned_def row_rowk current_claim_def seg_holder_def seg_epoch_def split: option.splits)

lemma owned_SomeD: "owned s l = Some r \<Longrightarrow> rowk s (lease_key l) = Some r \<and> mr_owner r = l_Owner l
    \<and> mr_epoch r = l_Epoch l \<and> l_Owner l \<noteq> []"
  by (auto simp: owned_def row_rowk split: option.splits if_splits)

lemma rowk_put_row:
  "rowk s (lease_key l) = Some r0 \<Longrightarrow> rowk (put_row s l r) k = (if k = lease_key l then Some r else rowk s k)"
  by (cases k) (auto simp: rowk_def put_row_def lease_key_def split: option.splits)

lemma rowk_put_projection:
  "rowk (put_projection s name p) k = (if fst k = name then mp_rows p (snd k) else rowk s k)"
  by (simp add: rowk_def put_projection_def)

lemma rowk_other [simp]:
  "rowk (s\<lparr>ps_replays := n\<rparr>) k = rowk s k" "rowk (s\<lparr>ps_instances := i\<rparr>) k = rowk s k"
  by (simp_all add: rowk_def)

section \<open>Steps\<close>

text \<open>One critical section of the store, by whichever instance.\<close>

inductive pstep :: "projection_store \<Rightarrow> projection_store \<Rightarrow> bool" where
  declared: "pstep s (fst (Declare s name segments replayUntil))"
| claim: "pstep s (fst (Claim now s l ttl))"
| commit: "pstep s (fst (commit_store now s l cp st))"
| reset: "pstep s (fst (reset_store now s l newVersion))"
| release: "pstep s (Release s l)"
| status: "pstep s (fst (SaveStatus now s l st))"
| request_rebuild: "pstep s (fst (RequestRebuild s name))"
| fail_rebuild: "pstep s (fst (FailRebuild s l requested errMsg))"
| save_dead: "pstep s (fst (SaveDeadLetter s l d))"
| delete_dead: "pstep s (fst (DeleteDeadLetter s l position))"
| heartbeat: "pstep s (fst (Heartbeat now s name who version ttl))"
| request_replay: "pstep s (fst (RequestReplay s name streamID))"
| finish_replay: "pstep s (fst (FinishReplay s l number errMsg))"

inductive_cases pstepE: "pstep s s'"

definition pstore_reachable :: "projection_store \<Rightarrow> bool" where
  "pstore_reachable s \<longleftrightarrow> pstep\<^sup>*\<^sup>* NewProjectionStore s"

text \<open>What a step does to a row: nothing, or it changes the row and keeps its claim, gives the claim up, or
  takes it with the next epoch; a declaration makes new rows.\<close>

definition row_step :: "memory_row option \<Rightarrow> memory_row option \<Rightarrow> bool" where
  "row_step r r' \<longleftrightarrow> (case (r, r') of
      (None, None) \<Rightarrow> True
    | (None, Some b) \<Rightarrow> mr_owner b = [] \<and> mr_epoch b = 0
    | (Some a, Some b) \<Rightarrow> mr_epoch b = mr_epoch a \<and> (mr_owner b = mr_owner a \<or> mr_owner b = []) \<or> mr_epoch b = mr_epoch a + 1
    | (Some a, None) \<Rightarrow> False)"

lemma row_step_refl [simp]: "row_step r r"
  by (simp add: row_step_def split: option.splits)

lemma row_step_put:
  assumes "rowk s (lease_key l) = Some a" "row_step (Some a) (Some b)"
  shows "row_step (rowk s k) (rowk (put_row s l b) k)"
  using assms by (simp add: rowk_put_row)

lemma row_step_keep:
  assumes "mr_owner b = mr_owner a \<or> mr_owner b = []" "mr_epoch b = mr_epoch a"
  shows "row_step (Some a) (Some b)"
  using assms by (simp add: row_step_def)

lemma row_step_declare: "row_step (rowk s k) (rowk (fst (Declare s name segments replayUntil)) k)"
  by (cases k) (auto simp: Declare_def rowk_def row_step_def new_row_def split: option.splits)

lemma row_step_claim: "row_step (rowk s k) (rowk (fst (Claim now s l ttl)) k)"
proof (cases "rowk s (lease_key l)")
  case None
  then show ?thesis by (simp add: Claim_def row_rowk)
next
  case (Some a)
  show ?thesis
  proof (cases "owned s l")
    case None
    with Some show ?thesis
      by (auto simp: Claim_def row_rowk Let_def intro!: row_step_put [OF Some]) (simp_all add: row_step_def)
  next
    case (Some r)
    from owned_SomeD [OF this] Some \<open>rowk s (lease_key l) = Some a\<close> show ?thesis
      by (auto simp: Claim_def row_rowk Let_def intro!: row_step_put row_step_keep)
  qed
qed

lemma owned_projection: "owned s l = Some r \<Longrightarrow> \<exists>p. ps_projections s (l_Name l) = Some p \<and> mp_rows p (l_Segment l) = Some r"
  by (auto simp: owned_def row_def split: option.splits if_splits)

lemma rowk_reset:
  "rowk (fst (reset_store now s l newVersion)) k =
     (if owned s l \<noteq> None \<and> fst k = l_Name l then map_option (reset_row now l newVersion (snd k)) (rowk s k) else rowk s k)"
  by (auto simp: reset_store_def rowk_put_projection rowk_def put_projection_def split: option.splits dest: owned_projection)

lemma row_step_reset: "row_step (rowk s k) (rowk (fst (reset_store now s l newVersion)) k)"
proof -
  have "row_step (Some r) (Some (reset_row now l newVersion seg r))" for r seg
    by (rule row_step_keep) (auto simp: reset_row_def Let_def)
  then show ?thesis by (cases "rowk s k") (simp_all add: rowk_reset)
qed

lemma row_step_fenced:
  "row_step (rowk s k) (rowk (fst (commit_store now s l cp st)) k)"
  "row_step (rowk s k) (rowk (Release s l) k)"
  "row_step (rowk s k) (rowk (fst (SaveStatus now s l st)) k)"
  by (auto simp: commit_store_def Release_def SaveStatus_def split: option.splits dest!: owned_SomeD
      intro!: row_step_put row_step_keep)

lemma row_step_dead:
  "row_step (rowk s k) (rowk (fst (SaveDeadLetter s l d)) k)"
  "row_step (rowk s k) (rowk (fst (DeleteDeadLetter s l position)) k)"
  by (auto simp: SaveDeadLetter_def DeleteDeadLetter_def row_rowk split: option.splits intro!: row_step_put row_step_keep)

lemma rowk_same_rows:
  "ps_projections s name = Some p \<Longrightarrow> mp_rows q = mp_rows p \<Longrightarrow> rowk (put_projection s name q) k = rowk s k"
  by (simp add: rowk_put_projection) (simp add: rowk_def)

lemma rowk_rebuild [simp]: "rowk (fst (RequestRebuild s name)) k = rowk s k" "rowk (fst (FailRebuild s l requested errMsg)) k = rowk s k"
  by (simp_all add: RequestRebuild_def FailRebuild_def rowk_same_rows split: option.split)

lemma rowk_replay [simp]: "rowk (fst (RequestReplay s name streamID)) k = rowk s k" "rowk (fst (FinishReplay s l number errMsg)) k = rowk s k"
  by (simp_all add: RequestReplay_def FinishReplay_def rowk_same_rows Let_def split: option.split)

lemma rowk_heartbeat [simp]: "rowk (fst (Heartbeat now s name who version ttl)) k = rowk s k"
  by (simp add: Heartbeat_def Let_def)

lemma pstep_row: "pstep s s' \<Longrightarrow> row_step (rowk s k) (rowk s' k)"
  by (erule pstep.cases)
    (simp_all add: row_step_declare row_step_claim row_step_reset row_step_fenced row_step_dead)

interpretation pfence: fencing pstep seg_holder seg_epoch
proof
  fix s s' :: projection_store and k
  assume "pstep s s'"
  then have r: "row_step (rowk s k) (rowk s' k)" by (rule pstep_row)
  then show "seg_epoch s k \<le> seg_epoch s' k"
    by (auto simp: row_step_def seg_epoch_def split: option.splits)
  assume "seg_epoch s' k = seg_epoch s k"
  with r show "seg_holder s' k = seg_holder s k \<or> seg_holder s' k = []"
    by (auto simp: row_step_def seg_epoch_def seg_holder_def split: option.splits)
qed

section \<open>The invariant\<close>

definition replay_inv :: "nat \<Rightarrow> memory_replay \<Rightarrow> bool" where
  "replay_inv segments q \<longleftrightarrow> sorted_wrt (<) (map fst (rp_segments q)) \<and> fst ` set (rp_segments q) \<subseteq> {..<segments}"

definition row_inv :: "memory_row \<Rightarrow> bool" where
  "row_inv r \<longleftrightarrow> sorted (map dl_Position (mr_deadLetters r))"

definition projection_inv :: "uint64 \<Rightarrow> memory_projection \<Rightarrow> bool" where
  "projection_inv replays p \<longleftrightarrow>
     dom (mp_rows p) = {..<mp_segments p} \<and> (\<forall>r \<in> ran (mp_rows p). row_inv r)
     \<and> mp_rebuildsDone p \<le> mp_rebuildsRequested p
     \<and> sorted_wrt (<) (map fst (mp_replays p)) \<and> (\<forall>(n, q) \<in> set (mp_replays p). n \<le> replays \<and> replay_inv (mp_segments p) q)"

definition pstore_inv :: "projection_store \<Rightarrow> bool" where
  "pstore_inv s \<longleftrightarrow> (\<forall>p \<in> ran (ps_projections s). projection_inv (ps_replays s) p)
     \<and> (\<forall>name. distinct (map fst (ps_instances s name)))"

lemma pstore_inv_init [simp]: "pstore_inv NewProjectionStore"
  by (simp add: pstore_inv_def NewProjectionStore_def)

lemma pstore_inv_projection: "pstore_inv s \<Longrightarrow> ps_projections s name = Some p \<Longrightarrow> projection_inv (ps_replays s) p"
  by (auto simp: pstore_inv_def ran_def)

lemma projection_inv_row: "projection_inv n p \<Longrightarrow> mp_rows p i = Some r \<Longrightarrow> row_inv r"
  by (auto simp: projection_inv_def ran_def)

lemma pstore_inv_rowk: "pstore_inv s \<Longrightarrow> rowk s k = Some r \<Longrightarrow> row_inv r"
  by (auto simp: rowk_def split: option.splits intro: projection_inv_row pstore_inv_projection)

lemma pstore_inv_put_projection:
  "pstore_inv s \<Longrightarrow> projection_inv (ps_replays s) p \<Longrightarrow> pstore_inv (put_projection s name p)"
  by (auto simp: pstore_inv_def put_projection_def ran_def)

lemma projection_inv_mono: "projection_inv n p \<Longrightarrow> n \<le> m \<Longrightarrow> projection_inv m p"
  by (fastforce simp: projection_inv_def)

lemma projection_inv_put_row:
  "projection_inv n p \<Longrightarrow> i < mp_segments p \<Longrightarrow> row_inv r \<Longrightarrow> projection_inv n (p\<lparr>mp_rows := (mp_rows p)(i \<mapsto> r)\<rparr>)"
  by (auto simp: projection_inv_def ran_def)

lemma projection_inv_segment: "projection_inv n p \<Longrightarrow> mp_rows p i = Some r \<Longrightarrow> i < mp_segments p"
  by (auto simp: projection_inv_def dom_def)

lemma put_row_projection:
  "ps_projections s (l_Name l) = Some p \<Longrightarrow>
   put_row s l r = put_projection s (l_Name l) (p\<lparr>mp_rows := (mp_rows p)(l_Segment l \<mapsto> r)\<rparr>)"
  by (simp add: put_row_def put_projection_def)

lemma pstore_inv_put_row:
  assumes "pstore_inv s" "rowk s (lease_key l) = Some r0" "row_inv r"
  shows "pstore_inv (put_row s l r)"
proof -
  obtain p where p: "ps_projections s (l_Name l) = Some p" "mp_rows p (l_Segment l) = Some r0"
    using assms(2) by (auto simp: rowk_def lease_key_def split: option.splits)
  note i = pstore_inv_projection [OF assms(1) p(1)]
  have "l_Segment l < mp_segments p" by (rule projection_inv_segment [OF i p(2)])
  then have "projection_inv (ps_replays s) (p\<lparr>mp_rows := (mp_rows p)(l_Segment l \<mapsto> r)\<rparr>)"
    by (rule projection_inv_put_row [OF i _ assms(3)])
  then show ?thesis by (simp add: put_row_projection [OF p(1)] pstore_inv_put_projection [OF assms(1)])
qed

lemma row_inv_new [simp]: "row_inv (new_row n i)"
  by (simp add: row_inv_def new_row_def)

lemma inv_declare: "pstore_inv s \<Longrightarrow> pstore_inv (fst (Declare s name segments replayUntil))"
  by (auto simp: Declare_def projection_inv_def ran_def dom_def put_projection_def [symmetric] split: option.splits if_splits
      intro!: pstore_inv_put_projection)

lemma inv_claim: "pstore_inv s \<Longrightarrow> pstore_inv (fst (Claim now s l ttl))"
  by (auto simp: Claim_def row_rowk Let_def row_inv_def split: option.splits
      intro!: pstore_inv_put_row dest: pstore_inv_rowk [unfolded row_inv_def])

lemma inv_fenced:
  assumes "pstore_inv s"
  shows "pstore_inv (fst (commit_store now s l cp st))" "pstore_inv (Release s l)" "pstore_inv (fst (SaveStatus now s l st))"
  using assms by (auto simp: commit_store_def Release_def SaveStatus_def row_inv_def split: option.splits
      intro!: pstore_inv_put_row dest!: owned_SomeD dest: pstore_inv_rowk [unfolded row_inv_def])

lemma inv_reset: 
  assumes "pstore_inv s"
  shows "pstore_inv (fst (reset_store now s l newVersion))"
proof (cases "owned s l")
  case None
  with assms show ?thesis by (simp add: reset_store_def)
next
  case (Some r)
  then obtain p where p: "ps_projections s (l_Name l) = Some p" using owned_projection by blast
  have "row_inv (reset_row now l newVersion seg r)" for seg r by (simp add: row_inv_def reset_row_def Let_def)
  then show ?thesis using Some p pstore_inv_projection [OF assms p]
    by (auto simp: reset_store_def projection_inv_def ran_def dom_def intro!: pstore_inv_put_projection [OF assms])
qed

lemma inv_rebuild:
  assumes "pstore_inv s"
  shows "pstore_inv (fst (RequestRebuild s name))" "pstore_inv (fst (FailRebuild s l requested errMsg))"
  using assms by (auto simp: RequestRebuild_def FailRebuild_def projection_inv_def split: option.splits
      intro!: pstore_inv_put_projection dest: pstore_inv_projection)

lemma inv_dead:
  assumes "pstore_inv s"
  shows "pstore_inv (fst (SaveDeadLetter s l d))" "pstore_inv (fst (DeleteDeadLetter s l position))"
  using assms by (auto simp: SaveDeadLetter_def DeleteDeadLetter_def row_rowk row_inv_def split: option.splits
      intro!: pstore_inv_put_row sorted_slice_insert sorted_filter dest: pstore_inv_rowk [unfolded row_inv_def])

lemma inv_heartbeat: "pstore_inv s \<Longrightarrow> pstore_inv (fst (Heartbeat now s name who version ttl))"
  by (auto simp: Heartbeat_def Let_def pstore_inv_def distinct_map_filter)

lemma inv_replays_count: "pstore_inv s \<Longrightarrow> ps_replays s \<le> n \<Longrightarrow> pstore_inv (s\<lparr>ps_replays := n\<rparr>)"
  by (auto simp: pstore_inv_def intro: projection_inv_mono)

lemma replay_segments_inv: "replay_inv n \<lparr>rp_streamID = st, rp_segments = map (\<lambda>i. (i, d)) (filter p [0..<n])\<rparr>"
  by (auto simp: replay_inv_def comp_def sorted_wrt_filter)

lemma inv_request_replay:
  assumes "pstore_inv s"
  shows "pstore_inv (fst (RequestReplay s name streamID))"
proof (cases "ps_projections s name")
  case None
  with assms show ?thesis by (simp add: RequestReplay_def)
next
  case (Some p)
  let ?s = "s\<lparr>ps_replays := ps_replays s + 1\<rparr>"
  have s: "pstore_inv ?s" using assms by (rule inv_replays_count) simp
  have i: "projection_inv (ps_replays s) p" by (rule pstore_inv_projection [OF assms Some])
  have put: "(put_projection s name q)\<lparr>ps_replays := n\<rparr> = put_projection (s\<lparr>ps_replays := n\<rparr>) name q" for q n
    by (simp add: put_projection_def)
  have "projection_inv (ps_replays s + 1) (p\<lparr>mp_replays := mp_replays p @ [(ps_replays s + 1, q)]\<rparr>)"
    if "replay_inv (mp_segments p) q" for q
    using i that by (fastforce simp: projection_inv_def sorted_wrt_append)
  with Some assms s show ?thesis
    by (auto simp: RequestReplay_def Let_def put replay_segments_inv intro!: pstore_inv_put_projection)
qed

lemma replay_inv_mark:
  "replay_inv n q \<Longrightarrow> replay_inv n (q\<lparr>rp_segments := map (\<lambda>(seg, st). (seg, f seg st)) (rp_segments q)\<rparr>)"
  by (auto simp: replay_inv_def comp_def case_prod_beta image_image)

lemma projection_inv_replays:
  assumes "projection_inv n p" "sorted_wrt (<) (map fst rs)" "\<forall>(m, q) \<in> set rs. m \<le> n \<and> replay_inv (mp_segments p) q"
  shows "projection_inv n (p\<lparr>mp_replays := rs\<rparr>)"
  using assms by (simp add: projection_inv_def)

lemma sorted_wrt_map_filter: "sorted_wrt P (map f xs) \<Longrightarrow> sorted_wrt P (map f (filter q xs))"
  by (induction xs) auto

lemma projection_inv_filter: "projection_inv n p \<Longrightarrow> projection_inv n (p\<lparr>mp_replays := filter f (mp_replays p)\<rparr>)"
  by (rule projection_inv_replays) (auto simp: projection_inv_def intro: sorted_wrt_map_filter)

lemma projection_inv_update:
  assumes "projection_inv n p" "replay_inv (mp_segments p) q"
  shows "projection_inv n (p\<lparr>mp_replays := map (\<lambda>(m, r). (m, if m = number then q else r)) (mp_replays p)\<rparr>)"
  using assms by (intro projection_inv_replays) (auto simp: projection_inv_def comp_def case_prod_beta)

lemma inv_finish_replay:
  assumes "pstore_inv s"
  shows "pstore_inv (fst (FinishReplay s l number errMsg))"
proof (cases "owned s l \<noteq> None \<and> (\<exists>p q. ps_projections s (l_Name l) = Some p \<and> map_of (mp_replays p) number = Some q)")
  case False
  with assms show ?thesis by (auto simp: FinishReplay_def split: option.splits)
next
  case True
  then obtain r p q where h: "owned s l = Some r" "ps_projections s (l_Name l) = Some p" "map_of (mp_replays p) number = Some q"
    by auto
  have i: "projection_inv (ps_replays s) p" by (rule pstore_inv_projection [OF assms h(2)])
  then have "replay_inv (mp_segments p) q" using map_of_SomeD [OF h(3)] by (auto simp: projection_inv_def)
  from projection_inv_update [OF i replay_inv_mark [OF this]] h assms show ?thesis
    by (auto simp: FinishReplay_def Let_def intro!: pstore_inv_put_projection
        projection_inv_filter [where p = "p\<lparr>mp_replays := _\<rparr>", simplified])
qed

lemma pstep_inv: "pstep s s' \<Longrightarrow> pstore_inv s \<Longrightarrow> pstore_inv s'"
  by (erule pstep.cases) (simp_all add: inv_declare inv_claim inv_reset inv_fenced inv_dead inv_rebuild inv_heartbeat
      inv_request_replay inv_finish_replay)

lemma pstore_reachable_inv: "pstore_reachable s \<Longrightarrow> pstore_inv s"
proof -
  have "pstep\<^sup>*\<^sup>* NewProjectionStore s \<Longrightarrow> pstore_inv s" for s
    by (induction rule: rtranclp_induct) (auto intro: pstep_inv)
  then show "pstore_reachable s \<Longrightarrow> pstore_inv s" by (simp add: pstore_reachable_def)
qed

end
