(* ===== verification/Proj_Store_Props.thy ===== *)
theory Proj_Store_Props
  imports Proj_Store_Inv
begin

text \<open>
  The contract of the in-memory projection store: claims are exclusive and fenced, a checkpoint moves only
  under the current claim and is handed over with it, a reset starts every segment over and takes the other
  segments' claims away, the heartbeat reports the live instances, dead letters and replay requests do
  what the runner relies on.
\<close>

section \<open>Claims\<close>

lemma lease_key_epoch [simp]: "lease_key (l\<lparr>l_Epoch := e\<rparr>) = lease_key l"
  by (simp add: lease_key_def)

lemma Claim_granted:
  assumes "Claim now s l ttl = (s', lse, cp, True)"
  shows "\<exists>r. rowk s (lease_key l) = Some r \<and> cp = mr_cp r \<and> lease_key lse = lease_key l \<and> l_Owner lse = l_Owner l
    \<and> (owned s l \<noteq> None \<and> lse = l \<or> owned s l = None \<and> l_Epoch lse = mr_epoch r + 1)
    \<and> (\<exists>r'. rowk s' (lease_key l) = Some r' \<and> mr_owner r' = l_Owner l \<and> mr_epoch r' = l_Epoch lse)"
proof -
  obtain r where r: "rowk s (lease_key l) = Some r"
    using assms by (auto simp: Claim_def row_rowk split: option.splits)
  show ?thesis
  proof (cases "owned s l")
    case None
    with assms r show ?thesis
      by (auto simp: Claim_def row_rowk Let_def rowk_put_row [OF r] split: if_splits)
  next
    case (Some r')
    with assms r owned_SomeD [OF Some] show ?thesis
      by (auto simp: Claim_def row_rowk Let_def rowk_put_row)
  qed
qed

lemma Claim_current:
  assumes "Claim now s l ttl = (s', lse, cp, True)" "l_Owner l \<noteq> []"
  shows "current_lease s' lse" "pstep s s'"
proof -
  show "current_lease s' lse" using Claim_granted [OF assms(1)] assms(2)
    by (auto simp: current_claim_def seg_holder_def seg_epoch_def)
  show "pstep s s'" using pstep.claim [of s now l ttl] assms(1) by simp
qed

definition refused :: "projection_store \<Rightarrow> lease \<Rightarrow> bool" where
  "refused s l \<longleftrightarrow>
     (\<forall>now cp st. commit_store now s l cp st = (s, Some (Sentinel ErrClaimLost)))
     \<and> (\<forall>now v. reset_store now s l v = (s, Some (Sentinel ErrClaimLost)))
     \<and> (\<forall>now st. SaveStatus now s l st = (s, Some (Sentinel ErrClaimLost)))
     \<and> (\<forall>n msg. FailRebuild s l n msg = (s, Some (Sentinel ErrClaimLost)))
     \<and> (\<forall>n msg. FinishReplay s l n msg = (s, Some (Sentinel ErrClaimLost)))
     \<and> Release s l = s"

lemma not_owned_refused: "owned s l = None \<Longrightarrow> refused s l"
  by (simp add: refused_def commit_store_def reset_store_def SaveStatus_def FailRebuild_def FinishReplay_def Release_def)

lemma not_current_refused: "\<not> current_lease s l \<Longrightarrow> refused s l"
  using owned_current not_owned_refused by blast

text \<open>A lease once lost stays lost: after a claim was granted, as soon as the segment's row names another
  owner, no owner or another epoch, every call under that lease (the checkpoint's commit, a reset, a status,
  a rebuild failure, a finished replay) is refused with \<open>ErrClaimLost\<close> and changes nothing, whatever steps any
  instance takes before the call; a release changes nothing either.\<close>

theorem claim_fencing:
  assumes "Claim now s l ttl = (s1, lse, cp, True)" "l_Owner l \<noteq> []"
    and "pstep\<^sup>*\<^sup>* s1 s2" "owned s2 lse = None" "pstep\<^sup>*\<^sup>* s2 s3"
  shows "refused s3 lse"
proof -
  have "\<not> current_lease s2 lse" using assms(4) owned_current [of s2 lse] by blast
  from pfence.lost_stays_lost [OF Claim_current(1) [OF assms(1,2)] assms(3) this assms(5)]
  show ?thesis by (rule not_current_refused)
qed

text \<open>Claims of a segment exclude each other: when a claim is granted after another one of the same segment,
  either it is a renewal that returns the same lease, or its epoch is higher and the earlier lease is refused.\<close>

theorem claim_exclusive:
  assumes "Claim now s l ttl = (s1, a, cp, True)" "l_Owner l \<noteq> []"
    and "pstep\<^sup>*\<^sup>* s1 s2" "Claim now' s2 l' ttl' = (s3, b, cp', True)" "l_Owner l' \<noteq> []" "lease_key l' = lease_key l"
  shows "b = a \<or> l_Epoch a < l_Epoch b \<and> refused s3 a"
proof -
  note a = Claim_granted [OF assms(1)] and b = Claim_granted [OF assms(4)]
  note ca = Claim_current [OF assms(1,2)] and cb = Claim_current [OF assms(4,5)]
  have steps: "pstep\<^sup>*\<^sup>* s1 s3" using assms(3) cb(2) by auto
  have keys: "lease_key b = lease_key a" using a b assms(6) by auto
  have "l_Epoch a \<le> l_Epoch b"
    using pfence.steps_epoch_mono [OF steps, of "lease_key a"] ca(1) cb(1) keys by (simp add: current_claim_def)
  moreover have "b = a" if "l_Epoch b = l_Epoch a"
  proof -
    have "l_Owner b = l_Owner a"
      using pfence.epoch_owner_unique [OF ca(1) steps, of "l_Owner b"] cb(1) keys that by simp
    with keys that show ?thesis by (simp add: lease_key_def)
  qed
  moreover have "refused s3 a" if "l_Epoch b \<noteq> l_Epoch a"
    using cb(1) keys that by (intro not_current_refused) (auto simp: current_claim_def)
  ultimately show ?thesis by (cases "l_Epoch b = l_Epoch a") auto
qed

text \<open>A claim is granted exactly when the segment is declared and the caller holds it already, or nobody
  does, or the holder's own ttl has run out since its last heartbeat: so a segment whose owner is gone is taken over
  by the first claim after that. A granted claim returns the stored checkpoint, and is the segment's current
  claim; one that is not granted changes nothing.\<close>

theorem claim_granted_iff:
  assumes "l_Owner l \<noteq> []"
  shows "case Claim now s l ttl of (s', lse, cp, ok) \<Rightarrow>
     (ok \<longleftrightarrow> (\<exists>r. row s l = Some r \<and> (owned s l \<noteq> None \<or> mr_owner r = [] \<or> mr_ttl r < time_Sub now (mr_heartbeat r))))
     \<and> (if ok then map_option mr_cp (row s l) = Some cp \<and> owned s' lse \<noteq> None else s' = s)"
proof (cases "Claim now s l ttl")
  case (fields s' lse cp ok)
  have "ok \<longleftrightarrow> (\<exists>r. row s l = Some r \<and> (owned s l \<noteq> None \<or> mr_owner r = [] \<or> mr_ttl r < time_Sub now (mr_heartbeat r)))"
    using fields by (auto simp: Claim_def Let_def split: option.splits if_splits)
  moreover have "\<not> ok \<Longrightarrow> s' = s"
    using fields by (auto simp: Claim_def Let_def split: option.splits if_splits)
  moreover have "map_option mr_cp (row s l) = Some cp \<and> owned s' lse \<noteq> None" if ok
    using Claim_granted [of now s l ttl s' lse cp] Claim_current [of now s l ttl s' lse cp] owned_current [of s' lse]
      fields that assms by (auto simp: row_rowk)
  ultimately show ?thesis using fields by simp
qed

section \<open>Checkpoints\<close>

lemma rowk_commit:
  "owned s l = Some r \<Longrightarrow> rowk (put_row s l r') k = (if k = lease_key l then Some r' else rowk s k)"
  "owned s l = Some r \<Longrightarrow> rowk s (lease_key l) = Some r"
  by (auto dest!: owned_SomeD simp: rowk_put_row)


text \<open>The checkpoint is handed over: whoever is granted the segment next, after a commit, resumes from the
  checkpoint that was committed.\<close>

theorem commit_then_claim:
  assumes "commit_store now s l cp st = (s1, None)" "Claim now' s1 l' ttl = (s2, lse, cp', True)" "lease_key l' = lease_key l"
  shows "cp' = cp"
proof -
  obtain r where r: "owned s l = Some r" using assms(1) by (auto simp: commit_store_def split: option.splits)
  have "rowk s (lease_key l) = Some r" using owned_SomeD [OF r] by simp
  from rowk_put_row [OF this, of _ "lease_key l"] assms(1) r
  have "map_option mr_cp (rowk s1 (lease_key l)) = Some cp" by (auto simp: commit_store_def)
  then show ?thesis using Claim_granted [OF assms(2)] assms(3) by auto
qed

text \<open>The steps other than a commit or a reset keep every segment's checkpoint.\<close>

definition cp_of :: "projection_store \<Rightarrow> string \<times> nat \<Rightarrow> checkpoint option" where
  "cp_of s k = map_option mr_cp (rowk s k)"

lemma cp_put_row: "rowk s (lease_key l) = Some a \<Longrightarrow> mr_cp b = mr_cp a \<Longrightarrow> cp_of (put_row s l b) k = cp_of s k"
  by (auto simp: cp_of_def rowk_put_row)

lemma cp_claim [simp]: "cp_of (fst (Claim now s l ttl)) k = cp_of s k"
  by (simp add: Claim_def row_rowk Let_def split: option.split) (auto simp: cp_put_row)

lemma cp_fenced [simp]: "cp_of (Release s l) k = cp_of s k" "cp_of (fst (SaveStatus now s l st)) k = cp_of s k"
  by (auto simp: Release_def SaveStatus_def cp_put_row [OF rowk_commit(2)] split: option.split)

lemma cp_dead [simp]: "cp_of (fst (SaveDeadLetter s l d)) k = cp_of s k" "cp_of (fst (DeleteDeadLetter s l position)) k = cp_of s k"
  by (auto simp: SaveDeadLetter_def DeleteDeadLetter_def row_rowk cp_put_row split: option.split)

lemma cp_declare: "cp_of s k \<noteq> None \<Longrightarrow> cp_of (fst (Declare s name segments replayUntil)) k = cp_of s k"
  by (cases k) (auto simp: Declare_def cp_of_def rowk_def split: option.splits)

lemma cp_commit: "cp_of (fst (commit_store now s l cp st)) k = (if owned s l \<noteq> None \<and> k = lease_key l then Some cp else cp_of s k)"
  by (auto simp: commit_store_def cp_of_def rowk_commit split: option.split)

lemma cp_reset: "cp_of (fst (reset_store now s l v)) k \<noteq> cp_of s k \<Longrightarrow> owned s l \<noteq> None \<and> l_Name l = fst k"
  by (auto simp: cp_of_def rowk_reset split: if_splits)

lemma cp_rest [simp]:
  "cp_of (fst (RequestRebuild s name)) k = cp_of s k" "cp_of (fst (FailRebuild s l requested errMsg)) k = cp_of s k"
  "cp_of (fst (RequestReplay s name streamID)) k = cp_of s k" "cp_of (fst (FinishReplay s l number errMsg)) k = cp_of s k"
  "cp_of (fst (Heartbeat now s name who version ttl)) k = cp_of s k"
  by (simp_all add: cp_of_def)

text \<open>(C27) A segment's checkpoint moves only under a current claim: a step of the store that changes the checkpoint
  of a declared segment is a commit of that checkpoint under the segment's current claim, or a reset under a current
  claim on the same projection. No other operation, and no call under a stale lease, touches it.\<close>

theorem checkpoint_moves_only:
  assumes "pstep s s'" "cp_of s k = Some cp" "cp_of s' k \<noteq> Some cp"
  shows "(\<exists>now l cp' st. s' = fst (commit_store now s l cp' st) \<and> owned s l \<noteq> None \<and> lease_key l = k \<and> cp_of s' k = Some cp')
    \<or> (\<exists>now l v. s' = fst (reset_store now s l v) \<and> owned s l \<noteq> None \<and> l_Name l = fst k)"
  using assms(1)
proof cases
  case (commit now l cp' st)
  then have "owned s l \<noteq> None \<and> lease_key l = k \<and> cp_of s' k = Some cp'"
    using assms(2,3) by (auto simp: cp_commit split: if_splits)
  with commit show ?thesis by blast
next
  case (reset now l v)
  then have "owned s l \<noteq> None \<and> l_Name l = fst k" using assms(2,3) cp_reset [of now s l v k] by auto
  with reset show ?thesis by blast
qed (use assms(2,3) in \<open>simp_all add: cp_declare\<close>)

text \<open>(C32) A reset that succeeds starts the whole projection over: every segment has position 0, the new version, no
  dead letters, and counts as replaying up to at least where it was; the pending rebuild requests are done and the
  replay requests gone; and every other segment's claim is taken away, so a batch in flight there is refused.\<close>

theorem reset_effect:
  assumes "reset_store now s l v = (s', None)"
  shows "owned s l \<noteq> None \<and> owned s' l \<noteq> None
    \<and> fst (Rebuilds s' (l_Name l)) = snd (Rebuilds s' (l_Name l)) \<and> PendingReplays s' (l_Name l) = []
    \<and> (\<forall>seg r. rowk s (l_Name l, seg) = Some r \<longrightarrow>
        (\<exists>r'. rowk s' (l_Name l, seg) = Some r' \<and> cp_Position (mr_cp r') = 0 \<and> cp_Version (mr_cp r') = v \<and> mr_deadLetters r' = []
          \<and> cp_Position (mr_cp r) \<le> cp_ReplayUntil (mr_cp r') \<and> cp_ReplayUntil (mr_cp r) \<le> cp_ReplayUntil (mr_cp r')))
    \<and> (\<forall>l'. l_Name l' = l_Name l \<longrightarrow> l_Segment l' \<noteq> l_Segment l \<longrightarrow> refused s' l')"
proof -
  obtain r0 where r0: "owned s l = Some r0" using assms by (auto simp: reset_store_def split: option.splits)
  obtain p where p: "ps_projections s (l_Name l) = Some p" using owned_projection [OF r0] by blast
  have rows: "rowk s' k = (if fst k = l_Name l then map_option (reset_row now l v (snd k)) (rowk s k) else rowk s k)" for k
    using rowk_reset [of now s l v k] assms r0 by simp
  have "owned s' l \<noteq> None" using owned_SomeD [OF r0]
    by (auto simp: owned_def row_rowk rows lease_key_def reset_row_def Let_def)
  moreover have "owned s' l' = None" if "l_Name l' = l_Name l" "l_Segment l' \<noteq> l_Segment l" for l'
    using that by (auto simp: owned_def row_rowk rows lease_key_def reset_row_def Let_def split: option.splits)
  moreover have "fst (Rebuilds s' (l_Name l)) = snd (Rebuilds s' (l_Name l)) \<and> PendingReplays s' (l_Name l) = []"
    using assms r0 p by (auto simp: reset_store_def Rebuilds_def PendingReplays_def put_projection_def)
  ultimately show ?thesis using r0 not_owned_refused by (auto simp: rows reset_row_def Let_def)
qed

section \<open>Instances\<close>

lemma distinct_map_sort_key: "distinct (map f (sort_key f xs)) = distinct (map f xs)"
  by (induction xs) (simp_all add: distinct_insort_key)

lemma liveInstances_sorted:
  assumes "distinct (map fst (ps_instances s name))"
  shows "sorted_wrt (<) (map in_Owner (liveInstances s name now))"
proof -
  let ?f = "\<lambda>(o', m :: memory_instance). \<lparr>in_Owner = o', in_Version = mi_version m, in_Segments = held_by s name o', in_Age = time_Sub now (mi_heartbeat m)\<rparr>"
  have "in_Owner \<circ> ?f = fst" by (simp add: fun_eq_iff)
  then have "distinct (map in_Owner (liveInstances s name now))"
    using distinct_map_filter [OF assms] by (simp add: liveInstances_def distinct_map_sort_key)
  then show ?thesis by (simp add: strict_sorted_iff liveInstances_def)
qed

lemma liveInstances_owners:
  "in_Owner ` set (liveInstances s name now) =
     fst ` {x \<in> set (ps_instances s name). time_Sub now (mi_heartbeat (snd x)) \<le> mi_ttl (snd x)}"
  by (force simp: liveInstances_def)

text \<open>The heartbeat of an instance returns the live instances of the projection, the caller among them, each
  once and in order of owner: those registered whose own ttl has not passed, each with the number of segments it
  holds. The answer is what \<open>LoadInstances\<close> returns at that moment, and deregistering (ttl 0) removes exactly the
  caller.\<close>

theorem heartbeat_live:
  assumes "pstore_reachable s" "0 < ttl"
  shows "case Heartbeat now s name who version ttl of (s', live) \<Rightarrow>
     sorted_wrt (<) (map in_Owner live)
     \<and> in_Owner ` set live = insert who (fst ` {x \<in> set (ps_instances s name). time_Sub now (mi_heartbeat (snd x)) \<le> mi_ttl (snd x)})
     \<and> (\<forall>i \<in> set live. in_Segments i = held_by s name (in_Owner i))
     \<and> live = LoadInstances now s' name
     \<and> in_Owner ` set (LoadInstances now (fst (Heartbeat now s' name who version 0)) name) = in_Owner ` set live - {who}"
proof (cases "Heartbeat now s name who version ttl")
  case (Pair s' live)
  have inv: "pstore_inv s'"
    using inv_heartbeat [OF pstore_reachable_inv [OF assms(1)], of now name who version ttl] Pair by simp
  then have dist: "distinct (map fst (ps_instances s' name))" by (simp add: pstore_inv_def)
  have live: "live = liveInstances s' name now" using Pair assms(2) by (auto simp: Heartbeat_def Let_def)
  have now: "time_Sub now now \<le> ttl" using assms(2) by (simp add: time_Sub_def max_int64_def)
  have inst: "ps_instances s' name = filter (\<lambda>(o', m). \<not> time_Sub now (mi_heartbeat m) > mi_ttl m)
      (filter (\<lambda>(o', m). o' \<noteq> who) (ps_instances s name) @ [(who, \<lparr>mi_version = version, mi_heartbeat = now, mi_ttl = ttl\<rparr>)])"
    using Pair assms(2) by (auto simp: Heartbeat_def Let_def)
  have set_inst: "{x \<in> set (ps_instances s' name). time_Sub now (mi_heartbeat (snd x)) \<le> mi_ttl (snd x)} =
      insert (who, \<lparr>mi_version = version, mi_heartbeat = now, mi_ttl = ttl\<rparr>)
        {x \<in> set (ps_instances s name). fst x \<noteq> who \<and> time_Sub now (mi_heartbeat (snd x)) \<le> mi_ttl (snd x)}"
    unfolding inst using now by auto
  have "in_Owner ` set live = insert who (fst ` {x \<in> set (ps_instances s name). time_Sub now (mi_heartbeat (snd x)) \<le> mi_ttl (snd x)})"
    unfolding live liveInstances_owners set_inst by auto
  moreover have "held_by s' name o' = held_by s name o'" for o'
    using Pair assms(2) by (auto simp: Heartbeat_def Let_def held_by_def)
  then have "\<forall>i \<in> set live. in_Segments i = held_by s name (in_Owner i)"
    by (auto simp: live liveInstances_def)
  moreover have "in_Owner ` set (LoadInstances now (fst (Heartbeat now s' name who version 0)) name) = in_Owner ` set live - {who}"
    by (force simp: LoadInstances_def live liveInstances_owners Heartbeat_def image_iff)
  ultimately show ?thesis using Pair liveInstances_sorted [OF dist] by (simp add: LoadInstances_def live)
qed

section \<open>Dead letters and replay requests\<close>

text \<open>Dead letters: one saved is listed with those before it, in order of position, and nothing else of the store
  changes; deleting its position then leaves exactly the letters of the other positions.\<close>

theorem dead_letter_roundtrip:
  assumes "pstore_reachable s" "SaveDeadLetter s l d = (s1, None)" "DeleteDeadLetter s1 l (dl_Position d) = (s2, None)"
  shows "sorted (map dl_Position (LoadDeadLetters s1 (l_Name l) (l_Segment l)))
    \<and> mset (LoadDeadLetters s1 (l_Name l) (l_Segment l)) = add_mset d (mset (LoadDeadLetters s (l_Name l) (l_Segment l)))
    \<and> mset (LoadDeadLetters s2 (l_Name l) (l_Segment l)) = filter_mset (\<lambda>e. dl_Position e \<noteq> dl_Position d) (mset (LoadDeadLetters s (l_Name l) (l_Segment l)))
    \<and> (\<forall>k. k \<noteq> lease_key l \<longrightarrow> rowk s2 k = rowk s k)"
proof -
  have load: "LoadDeadLetters s' (l_Name l) (l_Segment l) = (case rowk s' (lease_key l) of None \<Rightarrow> [] | Some r \<Rightarrow> mr_deadLetters r)" for s'
    by (simp add: LoadDeadLetters_def row_def rowk_def lease_key_def zero_lease_def split: option.split)
  obtain r where r: "rowk s (lease_key l) = Some r" "s1 = put_row s l (r\<lparr>mr_deadLetters := slice_insert (mr_deadLetters r)
             (bsearch dl_Position (mr_deadLetters r) (dl_Position d)) d\<rparr>)"
    using assms(2) by (auto simp: SaveDeadLetter_def row_rowk split: option.splits)
  have "pstore_inv s1" using inv_dead(1) [OF pstore_reachable_inv [OF assms(1)], of l d] assms(2) by simp
  then have "sorted (map dl_Position (LoadDeadLetters s1 (l_Name l) (l_Segment l)))"
    using pstore_inv_rowk [of s1 "lease_key l"] by (auto simp: load row_inv_def split: option.split)
  moreover have s1: "rowk s1 (lease_key l) \<noteq> None" using r by (simp add: rowk_put_row)
  ultimately show ?thesis using assms(3) r
    by (auto simp: load DeleteDeadLetter_def row_rowk rowk_put_row mset_slice_insert)
qed

lemma filter_concat_map: "filter P (concat (map f xs)) = concat (map (filter P \<circ> f) xs)"
  by (simp add: filter_concat)

definition pending_of :: "uint64 \<times> memory_replay \<Rightarrow> replay list" where
  "pending_of x = map (\<lambda>(seg, st). \<lparr>rq_Number = fst x, rq_StreamID = rp_streamID (snd x), rq_Segment = seg\<rparr>)
     (filter (\<lambda>(seg, st). \<not> rs_done st) (rp_segments (snd x)))"

lemma PendingReplays_pending:
  "PendingReplays s name = (case ps_projections s name of None \<Rightarrow> []
     | Some p \<Rightarrow> sort_key (\<lambda>r. (rq_Number r, rq_Segment r)) (concat (map pending_of (mp_replays p))))"
  by (simp add: PendingReplays_def pending_of_def [abs_def] case_prod_beta' split: option.split)

lemma pending_of_finished: "replay_finished q \<Longrightarrow> pending_of (n, q) = []"
  by (auto simp: pending_of_def replay_finished_def list_all_iff filter_empty_conv)

lemma concat_map_drop: "(\<And>x. x \<in> set xs \<Longrightarrow> \<not> P x \<Longrightarrow> f x = []) \<Longrightarrow> concat (map f (filter P xs)) = concat (map f xs)"
  by (induction xs) auto

definition mark_replay :: "nat \<Rightarrow> string \<Rightarrow> memory_replay \<Rightarrow> memory_replay" where
  "mark_replay i e q = q\<lparr>rp_segments := map (\<lambda>(seg, st). (seg, if seg = i then \<lparr>rs_done = True, rs_err = e\<rparr> else st)) (rp_segments q)\<rparr>"

lemma mark_pending:
  "map (\<lambda>(seg, st). g seg) (filter (\<lambda>(seg, st). \<not> rs_done st)
     (map (\<lambda>(seg, st). (seg, if seg = i then \<lparr>rs_done = True, rs_err = e\<rparr> else st)) xs))
   = map (\<lambda>(seg, st). g seg) (filter (\<lambda>(seg, st). seg \<noteq> i) (filter (\<lambda>(seg, st). \<not> rs_done st) xs))"
  by (induction xs) (auto split: if_splits)

lemma pending_of_mark: "pending_of (n, mark_replay i e q) = filter (\<lambda>r. \<not> (rq_Number r = n \<and> rq_Segment r = i)) (pending_of (n, q))"
proof -
  have "filter (\<lambda>r. \<not> (rq_Number r = n \<and> rq_Segment r = i)) (map (\<lambda>(seg, st). \<lparr>rq_Number = n, rq_StreamID = sid, rq_Segment = seg\<rparr>) xs)
      = map (\<lambda>(seg, st). \<lparr>rq_Number = n, rq_StreamID = sid, rq_Segment = seg\<rparr>) (filter (\<lambda>(seg, st). seg \<noteq> i) xs)" for sid and xs :: "(nat \<times> replay_segment) list"
    by (induction xs) auto
  moreover have "rp_segments (mark_replay i e q) = map (\<lambda>(seg, st). (seg, if seg = i then \<lparr>rs_done = True, rs_err = e\<rparr> else st)) (rp_segments q)"
    "rp_streamID (mark_replay i e q) = rp_streamID q"
    by (simp_all add: mark_replay_def)
  ultimately show ?thesis unfolding pending_of_def by (simp only: mark_pending fst_conv snd_conv)
qed

lemma pending_of_number: "n \<noteq> m \<Longrightarrow> filter (\<lambda>r. rq_Number r = m \<longrightarrow> rq_Segment r \<noteq> i) (pending_of (n, q)) = pending_of (n, q)"
  by (rule filter_True) (auto simp: pending_of_def)

text \<open>\<open>FinishReplay\<close> under the current claim takes exactly the caller's segment of exactly that request off the
  pending list, whatever else it deletes: the requests it drops once a stream is clean have nothing pending.\<close>

theorem finish_replay_pending:
  assumes "pstore_reachable s" "FinishReplay s l number msg = (s', None)"
  shows "PendingReplays s' (l_Name l) =
    filter (\<lambda>r. \<not> (rq_Number r = number \<and> rq_Segment r = l_Segment l)) (PendingReplays s (l_Name l))"
proof -
  have "owned s l \<noteq> None" using assms(2) by (auto simp: FinishReplay_def split: option.splits)
  then obtain r p where r: "owned s l = Some r" and p: "ps_projections s (l_Name l) = Some p" using owned_projection by blast
  let ?F = "\<lambda>r. \<not> (rq_Number r = number \<and> rq_Segment r = l_Segment l)"
  have keys: "distinct (map fst (mp_replays p))"
    using pstore_inv_projection [OF pstore_reachable_inv [OF assms(1)] p]
    by (auto simp: projection_inv_def strict_sorted_iff)
  obtain rs where rs: "concat (map pending_of rs) = filter ?F (concat (map pending_of (mp_replays p)))"
    "s' = put_projection s (l_Name l) (p\<lparr>mp_replays := rs\<rparr>)"
  proof (cases "map_of (mp_replays p) number")
    case None
    then have "filter ?F (concat (map pending_of (mp_replays p))) = concat (map pending_of (mp_replays p))"
      by (intro filter_True) (auto simp: pending_of_def map_of_eq_None_iff)
    moreover have "s' = put_projection s (l_Name l) (p\<lparr>mp_replays := mp_replays p\<rparr>)"
      using assms(2) r p None by (simp add: FinishReplay_def put_projection_def map_upd_triv)
    ultimately show ?thesis using that [of "mp_replays p"] by simp
  next
    case (Some q)
    let ?q = "mark_replay (l_Segment l) msg q"
    let ?rs = "map (\<lambda>(n, x). (n, if n = number then ?q else x)) (mp_replays p)"
    have "pending_of (n, if n = number then ?q else x) = filter ?F (pending_of (n, x))" if "(n, x) \<in> set (mp_replays p)" for n x
      using map_of_is_SomeI [OF keys that] Some by (cases "n = number") (simp_all add: pending_of_mark pending_of_number)
    then have rs: "concat (map pending_of ?rs) = filter ?F (concat (map pending_of (mp_replays p)))"
      by (auto simp: filter_concat comp_def intro!: arg_cong [where f = concat] map_cong)
    show ?thesis
    proof (rule that)
      let ?keep = "\<lambda>(n, x). \<not> (n \<le> number \<and> rp_streamID x = rp_streamID ?q \<and> replay_finished x)"
      let ?rs' = "if replay_succeeded ?q then filter ?keep ?rs else ?rs"
      show "s' = put_projection s (l_Name l) (p\<lparr>mp_replays := ?rs'\<rparr>)"
        unfolding mark_replay_def using assms(2) r p Some by (auto simp: FinishReplay_def Let_def)
      have "concat (map pending_of (filter ?keep ?rs)) = concat (map pending_of ?rs)"
        by (rule concat_map_drop) (auto simp: pending_of_finished)
      then show "concat (map pending_of ?rs') = filter ?F (concat (map pending_of (mp_replays p)))" using rs by simp
    qed
  qed
  then show ?thesis using p by (simp add: PendingReplays_pending put_projection_def filter_sort)
qed

section \<open>An example store\<close>

text \<open>A projection of two segments: instance a claims segment 0, then its ttl passes and b takes the segment over.\<close>

definition demo_p0 :: projection_store where
  "demo_p0 = fst (Declare NewProjectionStore ''p'' 2 7)"

definition demo_la :: lease where
  "demo_la = \<lparr>l_Name = ''p'', l_Segment = 0, l_Owner = ''a'', l_Epoch = 0\<rparr>"

definition demo_lb :: lease where
  "demo_lb = demo_la\<lparr>l_Owner := ''b''\<rparr>"

definition demo_p1 :: projection_store where
  "demo_p1 = fst (Claim 1000 demo_p0 demo_la 10)"

definition demo_p2 :: projection_store where
  "demo_p2 = fst (Claim 2000 demo_p1 demo_lb 10)"

definition demo_cp :: checkpoint where
  "demo_cp = \<lparr>cp_Position = 3, cp_Version = 1, cp_ReplayUntil = 7, cp_Fingerprint = []\<rparr>"

definition demo_dl :: dead_letter where
  "demo_dl = \<lparr>dl_Position = 3, dl_StreamID = ''s'', dl_EventType = ''e'', dl_Error = ''x''\<rparr>"

lemmas demo_pdefs = demo_p0_def demo_la_def demo_lb_def demo_p1_def demo_p2_def demo_cp_def demo_dl_def
lemmas demo_pops = Declare_def Claim_def row_def owned_def put_row_def NewProjectionStore_def new_row_def time_Sub_def max_int64_def
  Let_def zero_checkpoint_def zero_status_def zero_lease_def

lemma demo_claim_a: "Claim 1000 demo_p0 demo_la 10 = (demo_p1, demo_la\<lparr>l_Epoch := 1\<rparr>, zero_checkpoint\<lparr>cp_ReplayUntil := 7\<rparr>, True)"
  by (simp add: demo_pdefs demo_pops)

lemma demo_claim_b: "Claim 2000 demo_p1 demo_lb 10 = (demo_p2, demo_lb\<lparr>l_Epoch := 2\<rparr>, zero_checkpoint\<lparr>cp_ReplayUntil := 7\<rparr>, True)"
  by (simp add: demo_pdefs demo_pops)

lemma demo_lost: "owned demo_p2 (demo_la\<lparr>l_Epoch := 1\<rparr>) = None"
  by (simp add: demo_pdefs demo_pops)

lemma demo_reachable: "pstore_reachable demo_p0" "pstore_reachable demo_p1" "pstore_reachable demo_p2"
proof -
  have "pstep NewProjectionStore demo_p0" by (simp add: demo_p0_def pstep.declared)
  moreover have "pstep demo_p0 demo_p1" "pstep demo_p1 demo_p2" by (simp_all add: demo_p1_def demo_p2_def pstep.claim)
  ultimately show "pstore_reachable demo_p0" "pstore_reachable demo_p1" "pstore_reachable demo_p2"
    unfolding pstore_reachable_def by auto
qed

lemma pstore_reachable_step: "pstore_reachable s \<Longrightarrow> pstep s s' \<Longrightarrow> pstore_reachable s'"
  by (simp add: pstore_reachable_def)

lemma demo_steps: "pstep\<^sup>*\<^sup>* demo_p1 demo_p2" "l_Owner demo_la \<noteq> []" "l_Owner demo_lb \<noteq> []" "lease_key demo_lb = lease_key demo_la"
  by (auto simp: demo_p2_def pstep.claim demo_la_def demo_lb_def lease_key_def)

theorem claim_fencing_witness: "refused demo_p2 (demo_la\<lparr>l_Epoch := 1\<rparr>)"
  by (rule claim_fencing [OF demo_claim_a demo_steps(2,1) demo_lost]) simp

theorem claim_exclusive_witness: "l_Epoch (demo_la\<lparr>l_Epoch := 1\<rparr>) < l_Epoch (demo_lb\<lparr>l_Epoch := 2\<rparr>) \<and> refused demo_p2 (demo_la\<lparr>l_Epoch := 1\<rparr>)"
  using claim_exclusive [OF demo_claim_a demo_steps(2) rtranclp.rtrancl_refl demo_claim_b demo_steps(3,4)]
  by (simp add: demo_lb_def demo_la_def)

theorem claim_granted_iff_witness: "snd (snd (snd (Claim 2000 demo_p1 demo_lb 10))) \<and> owned demo_p2 (demo_lb\<lparr>l_Epoch := 2\<rparr>) \<noteq> None"
  using claim_granted_iff [OF demo_steps(3), where now = 2000 and s = demo_p1 and ttl = 10] by (simp add: demo_claim_b)

lemma demo_commit: "commit_store 1001 demo_p1 (demo_la\<lparr>l_Epoch := 1\<rparr>) demo_cp zero_status =
    (fst (commit_store 1001 demo_p1 (demo_la\<lparr>l_Epoch := 1\<rparr>) demo_cp zero_status), None)"
  by (simp add: demo_pdefs demo_pops commit_store_def)

theorem commit_then_claim_witness:
  "fst (snd (snd (Claim 2000 (fst (commit_store 1001 demo_p1 (demo_la\<lparr>l_Epoch := 1\<rparr>) demo_cp zero_status)) demo_lb 10))) = demo_cp"
proof -
  let ?s = "fst (commit_store 1001 demo_p1 (demo_la\<lparr>l_Epoch := 1\<rparr>) demo_cp zero_status)"
  have "snd (snd (snd (Claim 2000 ?s demo_lb 10)))" by (simp add: demo_pdefs demo_pops commit_store_def)
  then have "Claim 2000 ?s demo_lb 10 = (fst (Claim 2000 ?s demo_lb 10), fst (snd (Claim 2000 ?s demo_lb 10)),
      fst (snd (snd (Claim 2000 ?s demo_lb 10))), True)" by (simp add: prod_eq_iff)
  then show ?thesis by (rule commit_then_claim [OF demo_commit]) (simp add: demo_steps(4))
qed

definition demo_p3 :: projection_store where
  "demo_p3 = fst (commit_store 1001 demo_p1 (demo_la\<lparr>l_Epoch := 1\<rparr>) demo_cp zero_status)"

theorem checkpoint_moves_only_witness:
  "(\<exists>now l cp' st. demo_p3 = fst (commit_store now demo_p1 l cp' st) \<and> owned demo_p1 l \<noteq> None \<and> lease_key l = (''p'', 0)
      \<and> cp_of demo_p3 (''p'', 0) = Some cp')
   \<or> (\<exists>now l v. demo_p3 = fst (reset_store now demo_p1 l v) \<and> owned demo_p1 l \<noteq> None \<and> l_Name l = fst (''p'', 0 :: nat))"
proof (rule checkpoint_moves_only)
  show "pstep demo_p1 demo_p3" by (simp add: demo_p3_def pstep.commit)
  show "cp_of demo_p1 (''p'', 0) = Some (zero_checkpoint\<lparr>cp_ReplayUntil := 7\<rparr>)"
    by (simp add: demo_pdefs demo_pops cp_of_def rowk_def)
  show "cp_of demo_p3 (''p'', 0) \<noteq> Some (zero_checkpoint\<lparr>cp_ReplayUntil := 7\<rparr>)"
    by (simp add: demo_p3_def demo_pdefs demo_pops cp_of_def rowk_def commit_store_def)
qed

theorem reset_effect_witness:
  "PendingReplays (fst (reset_store 1002 demo_p3 (demo_la\<lparr>l_Epoch := 1\<rparr>) 2)) ''p'' = []
   \<and> refused (fst (reset_store 1002 demo_p3 (demo_la\<lparr>l_Epoch := 1\<rparr>) 2)) (demo_la\<lparr>l_Segment := 1\<rparr>)"
proof -
  have "reset_store 1002 demo_p3 (demo_la\<lparr>l_Epoch := 1\<rparr>) 2 = (fst (reset_store 1002 demo_p3 (demo_la\<lparr>l_Epoch := 1\<rparr>) 2), None)"
    by (simp add: demo_p3_def demo_pdefs demo_pops reset_store_def commit_store_def)
  from reset_effect [OF this] show ?thesis by (simp add: demo_la_def)
qed

theorem heartbeat_live_witness: "in_Owner ` set (snd (Heartbeat 2000 demo_p2 ''p'' ''b'' 1 10)) = {''b''}"
proof -
  have none: "ps_instances demo_p2 = (\<lambda>_. [])" by (simp add: demo_pdefs demo_pops)
  have ttl: "0 < (10 :: duration)" by simp
  note live = heartbeat_live [OF demo_reachable(3) ttl, where now = 2000 and name = "''p''" and who = "''b''" and version = 1]
  show ?thesis unfolding live [unfolded case_prod_beta, THEN conjunct2, THEN conjunct1] none by simp
qed

definition demo_p4 :: projection_store where
  "demo_p4 = fst (SaveDeadLetter demo_p3 (demo_la\<lparr>l_Epoch := 1\<rparr>) demo_dl)"

lemma demo_reachable34: "pstore_reachable demo_p3" "pstore_reachable demo_p4"
proof -
  show "pstore_reachable demo_p3" using demo_reachable(2) by (rule pstore_reachable_step) (simp add: demo_p3_def pstep.commit)
  then show "pstore_reachable demo_p4" by (rule pstore_reachable_step) (simp add: demo_p4_def pstep.save_dead)
qed

theorem dead_letter_roundtrip_witness: "mset (LoadDeadLetters demo_p4 ''p'' 0) = {#demo_dl#}"
proof -
  have save: "SaveDeadLetter demo_p3 (demo_la\<lparr>l_Epoch := 1\<rparr>) demo_dl = (demo_p4, None)"
    by (simp add: demo_p4_def demo_p3_def demo_pdefs demo_pops SaveDeadLetter_def commit_store_def)
  have "DeleteDeadLetter demo_p4 (demo_la\<lparr>l_Epoch := 1\<rparr>) (dl_Position demo_dl) =
      (fst (DeleteDeadLetter demo_p4 (demo_la\<lparr>l_Epoch := 1\<rparr>) (dl_Position demo_dl)), None)"
    by (simp add: demo_p4_def demo_p3_def demo_pdefs demo_pops SaveDeadLetter_def DeleteDeadLetter_def commit_store_def)
  from dead_letter_roundtrip [OF demo_reachable34(1) save this]
  have "mset (LoadDeadLetters demo_p4 ''p'' 0) = add_mset demo_dl (mset (LoadDeadLetters demo_p3 ''p'' 0))" by (simp add: demo_la_def)
  then show ?thesis by (simp add: demo_p3_def demo_pdefs demo_pops LoadDeadLetters_def commit_store_def)
qed

definition demo_p5 :: projection_store where
  "demo_p5 = fst (RequestReplay demo_p4 ''p'' ''s'')"

theorem finish_replay_pending_witness:
  "PendingReplays (fst (FinishReplay demo_p5 (demo_la\<lparr>l_Epoch := 1\<rparr>) 1 [])) ''p'' = [] \<and> PendingReplays demo_p5 ''p'' \<noteq> []"
proof -
  have "pstore_reachable demo_p5"
    using demo_reachable34(2) by (rule pstore_reachable_step) (simp add: demo_p5_def pstep.request_replay)
  moreover have ops: "owned demo_p5 (demo_la\<lparr>l_Epoch := 1\<rparr>) \<noteq> None"
    "PendingReplays demo_p5 ''p'' = [\<lparr>rq_Number = 1, rq_StreamID = ''s'', rq_Segment = 0\<rparr>]"
    by (simp_all add: demo_p5_def demo_p4_def demo_p3_def demo_pdefs demo_pops SaveDeadLetter_def commit_store_def RequestReplay_def
        PendingReplays_def put_projection_def slice_insert_def numeral_2_eq_2)
  moreover have "FinishReplay demo_p5 (demo_la\<lparr>l_Epoch := 1\<rparr>) 1 [] = (fst (FinishReplay demo_p5 (demo_la\<lparr>l_Epoch := 1\<rparr>) 1 []), None)"
    using ops(1) by (auto simp: FinishReplay_def Let_def split: option.split dest: owned_projection)
  ultimately show ?thesis using finish_replay_pending [of demo_p5 "demo_la\<lparr>l_Epoch := 1\<rparr>" 1 "[]"] by (simp add: demo_la_def)
qed

text \<open>(C33) In every reachable state of the store: a declared projection has exactly the segments it was declared with,
  the dead letters of each are in order of position, no more rebuilds are done than were requested, replay requests
  carry distinct numbers up to the last one given out and name segments of the projection once each, and an instance is
  registered once.\<close>

theorem projection_store_invariant:
  assumes "pstore_reachable s"
  shows "pstore_inv s"
  using assms by (rule pstore_reachable_inv)

theorem projection_store_invariant_witness: "pstore_inv demo_p4"
  by (rule projection_store_invariant [OF demo_reachable34(2)])

end
