(* ===== verification/Proj_Memory_Run.thy ===== *)
theory Proj_Memory_Run
  imports Proj_Coverage Proj_Store_Props ES_Memory_Props
begin

text \<open>
  The projection runner on the in-memory stores. The world holds the projection store, the event store, the
  read model with the positions whose delivery the handler accepted, the clock, the context and the
  schedule of what happens between the runner's calls: saves of events, steps of other instances, time
  passing, the context being cancelled. \<open>mem_ops\<close> are the methods of the two stores on it, each after the
  next entry of the schedule; \<open>Commit\<close> and \<open>Reset\<close> release their mutex while their function runs, so an entry
  comes before each of their two critical sections.
\<close>

section \<open>Steps of other instances\<close>

text \<open>What others may do to the store while a runner works under the lease \<open>l\<close>: everything but calls made with
  that very lease, claims of its segment by its owner, and the deletion of the segment's dead letters, which only
  its holder's replays make.\<close>

inductive other_step :: "lease \<Rightarrow> projection_store \<Rightarrow> projection_store \<Rightarrow> bool" for l where
  o_declared: "other_step l s (fst (Declare s name segments replayUntil))"
| o_claim: "lease_key l' \<noteq> lease_key l \<or> l_Owner l' \<noteq> l_Owner l \<Longrightarrow> other_step l s (fst (Claim now s l' ttl))"
| o_commit: "l' \<noteq> l \<Longrightarrow> other_step l s (fst (commit_store now s l' cp st))"
| o_reset: "l' \<noteq> l \<Longrightarrow> other_step l s (fst (reset_store now s l' newVersion))"
| o_release: "other_step l s (Release s l')"
| o_status: "other_step l s (fst (SaveStatus now s l' st))"
| o_request_rebuild: "other_step l s (fst (RequestRebuild s name))"
| o_fail_rebuild: "other_step l s (fst (FailRebuild s l' requested errMsg))"
| o_save_dead: "other_step l s (fst (SaveDeadLetter s l' d))"
| o_delete_dead: "lease_key l' \<noteq> lease_key l \<Longrightarrow> other_step l s (fst (DeleteDeadLetter s l' pos))"
| o_heartbeat: "other_step l s (fst (Heartbeat now s name who version ttl))"
| o_request_replay: "other_step l s (fst (RequestReplay s name streamID))"
| o_finish_replay: "other_step l s (fst (FinishReplay s l' number errMsg))"

lemma other_pstep: "other_step l s s' \<Longrightarrow> pstep s s'"
  by (erule other_step.cases) (auto intro: pstep.intros)

text \<open>While the lease stays current, the segment's checkpoint stays and its dead letters are kept.\<close>

definition row_kept :: "lease \<Rightarrow> memory_row option \<Rightarrow> memory_row option \<Rightarrow> bool" where
  "row_kept l a b \<longleftrightarrow> (\<forall>r'. b = Some r' \<longrightarrow> mr_owner r' = l_Owner l \<longrightarrow> mr_epoch r' = l_Epoch l \<longrightarrow> l_Owner l \<noteq> [] \<longrightarrow>
     (\<exists>r. a = Some r \<and> mr_owner r = mr_owner r' \<and> mr_epoch r = mr_epoch r' \<and> mr_cp r = mr_cp r' \<and> set (mr_deadLetters r) \<subseteq> set (mr_deadLetters r')))"

lemma row_kept_refl [simp]: "row_kept l a a"
  by (simp add: row_kept_def)

lemma row_kept_put:
  assumes "rowk s (lease_key l') = Some a" "lease_key l' = lease_key l \<Longrightarrow> row_kept l (Some a) (Some b)"
  shows "row_kept l (rowk s (lease_key l)) (rowk (put_row s l' b) (lease_key l))"
  using assms by (auto simp: rowk_put_row)

lemma row_kept_same:
  "mr_owner b = mr_owner a \<and> mr_epoch b = mr_epoch a \<and> mr_cp b = mr_cp a \<and> set (mr_deadLetters a) \<subseteq> set (mr_deadLetters b)
   \<Longrightarrow> row_kept l (Some a) (Some b)"
  by (simp add: row_kept_def)

lemma row_kept_lost: "mr_owner b \<noteq> l_Owner l \<or> mr_epoch b \<noteq> l_Epoch l \<or> mr_owner b = [] \<Longrightarrow> row_kept l a (Some b)"
  by (auto simp: row_kept_def)

lemma lease_eq: "l' = l \<longleftrightarrow> lease_key l' = lease_key l \<and> l_Owner l' = l_Owner l \<and> l_Epoch l' = l_Epoch l"
  by (auto simp: lease_key_def)

lemma other_claim:
  assumes "lease_key l' \<noteq> lease_key l \<or> l_Owner l' \<noteq> l_Owner l"
  shows "row_kept l (rowk s (lease_key l)) (rowk (fst (Claim now s l' ttl)) (lease_key l))"
proof (cases "rowk s (lease_key l')")
  case None
  then show ?thesis by (simp add: Claim_def row_rowk)
next
  case (Some a)
  then show ?thesis using assms
    by (auto simp: Claim_def row_rowk Let_def intro!: row_kept_put [OF Some] row_kept_lost)
qed

lemma other_commit:
  assumes "l' \<noteq> l"
  shows "row_kept l (rowk s (lease_key l)) (rowk (fst (commit_store now s l' cp st)) (lease_key l))"
proof (cases "owned s l'")
  case None
  then show ?thesis by (simp add: commit_store_def)
next
  case (Some r)
  then show ?thesis using assms owned_SomeD [OF Some]
    by (auto simp: commit_store_def lease_eq intro!: row_kept_put row_kept_lost)
qed

lemma other_reset:
  assumes "l' \<noteq> l"
  shows "row_kept l (rowk s (lease_key l)) (rowk (fst (reset_store now s l' newVersion)) (lease_key l))"
proof (cases "owned s l' \<noteq> None \<and> l_Name l = l_Name l'")
  case False
  then show ?thesis by (auto simp: rowk_reset lease_key_def)
next
  case True
  then obtain r where r: "owned s l' = Some r" by blast
  note o = owned_SomeD [OF r]
  have "mr_owner b \<noteq> l_Owner l \<or> mr_epoch b \<noteq> l_Epoch l \<or> mr_owner b = []"
    if "rowk s (lease_key l) = Some a" "b = reset_row now l' newVersion (l_Segment l) a" for a b
    using that o assms True by (auto simp: reset_row_def Let_def lease_eq lease_key_def)
  then show ?thesis using True by (auto simp: rowk_reset lease_key_def row_kept_def)
qed

lemma other_release: "row_kept l (rowk s (lease_key l)) (rowk (Release s l') (lease_key l))"
  by (auto simp: Release_def split: option.split dest!: owned_SomeD intro!: row_kept_put row_kept_lost)

lemma other_status: "row_kept l (rowk s (lease_key l)) (rowk (fst (SaveStatus now s l' st)) (lease_key l))"
  by (auto simp: SaveStatus_def split: option.split dest!: owned_SomeD intro!: row_kept_put row_kept_same)

lemma other_dead:
  "row_kept l (rowk s (lease_key l)) (rowk (fst (SaveDeadLetter s l' d)) (lease_key l))"
  "lease_key l' \<noteq> lease_key l \<Longrightarrow> row_kept l (rowk s (lease_key l)) (rowk (fst (DeleteDeadLetter s l' pos)) (lease_key l))"
  by (auto simp: SaveDeadLetter_def DeleteDeadLetter_def row_rowk split: option.split intro!: row_kept_put row_kept_same)

lemma other_declare: "row_kept l (rowk s (lease_key l)) (rowk (fst (Declare s name segments replayUntil)) (lease_key l))"
  by (auto simp: Declare_def rowk_def row_kept_def new_row_def split: option.splits)

lemma other_step_kept: "other_step l s s' \<Longrightarrow> row_kept l (rowk s (lease_key l)) (rowk s' (lease_key l))"
proof (induction rule: other_step.induct)
  case (o_claim l' s now ttl)
  then show ?case by (rule other_claim)
next
  case (o_commit l' s now cp st)
  then show ?case by (rule other_commit)
next
  case (o_reset l' s now newVersion)
  then show ?case by (rule other_reset)
next
  case (o_delete_dead l' s pos)
  then show ?case by (rule other_dead)
qed (simp_all add: other_declare other_release other_status other_dead(1))

lemma row_kept_trans:
  assumes "row_kept l a b" "row_kept l b c"
  shows "row_kept l a c"
  unfolding row_kept_def
proof (intro allI impI)
  fix r' assume r': "c = Some r'" "mr_owner r' = l_Owner l" "mr_epoch r' = l_Epoch l" "l_Owner l \<noteq> []"
  with assms(2) obtain r1 where r1: "b = Some r1" "mr_owner r1 = mr_owner r'" "mr_epoch r1 = mr_epoch r'" "mr_cp r1 = mr_cp r'"
    "set (mr_deadLetters r1) \<subseteq> set (mr_deadLetters r')" by (auto simp: row_kept_def)
  with assms(1) r' obtain r where "a = Some r" "mr_owner r = mr_owner r1" "mr_epoch r = mr_epoch r1" "mr_cp r = mr_cp r1"
    "set (mr_deadLetters r) \<subseteq> set (mr_deadLetters r1)" by (auto simp: row_kept_def)
  with r1 show "\<exists>r. a = Some r \<and> mr_owner r = mr_owner r' \<and> mr_epoch r = mr_epoch r' \<and> mr_cp r = mr_cp r'
      \<and> set (mr_deadLetters r) \<subseteq> set (mr_deadLetters r')" by auto
qed

lemma other_steps_kept: "(other_step l)\<^sup>*\<^sup>* s s' \<Longrightarrow> row_kept l (rowk s (lease_key l)) (rowk s' (lease_key l))"
  by (induction rule: rtranclp_induct) (auto intro: row_kept_trans other_step_kept)

section \<open>The world\<close>

record ('e, 'v) interference =
  if_store :: "projection_store \<Rightarrow> projection_store"
  if_saves :: "(('e, 'v) envelope list \<times> stream_state) list"
  if_time :: duration
  if_ctx :: "go_error option"

record ('e, 'v, 'w) mworld =
  mw_store :: projection_store
  mw_log :: "('e, 'v) event_store"
  mw_model :: 'w
  mw_delivered :: "uint64 list"
  mw_now :: gotime
  mw_ctx :: "go_error option"
  mw_sched :: "('e, 'v) interference list"

definition tick :: "('e, 'v) event_impl \<Rightarrow> 'e registry \<Rightarrow> ('e, 'v, 'w) mworld \<Rightarrow> ('e, 'v, 'w) mworld" where
  "tick impl reg x =
     (case mw_sched x of
        [] \<Rightarrow> x
      | i # is \<Rightarrow> x\<lparr>mw_store := if_store i (mw_store x), mw_log := run_saves (Save impl reg (\<lambda>_. mw_now x)) (if_saves i) (mw_log x),
          mw_now := mw_now x + if_time i, mw_ctx := (case mw_ctx x of None \<Rightarrow> if_ctx i | Some e \<Rightarrow> Some e), mw_sched := is\<rparr>)"

text \<open>A handler of the read model, as a handler of the world: it records which event it accepted.\<close>

definition world_handler :: "(('e, 'v) ctx_values \<Rightarrow> 'e option \<Rightarrow> 'w \<Rightarrow> 'w \<times> go_error option)
    \<Rightarrow> ('e, 'v) ctx_values \<Rightarrow> 'e option \<Rightarrow> ('e, 'v, 'w) mworld \<Rightarrow> ('e, 'v, 'w) mworld \<times> go_error option" where
  "world_handler h ctx ev x =
     (case h ctx ev (mw_model x) of
        (w, err) \<Rightarrow>
          (x\<lparr>mw_model := w,
             mw_delivered := (if err = None \<or> As_skipped (the err) then mw_delivered x @ [GlobalPositionFromContext ctx] else mw_delivered x)\<rparr>, err))"

definition mem_Commit :: "('e, 'v) event_impl \<Rightarrow> 'e registry \<Rightarrow> lease \<Rightarrow> checkpoint \<Rightarrow> status
    \<Rightarrow> (('e, 'v, 'w) mworld \<Rightarrow> ('e, 'v, 'w) mworld \<times> go_error option) \<Rightarrow> ('e, 'v, 'w) mworld \<Rightarrow> ('e, 'v, 'w) mworld \<times> go_error option" where
  "mem_Commit impl reg l cp st fn x =
     (let x = tick impl reg x in
      if owned (mw_store x) l = None then (x, Some (Sentinel ErrClaimLost))
      else (case fn x of
          (x, Some err) \<Rightarrow> (x, Some err)
        | (x, None) \<Rightarrow>
            let x = tick impl reg x in
            (case commit_store (mw_now x) (mw_store x) l cp st of (s, err) \<Rightarrow> (x\<lparr>mw_store := s\<rparr>, err))))"

definition mem_Reset :: "('e, 'v) event_impl \<Rightarrow> 'e registry \<Rightarrow> lease \<Rightarrow> int
    \<Rightarrow> (('e, 'v, 'w) mworld \<Rightarrow> ('e, 'v, 'w) mworld \<times> go_error option) \<Rightarrow> ('e, 'v, 'w) mworld \<Rightarrow> ('e, 'v, 'w) mworld \<times> go_error option" where
  "mem_Reset impl reg l newVersion wipe x =
     (let x = tick impl reg x in
      if owned (mw_store x) l = None then (x, Some (Sentinel ErrClaimLost))
      else (case wipe x of
          (x, Some err) \<Rightarrow> (x, Some err)
        | (x, None) \<Rightarrow>
            let x = tick impl reg x in
            (case reset_store (mw_now x) (mw_store x) l newVersion of (s, err) \<Rightarrow> (x\<lparr>mw_store := s\<rparr>, err))))"

text \<open>A method of the store that is one critical section, and one that only reads.\<close>

definition mem_step :: "('e, 'v) event_impl \<Rightarrow> 'e registry \<Rightarrow> (gotime \<Rightarrow> projection_store \<Rightarrow> projection_store \<times> 'a)
    \<Rightarrow> ('e, 'v, 'w) mworld \<Rightarrow> ('e, 'v, 'w) mworld \<times> 'a" where
  "mem_step impl reg f x =
     (let x = tick impl reg x in case f (mw_now x) (mw_store x) of (s, a) \<Rightarrow> (x\<lparr>mw_store := s\<rparr>, a))"

definition mem_ops :: "('e, 'v) event_impl \<Rightarrow> 'e registry \<Rightarrow> (go_error \<Rightarrow> string)
    \<Rightarrow> (('e, 'v, 'w) mworld \<Rightarrow> ('e, 'v, 'w) mworld \<times> duration) \<Rightarrow> (('e, 'v, 'w) mworld \<Rightarrow> ('e, 'v, 'w) mworld)
    \<Rightarrow> ('e, 'v, ('e, 'v, 'w) mworld) runner_ops" where
  "mem_ops impl reg etext backoff resetBackoff =
     \<lparr>o_impl = impl, o_text = etext, o_now = mw_now, o_ctxErr = mw_ctx,
      o_sleep = (\<lambda>d x. let x = tick impl reg x in x\<lparr>mw_now := mw_now x + d\<rparr>),
      o_NextBackOff = backoff, o_ResetBackOff = resetBackoff,
      o_Declare = (\<lambda>name segments ru. mem_step impl reg (\<lambda>now s. Declare s name segments ru)),
      o_Heartbeat = (\<lambda>name who version ttl. mem_step impl reg (\<lambda>now s. case Heartbeat now s name who version ttl of (s, is) \<Rightarrow> (s, Inr is))),
      o_Claim = (\<lambda>l ttl. mem_step impl reg (\<lambda>now s. case Claim now s l ttl of (s, res) \<Rightarrow> (s, Inr res))),
      o_Commit = mem_Commit impl reg, o_Reset = mem_Reset impl reg,
      o_Release = (\<lambda>l. mem_step impl reg (\<lambda>now s. (Release s l, None))),
      o_SaveStatus = (\<lambda>l st. mem_step impl reg (\<lambda>now s. SaveStatus now s l st)),
      o_Rebuilds = (\<lambda>name. mem_step impl reg (\<lambda>now s. (s, Inr (Rebuilds s name)))),
      o_FailRebuild = (\<lambda>l n msg. mem_step impl reg (\<lambda>now s. FailRebuild s l n msg)),
      o_isDeadLetterStore = True,
      o_SaveDeadLetter = (\<lambda>l d. mem_step impl reg (\<lambda>now s. SaveDeadLetter s l d)),
      o_LoadDeadLetters = (\<lambda>name seg. mem_step impl reg (\<lambda>now s. (s, Inr (LoadDeadLetters s name seg)))),
      o_DeleteDeadLetter = (\<lambda>l pos. mem_step impl reg (\<lambda>now s. DeleteDeadLetter s l pos)),
      o_PendingReplays = (\<lambda>name. mem_step impl reg (\<lambda>now s. (s, Inr (PendingReplays s name)))),
      o_FinishReplay = (\<lambda>l n msg. mem_step impl reg (\<lambda>now s. FinishReplay s l n msg)),
      o_ReadAll = (\<lambda>after opts x. let x = tick impl reg x in (x, ReadAll impl reg (mw_ctx x) (mw_log x) after opts)),
      o_Head = (\<lambda>x. let x = tick impl reg x in (x, Inr (Head (mw_log x))))\<rparr>"

section \<open>The runner's view of its segment\<close>

definition mem_wf :: "('e, 'v) event_impl \<Rightarrow> 'e registry \<Rightarrow> lease \<Rightarrow> ('e, 'v, 'w) mworld \<Rightarrow> bool" where
  "mem_wf impl reg l x \<longleftrightarrow> store_ok impl reg (mw_log x) \<and> (\<forall>i \<in> set (mw_sched x). \<forall>s. (other_step l)\<^sup>*\<^sup>* s (if_store i s))"

definition mem_current :: "lease \<Rightarrow> ('e, 'v, 'w) mworld \<Rightarrow> bool" where
  "mem_current l x \<longleftrightarrow> owned (mw_store x) l \<noteq> None"

definition mem_cpos :: "lease \<Rightarrow> ('e, 'v, 'w) mworld \<Rightarrow> uint64" where
  "mem_cpos l x = (case rowk (mw_store x) (lease_key l) of None \<Rightarrow> 0 | Some r \<Rightarrow> cp_Position (mr_cp r))"

definition mem_delivered :: "('e, 'v, 'w) mworld \<Rightarrow> uint64 set" where
  "mem_delivered x = set (mw_delivered x)"

definition mem_lettered :: "lease \<Rightarrow> ('e, 'v, 'w) mworld \<Rightarrow> uint64 set" where
  "mem_lettered l x = (case rowk (mw_store x) (lease_key l) of None \<Rightarrow> {} | Some r \<Rightarrow> dl_Position ` set (mr_deadLetters r))"

definition mem_own :: "('e, 'v) event_impl \<Rightarrow> ('e, 'v, 'x) projection_def \<Rightarrow> nat \<Rightarrow> lease \<Rightarrow> ('e, 'v) envelope \<Rightarrow> bool" where
  "mem_own impl p n l e \<longleftrightarrow> selects impl (page_opts p) e \<and> (n > 1 \<longrightarrow> SegmentOf ((the (d_SegmentKey p)) e) (int n) = Inr (l_Segment l))"

definition mem_owns :: "('e, 'v) event_impl \<Rightarrow> 'e registry \<Rightarrow> ('e, 'v, ('e, 'v, 'w) mworld) projection_def \<Rightarrow> nat \<Rightarrow> lease
    \<Rightarrow> ('e, 'v, 'w) mworld \<Rightarrow> uint64 set" where
  "mem_owns impl reg p n l x = GlobalPosition ` {e \<in> set (log_of impl reg (mw_log x)). mem_own impl p n l e}"

definition mem_tip :: "('e, 'v, 'w) mworld \<Rightarrow> uint64" where
  "mem_tip x = Head (mw_log x)"

interpretation mview: segment_view "mem_wf impl reg l" "mem_current l" "mem_cpos l" mem_delivered "mem_lettered l" "mem_owns impl reg p n l" mem_tip
  for impl :: "('e, 'v) event_impl" and reg :: "'e registry" and l and p :: "('e, 'v, ('e, 'v, 'w) mworld) projection_def" and n .

lemma row_kept_view:
  assumes "row_kept l (rowk (mw_store x) (lease_key l)) (rowk (mw_store x') (lease_key l))" "mem_current l x'"
  shows "mem_current l x \<and> mem_cpos l x' = mem_cpos l x \<and> mem_lettered l x \<subseteq> mem_lettered l x'"
proof -
  obtain r' where r': "owned (mw_store x') l = Some r'" using assms(2) by (auto simp: mem_current_def)
  note o = owned_SomeD [OF r']
  then obtain r where "rowk (mw_store x) (lease_key l) = Some r" "mr_owner r = mr_owner r'" "mr_epoch r = mr_epoch r'"
    "mr_cp r = mr_cp r'" "set (mr_deadLetters r) \<subseteq> set (mr_deadLetters r')"
    using assms(1) by (auto simp: row_kept_def)
  then show ?thesis using o by (auto simp: mem_current_def mem_cpos_def mem_lettered_def owned_def row_rowk)
qed

lemma log_prefix_grows:
  assumes "store_ok impl reg (mw_log x)" "store_ok impl reg (mw_log x')" "prefix (log_of impl reg (mw_log x)) (log_of impl reg (mw_log x'))"
  shows "mview.log_grows impl reg p n l x x'"
proof -
  obtain zs where zs: "log_of impl reg (mw_log x') = log_of impl reg (mw_log x) @ zs" using assms(3) by (auto simp: prefix_def)
  have len: "Head m = length (log_of impl reg m)" for m by (simp add: Head_def log_of_def)
  have "Head (mw_log x) < GlobalPosition e" if e: "e \<in> set zs" for e
  proof -
    obtain i where i: "i < length zs" "zs ! i = e" using e by (auto simp: in_set_conv_nth)
    have "map GlobalPosition (log_of impl reg (mw_log x')) ! (Head (mw_log x) + i) = Suc (Head (mw_log x) + i)"
      unfolding store_ok_positions [OF assms(2)] using i zs by (simp add: len del: upt_Suc)
    then show ?thesis using i zs by (simp add: len nth_append)
  qed
  moreover have "GlobalPosition e \<le> Head (mw_log x)" if "e \<in> set (log_of impl reg (mw_log x))" for e
  proof -
    have "GlobalPosition e \<in> set (map GlobalPosition (log_of impl reg (mw_log x)))" using that by simp
    then show ?thesis unfolding store_ok_positions [OF assms(1)] by (auto simp: len simp del: upt_Suc)
  qed
  ultimately show ?thesis using zs by (fastforce simp: mview.log_grows_def mem_tip_def mem_owns_def len)
qed

lemma frame_rows:
  assumes "mem_wf impl reg l x" "mw_log x' = mw_log x" "mw_sched x' = mw_sched x" "set (mw_delivered x) \<subseteq> set (mw_delivered x')"
    and "row_kept l (rowk (mw_store x) (lease_key l)) (rowk (mw_store x') (lease_key l))"
  shows "mview.frame impl reg l p n x x'"
proof -
  have "mview.log_grows impl reg p n l x x'" using assms(1,2) by (intro log_prefix_grows) (simp_all add: mem_wf_def)
  then show ?thesis using assms(1-4) row_kept_view [OF assms(5)]
    by (auto simp: mview.frame_def mview.accounted_def mem_wf_def mem_delivered_def)
qed

lemma frame_tick:
  assumes "mem_wf impl reg l x"
  shows "mview.frame impl reg l p n x (tick impl reg x)"
proof (cases "mw_sched x")
  case Nil
  then show ?thesis using assms by (simp add: tick_def)
next
  case (Cons i rest)
  let ?x = "tick impl reg x"
  have x: "mw_store ?x = if_store i (mw_store x)" "mw_log ?x = run_saves (Save impl reg (\<lambda>_. mw_now x)) (if_saves i) (mw_log x)"
    "mw_sched ?x = rest" "mw_delivered ?x = mw_delivered x"
    using Cons by (simp_all add: tick_def)
  have ok: "store_ok impl reg (mw_log x)" "(other_step l)\<^sup>*\<^sup>* (mw_store x) (mw_store ?x)" using assms Cons x(1) by (auto simp: mem_wf_def)
  note log = run_saves_log [OF ok(1), of "\<lambda>_. mw_now x" "if_saves i"]
  have "mview.log_grows impl reg p n l x ?x" using ok(1) log by (intro log_prefix_grows) (simp_all add: x(2))
  moreover have "mem_wf impl reg l ?x" using assms log Cons by (simp add: mem_wf_def x(2,3))
  ultimately show ?thesis using row_kept_view [OF other_steps_kept [OF ok(2)]]
    by (auto simp: mview.frame_def mview.accounted_def mem_delivered_def x(4))
qed

lemma frame_step:
  assumes "mem_wf impl reg l x" "\<And>now s. row_kept l (rowk s (lease_key l)) (rowk (fst (f now s)) (lease_key l))"
  shows "mview.frame impl reg l p n x (fst (mem_step impl reg f x))"
proof -
  let ?x = "tick impl reg x"
  have t: "mview.frame impl reg l p n x ?x" by (rule frame_tick [OF assms(1)])
  have "mview.frame impl reg l p n ?x (fst (mem_step impl reg f x))"
    using assms(2) [of "mw_store ?x" "mw_now ?x"]
    by (intro frame_rows [OF mview.frame_wf [OF t]]) (auto simp: mem_step_def Let_def split: prod.split)
  then show ?thesis by (rule mview.frame_trans [OF t])
qed

lemma frame_idle: "mem_wf impl reg l x \<Longrightarrow> mview.frame impl reg l p n x (fst (mem_step impl reg (\<lambda>now s. (s, g s)) x))"
  by (rule frame_step) simp_all

lemma position_in_context: "GlobalPositionFromContext (withEnvelope impl ctx env ru) = GlobalPosition env"
  by (simp add: GlobalPositionFromContext_def withEnvelope_def WithEnvelope_def WithCausationID_def WithCorrelationID_def Let_def)

lemma handle_world:
  "handle (mem_ops impl reg etext bo rb) (p\<lparr>d_Handler := Some (world_handler h)\<rparr>) ru env x =
   (case h (withEnvelope impl Background env ru) (Event env) (mw_model x) of
      (w, err) \<Rightarrow>
        (x\<lparr>mw_model := w,
           mw_delivered := (if err = None \<or> As_skipped (the err) then mw_delivered x @ [GlobalPosition env] else mw_delivered x)\<rparr>,
         case err of None \<Rightarrow> None | Some e \<Rightarrow> if As_skipped e then None else Some (HandlerError (GlobalPosition env) e)))"
  by (cases "h (withEnvelope impl Background env ru) (Event env) (mw_model x)")
    (simp add: handle_def mem_ops_def world_handler_def position_in_context split: option.split)

lemma frame_handle:
  assumes "mem_wf impl reg l x" "handle (mem_ops impl reg etext bo rb) (p\<lparr>d_Handler := Some (world_handler h)\<rparr>) ru env x = (x', err)"
  shows "mview.frame impl reg l q n x x' \<and> (err = None \<longrightarrow> GlobalPosition env \<in> mem_delivered x')"
proof -
  have "mview.frame impl reg l q n x x'"
    by (rule frame_rows [OF assms(1)]) (use assms(2) in \<open>auto simp: handle_world split: prod.splits\<close>)
  moreover have "err = None \<longrightarrow> GlobalPosition env \<in> mem_delivered x'"
    using assms(2) by (auto simp: handle_world mem_delivered_def split: prod.splits option.splits if_splits)
  ultimately show ?thesis by blast
qed

lemma frame_save_letter:
  assumes "mem_wf impl reg l x" "mem_step impl reg (\<lambda>now s. SaveDeadLetter s l d) x = (x', err)"
  shows "mview.frame impl reg l p n x x' \<and> (err = None \<longrightarrow> dl_Position d \<in> mem_lettered l x')"
proof -
  have "mview.frame impl reg l p n x (fst (mem_step impl reg (\<lambda>now s. SaveDeadLetter s l d) x))"
    by (rule frame_step [OF assms(1)]) (rule other_dead(1))
  moreover have "err = None \<longrightarrow> dl_Position d \<in> mem_lettered l x'"
    using assms(2) by (auto simp: mem_step_def Let_def SaveDeadLetter_def row_rowk mem_lettered_def rowk_put_row split: option.splits)
  ultimately show ?thesis using assms(2) by simp
qed

lemma frame_delete_letter:
  assumes "mem_wf impl reg l x" "mem_step impl reg (\<lambda>now s. DeleteDeadLetter s l pos) x = (x', err)" "pos \<in> mem_delivered x"
  shows "mview.frame impl reg l p n x x'"
proof -
  let ?x = "tick impl reg x"
  have t: "mview.frame impl reg l p n x ?x" by (rule frame_tick [OF assms(1)])
  have wf: "mem_wf impl reg l ?x" by (rule mview.frame_wf [OF t])
  have del: "mw_delivered ?x = mw_delivered x" by (simp add: tick_def split: list.split)
  have x': "mw_log x' = mw_log ?x" "mw_sched x' = mw_sched ?x" "mw_delivered x' = mw_delivered ?x" "mw_store x' = fst (DeleteDeadLetter (mw_store ?x) l pos)"
    using assms(2) by (auto simp: mem_step_def Let_def split: prod.splits)
  have "mview.log_grows impl reg p n l ?x x'" using wf x'(1) by (intro log_prefix_grows) (simp_all add: mem_wf_def)
  moreover have "mem_current l x' = mem_current l ?x" "mem_cpos l x' = mem_cpos l ?x" "mem_lettered l ?x \<subseteq> insert pos (mem_lettered l x')"
    by (auto simp: mem_current_def mem_cpos_def mem_lettered_def owned_def row_rowk x'(4) DeleteDeadLetter_def rowk_put_row split: option.splits)
  ultimately have "mview.frame impl reg l p n ?x x'" using wf assms(3) x' del
    by (auto simp: mview.frame_def mview.accounted_def mem_wf_def mem_delivered_def)
  then show ?thesis by (rule mview.frame_trans [OF t])
qed

lemma mem_Commit_ok:
  assumes "mem_wf impl reg l x" "mem_Commit impl reg l cp st fn x = (x', None)" "\<And>y. mem_wf impl reg l y \<Longrightarrow> mview.frame impl reg l p n y (fst (fn y))"
  shows "\<exists>x0 x1 x2. mview.frame impl reg l p n x x0 \<and> mem_current l x0 \<and> fn x0 = (x1, None) \<and> mview.frame impl reg l p n x1 x2 \<and> mem_current l x2
    \<and> mem_wf impl reg l x' \<and> mem_owns impl reg p n l x' = mem_owns impl reg p n l x2 \<and> mem_tip x' = mem_tip x2
    \<and> mem_cpos l x' = cp_Position cp \<and> mview.accounted l x' = mview.accounted l x2"
proof -
  let ?x0 = "tick impl reg x"
  have f0: "mview.frame impl reg l p n x ?x0" by (rule frame_tick [OF assms(1)])
  have own0: "owned (mw_store ?x0) l \<noteq> None" using assms(2) by (auto simp: mem_Commit_def Let_def split: if_splits)
  obtain x1 e1 where fn: "fn ?x0 = (x1, e1)" by fastforce
  have e1: "e1 = None" using assms(2) own0 fn by (auto simp: mem_Commit_def Let_def split: option.splits)
  have wf1: "mem_wf impl reg l x1" using assms(3) [OF mview.frame_wf [OF f0]] fn mview.frame_wf by simp
  let ?x2 = "tick impl reg x1"
  have f2: "mview.frame impl reg l p n x1 ?x2" by (rule frame_tick [OF wf1])
  have c: "commit_store (mw_now ?x2) (mw_store ?x2) l cp st = (mw_store x', None)" "x' = ?x2\<lparr>mw_store := mw_store x'\<rparr>"
    using assms(2) own0 fn e1 by (auto simp: mem_Commit_def Let_def split: prod.splits)
  obtain r where r: "owned (mw_store ?x2) l = Some r" using c(1) by (auto simp: commit_store_def split: option.splits)
  have row: "rowk (mw_store x') (lease_key l) = Some (r\<lparr>mr_cp := cp, mr_status := st, mr_heartbeat := mw_now ?x2\<rparr>)"
  proof -
    have "mw_store x' = put_row (mw_store ?x2) l (r\<lparr>mr_cp := cp, mr_status := st, mr_heartbeat := mw_now ?x2\<rparr>)"
      using c(1) r by (simp add: commit_store_def)
    then show ?thesis by (simp add: rowk_commit(1) [OF r])
  qed
  have same: "mw_log x' = mw_log ?x2" "mw_sched x' = mw_sched ?x2" "mw_delivered x' = mw_delivered ?x2"
    using arg_cong [OF c(2), of mw_log] arg_cong [OF c(2), of mw_sched] arg_cong [OF c(2), of mw_delivered] by simp_all
  have "mem_wf impl reg l x'" using mview.frame_wf [OF f2] by (simp add: mem_wf_def same)
  moreover have "mview.accounted l x' = mview.accounted l ?x2"
    using row rowk_commit(2) [OF r] by (simp add: mview.accounted_def mem_delivered_def mem_lettered_def same)
  moreover have "mem_cpos l x' = cp_Position cp" using row by (simp add: mem_cpos_def)
  moreover have "mem_owns impl reg p n l x' = mem_owns impl reg p n l ?x2" "mem_tip x' = mem_tip ?x2"
    by (simp_all add: mem_owns_def mem_tip_def same)
  ultimately show ?thesis using f0 f2 own0 r fn e1
    by (intro exI [of _ ?x0] exI [of _ x1] exI [of _ ?x2]) (simp add: mem_current_def)
qed

lemma mem_Commit_err:
  assumes "mem_wf impl reg l x" "mem_Commit impl reg l cp st fn x = (x', Some e)" "\<And>y. mem_wf impl reg l y \<Longrightarrow> mview.frame impl reg l p n y (fst (fn y))"
  shows "mview.frame impl reg l p n x x'"
proof -
  let ?x0 = "tick impl reg x"
  have f0: "mview.frame impl reg l p n x ?x0" by (rule frame_tick [OF assms(1)])
  obtain x1 e1 where fn: "fn ?x0 = (x1, e1)" by fastforce
  have f1: "mview.frame impl reg l p n ?x0 x1" using assms(3) [OF mview.frame_wf [OF f0]] fn by simp
  have f2: "mview.frame impl reg l p n x1 (tick impl reg x1)" by (rule frame_tick [OF mview.frame_wf [OF f1]])
  consider "owned (mw_store ?x0) l = None" "x' = ?x0" | "x' = x1" | "x' = tick impl reg x1"
    using assms(2) fn by (cases e1) (auto simp: mem_Commit_def Let_def commit_store_def split: if_splits option.splits)
  then show ?thesis
    using f0 mview.frame_trans [OF f0 f1] mview.frame_trans [OF mview.frame_trans [OF f0 f1] f2] by cases simp_all
qed

lemma mem_page:
  assumes "mem_wf impl reg l x" "o_ReadAll (mem_ops impl reg etext bo rb) after (page_opts q) x = (x', Inr res)"
    and "page_opts q = page_opts p" "d_SegmentKey q = d_SegmentKey p"
  shows "sorted_wrt (<) (map GlobalPosition (page_own q n (l_Segment l) (rr_Events res)))
    \<and> GlobalPosition ` set (page_own q n (l_Segment l) (rr_Events res)) = mem_owns impl reg p n l x' \<inter> {after<..rr_Next res}
    \<and> rr_Next res \<le> max after (mem_tip x')"
proof -
  have x': "x' = tick impl reg x" "ReadAll impl reg (mw_ctx x') (mw_log x') after (page_opts p) = Inr res"
    using assms(2,3) by (auto simp: mem_ops_def Let_def)
  then have rd: "ReadAll impl reg None (mw_log x') after (page_opts p) = Inr res" by (cases "mw_ctx x'") (auto simp: ReadAll_def)
  have "mem_wf impl reg l x'" using mview.frame_wf [OF frame_tick [OF assms(1)]] x'(1) by blast
  then have ok: "store_ok impl reg (mw_log x')" by (simp add: mem_wf_def)
  note ev = mlog.page_events [OF ok rd] and nx = mlog.page_next [OF ok rd]
  have "sorted_wrt (<) (map GlobalPosition (rr_Events res))" unfolding ev
    using mlog.ascending [OF ok] by (simp add: sorted_wrt_map sorted_wrt_filter)
  then have "sorted_wrt (<) (map GlobalPosition (page_own q n (l_Segment l) (rr_Events res)))"
    by (simp add: page_own_def sorted_wrt_map sorted_wrt_filter)
  moreover have "GlobalPosition ` set (page_own q n (l_Segment l) (rr_Events res)) = mem_owns impl reg p n l x' \<inter> {after<..rr_Next res}"
    unfolding page_own_def ev using assms(4) by (auto simp: mem_owns_def mem_own_def)
  moreover have le: "GlobalPosition e \<le> Head (mw_log x')" if "e \<in> set (log_of impl reg (mw_log x'))" for e
  proof -
    have "GlobalPosition e \<in> set (map GlobalPosition (log_of impl reg (mw_log x')))" using that by simp
    then show ?thesis unfolding store_ok_positions [OF ok] by (auto simp: Head_def log_of_def simp del: upt_Suc)
  qed
  moreover have "rr_Next res \<le> max after (mem_tip x')" using nx le by (auto simp: mem_tip_def le_max_iff_disj)
  ultimately show ?thesis by simp
qed

interpretation mrun: segment_store "mem_wf impl reg l" "mem_current l" "mem_cpos l" mem_delivered "mem_lettered l" "mem_owns impl reg p n l" mem_tip
    "mem_ops impl reg etext bo rb" "p\<lparr>d_Handler := Some (world_handler h)\<rparr>" n "l_Segment l" l
  for impl :: "('e, 'v) event_impl" and reg :: "'e registry" and l and p :: "('e, 'v, ('e, 'v, 'w) mworld) projection_def" and n and etext and bo and rb and h
proof
  fix x x' :: "('e, 'v, 'w) mworld" and fn :: "('e, 'v, 'w) mworld \<Rightarrow> ('e, 'v, 'w) mworld \<times> go_error option" and cp st
  assume wf: "mem_wf impl reg l x" and fn: "\<And>y. mem_wf impl reg l y \<Longrightarrow> mview.frame impl reg l p n y (fst (fn y))"
  show "o_Commit (mem_ops impl reg etext bo rb) l cp st fn x = (x', None) \<Longrightarrow>
      \<exists>x0 x1 x2. mview.frame impl reg l p n x x0 \<and> mem_current l x0 \<and> fn x0 = (x1, None) \<and> mview.frame impl reg l p n x1 x2 \<and> mem_current l x2
      \<and> mem_wf impl reg l x' \<and> mem_owns impl reg p n l x' = mem_owns impl reg p n l x2 \<and> mem_tip x' = mem_tip x2
      \<and> mem_cpos l x' = cp_Position cp \<and> mview.accounted l x' = mview.accounted l x2"
    by (rule mem_Commit_ok [OF wf _ fn]) (simp_all add: mem_ops_def)
  show "o_Commit (mem_ops impl reg etext bo rb) l cp st fn x = (x', Some e) \<Longrightarrow> mview.frame impl reg l p n x x'" for e
    by (rule mem_Commit_err [OF wf _ fn]) (simp_all add: mem_ops_def)
next
  fix x x' :: "('e, 'v, 'w) mworld" and ru env err d pos after opts res st number msg name dur
  assume wf: "mem_wf impl reg l x"
  show "handle (mem_ops impl reg etext bo rb) (p\<lparr>d_Handler := Some (world_handler h)\<rparr>) ru env x = (x', err) \<Longrightarrow>
      mview.frame impl reg l p n x x' \<and> (err = None \<longrightarrow> GlobalPosition env \<in> mem_delivered x')" by (rule frame_handle [OF wf])
  show "o_SaveDeadLetter (mem_ops impl reg etext bo rb) l d x = (x', err) \<Longrightarrow>
      mview.frame impl reg l p n x x' \<and> (err = None \<longrightarrow> dl_Position d \<in> mem_lettered l x')"
    by (rule frame_save_letter [OF wf]) (simp add: mem_ops_def)
  show "o_DeleteDeadLetter (mem_ops impl reg etext bo rb) l pos x = (x', err) \<Longrightarrow> pos \<in> mem_delivered x \<Longrightarrow> mview.frame impl reg l p n x x'"
    by (rule frame_delete_letter [OF wf]) (simp_all add: mem_ops_def)
  show "mview.frame impl reg l p n x (fst (o_ReadAll (mem_ops impl reg etext bo rb) after opts x))"
    using frame_tick [OF wf] by (simp add: mem_ops_def Let_def)
  show "mview.frame impl reg l p n x (fst (o_Head (mem_ops impl reg etext bo rb) x))"
    using frame_tick [OF wf] by (simp add: mem_ops_def Let_def)
  show "mview.frame impl reg l p n x (fst (o_SaveStatus (mem_ops impl reg etext bo rb) l st x))"
    unfolding mem_ops_def runner_ops.simps by (rule frame_step [OF wf]) (rule other_status)
  show "mview.frame impl reg l p n x (fst (o_Rebuilds (mem_ops impl reg etext bo rb) name x))"
    unfolding mem_ops_def runner_ops.simps by (rule frame_idle [OF wf])
  show "mview.frame impl reg l p n x (fst (o_LoadDeadLetters (mem_ops impl reg etext bo rb) name (l_Segment l) x))"
    unfolding mem_ops_def runner_ops.simps by (rule frame_idle [OF wf])
  show "mview.frame impl reg l p n x (fst (o_FinishReplay (mem_ops impl reg etext bo rb) l number msg x))"
    unfolding mem_ops_def runner_ops.simps by (rule frame_step [OF wf]) simp
  have "mview.frame impl reg l p n (tick impl reg x) ((tick impl reg x)\<lparr>mw_now := mw_now (tick impl reg x) + dur\<rparr>)"
    by (rule frame_rows [OF mview.frame_wf [OF frame_tick [OF wf]]]) simp_all
  then show "mview.frame impl reg l p n x (o_sleep (mem_ops impl reg etext bo rb) dur x)"
    using mview.frame_trans [OF frame_tick [OF wf]] by (simp add: mem_ops_def Let_def)
  show "o_ReadAll (mem_ops impl reg etext bo rb) after (page_opts (p\<lparr>d_Handler := Some (world_handler h)\<rparr>)) x = (x', Inr res) \<Longrightarrow>
      sorted_wrt (<) (map GlobalPosition (page_own (p\<lparr>d_Handler := Some (world_handler h)\<rparr>) n (l_Segment l) (rr_Events res)))
      \<and> GlobalPosition ` set (page_own (p\<lparr>d_Handler := Some (world_handler h)\<rparr>) n (l_Segment l) (rr_Events res))
          = mem_owns impl reg p n l x' \<inter> {after<..rr_Next res}
      \<and> rr_Next res \<le> max after (mem_tip x')"
    by (rule mem_page [OF wf]) (simp_all add: page_opts_def)
qed (simp add: mem_ops_def)

section \<open>No event is lost\<close>

text \<open>The segment of the lease, of a projection split into \<open>n\<close>, has no gap: each of its events up to its stored
  checkpoint was accepted by the handler or is among its dead letters.\<close>

definition no_gap :: "('e, 'v) event_impl \<Rightarrow> 'e registry \<Rightarrow> ('e, 'v, ('e, 'v, 'w) mworld) projection_def \<Rightarrow> nat \<Rightarrow> lease
    \<Rightarrow> ('e, 'v, 'w) mworld \<Rightarrow> bool" where
  "no_gap impl reg p n l x \<longleftrightarrow> mem_cpos l x \<le> Head (mw_log x)
     \<and> (\<forall>e \<in> set (log_of impl reg (mw_log x)). mem_own impl p n l e \<and> GlobalPosition e \<le> mem_cpos l x
          \<longrightarrow> GlobalPosition e \<in> set (mw_delivered x) \<or> GlobalPosition e \<in> mem_lettered l x)"

text \<open>The runner works on the lease's segment of the projection \<open>p\<close> with the handler \<open>h\<close>.\<close>

definition works_on :: "('e, 'v, ('e, 'v, 'w) mworld) projection_def \<Rightarrow> (('e, 'v) ctx_values \<Rightarrow> 'e option \<Rightarrow> 'w \<Rightarrow> 'w \<times> go_error option)
    \<Rightarrow> nat \<Rightarrow> lease \<Rightarrow> ('e, 'v, ('e, 'v, 'w) mworld) runner \<Rightarrow> bool" where
  "works_on p h n l r \<longleftrightarrow> lease_of r (l_Segment l) = l \<and> r_p r = p\<lparr>d_Handler := Some (world_handler h)\<rparr> \<and> r_segments r = n
     \<and> l_Segment l < length (r_segs r)"

lemma no_gap_covered: "no_gap impl reg p n l x \<longleftrightarrow> mview.covered l impl reg p n x"
  by (auto simp: no_gap_def mview.covered_def mview.accounted_def mem_tip_def mem_owns_def mem_delivered_def)

lemma works_on_own: "works_on p h n l r \<longleftrightarrow> mrun.own_runner h p n l r"
  by (simp add: works_on_def mrun.own_runner_def)

text \<open>Coverage, turn by turn: for every handler and every schedule of saves, other instances' steps, time and
  cancellation, when a runner without a reset function starts a turn of a segment's loop with no gap and at the stored
  checkpoint, or with its lease lost, then after the turn either the lease is lost or the segment again has no gap;
  and a turn that ends without an error leaves the runner at the stored checkpoint, which did not move back.\<close>

theorem turn_leaves_no_gap:
  fixes h :: "('e, 'v) ctx_values \<Rightarrow> 'e option \<Rightarrow> 'w \<Rightarrow> 'w \<times> go_error option"
  assumes "mem_wf impl reg l x" "works_on p h n l r" "d_Reset p = None"
    and "owned (mw_store x) l \<noteq> None \<Longrightarrow> no_gap impl reg p n l x \<and> mem_cpos l x = cp_Position cp"
  shows "case work_turn (mem_ops impl reg etext bo rb) (l_Segment l) asked cp (r, x) of ((r', x'), asked', res) \<Rightarrow>
     mem_wf impl reg l x' \<and> works_on p h n l r'
     \<and> (owned (mw_store x') l \<noteq> None \<longrightarrow> no_gap impl reg p n l x')
     \<and> (case res of Inl err \<Rightarrow> True
        | Inr cp' \<Rightarrow> cp_Position cp \<le> cp_Position cp' \<and> (owned (mw_store x') l \<noteq> None \<longrightarrow> mem_cpos l x' = cp_Position cp'))"
proof -
  obtain r' x' asked' res where t: "work_turn (mem_ops impl reg etext bo rb) (l_Segment l) asked cp (r, x) = ((r', x'), asked', res)"
    by (rule rx3_cases)
  have at: "mview.at impl reg l p n (cp_Position cp) x"
    using assms(1,4) by (simp add: mview.at_def mem_current_def no_gap_covered)
  have own: "mrun.own_runner h p n l r" using assms(2) by (simp add: works_on_own)
  have "d_Reset (p\<lparr>d_Handler := Some (world_handler h)\<rparr>) = None" using assms(3) by simp
  from mrun.work_turn_at [OF at own this t] show ?thesis
    by (auto simp: t works_on_own mview.at_def mrun.settled_def mem_current_def no_gap_covered split: sum.splits)
qed


section \<open>An example run\<close>

text \<open>Instance a holds segment 0 of the example store and reads the example log; instance b claims segment 1 meanwhile.\<close>

type_synonym demo_mworld = "(string, unit, string list) mworld"

definition demo_h :: "(string, unit) ctx_values \<Rightarrow> string option \<Rightarrow> string list \<Rightarrow> string list \<times> go_error option" where
  "demo_h ctx ev w = (case ev of None \<Rightarrow> (w, None) | Some e \<Rightarrow> (w @ [e], None))"

definition demo_mdef :: "(string, unit, demo_mworld) projection_def" where
  "demo_mdef = demo_def"

definition demo_ml :: lease where
  "demo_ml = demo_la\<lparr>l_Epoch := 1\<rparr>"

definition demo_entry :: "(string, unit) interference" where
  "demo_entry = \<lparr>if_store = (\<lambda>s. fst (Claim 5 s (demo_la\<lparr>l_Segment := 1, l_Owner := ''b''\<rparr>) 10)), if_saves = [], if_time = 1, if_ctx = None\<rparr>"

definition demo_world :: "go_error option \<Rightarrow> demo_mworld" where
  "demo_world ctxErr = \<lparr>mw_store = demo_p1, mw_log = demo_store, mw_model = [], mw_delivered = [], mw_now = 1001, mw_ctx = ctxErr, mw_sched = [demo_entry]\<rparr>"

definition demo_mrunner :: "(string, unit, demo_mworld) runner" where
  "demo_mrunner = upd_seg 0 (\<lambda>g. g\<lparr>ss_lease := demo_ml\<rparr>)
     (projr (NewRunner demo_reg None 1 [] True True (demo_mdef\<lparr>d_Handler := Some (world_handler demo_h)\<rparr>)))"

definition demo_mops :: "(string, unit, demo_mworld) runner_ops" where
  "demo_mops = mem_ops demo_impl demo_reg (\<lambda>_. ''err'') (\<lambda>x. (x, 1)) (\<lambda>x. x)"

lemma demo_wf: "mem_wf demo_impl demo_reg demo_ml (demo_world c)"
  by (auto simp: mem_wf_def demo_world_def demo_entry_def demo_ml_def demo_la_def lease_key_def intro!: other_step.o_claim)

lemma demo_mrunner_new: "\<exists>r. NewRunner demo_reg None 1 [] True True (demo_mdef\<lparr>d_Handler := Some (world_handler demo_h)\<rparr>) = Inr r
    \<and> length (r_segs r) = 2 \<and> r_segments r = 2
    \<and> r_p r = (default_def demo_mdef)\<lparr>d_Handler := Some (world_handler demo_h), d_Owner := ownerOf None 1 [] ''a''\<rparr>"
  by (simp add: NewRunner_def Let_def demo_mdef_def demo_def_def default_def_def NewEventByName_def demo_reg_def
      DefaultPollInterval_def DefaultClaimTTL_def)

definition demo_mp :: "(string, unit, demo_mworld) projection_def" where
  "demo_mp = (default_def demo_mdef)\<lparr>d_Owner := ownerOf None 1 [] ''a''\<rparr>"

lemma demo_works: "works_on demo_mp demo_h 2 demo_ml demo_mrunner" "d_Reset demo_mp = None"
proof -
  obtain r where r: "NewRunner demo_reg None 1 [] True True (demo_mdef\<lparr>d_Handler := Some (world_handler demo_h)\<rparr>) = Inr r"
    "length (r_segs r) = 2" "r_segments r = 2"
    "r_p r = (default_def demo_mdef)\<lparr>d_Handler := Some (world_handler demo_h), d_Owner := ownerOf None 1 [] ''a''\<rparr>"
    using demo_mrunner_new by blast
  then show "works_on demo_mp demo_h 2 demo_ml demo_mrunner"
    by (simp add: works_on_def demo_mrunner_def demo_mp_def lease_of_def upd_seg_def demo_ml_def demo_la_def)
  show "d_Reset demo_mp = None" by (simp add: demo_mp_def default_def_def Let_def demo_mdef_def demo_def_def)
qed

lemma demo_start: "no_gap demo_impl demo_reg demo_mp 2 demo_ml (demo_world c) \<and> mem_cpos demo_ml (demo_world c) = cp_Position zero_checkpoint"
proof -
  have c: "mem_cpos demo_ml (demo_world c) = 0"
    by (simp add: mem_cpos_def demo_world_def rowk_def lease_key_def demo_ml_def demo_pdefs demo_pops)
  then show ?thesis by (auto simp: no_gap_def zero_checkpoint_def demo_world_def demo_log stamped_def)
qed

theorem turn_leaves_no_gap_witness:
  "mem_wf demo_impl demo_reg demo_ml (snd (fst (work_turn demo_mops (l_Segment demo_ml) 0 zero_checkpoint (demo_mrunner, demo_world None))))
   \<and> works_on demo_mp demo_h 2 demo_ml (fst (fst (work_turn demo_mops (l_Segment demo_ml) 0 zero_checkpoint (demo_mrunner, demo_world None))))"
  using turn_leaves_no_gap [OF demo_wf demo_works demo_start, of "\<lambda>_. ''err''" "\<lambda>x. (x, 1)" "\<lambda>x. x" 0]
  unfolding demo_mops_def [symmetric] by (auto simp: case_prod_beta)


end
