(* ===== verification/Proj_Probe_Props.thy ===== *)
theory Proj_Probe_Props
  imports Proj_Probe Proj_Memory_Run
begin

text \<open>
  What a wait on a probe promises, whatever other waits, the pollers and the store do: it returns nil only on
  statuses its own poller read from the store and that reached the position, no wake-up is lost, and with
  the in-memory store a caller then reads its own writes.
\<close>

section \<open>The invariant of waits and pollers\<close>

definition inside :: "wait_pc \<Rightarrow> bool" where
  "inside pc \<longleftrightarrow> (case pc of WOut \<Rightarrow> False | WDone _ \<Rightarrow> False | _ \<Rightarrow> True)"

definition waiting :: "'x probe_sys \<Rightarrow> nat set" where
  "waiting s = {w. inside (pb_wait s w)}"

definition pollers_inv :: "'x probe_sys \<Rightarrow> bool" where
  "pollers_inv s \<longleftrightarrow> finite (waiting s) \<and> pr_waiters (pb_probe s) = card (waiting s)
     \<and> (pr_stop (pb_probe s) = None \<longleftrightarrow> waiting s = {})
     \<and> (\<forall>w \<in> waiting s. pr_stop (pb_probe s) = Some (pb_session s w))
     \<and> (\<forall>k. pr_stop (pb_probe s) = Some k \<longrightarrow> k < pb_next s \<and> (pb_poll s k = PTimer \<or> (\<exists>res. pb_poll s k = PRead res)))"

text \<open>What a wait for \<open>q\<close> that began under poller \<open>k\<close> knows, given the reads so far.\<close>

definition result_ok :: "probe \<Rightarrow> (nat \<times> 'x \<times> (go_error + status list)) list \<Rightarrow> nat \<Rightarrow> uint64 \<Rightarrow> not_reached option \<Rightarrow> bool" where
  "result_ok p reads k q res =
     (case res of
        None \<Rightarrow> \<exists>x sts. (k, x, Inr sts) \<in> set reads \<and> reached p sts q
      | Some e \<Rightarrow> nr_Position e = q \<and> nr_Err e \<noteq> None \<and> \<not> reached p (nr_Statuses e) q)"

definition wait_ok :: "probe \<Rightarrow> (nat \<times> 'x \<times> (go_error + status list)) list \<Rightarrow> nat \<Rightarrow> uint64 \<Rightarrow> wait_pc \<Rightarrow> bool" where
  "wait_ok p reads k q pc =
     (case pc of
        WBlocked ch sts e \<Rightarrow> ch \<le> pr_changed p \<and> \<not> reached p sts q
      | WLeaving res \<Rightarrow> result_ok p reads k q res
      | WDone res \<Rightarrow> result_ok p reads k q res
      | _ \<Rightarrow> True)"

definition polled_ok :: "('x \<Rightarrow> (go_error + status list) \<Rightarrow> bool) \<Rightarrow> 'x probe_sys \<Rightarrow> bool" where
  "polled_ok load s \<longleftrightarrow> (\<forall>(k, x, res) \<in> set (pb_reads s). load x res)
     \<and> (\<forall>k res. pb_poll s k = PRead res \<longrightarrow> (\<exists>x. (k, x, res) \<in> set (pb_reads s)))
     \<and> (\<forall>k. pr_stop (pb_probe s) = Some k \<longrightarrow> pr_statuses (pb_probe s) = [] \<or> (\<exists>x. (k, x, Inr (pr_statuses (pb_probe s))) \<in> set (pb_reads s)))"

definition reads_inv :: "('x \<Rightarrow> (go_error + status list) \<Rightarrow> bool) \<Rightarrow> (nat \<Rightarrow> uint64) \<Rightarrow> nat \<Rightarrow> 'x probe_sys \<Rightarrow> bool" where
  "reads_inv load pos n s \<longleftrightarrow> pr_segments (pb_probe s) = n \<and> polled_ok load s
     \<and> (\<forall>w. wait_ok (pb_probe s) (pb_reads s) (pb_session s w) (pos w) (pb_wait s w))"

lemma wait_ok_mono:
  assumes "wait_ok p reads k q pc" "reached p' = reached p" "pr_changed p \<le> pr_changed p'" "set reads \<subseteq> set reads'"
  shows "wait_ok p' reads' k q pc"
proof -
  have "result_ok p reads k q res \<Longrightarrow> result_ok p' reads' k q res" for res
    using assms(2,4) by (cases res) (auto simp: result_ok_def)
  then show ?thesis using assms by (cases pc) (auto simp: wait_ok_def)
qed

lemma reached_cong: "pr_segments p = pr_segments q \<Longrightarrow> reached p = reached q"
  by (auto simp: reached_def probe_complete_def fun_eq_iff)

lemma probe_ops_segments [simp]:
  "pr_segments (wait_enter k p) = pr_segments p" "pr_segments (wait_leave p) = pr_segments p" "pr_segments (poll_publish k res p) = pr_segments p"
  by (simp_all add: wait_enter_def wait_leave_def poll_publish_def Let_def split: sum.split)

lemma reached_ops [simp]:
  "reached (wait_enter k p) = reached p" "reached (wait_leave p) = reached p" "reached (poll_publish k res p) = reached p"
  by (rule reached_cong; simp)+

lemma inside_simps [simp]:
  "\<not> inside WOut" "inside WTop" "inside (WBlocked c t e)" "inside (WLeaving r)" "\<not> inside (WDone r)" "inside (wait_check p q)"
  "inside (wait_cancelled p q t e ce)"
  by (simp_all add: inside_def wait_check_def wait_cancelled_def)

lemma waiting_upd:
  "waiting (s\<lparr>pb_wait := (pb_wait s)(w := pc)\<rparr>) = (if inside pc then insert w (waiting s) else waiting s - {w})"
  by (auto simp: waiting_def)

lemma waiting_frame [simp]:
  "waiting (s\<lparr>pb_probe := p\<rparr>) = waiting s" "waiting (s\<lparr>pb_poll := q\<rparr>) = waiting s" "waiting (s\<lparr>pb_next := n\<rparr>) = waiting s"
  "waiting (s\<lparr>pb_store := x\<rparr>) = waiting s" "waiting (s\<lparr>pb_session := f\<rparr>) = waiting s" "waiting (s\<lparr>pb_reads := rs\<rparr>) = waiting s"
  by (simp_all add: waiting_def)

lemma wait_enter_fields [simp]:
  "pr_waiters (wait_enter k p) = pr_waiters p + 1" "pr_stop (wait_enter k p) = (if pr_waiters p = 0 then Some k else pr_stop p)"
  "pr_statuses (wait_enter k p) = (if pr_waiters p = 0 then [] else pr_statuses p)" "pr_changed (wait_enter k p) = pr_changed p"
  by (simp_all add: wait_enter_def Let_def)

lemma wait_leave_fields [simp]:
  "pr_waiters (wait_leave p) = pr_waiters p - 1" "pr_stop (wait_leave p) = (if pr_waiters p \<le> 1 then None else pr_stop p)"
  "pr_statuses (wait_leave p) = pr_statuses p" "pr_changed (wait_leave p) = pr_changed p"
  by (auto simp: wait_leave_def Let_def)

lemma publish_frame [simp]: "pr_stop (poll_publish k res p) = pr_stop p" "pr_waiters (poll_publish k res p) = pr_waiters p"
  by (simp_all add: poll_publish_def split: sum.split)

lemma publish_changed: "pr_changed p \<le> pr_changed (poll_publish k res p)"
  by (simp add: poll_publish_def split: sum.split)

lemma publish_statuses:
  "pr_statuses (poll_publish k res p) = pr_statuses p \<or> pr_stop p = Some k \<and> res = Inr (pr_statuses (poll_publish k res p))"
  by (simp add: poll_publish_def split: sum.split)

lemma pollers_inv_step:
  assumes "pollers_inv s" "probe_step load env pos s s'"
  shows "pollers_inv s'"
proof -
  have I: "finite (waiting s)" "pr_waiters (pb_probe s) = card (waiting s)" "pr_stop (pb_probe s) = None \<longleftrightarrow> waiting s = {}"
    "\<And>w. w \<in> waiting s \<Longrightarrow> pr_stop (pb_probe s) = Some (pb_session s w)"
    "\<And>k. pr_stop (pb_probe s) = Some k \<Longrightarrow> k < pb_next s \<and> (pb_poll s k = PTimer \<or> (\<exists>res. pb_poll s k = PRead res))"
    using assms(1) unfolding pollers_inv_def by blast+
  from assms(2) show ?thesis
  proof cases
    case (enter w p' started)
    have w: "w \<notin> waiting s" using enter(2) by (simp add: waiting_def)
    have wait: "waiting s' = insert w (waiting s)" unfolding enter(1) by (auto simp: waiting_def)
    have n: "pr_waiters (pb_probe s) = 0 \<longleftrightarrow> waiting s = {}" using I(1,2) by simp
    have st: "pr_stop (pb_probe s') = Some (pb_session s' w')" if "w' \<in> waiting s'" for w'
      using that enter I(3) I(4) [of w'] n unfolding wait by (cases "waiting s = {}") auto
    have pl: "k < pb_next s' \<and> (pb_poll s' k = PTimer \<or> (\<exists>res. pb_poll s' k = PRead res))" if "pr_stop (pb_probe s') = Some k" for k
      using that enter I(5) [of k] n by (cases "waiting s = {}") auto
    have "pr_waiters (pb_probe s') = card (waiting s')" "pr_stop (pb_probe s') \<noteq> None"
      using enter w I(1-3) n unfolding wait by auto
    then show ?thesis using st pl I(1) unfolding pollers_inv_def wait by blast
  next
    case (check w)
    then have "w \<in> waiting s" by (simp add: waiting_def)
    then show ?thesis using check(1) assms(1) by (auto simp: pollers_inv_def waiting_upd insert_absorb)
  next
    case (wake w ch sts e)
    then have "w \<in> waiting s" by (simp add: waiting_def)
    then show ?thesis using wake(1) assms(1) by (auto simp: pollers_inv_def waiting_upd insert_absorb)
  next
    case (cancel w ch sts e ctxErr)
    then have "w \<in> waiting s" by (simp add: waiting_def)
    then show ?thesis using cancel(1) assms(1) by (auto simp: pollers_inv_def waiting_upd insert_absorb)
  next
    case (leave w res)
    then have w: "w \<in> waiting s" by (simp add: waiting_def)
    have wait: "waiting s' = waiting s - {w}" unfolding leave(1) by (auto simp: waiting_def)
    have c: "card (waiting s - {w}) = pr_waiters (pb_probe s) - 1" using w I by simp
    have e: "pr_waiters (pb_probe s) \<le> 1 \<longleftrightarrow> waiting s - {w} = {}" using c card_0_eq [of "waiting s - {w}"] I(1) by (simp del: Diff_eq_empty_iff)
    have st: "pr_stop (pb_probe s') = Some (pb_session s' w')" if "w' \<in> waiting s'" for w'
      using that e I(4) [of w'] leave(1) unfolding wait by auto
    have n: "pr_stop (pb_probe s') = None \<longleftrightarrow> waiting s' = {}" using e I(3) w leave(1) unfolding wait by auto
    have pl: "k < pb_next s' \<and> (pb_poll s' k = PTimer \<or> (\<exists>res. pb_poll s' k = PRead res))" if "pr_stop (pb_probe s') = Some k" for k
      using that I(5) [of k] leave(1) by (auto split: if_splits)
    have "pr_waiters (pb_probe s') = card (waiting s')" using leave(1) c unfolding wait by simp
    then show ?thesis using st n pl I(1) unfolding pollers_inv_def wait by blast
  next
    case (read k res)
    then show ?thesis using I by (auto simp: pollers_inv_def)
  next
    case (stop k)
    then show ?thesis using I by (auto simp: pollers_inv_def)
  next
    case (publish k res)
    then show ?thesis using I by (auto simp: pollers_inv_def)
  next
    case (other x)
    then show ?thesis using I by (auto simp: pollers_inv_def)
  qed
qed

lemma polled_ok_step:
  assumes "polled_ok load s" "probe_step load env pos s s'"
  shows "polled_ok load s'"
proof -
  have I: "\<And>k x res. (k, x, res) \<in> set (pb_reads s) \<Longrightarrow> load x res"
    "\<And>k res. pb_poll s k = PRead res \<Longrightarrow> \<exists>x. (k, x, res) \<in> set (pb_reads s)"
    "\<And>k. pr_stop (pb_probe s) = Some k \<Longrightarrow> pr_statuses (pb_probe s) = [] \<or> (\<exists>x. (k, x, Inr (pr_statuses (pb_probe s))) \<in> set (pb_reads s))"
    using assms(1) unfolding polled_ok_def by blast+
  from assms(2) show ?thesis
  proof cases
    case (publish k res)
    have "pr_stop (pb_probe s) = Some k' \<Longrightarrow> pr_statuses (poll_publish k res (pb_probe s)) = []
        \<or> (\<exists>x. (k', x, Inr (pr_statuses (poll_publish k res (pb_probe s)))) \<in> set (pb_reads s))" for k'
      using publish_statuses [of k res "pb_probe s"] I(2) [OF publish(2)] I(3) [of k'] by auto
    then show ?thesis using publish(1) I(1,2) by (auto simp: polled_ok_def split: if_splits)
  next
    case (read k res)
    have "pr_stop (pb_probe s) = Some k' \<Longrightarrow> pr_statuses (pb_probe s) = []
        \<or> (\<exists>x. (k', x, Inr (pr_statuses (pb_probe s))) \<in> set (pb_reads s'))" for k'
      using I(3) [of k'] read(1) by auto
    then show ?thesis using read(1,3) I(1,2) by (auto simp: polled_ok_def split: if_splits)
  qed (use I in \<open>auto simp: polled_ok_def split: if_splits\<close>)
qed

lemma wait_check_ok:
  assumes "pr_stop p = Some k" "pr_statuses p = [] \<or> (\<exists>x. (k, x, Inr (pr_statuses p)) \<in> set reads)"
  shows "wait_ok p reads k q (wait_check p q)"
  using assms(2) by (auto simp: wait_ok_def wait_check_def result_ok_def reached_def probe_complete_def)

lemma reads_inv_step:
  assumes "reads_inv load pos n s" "pollers_inv s" "probe_step load env pos s s'"
  shows "reads_inv load pos n s'"
proof -
  have W: "wait_ok (pb_probe s) (pb_reads s) (pb_session s w) (pos w) (pb_wait s w)" for w
    using assms(1) unfolding reads_inv_def by blast
  have P: "polled_ok load s'" using polled_ok_step [OF _ assms(3)] assms(1) unfolding reads_inv_def by blast
  have seg: "pr_segments (pb_probe s') = n" using assms(1,3) unfolding reads_inv_def by (auto elim!: probe_step.cases)
  have "wait_ok (pb_probe s') (pb_reads s') (pb_session s' w) (pos w) (pb_wait s' w)" for w
    using assms(3)
  proof cases
    case (enter v p' started)
    then show ?thesis using wait_ok_mono [OF W [of w], of p' "pb_reads s"] by (cases "w = v") (auto simp: wait_ok_def)
  next
    case (check v)
    have "v \<in> waiting s" using check(2) by (simp add: waiting_def)
    then have st: "pr_stop (pb_probe s) = Some (pb_session s v)" using assms(2) unfolding pollers_inv_def by blast
    moreover have "pr_statuses (pb_probe s) = [] \<or> (\<exists>x. (pb_session s v, x, Inr (pr_statuses (pb_probe s))) \<in> set (pb_reads s))"
      using st assms(1) unfolding reads_inv_def polled_ok_def by blast
    ultimately show ?thesis using check(1) W [of w] wait_check_ok [of "pb_probe s" "pb_session s v" "pb_reads s"] by (cases "w = v") auto
  next
    case (wake v ch sts e)
    then show ?thesis using W [of w] by (cases "w = v") (auto simp: wait_ok_def)
  next
    case (cancel v ch sts e ctxErr)
    then show ?thesis using W [of w] by (cases "w = v") (auto simp: wait_ok_def wait_cancelled_def result_ok_def)
  next
    case (leave v res)
    have "wait_ok (pb_probe s) (pb_reads s) (pb_session s w) (pos w) (pb_wait s' w)"
      using leave(1,2) W [of w] by (cases "w = v") (auto simp: wait_ok_def)
    from wait_ok_mono [OF this, of "pb_probe s'" "pb_reads s'"] show ?thesis using leave(1) by simp
  next
    case (read k res)
    from wait_ok_mono [OF W [of w], of "pb_probe s'" "pb_reads s'"] show ?thesis using read(1) by auto
  next
    case (stop k)
    then show ?thesis using W [of w] by simp
  next
    case (publish k res)
    from wait_ok_mono [OF W [of w], of "pb_probe s'" "pb_reads s'"] show ?thesis using publish(1) publish_changed by simp
  next
    case (other x)
    then show ?thesis using W [of w] by simp
  qed
  then show ?thesis using P seg unfolding reads_inv_def by blast
qed

text \<open>A probe nobody waits on yet, as \<open>NewProbe\<close> returns it or a runner makes it.\<close>

definition fresh_probe :: "probe \<Rightarrow> bool" where
  "fresh_probe p \<longleftrightarrow> pr_waiters p = 0 \<and> pr_stop p = None \<and> pr_statuses p = []"

lemma probe_invs:
  assumes "(probe_step load env pos)\<^sup>*\<^sup>* (probe_start p x) s" "fresh_probe p"
  shows "pollers_inv s \<and> reads_inv load pos (pr_segments p) s"
  using assms(1)
proof (induction rule: rtranclp_induct)
  case base
  have "waiting (probe_start p x) = {}" by (simp add: waiting_def probe_start_def)
  then show ?case using assms(2) by (auto simp: pollers_inv_def reads_inv_def polled_ok_def wait_ok_def probe_start_def fresh_probe_def)
next
  case (step s s')
  then show ?case using pollers_inv_step reads_inv_step by blast
qed

section \<open>What WaitUntil returns\<close>


text \<open>From any state of the invariant, a wait whose position the store says is reached can return.\<close>

lemma wait_can_return:
  assumes P: "pollers_inv s" and R: "reads_inv load pos n s"
    and "pb_wait s w = WTop \<or> (\<exists>ch t e. pb_wait s w = WBlocked ch t e)"
    and "load (pb_store s) (Inr sts)" "sts \<noteq> []" "n \<le> length sts" "\<forall>st \<in> set sts. pos w \<le> st_Position st"
  shows "\<exists>s'. (probe_step load env pos)\<^sup>*\<^sup>* s s' \<and> pb_wait s' w = WDone None \<and> pb_store s' = pb_store s"
proof -
  let ?S = "probe_step load env pos"
  have "w \<in> waiting s" using assms(3) by (auto simp: waiting_def)
  then obtain k where k: "pr_stop (pb_probe s) = Some k" "pb_poll s k = PTimer \<or> (\<exists>res. pb_poll s k = PRead res)"
    using P unfolding pollers_inv_def by blast
  have rch: "reached (pb_probe s) sts (pos w)"
    using R assms(5-7) by (auto simp: reads_inv_def reached_def probe_complete_def list_all_iff not_less)
  \<comment> \<open>The poller gets back to its timer.\<close>
  obtain s1 where s1: "?S\<^sup>*\<^sup>* s s1" "pb_poll s1 k = PTimer" "pb_wait s1 = pb_wait s" "pb_store s1 = pb_store s"
    "pr_stop (pb_probe s1) = Some k" "reached (pb_probe s1) = reached (pb_probe s)" "pr_changed (pb_probe s) \<le> pr_changed (pb_probe s1)"
  proof (cases "pb_poll s k = PTimer")
    case True
    then show ?thesis using that [of s] k by simp
  next
    case False
    then obtain res where res: "pb_poll s k = PRead res" using k by blast
    show ?thesis
      by (rule that [of "s\<lparr>pb_probe := poll_publish k res (pb_probe s), pb_poll := (pb_poll s)(k := (if pr_stop (pb_probe s) = Some k then PTimer else PExit))\<rparr>"])
        (use k publish_changed probe_step.publish [OF res, of load env pos] in \<open>auto intro: r_into_rtranclp\<close>)
  qed
  \<comment> \<open>It reads the store and publishes.\<close>
  define s2 where "s2 = s1\<lparr>pb_poll := (pb_poll s1)(k := PRead (Inr sts)), pb_reads := pb_reads s1 @ [(k, pb_store s1, Inr sts)]\<rparr>"
  have "?S s1 s2" unfolding s2_def using s1(2,4) assms(4) by (intro probe_step.read) simp_all
  moreover have "pb_poll s2 k = PRead (Inr sts)" by (simp add: s2_def)
  moreover define s3 where "s3 = s2\<lparr>pb_probe := poll_publish k (Inr sts) (pb_probe s2),
      pb_poll := (pb_poll s2)(k := (if pr_stop (pb_probe s2) = Some k then PTimer else PExit))\<rparr>"
  ultimately have "?S s1 s2" "?S s2 s3" by (simp_all only: probe_step.publish)
  then have "?S\<^sup>*\<^sup>* s1 s3" by (meson r_into_rtranclp rtranclp.rtrancl_into_rtrancl)
  moreover have f: "pb_wait s3 = pb_wait s" "pb_store s3 = pb_store s" "pr_statuses (pb_probe s3) = sts"
    "reached (pb_probe s3) sts (pos w)" "pr_changed (pb_probe s) < pr_changed (pb_probe s3)"
    using s1 rch by (simp_all add: s3_def s2_def) (simp_all add: poll_publish_def)
  ultimately have s3: "?S\<^sup>*\<^sup>* s1 s3" "pb_wait s3 = pb_wait s" "pb_store s3 = pb_store s" "pr_statuses (pb_probe s3) = sts"
    "reached (pb_probe s3) sts (pos w)" "pr_changed (pb_probe s) < pr_changed (pb_probe s3)" by simp_all
  \<comment> \<open>The wait wakes up, looks and leaves.\<close>
  obtain s4 where s4: "?S\<^sup>*\<^sup>* s3 s4" "pb_wait s4 w = WTop" "pb_probe s4 = pb_probe s3" "pb_store s4 = pb_store s"
  proof (cases "pb_wait s w = WTop")
    case True
    then show ?thesis using that [of s3] s3 by simp
  next
    case False
    then obtain ch t e where b: "pb_wait s w = WBlocked ch t e" using assms(3) by blast
    have "wait_ok (pb_probe s) (pb_reads s) (pb_session s w) (pos w) (pb_wait s w)" using R unfolding reads_inv_def by blast
    then have "ch < pr_changed (pb_probe s3)" using b s3(6) by (simp add: wait_ok_def)
    with b s3(2) have "?S s3 (s3\<lparr>pb_wait := (pb_wait s3)(w := WTop)\<rparr>)" by (intro probe_step.wake) simp_all
    then show ?thesis using that [OF r_into_rtranclp] s3(3) by simp
  qed
  define s5 where "s5 = s4\<lparr>pb_wait := (pb_wait s4)(w := WLeaving None)\<rparr>"
  have "?S s4 s5"
    using probe_step.check [OF s4(2), of load env pos] s4(3) s3(4,5) by (simp add: s5_def wait_check_def)
  moreover have "?S s5 (s5\<lparr>pb_probe := wait_leave (pb_probe s5), pb_wait := (pb_wait s5)(w := WDone None)\<rparr>)"
    by (rule probe_step.leave) (simp add: s5_def)
  ultimately have "?S\<^sup>*\<^sup>* s (s5\<lparr>pb_probe := wait_leave (pb_probe s5), pb_wait := (pb_wait s5)(w := WDone None)\<rparr>)"
    using s1(1) s3(1) s4(1) by (meson rtranclp.rtrancl_into_rtrancl rtranclp_trans)
  then show ?thesis using s4(4) by (intro exI conjI) (assumption, simp_all add: s5_def)
qed

text \<open>
  (C35) No wake-up is lost. Whenever the store says that the position is reached, every wait for it that is not yet
  over can return nil in a few steps of its own and of its poller, whatever happened before: its poller is
  running, and a read that is published wakes the wait.
\<close>

theorem wait_until_can_return:
  assumes "(probe_step load env pos)\<^sup>*\<^sup>* (probe_start p x0) s" "fresh_probe p"
    and "pb_wait s w = WTop \<or> (\<exists>ch t e. pb_wait s w = WBlocked ch t e)"
    and "load (pb_store s) (Inr sts)" "sts \<noteq> []" "pr_segments p \<le> length sts" "\<forall>st \<in> set sts. pos w \<le> st_Position st"
  shows "\<exists>s'. (probe_step load env pos)\<^sup>*\<^sup>* s s' \<and> pb_wait s' w = WDone None \<and> pb_store s' = pb_store s"
proof -
  have "pollers_inv s" "reads_inv load pos (pr_segments p) s" using probe_invs [OF assms(1,2)] by blast+
  then show ?thesis using assms(3-7) by (rule wait_can_return)
qed

section \<open>Reading one's own writes\<close>

lemma declared_row: "pstore_inv st \<Longrightarrow> ps_projections st name = Some q \<Longrightarrow> i < mp_segments q \<Longrightarrow> \<exists>r. mp_rows q i = Some r"
  using pstore_inv_projection [of st name q] by (auto simp: projection_inv_def simp flip: domIff dest: domD)

text \<open>The statuses of a declared projection are its rows, one for each segment.\<close>

lemma LoadStatuses_positions:
  assumes "pstore_inv st" "ps_projections st name = Some q"
  shows "map st_Position (LoadStatuses now st name) = map (\<lambda>i. cp_Position (mr_cp (the (mp_rows q i)))) [0..<mp_segments q]"
proof -
  have rows: "map_option f (mp_rows q i) = Some (f (the (mp_rows q i)))" if "i < mp_segments q" for i and f :: "memory_row \<Rightarrow> status"
    using declared_row [OF assms that] by auto
  have "List.map_filter (\<lambda>i. map_option (load_status now q i) (mp_rows q i)) [0..<n] =
      map (\<lambda>i. load_status now q i (the (mp_rows q i))) [0..<n]" if "n \<le> mp_segments q" for n
    using that declared_row [OF assms] by (induction n) (auto simp: List.map_filter_def rows)
  then show ?thesis by (simp add: LoadStatuses_def assms(2)) (simp add: load_status_def Let_def)
qed


section \<open>An example wait\<close>

definition demo_ql :: lease where
  "demo_ql = \<lparr>l_Name = ''q'', l_Segment = 0, l_Owner = ''a'', l_Epoch = 0\<rparr>"

definition demo_q :: projection_store where
  "demo_q = fst (commit_store 1001 (fst (Claim 1000 (fst (Declare NewProjectionStore ''q'' 1 7)) demo_ql 10)) (demo_ql\<lparr>l_Epoch := 1\<rparr>)
     (zero_checkpoint\<lparr>cp_Position := 1\<rparr>) zero_status)"

definition demo_qw :: demo_mworld where
  "demo_qw = (demo_world None)\<lparr>mw_store := demo_q\<rparr>"

definition demo_probe :: probe where
  "demo_probe = projr (NewProbe \<lparr>bd_Name = ''q'', bd_PollInterval = 0, bd_ClaimTTL = 0\<rparr> True)"

definition demo_load :: "demo_mworld \<Rightarrow> (go_error + status list) \<Rightarrow> bool" where
  "demo_load = (\<lambda>x res. res = Inr (LoadStatuses (mw_now x) (mw_store x) ''q''))"

definition demo_waiting :: "demo_mworld probe_sys" where
  "demo_waiting = (let s = probe_start demo_probe demo_qw in
     s\<lparr>pb_probe := wait_enter 0 demo_probe, pb_wait := (pb_wait s)(3 := WTop), pb_poll := (pb_poll s)(0 := PTimer), pb_next := 1,
       pb_session := (pb_session s)(3 := 0)\<rparr>)"

lemma demo_probe_fresh: "fresh_probe demo_probe" "pr_segments demo_probe = 0"
  by (simp_all add: fresh_probe_def demo_probe_def NewProbe_def)

lemma demo_entered: "(probe_step demo_load env (\<lambda>_. 1))\<^sup>*\<^sup>* (probe_start demo_probe demo_qw) demo_waiting"
proof -
  have "probe_step demo_load env (\<lambda>_. 1) (probe_start demo_probe demo_qw) demo_waiting"
    using probe_step.enter [of "probe_start demo_probe demo_qw" 3 "wait_enter 0 demo_probe" True demo_load env "\<lambda>_. 1"] demo_probe_fresh(1)
    by (simp add: demo_waiting_def probe_start_def fresh_probe_def Let_def)
  then show ?thesis by simp
qed

lemma demo_q_projection: "\<exists>q. ps_projections demo_q ''q'' = Some q \<and> mp_segments q = 1 \<and> (\<exists>r. mp_rows q 0 = Some r \<and> cp_Position (mr_cp r) = 1)"
  by (simp add: demo_q_def demo_ql_def demo_pops commit_store_def)

lemma demo_q_inv: "pstore_inv demo_q"
proof -
  have "pstore_reachable demo_q" unfolding demo_q_def pstore_reachable_def
    by (meson pstep.declared pstep.claim pstep.commit r_into_rtranclp rtranclp.rtrancl_into_rtrancl)
  then show ?thesis by (rule pstore_reachable_inv)
qed

lemma demo_q_statuses: "\<exists>st. LoadStatuses now demo_q ''q'' = [st] \<and> st_Position st = 1"
proof -
  obtain q r where q: "ps_projections demo_q ''q'' = Some q" "mp_segments q = 1" "mp_rows q 0 = Some r" "cp_Position (mr_cp r) = 1"
    using demo_q_projection by blast
  then have "map st_Position (LoadStatuses now demo_q ''q'') = [1]" using LoadStatuses_positions [OF demo_q_inv q(1), of now] by simp
  then show ?thesis by (auto simp: map_eq_Cons_conv)
qed


theorem wait_until_can_return_witness:
  "\<exists>s'. (probe_step demo_load (\<lambda>_ _. False) (\<lambda>_. 1))\<^sup>*\<^sup>* demo_waiting s' \<and> pb_wait s' 3 = WDone None"
proof -
  obtain st where st: "LoadStatuses (mw_now demo_qw) demo_q ''q'' = [st]" "st_Position st = 1" using demo_q_statuses by blast
  have "\<exists>s'. (probe_step demo_load (\<lambda>_ _. False) (\<lambda>_. 1))\<^sup>*\<^sup>* demo_waiting s' \<and> pb_wait s' 3 = WDone None \<and> pb_store s' = pb_store demo_waiting"
    by (rule wait_until_can_return [OF demo_entered demo_probe_fresh(1), where sts = "[st]"])
      (use st demo_probe_fresh in \<open>simp_all add: demo_waiting_def Let_def probe_start_def demo_load_def demo_qw_def\<close>)
  then show ?thesis by blast
qed



end
