(* ===== verification/Proj_Requests.thy ===== *)
theory Proj_Requests
  imports Proj_Store_Props Proj_Segment
begin

text \<open>
  Asking a running projection for something and waiting for it: \<open>Rebuild\<close> (\<open>projection/runner.go\<close>), \<open>ReplayStream\<close> and the
  loop of \<open>runReplays\<close> (\<open>projection/replay.go\<close>), and the loop of \<open>runMembership\<close> (\<open>projection/instances.go\<close>). A call is a
  program counter; one step is one critical section of the runner or one call of the store, so that whatever
  runs beside it can act in between. The store's operations are the record \<open>request_ops\<close>.
\<close>

record 'x request_ops =
  q_RequestRebuild :: "string \<Rightarrow> 'x \<Rightarrow> 'x \<times> (go_error + uint64)"
  q_RebuildFailure :: "string \<Rightarrow> 'x \<Rightarrow> 'x \<times> (go_error + uint64 \<times> string)"
  q_Rebuilds :: "string \<Rightarrow> 'x \<Rightarrow> 'x \<times> (go_error + uint64 \<times> uint64)"
  q_isDeadLetterStore :: bool
  q_RequestReplay :: "string \<Rightarrow> string \<Rightarrow> 'x \<Rightarrow> 'x \<times> (go_error + uint64)"
  q_ReplayResult :: "string \<Rightarrow> uint64 \<Rightarrow> 'x \<Rightarrow> 'x \<times> (go_error + nat \<times> string list)"
  q_text :: "go_error \<Rightarrow> string"

section \<open>Rebuild\<close>

text \<open>The numbers are the request's, then what was read so far: the failure recorded here, the one in the store, and
  how many rebuilds are done.\<close>

datatype rebuild_pc =
    RbStart
  | RbNudge uint64
  | RbLook uint64
  | RbFailure uint64 uint64 "go_error option"
  | RbDone uint64 uint64 "go_error option" uint64 string
  | RbDecide uint64 uint64 "go_error option" uint64 string uint64
  | RbWait uint64
  | RbReturned "go_error option"

fun rebuild_next :: "'x request_ops \<Rightarrow> rebuild_pc \<Rightarrow> ('e, 'v, 'y) runner \<times> 'x \<Rightarrow> (('e, 'v, 'y) runner \<times> 'x) \<times> rebuild_pc" where
  "rebuild_next Q RbStart (r, x) =
     (if d_Reset (r_p r) = None then ((r, x), RbReturned (Some (Sentinel ErrNoReset)))
      else (case q_RequestRebuild Q (d_Name (r_p r)) x of
          (x, Inl err) \<Rightarrow> ((r, x), RbReturned (Some (Errorf ''request rebuild'' [err])))
        | (x, Inr n) \<Rightarrow> ((r, x), RbNudge n)))"
| "rebuild_next Q (RbNudge n) (r, x) = ((Nudge (r\<lparr>r_checkRebuild := True\<rparr>), x), RbLook n)"
| "rebuild_next Q (RbLook n) (r, x) = ((r, x), RbFailure n (r_rebuildFailed r) (r_rebuildErr r))"
| "rebuild_next Q (RbFailure n localFailed localErr) (r, x) =
     (case q_RebuildFailure Q (d_Name (r_p r)) x of
        (x, Inl err) \<Rightarrow> ((r, x), RbReturned (Some (Errorf ''read rebuild failure'' [err])))
      | (x, Inr (failed, failMsg)) \<Rightarrow> ((r, x), RbDone n localFailed localErr failed failMsg))"
| "rebuild_next Q (RbDone n localFailed localErr failed failMsg) (r, x) =
     (case q_Rebuilds Q (d_Name (r_p r)) x of
        (x, Inl err) \<Rightarrow> ((r, x), RbReturned (Some (Errorf ''read rebuild requests'' [err])))
      | (x, Inr (_, served)) \<Rightarrow> ((r, x), RbDecide n localFailed localErr failed failMsg served))"
| "rebuild_next Q (RbDecide n localFailed localErr failed failMsg served) (r, x) =
     ((r, x),
      if served \<ge> n \<and> \<not> r_resetting r then RbReturned None
      else if served \<ge> n then RbWait n
      else if localFailed \<ge> n then RbReturned localErr
      else if failed \<ge> n then RbReturned (Some (NewError failMsg))
      else RbWait n)"
| "rebuild_next Q (RbWait n) rx = (rx, RbLook n)" \<comment> \<open>a tick, or a rebuild here ended\<close>
| "rebuild_next Q (RbReturned res) rx = (rx, RbReturned res)"

text \<open>
  A call of \<open>Rebuild\<close> beside everything else that works on the runner and the store. Whatever the other goroutines do
  to the runner, a failure they note comes with its error, as \<open>rebuildTried\<close> sets both at once.
\<close>

definition failure_noted :: "('e, 'v, 'y) runner \<Rightarrow> bool" where
  "failure_noted r \<longleftrightarrow> (r_rebuildFailed r > 0 \<longrightarrow> r_rebuildErr r \<noteq> None)"

inductive rebuild_step :: "'x request_ops \<Rightarrow> ('x \<Rightarrow> 'x \<Rightarrow> bool) \<Rightarrow> rebuild_pc \<times> ('e, 'v, 'y) runner \<times> 'x \<Rightarrow> rebuild_pc \<times> ('e, 'v, 'y) runner \<times> 'x \<Rightarrow> bool"
  for Q env where
  act: "rebuild_next Q pc (r, x) = ((r', x'), pc') \<Longrightarrow> rebuild_step Q env (pc, r, x) (pc', r', x')"
| cancel: "ctxErr \<in> {Sentinel ContextCanceled, Sentinel ContextDeadlineExceeded} \<Longrightarrow> rebuild_step Q env (RbWait n, r, x) (RbReturned (Some ctxErr), r, x)"
| other_store: "env x x' \<Longrightarrow> rebuild_step Q env (pc, r, x) (pc, r, x')"
| other_runner: "r_p r' = r_p r \<Longrightarrow> failure_noted r' \<Longrightarrow> rebuild_step Q env (pc, r, x) (pc, r', x)"

section \<open>ReplayStream\<close>

datatype replay_pc =
    RsStart
  | RsRequest
  | RsLook uint64
  | RsResult uint64
  | RsDecide uint64 "string list"
  | RsWait uint64
  | RsLeave uint64 "go_error option"
  | RsReturned "go_error option"

definition replay_leave :: "uint64 \<Rightarrow> ('e, 'v, 'y) runner \<Rightarrow> ('e, 'v, 'y) runner" where
  "replay_leave n r =
     (let r = r\<lparr>r_replayErrs := (r_replayErrs r)(n := []), r_replayWaiters := r_replayWaiters r - 1\<rparr>
      in if r_replayWaiters r = 0 then r\<lparr>r_replayErrs := (\<lambda>_. [])\<rparr> else r)"

fun replay_next :: "'x request_ops \<Rightarrow> string \<Rightarrow> replay_pc \<Rightarrow> ('e, 'v, 'y) runner \<times> 'x \<Rightarrow> (('e, 'v, 'y) runner \<times> 'x) \<times> replay_pc" where
  "replay_next Q streamID RsStart (r, x) =
     (if \<not> q_isDeadLetterStore Q then ((r, x), RsReturned (Some (Sentinel ErrNoDeadLetterStore)))
      else ((r\<lparr>r_replayWaiters := r_replayWaiters r + 1\<rparr>, x), RsRequest))"
| "replay_next Q streamID RsRequest (r, x) =
     (case q_RequestReplay Q (d_Name (r_p r)) streamID x of
        (x, Inl err) \<Rightarrow> ((r, x), RsLeave 0 (Some (Errorf ''request replay of stream'' [err])))
      | (x, Inr n) \<Rightarrow> ((r\<lparr>r_checkReplays := True\<rparr>, x), RsLook n))"
| "replay_next Q streamID (RsLook n) (r, x) = ((r, x), RsResult n)"
| "replay_next Q streamID (RsResult n) (r, x) =
     (case q_ReplayResult Q (d_Name (r_p r)) n x of
        (x, Inl err) \<Rightarrow> ((r, x), RsLeave n (Some (Errorf ''replay of stream: read result'' [err])))
      | (x, Inr (pending, msgs)) \<Rightarrow> ((r, x), if pending = 0 then RsDecide n msgs else RsWait n))"
| "replay_next Q streamID (RsDecide n msgs) (r, x) = ((r, x), RsLeave n (replayError (q_text Q) n msgs r))"
| "replay_next Q streamID (RsWait n) rx = (rx, RsLook n)" \<comment> \<open>a tick, or a replay here ended\<close>
| "replay_next Q streamID (RsLeave n res) (r, x) = ((replay_leave n r, x), RsReturned res)"
| "replay_next Q streamID (RsReturned res) rx = (rx, RsReturned res)"

inductive replay_step :: "'x request_ops \<Rightarrow> ('x \<Rightarrow> 'x \<Rightarrow> bool) \<Rightarrow> string \<Rightarrow> replay_pc \<times> ('e, 'v, 'y) runner \<times> 'x \<Rightarrow> replay_pc \<times> ('e, 'v, 'y) runner \<times> 'x \<Rightarrow> bool"
  for Q env streamID where
  act: "replay_next Q streamID pc (r, x) = ((r', x'), pc') \<Longrightarrow> replay_step Q env streamID (pc, r, x) (pc', r', x')"
| cancel: "ctxErr \<in> {Sentinel ContextCanceled, Sentinel ContextDeadlineExceeded} \<Longrightarrow> replay_step Q env streamID (RsWait n, r, x) (RsLeave n (Some ctxErr), r, x)"
| other_store: "env x x' \<Longrightarrow> replay_step Q env streamID (pc, r, x) (pc, r, x')"
| other_runner: "r_p r' = r_p r \<Longrightarrow> replay_step Q env streamID (pc, r, x) (pc, r', x)"

section \<open>The background loops of Run\<close>

text \<open>
  One round of \<open>runReplays\<close>, woken by its ticker or by a \<open>ReplayStream\<close> here; and of \<open>runMembership\<close>. Both only log a failure,
  once until a round succeeds; for the replays the flag says whether one was logged.
\<close>

definition run_replays_turn :: "(string \<Rightarrow> 'x \<Rightarrow> 'x \<times> (go_error + replay list)) \<Rightarrow> ('x \<Rightarrow> go_error option) \<Rightarrow> bool \<Rightarrow> bool \<Rightarrow> ('e, 'v, 'y) runner \<times> 'x
    \<Rightarrow> (('e, 'v, 'y) runner \<times> 'x) \<times> bool" where
  "run_replays_turn pendingReplays ctxErr ticked failing = (\<lambda>(r, x).
     if ticked \<and> \<not> replaysWanted r then ((r, x), failing)
     else case pendingReplays (d_Name (r_p r)) x of
       (x, res) \<Rightarrow> (case queueReplays res (if ticked then r else r\<lparr>r_checkReplays := False\<rparr>) of
         (r, err) \<Rightarrow> ((r, x), if err \<noteq> None \<and> ctxErr x = None then True else if err = None then False else failing)))"

definition run_membership_turn :: "(string \<Rightarrow> string \<Rightarrow> int \<Rightarrow> duration \<Rightarrow> 'x \<Rightarrow> 'x \<times> (go_error + instance_info list)) \<Rightarrow> ('e, 'v, 'y) runner \<times> 'x
    \<Rightarrow> ('e, 'v, 'y) runner \<times> 'x" where
  "run_membership_turn beat = (\<lambda>(r, x).
     case beat (d_Name (r_p r)) (d_Owner (r_p r)) (d_Version (r_p r)) (d_ClaimTTL (r_p r)) x of
       (x, res) \<Rightarrow> (heartbeat_update res r, x))"

section \<open>On the in-memory store\<close>

definition mem_requests :: "(go_error \<Rightarrow> string) \<Rightarrow> projection_store request_ops" where
  "mem_requests txt = \<lparr>q_RequestRebuild = (\<lambda>name s. RequestRebuild s name), q_RebuildFailure = (\<lambda>name s. (s, Inr (RebuildFailure s name))),
     q_Rebuilds = (\<lambda>name s. (s, Inr (Rebuilds s name))), q_isDeadLetterStore = True,
     q_RequestReplay = (\<lambda>name streamID s. RequestReplay s name streamID),
     q_ReplayResult = (\<lambda>name n s. (s, Inr (ReplayResult s name n))), q_text = txt\<rparr>"

definition rebuilds_done :: "projection_store \<Rightarrow> string \<Rightarrow> uint64" where
  "rebuilds_done s name = snd (Rebuilds s name)"

text \<open>Between two states of the store, a reset of the projection succeeded under a current claim.\<close>

definition reset_between :: "string \<Rightarrow> projection_store \<Rightarrow> projection_store \<Rightarrow> bool" where
  "reset_between name s s' \<longleftrightarrow> (\<exists>s1 s2 now l v. pstep\<^sup>*\<^sup>* s s1 \<and> reset_store now s1 l v = (s2, None) \<and> owned s1 l \<noteq> None \<and> l_Name l = name
     \<and> pstep\<^sup>*\<^sup>* s2 s')"

end
