(* ===== verification/Proj_Requests_Props.thy ===== *)
theory Proj_Requests_Props
  imports Proj_Requests
begin

text \<open>
  What a caller of \<open>Rebuild\<close> and of \<open>ReplayStream\<close> may conclude from what the call returns, on the in-memory store and with
  every other instance and goroutine running beside it.
\<close>

section \<open>Rebuild\<close>

lemma rebuildTried_noted: "failure_noted r \<Longrightarrow> failure_noted (fst (rebuildTried S requested err (r, x)))"
  by (auto simp: failure_noted_def rebuildTried_def Let_def split: option.splits)

text \<open>Only a reset counts rebuilds as done.\<close>

lemma rebuilds_done_put_row: "rebuilds_done (put_row s l r) name = rebuilds_done s name"
  by (auto simp: rebuilds_done_def Rebuilds_def put_row_def put_projection_def split: option.splits)

lemma rebuilds_done_put:
  "rebuilds_done (put_projection s nm p) name = (if nm = name then mp_rebuildsDone p else rebuilds_done s name)"
  by (simp add: rebuilds_done_def Rebuilds_def put_projection_def)

lemma rebuilds_done_Some: "ps_projections s name = Some p \<Longrightarrow> rebuilds_done s name = mp_rebuildsDone p"
  by (simp add: rebuilds_done_def Rebuilds_def)

lemma pstep_done:
  assumes "pstep s s'" "rebuilds_done s' name \<noteq> rebuilds_done s name"
  shows "\<exists>now l v. reset_store now s l v = (s', None) \<and> owned s l \<noteq> None \<and> l_Name l = name"
  using assms(1)
proof cases
  case (reset now l v)
  have "snd (reset_store now s l v) = None \<and> owned s l \<noteq> None \<and> l_Name l = name"
    using assms(2) reset by (auto simp: reset_store_def rebuilds_done_put split: option.splits if_splits)
  then show ?thesis using reset by (metis prod.collapse)
next
  case (declared nm segments u)
  then show ?thesis using assms(2)
    by (auto simp: Declare_def rebuilds_done_put rebuilds_done_def Rebuilds_def split: option.splits if_splits)
next
  case (claim now l ttl)
  then show ?thesis using assms(2) by (auto simp: Claim_def rebuilds_done_put_row Let_def split: option.splits if_splits)
next
  case (commit now l cp st)
  then show ?thesis using assms(2) by (auto simp: commit_store_def rebuilds_done_put_row split: option.splits)
next
  case (release l)
  then show ?thesis using assms(2) by (auto simp: Release_def rebuilds_done_put_row split: option.splits)
next
  case (status now l st)
  then show ?thesis using assms(2) by (auto simp: SaveStatus_def rebuilds_done_put_row split: option.splits)
next
  case (request_rebuild nm)
  then show ?thesis using assms(2) by (auto simp: RequestRebuild_def rebuilds_done_put rebuilds_done_Some split: option.splits if_splits)
next
  case (fail_rebuild l requested errMsg)
  then show ?thesis using assms(2) by (auto simp: FailRebuild_def rebuilds_done_put rebuilds_done_Some split: option.splits if_splits)
next
  case (save_dead l d)
  then show ?thesis using assms(2) by (auto simp: SaveDeadLetter_def rebuilds_done_put_row split: option.splits)
next
  case (delete_dead l pos)
  then show ?thesis using assms(2) by (auto simp: DeleteDeadLetter_def rebuilds_done_put_row split: option.splits)
next
  case (heartbeat now nm who version ttl)
  then show ?thesis using assms(2) by (auto simp: Heartbeat_def rebuilds_done_def Rebuilds_def Let_def split: option.splits)
next
  case (request_replay nm streamID)
  then show ?thesis using assms(2)
    by (auto simp: RequestReplay_def Let_def rebuilds_done_def Rebuilds_def put_projection_def split: option.splits if_splits)
next
  case (finish_replay l number errMsg)
  then show ?thesis using assms(2) by (auto simp: FinishReplay_def Let_def rebuilds_done_put rebuilds_done_Some split: option.splits if_splits)
qed

lemma reset_between_step: "reset_between name s s' \<Longrightarrow> pstep\<^sup>*\<^sup>* s' s'' \<Longrightarrow> reset_between name s s''"
  unfolding reset_between_def by (blast intro: rtranclp_trans)

lemma reset_between_start: "pstep\<^sup>*\<^sup>* s s' \<Longrightarrow> reset_between name s' s'' \<Longrightarrow> reset_between name s s''"
  unfolding reset_between_def by (blast intro: rtranclp_trans)

lemma done_needs_reset:
  assumes "pstep\<^sup>*\<^sup>* s s'" "rebuilds_done s name < n" "n \<le> rebuilds_done s' name"
  shows "reset_between name s s'"
  using assms(1,3)
proof (induction rule: rtranclp_induct)
  case base
  with assms(2) show ?case by simp
next
  case (step y z)
  show ?case
  proof (cases "n \<le> rebuilds_done y name")
    case True
    then show ?thesis using step reset_between_step [of name s y z] by blast
  next
    case False
    then have "rebuilds_done z name \<noteq> rebuilds_done y name" using step.prems by simp
    from pstep_done [OF step.hyps(2) this] show ?thesis using step.hyps(1) unfolding reset_between_def by blast
  qed
qed

text \<open>A call that has made request \<open>n\<close> made it after the state \<open>s0\<close> and before the reset that serves it.\<close>

definition requested_since :: "string \<Rightarrow> projection_store \<Rightarrow> uint64 \<Rightarrow> projection_store \<Rightarrow> bool" where
  "requested_since name s0 n s \<longleftrightarrow> (\<exists>sr. pstep\<^sup>*\<^sup>* s0 sr \<and> rebuilds_done sr name < n \<and> pstep\<^sup>*\<^sup>* sr s)"

definition rebuild_inv :: "string \<Rightarrow> projection_store \<Rightarrow> rebuild_pc \<Rightarrow> projection_store \<Rightarrow> bool" where
  "rebuild_inv name s0 pc s =
     (case pc of
        RbStart \<Rightarrow> True
      | RbNudge n \<Rightarrow> requested_since name s0 n s
      | RbLook n \<Rightarrow> requested_since name s0 n s
      | RbFailure n lf le \<Rightarrow> requested_since name s0 n s \<and> (lf > 0 \<longrightarrow> le \<noteq> None)
      | RbDone n lf le f m \<Rightarrow> requested_since name s0 n s \<and> (lf > 0 \<longrightarrow> le \<noteq> None)
      | RbDecide n lf le f m d \<Rightarrow> requested_since name s0 n s \<and> (lf > 0 \<longrightarrow> le \<noteq> None) \<and> (n \<le> d \<longrightarrow> reset_between name s0 s)
      | RbWait n \<Rightarrow> requested_since name s0 n s
      | RbReturned None \<Rightarrow> reset_between name s0 s
      | RbReturned (Some _) \<Rightarrow> True)"

lemma requested_since_step: "requested_since name s0 n s \<Longrightarrow> pstep s s' \<Longrightarrow> requested_since name s0 n s'"
  unfolding requested_since_def by (meson rtranclp.rtrancl_into_rtrancl)

lemma rebuild_inv_store:
  assumes "rebuild_inv name s0 pc s" "pstep s s'"
  shows "rebuild_inv name s0 pc s'"
proof -
  have "reset_between name s0 s \<Longrightarrow> reset_between name s0 s'" using assms(2) by (meson r_into_rtranclp reset_between_step)
  then show ?thesis
    using assms requested_since_step [of name s0 _ s s'] by (auto simp: rebuild_inv_def split: rebuild_pc.splits option.splits)
qed

lemma requested_pos: "requested_since name s0 n s \<Longrightarrow> 0 < n"
  by (auto simp: requested_since_def)

lemma rebuild_inv_next:
  assumes "rebuild_inv name s0 pc s" "pstore_inv s" "pstep\<^sup>*\<^sup>* s0 s" "failure_noted r" "d_Name (r_p r) = name"
    and "rebuild_next (mem_requests txt) pc (r, s) = ((r', s'), pc')"
  shows "rebuild_inv name s0 pc' s' \<and> r_p r' = r_p r \<and> failure_noted r' \<and> (s' = s \<or> pstep s s')"
proof (cases pc)
  case RbStart
  show ?thesis
  proof (cases "d_Reset (r_p r) = None")
    case True
    then show ?thesis using assms RbStart by (auto simp: rebuild_inv_def)
  next
    case False
    show ?thesis
    proof (cases "ps_projections s name")
      case None
      then show ?thesis using assms RbStart False by (auto simp: rebuild_inv_def mem_requests_def RequestRebuild_def)
    next
      case (Some p)
      let ?s = "put_projection s name (p\<lparr>mp_rebuildsRequested := mp_rebuildsRequested p + 1\<rparr>)"
      have "projection_inv (ps_replays s) p" by (rule pstore_inv_projection [OF assms(2) Some])
      then have "rebuilds_done s name < mp_rebuildsRequested p + 1" using Some by (simp add: rebuilds_done_Some projection_inv_def)
      moreover have st: "pstep s ?s" using pstep.request_rebuild [of s name] Some by (simp add: RequestRebuild_def)
      ultimately have "requested_since name s0 (mp_rebuildsRequested p + 1) ?s"
        unfolding requested_since_def using assms(3) by blast
      then show ?thesis
        using assms(4-6) RbStart False Some st by (auto simp: rebuild_inv_def mem_requests_def RequestRebuild_def)
    qed
  qed
next
  case (RbDone n lf le f m)
  have "n \<le> rebuilds_done s name \<Longrightarrow> reset_between name s0 s"
    using assms(1) RbDone done_needs_reset reset_between_start by (fastforce simp: rebuild_inv_def requested_since_def)
  then show ?thesis
    using assms RbDone by (auto simp: rebuild_inv_def mem_requests_def rebuilds_done_def split: prod.splits)
next
  case (RbDecide n lf le f m d)
  then have "0 < n" using assms(1) requested_pos by (auto simp: rebuild_inv_def)
  then show ?thesis using assms RbDecide by (auto simp: rebuild_inv_def split: if_splits option.splits)
qed (use assms in \<open>auto simp: rebuild_inv_def mem_requests_def failure_noted_def Nudge_def split: prod.splits\<close>)

lemma rebuild_run:
  assumes "(rebuild_step (mem_requests txt) pstep)\<^sup>*\<^sup>* (RbStart, r0, s0) (pc, r, s)" "pstore_inv s0" "failure_noted r0" "d_Name (r_p r0) = name"
  shows "rebuild_inv name s0 pc s \<and> pstore_inv s \<and> pstep\<^sup>*\<^sup>* s0 s \<and> failure_noted r \<and> d_Name (r_p r) = name"
  using assms(1)
proof (induction "(pc, r, s)" arbitrary: pc r s rule: rtranclp_induct)
  case base
  then show ?case using assms(2-4) by (simp add: rebuild_inv_def)
next
  case (step y)
  obtain pc1 r1 s1 where y: "y = (pc1, r1, s1)" by (cases y) auto
  have I: "rebuild_inv name s0 pc1 s1" "pstore_inv s1" "pstep\<^sup>*\<^sup>* s0 s1" "failure_noted r1" "d_Name (r_p r1) = name"
    using step.hyps(3) [OF y] by blast+
  from step.hyps(2) [unfolded y] show ?case
  proof cases
    case act
    have N: "rebuild_inv name s0 pc s \<and> r_p r = r_p r1 \<and> failure_noted r \<and> (s = s1 \<or> pstep s1 s)"
      by (rule rebuild_inv_next [OF I act])
    then have "pstore_inv s" "pstep\<^sup>*\<^sup>* s0 s" using I(2,3) pstep_inv by (auto intro: rtranclp.rtrancl_into_rtrancl)
    then show ?thesis using N I(5) by simp
  next
    case (cancel n e)
    then show ?thesis using I by (simp add: rebuild_inv_def)
  next
    case other_store
    then show ?thesis using I rebuild_inv_store pstep_inv by (auto intro: rtranclp.rtrancl_into_rtrancl)
  next
    case other_runner
    then show ?thesis using I by simp
  qed
qed

text \<open>
  (C36) A \<open>Rebuild\<close> that returns nil was served: since the call began, a reset of the projection succeeded under a current
  claim, whichever instance made it, however claims moved meanwhile and whatever failed before.
\<close>

theorem rebuild_returns_after_reset:
  assumes "(rebuild_step (mem_requests txt) pstep)\<^sup>*\<^sup>* (RbStart, r0, s0) (RbReturned None, r, s)" "pstore_inv s0" "failure_noted r0"
  shows "reset_between (d_Name (r_p r0)) s0 s"
  using rebuild_run [OF assms refl] by (simp add: rebuild_inv_def)

section \<open>ReplayStream\<close>



























section \<open>Example calls\<close>

definition demo_rr :: "(string, unit, nat) runner" where
  "demo_rr = projr (NewRunner demo_reg None 1 [] True True (demo_def\<lparr>d_Name := ''p'', d_Reset := Some (\<lambda>x. (x, None))\<rparr>))"

lemma demo_rr_fields: "d_Name (r_p demo_rr) = ''p''" "d_Reset (r_p demo_rr) \<noteq> None" "r_rebuildFailed demo_rr = 0" "\<not> r_resetting demo_rr"
  by (simp_all add: demo_rr_def NewRunner_def Let_def demo_def_def default_def_def NewEventByName_def demo_reg_def
      DefaultPollInterval_def DefaultClaimTTL_def)

definition rebuild_iter :: "nat \<Rightarrow> rebuild_pc \<times> ('e, 'v, 'y) runner \<times> projection_store \<Rightarrow> rebuild_pc \<times> ('e, 'v, 'y) runner \<times> projection_store" where
  "rebuild_iter k = ((\<lambda>(pc, r, s). case rebuild_next (mem_requests (\<lambda>_. [])) pc (r, s) of ((r, s), pc) \<Rightarrow> (pc, r, s)) ^^ k)"

lemma rebuild_iter_steps: "(rebuild_step (mem_requests (\<lambda>_. [])) pstep)\<^sup>*\<^sup>* c (rebuild_iter k c)"
proof (induction k)
  case (Suc k)
  obtain pc r s where c: "rebuild_iter k c = (pc, r, s)" by (cases "rebuild_iter k c") auto
  obtain r' s' pc' where n: "rebuild_next (mem_requests (\<lambda>_. [])) pc (r, s) = ((r', s'), pc')" by (metis surj_pair)
  have "rebuild_iter (Suc k) c = (pc', r', s')" using c n by (simp add: rebuild_iter_def)
  with Suc.IH c rebuild_step.act [OF n, of pstep] show ?case by (auto intro: rtranclp.rtrancl_into_rtrancl)
qed (simp add: rebuild_iter_def)

text \<open>The request is made, instance \<open>a\<close> resets the projection, and the call goes on.\<close>

definition demo_asked :: projection_store where
  "demo_asked = fst (RequestRebuild demo_p1 ''p'')"

definition demo_reset :: projection_store where
  "demo_reset = fst (reset_store 1002 demo_asked (demo_la\<lparr>l_Epoch := 1\<rparr>) 0)"

lemma demo_request: "rebuild_iter 1 (RbStart, demo_rr, demo_p1) = (RbNudge 1, demo_rr, demo_asked)"
  using demo_rr_fields by (simp add: rebuild_iter_def demo_asked_def mem_requests_def RequestRebuild_def demo_pdefs demo_pops)

lemma demo_served: "snd (Rebuilds demo_reset ''p'') = 1"
  by (simp add: demo_reset_def demo_asked_def Rebuilds_def RequestRebuild_def reset_store_def put_projection_def demo_pdefs demo_pops)

lemma demo_rebuild_returns: "\<exists>r. rebuild_iter 5 (RbNudge 1, demo_rr, demo_reset) = (RbReturned None, r, demo_reset)"
proof -
  obtain a where "Rebuilds demo_reset ''p'' = (a, 1)" using demo_served by (metis prod.collapse)
  moreover obtain f m where "RebuildFailure demo_reset ''p'' = (f, m)" by (metis prod.exhaust)
  ultimately show ?thesis
    using demo_rr_fields by (simp add: rebuild_iter_def numeral_eq_Suc mem_requests_def Nudge_def)
qed

theorem rebuild_returns_after_reset_witness: "reset_between ''p'' demo_p1 demo_reset"
proof -
  let ?R = "rebuild_step (mem_requests (\<lambda>_. [])) pstep"
  obtain r where r: "rebuild_iter 5 (RbNudge 1, demo_rr, demo_reset) = (RbReturned None, r, demo_reset)" using demo_rebuild_returns by blast
  have "?R\<^sup>*\<^sup>* (RbStart, demo_rr, demo_p1) (RbNudge 1, demo_rr, demo_asked)"
    using rebuild_iter_steps [of "(RbStart, demo_rr, demo_p1)" 1] demo_request by simp
  moreover have "?R (RbNudge 1, demo_rr, demo_asked) (RbNudge 1, demo_rr, demo_reset)"
    unfolding demo_reset_def by (rule rebuild_step.other_store) (rule pstep.reset)
  moreover have "?R\<^sup>*\<^sup>* (RbNudge 1, demo_rr, demo_reset) (RbReturned None, r, demo_reset)"
    using rebuild_iter_steps [of "(RbNudge 1, demo_rr, demo_reset)" 5] r by simp
  ultimately have "?R\<^sup>*\<^sup>* (RbStart, demo_rr, demo_p1) (RbReturned None, r, demo_reset)" by (meson r_into_rtranclp rtranclp_trans)
  then show ?thesis
    using rebuild_returns_after_reset [of "\<lambda>_. []" demo_rr demo_p1 r demo_reset] demo_rr_fields pstore_reachable_inv [OF demo_reachable(2)]
    by (simp add: failure_noted_def)
qed






end
