(* ===== verification/ES_Command_Bus.thy ===== *)
theory ES_Command_Bus
  imports ES_Command_Handler
begin

text \<open>
  The command bus (\<open>command_bus.go\<close>, \<open>CommandBus.Use\<close> of \<open>middleware.go\<close>): registration with its
  middleware chain, the choice of a shard, and the concurrent part, the goroutines of \<open>Dispatch\<close>,
  \<open>worker\<close> and \<open>Stop\<close>, as a state machine.

  A state holds every goroutine's place in its code: a dispatch (numbered, with its command) is not yet
  called, trying to enqueue, waiting for its response, or returned; a worker is receiving, has taken a
  command, runs a handler, or has exited. A step is one atomic piece of the code: a critical section
  under \<open>b.mu\<close>, one case of a \<open>select\<close>, one handler call's end. Any interleaving of steps is a run. The
  two wait groups are what they count: \<open>enqueueWG\<close> the dispatches trying to enqueue, \<open>wg\<close> those in
  flight. What a handler does is not the bus's: a registered handler applied to a command is a
  computation (type \<open>'r\<close>) and \<open>admits\<close> says which outcomes it can have.
\<close>

section \<open>Registration and sharding\<close>

datatype dispatch_phase = NotCalled | Enqueuing | Waiting | Returned append_result "go_error option"

datatype 'r worker_phase = Receiving | Taken nat | Running nat 'r | Exited

datatype handler_outcome =
    HandlerReturned append_result "go_error option"
  | HandlerPanickedError go_error
  | HandlerPanickedValue string

record command_result =
  cr_Result :: append_result
  cr_Err :: "go_error option"

record ('c, 'r) command_bus =
  b_handlers :: "string \<rightharpoonup> ('c \<Rightarrow> 'r)"
  b_middlewares :: "(('c \<Rightarrow> 'r) \<Rightarrow> ('c \<Rightarrow> 'r)) list"
  b_shardCount :: nat
  b_bufferSize :: nat
  b_queues :: "nat \<Rightarrow> nat list"
  b_stopCh :: bool
  b_drainCh :: bool
  b_command :: "nat \<Rightarrow> 'c option"
  b_ctxErr :: "nat \<Rightarrow> go_error option"
  b_phase :: "nat \<Rightarrow> dispatch_phase"
  b_response :: "nat \<Rightarrow> command_result list"
  b_worker :: "nat \<Rightarrow> 'r worker_phase"
  b_enqueued :: "nat list"
  b_started :: "nat list"

text \<open>
  The last two fields are history, which no step reads: the dispatches in the order they were enqueued
  and in the order their handlers were called. \<open>b_ctxErr d\<close> is \<open>ctx.Err()\<close> of dispatch \<open>d\<close>.
\<close>

definition NewCommandBus :: "nat \<Rightarrow> int \<Rightarrow> ('c, 'r) command_bus" where
  "NewCommandBus bufferSize shardCount =
     \<lparr>b_handlers = Map.empty, b_middlewares = [], b_shardCount = (if shardCount \<le> 0 then 1 else nat shardCount),
      b_bufferSize = bufferSize, b_queues = (\<lambda>_. []), b_stopCh = False, b_drainCh = False,
      b_command = (\<lambda>_. None), b_ctxErr = (\<lambda>_. None), b_phase = (\<lambda>_. NotCalled), b_response = (\<lambda>_. []),
      b_worker = (\<lambda>_. Receiving), b_enqueued = [], b_started = []\<rparr>"

definition Use :: "(('c \<Rightarrow> 'r) \<Rightarrow> ('c \<Rightarrow> 'r)) list \<Rightarrow> ('c, 'r) command_bus \<Rightarrow> ('c, 'r) command_bus" where
  "Use middlewares b = b\<lparr>b_middlewares := foldl (\<lambda>mws mw. mws @ [mw]) (b_middlewares b) middlewares\<rparr>"

text \<open>
  \<open>Register\<close> for a command type: its name, the type assertion \<open>cmd.(C)\<close>, and the handler. \<open>ret\<close> is the
  computation that returns a result.
\<close>

definition Register :: "(append_result \<Rightarrow> go_error option \<Rightarrow> 'r) \<Rightarrow> string \<Rightarrow> ('c \<Rightarrow> bool) \<Rightarrow> ('c \<Rightarrow> 'r)
    \<Rightarrow> ('c, 'r) command_bus \<Rightarrow> go_error + ('c, 'r) command_bus" where
  "Register ret cmdName isC handler b =
     (if b_handlers b cmdName \<noteq> None
      then Inl (Errorf (''handler already registered for command type '' @ cmdName) [Sentinel ErrDuplicateHandler])
      else let h = (\<lambda>cmd. if isC cmd then handler cmd
                          else ret zero_result (Some (Errorf (''expected command type '' @ cmdName) [])));
               h = fold (\<lambda>mw h. mw h) (rev (b_middlewares b)) h
           in Inr (b\<lparr>b_handlers := (b_handlers b)(cmdName \<mapsto> h)\<rparr>))"

definition handlerFor :: "('c, 'r) command_bus \<Rightarrow> string \<Rightarrow> ('c \<Rightarrow> 'r) option" where
  "handlerFor b cmdName = b_handlers b cmdName"

text \<open>\<open>selectShard\<close>: the hash as a \<open>uint64\<close>, modulo the shard count as a \<open>uint64\<close>.\<close>

definition selectShard :: "nat \<Rightarrow> string \<Rightarrow> nat" where
  "selectShard shardCount aggregateID =
     unat ((ucast (fnv32a aggregateID) :: 64 word) mod (of_nat shardCount :: 64 word))"

definition shard_of :: "'c command_impl \<Rightarrow> ('c, 'r) command_bus \<Rightarrow> nat \<Rightarrow> nat" where
  "shard_of ci b d = (case b_command b d of None \<Rightarrow> 0
     | Some c \<Rightarrow> selectShard (b_shardCount b) (CommandAggregateID ci c))"

section \<open>Steps\<close>

definition set_phase :: "nat \<Rightarrow> dispatch_phase \<Rightarrow> ('c, 'r) command_bus \<Rightarrow> ('c, 'r) command_bus" where
  "set_phase d p b = b\<lparr>b_phase := (b_phase b)(d := p)\<rparr>"

definition set_worker :: "nat \<Rightarrow> 'r worker_phase \<Rightarrow> ('c, 'r) command_bus \<Rightarrow> ('c, 'r) command_bus" where
  "set_worker i p b = b\<lparr>b_worker := (b_worker b)(i := p)\<rparr>"

definition closed_error :: go_error where
  "closed_error = Errorf ''dispatch command'' [Sentinel ErrCommandBusClosed]"

text \<open>\<open>Dispatch\<close>, up to the end of its critical section: refused once stopped, else counted in flight.\<close>

definition dispatch_enter :: "nat \<Rightarrow> 'c \<Rightarrow> ('c, 'r) command_bus \<Rightarrow> ('c, 'r) command_bus option" where
  "dispatch_enter d cmd b =
     (if b_phase b d \<noteq> NotCalled then None
      else let b = b\<lparr>b_command := (b_command b)(d \<mapsto> cmd)\<rparr> in
        Some (set_phase d (if b_stopCh b then Returned zero_result (Some closed_error) else Enqueuing) b))"

text \<open>The send case of the enqueue \<open>select\<close>: room in the buffer, or a worker at the receiving end.\<close>

definition dispatch_enqueue :: "'c command_impl \<Rightarrow> nat \<Rightarrow> ('c, 'r) command_bus \<Rightarrow> ('c, 'r) command_bus option" where
  "dispatch_enqueue ci d b =
     (let i = shard_of ci b d in
      if b_phase b d = Enqueuing \<and> length (b_queues b i) < b_bufferSize b
      then Some ((set_phase d Waiting b)\<lparr>b_queues := (b_queues b)(i := b_queues b i @ [d]), b_enqueued := b_enqueued b @ [d]\<rparr>)
      else None)"

definition dispatch_handoff :: "'c command_impl \<Rightarrow> nat \<Rightarrow> ('c, 'r) command_bus \<Rightarrow> ('c, 'r) command_bus option" where
  "dispatch_handoff ci d b =
     (let i = shard_of ci b d in
      if b_phase b d = Enqueuing \<and> b_queues b i = [] \<and> b_worker b i = Receiving
      then Some ((set_worker i (Taken d) (set_phase d Waiting b))\<lparr>b_enqueued := b_enqueued b @ [d]\<rparr>)
      else None)"

text \<open>The other cases of that \<open>select\<close>: the bus is stopped, or the context is done.\<close>

definition dispatch_stopped :: "nat \<Rightarrow> ('c, 'r) command_bus \<Rightarrow> ('c, 'r) command_bus option" where
  "dispatch_stopped d b =
     (if b_phase b d = Enqueuing \<and> b_stopCh b then Some (set_phase d (Returned zero_result (Some closed_error)) b) else None)"

definition dispatch_cancelled :: "nat \<Rightarrow> ('c, 'r) command_bus \<Rightarrow> ('c, 'r) command_bus option" where
  "dispatch_cancelled d b =
     (case b_ctxErr b d of
        Some err \<Rightarrow> if b_phase b d = Enqueuing \<or> b_phase b d = Waiting
          then Some (set_phase d (Returned zero_result (Some (Errorf ''dispatch command'' [err]))) b) else None
      | None \<Rightarrow> None)"

text \<open>The response case of the second \<open>select\<close>.\<close>

definition dispatch_receive :: "nat \<Rightarrow> ('c, 'r) command_bus \<Rightarrow> ('c, 'r) command_bus option" where
  "dispatch_receive d b =
     (case b_response b d of
        r # rs \<Rightarrow> if b_phase b d = Waiting
          then Some ((set_phase d (Returned (cr_Result r)
                  (case cr_Err r of None \<Rightarrow> None | Some e \<Rightarrow> Some (Errorf ''dispatch command'' [e]))) b)
                \<lparr>b_response := (b_response b)(d := rs)\<rparr>)
          else None
      | [] \<Rightarrow> None)"

definition context_done :: "nat \<Rightarrow> go_error \<Rightarrow> ('c, 'r) command_bus \<Rightarrow> ('c, 'r) command_bus option" where
  "context_done d err b = (if b_ctxErr b d = None then Some (b\<lparr>b_ctxErr := (b_ctxErr b)(d \<mapsto> err)\<rparr>) else None)"

text \<open>
  \<open>worker\<close>: receiving, with or without the drain signal; then the checks before the handler; then its
  end. A worker answers on the dispatch's response channel, which buffers one result.
\<close>

definition respond :: "nat \<Rightarrow> nat \<Rightarrow> command_result \<Rightarrow> ('c, 'r) command_bus \<Rightarrow> ('c, 'r) command_bus option" where
  "respond i d r b =
     (if length (b_response b d) < 1
      then Some (set_worker i Receiving (b\<lparr>b_response := (b_response b)(d := b_response b d @ [r])\<rparr>))
      else None)"

definition worker_take :: "nat \<Rightarrow> ('c, 'r) command_bus \<Rightarrow> ('c, 'r) command_bus option" where
  "worker_take i b =
     (case b_queues b i of
        d # ds \<Rightarrow> if b_worker b i = Receiving
          then Some ((set_worker i (Taken d) b)\<lparr>b_queues := (b_queues b)(i := ds)\<rparr>) else None
      | [] \<Rightarrow> None)"

definition worker_exit :: "nat \<Rightarrow> ('c, 'r) command_bus \<Rightarrow> ('c, 'r) command_bus option" where
  "worker_exit i b =
     (if b_worker b i = Receiving \<and> b_drainCh b \<and> b_queues b i = [] then Some (set_worker i Exited b) else None)"

definition worker_check :: "'c command_impl \<Rightarrow> nat \<Rightarrow> ('c, 'r) command_bus \<Rightarrow> ('c, 'r) command_bus option" where
  "worker_check ci i b =
     (case b_worker b i of
        Taken d \<Rightarrow> (case b_ctxErr b d of
            Some err \<Rightarrow> respond i d \<lparr>cr_Result = zero_result, cr_Err = Some err\<rparr> b
          | None \<Rightarrow> (case b_command b d of
              None \<Rightarrow> None
            | Some cmd \<Rightarrow> (case handlerFor b (CommandType ci cmd) of
                None \<Rightarrow> respond i d \<lparr>cr_Result = zero_result,
                    cr_Err = Some (Errorf ''dispatch command'' [Sentinel ErrHandlerNotRegistered])\<rparr> b
              | Some h \<Rightarrow> Some ((set_worker i (Running d (h cmd)) b)\<lparr>b_started := b_started b @ [d]\<rparr>))))
      | _ \<Rightarrow> None)"

definition outcome_result :: "handler_outcome \<Rightarrow> command_result" where
  "outcome_result out =
     (case out of
        HandlerReturned res err \<Rightarrow> \<lparr>cr_Result = res, cr_Err = err\<rparr>
      | HandlerPanickedError e \<Rightarrow> \<lparr>cr_Result = zero_result,
          cr_Err = Some (Errorf ''handling command'' [JoinError [e, Sentinel ErrHandlerPanicked]])\<rparr>
      | HandlerPanickedValue v \<Rightarrow> \<lparr>cr_Result = zero_result,
          cr_Err = Some (Errorf ''handling command'' [JoinError [Errorf (''panic: '' @ v) [], Sentinel ErrHandlerPanicked]])\<rparr>)"

definition worker_finish :: "('r \<Rightarrow> handler_outcome \<Rightarrow> bool) \<Rightarrow> nat \<Rightarrow> handler_outcome
    \<Rightarrow> ('c, 'r) command_bus \<Rightarrow> ('c, 'r) command_bus option" where
  "worker_finish admits i out b =
     (case b_worker b i of
        Running d r \<Rightarrow> if admits r out then respond i d (outcome_result out) b else None
      | _ \<Rightarrow> None)"

text \<open>
  \<open>Stop\<close>: it closes \<open>stopCh\<close> under the lock, closes \<open>drainCh\<close> once nobody is enqueuing, and returns once
  nobody is in flight (\<open>stop_returns\<close>).
\<close>

definition stop_close :: "('c, 'r) command_bus \<Rightarrow> ('c, 'r) command_bus" where
  "stop_close b = b\<lparr>b_stopCh := True\<rparr>"

definition enqueueing :: "('c, 'r) command_bus \<Rightarrow> nat set" where
  "enqueueing b = {d. b_phase b d = Enqueuing}"

definition in_flight :: "('c, 'r) command_bus \<Rightarrow> nat set" where
  "in_flight b = {d. b_phase b d = Enqueuing \<or> b_phase b d = Waiting}"

definition stop_drain :: "('c, 'r) command_bus \<Rightarrow> ('c, 'r) command_bus option" where
  "stop_drain b = (if b_stopCh b \<and> enqueueing b = {} then Some (b\<lparr>b_drainCh := True\<rparr>) else None)"

definition stop_returns :: "('c, 'r) command_bus \<Rightarrow> bool" where
  "stop_returns b \<longleftrightarrow> b_drainCh b \<and> in_flight b = {}"

inductive bus_step :: "'c command_impl \<Rightarrow> ('r \<Rightarrow> handler_outcome \<Rightarrow> bool)
    \<Rightarrow> ('c, 'r) command_bus \<Rightarrow> ('c, 'r) command_bus \<Rightarrow> bool"
  for ci :: "'c command_impl" and admits :: "'r \<Rightarrow> handler_outcome \<Rightarrow> bool" where
  enter: "dispatch_enter d cmd b = Some b' \<Longrightarrow> bus_step ci admits b b'"
| enqueue: "dispatch_enqueue ci d b = Some b' \<Longrightarrow> bus_step ci admits b b'"
| handoff: "dispatch_handoff ci d b = Some b' \<Longrightarrow> bus_step ci admits b b'"
| stopped: "dispatch_stopped d b = Some b' \<Longrightarrow> bus_step ci admits b b'"
| cancelled: "dispatch_cancelled d b = Some b' \<Longrightarrow> bus_step ci admits b b'"
| receive: "dispatch_receive d b = Some b' \<Longrightarrow> bus_step ci admits b b'"
| ctx_done: "context_done d err b = Some b' \<Longrightarrow> bus_step ci admits b b'"
| take: "worker_take i b = Some b' \<Longrightarrow> bus_step ci admits b b'"
| exit: "worker_exit i b = Some b' \<Longrightarrow> bus_step ci admits b b'"
| check: "worker_check ci i b = Some b' \<Longrightarrow> bus_step ci admits b b'"
| finish: "worker_finish admits i out b = Some b' \<Longrightarrow> bus_step ci admits b b'"
| close: "bus_step ci admits b (stop_close b)"
| drain: "stop_drain b = Some b' \<Longrightarrow> bus_step ci admits b b'"
| use: "bus_step ci admits b (Use mws b)"
| register: "Register ret name isC h b = Inr b' \<Longrightarrow> bus_step ci admits b b'"

inductive_cases bus_stepE: "bus_step ci admits b b'"

inductive bus_reachable :: "'c command_impl \<Rightarrow> ('r \<Rightarrow> handler_outcome \<Rightarrow> bool) \<Rightarrow> nat \<Rightarrow> int
    \<Rightarrow> ('c, 'r) command_bus \<Rightarrow> bool"
  for ci :: "'c command_impl" and admits :: "'r \<Rightarrow> handler_outcome \<Rightarrow> bool" and bufferSize :: nat and shardCount :: int where
  init: "bus_reachable ci admits bufferSize shardCount (NewCommandBus bufferSize shardCount)"
| step: "bus_reachable ci admits bufferSize shardCount b \<Longrightarrow> bus_step ci admits b b' \<Longrightarrow>
     bus_reachable ci admits bufferSize shardCount b'"

lemmas dispatch_defs = dispatch_enter_def dispatch_enqueue_def dispatch_handoff_def dispatch_stopped_def
  dispatch_cancelled_def dispatch_receive_def context_done_def set_phase_def
lemmas worker_defs = worker_take_def worker_exit_def worker_check_def worker_finish_def respond_def set_worker_def

section \<open>Invariants\<close>

text \<open>The dispatch a worker holds, the one it has not yet started, and all that a shard holds.\<close>

definition slot :: "('c, 'r) command_bus \<Rightarrow> nat \<Rightarrow> nat list" where
  "slot b i = (case b_worker b i of Taken d \<Rightarrow> [d] | Running d _ \<Rightarrow> [d] | _ \<Rightarrow> [])"

definition pending :: "('c, 'r) command_bus \<Rightarrow> nat \<Rightarrow> nat list" where
  "pending b i = (case b_worker b i of Taken d \<Rightarrow> [d] | _ \<Rightarrow> [])"

definition held :: "('c, 'r) command_bus \<Rightarrow> nat \<Rightarrow> nat list" where
  "held b i = slot b i @ b_queues b i"

definition early :: "('c, 'r) command_bus \<Rightarrow> nat \<Rightarrow> bool" where
  "early b d \<longleftrightarrow> b_phase b d = NotCalled \<or> b_phase b d = Enqueuing"

text \<open>A held dispatch is in its own shard, once, past its enqueue and unanswered.\<close>

definition inv_held :: "'c command_impl \<Rightarrow> ('c, 'r) command_bus \<Rightarrow> bool" where
  "inv_held ci b \<longleftrightarrow> (\<forall>i. distinct (held b i))
     \<and> (\<forall>i. \<forall>d \<in> set (held b i). shard_of ci b d = i \<and> \<not> early b d \<and> b_response b d = [])
     \<and> (\<forall>d. b_phase b d \<noteq> NotCalled \<longrightarrow> b_command b d \<noteq> None)"

text \<open>A waiting dispatch is held by its shard or answered; there is at most one answer.\<close>

definition inv_answer :: "'c command_impl \<Rightarrow> ('c, 'r) command_bus \<Rightarrow> bool" where
  "inv_answer ci b \<longleftrightarrow>
     (\<forall>d. b_phase b d = Waiting \<longrightarrow> b_response b d \<noteq> [] \<or> d \<in> set (held b (shard_of ci b d)))
     \<and> (\<forall>d. length (b_response b d) \<le> 1)
     \<and> (\<forall>d. early b d \<longrightarrow> b_response b d = [] \<and> d \<notin> set (b_enqueued b))"

text \<open>Draining begins after the last enqueue; a worker exits only then and with its queue empty.\<close>

definition inv_stop :: "('c, 'r) command_bus \<Rightarrow> bool" where
  "inv_stop b \<longleftrightarrow> (b_drainCh b \<longrightarrow> b_stopCh b \<and> (\<forall>d. b_phase b d \<noteq> Enqueuing))
     \<and> (\<forall>i. b_worker b i = Exited \<longrightarrow> b_drainCh b \<and> b_queues b i = [])"

text \<open>Handlers start in the order of the queue, each dispatch at most once.\<close>

definition inv_order :: "'c command_impl \<Rightarrow> ('c, 'r) command_bus \<Rightarrow> bool" where
  "inv_order ci b \<longleftrightarrow> distinct (b_enqueued b)
     \<and> (\<forall>i. subseq (filter (\<lambda>d. shard_of ci b d = i) (b_started b) @ pending b i @ b_queues b i)
                  (filter (\<lambda>d. shard_of ci b d = i) (b_enqueued b)))"

text \<open>Success is only reported for a dispatch whose handler was called.\<close>

definition inv_success :: "('c, 'r) command_bus \<Rightarrow> bool" where
  "inv_success b \<longleftrightarrow> (\<forall>i d r. b_worker b i = Running d r \<longrightarrow> d \<in> set (b_started b))
     \<and> (\<forall>d. \<forall>r \<in> set (b_response b d). cr_Err r = None \<longrightarrow> d \<in> set (b_started b))
     \<and> (\<forall>d res. b_phase b d = Returned res None \<longrightarrow> d \<in> set (b_started b))"

lemma shard_of_simps [simp]:
  "shard_of ci (b\<lparr>b_handlers := x1\<rparr>) d = shard_of ci b d" "shard_of ci (b\<lparr>b_queues := x2\<rparr>) d = shard_of ci b d"
  "shard_of ci (b\<lparr>b_stopCh := x3\<rparr>) d = shard_of ci b d" "shard_of ci (b\<lparr>b_drainCh := x3\<rparr>) d = shard_of ci b d"
  "shard_of ci (b\<lparr>b_ctxErr := x4\<rparr>) d = shard_of ci b d" "shard_of ci (b\<lparr>b_phase := x5\<rparr>) d = shard_of ci b d"
  "shard_of ci (b\<lparr>b_response := x6\<rparr>) d = shard_of ci b d" "shard_of ci (b\<lparr>b_worker := x7\<rparr>) d = shard_of ci b d"
  "shard_of ci (b\<lparr>b_enqueued := x8\<rparr>) d = shard_of ci b d" "shard_of ci (b\<lparr>b_started := x8\<rparr>) d = shard_of ci b d"
  "shard_of ci (b\<lparr>b_middlewares := x9\<rparr>) d = shard_of ci b d"
  by (simp_all add: shard_of_def split: option.split)

lemma shard_of_command [simp]:
  "shard_of ci (b\<lparr>b_command := (b_command b)(d \<mapsto> c)\<rparr>) d' =
     (if d' = d then selectShard (b_shardCount b) (CommandAggregateID ci c) else shard_of ci b d')"
  by (simp add: shard_of_def split: option.split)

lemmas held_defs = held_def slot_def pending_def early_def

text \<open>
  The steps by what they change: eleven kinds, with their guards, that the invariants look at; a step that
  only closes a channel or registers is \<open>quiet\<close>.
\<close>

lemma bus_step_kinds:
  assumes "bus_step ci admits b b'"
  obtains
    (enter) d c p where "b_phase b d = NotCalled" "p = (if b_stopCh b then Returned zero_result (Some closed_error) else Enqueuing)"
      "b' = b\<lparr>b_command := (b_command b)(d \<mapsto> c), b_phase := (b_phase b)(d := p)\<rparr>"
  | (enqueue) d i where "i = shard_of ci b d" "b_phase b d = Enqueuing"
      "b' = b\<lparr>b_queues := (b_queues b)(i := b_queues b i @ [d]), b_phase := (b_phase b)(d := Waiting),
              b_enqueued := b_enqueued b @ [d]\<rparr>"
  | (handoff) d i where "i = shard_of ci b d" "b_phase b d = Enqueuing" "b_queues b i = []" "b_worker b i = Receiving"
      "b' = b\<lparr>b_phase := (b_phase b)(d := Waiting), b_worker := (b_worker b)(i := Taken d),
              b_enqueued := b_enqueued b @ [d]\<rparr>"
  | (giveup) d res e where "b_phase b d = Enqueuing \<or> b_phase b d = Waiting"
      "b' = b\<lparr>b_phase := (b_phase b)(d := Returned res (Some e))\<rparr>"
  | (receive) d r rs err where "b_phase b d = Waiting" "b_response b d = r # rs" "err = None \<longleftrightarrow> cr_Err r = None"
      "b' = b\<lparr>b_phase := (b_phase b)(d := Returned (cr_Result r) err), b_response := (b_response b)(d := rs)\<rparr>"
  | (ctx) f where "b' = b\<lparr>b_ctxErr := f\<rparr>"
  | (take) i d ds where "b_queues b i = d # ds" "b_worker b i = Receiving"
      "b' = b\<lparr>b_queues := (b_queues b)(i := ds), b_worker := (b_worker b)(i := Taken d)\<rparr>"
  | (exit) i where "b_worker b i = Receiving" "b_drainCh b" "b_queues b i = []"
      "b' = b\<lparr>b_worker := (b_worker b)(i := Exited)\<rparr>"
  | (answer) i d r where "b_worker b i = Taken d \<and> cr_Err r \<noteq> None \<or> (\<exists>x. b_worker b i = Running d x)" "b_response b d = []"
      "b' = b\<lparr>b_response := (b_response b)(d := [r]), b_worker := (b_worker b)(i := Receiving)\<rparr>"
  | (start) i d x where "b_worker b i = Taken d"
      "b' = b\<lparr>b_worker := (b_worker b)(i := Running d x), b_started := b_started b @ [d]\<rparr>"
  | (quiet) "b_queues b' = b_queues b" "b_phase b' = b_phase b" "b_response b' = b_response b" "b_worker b' = b_worker b"
      "b_command b' = b_command b" "b_shardCount b' = b_shardCount b" "b_enqueued b' = b_enqueued b" "b_started b' = b_started b"
      "b_stopCh b \<longrightarrow> b_stopCh b'" "b_drainCh b \<longrightarrow> b_drainCh b'"
      "b_drainCh b' \<longrightarrow> b_drainCh b \<or> b_stopCh b' \<and> (\<forall>d. b_phase b d \<noteq> Enqueuing)"
  using assms
proof (cases rule: bus_step.cases)
  case (enter d cmd)
  then show thesis by (intro that(1)) (auto simp: dispatch_defs Let_def split: if_splits)
next
  case (enqueue d)
  then show thesis by (intro that(2)) (auto simp: dispatch_defs Let_def split: if_splits)
next
  case (handoff d)
  then show thesis by (intro that(3)) (auto simp: dispatch_defs set_worker_def Let_def split: if_splits)
next
  case (stopped d)
  then show thesis by (intro that(4)) (auto simp: dispatch_defs split: if_splits)
next
  case (cancelled d)
  then obtain err where "b_ctxErr b d = Some err" by (cases "b_ctxErr b d") (auto simp: dispatch_defs)
  with cancelled show thesis
    by (intro that(4) [of d zero_result "Errorf ''dispatch command'' [err]"]) (auto simp: dispatch_defs split: if_splits)
next
  case (receive d)
  then obtain r rs where "b_response b d = r # rs" by (cases "b_response b d") (auto simp: dispatch_defs)
  with receive show thesis
    by (intro that(5) [of d r rs "case cr_Err r of None \<Rightarrow> None | Some e \<Rightarrow> Some (Errorf ''dispatch command'' [e])"])
      (auto simp: dispatch_defs split: if_splits option.splits)
next
  case (ctx_done d err)
  then show thesis by (intro that(6)) (auto simp: dispatch_defs split: if_splits)
next
  case (take i)
  then obtain d ds where "b_queues b i = d # ds" by (cases "b_queues b i") (auto simp: worker_defs)
  with take show thesis by (intro that(7)) (auto simp: worker_defs split: if_splits)
next
  case (exit i)
  then show thesis by (intro that(8)) (auto simp: worker_defs split: if_splits)
next
  case (check i)
  then obtain d where d: "b_worker b i = Taken d" by (cases "b_worker b i") (auto simp: worker_defs)
  show thesis
  proof (cases "b_ctxErr b d")
    case (Some err)
    with check d show thesis
      by (intro that(9) [of i d "\<lparr>cr_Result = zero_result, cr_Err = Some err\<rparr>"]) (auto simp: worker_defs split: if_splits)
  next
    case None
    with check d obtain cmd where cmd: "b_command b d = Some cmd" by (cases "b_command b d") (auto simp: worker_defs)
    show thesis
    proof (cases "handlerFor b (CommandType ci cmd)")
      case no_handler: None
      with check d None cmd show thesis by (intro that(9) [of i d]) (auto simp: worker_defs split: if_splits)
    next
      case (Some h)
      with check d None cmd show thesis by (intro that(10) [of i d "h cmd"]) (auto simp: worker_defs)
    qed
  qed
next
  case (finish i out)
  then obtain d x where d: "b_worker b i = Running d x" by (cases "b_worker b i") (auto simp: worker_defs)
  with finish show thesis by (intro that(9) [of i d]) (auto simp: worker_defs split: if_splits)
next
  case close
  then show thesis by (intro that(11)) (simp_all add: stop_close_def)
next
  case drain
  then show thesis by (intro that(11)) (auto simp: stop_drain_def enqueueing_def split: if_splits)
next
  case (use mws)
  then show thesis by (intro that(11)) (simp_all add: Use_def)
next
  case (register ret name isC h)
  then show thesis by (intro that(11)) (auto simp: Register_def Let_def split: if_splits)
qed

lemma shard_of_quiet:
  "b_command b' = b_command b \<Longrightarrow> b_shardCount b' = b_shardCount b \<Longrightarrow> shard_of ci b' d = shard_of ci b d"
  by (simp add: shard_of_def split: option.split)

text \<open>
  What each kind of step does to what the shards hold, to who is still before its enqueue, and to the
  unstarted dispatch of a worker.
\<close>

lemma held_enter: "held (b\<lparr>b_command := f\<rparr>) = held b"
  by (simp add: held_def slot_def fun_eq_iff)

lemma held_enqueue:
  "held (b\<lparr>b_queues := (b_queues b)(i := b_queues b i @ [d]), b_phase := f, b_enqueued := e\<rparr>) = (held b)(i := held b i @ [d])"
  by (simp add: held_def slot_def fun_eq_iff)

lemma held_handoff:
  "b_queues b i = [] \<Longrightarrow>
     held (b\<lparr>b_phase := f, b_worker := (b_worker b)(i := Taken d), b_enqueued := e\<rparr>) = (held b)(i := [d])"
  "b_queues b i = [] \<Longrightarrow> b_worker b i = Receiving \<Longrightarrow> held b i = []"
  by (simp_all add: held_def slot_def fun_eq_iff)

lemma held_phase: "held (b\<lparr>b_phase := f\<rparr>) = held b" "held (b\<lparr>b_phase := f, b_response := g\<rparr>) = held b" "held (b\<lparr>b_ctxErr := h\<rparr>) = held b"
  by (simp_all add: held_def slot_def fun_eq_iff)

lemma held_take:
  "b_queues b i = d # ds \<Longrightarrow> b_worker b i = Receiving \<Longrightarrow>
     held (b\<lparr>b_queues := (b_queues b)(i := ds), b_worker := (b_worker b)(i := Taken d)\<rparr>) = held b"
  by (auto simp: held_def slot_def fun_eq_iff)

lemma held_exit:
  "b_worker b i = Receiving \<Longrightarrow> held (b\<lparr>b_worker := (b_worker b)(i := Exited)\<rparr>) = held b"
  by (auto simp: held_def slot_def fun_eq_iff)

lemma held_answer:
  "held (b\<lparr>b_response := f, b_worker := (b_worker b)(i := Receiving)\<rparr>) = (held b)(i := b_queues b i)"
  by (auto simp: held_def slot_def fun_eq_iff)

lemma held_start:
  "b_worker b i = Taken d \<Longrightarrow> held (b\<lparr>b_worker := (b_worker b)(i := Running d x), b_started := s\<rparr>) = held b"
  by (auto simp: held_def slot_def fun_eq_iff)

lemma held_slot:
  "b_worker b i = Taken d \<or> (\<exists>x. b_worker b i = Running d x) \<Longrightarrow> held b i = d # b_queues b i"
  by (auto simp: held_def slot_def)

lemmas held_steps = held_enter held_enqueue held_handoff held_phase held_take held_exit held_answer held_start

lemma enqueuing_called: "inv_held ci b \<Longrightarrow> b_phase b d = Enqueuing \<Longrightarrow> b_command b d \<noteq> None"
  unfolding inv_held_def by (metis dispatch_phase.distinct(1))

lemma inv_held_step:
  assumes "bus_step ci admits b b'" "inv_held ci b" "inv_answer ci b"
  shows "inv_held ci b'"
  using assms(1)
proof (cases rule: bus_step_kinds)
  case (enter d c p)
  then have "\<forall>i. d \<notin> set (held b i)" using assms(2) by (auto simp: inv_held_def early_def)
  with enter assms(2) show ?thesis by (auto simp: inv_held_def held_steps early_def split: if_splits)
next
  case (enqueue d i)
  then have "d \<notin> set (held b i)" "b_response b d = []"
    using assms(2,3) by (auto simp: inv_held_def inv_answer_def early_def)
  moreover note enqueuing_called [OF assms(2) enqueue(2)]
  ultimately show ?thesis using assms(2) enqueue by (auto simp: inv_held_def held_steps early_def)
next
  case (handoff d i)
  then have "b_response b d = []" using assms(3) by (auto simp: inv_answer_def early_def)
  moreover note enqueuing_called [OF assms(2) handoff(2)]
  ultimately show ?thesis using assms(2) handoff by (auto simp: inv_held_def held_steps early_def)
next
  case (giveup d res e)
  then show ?thesis using assms(2) by (auto simp: inv_held_def held_steps early_def)
next
  case (receive d r rs err)
  then show ?thesis using assms(2) by (auto simp: inv_held_def held_steps early_def)
next
  case (ctx f)
  then show ?thesis using assms(2) by (simp add: inv_held_def held_steps early_def)
next
  case (take i d ds)
  then show ?thesis using assms(2) by (simp add: inv_held_def held_steps early_def)
next
  case (exit i)
  then show ?thesis using assms(2) by (simp add: inv_held_def held_steps early_def)
next
  case (answer i d r)
  then have h: "held b i = d # b_queues b i" by (auto intro!: held_slot)
  then have "d \<notin> set (b_queues b i)" "\<And>j. d \<in> set (held b j) \<Longrightarrow> j = i"
    using assms(2) unfolding inv_held_def by (metis distinct.simps(2) list.set_intros(1))+
  moreover have "\<forall>x \<in> set (b_queues b i). x \<in> set (held b i)" "distinct (b_queues b i)"
    using assms(2) h unfolding inv_held_def by (metis distinct.simps(2) list.set_intros(2))+
  ultimately show ?thesis using assms(2) answer(3) by (auto simp: inv_held_def held_steps early_def)
next
  case (start i d x)
  then show ?thesis using assms(2) by (simp add: inv_held_def held_steps early_def)
next
  case quiet
  have "shard_of ci b' d = shard_of ci b d" for d by (rule shard_of_quiet [OF quiet(5,6)])
  moreover have "held b' = held b" using quiet(1,4) by (simp add: held_def slot_def fun_eq_iff)
  ultimately show ?thesis using assms(2) quiet by (simp add: inv_held_def early_def)
qed

lemma inv_answer_step:
  assumes "bus_step ci admits b b'" "inv_held ci b" "inv_answer ci b"
  shows "inv_answer ci b'"
  using assms(1)
proof (cases rule: bus_step_kinds)
  case (enter d c p)
  then show ?thesis using assms(2,3) by (auto simp: inv_answer_def held_steps early_def)
next
  case (enqueue d i)
  then show ?thesis using assms(3) by (auto simp: inv_answer_def held_steps early_def)
next
  case (handoff d i)
  then show ?thesis using assms(3) by (auto simp: inv_answer_def held_steps early_def)
next
  case (giveup d res e)
  then show ?thesis using assms(3) by (auto simp: inv_answer_def held_steps early_def)
next
  case (receive d r rs err)
  have "length (b_response b d) \<le> 1" using assms(3) by (simp add: inv_answer_def)
  with receive assms(3) show ?thesis by (auto simp: inv_answer_def held_steps early_def)
next
  case (ctx f)
  then show ?thesis using assms(3) by (simp add: inv_answer_def held_steps early_def)
next
  case (take i d ds)
  then show ?thesis using assms(3) by (simp add: inv_answer_def held_steps early_def)
next
  case (exit i)
  then show ?thesis using assms(3) by (simp add: inv_answer_def held_steps early_def)
next
  case (answer i d r)
  then have h: "held b i = d # b_queues b i" by (auto intro!: held_slot)
  then have "\<not> early b d" using assms(2) unfolding inv_held_def by (metis list.set_intros(1))
  moreover have "x \<in> set (held b' j)" if "x \<in> set (held b j)" "x \<noteq> d" for x j
    using that h by (auto simp: answer(3) held_steps)
  ultimately show ?thesis
    using assms(3) unfolding inv_answer_def early_def
    by (intro conjI allI impI) (auto simp: answer(3))
next
  case (start i d x)
  then show ?thesis using assms(3) by (simp add: inv_answer_def held_steps early_def)
next
  case quiet
  have "shard_of ci b' d = shard_of ci b d" for d by (rule shard_of_quiet [OF quiet(5,6)])
  moreover have "held b' = held b" using quiet(1,4) by (simp add: held_def slot_def fun_eq_iff)
  ultimately show ?thesis using assms(3) quiet by (simp add: inv_answer_def early_def)
qed

lemma inv_stop_step:
  assumes "bus_step ci admits b b'" "inv_stop b"
  shows "inv_stop b'"
  using assms(1)
proof (cases rule: bus_step_kinds)
  case (enter d c p)
  then show ?thesis using assms(2) by (auto simp: inv_stop_def)
next
  case quiet
  then show ?thesis using assms(2) by (auto simp: inv_stop_def)
qed (use assms(2) in \<open>auto simp: inv_stop_def\<close>)

lemma inv_success_step:
  assumes "bus_step ci admits b b'" "inv_success b"
  shows "inv_success b'"
  using assms(1)
proof (cases rule: bus_step_kinds)
  case (receive d r rs err)
  then show ?thesis using assms(2) by (fastforce simp: inv_success_def split: if_splits)
next
  case (answer i d r)
  then show ?thesis using assms(2) by (auto simp: inv_success_def split: if_splits)
qed (use assms(2) in \<open>auto simp: inv_success_def split: if_splits\<close>)

lemma subseq_drop_middle: "subseq (xs @ d # ys) zs \<Longrightarrow> subseq (xs @ ys) zs"
  by (rule subseq_order.trans [of _ "xs @ d # ys"]) (auto intro: list_emb_append_mono)

lemma subseq_order_set: "subseq xs ys \<Longrightarrow> set xs \<subseteq> set ys"
  by (induction rule: list_emb.induct) auto

lemma started_enqueued:
  assumes "inv_order ci b" "d \<in> set (b_started b)"
  shows "d \<in> set (b_enqueued b)"
proof -
  let ?i = "shard_of ci b d"
  have "subseq (filter (\<lambda>x. shard_of ci b x = ?i) (b_started b) @ pending b ?i @ b_queues b ?i)
      (filter (\<lambda>x. shard_of ci b x = ?i) (b_enqueued b))"
    using assms(1) by (simp add: inv_order_def)
  then show ?thesis using assms(2) by (auto dest!: subseq_order_set)
qed

text \<open>The order invariant changes only in the shard of the step.\<close>

lemma inv_order_upd:
  assumes "inv_order ci b" "\<And>x. shard_of ci b' x = shard_of ci b x" "distinct (b_enqueued b')"
    and "\<And>j. j \<noteq> i \<Longrightarrow> pending b' j = pending b j \<and> b_queues b' j = b_queues b j
           \<and> filter (\<lambda>x. shard_of ci b x = j) (b_started b') = filter (\<lambda>x. shard_of ci b x = j) (b_started b)
           \<and> filter (\<lambda>x. shard_of ci b x = j) (b_enqueued b') = filter (\<lambda>x. shard_of ci b x = j) (b_enqueued b)"
    and "subseq (filter (\<lambda>x. shard_of ci b x = i) (b_started b) @ pending b i @ b_queues b i)
           (filter (\<lambda>x. shard_of ci b x = i) (b_enqueued b)) \<Longrightarrow>
         subseq (filter (\<lambda>x. shard_of ci b x = i) (b_started b') @ pending b' i @ b_queues b' i)
           (filter (\<lambda>x. shard_of ci b x = i) (b_enqueued b'))"
  shows "inv_order ci b'"
  unfolding inv_order_def
proof (intro conjI allI)
  fix j
  have "subseq (filter (\<lambda>x. shard_of ci b x = k) (b_started b) @ pending b k @ b_queues b k)
      (filter (\<lambda>x. shard_of ci b x = k) (b_enqueued b))" for k
    using assms(1) by (simp add: inv_order_def)
  then show "subseq (filter (\<lambda>x. shard_of ci b' x = j) (b_started b') @ pending b' j @ b_queues b' j)
      (filter (\<lambda>x. shard_of ci b' x = j) (b_enqueued b'))"
    using assms(4) [of j] assms(5) by (cases "j = i") (simp_all add: assms(2))
qed (rule assms(3))

lemma inv_order_same:
  assumes "inv_order ci b" "\<And>x. shard_of ci b' x = shard_of ci b x" "b_enqueued b' = b_enqueued b"
    and "b_started b' = b_started b" "\<And>j. pending b' j @ b_queues b' j = pending b j @ b_queues b j"
  shows "inv_order ci b'"
  using assms(1) by (simp add: inv_order_def assms(2-5))

lemma inv_order_step:
  assumes "bus_step ci admits b b'" "inv_held ci b" "inv_answer ci b" "inv_order ci b"
  shows "inv_order ci b'"
  using assms(1)
proof (cases rule: bus_step_kinds)
  case (enter d c p)
  then have fresh: "d \<notin> set (b_enqueued b)" using assms(3) by (auto simp: inv_answer_def early_def)
  then have "d \<notin> set (b_started b)" using started_enqueued [OF assms(4)] by blast
  with fresh have "filter (\<lambda>x. shard_of ci b' x = j) (b_enqueued b) = filter (\<lambda>x. shard_of ci b x = j) (b_enqueued b)"
    "filter (\<lambda>x. shard_of ci b' x = j) (b_started b) = filter (\<lambda>x. shard_of ci b x = j) (b_started b)" for j
    by (auto simp: enter(3) intro!: filter_cong)
  moreover have "pending b' j = pending b j" for j by (simp add: enter(3) pending_def)
  ultimately show ?thesis using assms(4) unfolding inv_order_def by (simp add: enter(3))
next
  case (enqueue d i)
  then have "d \<notin> set (b_enqueued b)" using assms(3) by (auto simp: inv_answer_def early_def)
  with enqueue show ?thesis
    using assms(4) by (intro inv_order_upd [where i = i, OF assms(4)])
      (auto simp: pending_def inv_order_def list_emb_append_mono simp flip: append_assoc intro: list_emb_append_mono)
next
  case (handoff d i)
  then have "d \<notin> set (b_enqueued b)" using assms(3) by (auto simp: inv_answer_def early_def)
  with handoff show ?thesis
    using assms(4) by (intro inv_order_upd [where i = i, OF assms(4)]) (auto simp: pending_def inv_order_def)
next
  case (giveup d res e)
  then show ?thesis by (intro inv_order_same [OF assms(4)]) (auto simp: pending_def)
next
  case (receive d r rs err)
  then show ?thesis by (intro inv_order_same [OF assms(4)]) (auto simp: pending_def)
next
  case (ctx f)
  then show ?thesis by (intro inv_order_same [OF assms(4)]) (auto simp: pending_def)
next
  case (take i d ds)
  then show ?thesis by (intro inv_order_same [OF assms(4)]) (auto simp: pending_def)
next
  case (exit i)
  then show ?thesis by (intro inv_order_same [OF assms(4)]) (auto simp: pending_def)
next
  case (answer i d r)
  have p: "pending b i = [d] \<or> pending b i = []" using answer(1) by (auto simp: pending_def)
  have "distinct (b_enqueued b)" using assms(4) by (simp add: inv_order_def)
  with answer p show ?thesis
    by (intro inv_order_upd [where i = i, OF assms(4)]) (auto simp: pending_def dest: subseq_drop_middle)
next
  case (start i d x)
  have "d \<in> set (held b i)" using start by (simp add: held_slot)
  then have "shard_of ci b d = i" using assms(2) by (auto simp: inv_held_def)
  with start show ?thesis
    using assms(4) by (intro inv_order_upd [where i = i, OF assms(4)]) (auto simp: pending_def inv_order_def)
next
  case quiet
  have "shard_of ci b' d = shard_of ci b d" for d by (rule shard_of_quiet [OF quiet(5,6)])
  with quiet show ?thesis by (intro inv_order_same [OF assms(4)]) (auto simp: pending_def)
qed

text \<open>All of it together, in every reachable state.\<close>

definition bus_inv :: "'c command_impl \<Rightarrow> ('c, 'r) command_bus \<Rightarrow> bool" where
  "bus_inv ci b \<longleftrightarrow> inv_held ci b \<and> inv_answer ci b \<and> inv_stop b \<and> inv_order ci b \<and> inv_success b"

lemma bus_inv_init: "bus_inv ci (NewCommandBus bufferSize shardCount)"
  by (simp add: bus_inv_def NewCommandBus_def inv_held_def inv_answer_def inv_stop_def inv_order_def inv_success_def held_defs)

lemma bus_inv_step: "bus_step ci admits b b' \<Longrightarrow> bus_inv ci b \<Longrightarrow> bus_inv ci b'"
  unfolding bus_inv_def
  using inv_held_step inv_answer_step inv_stop_step inv_order_step inv_success_step by blast

lemma reachable_bus_inv: "bus_reachable ci admits bufferSize shardCount b \<Longrightarrow> bus_inv ci b"
  by (induction rule: bus_reachable.induct) (auto intro: bus_inv_init bus_inv_step)

lemma bus_steps_inv: "(bus_step ci admits)\<^sup>*\<^sup>* b b' \<Longrightarrow> bus_inv ci b \<Longrightarrow> bus_inv ci b'"
  by (induction rule: rtranclp_induct) (auto intro: bus_inv_step)

lemma reachable_shards:
  "bus_reachable ci admits bufferSize shardCount b \<Longrightarrow> b_shardCount b = (if shardCount \<le> 0 then 1 else nat shardCount)"
proof (induction rule: bus_reachable.induct)
  case (step b b')
  have "b_shardCount b' = b_shardCount b" using step.hyps(2) by (cases rule: bus_step_kinds) auto
  with step show ?case by simp
qed (simp add: NewCommandBus_def)

lemma selectShard_range:
  assumes "0 < n" "n < 2 ^ 63"
  shows "selectShard n s < n"
proof -
  have n: "unat (of_nat n :: 64 word) = n" using assms by (simp add: unat_of_nat)
  have "(of_nat n :: 64 word) \<noteq> 0" using n assms(1) by auto
  then have "unat ((ucast (fnv32a s) :: 64 word) mod of_nat n) < unat (of_nat n :: 64 word)"
    by (simp add: unat_mod n assms(1))
  then show ?thesis by (simp add: selectShard_def n)
qed

end
