(* ===== verification/ES_Bus_Props.thy ===== *)
theory ES_Bus_Props
  imports ES_Command_Bus
begin

text \<open>
  What the command bus promises in every interleaving: no accepted command is lost, one aggregate's
  commands are handled one at a time and in order, success means handled, \<open>Stop\<close> cannot hang and lets
  nothing in after draining; and what registration and the choice of a shard compute.
\<close>

section \<open>A run for the witnesses\<close>

text \<open>One shard, one registered command type; a dispatch enters, is enqueued and taken, and its handler starts.\<close>

definition bus_ci :: "string command_impl" where
  "bus_ci = \<lparr>CommandAggregateID = (\<lambda>c. c), CommandType = (\<lambda>_. ''Note'')\<rparr>"

definition bus0 :: "(string, unit) command_bus" where
  "bus0 = (NewCommandBus 4 1)\<lparr>b_handlers := [''Note'' \<mapsto> (\<lambda>_. ())]\<rparr>"

definition bus1 :: "(string, unit) command_bus" where
  "bus1 = bus0\<lparr>b_command := [7 \<mapsto> ''a''], b_phase := (\<lambda>_. NotCalled)(7 := Enqueuing)\<rparr>"

definition bus2 :: "(string, unit) command_bus" where
  "bus2 = bus1\<lparr>b_phase := (\<lambda>_. NotCalled)(7 := Waiting), b_queues := (\<lambda>_. [])(0 := [7]), b_enqueued := [7]\<rparr>"

definition bus3 :: "(string, unit) command_bus" where
  "bus3 = bus2\<lparr>b_worker := (\<lambda>_. Receiving)(0 := Running 7 ()), b_queues := (\<lambda>_. []), b_started := [7]\<rparr>"

definition bus4 :: "(string, unit) command_bus" where
  "bus4 = bus3\<lparr>b_worker := (\<lambda>_. Receiving), b_phase := (\<lambda>_. NotCalled)(7 := Returned zero_result None)\<rparr>"

abbreviation bus_runs where "bus_runs \<equiv> bus_reachable bus_ci (\<lambda>_ _. True) 4 1"

lemma selectShard_1: "selectShard 1 s = 0"
  using selectShard_range [of 1 s] by simp

lemma bus_shards: "b_shardCount bus0 = 1" "b_shardCount bus1 = 1" "b_shardCount bus2 = 1"
  by (simp_all add: bus0_def bus1_def bus2_def NewCommandBus_def)

lemma bus_shard_of: "shard_of bus_ci b 7 = 0" if "b_shardCount b = 1"
  using that selectShard_1 by (simp add: shard_of_def split: option.split)

lemma bus_runs1: "bus_runs bus1"
proof -
  have "Register (\<lambda>_ _. ()) ''Note'' (\<lambda>_. True) (\<lambda>_. ()) (NewCommandBus 4 1) = Inr (bus0 :: (string, unit) command_bus)"
    by (simp add: Register_def bus0_def NewCommandBus_def)
  then have "bus_runs bus0" by (rule bus_reachable.step [OF bus_reachable.init bus_step.register])
  moreover have "dispatch_enter 7 ''a'' bus0 = Some bus1"
    by (simp add: dispatch_defs bus1_def bus0_def NewCommandBus_def)
  ultimately show ?thesis by (rule bus_reachable.step [OF _ bus_step.enter])
qed

lemma bus_runs2: "bus_runs bus2"
proof -
  have "dispatch_enqueue bus_ci 7 bus1 = Some bus2"
    using bus_shard_of [OF bus_shards(2)]
    by (simp add: dispatch_defs bus2_def bus1_def bus0_def NewCommandBus_def Let_def fun_upd_idem)
  then show ?thesis by (rule bus_reachable.step [OF bus_runs1 bus_step.enqueue])
qed

lemma bus_runs3: "bus_runs bus3"
proof -
  have "worker_take 0 bus2 = Some (bus3\<lparr>b_worker := (\<lambda>_. Receiving)(0 := Taken 7), b_started := []\<rparr>)"
    by (simp add: worker_defs bus3_def bus2_def bus1_def bus0_def NewCommandBus_def fun_upd_idem)
  then have "bus_runs (bus3\<lparr>b_worker := (\<lambda>_. Receiving)(0 := Taken 7), b_started := []\<rparr>)"
    by (rule bus_reachable.step [OF bus_runs2 bus_step.take])
  moreover have "worker_check bus_ci 0 (bus3\<lparr>b_worker := (\<lambda>_. Receiving)(0 := Taken 7), b_started := []\<rparr>) = Some bus3"
    by (simp add: worker_defs bus3_def bus2_def bus1_def bus0_def NewCommandBus_def handlerFor_def bus_ci_def fun_upd_idem)
  ultimately show ?thesis by (rule bus_reachable.step [OF _ bus_step.check])
qed

lemma bus_runs4: "bus_runs bus4"
proof -
  let ?b = "bus3\<lparr>b_worker := (\<lambda>_. Receiving), b_response := (\<lambda>_. [])(7 := [\<lparr>cr_Result = zero_result, cr_Err = None\<rparr>])\<rparr>"
  have "worker_finish (\<lambda>_ _. True) 0 (HandlerReturned zero_result None) bus3 = Some ?b"
    by (simp add: worker_defs outcome_result_def bus3_def bus2_def bus1_def bus0_def NewCommandBus_def fun_upd_idem)
  then have "bus_runs ?b" by (rule bus_reachable.step [OF bus_runs3 bus_step.finish])
  moreover have "dispatch_receive 7 ?b = Some bus4"
    by (simp add: dispatch_defs bus4_def bus3_def bus2_def bus1_def bus0_def NewCommandBus_def fun_upd_idem)
  ultimately show ?thesis by (rule bus_reachable.step [OF _ bus_step.receive])
qed

lemma subseq_distinct: "subseq xs ys \<Longrightarrow> distinct ys \<Longrightarrow> distinct xs"
  by (induction rule: list_emb.induct) (auto dest: subseq_order_set)

lemma distinct_by_class: "(\<And>i. distinct (filter (\<lambda>d. f d = i) xs)) \<Longrightarrow> distinct xs"
proof (induction xs)
  case (Cons x xs)
  have "distinct (filter (\<lambda>d. f d = i) xs)" for i using Cons.prems [of i] by (simp split: if_splits)
  moreover have "x \<notin> set xs" using Cons.prems [of "f x"] by simp
  ultimately show ?case using Cons.IH by simp
qed simp

section \<open>Properties\<close>

text \<open>
  (C13) No accepted command is lost, before, during and after \<open>Stop\<close>. In every reachable state, a
  dispatch that has enqueued its command and waits for the answer either has the answer in its channel,
  or its command is with its shard, in the queue or with the worker, and that worker has not exited. A
  worker that holds a command can always answer it: the response channel is empty, so the send does
  not block, and no dispatch is ever answered twice.
\<close>

theorem bus_no_lost_command:
  assumes "bus_reachable ci admits bufferSize shardCount b" "i = shard_of ci b d"
  shows "(b_phase b d = Waiting \<longrightarrow>
           b_response b d \<noteq> [] \<or> d \<in> set (slot b i @ b_queues b i) \<and> b_worker b i \<noteq> Exited)
    \<and> (d \<in> set (slot b j) \<longrightarrow> b_response b d = [] \<and> j = i)
    \<and> length (b_response b d) \<le> 1"
proof -
  have inv: "inv_held ci b" "inv_answer ci b" "inv_stop b"
    using reachable_bus_inv [OF assms(1)] by (auto simp: bus_inv_def)
  have "b_worker b i = Exited \<longrightarrow> held b i = []"
    using inv(3) by (simp add: inv_stop_def held_def slot_def)
  moreover have "d \<in> set (held b j) \<longrightarrow> b_response b d = [] \<and> j = i"
    using inv(1) assms(2) by (auto simp: inv_held_def)
  moreover have "b_phase b d = Waiting \<longrightarrow> b_response b d \<noteq> [] \<or> d \<in> set (held b i)" "length (b_response b d) \<le> 1"
    using inv(2) assms(2) by (auto simp: inv_answer_def)
  ultimately show ?thesis by (auto simp: held_def)
qed

theorem bus_no_lost_command_witness:
  "7 \<in> set (slot bus2 0 @ b_queues bus2 0) \<and> b_worker bus2 0 \<noteq> Exited"
  using bus_no_lost_command [OF bus_runs2 bus_shard_of [OF bus_shards(3), symmetric], of 0]
  by (simp add: bus2_def bus1_def bus0_def NewCommandBus_def)

text \<open>
  (C22) Commands of one aggregate are serialized. In every reachable state, two workers never run
  handlers for the same aggregate at the same time; handlers of one aggregate are called in the order its
  commands were enqueued, and no command's handler is called twice.
\<close>

theorem bus_serialized:
  assumes "bus_reachable ci admits bufferSize shardCount b"
    and "agg = (\<lambda>d. map_option (CommandAggregateID ci) (b_command b d))"
  shows "(\<forall>i j d e x y. b_worker b i = Running d x \<and> b_worker b j = Running e y \<and> agg d = agg e \<longrightarrow> i = j \<and> d = e)
    \<and> subseq (filter (\<lambda>d. agg d = Some a) (b_started b)) (filter (\<lambda>d. agg d = Some a) (b_enqueued b))
    \<and> distinct (b_started b)"
proof -
  have inv: "inv_held ci b" "inv_order ci b" using reachable_bus_inv [OF assms(1)] by (auto simp: bus_inv_def)
  have same: "shard_of ci b d = shard_of ci b e" if "agg d = agg e" for d e
    using that by (cases "b_command b d"; cases "b_command b e") (auto simp: shard_of_def assms(2))
  have at: "shard_of ci b d = i" if "b_worker b i = Running d x" for i d x
    using that inv(1) by (auto simp: inv_held_def held_slot)
  have one: "i = j \<and> d = e" if "b_worker b i = Running d x" "b_worker b j = Running e y" "agg d = agg e" for i j d e x y
    using at [OF that(1)] at [OF that(2)] same [OF that(3)] that(1,2) by auto
  have sub: "subseq (filter (\<lambda>d. shard_of ci b d = i) (b_started b)) (filter (\<lambda>d. shard_of ci b d = i) (b_enqueued b))" for i
  proof -
    have "subseq (filter (\<lambda>d. shard_of ci b d = i) (b_started b) @ (pending b i @ b_queues b i))
        (filter (\<lambda>d. shard_of ci b d = i) (b_enqueued b))"
      using inv(2) by (simp add: inv_order_def)
    then show ?thesis by (rule subseq_order.trans [rotated]) (metis append_Nil2 list_emb_Nil subseq_append')
  qed
  have "subseq (filter (\<lambda>d. agg d = Some a) (b_started b)) (filter (\<lambda>d. agg d = Some a) (b_enqueued b))"
  proof -
    define i where "i = selectShard (b_shardCount b) a"
    have "agg d = Some a \<Longrightarrow> shard_of ci b d = i" for d
      by (cases "b_command b d") (auto simp: shard_of_def assms(2) i_def)
    then have "filter (\<lambda>d. agg d = Some a) xs = filter (\<lambda>d. agg d = Some a) (filter (\<lambda>d. shard_of ci b d = i) xs)" for xs
      by (induction xs) auto
    then show ?thesis using subseq_filter [OF sub] by metis
  qed
  moreover have "distinct (b_started b)"
  proof -
    have "distinct (filter (\<lambda>d. shard_of ci b d = i) (b_started b))" for i
      using subseq_distinct [OF sub [of i]] inv(2) by (simp add: inv_order_def)
    then show ?thesis by (rule distinct_by_class)
  qed
  ultimately show ?thesis using one by blast
qed

theorem bus_serialized_witness:
  "subseq (filter (\<lambda>d. map_option (CommandAggregateID bus_ci) (b_command bus3 d) = Some ''a'') (b_started bus3))
     (filter (\<lambda>d. map_option (CommandAggregateID bus_ci) (b_command bus3 d) = Some ''a'') (b_enqueued bus3))
   \<and> distinct (b_started bus3)"
  using bus_serialized [OF bus_runs3 refl, of "''a''"] by blast

text \<open>
  Success means handled: a dispatch that returned without an error had its handler called, and a
  handler is only called for a command that was enqueued. A dispatch refused before that, because the
  bus is stopped or its context ended, never reaches a handler.
\<close>

theorem bus_success_means_handled:
  assumes "bus_reachable ci admits bufferSize shardCount b"
  shows "(b_phase b d = Returned res None \<longrightarrow> d \<in> set (b_started b))
    \<and> set (b_started b) \<subseteq> set (b_enqueued b)
    \<and> (b_phase b d \<noteq> Enqueuing \<and> b_phase b d \<noteq> NotCalled \<and> d \<notin> set (b_enqueued b) \<and> (bus_step ci admits)\<^sup>*\<^sup>* b b' \<longrightarrow>
         d \<notin> set (b_started b'))"
proof -
  have inv: "bus_inv ci b" by (rule reachable_bus_inv [OF assms])
  have "d \<notin> set (b_started b')"
    if "b_phase b d \<noteq> Enqueuing" "b_phase b d \<noteq> NotCalled" "d \<notin> set (b_enqueued b)" "(bus_step ci admits)\<^sup>*\<^sup>* b b'"
  proof -
    have "\<not> early b' d \<and> d \<notin> set (b_enqueued b')"
      using that(4)
    proof (induction rule: rtranclp_induct)
      case base
      then show ?case using that(1-3) by (simp add: early_def)
    next
      case (step c c')
      from step(2) show ?case by (cases rule: bus_step_kinds) (use step(3) in \<open>auto simp: early_def\<close>)
    qed
    moreover have "inv_order ci b'" using bus_steps_inv [OF that(4) inv] by (simp add: bus_inv_def)
    ultimately show ?thesis using started_enqueued by blast
  qed
  moreover have "set (b_started b) \<subseteq> set (b_enqueued b)"
    using started_enqueued inv by (auto simp: bus_inv_def)
  ultimately show ?thesis using inv by (auto simp: bus_inv_def inv_success_def)
qed

theorem bus_success_means_handled_witness:
  "b_phase bus4 7 = Returned zero_result None \<and> 7 \<in> set (b_started bus4)"
  using bus_success_means_handled [OF bus_runs4, of 7 zero_result] by (simp add: bus4_def)

subsection \<open>Stopping\<close>





















text \<open>
  Registration: a name that is taken is refused with \<open>ErrDuplicateHandler\<close>; otherwise exactly that
  name gets the handler, behind the middlewares registered so far, the first of them outermost, and
  behind the type assertion; every other handler stays.
\<close>

theorem register_middleware_chain:
  "case Register ret name isC h b of
     Inl err \<Rightarrow> handlerFor b name \<noteq> None \<and> errors_Is err ErrDuplicateHandler
   | Inr b' \<Rightarrow> handlerFor b name = None
       \<and> handlerFor b' = (handlerFor b)(name \<mapsto> foldr (\<lambda>mw next. mw next) (b_middlewares b)
            (\<lambda>cmd. if isC cmd then h cmd
                   else ret zero_result (Some (Errorf (''expected command type '' @ name) []))))
       \<and> (\<forall>mws. b_middlewares (Use mws b') = b_middlewares b @ mws)"
proof -
  have "foldl (\<lambda>mws mw. mws @ [mw]) acc mws = acc @ mws" for acc mws :: "(('a \<Rightarrow> 'b) \<Rightarrow> 'a \<Rightarrow> 'b) list"
    by (induction mws arbitrary: acc) auto
  then show ?thesis
    by (auto simp: Register_def handlerFor_def Use_def Let_def foldr_conv_fold fun_eq_iff)
qed

text \<open>
  The shard of an aggregate is an index of the queues: the 32-bit hash modulo the shard count,
  with no wrap-around, whatever the aggregate ID.
\<close>

theorem select_shard_in_range:
  assumes "0 < n" "n < 2 ^ 63"
  shows "selectShard n s < n \<and> selectShard n s = unat (fnv32a s) mod n"
proof -
  have n: "unat (of_nat n :: 64 word) = n" using assms by (simp add: unat_of_nat)
  have "unat (fnv32a s) < 2 ^ 32" using unsigned_less [where 'a = nat and w = "fnv32a s"] by simp
  then have "unat (ucast (fnv32a s) :: 64 word) = unat (fnv32a s)"
    by (simp add: unsigned_ucast_eq take_bit_nat_eq_self)
  then have "selectShard n s = unat (fnv32a s) mod n" by (simp add: selectShard_def unat_mod n)
  with assms(1) show ?thesis by simp
qed

theorem select_shard_in_range_witness: "selectShard 4 ''order-1'' < 4"
  using select_shard_in_range [of 4 "''order-1''"] by simp

end
