(* ===== verification/ES_Routing.thy ===== *)
theory ES_Routing
  imports ES_Memory_Props
begin

text \<open>
  Routing inside a process: event handlers and groups (\<open>event_handler.go\<close>), the query bus and its
  gateways (\<open>query_bus.go\<close>, \<open>query_handler.go\<close>, \<open>query_gateway.go\<close>) and the query side of
  \<open>middleware.go\<close>.

  A handler value is a record of the methods the code looks for: \<open>Handle\<close>, and \<open>EventName\<close> and
  \<open>EventInstance\<close> where it has them. Go's map of handlers is an association list in insertion order;
  where the code ranges over the map, the order is not defined, and what it computes is sorted.
\<close>

section \<open>event_handler.go\<close>

record ('e, 'v) event_handler =
  eh_Handle :: "('e, 'v) ctx_values \<Rightarrow> 'e option \<Rightarrow> go_error option"
  eh_EventName :: "string option"
  eh_EventInstance :: "'e option option"

definition NewEventHandlerFunc :: "(('e, 'v) ctx_values \<Rightarrow> 'e option \<Rightarrow> go_error option) \<Rightarrow> ('e, 'v) event_handler" where
  "NewEventHandlerFunc fn = \<lparr>eh_Handle = fn, eh_EventName = None, eh_EventInstance = None\<rparr>"

definition envelope_info :: "('e, 'v) ctx_values \<Rightarrow> (string \<times> uint64) option" where
  "envelope_info ctx = map_option (\<lambda>env. (StreamID env, Version env)) (envelopeFromContext ctx)"

text \<open>
  \<open>OnEvent\<close> for the type \<open>T\<close> named \<open>name\<close>, whose fresh instance is \<open>zero\<close>: the assertion \<open>event.(PT)\<close>
  holds for a pointer to that type.
\<close>

definition typedHandle :: "('e, 'v) event_impl \<Rightarrow> string \<Rightarrow> (('e, 'v) ctx_values \<Rightarrow> 'e \<Rightarrow> go_error option)
    \<Rightarrow> ('e, 'v) ctx_values \<Rightarrow> 'e option \<Rightarrow> go_error option" where
  "typedHandle impl name fn ctx event =
     (case event of
        Some ev \<Rightarrow> if TypeName impl ev = name \<and> IsPointer impl ev then fn ctx ev
          else Some (SkippedEventError (TypeName impl ev) (''*'' @ name) (envelope_info ctx))
      | None \<Rightarrow> Some (SkippedEventError ''<nil>'' (''*'' @ name) (envelope_info ctx)))"

definition OnEvent :: "('e, 'v) event_impl \<Rightarrow> 'e \<Rightarrow> (('e, 'v) ctx_values \<Rightarrow> 'e \<Rightarrow> go_error option)
    \<Rightarrow> ('e, 'v) event_handler" where
  "OnEvent impl zero fn = \<lparr>eh_Handle = typedHandle impl (TypeName impl zero) fn,
     eh_EventName = Some (TypeName impl zero), eh_EventInstance = Some (Some zero)\<rparr>"

type_synonym ('e, 'v) event_group = "(string \<times> ('e, 'v) event_handler) list"

definition trim_star :: "string \<Rightarrow> string" where
  "trim_star s = (case s of c # cs \<Rightarrow> if c = CHR ''*'' then cs else s | [] \<Rightarrow> [])"

fun NewEventGroupProcessor :: "('e, 'v) event_group \<Rightarrow> ('e, 'v) event_handler list \<Rightarrow> go_error + ('e, 'v) event_group" where
  "NewEventGroupProcessor m [] = Inr m"
| "NewEventGroupProcessor m (h # hs) =
     (case eh_EventName h of
        None \<Rightarrow> Inl (Errorf ''handler does not have a function EventName'' [])
      | Some n \<Rightarrow>
          let name = trim_star n in
          if map_of m name \<noteq> None then Inl (Errorf (''duplicate handler for event '' @ name) [Sentinel ErrDuplicateHandler])
          else NewEventGroupProcessor (m @ [(name, h)]) hs)"

definition group_Handle :: "('e, 'v) event_impl \<Rightarrow> ('e, 'v) event_group \<Rightarrow> ('e, 'v) ctx_values \<Rightarrow> 'e option \<Rightarrow> go_error option" where
  "group_Handle impl p ctx ev =
     (case map_of p (eventTypeKey impl ev) of
        None \<Rightarrow> Some (SkippedEventError (eventTypeKey impl ev) [] (envelope_info ctx))
      | Some h \<Rightarrow> eh_Handle h ctx ev)"

definition filter_names :: "('e, 'v) event_impl \<Rightarrow> 'e registry \<Rightarrow> string \<times> ('e, 'v) event_handler \<Rightarrow> string list" where
  "filter_names impl reg kh =
     (case eh_EventInstance (snd kh) of
        Some ev \<Rightarrow> EventNamesFor impl reg ev
      | None \<Rightarrow> eventNamesForKey reg (fst kh))"

definition StreamFilter :: "('e, 'v) event_impl \<Rightarrow> 'e registry \<Rightarrow> ('e, 'v) event_group \<Rightarrow> string list" where
  "StreamFilter impl reg p = sort (concat (map (filter_names impl reg) p))"

section \<open>query_bus.go, query_handler.go, query_gateway.go\<close>

text \<open>
  A query handler for the types \<open>T\<close> and \<open>R\<close> is a function from a query to a result and an error, which
  may panic. Results of every \<open>R\<close> are values of one type \<open>'a\<close>; a handler carries the key of its types.
\<close>

type_synonym ('q, 'a) query_fn = "'q \<Rightarrow> ('a \<times> go_error option) panics"
type_synonym ('q, 'a) any_fn = "'q \<Rightarrow> ('a option \<times> go_error option) panics"

record ('q, 'a) query_bus =
  qb_handlers :: "string \<rightharpoonup> string \<times> ('q, 'a) query_fn"
  qb_requestees :: "string list"
  qb_middlewares :: "(('q, 'a) any_fn \<Rightarrow> ('q, 'a) any_fn) list"

text \<open>What the types \<open>T\<close> and \<open>R\<close> of a handler bring: the names, the assertions, the zero of \<open>R\<close>, nil.\<close>

record ('q, 'a) query_types =
  qt_T :: string
  qt_R :: string
  qt_isT :: "'q \<Rightarrow> bool"
  qt_isR :: "'a \<Rightarrow> bool"
  qt_zero :: 'a
  qt_isNil :: "'a \<Rightarrow> bool"

definition NewQueryBus :: "('q, 'a) query_bus" where
  "NewQueryBus = \<lparr>qb_handlers = Map.empty, qb_requestees = [], qb_middlewares = []\<rparr>"

definition queryKey :: "('q, 'a) query_types \<Rightarrow> string" where
  "queryKey ty = ''*'' @ qt_T ty @ ''|*'' @ qt_R ty"

definition query_Use :: "(('q, 'a) any_fn \<Rightarrow> ('q, 'a) any_fn) list \<Rightarrow> ('q, 'a) query_bus \<Rightarrow> ('q, 'a) query_bus" where
  "query_Use middlewares q = q\<lparr>qb_middlewares := foldl (\<lambda>mws mw. mws @ [mw]) (qb_middlewares q) middlewares\<rparr>"

text \<open>\<open>wrapQueryHandler\<close> of \<open>middleware.go\<close>: the handler as an untyped one, the middlewares around it, and back.\<close>

definition any_handler :: "('q, 'a) query_types \<Rightarrow> ('q, 'a) query_fn \<Rightarrow> ('q, 'a) any_fn" where
  "any_handler ty h qry =
     (if \<not> qt_isT ty qry then Inl ''interface conversion: query''
      else (case h qry of Inl p \<Rightarrow> Inl p
            | Inr (v, err) \<Rightarrow> Inr (if qt_isNil ty v then None else Some v, err)))"

definition typed_handler :: "('q, 'a) query_types \<Rightarrow> ('q, 'a) any_fn \<Rightarrow> ('q, 'a) query_fn" where
  "typed_handler ty anyNext qry =
     (case anyNext qry of
        Inl p \<Rightarrow> Inl p
      | Inr (result, Some err) \<Rightarrow>
          Inr (case result of Some v \<Rightarrow> if qt_isR ty v then (v, Some err) else (qt_zero ty, Some err)
               | None \<Rightarrow> (qt_zero ty, Some err))
      | Inr (None, None) \<Rightarrow> Inr (qt_zero ty, None)
      | Inr (Some v, None) \<Rightarrow> if qt_isR ty v then Inr (v, None) else Inl ''interface conversion: result'')"

definition wrapQueryHandler :: "('q, 'a) query_types \<Rightarrow> ('q, 'a) query_fn
    \<Rightarrow> (('q, 'a) any_fn \<Rightarrow> ('q, 'a) any_fn) list \<Rightarrow> ('q, 'a) query_fn" where
  "wrapQueryHandler ty h middlewares =
     (if middlewares = [] then h
      else typed_handler ty (fold (\<lambda>mw next. mw next) (rev middlewares) (any_handler ty h)))"

definition RegisterQueryHandler :: "('q, 'a) query_types \<Rightarrow> ('q, 'a) query_fn \<Rightarrow> ('q, 'a) query_bus
    \<Rightarrow> go_error + ('q, 'a) query_bus" where
  "RegisterQueryHandler ty handler bus =
     (let key = queryKey ty in
      if qb_handlers bus key \<noteq> None then Inl (Sentinel ErrDuplicateHandler)
      else Inr (bus\<lparr>qb_handlers := (qb_handlers bus)(key \<mapsto> (key, wrapQueryHandler ty handler (qb_middlewares bus)))\<rparr>))"

definition Validate :: "('q, 'a) query_bus \<Rightarrow> go_error option" where
  "Validate q =
     (let errs = map (\<lambda>r. Errorf (''unknown query handler: '' @ r) [])
                   (filter (\<lambda>r. qb_handlers q r = None) (qb_requestees q))
      in if errs \<noteq> [] then Some (JoinError errs) else None)"

definition addRequestee :: "string \<Rightarrow> ('q, 'a) query_bus \<Rightarrow> ('q, 'a) query_bus" where
  "addRequestee key q = (if key \<in> set (qb_requestees q) then q else q\<lparr>qb_requestees := qb_requestees q @ [key]\<rparr>)"

text \<open>\<open>NewQueryGateway\<close>: it notes the requestee; the gateway it returns looks the handler up at each call.\<close>

definition NewQueryGateway :: "('q, 'a) query_types \<Rightarrow> ('q, 'a) query_bus \<Rightarrow> ('q, 'a) query_bus" where
  "NewQueryGateway ty bus = addRequestee (queryKey ty) bus"

definition gateway_HandleQuery :: "('q, 'a) query_types \<Rightarrow> ('q, 'a) query_bus \<Rightarrow> ('q, 'a) query_fn" where
  "gateway_HandleQuery ty bus qry =
     (case qb_handlers bus (queryKey ty) of
        None \<Rightarrow> Inr (qt_zero ty, Some (Errorf ''no handler registered for query'' [Sentinel ErrHandlerNotFound]))
      | Some (key, h) \<Rightarrow>
          if key \<noteq> queryKey ty then Inr (qt_zero ty, Some (Errorf ''handler type mismatch for query'' []))
          else h qry)"

section \<open>Lemmas\<close>

text \<open>A group is its handlers in order, each under its trimmed name, no name twice.\<close>

definition handler_key :: "('e, 'v) event_handler \<Rightarrow> string" where
  "handler_key h = trim_star (the (eh_EventName h))"

lemma group_entries:
  "NewEventGroupProcessor m hs = Inr p \<Longrightarrow> distinct (map fst m) \<Longrightarrow>
     p = m @ map (\<lambda>h. (handler_key h, h)) hs \<and> (\<forall>h \<in> set hs. eh_EventName h \<noteq> None) \<and> distinct (map fst p)"
proof (induction hs arbitrary: m)
  case (Cons h hs)
  from Cons.prems(1) obtain n where n: "eh_EventName h = Some n" by (cases "eh_EventName h") auto
  with Cons.prems(1) have k: "handler_key h = trim_star n" "trim_star n \<notin> fst ` set m"
    "NewEventGroupProcessor (m @ [(trim_star n, h)]) hs = Inr p"
    by (auto simp: Let_def handler_key_def map_of_eq_None_iff split: if_splits)
  have "distinct (map fst (m @ [(trim_star n, h)]))" using Cons.prems(2) k(2) by auto
  note ih = Cons.IH [OF k(3) this]
  then have "p = m @ map (\<lambda>h. (handler_key h, h)) (h # hs)" by (simp add: k(1))
  moreover have "\<forall>h \<in> set (h # hs). eh_EventName h \<noteq> None" using ih n by simp
  moreover have "distinct (map fst p)" using ih by blast
  ultimately show ?case by (intro conjI)
qed simp

lemma group_new:
  assumes "NewEventGroupProcessor [] hs = Inr p"
  shows "p = map (\<lambda>h. (handler_key h, h)) hs" "\<forall>h \<in> set hs. eh_EventName h \<noteq> None" "distinct (map fst p)"
  using group_entries [OF assms] by auto

lemma group_lookup:
  assumes "NewEventGroupProcessor [] hs = Inr p"
  shows "map_of p key = Some h \<longleftrightarrow> h \<in> set hs \<and> handler_key h = key"
  using group_new [OF assms] by (auto simp: map_of_eq_Some_iff)

lemma group_lookup_None:
  assumes "NewEventGroupProcessor [] hs = Inr p"
  shows "map_of p key = None \<longleftrightarrow> (\<forall>h \<in> set hs. handler_key h \<noteq> key)"
  using group_new(1) [OF assms] by (simp add: map_of_eq_None_iff image_image) blast

definition query_inv :: "('q, 'a) query_bus \<Rightarrow> bool" where
  "query_inv q \<longleftrightarrow> (\<forall>key k h. qb_handlers q key = Some (k, h) \<longrightarrow> k = key)"

lemma query_inv_ops:
  "query_inv NewQueryBus" "query_inv q \<Longrightarrow> query_inv (query_Use mws q)" "query_inv q \<Longrightarrow> query_inv (NewQueryGateway ty q)"
  "query_inv q \<Longrightarrow> RegisterQueryHandler ty h q = Inr q' \<Longrightarrow> query_inv q'"
  by (auto simp: query_inv_def NewQueryBus_def query_Use_def NewQueryGateway_def addRequestee_def
      RegisterQueryHandler_def Let_def split: if_splits)

section \<open>Properties\<close>

text \<open>
  A group routes each event to the one handler of its type, and skips every other event with a
  \<open>SkippedEventError\<close>; it refuses to be built with two handlers for one type or with a handler that
  does not name its type.
\<close>

theorem group_routes:
  "case NewEventGroupProcessor [] hs of
     Inr p \<Rightarrow>
       (\<forall>h \<in> set hs. \<forall>n ctx ev. eh_EventName h = Some n \<and> trim_star n = eventTypeKey impl ev \<longrightarrow>
          group_Handle impl p ctx ev = eh_Handle h ctx ev)
       \<and> (\<forall>ctx ev. (\<forall>h \<in> set hs. \<forall>n. eh_EventName h = Some n \<longrightarrow> trim_star n \<noteq> eventTypeKey impl ev) \<longrightarrow>
            (\<exists>err. group_Handle impl p ctx ev = Some err \<and> As_skipped err))
   | Inl err \<Rightarrow> (\<exists>h \<in> set hs. eh_EventName h = None)
       \<or> errors_Is err ErrDuplicateHandler \<and> \<not> distinct (map (\<lambda>h. trim_star (the (eh_EventName h))) hs)"
proof (cases "NewEventGroupProcessor [] hs")
  case (Inr p)
  have "map_of p (eventTypeKey impl ev) = None"
    if "\<forall>h \<in> set hs. \<forall>n. eh_EventName h = Some n \<longrightarrow> trim_star n \<noteq> eventTypeKey impl ev" for ev
    unfolding group_lookup_None [OF Inr] using that group_new(2) [OF Inr] by (auto simp: handler_key_def)
  moreover have "map_of p (eventTypeKey impl ev) = Some h"
    if "h \<in> set hs" "eh_EventName h = Some n" "trim_star n = eventTypeKey impl ev" for h n ev
    unfolding group_lookup [OF Inr] using that by (simp add: handler_key_def)
  ultimately show ?thesis using Inr by (simp add: group_Handle_def As_skipped_def errors_find_leaf)
next
  case (Inl err)
  have "(\<exists>h \<in> set hs. eh_EventName h = None) \<or> errors_Is err ErrDuplicateHandler
      \<and> \<not> distinct (map fst m @ map (\<lambda>h. trim_star (the (eh_EventName h))) hs)"
    if "NewEventGroupProcessor m hs = Inl err" for m :: "('a, 'b) event_group"
    using that
  proof (induction hs arbitrary: m)
    case (Cons h hs)
    show ?case
    proof (cases "eh_EventName h")
      case (Some n)
      with Cons.prems Cons.IH [of "m @ [(trim_star n, h)]"] show ?thesis
        by (auto simp: Let_def map_of_eq_None_iff split: if_splits)
    qed simp
  qed simp
  from this [OF Inl] Inl show ?thesis by simp
qed

text \<open>
  The stream filter of a group of \<open>OnEvent\<close> handlers selects exactly what the group handles: a
  name is in the filter if and only if the registry makes an instance of it that the group has a
  handler for. So a runner that reads by the filter neither misses an event of the group nor feeds it
  one it has to skip. The filter is sorted.
\<close>

theorem stream_filter_exact:
  assumes "registry_inv impl reg" "NewEventGroupProcessor [] (map (\<lambda>(zero, fn). OnEvent impl zero fn) hs) = Inr p"
    and "\<forall>(zero, fn) \<in> set hs. trim_star (TypeName impl zero) = TypeName impl zero"
  shows "sorted (StreamFilter impl reg p)
    \<and> (name \<in> set (StreamFilter impl reg p) \<longleftrightarrow>
        (\<exists>ev. NewEventByName reg name = Inr ev \<and> IsPointer impl ev \<and> map_of p (eventTypeKey impl (Some ev)) \<noteq> None))"
proof -
  let ?hs = "map (\<lambda>(zero, fn). OnEvent impl zero fn) hs"
  have p: "p = map (\<lambda>h. (handler_key h, h)) ?hs" by (rule group_new(1) [OF assms(2)])
  have "name \<in> set (StreamFilter impl reg p) \<longleftrightarrow> (\<exists>zf \<in> set hs. name \<in> set (typeToNames reg (TypeName impl (fst zf))))"
    by (auto simp: StreamFilter_def filter_names_def p OnEvent_def EventNamesFor_def eventTypeKey_def split: prod.splits)
      force
  moreover have key: "handler_key (OnEvent impl zero fn) = TypeName impl zero" if "(zero, fn) \<in> set hs" for zero fn
    using assms(3) that by (auto simp: handler_key_def OnEvent_def)
  have "map_of p k \<noteq> None \<longleftrightarrow> (\<exists>zf \<in> set hs. TypeName impl (fst zf) = k)" for k
    unfolding group_lookup_None [OF assms(2)] using key by force
  moreover have "name \<in> set (typeToNames reg key) \<longleftrightarrow>
      (\<exists>ev. NewEventByName reg name = Inr ev \<and> IsPointer impl ev \<and> TypeName impl ev = key)" for key
    using assms(1) by (auto simp: registry_inv_def NewEventByName_def split: option.splits)
  moreover have "sorted (StreamFilter impl reg p)" by (simp add: StreamFilter_def)
  ultimately show ?thesis unfolding eventTypeKey_def option.case by metis
qed


theorem stream_filter_exact_witness:
  "\<exists>p. NewEventGroupProcessor [] [OnEvent demo_impl ''x'' (\<lambda>ctx ev. None)] = Inr p
     \<and> ''Noted'' \<in> set (StreamFilter demo_impl demo_reg p)"
proof -
  obtain p where p: "NewEventGroupProcessor [] (map (\<lambda>(zero, fn). OnEvent demo_impl zero fn) [(''x'', \<lambda>ctx ev. None)]) = Inr p"
    "map_of p ''Noted'' \<noteq> None"
    by (simp add: OnEvent_def trim_star_def)
  have "NewEventByName demo_reg ''Noted'' = Inr []" by (simp add: NewEventByName_def demo_reg_def)
  with stream_filter_exact [OF demo_registry_inv p(1), of "''Noted''"] p show ?thesis
    by (simp add: trim_star_def eventTypeKey_def)
qed

text \<open>
  A query bus that validates serves every gateway: once \<open>Validate\<close> finds nothing, each gateway made
  so far calls the handler registered for its types, middlewares around it, and never reports a missing
  or mismatched handler, also after further registrations. \<open>Validate\<close> reports exactly the gateways
  without a handler.
\<close>

theorem validated_gateways_resolve:
  assumes "query_inv bus" "queryKey ty \<in> set (qb_requestees bus)"
  shows "(Validate bus = None \<longleftrightarrow> (\<forall>r \<in> set (qb_requestees bus). qb_handlers bus r \<noteq> None))
    \<and> (Validate bus = None \<longrightarrow>
        (\<exists>h. qb_handlers bus (queryKey ty) = Some (queryKey ty, h) \<and> gateway_HandleQuery ty bus = h))
    \<and> (\<forall>other h bus'. Validate bus = None \<and> RegisterQueryHandler other h bus = Inr bus' \<longrightarrow>
        Validate bus' = None \<and> gateway_HandleQuery ty bus' = gateway_HandleQuery ty bus)"
proof -
  have val: "Validate q = None \<longleftrightarrow> (\<forall>r \<in> set (qb_requestees q). qb_handlers q r \<noteq> None)" for q :: "('a, 'b) query_bus"
    by (auto simp: Validate_def Let_def filter_empty_conv)
  have gw: "\<exists>h. qb_handlers bus (queryKey ty) = Some (queryKey ty, h) \<and> gateway_HandleQuery ty bus = h" if "Validate bus = None"
  proof -
    have "qb_handlers bus (queryKey ty) \<noteq> None" using that assms(2) val by blast
    then obtain k h where kh: "qb_handlers bus (queryKey ty) = Some (k, h)" by auto
    then have "k = queryKey ty" using assms(1) unfolding query_inv_def by blast
    with kh have "gateway_HandleQuery ty bus = h" by (intro ext) (simp add: gateway_HandleQuery_def)
    with kh \<open>k = queryKey ty\<close> show ?thesis by simp
  qed
  have "Validate bus' = None \<and> gateway_HandleQuery ty bus' = gateway_HandleQuery ty bus"
    if "Validate bus = None" "RegisterQueryHandler other h bus = Inr bus'" for other h bus'
  proof -
    have b: "qb_requestees bus' = qb_requestees bus" "qb_handlers bus (queryKey other) = None"
      "qb_handlers bus' = (qb_handlers bus)(queryKey other \<mapsto> (queryKey other, wrapQueryHandler other h (qb_middlewares bus)))"
      using that(2) by (simp_all add: RegisterQueryHandler_def Let_def del: not_None_eq split: if_splits) auto
    have "queryKey ty \<noteq> queryKey other" using b(2) gw [OF that(1)] by auto
    then have "gateway_HandleQuery ty bus' = gateway_HandleQuery ty bus"
      by (intro ext) (simp add: gateway_HandleQuery_def b(3))
    moreover have "Validate bus' = None" using that(1) by (simp add: val b)
    ultimately show ?thesis by simp
  qed
  with val gw show ?thesis by blast
qed

definition demo_types :: "(nat, nat) query_types" where
  "demo_types = \<lparr>qt_T = ''Q'', qt_R = ''int'', qt_isT = (\<lambda>_. True), qt_isR = (\<lambda>v. v < 100), qt_zero = 0, qt_isNil = (\<lambda>_. False)\<rparr>"

theorem validated_gateways_resolve_witness:
  "\<exists>bus. RegisterQueryHandler demo_types (\<lambda>q. Inr (q + 1, None)) (NewQueryGateway demo_types NewQueryBus) = Inr bus
     \<and> Validate bus = None \<and> gateway_HandleQuery demo_types bus 4 = Inr (5, None)"
proof -
  obtain bus where b: "RegisterQueryHandler demo_types (\<lambda>q. Inr (q + 1, None)) (NewQueryGateway demo_types NewQueryBus) = Inr bus"
    "queryKey demo_types \<in> set (qb_requestees bus)" "qb_requestees bus = [queryKey demo_types]"
    "qb_handlers bus (queryKey demo_types) = Some (queryKey demo_types, \<lambda>q. Inr (q + 1, None))"
    by (simp add: RegisterQueryHandler_def NewQueryGateway_def addRequestee_def NewQueryBus_def wrapQueryHandler_def Let_def)
  have "query_inv bus" by (rule query_inv_ops(4) [OF query_inv_ops(3) [OF query_inv_ops(1)] b(1)])
  from validated_gateways_resolve [OF this b(2)] b show ?thesis by auto
qed

text \<open>
  Query middlewares that pass a call through are invisible: with any number of them, a query of the
  handler's type gets exactly the handler's result and error, or its panic.
\<close>

theorem passthrough_middlewares_invisible:
  assumes "\<forall>mw \<in> set mws. mw = (\<lambda>next. next)" "qt_isT ty qry"
    and "\<forall>v err. h qry = Inr (v, err) \<longrightarrow> (if qt_isNil ty v then v = qt_zero ty else qt_isR ty v)"
  shows "wrapQueryHandler ty h mws qry = h qry"
proof -
  have "fold (\<lambda>mw next. mw next) xs f = f" if "\<forall>mw \<in> set xs. mw = (\<lambda>next. next)" for xs and f :: "'a \<Rightarrow> ('b option \<times> go_error option) panics"
    using that by (induction xs) auto
  then have "fold (\<lambda>mw next. mw next) (rev mws) (any_handler ty h) = any_handler ty h" using assms(1) by simp
  then show ?thesis
    using assms(2,3) by (auto simp: wrapQueryHandler_def typed_handler_def any_handler_def split: sum.splits option.splits)
qed

theorem passthrough_middlewares_invisible_witness:
  "wrapQueryHandler demo_types (\<lambda>q. Inr (q + 1, None)) [\<lambda>next. next, \<lambda>next. next] 4 = Inr (5, None)"
  using passthrough_middlewares_invisible [of "[\<lambda>next. next, \<lambda>next. next]" demo_types 4 "\<lambda>q. Inr (q + 1, None)"]
  by (simp add: demo_types_def)

end
