(* ===== verification/Auto_Scheduler.thy ===== *)
theory Auto_Scheduler
  imports Auto_Store_Props Proj_Runner
begin

text \<open>
  The default scheduler of an automation (\<open>automation/claim_scheduler.go\<close>) with the types of
  \<open>automation/scheduler.go\<close>.

  The scheduler works against the \<open>Store\<close>, the \<open>TodoList\<close> and the \<open>Segmenter\<close>: the record \<open>sched_ops\<close>,
  whose operations work on a world of type \<open>'x\<close> and may fail. The world also holds the clock, and an operation
  may include what other instances do before and after it. A Go map is an association list; the order in which
  the code ranges over one is \<open>so_range\<close>, which may choose a different order every time. \<open>Next\<close>, \<open>Done\<close>,
  \<open>Drained\<close> and \<open>Close\<close> hold the scheduler's mutex from start to end, so each is one step on its state.
\<close>

section \<open>automation/scheduler.go\<close>

record claim_request =
  cq_Segments :: "string list"
  cq_MaxPerKey :: int
  cq_Lease :: duration

record 't claimed =
  cl_Segment :: string
  cl_Items :: "'t list"

datatype segmenter = Shards_of int | Query_of

text \<open>\<open>Shards\<close> panics when there is no bucket.\<close>

definition Shards :: "int \<Rightarrow> segmenter panics" where
  "Shards n = (if n \<le> 0 then Inl ''automation: Shards needs n > 0'' else Inr (Shards_of n))"

definition shards_segments :: "int \<Rightarrow> segment_info list" where
  "shards_segments n = map (\<lambda>i. \<lparr>sg_Key = Itoa (int i), sg_Group = []\<rparr>) [0..<nat n]"

definition ShardKey :: "string \<Rightarrow> int \<Rightarrow> string panics" where
  "ShardKey key n = (case SegmentOf key n of Inl m \<Rightarrow> Inl m | Inr i \<Rightarrow> Inr (Itoa (int i)))"

record 't item =
  it_Key :: string
  it_Value :: 't
  it_Deadline :: gotime

record 't batch =
  ba_Key :: string
  ba_Items :: "'t item list"

datatype outcome_kind = Out_Done | Out_Failed | DeferredOutcome

record outcome =
  oc_Kind :: outcome_kind
  oc_Until :: gotime
  oc_Err :: "go_error option"

section \<open>automation/claim_scheduler.go\<close>

record ('t, 'x) sched_ops =
  so_now :: "'x \<Rightarrow> 'x \<times> gotime"
  so_range :: "'x \<Rightarrow> string list \<Rightarrow> string list"
  so_Acquire :: "string \<Rightarrow> string \<Rightarrow> segment_info list \<Rightarrow> int \<Rightarrow> duration \<Rightarrow> 'x \<Rightarrow> 'x \<times> (go_error + acquire_result)"
  so_Renew :: "segment_lease list \<Rightarrow> duration \<Rightarrow> 'x \<Rightarrow> 'x \<times> (go_error + segment_lease list)"
  so_Release :: "release_request list \<Rightarrow> 'x \<Rightarrow> 'x \<times> (go_error + segment_lease list)"
  so_Defer :: "string \<Rightarrow> string \<Rightarrow> duration \<Rightarrow> 'x \<Rightarrow> 'x \<times> go_error option"
  so_DeferredFor :: "string \<Rightarrow> string \<Rightarrow> 'x \<Rightarrow> 'x \<times> (go_error + duration)"
  so_query :: "'x \<Rightarrow> 'x \<times> (go_error + segment_info list)"
  so_Claim :: "claim_request \<Rightarrow> 'x \<Rightarrow> 'x \<times> (go_error + 't list)"
  so_ClaimSegments :: "claim_request \<Rightarrow> 'x \<Rightarrow> 'x \<times> (go_error + 't claimed list)"

record held_segment =
  hs_lease :: segment_lease
  hs_since :: gotime
  hs_served :: bool
  hs_busy :: bool
  hs_leaseEnd :: gotime
  hs_deferUntil :: gotime

record claim_scheduler =
  cs_name :: string
  cs_segmenter :: "segmenter option"
  cs_lease :: duration
  cs_ttl :: duration
  cs_maxPerKey :: int
  cs_maxSegments :: int
  cs_term :: duration
  cs_pollInterval :: duration
  cs_owner :: string
  cs_held :: "(string \<times> held_segment) list"
  cs_lastEligible :: nat
  cs_busy :: bool

definition DefaultSegmentTerm :: duration where "DefaultSegmentTerm = 30000000000"

text \<open>\<open>segm\<close> is the segmenter of a list that implements \<open>Segmented\<close>, \<open>None\<close> for a plain list.\<close>

definition newClaimScheduler :: "string \<Rightarrow> segmenter option \<Rightarrow> duration \<Rightarrow> duration \<Rightarrow> int \<Rightarrow> int \<Rightarrow> string \<Rightarrow> claim_scheduler" where
  "newClaimScheduler name segm lease pollInterval batchSize maxSegments owner =
     \<lparr>cs_name = name, cs_segmenter = segm, cs_lease = lease, cs_ttl = 3 * lease + pollInterval, cs_maxPerKey = batchSize,
      cs_maxSegments = maxSegments, cs_term = DefaultSegmentTerm, cs_pollInterval = pollInterval, cs_owner = owner,
      cs_held = [], cs_lastEligible = 0, cs_busy = False\<rparr>"

definition describe :: "segmenter \<Rightarrow> string" where
  "describe seg = (case seg of Shards_of n \<Rightarrow> Itoa n @ '' shards'' | Query_of \<Rightarrow> ''query'')"

definition capabilities :: "claim_scheduler \<Rightarrow> string" where
  "capabilities s = (case cs_segmenter s of None \<Rightarrow> ''unsegmented'' | Some seg \<Rightarrow> ''segmented ('' @ describe seg @ '')'')"

definition segmenter_segments :: "('t, 'x) sched_ops \<Rightarrow> segmenter \<Rightarrow> 'x \<Rightarrow> 'x \<times> (go_error + segment_info list)" where
  "segmenter_segments S seg x = (case seg of Shards_of n \<Rightarrow> (x, Inr (shards_segments n)) | Query_of \<Rightarrow> so_query S x)"

type_synonym ('t, 'x) sx = "claim_scheduler \<times> 'x"

definition del_held :: "string \<Rightarrow> claim_scheduler \<Rightarrow> claim_scheduler" where
  "del_held k s = s\<lparr>cs_held := AList.delete k (cs_held s)\<rparr>"

definition put_held :: "string \<Rightarrow> held_segment \<Rightarrow> claim_scheduler \<Rightarrow> claim_scheduler" where
  "put_held k h s = s\<lparr>cs_held := AList.update k h (cs_held s)\<rparr>"

definition held :: "claim_scheduler \<Rightarrow> string \<Rightarrow> held_segment option" where
  "held s k = map_of (cs_held s) k"

text \<open>Giving a segment back; the leases the store reports lost are not looked at.\<close>

definition sched_release :: "('t, 'x) sched_ops \<Rightarrow> held_segment \<Rightarrow> duration \<Rightarrow> ('t, 'x) sx \<Rightarrow> ('t, 'x) sx \<times> go_error option" where
  "sched_release S h deferFor = (\<lambda>(s, x).
     let s = del_held (sl_Key (hs_lease h)) s in
     case so_Release S [\<lparr>rr_Lease = hs_lease h, rr_DeferFor = deferFor, rr_Served = hs_served h\<rparr>] x of
       (x, Inl err) \<Rightarrow> ((s, x), Some (Errorf (''release '' @ sl_Key (hs_lease h)) [err]))
     | (x, Inr lost) \<Rightarrow> ((s, x), None))"

subsection \<open>Next\<close>

definition nextUnsegmented :: "('t, 'x) sched_ops \<Rightarrow> ('t, 'x) sx \<Rightarrow> ('t, 'x) sx \<times> (go_error + 't batch list)" where
  "nextUnsegmented S = (\<lambda>(s, x).
     if cs_busy s then ((s, x), Inr [])
     else case so_DeferredFor S (cs_name s) [] x of
       (x, Inl err) \<Rightarrow> ((s, x), Inl (Errorf ''deferred'' [err]))
     | (x, Inr paused) \<Rightarrow>
         if paused > 0 then ((s, x), Inr [])
         else case so_now S x of (x, claimed) \<Rightarrow>
           (case so_Claim S \<lparr>cq_Segments = [], cq_MaxPerKey = cs_maxPerKey s, cq_Lease = cs_lease s\<rparr> x of
              (x, Inl err) \<Rightarrow> ((s, x), Inl (Errorf ''claim'' [err]))
            | (x, Inr items) \<Rightarrow>
                if items = [] then ((s, x), Inr [])
                else ((s\<lparr>cs_busy := True\<rparr>, x),
                      Inr [\<lparr>ba_Key = [], ba_Items = map (\<lambda>it. \<lparr>it_Key = [], it_Value = it, it_Deadline = claimed + cs_lease s\<rparr>) items\<rparr>])))"

fun drop_lost :: "('t, 'x) sched_ops \<Rightarrow> gotime \<Rightarrow> segment_lease list \<Rightarrow> ('t, 'x) sx \<Rightarrow> ('t, 'x) sx \<times> go_error option" where
  "drop_lost S now [] sx = (sx, None)"
| "drop_lost S now (l # ls) (s, x) =
     (let h = held s (sl_Key l); s' = del_held (sl_Key l) s in
      case h of
        Some h \<Rightarrow>
          if hs_deferUntil h \<noteq> 0 then
            (case so_Defer S (cs_name s') (sl_Key l) (time_Sub (hs_deferUntil h) now) x of
               (x, Some err) \<Rightarrow> ((s', x), Some (Errorf (''defer '' @ sl_Key l) [err]))
             | (x, None) \<Rightarrow> drop_lost S now ls (s', x))
          else drop_lost S now ls (s', x)
      | None \<Rightarrow> drop_lost S now ls (s', x))"

definition renew_held :: "('t, 'x) sched_ops \<Rightarrow> gotime \<Rightarrow> ('t, 'x) sx \<Rightarrow> ('t, 'x) sx \<times> go_error option" where
  "renew_held S now = (\<lambda>(s, x).
     if cs_held s = [] then ((s, x), None)
     else case so_Renew S (map (\<lambda>k. hs_lease (the (held s k))) (so_range S x (map fst (cs_held s)))) (cs_ttl s) x of
       (x, Inl err) \<Rightarrow> ((s, x), Some (Errorf ''renew'' [err]))
     | (x, Inr lost) \<Rightarrow> drop_lost S now lost (s, x))"

text \<open>The segment held longest past the term, of those whose batch does not run.\<close>

definition oldest_held :: "claim_scheduler \<Rightarrow> gotime \<Rightarrow> string list \<Rightarrow> held_segment option" where
  "oldest_held s now keys = foldl (\<lambda>best k.
     let h = the (held s k) in
     if \<not> hs_busy h \<and> time_Sub now (hs_since h) \<ge> cs_term s
        \<and> (case best of None \<Rightarrow> True | Some b \<Rightarrow> hs_since h < hs_since b) then Some h else best) None keys"

definition rotate :: "('t, 'x) sched_ops \<Rightarrow> gotime \<Rightarrow> ('t, 'x) sx \<Rightarrow> ('t, 'x) sx \<times> go_error option" where
  "rotate S now = (\<lambda>(s, x).
     if cs_lastEligible s > 0 \<and> int (length (cs_held s)) \<ge> cs_maxSegments s then
       (case oldest_held s now (so_range S x (map fst (cs_held s))) of
          None \<Rightarrow> ((s, x), None)
        | Some h \<Rightarrow> sched_release S h 0 (s, x))
     else ((s, x), None))"

definition new_held :: "gotime \<Rightarrow> segment_lease \<Rightarrow> held_segment" where
  "new_held now l = \<lparr>hs_lease = l, hs_since = now, hs_served = False, hs_busy = False, hs_leaseEnd = 0, hs_deferUntil = 0\<rparr>"

definition acquire_more :: "('t, 'x) sched_ops \<Rightarrow> gotime \<Rightarrow> segmenter \<Rightarrow> ('t, 'x) sx \<Rightarrow> ('t, 'x) sx \<times> go_error option" where
  "acquire_more S now seg = (\<lambda>(s, x).
     case segmenter_segments S seg x of
       (x, Inl err) \<Rightarrow> ((s, x), Some (Errorf ''segments'' [err]))
     | (x, Inr cands) \<Rightarrow>
         (let room = cs_maxSegments s - int (length (cs_held s));
              room = (if room < 0 then 0 else room) in
          case so_Acquire S (cs_name s) (cs_owner s) cands room (cs_ttl s) x of
            (x, Inl err) \<Rightarrow> ((s, x), Some (Errorf ''acquire'' [err]))
          | (x, Inr res) \<Rightarrow>
              ((foldl (\<lambda>s l. put_held (sl_Key l) (new_held now l) s) (s\<lparr>cs_lastEligible := aq_Eligible res\<rparr>) (aq_Granted res), x), None)))"

definition claimed_batches :: "string list \<Rightarrow> gotime \<Rightarrow> 't claimed list \<Rightarrow> 't batch list" where
  "claimed_batches keys deadline groups =
     map (\<lambda>g. \<lparr>ba_Key = cl_Segment g,
               ba_Items = map (\<lambda>it. \<lparr>it_Key = cl_Segment g, it_Value = it, it_Deadline = deadline\<rparr>) (cl_Items g)\<rparr>)
       (filter (\<lambda>g. cl_Segment g \<in> set keys \<and> cl_Items g \<noteq> []) groups)"

definition claimHeld :: "('t, 'x) sched_ops \<Rightarrow> string list \<Rightarrow> ('t, 'x) sx \<Rightarrow> ('t, 'x) sx \<times> (go_error + 't batch list)" where
  "claimHeld S keys = (\<lambda>(s, x).
     case so_now S x of (x, now) \<Rightarrow>
       (let deadline = now + cs_lease s in
        case so_ClaimSegments S \<lparr>cq_Segments = keys, cq_MaxPerKey = cs_maxPerKey s, cq_Lease = cs_lease s\<rparr> x of
          (x, Inl err) \<Rightarrow> ((s, x), Inl (Errorf ''claim'' [err]))
        | (x, Inr groups) \<Rightarrow> ((s, x), Inr (claimed_batches keys deadline groups))))"

text \<open>The deadlines by segment; a later batch of a segment replaces an earlier one.\<close>

definition batch_ends :: "'t batch list \<Rightarrow> string \<Rightarrow> gotime option" where
  "batch_ends batches = foldl (\<lambda>got b. got(ba_Key b \<mapsto> it_Deadline (hd (ba_Items b)))) Map.empty batches"

definition mark_busy :: "(string \<Rightarrow> gotime option) \<Rightarrow> string list \<Rightarrow> claim_scheduler \<Rightarrow> claim_scheduler" where
  "mark_busy got free s = foldl (\<lambda>s k. case got k of
       None \<Rightarrow> s
     | Some end' \<Rightarrow> put_held k ((the (held s k))\<lparr>hs_served := True, hs_busy := True, hs_leaseEnd := end'\<rparr>) s) s free"

fun release_idle :: "('t, 'x) sched_ops \<Rightarrow> held_segment list \<Rightarrow> ('t, 'x) sx \<Rightarrow> ('t, 'x) sx \<times> go_error option" where
  "release_idle S [] sx = (sx, None)"
| "release_idle S (h # hs) (s, x) =
     (case sched_release S h (cs_pollInterval s) (s, x) of
        (sx, Some err) \<Rightarrow> (sx, Some err)
      | (sx, None) \<Rightarrow> release_idle S hs sx)"

definition claim_free :: "('t, 'x) sched_ops \<Rightarrow> string list \<Rightarrow> ('t, 'x) sx \<Rightarrow> ('t, 'x) sx \<times> (go_error + 't batch list)" where
  "claim_free S free sx =
     (if free = [] then (sx, Inr [])
      else case claimHeld S free sx of
        (sx, Inl err) \<Rightarrow> (sx, Inl err)
      | ((s, x), Inr batches) \<Rightarrow>
          (let got = batch_ends batches; s = mark_busy got free s;
               idle = map (\<lambda>k. the (held s k)) (filter (\<lambda>k. got k = None) free) in
           case release_idle S idle (s, x) of
             (sx, Some err) \<Rightarrow> (sx, Inl err)
           | (sx, None) \<Rightarrow> (sx, Inr batches)))"

definition free_keys :: "('t, 'x) sched_ops \<Rightarrow> ('t, 'x) sx \<Rightarrow> string list" where
  "free_keys S = (\<lambda>(s, x). filter (\<lambda>k. \<not> hs_busy (the (held s k))) (so_range S x (map fst (cs_held s))))"

definition nextSegmented :: "('t, 'x) sched_ops \<Rightarrow> segmenter \<Rightarrow> ('t, 'x) sx \<Rightarrow> ('t, 'x) sx \<times> (go_error + 't batch list)" where
  "nextSegmented S seg = (\<lambda>(s, x).
     case so_now S x of (x, now) \<Rightarrow>
     (case renew_held S now (s, x) of
        (sx, Some err) \<Rightarrow> (sx, Inl err)
      | (sx, None) \<Rightarrow>
     (case rotate S now sx of
        (sx, Some err) \<Rightarrow> (sx, Inl err)
      | (sx, None) \<Rightarrow>
     (case acquire_more S now seg sx of
        (sx, Some err) \<Rightarrow> (sx, Inl err)
      | (sx, None) \<Rightarrow> claim_free S (free_keys S sx) sx))))"

definition sched_Next :: "('t, 'x) sched_ops \<Rightarrow> ('t, 'x) sx \<Rightarrow> ('t, 'x) sx \<times> (go_error + 't batch list)" where
  "sched_Next S sx = (case cs_segmenter (fst sx) of None \<Rightarrow> nextUnsegmented S sx | Some seg \<Rightarrow> nextSegmented S seg sx)"

subsection \<open>Done, Drained and Close\<close>

definition defer_now :: "('t, 'x) sched_ops \<Rightarrow> string \<Rightarrow> string \<Rightarrow> gotime \<Rightarrow> ('t, 'x) sx \<Rightarrow> ('t, 'x) sx \<times> go_error option" where
  "defer_now S what key until = (\<lambda>(s, x).
     case so_now S x of (x, now) \<Rightarrow>
       (case so_Defer S (cs_name s) key (time_Sub until now) x of
          (x, Some err) \<Rightarrow> ((s, x), Some (Errorf what [err]))
        | (x, None) \<Rightarrow> ((s, x), None)))"

definition sched_Done :: "('t, 'x) sched_ops \<Rightarrow> 't item \<Rightarrow> outcome \<Rightarrow> ('t, 'x) sx \<Rightarrow> ('t, 'x) sx \<times> go_error option" where
  "sched_Done S item out = (\<lambda>(s, x).
     if oc_Kind out \<noteq> DeferredOutcome then ((s, x), None)
     else case so_now S x of (x, now) \<Rightarrow>
       (case (if oc_Until out > now then (x, oc_Until out)
              else case so_now S x of (x, now) \<Rightarrow> (x, now + cs_lease s)) of
          (x, until) \<Rightarrow>
            (case cs_segmenter s of
               None \<Rightarrow> defer_now S ''defer'' [] until (s, x)
             | Some _ \<Rightarrow>
                 (case held s (it_Key item) of
                    None \<Rightarrow> defer_now S (''defer '' @ it_Key item) (it_Key item) until (s, x)
                  | Some h \<Rightarrow>
                      ((if until > hs_deferUntil h then put_held (it_Key item) (h\<lparr>hs_deferUntil := until\<rparr>) s else s, x), None)))))"

definition sched_Drained :: "('t, 'x) sched_ops \<Rightarrow> string \<Rightarrow> ('t, 'x) sx \<Rightarrow> ('t, 'x) sx \<times> go_error option" where
  "sched_Drained S key = (\<lambda>(s, x).
     case cs_segmenter s of
       None \<Rightarrow> ((s\<lparr>cs_busy := False\<rparr>, x), None)
     | Some _ \<Rightarrow>
         (case held s key of
            None \<Rightarrow> ((s, x), None)
          | Some h \<Rightarrow>
              (let h = h\<lparr>hs_busy := False\<rparr>; s = put_held key h s in
               if hs_deferUntil h = 0 then ((s, x), None)
               else let until = (if hs_leaseEnd h > hs_deferUntil h then hs_leaseEnd h else hs_deferUntil h) in
                    case so_now S x of (x, now) \<Rightarrow> sched_release S h (time_Sub until now) (s, x))))"

definition close_request :: "gotime \<Rightarrow> held_segment \<Rightarrow> release_request" where
  "close_request now h = \<lparr>rr_Lease = hs_lease h,
     rr_DeferFor = (if hs_deferUntil h > now then time_Sub (hs_deferUntil h) now else 0), rr_Served = hs_served h\<rparr>"

definition sched_Close :: "('t, 'x) sched_ops \<Rightarrow> ('t, 'x) sx \<Rightarrow> ('t, 'x) sx \<times> go_error option" where
  "sched_Close S = (\<lambda>(s, x).
     if cs_held s = [] then ((s, x), None)
     else case so_now S x of (x, now) \<Rightarrow>
       (let rel = map (\<lambda>k. close_request now (the (held s k))) (so_range S x (map fst (cs_held s)));
            s = s\<lparr>cs_held := []\<rparr> in
        case so_Release S rel x of
          (x, Inl err) \<Rightarrow> ((s, x), Some (Errorf ''release'' [err]))
        | (x, Inr lost) \<Rightarrow> ((s, x), None)))"

end
