(* ===== verification/Auto_Sched_Props.thy ===== *)
theory Auto_Sched_Props
  imports Auto_Scheduler
begin

text \<open>
  What the default scheduler keeps: its held segments are well formed and within the cap, whatever the store,
  the list and the other instances do; and a segment is given at most one batch per lease until that batch has
  drained.
\<close>

section \<open>Held segments\<close>

definition range_ok :: "('t, 'x) sched_ops \<Rightarrow> bool" where
  "range_ok S \<longleftrightarrow> (\<forall>x ks. mset (so_range S x ks) = mset ks)"

lemma range_okD:
  assumes "range_ok S"
  shows "set (so_range S x ks) = set ks" "distinct (so_range S x ks) = distinct ks"
  using assms by (metis range_ok_def set_mset_mset, metis range_ok_def distinct_count_atmost_1 set_mset_mset)

lemma held_put [simp]: "held (put_held k h s) j = (if j = k then Some h else held s j)"
  by (simp add: held_def put_held_def update_conv')

lemma held_del [simp]: "held (del_held k s) j = (if j = k then None else held s j)"
  by (simp add: held_def del_held_def delete_conv')

lemma held_other [simp]: "held (s\<lparr>cs_lastEligible := n\<rparr>) = held s" "held (s\<lparr>cs_busy := b\<rparr>) = held s" "held (s\<lparr>cs_held := []\<rparr>) k = None"
  by (auto simp: held_def fun_eq_iff)

lemma held_dom: "k \<in> set (map fst (cs_held s)) \<longleftrightarrow> held s k \<noteq> None"
  by (auto simp: held_def map_of_eq_None_iff)

text \<open>The configuration of a scheduler does not change.\<close>

definition same_conf :: "claim_scheduler \<Rightarrow> claim_scheduler \<Rightarrow> bool" where
  "same_conf s s' \<longleftrightarrow> cs_name s' = cs_name s \<and> cs_owner s' = cs_owner s \<and> cs_segmenter s' = cs_segmenter s
     \<and> cs_maxSegments s' = cs_maxSegments s \<and> cs_ttl s' = cs_ttl s \<and> cs_lease s' = cs_lease s"

lemma same_conf_simps [simp]:
  "same_conf s s" "same_conf s (put_held k h s') = same_conf s s'" "same_conf s (del_held k s') = same_conf s s'"
  "same_conf s (s'\<lparr>cs_lastEligible := n\<rparr>) = same_conf s s'" "same_conf s (s'\<lparr>cs_busy := b\<rparr>) = same_conf s s'"
  "same_conf s (s'\<lparr>cs_held := hs\<rparr>) = same_conf s s'"
  by (simp_all add: same_conf_def put_held_def del_held_def)

lemma same_conf_trans: "same_conf s s' \<Longrightarrow> same_conf s' s'' \<Longrightarrow> same_conf s s''"
  by (simp add: same_conf_def)

definition held_ok :: "claim_scheduler \<Rightarrow> bool" where
  "held_ok s \<longleftrightarrow> distinct (map fst (cs_held s)) \<and> (\<forall>k h. held s k = Some h \<longrightarrow> sl_Key (hs_lease h) = k)"

lemma held_ok_del: "held_ok s \<Longrightarrow> held_ok (del_held k s)"
  by (auto simp: held_ok_def) (simp add: del_held_def distinct_delete)

lemma held_ok_put: "held_ok s \<Longrightarrow> sl_Key (hs_lease h) = k \<Longrightarrow> held_ok (put_held k h s)"
  by (auto simp: held_ok_def) (simp add: put_held_def distinct_update)

lemma length_del: "length (cs_held (del_held k s)) \<le> length (cs_held s)"
  by (simp add: del_held_def length_delete_le)

lemma length_AList_update: "length (AList.update k v xs) = (if k \<in> fst ` set xs then length xs else Suc (length xs))"
  by (induction xs) auto

lemma length_put: "length (cs_held (put_held k h s)) = (if held s k = None then Suc (length (cs_held s)) else length (cs_held s))"
  by (auto simp: put_held_def length_AList_update held_def map_of_eq_None_iff)

text \<open>A phase that only gives segments up.\<close>

definition shrinks :: "claim_scheduler \<Rightarrow> claim_scheduler \<Rightarrow> bool" where
  "shrinks s s' \<longleftrightarrow> same_conf s s' \<and> (held_ok s \<longrightarrow> held_ok s') \<and> length (cs_held s') \<le> length (cs_held s)
     \<and> (\<forall>k h. held s' k = Some h \<longrightarrow> held s k = Some h)"

lemma shrinks_refl [simp]: "shrinks s s"
  by (simp add: shrinks_def)

lemma shrinks_trans: "shrinks s s' \<Longrightarrow> shrinks s' s'' \<Longrightarrow> shrinks s s''"
  unfolding shrinks_def by (meson order_trans same_conf_trans)

lemma shrinks_del [simp]: "shrinks s (del_held k s)"
  by (simp add: shrinks_def held_ok_del length_del)

lemma shrinks_release: "sched_release S h d (s, x) = ((s', x'), e) \<Longrightarrow> s' = del_held (sl_Key (hs_lease h)) s"
  by (auto simp: sched_release_def Let_def split: prod.splits sum.splits)

lemma shrinks_drop_lost: "drop_lost S now ls (s, x) = ((s', x'), e) \<Longrightarrow> shrinks s s'"
proof (induction ls arbitrary: s x)
  case (Cons l ls)
  have rest: "shrinks s s'" if "drop_lost S now ls (del_held (sl_Key l) s, y) = ((s', x'), e)" for y
    using Cons.IH [OF that] by (rule shrinks_trans [OF shrinks_del])
  show ?case
    using Cons.prems rest by (auto simp: Let_def split: option.splits if_splits prod.splits)
qed simp

lemma shrinks_renew: "renew_held S now (s, x) = ((s', x'), e) \<Longrightarrow> shrinks s s'"
  by (auto simp: renew_held_def split: if_splits prod.splits sum.splits dest: shrinks_drop_lost)

lemma shrinks_rotate: "rotate S now (s, x) = ((s', x'), e) \<Longrightarrow> shrinks s s'"
  by (auto simp: rotate_def split: if_splits option.splits dest!: shrinks_release)

lemma shrinks_release_idle: "release_idle S hs (s, x) = ((s', x'), e) \<Longrightarrow> shrinks s s'
    \<and> (\<forall>k. k \<notin> (\<lambda>h. sl_Key (hs_lease h)) ` set hs \<longrightarrow> held s' k = held s k)"
proof (induction hs arbitrary: s x)
  case (Cons h hs)
  obtain s1 x1 e1 where r: "sched_release S h (cs_pollInterval s) (s, x) = ((s1, x1), e1)" by (metis prod.exhaust)
  note s1 = shrinks_release [OF r]
  show ?case
  proof (cases e1)
    case None
    then have "release_idle S hs (s1, x1) = ((s', x'), e)" using Cons.prems r by simp
    from Cons.IH [OF this] show ?thesis using s1 shrinks_trans [OF shrinks_del] by auto
  next
    case (Some err)
    then show ?thesis using Cons.prems r s1 by auto
  qed
qed simp

text \<open>A property of worlds that every operation keeps, whatever it returns.\<close>

definition worlds_ok :: "('x \<Rightarrow> bool) \<Rightarrow> ('t, 'x) sched_ops \<Rightarrow> bool" where
  "worlds_ok P S \<longleftrightarrow> (\<forall>x. P x \<longrightarrow> P (fst (so_now S x)) \<and> P (fst (so_query S x))
     \<and> (\<forall>name owner cands n ttl. P (fst (so_Acquire S name owner cands n ttl x)))
     \<and> (\<forall>ls ttl. P (fst (so_Renew S ls ttl x))) \<and> (\<forall>rel. P (fst (so_Release S rel x)))
     \<and> (\<forall>name key d. P (fst (so_Defer S name key d x))) \<and> (\<forall>q. P (fst (so_ClaimSegments S q x))))"

lemma worlds_okD:
  assumes "worlds_ok P S" "P x"
  shows "so_now S x = (x', now) \<Longrightarrow> P x'" "so_query S x = (x', q) \<Longrightarrow> P x'"
    "so_Acquire S name owner cands n ttl x = (x', a) \<Longrightarrow> P x'" "so_Renew S ls ttl x = (x', lost) \<Longrightarrow> P x'"
    "so_Release S rel x = (x', lost) \<Longrightarrow> P x'" "so_Defer S name key d x = (x', e) \<Longrightarrow> P x'"
    "so_ClaimSegments S q' x = (x', c) \<Longrightarrow> P x'"
  using assms unfolding worlds_ok_def by (metis fst_conv)+

lemma release_world:
  assumes "worlds_ok P S" "P x" "sched_release S h d (s, x) = ((s', x'), e)"
  shows "P x'"
proof -
  let ?q = "[\<lparr>rr_Lease = hs_lease h, rr_DeferFor = d, rr_Served = hs_served h\<rparr>]"
  obtain x1 r where "so_Release S ?q x = (x1, r)" by (cases "so_Release S ?q x")
  with worlds_okD(5) [OF assms(1,2) this] assms(3) show ?thesis by (cases r) (simp_all add: sched_release_def Let_def)
qed

lemma drop_lost_world:
  assumes "worlds_ok P S" "P x" "drop_lost S now ls (s, x) = ((s', x'), e)"
  shows "P x'"
  using assms(2,3)
proof (induction ls arbitrary: s x)
  case (Cons l ls)
  show ?case
  proof (cases "\<exists>h. held s (sl_Key l) = Some h \<and> hs_deferUntil h \<noteq> 0")
    case False
    then have "drop_lost S now ls (del_held (sl_Key l) s, x) = ((s', x'), e)"
      using Cons.prems(2) by (auto simp: Let_def split: option.splits)
    then show ?thesis by (rule Cons.IH [OF Cons.prems(1)])
  next
    case True
    then obtain h where h: "held s (sl_Key l) = Some h" "hs_deferUntil h \<noteq> 0" by blast
    let ?s = "del_held (sl_Key l) s"
    obtain x1 e1 where d: "so_Defer S (cs_name ?s) (sl_Key l) (time_Sub (hs_deferUntil h) now) x = (x1, e1)" by (metis prod.exhaust)
    have P1: "P x1" by (rule worlds_okD(6) [OF assms(1) Cons.prems(1) d])
    show ?thesis
    proof (cases e1)
      case None
      then have "drop_lost S now ls (?s, x1) = ((s', x'), e)" using Cons.prems(2) h d by (simp add: Let_def)
      then show ?thesis by (rule Cons.IH [OF P1])
    next
      case (Some err)
      then show ?thesis using Cons.prems(2) h d P1 by (simp add: Let_def)
    qed
  qed
qed simp

lemma renew_world:
  assumes "worlds_ok P S" "P x" "renew_held S now (s, x) = ((s', x'), e)"
  shows "P x'"
proof (cases "cs_held s = []")
  case True
  then show ?thesis using assms(2,3) by (simp add: renew_held_def)
next
  case False
  let ?ls = "map (\<lambda>k. hs_lease (the (held s k))) (so_range S x (map fst (cs_held s)))"
  obtain x1 r where r: "so_Renew S ?ls (cs_ttl s) x = (x1, r)" by (cases "so_Renew S ?ls (cs_ttl s) x")
  have P1: "P x1" by (rule worlds_okD(4) [OF assms(1,2) r])
  show ?thesis
  proof (cases r)
    case (Inl err)
    then show ?thesis using assms(3) False r P1 by (simp add: renew_held_def)
  next
    case (Inr lost)
    then have "drop_lost S now lost (s, x1) = ((s', x'), e)" using assms(3) False r by (simp add: renew_held_def)
    then show ?thesis by (rule drop_lost_world [OF assms(1) P1])
  qed
qed

lemma rotate_world: "worlds_ok P S \<Longrightarrow> P x \<Longrightarrow> rotate S now (s, x) = ((s', x'), e) \<Longrightarrow> P x'"
  by (auto simp: rotate_def split: if_splits option.splits dest: release_world)

section \<open>Acquiring\<close>

definition grants_ok :: "('t, 'x) sched_ops \<Rightarrow> bool" where
  "grants_ok S \<longleftrightarrow> (\<forall>name owner cands n ttl x x' res.
     so_Acquire S name owner cands n ttl x = (x', Inr res) \<longrightarrow> int (length (aq_Granted res)) \<le> max 0 n)"

lemma foldl_put_held:
  assumes "s' = foldl (\<lambda>s l. put_held (sl_Key l) (new_held now l) s) s ls"
  shows "same_conf s s' \<and> (held_ok s \<longrightarrow> held_ok s') \<and> length (cs_held s') \<le> length (cs_held s) + length ls
    \<and> (\<forall>k h. held s' k = Some h \<longrightarrow> held s k = Some h \<or> (\<exists>l \<in> set ls. sl_Key l = k \<and> h = new_held now l))"
  using assms
proof (induction ls arbitrary: s)
  case (Cons l ls)
  let ?s = "put_held (sl_Key l) (new_held now l) s"
  have ih: "same_conf ?s s' \<and> (held_ok ?s \<longrightarrow> held_ok s') \<and> length (cs_held s') \<le> length (cs_held ?s) + length ls
    \<and> (\<forall>k h. held s' k = Some h \<longrightarrow> held ?s k = Some h \<or> (\<exists>l \<in> set ls. sl_Key l = k \<and> h = new_held now l))"
    using Cons.prems by (intro Cons.IH) simp
  then have "same_conf s s'" by (intro same_conf_trans [of s ?s s']) simp_all
  moreover have "length (cs_held ?s) \<le> Suc (length (cs_held s))" by (simp add: length_put)
  ultimately show ?case using ih by (auto simp: held_ok_put new_held_def split: if_splits)
qed simp

lemma acquire_more_spec:
  assumes "acquire_more S now seg (s, x) = ((s', x'), e)" "worlds_ok P S" "P x"
  shows "same_conf s s' \<and> (held_ok s \<longrightarrow> held_ok s')
    \<and> (grants_ok S \<and> int (length (cs_held s)) \<le> cs_maxSegments s \<longrightarrow> int (length (cs_held s')) \<le> cs_maxSegments s)
    \<and> (\<forall>k h. held s' k = Some h \<longrightarrow> held s k = Some h
         \<or> (\<exists>cands n x1 x2 res l. P x1 \<and> so_Acquire S (cs_name s) (cs_owner s) cands n (cs_ttl s) x1 = (x2, Inr res)
              \<and> l \<in> set (aq_Granted res) \<and> sl_Key l = k \<and> h = new_held now l))"
proof -
  let ?room = "cs_maxSegments s - int (length (cs_held s))"
  let ?n = "if ?room < 0 then 0 else ?room"
  let ?put = "\<lambda>res. foldl (\<lambda>s l. put_held (sl_Key l) (new_held now l) s) (s\<lparr>cs_lastEligible := aq_Eligible res\<rparr>) (aq_Granted res)"
  obtain x1 r1 where g: "segmenter_segments S seg x = (x1, r1)" by (cases "segmenter_segments S seg x")
  have P1: "P x1" using g assms(3) worlds_okD(2) [OF assms(2,3)] by (auto simp: segmenter_segments_def split: segmenter.splits)
  have "s' = s \<or> (\<exists>cands x2 res. so_Acquire S (cs_name s) (cs_owner s) cands ?n (cs_ttl s) x1 = (x2, Inr res) \<and> s' = ?put res)"
  proof (cases r1)
    case (Inl err)
    then show ?thesis using assms(1) by (simp add: acquire_more_def g)
  next
    case (Inr cands)
    obtain x2 r2 where q: "so_Acquire S (cs_name s) (cs_owner s) cands ?n (cs_ttl s) x1 = (x2, r2)"
      by (cases "so_Acquire S (cs_name s) (cs_owner s) cands ?n (cs_ttl s) x1")
    note eq = assms(1) [unfolded acquire_more_def prod.case g Inr sum.case Let_def q]
    show ?thesis
    proof (cases r2)
      case (Inl err)
      then show ?thesis using eq by simp
    next
      case r2: (Inr res)
      then have "s' = ?put res" using eq by simp
      then show ?thesis using q r2 by blast
    qed
  qed
  then consider "s' = s" | cands x1 x2 res where "P x1" "so_Acquire S (cs_name s) (cs_owner s) cands ?n (cs_ttl s) x1 = (x2, Inr res)"
      "s' = ?put res"
    using P1 by blast
  then show ?thesis
  proof cases
    case 2
    let ?s = "s\<lparr>cs_lastEligible := aq_Eligible res\<rparr>"
    have F: "same_conf ?s s'" "held_ok ?s \<Longrightarrow> held_ok s'" "length (cs_held s') \<le> length (cs_held ?s) + length (aq_Granted res)"
      "\<And>k h. held s' k = Some h \<Longrightarrow> held ?s k = Some h \<or> (\<exists>l \<in> set (aq_Granted res). sl_Key l = k \<and> h = new_held now l)"
      using foldl_put_held [OF 2(3)] by blast+
    have "same_conf s ?s" by simp
    from this F(1) have "same_conf s s'" by (rule same_conf_trans)
    moreover have "held_ok s'" if "held_ok s"
    proof (rule F(2))
      show "held_ok ?s" using that by (simp add: held_ok_def)
    qed
    moreover have "int (length (cs_held s')) \<le> cs_maxSegments s"
      if "grants_ok S" "int (length (cs_held s)) \<le> cs_maxSegments s"
    proof -
      have "int (length (aq_Granted res)) \<le> max 0 ?n" using that(1) 2(2) unfolding grants_ok_def by blast
      with F(3) that(2) show ?thesis by (simp split: if_splits)
    qed
    moreover have "held s k = Some h \<or> (\<exists>l \<in> set (aq_Granted res). sl_Key l = k \<and> h = new_held now l)" if "held s' k = Some h" for k h
      using F(4) [OF that] by (simp only: held_other)
    ultimately show ?thesis using 2(1,2) by blast
  qed simp
qed

section \<open>Claiming\<close>

lemma batch_ends_spec:
  assumes "\<And>b. b \<in> set batches \<Longrightarrow> it_Deadline (hd (ba_Items b)) = d"
  shows "batch_ends batches k = (if k \<in> ba_Key ` set batches then Some d else None)"
  using assms unfolding batch_ends_def
  by (induction batches rule: rev_induct) auto

lemma mark_busy_spec:
  assumes "distinct free" "\<forall>k \<in> set free. held s k \<noteq> None" "s' = mark_busy got free s"
  shows "same_conf s s' \<and> (held_ok s \<longrightarrow> held_ok s') \<and> length (cs_held s') = length (cs_held s)
    \<and> (\<forall>k. held s' k = (if k \<in> set free \<and> got k \<noteq> None
        then Some ((the (held s k))\<lparr>hs_served := True, hs_busy := True, hs_leaseEnd := the (got k)\<rparr>) else held s k))"
  using assms
proof (induction free arbitrary: s)
  case (Cons j free)
  define s1 where "s1 = (case got j of None \<Rightarrow> s
    | Some e \<Rightarrow> put_held j ((the (held s j))\<lparr>hs_served := True, hs_busy := True, hs_leaseEnd := e\<rparr>) s)"
  have m: "s' = mark_busy got free s1" using Cons.prems(3) by (simp add: mark_busy_def s1_def)
  obtain h where j: "held s j = Some h" using Cons.prems(2) by auto
  have ok1: "held_ok s1" if "held_ok s"
  proof -
    have "sl_Key (hs_lease h) = j" using that j by (simp add: held_ok_def)
    then show ?thesis using that j by (auto simp: s1_def intro!: held_ok_put split: option.split)
  qed
  have s1: "same_conf s s1" "length (cs_held s1) = length (cs_held s)"
    and hs1: "\<And>k. held s1 k = (if k = j \<and> got j \<noteq> None then Some ((the (held s j))\<lparr>hs_served := True, hs_busy := True, hs_leaseEnd := the (got j)\<rparr>) else held s k)"
    using j by (auto simp: s1_def length_put split: option.split)
  have "\<forall>k \<in> set free. held s1 k \<noteq> None" using Cons.prems(2) by (auto simp: hs1)
  from Cons.IH [OF _ this m] Cons.prems(1) s1 ok1 show ?case by (auto simp: hs1 intro: same_conf_trans)
qed (simp add: mark_busy_def)

lemma claimHeld_cases:
  assumes "claimHeld S keys (s, x) = ((s', x'), r)"
  shows "s' = s" "r = Inr batches \<Longrightarrow> \<exists>d groups. batches = claimed_batches keys d groups"
proof -
  obtain x1 now where n: "so_now S x = (x1, now)" by (cases "so_now S x")
  let ?q = "\<lparr>cq_Segments = keys, cq_MaxPerKey = cs_maxPerKey s, cq_Lease = cs_lease s\<rparr>"
  obtain x2 r2 where c: "so_ClaimSegments S ?q x1 = (x2, r2)" by (cases "so_ClaimSegments S ?q x1")
  show "s' = s" using assms by (cases r2) (simp_all add: claimHeld_def n c Let_def)
  assume "r = Inr batches"
  then show "\<exists>d groups. batches = claimed_batches keys d groups"
    using assms by (cases r2) (auto simp: claimHeld_def n c Let_def)
qed

text \<open>Claiming for the free segments and giving back those without work.\<close>

lemma claim_free_spec:
  assumes "claim_free S free (s, x) = ((s', x'), r)" "distinct free" "\<forall>k \<in> set free. held s k \<noteq> None" "held_ok s"
  shows "same_conf s s' \<and> held_ok s' \<and> length (cs_held s') \<le> length (cs_held s)
    \<and> (\<forall>k h'. held s' k = Some h' \<longrightarrow> (\<exists>h. held s k = Some h \<and> hs_lease h' = hs_lease h \<and> hs_deferUntil h' = hs_deferUntil h \<and> (hs_busy h \<longrightarrow> hs_busy h')))
    \<and> (\<forall>batches. r = Inr batches \<longrightarrow> (\<forall>b \<in> set batches. ba_Key b \<in> set free \<and> ba_Items b \<noteq> []
         \<and> (\<exists>h'. held s' (ba_Key b) = Some h' \<and> hs_busy h' \<and> hs_served h'
              \<and> (\<forall>it \<in> set (ba_Items b). it_Key it = ba_Key b \<and> it_Deadline it = hs_leaseEnd h'))))"
proof (cases "free = []")
  case True
  then show ?thesis using assms(1,4) by (auto simp: claim_free_def)
next
  case False
  obtain s0 x1 r1 where c: "claimHeld S free (s, x) = ((s0, x1), r1)" by (metis prod.exhaust)
  then have s0: "s0 = s" by (rule claimHeld_cases(1))
  show ?thesis
  proof (cases r1)
    case (Inl err)
    then show ?thesis using assms(1,4) False c s0 by (auto simp: claim_free_def)
  next
    case (Inr batches)
    obtain d groups where b: "batches = claimed_batches free d groups" using claimHeld_cases(2) [OF c Inr] by blast
    have items: "ba_Items bt \<noteq> []" "ba_Key bt \<in> set free" "\<forall>it \<in> set (ba_Items bt). it_Key it = ba_Key bt \<and> it_Deadline it = d"
      if "bt \<in> set batches" for bt using that by (auto simp: b claimed_batches_def)
    then have got: "batch_ends batches k = (if k \<in> ba_Key ` set batches then Some d else None)" for k
      by (intro batch_ends_spec) (meson hd_in_set)
    define s1 where "s1 = mark_busy (batch_ends batches) free s"
    note M = mark_busy_spec [OF assms(2,3) s1_def]
    let ?idle = "map (\<lambda>k. the (held s1 k)) (filter (\<lambda>k. batch_ends batches k = None) free)"
    obtain s9 x2 e where rel9: "release_idle S ?idle (s1, x1) = ((s9, x2), e)" by (metis prod.exhaust)
    have "claim_free S free (s, x) = ((s9, x2), case e of None \<Rightarrow> Inr batches | Some err \<Rightarrow> Inl err)"
      using False unfolding claim_free_def c Inr s0 Let_def prod.case sum.case s1_def [symmetric] rel9
      by (cases e) simp_all
    from trans [OF assms(1) [symmetric] this] have s9: "s9 = s'" and r: "r = (case e of None \<Rightarrow> Inr batches | Some err \<Rightarrow> Inl err)"
      by (simp_all only: prod.inject)
    note rel = rel9 [unfolded s9]
    note I = shrinks_release_idle [OF rel]
    have sh: "same_conf s1 s'" "held_ok s1 \<Longrightarrow> held_ok s'" "length (cs_held s') \<le> length (cs_held s1)"
      "\<And>k h. held s' k = Some h \<Longrightarrow> held s1 k = Some h" using I unfolding shrinks_def by blast+
    have Mh: "held s1 k = (if k \<in> set free \<and> batch_ends batches k \<noteq> None
        then Some ((the (held s k))\<lparr>hs_served := True, hs_busy := True, hs_leaseEnd := the (batch_ends batches k)\<rparr>) else held s k)" for k
      using M by blast
    have old: "\<exists>h. held s k = Some h \<and> hs_lease h' = hs_lease h \<and> hs_deferUntil h' = hs_deferUntil h \<and> (hs_busy h \<longrightarrow> hs_busy h')" if "held s' k = Some h'" for k h'
      using sh(4) [OF that] Mh [of k] assms(3) by (auto split: if_splits)
    have busy: "\<exists>h'. held s' k = Some h' \<and> hs_busy h' \<and> hs_served h' \<and> hs_leaseEnd h' = d" if kb: "k \<in> ba_Key ` set batches" for k
    proof -
      have kf: "k \<in> set free" using kb items by auto
      have "sl_Key (hs_lease h) \<noteq> k" if h: "h \<in> set ?idle" for h
      proof -
        obtain j where j: "j \<in> set free" "batch_ends batches j = None" "h = the (held s1 j)" using h by auto
        then have "held s1 j = Some h" using Mh [of j] assms(3) by auto
        moreover have "held_ok s1" using M assms(4) by blast
        ultimately have "sl_Key (hs_lease h) = j" by (simp add: held_ok_def)
        with j(2) got [of k] kb show ?thesis by auto
      qed
      then have "k \<notin> (\<lambda>h. sl_Key (hs_lease h)) ` set ?idle" by (auto simp only: image_iff)
      with conjunct2 [OF I] have "held s' k = held s1 k" by (simp only: not_False_eq_True)
      then show ?thesis using Mh [of k] kf got [of k] kb by simp
    qed
    have "ba_Key bt \<in> set free \<and> ba_Items bt \<noteq> [] \<and> (\<exists>h'. held s' (ba_Key bt) = Some h' \<and> hs_busy h' \<and> hs_served h'
        \<and> (\<forall>it \<in> set (ba_Items bt). it_Key it = ba_Key bt \<and> it_Deadline it = hs_leaseEnd h'))" if "bt \<in> set batches" for bt
      using items [OF that] busy [of "ba_Key bt"] that by auto
    moreover have "same_conf s s'" using M sh(1) by (blast intro: same_conf_trans)
    moreover have "held_ok s'" "length (cs_held s') \<le> length (cs_held s)" using M sh(2,3) assms(4) by auto
    ultimately show ?thesis using old r by (auto split: option.splits)
  qed
qed

section \<open>Next as a whole\<close>

definition granted_to :: "('x \<Rightarrow> bool) \<Rightarrow> ('t, 'x) sched_ops \<Rightarrow> claim_scheduler \<Rightarrow> segment_lease \<Rightarrow> bool" where
  "granted_to P S s l \<longleftrightarrow> (\<exists>cands n x1 x2 res. P x1 \<and> so_Acquire S (cs_name s) (cs_owner s) cands n (cs_ttl s) x1 = (x2, Inr res)
     \<and> l \<in> set (aq_Granted res))"

definition batch_marked :: "claim_scheduler \<Rightarrow> 't batch \<Rightarrow> bool" where
  "batch_marked s b \<longleftrightarrow> ba_Items b \<noteq> [] \<and> (case held s (ba_Key b) of None \<Rightarrow> False | Some h \<Rightarrow>
     hs_busy h \<and> hs_served h \<and> (\<forall>it \<in> set (ba_Items b). it_Key it = ba_Key b \<and> it_Deadline it = hs_leaseEnd h))"

definition keeps_or_gets :: "('x \<Rightarrow> bool) \<Rightarrow> ('t, 'x) sched_ops \<Rightarrow> claim_scheduler \<Rightarrow> claim_scheduler \<Rightarrow> bool" where
  "keeps_or_gets P S s s' \<longleftrightarrow> (\<forall>k h'. held s' k = Some h' \<longrightarrow>
     (\<exists>h. held s k = Some h \<and> hs_lease h' = hs_lease h \<and> hs_deferUntil h' = hs_deferUntil h \<and> (hs_busy h \<longrightarrow> hs_busy h'))
     \<or> granted_to P S s (hs_lease h') \<and> sl_Key (hs_lease h') = k)"

lemma free_keys_spec:
  assumes "range_ok S" "held_ok s"
  shows "distinct (free_keys S (s, x))" "set (free_keys S (s, x)) = {k. \<exists>h. held s k = Some h \<and> \<not> hs_busy h}"
proof -
  show "distinct (free_keys S (s, x))" using assms by (simp add: free_keys_def range_okD held_ok_def)
  show "set (free_keys S (s, x)) = {k. \<exists>h. held s k = Some h \<and> \<not> hs_busy h}"
    unfolding free_keys_def prod.case set_filter range_okD(1) [OF assms(1)] held_dom by auto
qed

lemma nextSegmented_phases:
  assumes "nextSegmented S seg (s, x) = ((s', x'), r)"
  obtains (failed) s1 err where "shrinks s s1" "r = Inl err"
      "s' = s1 \<or> (\<exists>now x1 x2. (worlds_ok P S \<longrightarrow> P x \<longrightarrow> P x1) \<and> acquire_more S now seg (s1, x1) = ((s', x2), Some err))"
    | (claimed) now s1 x1 s2 x2 where "shrinks s s1" "worlds_ok P S \<longrightarrow> P x \<longrightarrow> P x1" "acquire_more S now seg (s1, x1) = ((s2, x2), None)"
      "claim_free S (free_keys S (s2, x2)) (s2, x2) = ((s', x'), r)"
proof -
  obtain x0 now where n: "so_now S x = (x0, now)" by (cases "so_now S x")
  obtain s1 x1 e1 where r1: "renew_held S now (s, x0) = ((s1, x1), e1)" by (metis prod.exhaust)
  obtain s2 x2 e2 where r2: "rotate S now (s1, x1) = ((s2, x2), e2)" by (metis prod.exhaust)
  obtain s3 x3 e3 where r3: "acquire_more S now seg (s2, x2) = ((s3, x3), e3)" by (metis prod.exhaust)
  have sh1: "shrinks s s1" by (rule shrinks_renew [OF r1])
  have sh2: "shrinks s s2" by (rule shrinks_trans [OF sh1 shrinks_rotate [OF r2]])
  have P2: "worlds_ok P S \<longrightarrow> P x \<longrightarrow> P x2"
  proof (intro impI)
    assume w: "worlds_ok P S" "P x"
    have "P x0" by (rule worlds_okD(1) [OF w n])
    then have "P x1" by (rule renew_world [OF w(1) _ r1])
    then show "P x2" by (rule rotate_world [OF w(1) _ r2])
  qed
  note eq = assms [unfolded nextSegmented_def prod.case n r1]
  show thesis
  proof (cases e1)
    case (Some err)
    then show thesis using eq sh1 by (intro failed [of s1 err]) simp_all
  next
    case None
    note eq2 = eq [unfolded None option.case prod.case r2]
    show thesis
    proof (cases e2)
      case (Some err)
      then show thesis using eq2 sh2 by (intro failed [of s2 err]) simp_all
    next
      case None
      note eq3 = eq2 [unfolded None option.case prod.case r3]
      show thesis
      proof (cases e3)
        case (Some err)
        then show thesis using eq3 sh2 r3 P2 by (intro failed [of s2 err]) auto
      next
        case None
        with eq3 r3 show thesis by (intro claimed [OF sh2 P2]) simp_all
      qed
    qed
  qed
qed

lemma granted_to_conf: "same_conf s s' \<Longrightarrow> granted_to P S s' l = granted_to P S s l"
  by (simp add: granted_to_def same_conf_def)

lemma acquire_after:
  assumes "shrinks s s1" "acquire_more S now seg (s1, x1) = ((s2, x2), e)" "held_ok s" "worlds_ok P S" "P x1"
  shows "same_conf s s2 \<and> held_ok s2
    \<and> (grants_ok S \<and> int (length (cs_held s)) \<le> cs_maxSegments s \<longrightarrow> int (length (cs_held s2)) \<le> cs_maxSegments s2)
    \<and> (\<forall>k h. held s2 k = Some h \<longrightarrow> held s k = Some h \<or> granted_to P S s (hs_lease h) \<and> sl_Key (hs_lease h) = k)"
proof -
  have sh: "same_conf s s1" "held_ok s1" "length (cs_held s1) \<le> length (cs_held s)" "\<And>k h. held s1 k = Some h \<Longrightarrow> held s k = Some h"
    using assms(1,3) unfolding shrinks_def by blast+
  have A: "same_conf s1 s2" "held_ok s1 \<Longrightarrow> held_ok s2"
    "grants_ok S \<Longrightarrow> int (length (cs_held s1)) \<le> cs_maxSegments s1 \<Longrightarrow> int (length (cs_held s2)) \<le> cs_maxSegments s1"
    "\<And>k h. held s2 k = Some h \<Longrightarrow> held s1 k = Some h \<or> (\<exists>cands n x1 x2 res l. P x1 \<and> so_Acquire S (cs_name s1) (cs_owner s1) cands n (cs_ttl s1) x1 = (x2, Inr res)
              \<and> l \<in> set (aq_Granted res) \<and> sl_Key l = k \<and> h = new_held now l)"
    using acquire_more_spec [OF assms(2,4,5)] by blast+
  have c: "same_conf s s2" by (rule same_conf_trans [OF sh(1) A(1)])
  have cap: "int (length (cs_held s2)) \<le> cs_maxSegments s2" if "grants_ok S" "int (length (cs_held s)) \<le> cs_maxSegments s"
    using A(3) [OF that(1)] sh(1,3) A(1) that(2) by (simp add: same_conf_def)
  have "held s k = Some h \<or> granted_to P S s (hs_lease h) \<and> sl_Key (hs_lease h) = k" if "held s2 k = Some h" for k h
    using A(4) [OF that]
  proof
    assume "held s1 k = Some h"
    then show ?thesis using sh(4) by blast
  next
    assume "\<exists>cands n x1 x2 res l. P x1 \<and> so_Acquire S (cs_name s1) (cs_owner s1) cands n (cs_ttl s1) x1 = (x2, Inr res)
              \<and> l \<in> set (aq_Granted res) \<and> sl_Key l = k \<and> h = new_held now l"
    then obtain cands n x1 x2 res l where "P x1" "so_Acquire S (cs_name s1) (cs_owner s1) cands n (cs_ttl s1) x1 = (x2, Inr res)"
      "l \<in> set (aq_Granted res)" and l: "sl_Key l = k" "h = new_held now l" by blast
    then have "granted_to P S s1 l" unfolding granted_to_def by blast
    then have "granted_to P S s1 (hs_lease h) \<and> sl_Key (hs_lease h) = k" using l by (simp add: new_held_def)
    then show ?thesis using granted_to_conf [OF sh(1)] by blast
  qed
  then show ?thesis using c A(2) sh(2) cap by blast
qed

lemma shrinks_keeps: "shrinks s s' \<Longrightarrow> keeps_or_gets P S s s'"
  unfolding shrinks_def keeps_or_gets_def by blast

lemma nextSegmented_spec:
  assumes "nextSegmented S seg (s, x) = ((s', x'), r)" "range_ok S" "held_ok s" "worlds_ok P S" "P x"
  shows "same_conf s s' \<and> held_ok s' \<and> keeps_or_gets P S s s'
    \<and> (grants_ok S \<and> int (length (cs_held s)) \<le> cs_maxSegments s \<longrightarrow> int (length (cs_held s')) \<le> cs_maxSegments s')
    \<and> (\<forall>batches. r = Inr batches \<longrightarrow> (\<forall>b \<in> set batches. batch_marked s' b
         \<and> (\<exists>h'. held s' (ba_Key b) = Some h' \<and> (granted_to P S s (hs_lease h')
              \<or> (\<exists>h. held s (ba_Key b) = Some h \<and> hs_lease h = hs_lease h' \<and> \<not> hs_busy h)))))"
  using assms(1)
proof (cases rule: nextSegmented_phases [where P = P])
  case (failed s1 err)
  have ok1: "held_ok s1" "same_conf s s1" "length (cs_held s1) \<le> length (cs_held s)"
    using failed(1) assms(3) unfolding shrinks_def by blast+
  from failed(3) show ?thesis
  proof
    assume "s' = s1"
    then show ?thesis using ok1 shrinks_keeps [OF failed(1)] failed(2) by (auto simp: same_conf_def)
  next
    assume "\<exists>now x1 x2. (worlds_ok P S \<longrightarrow> P x \<longrightarrow> P x1) \<and> acquire_more S now seg (s1, x1) = ((s', x2), Some err)"
    then obtain now x1 x2 where "P x1" "acquire_more S now seg (s1, x1) = ((s', x2), Some err)" using assms(4,5) by blast
    from acquire_after [OF failed(1) this(2) assms(3,4) this(1)] failed(2) show ?thesis unfolding keeps_or_gets_def by blast
  qed
next
  case (claimed now s1 x1 s2 x2)
  have A: "same_conf s s2" "held_ok s2"
    "grants_ok S \<and> int (length (cs_held s)) \<le> cs_maxSegments s \<Longrightarrow> int (length (cs_held s2)) \<le> cs_maxSegments s2"
    "\<And>k h. held s2 k = Some h \<Longrightarrow> held s k = Some h \<or> granted_to P S s (hs_lease h) \<and> sl_Key (hs_lease h) = k"
    using acquire_after [OF claimed(1,3) assms(3,4) mp [OF mp [OF claimed(2) assms(4)] assms(5)]] by blast+
  note F = free_keys_spec [OF assms(2) A(2), of x2]
  have "\<forall>k \<in> set (free_keys S (s2, x2)). held s2 k \<noteq> None" unfolding F(2) by auto
  note P = claim_free_spec [OF claimed(4) F(1) this A(2)]
  have P1: "same_conf s2 s'" "held_ok s'" "length (cs_held s') \<le> length (cs_held s2)"
    "\<And>k h'. held s' k = Some h' \<Longrightarrow> \<exists>h. held s2 k = Some h \<and> hs_lease h' = hs_lease h \<and> hs_deferUntil h' = hs_deferUntil h \<and> (hs_busy h \<longrightarrow> hs_busy h')"
    using P by blast+
  have keeps: "keeps_or_gets P S s s'" unfolding keeps_or_gets_def using P1(4) A(4) by metis
  have cap: "int (length (cs_held s')) \<le> cs_maxSegments s'"
    if "grants_ok S \<and> int (length (cs_held s)) \<le> cs_maxSegments s"
    using A(3) [OF that] P1(1,3) by (simp add: same_conf_def)
  have "batch_marked s' b \<and> (\<exists>h'. held s' (ba_Key b) = Some h' \<and> (granted_to P S s (hs_lease h')
      \<or> (\<exists>h. held s (ba_Key b) = Some h \<and> hs_lease h = hs_lease h' \<and> \<not> hs_busy h)))" if bs: "r = Inr batches" "b \<in> set batches" for b batches
  proof -
    obtain h' where b: "ba_Key b \<in> set (free_keys S (s2, x2))" "ba_Items b \<noteq> []" "held s' (ba_Key b) = Some h'" "hs_busy h'" "hs_served h'"
      "\<forall>it \<in> set (ba_Items b). it_Key it = ba_Key b \<and> it_Deadline it = hs_leaseEnd h'"
      using P bs by blast
    obtain h2 where h2: "held s2 (ba_Key b) = Some h2" "\<not> hs_busy h2" using b(1) unfolding F(2) by blast
    have "hs_lease h' = hs_lease h2" using P1(4) [OF b(3)] h2(1) by auto
    then show ?thesis using A(4) [OF h2(1)] h2(2) b(2-6) by (auto simp: batch_marked_def)
  qed
  then show ?thesis using keeps cap P1(2) same_conf_trans [OF A(1) P1(1)] by blast
qed

section \<open>The scheduler over a store\<close>

text \<open>
  The runs of a scheduler: its operations in any order, each in a world of its own, so that whatever happens
  between two of them, to the store, the list or the clock, is allowed for.
\<close>

inductive sched_run :: "('t, 'x) sched_ops \<Rightarrow> claim_scheduler \<Rightarrow> claim_scheduler \<Rightarrow> bool" for S s0 where
  start: "sched_run S s0 s0"
| nxt: "sched_run S s0 s \<Longrightarrow> sched_Next S (s, x) = ((s', x'), r) \<Longrightarrow> sched_run S s0 s'"
| item_done: "sched_run S s0 s \<Longrightarrow> sched_Done S item out (s, x) = ((s', x'), e) \<Longrightarrow> sched_run S s0 s'"
| drained: "sched_run S s0 s \<Longrightarrow> sched_Drained S key (s, x) = ((s', x'), e) \<Longrightarrow> sched_run S s0 s'"
| closed: "sched_run S s0 s \<Longrightarrow> sched_Close S (s, x) = ((s', x'), e) \<Longrightarrow> sched_run S s0 s'"

definition sched_inv :: "('x \<Rightarrow> bool) \<Rightarrow> ('t, 'x) sched_ops \<Rightarrow> claim_scheduler \<Rightarrow> bool" where
  "sched_inv P S s \<longleftrightarrow> held_ok s \<and> int (length (cs_held s)) \<le> cs_maxSegments s
     \<and> (\<forall>k h. held s k = Some h \<longrightarrow> granted_to P S s (hs_lease h))"

lemma defer_now_same: "defer_now S what key until (s, x) = ((s', x'), e) \<Longrightarrow> s' = s"
  by (auto simp: defer_now_def split: prod.splits option.splits)

lemma sched_Done_cases:
  assumes "sched_Done S item out (s, x) = ((s', x'), e)"
  obtains "s' = s" | h until where "held s (it_Key item) = Some h" "s' = put_held (it_Key item) (h\<lparr>hs_deferUntil := until\<rparr>) s"
proof (cases "oc_Kind out = DeferredOutcome")
  case False
  then show thesis using assms that(1) by (simp add: sched_Done_def)
next
  case True
  obtain x1 now where n: "so_now S x = (x1, now)" by (cases "so_now S x")
  obtain x2 until where u: "(if oc_Until out > now then (x1, oc_Until out)
      else case so_now S x1 of (x, now) \<Rightarrow> (x, now + cs_lease s)) = (x2, until)" by (metis prod.exhaust)
  note eq = assms [unfolded sched_Done_def prod.case n u True]
  show thesis
  proof (cases "cs_segmenter s")
    case None
    then show thesis using eq that(1) by (auto dest: defer_now_same)
  next
    case (Some seg)
    show thesis
    proof (cases "held s (it_Key item)")
      case None
      then show thesis using eq Some that(1) by (auto dest: defer_now_same)
    next
      case h: (Some h)
      then show thesis using eq Some that(1) that(2) [OF h, of until] by (auto split: if_splits)
    qed
  qed
qed

lemma sched_Drained_cases:
  assumes "sched_Drained S key (s, x) = ((s', x'), e)"
  obtains "s' = s\<lparr>cs_busy := False\<rparr>" | "s' = s" | h where "held s key = Some h"
    "s' = put_held key (h\<lparr>hs_busy := False\<rparr>) s \<or> s' = del_held (sl_Key (hs_lease h)) (put_held key (h\<lparr>hs_busy := False\<rparr>) s)"
proof (cases "cs_segmenter s")
  case None
  then show thesis using assms that(1) by (simp add: sched_Drained_def)
next
  case seg: (Some seg)
  show thesis
  proof (cases "held s key")
    case None
    then show thesis using assms that(2) seg by (simp add: sched_Drained_def)
  next
    case (Some h)
    let ?s = "put_held key (h\<lparr>hs_busy := False\<rparr>) s"
    show thesis
    proof (cases "hs_deferUntil h = 0")
      case True
      then show thesis using assms that(3) [OF Some] seg Some by (simp add: sched_Drained_def Let_def)
    next
      case False
      obtain x1 now where n: "so_now S x = (x1, now)" by (cases "so_now S x")
      define d where "d = time_Sub (if hs_leaseEnd h > hs_deferUntil h then hs_leaseEnd h else hs_deferUntil h) now"
      have "sched_release S (h\<lparr>hs_busy := False\<rparr>) d (?s, x1) = ((s', x'), e)"
        using assms seg Some False n by (simp add: sched_Drained_def Let_def d_def cong: if_cong)
      from shrinks_release [OF this] show thesis by (intro that(3) [OF Some]) simp
    qed
  qed
qed

lemma sched_Close_cases:
  assumes "sched_Close S (s, x) = ((s', x'), e)"
  shows "s' = s\<lparr>cs_held := []\<rparr>"
  using assms by (auto simp: sched_Close_def Let_def split: if_splits prod.splits sum.splits)

lemma nextUnsegmented_cases:
  assumes "nextUnsegmented S (s, x) = ((s', x'), r)"
  obtains "s' = s" "\<forall>batches. r = Inr batches \<longrightarrow> batches = []" | "\<not> cs_busy s" "s' = s\<lparr>cs_busy := True\<rparr>" "\<exists>b. r = Inr [b] \<and> ba_Items b \<noteq> []"
  using assms unfolding nextUnsegmented_def prod.case
  by (auto split: if_splits prod.splits sum.splits)

lemma sched_inv_put:
  assumes "sched_inv P S s" "held s k = Some h" "hs_lease h' = hs_lease h"
  shows "sched_inv P S (put_held k h' s)"
proof -
  have c: "same_conf s (put_held k h' s)" by simp
  have inv: "held_ok s" "int (length (cs_held s)) \<le> cs_maxSegments s" "\<And>k h. held s k = Some h \<Longrightarrow> granted_to P S s (hs_lease h)"
    using assms(1) unfolding sched_inv_def by blast+
  have "held_ok (put_held k h' s)" by (rule held_ok_put [OF inv(1)]) (use inv(1) assms(2,3) in \<open>simp add: held_ok_def\<close>)
  moreover have "int (length (cs_held (put_held k h' s))) \<le> cs_maxSegments (put_held k h' s)"
    using inv(2) assms(2) c by (simp add: length_put same_conf_def)
  moreover have "granted_to P S (put_held k h' s) (hs_lease g)" if "held (put_held k h' s) j = Some g" for j g
    unfolding granted_to_conf [OF c] using that inv(3) assms(2,3) by (auto split: if_splits)
  ultimately show ?thesis unfolding sched_inv_def by blast
qed

lemma sched_inv_shrinks:
  assumes "sched_inv P S s" "shrinks s s'"
  shows "sched_inv P S s'"
proof -
  have c: "same_conf s s'" using assms(2) by (simp add: shrinks_def)
  show ?thesis using assms granted_to_conf [OF c, of P S] c unfolding sched_inv_def shrinks_def same_conf_def
    by (metis of_nat_mono order_trans)
qed

lemma sched_inv_busy: "sched_inv P S (s\<lparr>cs_busy := b\<rparr>) = sched_inv P S s"
proof -
  have "same_conf s (s\<lparr>cs_busy := b\<rparr>)" by simp
  from granted_to_conf [OF this, of P S] show ?thesis by (simp add: sched_inv_def held_ok_def)
qed

locale segment_leases =
  fixes S :: "('t, 'x) sched_ops"
  assumes ranges: "range_ok S" and grants: "grants_ok S"
begin

lemma any: "worlds_ok (\<lambda>_. True) S"
  by (simp add: worlds_ok_def)

lemma Next_inv:
  assumes "sched_inv (\<lambda>_. True) S s" "sched_Next S (s, x) = ((s', x'), r)"
  shows "sched_inv (\<lambda>_. True) S s'"
proof (cases "cs_segmenter s")
  case None
  then have "nextUnsegmented S (s, x) = ((s', x'), r)" using assms(2) by (simp add: sched_Next_def)
  then show ?thesis using assms(1) by (cases rule: nextUnsegmented_cases) (auto simp: sched_inv_busy)
next
  case (Some seg)
  then have n: "nextSegmented S seg (s, x) = ((s', x'), r)" using assms(2) by (simp add: sched_Next_def)
  have ok: "held_ok s" "int (length (cs_held s)) \<le> cs_maxSegments s" "\<And>k h. held s k = Some h \<Longrightarrow> granted_to (\<lambda>_. True) S s (hs_lease h)"
    using assms(1) unfolding sched_inv_def by blast+
  have P: "same_conf s s'" "held_ok s'" "keeps_or_gets (\<lambda>_. True) S s s'" "int (length (cs_held s')) \<le> cs_maxSegments s'"
    using nextSegmented_spec [OF n ranges ok(1) any TrueI] grants ok(2) by blast+
  have "granted_to (\<lambda>_. True) S s' (hs_lease h')" if "held s' k = Some h'" for k h'
    using P(3) that ok(3) unfolding granted_to_conf [OF P(1)] keeps_or_gets_def by metis
  then show ?thesis using P(2,4) unfolding sched_inv_def by blast
qed

lemma run_inv:
  assumes "sched_run S s0 s" "sched_inv (\<lambda>_. True) S s0"
  shows "sched_inv (\<lambda>_. True) S s"
  using assms
proof (induction rule: sched_run.induct)
  case (nxt s x s' x' r)
  then show ?case using Next_inv by blast
next
  case (item_done s item out x s' x' e)
  from item_done(2) have "sched_inv (\<lambda>_. True) S s \<Longrightarrow> sched_inv (\<lambda>_. True) S s'"
    by (cases rule: sched_Done_cases) (auto intro: sched_inv_put)
  then show ?case using item_done by blast
next
  case (drained s key x s' x' e)
  from drained(2) have "sched_inv (\<lambda>_. True) S s \<Longrightarrow> sched_inv (\<lambda>_. True) S s'"
    by (cases rule: sched_Drained_cases) (auto simp: sched_inv_busy intro: sched_inv_put sched_inv_shrinks [OF sched_inv_put shrinks_del])
  then show ?case using drained by blast
next
  case (closed s x s' x' e)
  have "shrinks s (s\<lparr>cs_held := []\<rparr>)" by (simp add: shrinks_def) (simp add: held_ok_def)
  then show ?case using sched_Close_cases [OF closed(2)] closed sched_inv_shrinks by metis
qed

lemma one_batch:
  assumes "held_ok s" "sched_Next S (s, x) = ((s', x'), Inr batches)" "cs_segmenter s \<noteq> None" "b \<in> set batches"
    and "worlds_ok P S" "P x"
  shows "batch_marked s' b \<and> (\<exists>h'. held s' (ba_Key b) = Some h' \<and> (granted_to P S s (hs_lease h')
      \<or> (\<exists>h. held s (ba_Key b) = Some h \<and> hs_lease h = hs_lease h' \<and> \<not> hs_busy h)))"
proof -
  obtain seg where "nextSegmented S seg (s, x) = ((s', x'), Inr batches)"
    using assms(2,3) by (auto simp: sched_Next_def)
  from nextSegmented_spec [OF this ranges assms(1,5,6)] assms(4) show ?thesis by blast
qed

end

section \<open>Traces\<close>

text \<open>
  The history of a scheduler: what its calls returned, in order, with whatever others do to the world in between. A batch is noted with the
  lease its segment is held under when \<open>Next\<close> returns it.
\<close>

datatype 't sched_event = SNext "(segment_lease \<times> 't batch) list" | SDone | SDrained string | SClosed

definition started_batches :: "claim_scheduler \<Rightarrow> go_error + 't batch list \<Rightarrow> (segment_lease \<times> 't batch) list" where
  "started_batches s r = (case r of Inl _ \<Rightarrow> [] | Inr batches \<Rightarrow> map (\<lambda>b. (hs_lease (the (held s (ba_Key b))), b)) batches)"

inductive sched_trace :: "('t, 'x) sched_ops \<Rightarrow> ('x \<Rightarrow> 'x \<Rightarrow> bool) \<Rightarrow> claim_scheduler \<times> 'x \<Rightarrow> 't sched_event list \<Rightarrow> claim_scheduler \<times> 'x \<Rightarrow> bool"
  for S others sx0 where
  start: "sched_trace S others sx0 [] sx0"
| other: "sched_trace S others sx0 es (s, x) \<Longrightarrow> others x x' \<Longrightarrow> sched_trace S others sx0 es (s, x')"
| nxt: "sched_trace S others sx0 es (s, x) \<Longrightarrow> sched_Next S (s, x) = ((s', x'), r) \<Longrightarrow> sched_trace S others sx0 (es @ [SNext (started_batches s' r)]) (s', x')"
| item_done: "sched_trace S others sx0 es (s, x) \<Longrightarrow> sched_Done S item out (s, x) = ((s', x'), e) \<Longrightarrow> sched_trace S others sx0 (es @ [SDone]) (s', x')"
| drained: "sched_trace S others sx0 es (s, x) \<Longrightarrow> sched_Drained S key (s, x) = ((s', x'), e) \<Longrightarrow> sched_trace S others sx0 (es @ [SDrained key]) (s', x')"
| closed: "sched_trace S others sx0 es (s, x) \<Longrightarrow> sched_Close S (s, x) = ((s', x'), e) \<Longrightarrow> sched_trace S others sx0 (es @ [SClosed]) (s', x')"

text \<open>Whether a batch was returned under a lease and its segment was not reported drained since.\<close>

fun undrained_after :: "segment_lease \<Rightarrow> bool \<Rightarrow> 't sched_event \<Rightarrow> bool" where
  "undrained_after l p (SNext bs) = (p \<or> l \<in> fst ` set bs)"
| "undrained_after l p (SDrained k) = (p \<and> k \<noteq> sl_Key l)"
| "undrained_after l p SDone = p"
| "undrained_after l p SClosed = p"

definition undrained :: "segment_lease \<Rightarrow> 't sched_event list \<Rightarrow> bool" where
  "undrained l es = foldl (undrained_after l) False es"

lemma undrained_simps [simp]: "\<not> undrained l []" "undrained l (es @ [e]) = undrained_after l (undrained l es) e"
  by (simp_all add: undrained_def)

lemma undrained_since:
  assumes "SDrained (sl_Key l) \<notin> set es2" "l \<in> fst ` set bs"
  shows "undrained l (es1 @ SNext bs # es2)"
proof -
  have "foldl (undrained_after l) True es2" using assms(1)
  proof (induction es2)
    case (Cons e es2)
    then show ?case by (cases e) auto
  qed simp
  then show ?thesis using assms(2) by (simp add: undrained_def)
qed

text \<open>
  What a store promises about its leases, with \<open>passed l x\<close> saying that \<open>x\<close> has granted \<open>l\<close> or a later lease of its segment: no call
  takes that back, a granted lease is passed, and a passed lease is not granted again.
\<close>

definition leases_pass :: "(segment_lease \<Rightarrow> 'x \<Rightarrow> bool) \<Rightarrow> ('t, 'x) sched_ops \<Rightarrow> bool" where
  "leases_pass passed S \<longleftrightarrow> (\<forall>l. worlds_ok (passed l) S)
     \<and> (\<forall>name owner cands n ttl x x' res l. so_Acquire S name owner cands n ttl x = (x', Inr res) \<and> l \<in> set (aq_Granted res)
          \<longrightarrow> passed l x' \<and> \<not> passed l x)"

lemma acquire_more_passed:
  assumes "acquire_more S now seg (s, x) = ((s', x'), e)" "leases_pass passed S" "\<And>k h. held s k = Some h \<Longrightarrow> passed (hs_lease h) x"
    and "held s' k = Some h"
  shows "passed (hs_lease h) x'"
proof -
  let ?room = "cs_maxSegments s - int (length (cs_held s))"
  let ?n = "if ?room < 0 then 0 else ?room"
  have w: "worlds_ok (passed l) S" for l using assms(2) by (simp add: leases_pass_def)
  obtain x1 r1 where g: "segmenter_segments S seg x = (x1, r1)" by (cases "segmenter_segments S seg x")
  have P1: "passed l x1" if "passed l x" for l using g that worlds_okD(2) [OF w that] by (auto simp: segmenter_segments_def split: segmenter.splits)
  show ?thesis
  proof (cases r1)
    case (Inl err)
    then have "s' = s" "x' = x1" using assms(1) by (simp_all add: acquire_more_def g)
    then show ?thesis using assms(3,4) P1 by blast
  next
    case (Inr cands)
    obtain x2 r2 where q: "so_Acquire S (cs_name s) (cs_owner s) cands ?n (cs_ttl s) x1 = (x2, r2)"
      by (cases "so_Acquire S (cs_name s) (cs_owner s) cands ?n (cs_ttl s) x1")
    have P2: "passed l x2" if "passed l x" for l by (rule worlds_okD(3) [OF w P1 [OF that] q])
    note eq = assms(1) [unfolded acquire_more_def prod.case g Inr sum.case Let_def q]
    show ?thesis
    proof (cases r2)
      case (Inl err)
      then have "s' = s" "x' = x2" using eq by simp_all
      then show ?thesis using assms(3,4) P2 by blast
    next
      case res: (Inr res)
      have s': "s' = foldl (\<lambda>s l. put_held (sl_Key l) (new_held now l) s) (s\<lparr>cs_lastEligible := aq_Eligible res\<rparr>) (aq_Granted res)" and x': "x' = x2"
        using eq res by simp_all
      have "held s k = Some h \<or> (\<exists>l \<in> set (aq_Granted res). h = new_held now l)"
        using foldl_put_held [OF s'] assms(4) by (auto simp only: held_other)
      moreover have "passed l x2" if "l \<in> set (aq_Granted res)" for l
        using assms(2) q that unfolding leases_pass_def res by blast
      ultimately show ?thesis using assms(3) P2 x' by (auto simp: new_held_def)
    qed
  qed
qed

lemma release_idle_world: "worlds_ok P S \<Longrightarrow> P x \<Longrightarrow> release_idle S hs (s, x) = ((s', x'), e) \<Longrightarrow> P x'"
proof (induction hs arbitrary: s x)
  case (Cons h hs)
  obtain s1 x1 e1 where r: "sched_release S h (cs_pollInterval s) (s, x) = ((s1, x1), e1)" by (metis prod.exhaust)
  have "P x1" by (rule release_world [OF Cons.prems(1,2) r])
  then show ?case using Cons.IH [of x1 s1] Cons.prems r by (cases e1) auto
qed simp

lemma claim_free_world:
  assumes "worlds_ok P S" "P x" "claim_free S free (s, x) = ((s', x'), r)"
  shows "P x'"
proof (cases "free = []")
  case True
  then show ?thesis using assms(2,3) by (simp add: claim_free_def)
next
  case False
  obtain x1 now where n: "so_now S x = (x1, now)" by (cases "so_now S x")
  let ?q = "\<lparr>cq_Segments = free, cq_MaxPerKey = cs_maxPerKey s, cq_Lease = cs_lease s\<rparr>"
  obtain x2 r2 where c: "so_ClaimSegments S ?q x1 = (x2, r2)" by (cases "so_ClaimSegments S ?q x1")
  have P2: "P x2" by (rule worlds_okD(7) [OF assms(1) worlds_okD(1) [OF assms(1,2) n] c])
  note eq = assms(3) [unfolded claim_free_def claimHeld_def prod.case n Let_def c]
  show ?thesis
  proof (cases r2)
    case (Inl err)
    then show ?thesis using eq False P2 by simp
  next
    case (Inr groups)
    then show ?thesis using eq False P2 by (auto split: prod.splits option.splits dest: release_idle_world [OF assms(1) P2])
  qed
qed

lemma acquire_world:
  assumes "worlds_ok P S" "P x" "acquire_more S now seg (s, x) = ((s', x'), e)"
  shows "P x' \<and> (e \<noteq> None \<longrightarrow> s' = s)"
proof -
  let ?room = "cs_maxSegments s - int (length (cs_held s))"
  let ?n = "if ?room < 0 then 0 else ?room"
  obtain x1 r1 where g: "segmenter_segments S seg x = (x1, r1)" by (cases "segmenter_segments S seg x")
  have P1: "P x1" using g assms(2) worlds_okD(2) [OF assms(1,2)] by (auto simp: segmenter_segments_def split: segmenter.splits)
  show ?thesis
  proof (cases r1)
    case (Inl err)
    then show ?thesis using assms(3) P1 by (simp add: acquire_more_def g)
  next
    case (Inr cands)
    obtain x2 r2 where q: "so_Acquire S (cs_name s) (cs_owner s) cands ?n (cs_ttl s) x1 = (x2, r2)"
      by (cases "so_Acquire S (cs_name s) (cs_owner s) cands ?n (cs_ttl s) x1")
    have "P x2" by (rule worlds_okD(3) [OF assms(1) P1 q])
    then show ?thesis using assms(3) [unfolded acquire_more_def prod.case g Inr sum.case Let_def q] by (cases r2) simp_all
  qed
qed

lemma nextSegmented_world:
  assumes "nextSegmented S seg (s, x) = ((s', x'), r)" "worlds_ok P S" "P x"
  shows "P x'"
proof -
  obtain x0 now where n: "so_now S x = (x0, now)" by (cases "so_now S x")
  obtain s1 x1 e1 where r1: "renew_held S now (s, x0) = ((s1, x1), e1)" by (metis prod.exhaust)
  obtain s2 x2 e2 where r2: "rotate S now (s1, x1) = ((s2, x2), e2)" by (metis prod.exhaust)
  obtain s3 x3 e3 where r3: "acquire_more S now seg (s2, x2) = ((s3, x3), e3)" by (metis prod.exhaust)
  have P1: "P x1" by (rule renew_world [OF assms(2) worlds_okD(1) [OF assms(2,3) n] r1])
  have P2: "P x2" by (rule rotate_world [OF assms(2) P1 r2])
  have P3: "P x3" using acquire_world [OF assms(2) P2 r3] by blast
  note eq = assms(1) [unfolded nextSegmented_def prod.case n r1]
  show ?thesis
  proof (cases e1)
    case None
    note eq2 = eq [unfolded None option.case prod.case r2]
    show ?thesis
    proof (cases e2)
      case None
      note eq3 = eq2 [unfolded None option.case prod.case r3]
      show ?thesis using eq3 P3 claim_free_world [OF assms(2) P3] by (cases e3) simp_all
    qed (use eq2 P2 in simp)
  qed (use eq P1 in simp)
qed

lemma Drained_world: "worlds_ok P S \<Longrightarrow> P x \<Longrightarrow> sched_Drained S key (s, x) = ((s', x'), e) \<Longrightarrow> P x'"
  by (auto simp: sched_Drained_def Let_def split: option.splits if_splits prod.splits dest: worlds_okD(1) release_world)

lemma defer_now_world: "worlds_ok P S \<Longrightarrow> P x \<Longrightarrow> defer_now S what key until (s, x) = ((s', x'), e) \<Longrightarrow> P x'"
  by (auto simp: defer_now_def split: prod.splits option.splits dest: worlds_okD(1,6))

lemma Done_world:
  assumes "worlds_ok P S" "P x" "sched_Done S item out (s, x) = ((s', x'), e)"
  shows "P x'"
proof (cases "oc_Kind out = DeferredOutcome")
  case True
  obtain x1 now where n: "so_now S x = (x1, now)" by (cases "so_now S x")
  obtain x2 until where u: "(if oc_Until out > now then (x1, oc_Until out)
      else case so_now S x1 of (x, now) \<Rightarrow> (x, now + cs_lease s)) = (x2, until)" by (metis prod.exhaust)
  have P1: "P x1" by (rule worlds_okD(1) [OF assms(1,2) n])
  have P2: "P x2" using u P1 worlds_okD(1) [OF assms(1) P1] by (auto split: if_splits prod.splits)
  note eq = assms(3) [unfolded sched_Done_def prod.case n u True]
  show ?thesis using eq P2 defer_now_world [OF assms(1) P2] by (auto split: option.splits if_splits)
qed (use assms in \<open>simp add: sched_Done_def\<close>)

lemma Close_world: "worlds_ok P S \<Longrightarrow> P x \<Longrightarrow> sched_Close S (s, x) = ((s', x'), e) \<Longrightarrow> P x'"
  by (auto simp: sched_Close_def Let_def split: if_splits prod.splits sum.splits dest: worlds_okD(1,5))

text \<open>A lease that is passed and, while it is held, busy.\<close>

definition taken :: "(segment_lease \<Rightarrow> 'x \<Rightarrow> bool) \<Rightarrow> segment_lease \<Rightarrow> claim_scheduler \<times> 'x \<Rightarrow> bool" where
  "taken passed l = (\<lambda>(s, x). passed l x \<and> (\<forall>h. held s (sl_Key l) = Some h \<and> hs_lease h = l \<longrightarrow> hs_busy h))"

definition sched_sound :: "(segment_lease \<Rightarrow> 'x \<Rightarrow> bool) \<Rightarrow> claim_scheduler \<times> 'x \<Rightarrow> bool" where
  "sched_sound passed = (\<lambda>(s, x). held_ok s \<and> cs_segmenter s \<noteq> None \<and> (\<forall>k h. held s k = Some h \<longrightarrow> passed (hs_lease h) x))"

lemma Next_traced:
  assumes "range_ok S" "leases_pass passed S" "sched_sound passed (s, x)" "sched_Next S (s, x) = ((s', x'), r)"
  shows "sched_sound passed (s', x')"
    and "taken passed l (s, x) \<Longrightarrow> taken passed l (s', x') \<and> l \<notin> fst ` set (started_batches s' r)"
    and "l \<in> fst ` set (started_batches s' r) \<Longrightarrow> taken passed l (s', x')"
proof -
  have ok: "held_ok s" "cs_segmenter s \<noteq> None" "\<And>k h. held s k = Some h \<Longrightarrow> passed (hs_lease h) x"
    using assms(3) by (auto simp: sched_sound_def)
  have w: "worlds_ok (passed l) S" for l using assms(2) by (simp add: leases_pass_def)
  have again: "\<not> granted_to (passed l) S s l" for l using assms(2) unfolding leases_pass_def granted_to_def by blast
  let ?P = "\<lambda>y. \<forall>l. passed l x \<longrightarrow> passed l y"
  have wP: "worlds_ok ?P S" using w unfolding worlds_ok_def by blast
  obtain seg where n: "nextSegmented S seg (s, x) = ((s', x'), r)" using assms(4) ok(2) by (auto simp: sched_Next_def)
  have keep: "passed l x'" if "passed l x" for l using nextSegmented_world [OF n wP] that by blast
  have sp: "same_conf s s'" "held_ok s'" using nextSegmented_spec [OF n assms(1) ok(1) wP] by blast+
  have now: "passed (hs_lease h) x'" if "held s' k = Some h" for k h
    using n
  proof (cases rule: nextSegmented_phases [where P = ?P])
    case (failed s1 err)
    then have "s' = s1" using acquire_world [of "\<lambda>_. True" S] by (auto simp: worlds_ok_def)
    then show ?thesis using failed(1) that ok(3) keep unfolding shrinks_def by blast
  next
    case (claimed now s1 x1 s2 x2)
    have h1: "passed (hs_lease h) x1" if "held s1 k = Some h" for k h
      using claimed(1,2) that ok(3) wP unfolding shrinks_def by blast
    have ok2: "held_ok s2"
      using acquire_after [OF claimed(1,3) ok(1) wP] claimed(2) wP by blast
    note F = free_keys_spec [OF assms(1) ok2, of x2]
    have "\<forall>k \<in> set (free_keys S (s2, x2)). held s2 k \<noteq> None" unfolding F(2) by auto
    from claim_free_spec [OF claimed(4) F(1) this ok2] that obtain h2 where h2: "held s2 k = Some h2" "hs_lease h = hs_lease h2" by metis
    have "passed (hs_lease h2) x2" by (rule acquire_more_passed [OF claimed(3) assms(2) h1 h2(1)])
    then show ?thesis using claim_free_world [OF w _ claimed(4)] h2(2) by metis
  qed
  show "sched_sound passed (s', x')" using sp now ok(2) by (auto simp: sched_sound_def same_conf_def)
  have batch: "batch_marked s' b \<and> (\<exists>h'. held s' (ba_Key b) = Some h' \<and> (granted_to (passed l) S s (hs_lease h')
      \<or> (\<exists>h. held s (ba_Key b) = Some h \<and> hs_lease h = hs_lease h' \<and> \<not> hs_busy h)))"
    if "passed l x" "r = Inr batches" "b \<in> set batches" for l b batches
    using nextSegmented_spec [OF n assms(1) ok(1) w that(1)] that(2,3) by blast
  have marked: "batch_marked s' b" if "r = Inr batches" "b \<in> set batches" for b batches
    using nextSegmented_spec [OF n assms(1) ok(1) wP] that by blast
  have lease: "\<exists>batches b h. r = Inr batches \<and> b \<in> set batches \<and> held s' (ba_Key b) = Some h \<and> hs_lease h = l \<and> hs_busy h \<and> sl_Key l = ba_Key b"
    if "l \<in> fst ` set (started_batches s' r)" for l
    using that marked sp(2) by (cases r) (fastforce simp: started_batches_def batch_marked_def held_ok_def split: option.splits)+
  show "taken passed l (s', x')" if "l \<in> fst ` set (started_batches s' r)"
    using lease [OF that] now by (auto simp: taken_def)
  show "taken passed l (s', x') \<and> l \<notin> fst ` set (started_batches s' r)" if t: "taken passed l (s, x)"
  proof
    have p: "passed l x" and b: "\<And>h. held s (sl_Key l) = Some h \<Longrightarrow> hs_lease h = l \<Longrightarrow> hs_busy h" using t by (auto simp: taken_def)
    have kg: "keeps_or_gets (passed l) S s s'" using nextSegmented_spec [OF n assms(1) ok(1) w p] by blast
    have "hs_busy h" if "held s' (sl_Key l) = Some h" "hs_lease h = l" for h
      using kg that b again [of l] unfolding keeps_or_gets_def by metis
    then show "taken passed l (s', x')" using keep [OF p] by (auto simp: taken_def)
    show "l \<notin> fst ` set (started_batches s' r)"
    proof
      assume "l \<in> fst ` set (started_batches s' r)"
      then obtain batches bt h where bt: "r = Inr batches" "bt \<in> set batches" "held s' (ba_Key bt) = Some h" "hs_lease h = l" "sl_Key l = ba_Key bt"
        using lease by blast
      with batch [OF p bt(1,2)] again [of l] b show False by auto
    qed
  qed
qed

definition batches_apart :: "'t sched_event list \<Rightarrow> bool" where
  "batches_apart es \<longleftrightarrow> (\<forall>es1 bs es2 l. es = es1 @ SNext bs # es2 \<and> l \<in> fst ` set bs \<longrightarrow> \<not> undrained l es1)"

lemma batches_apart_Nil [simp]: "batches_apart []"
  by (simp add: batches_apart_def)

lemma batches_apart_snoc:
  assumes "batches_apart es" "\<And>bs l. e = SNext bs \<Longrightarrow> l \<in> fst ` set bs \<Longrightarrow> \<not> undrained l es"
  shows "batches_apart (es @ [e])"
  unfolding batches_apart_def
proof (intro allI impI)
  fix es1 bs es2 l
  assume a: "es @ [e] = es1 @ SNext bs # es2 \<and> l \<in> fst ` set bs"
  show "\<not> undrained l es1"
  proof (cases es2 rule: rev_cases)
    case Nil
    then have "es1 = es" "e = SNext bs" using a by auto
    then show ?thesis using assms(2) a by blast
  next
    case (snoc es3 e')
    then have "es = es1 @ SNext bs # es3" using a by simp
    then show ?thesis using assms(1) a unfolding batches_apart_def by blast
  qed
qed

text \<open>What \<open>Done\<close>, \<open>Drained\<close> and \<open>Close\<close> keep.\<close>

lemma sched_sound_keeps:
  assumes "sched_sound passed (s, x)" "held_ok s'" "cs_segmenter s' = cs_segmenter s" "\<And>l. passed l x \<Longrightarrow> passed l x'"
    and "\<And>k h'. held s' k = Some h' \<Longrightarrow> \<exists>h. held s k = Some h \<and> hs_lease h = hs_lease h'"
  shows "sched_sound passed (s', x')"
proof -
  have "passed (hs_lease h') x'" if h: "held s' k = Some h'" for k h'
  proof -
    obtain h where h2: "held s k = Some h" "hs_lease h = hs_lease h'" using assms(5) [OF h] by blast
    have "passed (hs_lease h) x" using assms(1) h2(1) by (simp add: sched_sound_def)
    from assms(4) [OF this] show ?thesis by (simp only: h2(2))
  qed
  then show ?thesis using assms(1,2,3) by (simp add: sched_sound_def)
qed

lemma taken_keeps:
  assumes "taken passed l (s, x)" "passed l x \<Longrightarrow> passed l x'"
    and "\<And>h'. held s' (sl_Key l) = Some h' \<Longrightarrow> \<exists>h. held s (sl_Key l) = Some h \<and> hs_lease h = hs_lease h' \<and> hs_busy h = hs_busy h'"
  shows "taken passed l (s', x')"
proof -
  have p: "passed l x" and busy: "\<And>h. held s (sl_Key l) = Some h \<Longrightarrow> hs_lease h = l \<Longrightarrow> hs_busy h" using assms(1) by (simp_all add: taken_def)
  have "hs_busy h'" if h: "held s' (sl_Key l) = Some h'" "hs_lease h' = l" for h'
    using assms(3) [OF h(1)] busy h(2) by auto
  then show ?thesis using assms(2) [OF p] by (simp add: taken_def)
qed

lemma Done_held:
  assumes "sched_Done S item out (s, x) = ((s', x'), e)" "held_ok s"
  shows "held_ok s'" "cs_segmenter s' = cs_segmenter s"
    and "held s' k = Some h' \<Longrightarrow> \<exists>h. held s k = Some h \<and> hs_lease h = hs_lease h' \<and> hs_busy h = hs_busy h'"
proof -
  have "held_ok s' \<and> same_conf s s' \<and> (\<forall>k h'. held s' k = Some h' \<longrightarrow> (\<exists>h. held s k = Some h \<and> hs_lease h = hs_lease h' \<and> hs_busy h = hs_busy h'))"
    using assms(1)
  proof (cases rule: sched_Done_cases)
    case 1
    then show ?thesis using assms(2) by auto
  next
    case (2 h until)
    have "held_ok s'" unfolding 2(2) by (rule held_ok_put [OF assms(2)]) (use assms(2) 2(1) in \<open>auto simp: held_ok_def\<close>)
    moreover have "held s' j = Some g \<Longrightarrow> \<exists>h. held s j = Some h \<and> hs_lease h = hs_lease g \<and> hs_busy h = hs_busy g" for j g
      using 2 by (cases "j = it_Key item") auto
    moreover have "same_conf s s'" using 2(2) by simp
    ultimately show ?thesis by blast
  qed
  then show "held_ok s'" "cs_segmenter s' = cs_segmenter s"
    and "held s' k = Some h' \<Longrightarrow> \<exists>h. held s k = Some h \<and> hs_lease h = hs_lease h' \<and> hs_busy h = hs_busy h'"
    by (simp_all add: same_conf_def)
qed

lemma Done_traced:
  assumes "leases_pass passed S" "sched_sound passed (s, x)" "sched_Done S item out (s, x) = ((s', x'), e)"
  shows "sched_sound passed (s', x')" "taken passed l (s, x) \<Longrightarrow> taken passed l (s', x')"
proof -
  have w: "passed l x'" if "passed l x" for l
    by (rule Done_world [where P = "passed l", OF _ that assms(3)]) (use assms(1) in \<open>simp add: leases_pass_def\<close>)
  have ok: "held_ok s" using assms(2) by (simp add: sched_sound_def)
  note D = Done_held [OF assms(3) ok]
  show "sched_sound passed (s', x')" by (rule sched_sound_keeps [OF assms(2) D(1,2) w]) (use D(3) in blast)+
  show "taken passed l (s, x) \<Longrightarrow> taken passed l (s', x')" by (erule taken_keeps) (rule w D(3), assumption)+
qed

lemma Drained_held:
  assumes "sched_Drained S key (s, x) = ((s', x'), e)" "held_ok s"
  shows "held_ok s'" "cs_segmenter s' = cs_segmenter s"
    and "held s' k = Some h' \<Longrightarrow> \<exists>h. held s k = Some h \<and> hs_lease h = hs_lease h' \<and> (k \<noteq> key \<longrightarrow> h = h')"
proof -
  have "held_ok s' \<and> same_conf s s' \<and> (\<forall>k h'. held s' k = Some h' \<longrightarrow> (\<exists>h. held s k = Some h \<and> hs_lease h = hs_lease h' \<and> (k \<noteq> key \<longrightarrow> h = h')))"
    using assms(1)
  proof (cases rule: sched_Drained_cases)
    case 1
    then show ?thesis using assms(2) by (auto simp: held_ok_def)
  next
    case 2
    then show ?thesis using assms(2) by auto
  next
    case (3 h)
    let ?s = "put_held key (h\<lparr>hs_busy := False\<rparr>) s"
    have k: "sl_Key (hs_lease h) = key" using assms(2) 3(1) by (auto simp: held_ok_def)
    have ok: "held_ok ?s" by (rule held_ok_put) (use assms(2) k in auto)
    have "held ?s j = Some g \<Longrightarrow> \<exists>h. held s j = Some h \<and> hs_lease h = hs_lease g \<and> (j \<noteq> key \<longrightarrow> h = g)" for j g
      using 3(1) by (cases "j = key") auto
    moreover have "held s' j = Some g \<Longrightarrow> held ?s j = Some g" for j g using 3(2) by (cases "j = key") (auto simp: k)
    moreover have "held_ok s'" using 3(2) ok held_ok_del by blast
    moreover have "same_conf s s'" using 3(2) by auto
    ultimately show ?thesis by blast
  qed
  then show "held_ok s'" "cs_segmenter s' = cs_segmenter s"
    and "held s' k = Some h' \<Longrightarrow> \<exists>h. held s k = Some h \<and> hs_lease h = hs_lease h' \<and> (k \<noteq> key \<longrightarrow> h = h')"
    by (simp_all add: same_conf_def)
qed

lemma Drained_traced:
  assumes "leases_pass passed S" "sched_sound passed (s, x)" "sched_Drained S key (s, x) = ((s', x'), e)"
  shows "sched_sound passed (s', x')" "taken passed l (s, x) \<Longrightarrow> sl_Key l \<noteq> key \<Longrightarrow> taken passed l (s', x')"
proof -
  have w: "passed l x'" if "passed l x" for l
    by (rule Drained_world [where P = "passed l", OF _ that assms(3)]) (use assms(1) in \<open>simp add: leases_pass_def\<close>)
  have ok: "held_ok s" using assms(2) by (simp add: sched_sound_def)
  note D = Drained_held [OF assms(3) ok]
  show "sched_sound passed (s', x')" by (rule sched_sound_keeps [OF assms(2) D(1,2) w]) (use D(3) in blast)+
  show "taken passed l (s', x')" if t: "taken passed l (s, x)" "sl_Key l \<noteq> key"
    by (rule taken_keeps [OF t(1) w]) (use D(3) t(2) in blast)+
qed

lemma Close_traced:
  assumes "leases_pass passed S" "sched_sound passed (s, x)" "sched_Close S (s, x) = ((s', x'), e)"
  shows "sched_sound passed (s', x')" "taken passed l (s, x) \<Longrightarrow> taken passed l (s', x')"
proof -
  have w: "passed l x'" if "passed l x" for l
    by (rule Close_world [where P = "passed l", OF _ that assms(3)]) (use assms(1) in \<open>simp add: leases_pass_def\<close>)
  then show "sched_sound passed (s', x')" "taken passed l (s, x) \<Longrightarrow> taken passed l (s', x')"
    using assms(2) sched_Close_cases [OF assms(3)] by (auto simp: sched_sound_def taken_def held_ok_def)
qed

lemma trace_sound:
  assumes "sched_trace S others sx0 es sx" "range_ok S" "leases_pass passed S" "\<And>l x x'. others x x' \<Longrightarrow> passed l x \<Longrightarrow> passed l x'"
    and "sched_sound passed sx0"
  shows "sched_sound passed sx \<and> (\<forall>l. undrained l es \<longrightarrow> taken passed l sx) \<and> batches_apart es"
  using assms(1)
proof (induction rule: sched_trace.induct)
  case start
  then show ?case using assms(5) by simp
next
  case (other es s x x')
  then show ?case using assms(4) by (fastforce simp: sched_sound_def taken_def)
next
  case (nxt es s x s' x' r)
  then show ?case using Next_traced [OF assms(2,3) _ nxt(2)] by (auto intro: batches_apart_snoc)
next
  case (item_done es s x item out s' x' e)
  then show ?case using Done_traced [OF assms(3) _ item_done(2)] by (auto intro: batches_apart_snoc)
next
  case (drained es s x key s' x' e)
  then show ?case using Drained_traced [OF assms(3) _ drained(2)] by (auto intro: batches_apart_snoc)
next
  case (closed es s x s' x' e)
  then show ?case using Close_traced [OF assms(3) _ closed(2)] by (auto intro: batches_apart_snoc)
qed

end
