(* ===== verification/Auto_Memory_Sched.thy ===== *)
theory Auto_Memory_Sched
  imports Auto_Sched_Props Auto_Fairness
begin

text \<open>
  The default scheduler on the in-memory automation store, beside other instances: before every call the
  scheduler makes, the others take any number of steps of the store. The clock, those steps and the order
  in which Go ranges over a map are arbitrary functions of the number of calls made so far.
\<close>

record 'w auto_world =
  aw_store :: automation_store
  aw_tick :: nat
  aw_list :: 'w

definition mem_call :: "(nat \<Rightarrow> gotime) \<Rightarrow> (nat \<Rightarrow> automation_store \<Rightarrow> automation_store)
    \<Rightarrow> (gotime \<Rightarrow> automation_store \<Rightarrow> automation_store \<times> 'r) \<Rightarrow> 'w auto_world \<Rightarrow> 'w auto_world \<times> 'r" where
  "mem_call time env f x =
     (let t = aw_tick x in
      case f (time t) (env t (aw_store x)) of (s, r) \<Rightarrow> (x\<lparr>aw_store := s, aw_tick := Suc t\<rparr>, r))"

definition list_call :: "('w \<Rightarrow> 'w \<times> 'r) \<Rightarrow> 'w auto_world \<Rightarrow> 'w auto_world \<times> 'r" where
  "list_call f x = (case f (aw_list x) of (w, r) \<Rightarrow> (x\<lparr>aw_list := w, aw_tick := Suc (aw_tick x)\<rparr>, r))"

definition mem_sched_ops :: "(nat \<Rightarrow> gotime) \<Rightarrow> (nat \<Rightarrow> automation_store \<Rightarrow> automation_store) \<Rightarrow> (nat \<Rightarrow> string \<Rightarrow> nat)
    \<Rightarrow> ('w \<Rightarrow> 'w \<times> (go_error + segment_info list)) \<Rightarrow> (claim_request \<Rightarrow> 'w \<Rightarrow> 'w \<times> (go_error + 't list))
    \<Rightarrow> (claim_request \<Rightarrow> 'w \<Rightarrow> 'w \<times> (go_error + 't claimed list)) \<Rightarrow> ('t, 'w auto_world) sched_ops" where
  "mem_sched_ops time env order query claim claimSegments =
     \<lparr>so_now = (\<lambda>x. (x\<lparr>aw_tick := Suc (aw_tick x)\<rparr>, time (aw_tick x))),
      so_range = (\<lambda>x ks. sort_key (order (aw_tick x)) ks),
      so_Acquire = (\<lambda>name owner cands n ttl. mem_call time env (\<lambda>now s. apsnd Inr (Acquire now s name owner cands n ttl))),
      so_Renew = (\<lambda>ls ttl. mem_call time env (\<lambda>now s. apsnd Inr (Renew now s ls ttl))),
      so_Release = (\<lambda>rel. mem_call time env (\<lambda>now s. apsnd Inr (auto_Release now s rel))),
      so_Defer = (\<lambda>name key d. mem_call time env (\<lambda>now s. (Defer now s name key d, None))),
      so_DeferredFor = (\<lambda>name key. mem_call time env (\<lambda>now s. (s, Inr (DeferredFor now s name key)))),
      so_query = list_call query,
      so_Claim = (\<lambda>q. list_call (claim q)),
      so_ClaimSegments = (\<lambda>q. list_call (claimSegments q))\<rparr>"


lemma mem_grant:
  assumes "so_Acquire (mem_sched_ops time env order query claim claimSegments) name owner cands n ttl x = (x', Inr res)"
  shows "Acquire (time (aw_tick x)) (env (aw_tick x) (aw_store x)) name owner cands n ttl = (aw_store x', res)"
  using assms
  by (cases "Acquire (time (aw_tick x)) (env (aw_tick x) (aw_store x)) name owner cands n ttl")
    (auto simp: mem_sched_ops_def mem_call_def Let_def)

interpretation msched: segment_leases "mem_sched_ops time env order query claim claimSegments"
  for time env order query claim claimSegments
proof unfold_locales
  show "range_ok (mem_sched_ops time env order query claim claimSegments)"
    by (simp add: range_ok_def mem_sched_ops_def)
  show "grants_ok (mem_sched_ops time env order query claim claimSegments)"
    unfolding grants_ok_def
  proof (intro allI impI)
    fix name owner cands n ttl x x' res
    assume "so_Acquire (mem_sched_ops time env order query claim claimSegments) name owner cands n ttl x = (x', Inr res)"
    from acquire_facts(4) [OF mem_grant [OF this]] have "length (aq_Granted res) \<le> nat n" by simp
    then show "int (length (aq_Granted res)) \<le> max 0 n" by linarith
  qed
qed


section \<open>What a run keeps\<close>









section \<open>Giving segments back\<close>

definition released_row :: "gotime \<Rightarrow> release_request \<Rightarrow> local_row option \<Rightarrow> local_row option" where
  "released_row now q r = (case r of None \<Rightarrow> None
     | Some r \<Rightarrow> Some (if lr_owner r = sl_Owner (rr_Lease q) \<and> lr_epoch r = sl_Epoch (rr_Lease q) then release_row now q r else r))"

lemma auto_Release_other:
  "(n, k) \<notin> (\<lambda>q. (sl_Name (rr_Lease q), sl_Key (rr_Lease q))) ` set qs \<Longrightarrow> arow (fst (auto_Release now s qs)) n k = arow s n k"
proof (induction qs arbitrary: s)
  case (Cons q qs)
  then show ?case by (auto simp: Let_def split: option.split prod.split) (metis fst_conv)+
qed simp

lemma auto_Release_row:
  assumes "distinct (map (\<lambda>q. (sl_Name (rr_Lease q), sl_Key (rr_Lease q))) qs)" "q \<in> set qs"
    and "n = sl_Name (rr_Lease q)" "k = sl_Key (rr_Lease q)"
  shows "arow (fst (auto_Release now s qs)) n k = released_row now q (arow s n k)"
  using assms(1,2)
proof (induction qs arbitrary: s)
  case (Cons p qs)
  let ?n = "sl_Name (rr_Lease p)" and ?k = "sl_Key (rr_Lease p)"
  obtain s1 where s1: "fst (auto_Release now s (p # qs)) = fst (auto_Release now s1 qs)"
    and r1: "\<And>n k. arow s1 n k = (if n = ?n \<and> k = ?k then released_row now p (arow s n k) else arow s n k)"
  proof (cases "\<exists>r. arow s ?n ?k = Some r \<and> lr_owner r = sl_Owner (rr_Lease p) \<and> lr_epoch r = sl_Epoch (rr_Lease p)")
    case True
    then obtain r where r: "arow s ?n ?k = Some r" "lr_owner r = sl_Owner (rr_Lease p)" "lr_epoch r = sl_Epoch (rr_Lease p)" by blast
    show thesis by (rule that [of "put_arow s ?n ?k (release_row now p r)"]) (simp_all add: Let_def r released_row_def)
  next
    case False
    show thesis
      by (rule that [of s]) (use False in \<open>auto simp: Let_def released_row_def split: option.split prod.split\<close>)
  qed
  show ?case
  proof (cases "q = p")
    case True
    then have "(n, k) \<notin> (\<lambda>q. (sl_Name (rr_Lease q), sl_Key (rr_Lease q))) ` set qs" using Cons.prems(1) assms(3,4) by auto
    from auto_Release_other [OF this] show ?thesis unfolding s1 using r1 True assms(3,4) by simp
  next
    case False
    then have q: "q \<in> set qs" using Cons.prems(2) by simp
    then have "\<not> (n = ?n \<and> k = ?k)" using Cons.prems(1) assms(3,4) by (auto simp: image_iff)
    then show ?thesis unfolding s1 using Cons.IH [of s1] Cons.prems(1) q r1 [of n k] by auto
  qed
qed simp

lemma released_not_current:
  assumes "arow s' (sl_Name l) (sl_Key l) = released_row now q (arow s (sl_Name l) (sl_Key l))" "l = rr_Lease q"
  shows "\<not> current_segment s' l"
  using assms by (auto simp: current_claim_def aholder_def aepoch_def released_row_def split: option.splits if_splits)

lemma released_pause:
  assumes "arow s' (sl_Name l) (sl_Key l) = released_row now q (arow s (sl_Name l) (sl_Key l))" "l = rr_Lease q"
    and "current_segment s l" "0 < rr_DeferFor q"
  shows "now + rr_DeferFor q \<le> apause s' (sl_Name l, sl_Key l) \<and> aholder s' (sl_Name l, sl_Key l) = []"
  using assms by (auto simp: current_claim_def aholder_def aepoch_def apause_def released_row_def split: option.splits if_splits)

lemma mem_release:
  assumes "so_Release (mem_sched_ops time env order query claim claimSegments) rel x = (x', r)"
  shows "aw_store x' = fst (auto_Release (time (aw_tick x)) (env (aw_tick x) (aw_store x)) rel) \<and> (\<exists>lost. r = Inr lost)"
  using assms by (cases "auto_Release (time (aw_tick x)) (env (aw_tick x) (aw_store x)) rel")
    (auto simp: mem_sched_ops_def mem_call_def Let_def)

text \<open>
  A deferral takes effect. When the batch of a segment drains and one of its items asked for a pause, the
  segment is given back and no instance is granted it before the later of that pause and the end of the
  batch's item leases, provided that the lease was still the instance's when the store was told.
\<close>

theorem drained_pauses_segment:
  assumes "S = mem_sched_ops time env order query claim claimSegments" "held_ok s" "cs_segmenter s \<noteq> None"
    and "held s key = Some h" "hs_deferUntil h \<noteq> 0" "until = max (hs_deferUntil h) (hs_leaseEnd h)"
    and "l = hs_lease h" "current_segment (env (Suc (aw_tick x)) (aw_store x)) l"
    and "time (aw_tick x) \<le> time (Suc (aw_tick x))" "time (aw_tick x) < until" "until - time (aw_tick x) \<le> max_int64"
    and "sched_Drained S key (s, x) = ((s', x'), e)"
  shows "e = None \<and> held s' key = None \<and> aholder (aw_store x') (sl_Name l, key) = [] \<and> until \<le> apause (aw_store x') (sl_Name l, key)"
proof -
  let ?t = "aw_tick x" and ?h = "h\<lparr>hs_busy := False\<rparr>"
  let ?q = "\<lparr>rr_Lease = l, rr_DeferFor = time_Sub until (time ?t), rr_Served = hs_served h\<rparr>"
  have k: "sl_Key l = key" using assms(2,4,7) by (simp add: held_ok_def)
  have sub: "time_Sub until (time ?t) = until - time ?t" using assms(10,11) by (intro time_Sub_exact) simp
  have until: "(if hs_leaseEnd h > hs_deferUntil h then hs_leaseEnd h else hs_deferUntil h) = until" using assms(6) by (simp add: max_def)
  have now: "so_now S x = (x\<lparr>aw_tick := Suc ?t\<rparr>, time ?t)" by (simp add: assms(1) mem_sched_ops_def)
  obtain x1 r where rel: "so_Release S [?q] (x\<lparr>aw_tick := Suc ?t\<rparr>) = (x1, r)" by (metis prod.exhaust)
  have R: "aw_store x1 = fst (auto_Release (time (Suc ?t)) (env (Suc ?t) (aw_store x)) [?q])" "\<exists>lost. r = Inr lost"
    using mem_release [OF rel [unfolded assms(1)]] by simp_all
  have "sched_Drained S key (s, x) = sched_release S ?h (time_Sub until (time ?t)) (put_held key ?h s, x\<lparr>aw_tick := Suc ?t\<rparr>)"
    using assms(3-5) until now by (auto simp: sched_Drained_def Let_def cong: if_cong)
  also have "\<dots> = ((del_held key (put_held key ?h s), x1), None)"
    using rel R(2) by (auto simp: sched_release_def Let_def k assms(7) [symmetric])
  finally have res: "s' = del_held key (put_held key ?h s)" "x' = x1" "e = None" using assms(12) by simp_all
  have row: "arow (aw_store x1) (sl_Name l) (sl_Key l) = released_row (time (Suc ?t)) ?q (arow (env (Suc ?t) (aw_store x)) (sl_Name l) (sl_Key l))"
    unfolding R(1) by (rule auto_Release_row) simp_all
  have "time (Suc ?t) + (until - time ?t) \<le> apause (aw_store x1) (sl_Name l, sl_Key l) \<and> aholder (aw_store x1) (sl_Name l, sl_Key l) = []"
    using released_pause [OF row _ assms(8)] assms(10) by (simp add: sub)
  with assms(9) res k show ?thesis by auto
qed

text \<open>
  Closing gives everything back: afterwards the scheduler holds nothing, no lease it held is current in the
  store, so other instances can take the segments at once, and a pause that a batch had asked for is in the
  store.
\<close>

theorem close_gives_back:
  assumes "S = mem_sched_ops time env order query claim claimSegments" "held_ok s"
    and "sched_Close S (s, x) = ((s', x'), e)"
  shows "e = None \<and> cs_held s' = [] \<and> (\<forall>k h. held s k = Some h \<longrightarrow> \<not> current_segment (aw_store x') (hs_lease h)
    \<and> (current_segment (env (Suc (aw_tick x)) (aw_store x)) (hs_lease h) \<and> time (aw_tick x) < hs_deferUntil h
       \<and> hs_deferUntil h - time (aw_tick x) \<le> max_int64 \<and> time (aw_tick x) \<le> time (Suc (aw_tick x))
       \<longrightarrow> hs_deferUntil h \<le> apause (aw_store x') (sl_Name (hs_lease h), k)))"
proof (cases "cs_held s = []")
  case True
  then show ?thesis using assms(3) by (auto simp: sched_Close_def held_def)
next
  case False
  let ?t = "aw_tick x" and ?x = "x\<lparr>aw_tick := Suc (aw_tick x)\<rparr>"
  let ?ks = "so_range S ?x (map fst (cs_held s))"
  let ?q = "\<lambda>k. close_request (time ?t) (the (held s k))"
  have now: "so_now S x = (?x, time ?t)" by (simp add: assms(1) mem_sched_ops_def)
  obtain x1 r where rel: "so_Release S (map ?q ?ks) ?x = (x1, r)" by (metis prod.exhaust)
  have R: "aw_store x1 = fst (auto_Release (time (Suc ?t)) (env (Suc ?t) (aw_store x)) (map ?q ?ks))" "\<exists>lost. r = Inr lost"
    using mem_release [OF rel [unfolded assms(1)]] by (simp_all add: assms(1))
  have res: "s' = s\<lparr>cs_held := []\<rparr>" "x' = x1" "e = None"
    using assms(3) False now rel R(2) by (auto simp: sched_Close_def Let_def)
  have ks: "set ?ks = {k. held s k \<noteq> None}" "distinct ?ks"
    using assms(2) range_okD [OF msched.ranges, of time env order query claim claimSegments] held_dom [of _ s]
    unfolding held_ok_def assms(1) by blast+
  have key: "sl_Key (rr_Lease (?q k)) = k" if "k \<in> set ?ks" for k
    using that assms(2) unfolding ks(1) held_ok_def by (auto simp: close_request_def)
  have inj: "inj_on (\<lambda>k. (sl_Name (rr_Lease (?q k)), sl_Key (rr_Lease (?q k)))) (set ?ks)"
    by (rule inj_onI) (metis key prod.inject)
  then have dist: "distinct (map (\<lambda>q. (sl_Name (rr_Lease q), sl_Key (rr_Lease q))) (map ?q ?ks))"
    using ks(2) by (simp add: distinct_map comp_def)
  have row: "arow (aw_store x1) (sl_Name l) (sl_Key l) = released_row (time (Suc ?t)) (?q k) (arow (env (Suc ?t) (aw_store x)) (sl_Name l) (sl_Key l))"
    and lease: "rr_Lease (?q k) = l" and lk: "sl_Key l = k" if "held s k = Some h" "l = hs_lease h" for k h l
  proof -
    show l: "rr_Lease (?q k) = l" using that by (simp add: close_request_def)
    have k: "k \<in> set ?ks" using that(1) ks(1) by simp
    show "sl_Key l = k" using key [OF k] l by simp
    show "arow (aw_store x1) (sl_Name l) (sl_Key l) = released_row (time (Suc ?t)) (?q k) (arow (env (Suc ?t) (aw_store x)) (sl_Name l) (sl_Key l))"
      unfolding R(1) by (rule auto_Release_row [OF dist]) (use k l in auto)
  qed
  have "hs_deferUntil h \<le> apause (aw_store x1) (sl_Name (hs_lease h), k)"
    if h: "held s k = Some h" and c: "current_segment (env (Suc ?t) (aw_store x)) (hs_lease h)"
      and d: "time ?t < hs_deferUntil h" "hs_deferUntil h - time ?t \<le> max_int64" "time ?t \<le> time (Suc ?t)" for k h
  proof -
    have sub: "rr_DeferFor (?q k) = hs_deferUntil h - time ?t"
      using h d time_Sub_exact [of "hs_deferUntil h" "time ?t"] by (simp add: close_request_def)
    have "time (Suc ?t) + (hs_deferUntil h - time ?t) \<le> apause (aw_store x1) (sl_Name (hs_lease h), sl_Key (hs_lease h))"
      using released_pause [OF row [OF h refl] lease [OF h refl, symmetric] c] d(1) unfolding sub by simp
    then show ?thesis using d(3) lk [OF h refl] by simp
  qed
  moreover have "\<not> current_segment (aw_store x1) (hs_lease h)" if "held s k = Some h" for k h
    by (rule released_not_current [OF row [OF that refl] lease [OF that refl, symmetric]])
  ultimately show ?thesis using res by simp
qed

section \<open>A concrete scheduler\<close>

text \<open>Two shards; only shard \<open>0\<close> has work, and the list has an item for it at every claim.\<close>

definition demo_claim :: "claim_request \<Rightarrow> unit \<Rightarrow> unit \<times> (go_error + string claimed list)" where
  "demo_claim q w = (w, Inr (map (\<lambda>k. \<lparr>cl_Segment = k, cl_Items = [''item'']\<rparr>) (filter (\<lambda>k. k = ''0'') (cq_Segments q))))"

definition demo_sops :: "(nat \<Rightarrow> gotime) \<Rightarrow> (nat \<Rightarrow> automation_store \<Rightarrow> automation_store) \<Rightarrow> (string, unit auto_world) sched_ops" where
  "demo_sops time env = mem_sched_ops time env (\<lambda>_ _. 0) (\<lambda>w. (w, Inr [])) (\<lambda>q w. (w, Inr [])) demo_claim"

definition demo_time :: "nat \<Rightarrow> gotime" where "demo_time t = 10 + int t"

definition demo_sched :: claim_scheduler where
  "demo_sched = newClaimScheduler ''n'' (Some (Shards_of 2)) 60 5 10 4 ''i''"

definition demo_x0 :: "unit auto_world" where
  "demo_x0 = \<lparr>aw_store = NewAutomationStore, aw_tick = 0, aw_list = ()\<rparr>"

definition demo_next :: "(claim_scheduler \<times> unit auto_world) \<times> (go_error + string batch list)" where
  "demo_next = sched_Next (demo_sops demo_time (\<lambda>_ s. s)) (demo_sched, demo_x0)"

definition demo_batch :: "string batch" where
  "demo_batch = \<lparr>ba_Key = ''0'', ba_Items = [\<lparr>it_Key = ''0'', it_Value = ''item'', it_Deadline = 72\<rparr>]\<rparr>"

lemma demo_next_batches: "snd demo_next = Inr [demo_batch]"
  by code_simp

lemma demo_next_eq:
  "sched_Next (demo_sops demo_time (\<lambda>_ s. s)) (demo_sched, demo_x0) = ((fst (fst demo_next), snd (fst demo_next)), Inr [demo_batch])"
  unfolding demo_next_batches [symmetric] by (simp add: demo_next_def)

lemma demo_sched_empty: "cs_held demo_sched = []" "held demo_sched k = None"
  by (simp_all add: demo_sched_def newClaimScheduler_def held_def)


text \<open>The item of the batch is deferred until 500, and then the batch drains.\<close>

definition demo_done :: "(claim_scheduler \<times> unit auto_world) \<times> go_error option" where
  "demo_done = sched_Done (demo_sops demo_time (\<lambda>_ s. s)) \<lparr>it_Key = ''0'', it_Value = ''item'', it_Deadline = 72\<rparr>
     \<lparr>oc_Kind = DeferredOutcome, oc_Until = 500, oc_Err = None\<rparr> (fst demo_next)"

definition demo_lease0 :: segment_lease where
  "demo_lease0 = \<lparr>sl_Name = ''n'', sl_Key = ''0'', sl_Owner = ''i'', sl_Epoch = 1\<rparr>"

definition demo_held0 :: held_segment where
  "demo_held0 = \<lparr>hs_lease = demo_lease0, hs_since = 10, hs_served = True, hs_busy = True, hs_leaseEnd = 72, hs_deferUntil = 500\<rparr>"





lemma demo_done_held: "cs_held (fst (fst demo_done)) = [(''0'', demo_held0)]"
  by code_simp

lemma demo_done_ok: "held_ok (fst (fst demo_done))"
  by (simp add: held_ok_def held_def demo_done_held demo_held0_def demo_lease0_def)

lemma demo_done_tick: "aw_tick (snd (fst demo_done)) = 6" "cs_segmenter (fst (fst demo_done)) \<noteq> None"
  by code_simp+

lemma demo_done_current: "current_segment (aw_store (snd (fst demo_done))) demo_lease0"
  by code_simp

theorem drained_pauses_segment_witness:
  "500 \<le> apause (aw_store (snd (fst (sched_Drained (demo_sops demo_time (\<lambda>_ s. s)) ''0'' (fst demo_done))))) (''n'', ''0'')"
proof -
  let ?r = "sched_Drained (demo_sops demo_time (\<lambda>_ s. s)) ''0'' (fst (fst demo_done), snd (fst demo_done))"
  have r: "?r = ((fst (fst ?r), snd (fst ?r)), snd ?r)" by simp
  have "500 \<le> apause (aw_store (snd (fst ?r))) (sl_Name demo_lease0, ''0'')"
    using drained_pauses_segment [OF demo_sops_def demo_done_ok demo_done_tick(2) _ _ refl refl _ _ _ _ r, of demo_held0]
      demo_done_current demo_done_held demo_done_tick(1)
    by (simp add: held_def demo_held0_def demo_time_def max_int64_def)
  then show ?thesis by (simp add: demo_lease0_def)
qed

theorem close_gives_back_witness:
  "\<not> current_segment (aw_store (snd (fst (sched_Close (demo_sops demo_time (\<lambda>_ s. s)) (fst demo_done))))) demo_lease0"
proof -
  let ?r = "sched_Close (demo_sops demo_time (\<lambda>_ s. s)) (fst (fst demo_done), snd (fst demo_done))"
  have r: "?r = ((fst (fst ?r), snd (fst ?r)), snd ?r)" by simp
  have "held (fst (fst demo_done)) ''0'' = Some demo_held0" by (simp add: held_def demo_done_held)
  then have "\<not> current_segment (aw_store (snd (fst ?r))) (hs_lease demo_held0)"
    using close_gives_back [OF demo_sops_def demo_done_ok r] by blast
  then show ?thesis by (simp add: demo_held0_def)
qed

section \<open>Where the scheduler falls short\<close>



definition busy_held :: "claim_scheduler \<Rightarrow> string \<Rightarrow> bool" where
  "busy_held s k \<longleftrightarrow> (case held s k of None \<Rightarrow> False | Some h \<Rightarrow> hs_busy h)"



text \<open>
  A deferral is dropped. When the lease has been taken over by another instance and the scheduler has not
  learnt of it from a renewal yet, \<open>Drained\<close> gives the segment back under the old lease, the store reports it
  lost, and the pause the batch asked for is written nowhere.
\<close>

definition demo_takeover :: "nat \<Rightarrow> automation_store \<Rightarrow> automation_store" where
  "demo_takeover t s = (if t = 7 then fst (Acquire 1000 s ''n'' ''j'' [\<lparr>sg_Key = ''0'', sg_Group = []\<rparr>] 1 185) else s)"

definition late_time :: "nat \<Rightarrow> gotime" where
  "late_time t = (if t < 6 then 10 + int t else 1000 + int t)"

definition dropped :: "(claim_scheduler \<times> unit auto_world) \<times> go_error option" where
  "dropped = sched_Drained (demo_sops late_time demo_takeover) ''0''
     (fst (sched_Done (demo_sops late_time demo_takeover) \<lparr>it_Key = ''0'', it_Value = ''item'', it_Deadline = 72\<rparr>
        \<lparr>oc_Kind = DeferredOutcome, oc_Until = 5000, oc_Err = None\<rparr>
        (fst (sched_Next (demo_sops late_time demo_takeover) (demo_sched, demo_x0)))))"

theorem lost_lease_drops_deferral:
  "snd dropped = None \<and> cs_held (fst (fst dropped)) = [] \<and> apause (aw_store (snd (fst dropped))) (''n'', ''0'') = 0"
  by code_simp

text \<open>
  Batches of a segment overlap after a lease ran out. When the instance was held up for longer than the lease
  lasts, \<open>Next\<close> first learns that the segment is lost and then, in the same call, is granted it anew: it
  returns a second batch for a segment whose first batch has not drained, and there is nothing in between that
  could have drained it.
\<close>

definition stalled_time :: "nat \<Rightarrow> gotime" where
  "stalled_time t = (if t < 5 then 10 + int t else 1000 + int t)"

definition first_next :: "(claim_scheduler \<times> unit auto_world) \<times> (go_error + string batch list)" where
  "first_next = sched_Next (demo_sops stalled_time (\<lambda>_ s. s)) (demo_sched, demo_x0)"

definition batch_keys :: "go_error + 't batch list \<Rightarrow> string list" where
  "batch_keys r = (case r of Inl _ \<Rightarrow> [] | Inr bs \<Rightarrow> map ba_Key bs)"

theorem expired_lease_overlaps_batches:
  "batch_keys (snd first_next) = [''0''] \<and> busy_held (fst (fst first_next)) ''0''
   \<and> batch_keys (snd (sched_Next (demo_sops stalled_time (\<lambda>_ s. s)) (fst first_next))) = [''0'']"
  by code_simp

end
