(* ===== verification/Auto_Batch.thy ===== *)
theory Auto_Batch
  imports Auto_Scheduler
begin

text \<open>
  How a runner works one batch (\<open>runBatch\<close>, \<open>batchRun.next\<close>, \<open>work\<close> and \<open>classify\<close> of
  \<open>automation/automation.go\<close>): a queue per ordering key, up to \<open>Concurrency\<close> items at once, one per key. The
  goroutine that dispatches and the goroutines that work share a mutex, so the batch is a transition system
  whose steps are their critical sections; the order in which they come is arbitrary, and so is the outcome
  of an item.
\<close>

section \<open>Summaries and outcomes\<close>

record summary =
  sm_Processed :: uint64
  sm_Failed :: uint64
  sm_Deferred :: uint64
  sm_NextEligible :: gotime

definition zero_summary :: summary where
  "zero_summary = \<lparr>sm_Processed = 0, sm_Failed = 0, sm_Deferred = 0, sm_NextEligible = 0\<rparr>"

definition summary_add :: "summary \<Rightarrow> summary \<Rightarrow> summary" where
  "summary_add s o' =
     (let s = s\<lparr>sm_Processed := sm_Processed s + sm_Processed o', sm_Failed := sm_Failed s + sm_Failed o',
                sm_Deferred := sm_Deferred s + sm_Deferred o'\<rparr>
      in if sm_NextEligible o' \<noteq> 0 \<and> (sm_NextEligible s = 0 \<or> sm_NextEligible o' < sm_NextEligible s)
         then s\<lparr>sm_NextEligible := sm_NextEligible o'\<rparr> else s)"

definition classify :: "gotime \<Rightarrow> go_error option \<Rightarrow> duration \<Rightarrow> outcome" where
  "classify now err lease =
     (case err of
        None \<Rightarrow> \<lparr>oc_Kind = Out_Done, oc_Until = 0, oc_Err = None\<rparr>
      | Some e \<Rightarrow> (case As_deferred e of
          Some until \<Rightarrow> \<lparr>oc_Kind = DeferredOutcome, oc_Until = (if until = 0 then now + lease else until), oc_Err = None\<rparr>
        | None \<Rightarrow> \<lparr>oc_Kind = Out_Failed, oc_Until = 0, oc_Err = Some e\<rparr>))"

text \<open>
  \<open>work\<close> up to the report to the scheduler: the item's deadline is checked before \<open>Work\<close> is called with a
  context that carries it and no correlation of the run's own. \<open>wk_Work\<close> is the application's \<open>Work\<close>, given
  the deadline its context ends at (\<open>0\<close> for none) and its correlation and causation; \<open>wk_now\<close> and \<open>wk_ctxErr\<close> are
  the clock and the run's context as the world has them. \<open>None\<close> means that the run is stopping.
\<close>

record ('t, 'x) work_ops =
  wk_now :: "'x \<Rightarrow> 'x \<times> gotime"
  wk_ctxErr :: "'x \<Rightarrow> sentinel option"
  wk_Work :: "gotime \<Rightarrow> string \<times> string \<Rightarrow> 't \<Rightarrow> 'x \<Rightarrow> 'x \<times> go_error option"
  wk_Done :: "'t item \<Rightarrow> outcome \<Rightarrow> 'x \<Rightarrow> 'x \<times> go_error option"

definition work_outcome :: "('t, 'x) work_ops \<Rightarrow> duration \<Rightarrow> 't item \<Rightarrow> 'x \<Rightarrow> 'x \<times> outcome option" where
  "work_outcome W lease item x =
     (case (if it_Deadline item \<noteq> 0 then apsnd (\<lambda>now. \<not> it_Deadline item > now) (wk_now W x) else (x, False)) of
        (x, True) \<Rightarrow> (x, Some \<lparr>oc_Kind = Out_Failed, oc_Until = 0, oc_Err = Some (NewError ''lease expired before work started'')\<rparr>)
      | (x, False) \<Rightarrow>
          (case wk_Work W (it_Deadline item) ([], []) (it_Value item) x of
             (x, err) \<Rightarrow>
               (if (case (err, wk_ctxErr W x) of (Some e, Some c) \<Rightarrow> errors_Is e c | _ \<Rightarrow> False) then (x, None)
                else case wk_now W x of (x, now) \<Rightarrow> (x, Some (classify now err lease)))))"

text \<open>The rest of \<open>work\<close>: the report, whose error is only logged, and the counters of the status.\<close>

definition count_status :: "(go_error \<Rightarrow> string) \<Rightarrow> outcome \<Rightarrow> auto_status \<Rightarrow> auto_status" where
  "count_status txt out st =
     (case oc_Kind out of
        Out_Done \<Rightarrow> st\<lparr>au_Processed := au_Processed st + 1\<rparr>
      | DeferredOutcome \<Rightarrow> st\<lparr>au_Deferred := au_Deferred st + 1\<rparr>
      | Out_Failed \<Rightarrow> st\<lparr>au_Failed := au_Failed st + 1, au_LastError := (case oc_Err out of None \<Rightarrow> [] | Some e \<Rightarrow> txt e)\<rparr>)"

definition auto_work :: "(go_error \<Rightarrow> string) \<Rightarrow> ('t, 'x) work_ops \<Rightarrow> duration \<Rightarrow> 't item \<Rightarrow> auto_status \<times> 'x
    \<Rightarrow> (auto_status \<times> 'x) \<times> outcome option" where
  "auto_work txt W lease item = (\<lambda>(st, x).
     case work_outcome W lease item x of
       (x, None) \<Rightarrow> ((st, x), None)
     | (x, Some out) \<Rightarrow> (case wk_Done W item out x of (x, _) \<Rightarrow> ((count_status txt out st, x), Some out)))"

section \<open>The dispatch of a batch\<close>

record 't batch_run =
  br_order :: "string list"
  br_queues :: "string \<Rightarrow> 't item list option"
  br_inUse :: "string \<Rightarrow> bool"
  br_parked :: "string \<Rightarrow> bool"
  br_stopped :: bool
  br_active :: nat
  br_sum :: summary

definition empty_run :: "'t batch_run" where
  "empty_run = \<lparr>br_order = [], br_queues = Map.empty, br_inUse = (\<lambda>_. False), br_parked = (\<lambda>_. False), br_stopped = False,
     br_active = 0, br_sum = zero_summary\<rparr>"

definition queue_of :: "'t batch_run \<Rightarrow> string \<Rightarrow> 't item list" where
  "queue_of b sk = (case br_queues b sk of None \<Rightarrow> [] | Some q \<Rightarrow> q)"

text \<open>Without an \<open>OrderingKey\<close> every item is a chain of its own, named by its index.\<close>

definition ordering_key :: "('t \<Rightarrow> string) option \<Rightarrow> nat \<Rightarrow> 't item \<Rightarrow> string" where
  "ordering_key key i it = (case key of None \<Rightarrow> Itoa (int i) | Some f \<Rightarrow> f (it_Value it))"

definition add_item :: "string \<Rightarrow> 't item \<Rightarrow> 't batch_run \<Rightarrow> 't batch_run" where
  "add_item sk it b =
     (let b = (if br_queues b sk = None then b\<lparr>br_order := br_order b @ [sk]\<rparr> else b)
      in b\<lparr>br_queues := (br_queues b)(sk \<mapsto> queue_of b sk @ [it])\<rparr>)"

definition batch_init :: "('t \<Rightarrow> string) option \<Rightarrow> 't batch \<Rightarrow> 't batch_run" where
  "batch_init key b = foldl (\<lambda>r (i, it). add_item (ordering_key key i it) it r) empty_run (enumerate 0 (ba_Items b))"

fun next_scan :: "'t batch_run \<Rightarrow> string list \<Rightarrow> (string \<times> 't item \<times> 't batch_run) option" where
  "next_scan b [] = None"
| "next_scan b (sk # sks) =
     (case queue_of b sk of
        [] \<Rightarrow> next_scan b sks
      | it # q \<Rightarrow> if br_inUse b sk \<or> br_parked b sk then next_scan b sks
                  else Some (sk, it, b\<lparr>br_queues := (br_queues b)(sk \<mapsto> q)\<rparr>))"

definition batch_next :: "int \<Rightarrow> 't batch_run \<Rightarrow> (string \<times> 't item \<times> 't batch_run) option" where
  "batch_next concurrency b =
     (if br_stopped b \<or> int (br_active b) \<ge> concurrency then None else next_scan b (br_order b))"

definition batch_start :: "int \<Rightarrow> 't batch_run \<Rightarrow> (string \<times> 't item \<times> 't batch_run) option" where
  "batch_start concurrency b =
     (case batch_next concurrency b of
        None \<Rightarrow> None
      | Some (sk, it, b) \<Rightarrow> Some (sk, it, b\<lparr>br_inUse := (br_inUse b)(sk := True), br_active := br_active b + 1\<rparr>))"

text \<open>The critical section in which a worker reports its item; \<open>None\<close> when the run is ending.\<close>

definition batch_finish :: "string \<Rightarrow> outcome option \<Rightarrow> 't batch_run \<Rightarrow> 't batch_run" where
  "batch_finish sk res b =
     (let b = b\<lparr>br_inUse := (br_inUse b)(sk := False), br_active := br_active b - 1\<rparr>; sum = br_sum b in
      case res of
        None \<Rightarrow> b\<lparr>br_stopped := True\<rparr>
      | Some out \<Rightarrow> (case oc_Kind out of
          Out_Done \<Rightarrow> b\<lparr>br_sum := sum\<lparr>sm_Processed := sm_Processed sum + 1\<rparr>\<rparr>
        | Out_Failed \<Rightarrow> b\<lparr>br_sum := sum\<lparr>sm_Failed := sm_Failed sum + 1\<rparr>, br_parked := (br_parked b)(sk := True)\<rparr>
        | DeferredOutcome \<Rightarrow>
            (let sum = sum\<lparr>sm_Deferred := sm_Deferred sum + 1\<rparr>;
                 sum = (if sm_NextEligible sum = 0 \<or> oc_Until out < sm_NextEligible sum then sum\<lparr>sm_NextEligible := oc_Until out\<rparr> else sum)
             in b\<lparr>br_sum := sum, br_stopped := True\<rparr>)))"

text \<open>The dispatcher leaves its loop.\<close>

definition batch_over :: "int \<Rightarrow> 't batch_run \<Rightarrow> bool" where
  "batch_over concurrency b \<longleftrightarrow> batch_next concurrency b = None \<and> br_active b = 0"

end
