(* ===== verification/Auto_Batch_Props.thy ===== *)
theory Auto_Batch_Props
  imports Auto_Batch
begin

text \<open>
  What the dispatch of a batch guarantees: items of an ordering key are started in claim order, one at a time,
  and none after one that failed; at most \<open>Concurrency\<close> items run at once; the batch ends, and its summary
  counts what was reported.
\<close>

section \<open>The batch as a transition system\<close>

record 't batch_exec =
  be_run :: "'t batch_run"
  be_running :: "(string \<times> 't item) list"
  be_log :: "(string \<times> 't item \<times> outcome option) list"

inductive batch_step :: "int \<Rightarrow> 't batch_exec \<Rightarrow> 't batch_exec \<Rightarrow> bool" for conc where
  start: "batch_start conc (be_run e) = Some (sk, it, b) \<Longrightarrow>
     batch_step conc e (e\<lparr>be_run := b, be_running := be_running e @ [(sk, it)]\<rparr>)"
| finish: "(sk, it) \<in> set (be_running e) \<Longrightarrow>
     batch_step conc e (e\<lparr>be_run := batch_finish sk res (be_run e), be_running := remove1 (sk, it) (be_running e),
                         be_log := be_log e @ [(sk, it, res)]\<rparr>)"

inductive_cases batch_stepE: "batch_step conc e e'"

definition exec_init :: "('t \<Rightarrow> string) option \<Rightarrow> 't batch \<Rightarrow> 't batch_exec" where
  "exec_init key b = \<lparr>be_run = batch_init key b, be_running = [], be_log = []\<rparr>"

definition of_key :: "string \<Rightarrow> (string \<times> 'a) list \<Rightarrow> 'a list" where
  "of_key sk xs = map snd (filter (\<lambda>e. fst e = sk) xs)"

lemma of_key_simps [simp]:
  "of_key sk [] = []" "of_key sk (xs @ ys) = of_key sk xs @ of_key sk ys"
  "of_key sk [(k, v)] = (if k = sk then [v] else [])" "of_key sk ((k, v) # xs) = (if k = sk then v # of_key sk xs else of_key sk xs)"
  by (simp_all add: of_key_def)

lemma of_key_remove1:
  "of_key sk (remove1 (k, v) xs) = (if k = sk then remove1 v (of_key sk xs) else of_key sk xs)"
proof (induction xs)
  case (Cons x xs)
  then show ?case by (cases x) (auto split: if_split)
qed simp

text \<open>The items of an ordering key, in claim order.\<close>

definition key_items :: "('t \<Rightarrow> string) option \<Rightarrow> 't item list \<Rightarrow> string \<Rightarrow> 't item list" where
  "key_items key items sk = of_key sk (map (\<lambda>(i, it). (ordering_key key i it, it)) (enumerate 0 items))"

definition started :: "'t batch_exec \<Rightarrow> string \<Rightarrow> 't item list" where
  "started e sk = map fst (of_key sk (be_log e)) @ of_key sk (be_running e)"

definition is_done :: "outcome option \<Rightarrow> bool" where
  "is_done res \<longleftrightarrow> (case res of None \<Rightarrow> False | Some out \<Rightarrow> oc_Kind out = Out_Done)"

definition clean :: "'t batch_exec \<Rightarrow> string \<Rightarrow> bool" where
  "clean e sk \<longleftrightarrow> (\<forall>r \<in> set (of_key sk (be_log e)). is_done (snd r))"

definition count_kind :: "outcome_kind \<Rightarrow> 't batch_exec \<Rightarrow> nat" where
  "count_kind k e = length (filter (\<lambda>(_, _, res). map_option oc_Kind res = Some k) (be_log e))"

section \<open>The dispatcher's steps\<close>

lemma next_scan_spec:
  assumes "next_scan b sks = Some (sk, it, b')"
  shows "sk \<in> set sks" "\<not> br_inUse b sk" "\<not> br_parked b sk" "queue_of b sk = it # queue_of b' sk"
    "\<And>k. k \<noteq> sk \<Longrightarrow> queue_of b' k = queue_of b k" "b' = b\<lparr>br_queues := br_queues b'\<rparr>"
proof -
  have "sk \<in> set sks \<and> \<not> br_inUse b sk \<and> \<not> br_parked b sk
      \<and> (\<exists>q. queue_of b sk = it # q \<and> b' = b\<lparr>br_queues := (br_queues b)(sk \<mapsto> q)\<rparr>)"
    using assms by (induction b sks rule: next_scan.induct) (auto split: list.splits if_splits)
  then show "sk \<in> set sks" "\<not> br_inUse b sk" "\<not> br_parked b sk" "queue_of b sk = it # queue_of b' sk"
    "\<And>k. k \<noteq> sk \<Longrightarrow> queue_of b' k = queue_of b k" "b' = b\<lparr>br_queues := br_queues b'\<rparr>"
    by (auto simp: queue_of_def)
qed

lemma next_scan_None: "next_scan b sks = None \<longleftrightarrow> (\<forall>sk \<in> set sks. queue_of b sk = [] \<or> br_inUse b sk \<or> br_parked b sk)"
  by (induction b sks rule: next_scan.induct) (auto split: list.split)

lemma batch_start_spec:
  assumes "batch_start conc b = Some (sk, it, b')"
  shows "\<not> br_stopped b" "int (br_active b) < conc" "sk \<in> set (br_order b)" "\<not> br_inUse b sk" "\<not> br_parked b sk"
    "queue_of b sk = it # queue_of b' sk" "\<And>k. k \<noteq> sk \<Longrightarrow> queue_of b' k = queue_of b k"
    "br_order b' = br_order b" "br_inUse b' = (br_inUse b)(sk := True)" "br_parked b' = br_parked b"
    "br_stopped b' = br_stopped b" "br_active b' = br_active b + 1" "br_sum b' = br_sum b"
proof -
  obtain b1 where b1: "batch_next conc b = Some (sk, it, b1)"
    and b': "b' = b1\<lparr>br_inUse := (br_inUse b1)(sk := True), br_active := br_active b1 + 1\<rparr>"
    using assms by (auto simp: batch_start_def split: option.splits)
  then have n: "\<not> br_stopped b" "int (br_active b) < conc" "next_scan b (br_order b) = Some (sk, it, b1)"
    by (auto simp: batch_next_def split: if_splits)
  note N = next_scan_spec [OF n(3)]
  have f: "br_order b1 = br_order b" "br_inUse b1 = br_inUse b" "br_parked b1 = br_parked b" "br_stopped b1 = br_stopped b"
    "br_active b1 = br_active b" "br_sum b1 = br_sum b"
    by (subst N(6), simp)+
  have q: "queue_of b' k = queue_of b1 k" for k by (simp add: b' queue_of_def)
  show "\<not> br_stopped b" "int (br_active b) < conc" "sk \<in> set (br_order b)" "\<not> br_inUse b sk" "\<not> br_parked b sk"
    "queue_of b sk = it # queue_of b' sk" "\<And>k. k \<noteq> sk \<Longrightarrow> queue_of b' k = queue_of b k"
    "br_order b' = br_order b" "br_inUse b' = (br_inUse b)(sk := True)" "br_parked b' = br_parked b"
    "br_stopped b' = br_stopped b" "br_active b' = br_active b + 1" "br_sum b' = br_sum b"
    using n(1,2) N(1-5) by (simp_all add: q) (simp_all add: b' f)
qed

lemma batch_finish_simps [simp]:
  "queue_of (batch_finish sk res b) k = queue_of b k" "br_order (batch_finish sk res b) = br_order b"
  "br_inUse (batch_finish sk res b) = (br_inUse b)(sk := False)" "br_active (batch_finish sk res b) = br_active b - 1"
  "br_parked (batch_finish sk res b) = (if map_option oc_Kind res = Some Out_Failed then (br_parked b)(sk := True) else br_parked b)"
  "br_stopped (batch_finish sk res b) = (br_stopped b \<or> res = None \<or> map_option oc_Kind res = Some DeferredOutcome)"
  by (auto simp: batch_finish_def queue_of_def Let_def split: option.split outcome_kind.split)

lemma batch_finish_sum:
  "sm_Processed (br_sum (batch_finish sk res b)) = sm_Processed (br_sum b) + (if map_option oc_Kind res = Some Out_Done then 1 else 0)"
  "sm_Failed (br_sum (batch_finish sk res b)) = sm_Failed (br_sum b) + (if map_option oc_Kind res = Some Out_Failed then 1 else 0)"
  "sm_Deferred (br_sum (batch_finish sk res b)) = sm_Deferred (br_sum b) + (if map_option oc_Kind res = Some DeferredOutcome then 1 else 0)"
  by (auto simp: batch_finish_def Let_def split: option.split outcome_kind.split)

section \<open>The invariant\<close>

definition batch_inv :: "int \<Rightarrow> (string \<Rightarrow> 't item list) \<Rightarrow> 't batch_exec \<Rightarrow> bool" where
  "batch_inv conc q0 e \<longleftrightarrow>
     (\<forall>sk. started e sk @ queue_of (be_run e) sk = q0 sk)
   \<and> (\<forall>sk. length (of_key sk (be_running e)) = (if br_inUse (be_run e) sk then 1 else 0))
   \<and> br_active (be_run e) = length (be_running e) \<and> int (length (be_running e)) \<le> max 0 conc
   \<and> (\<forall>sk. br_inUse (be_run e) sk \<longrightarrow> clean e sk)
   \<and> (\<forall>sk. \<not> clean e sk \<longrightarrow> br_parked (be_run e) sk \<or> br_stopped (be_run e))
   \<and> (\<forall>sk pre r post. of_key sk (be_log e) = pre @ r # post \<longrightarrow> (\<forall>p \<in> set pre. is_done (snd p)))
   \<and> (\<forall>sk. queue_of (be_run e) sk \<noteq> [] \<longrightarrow> sk \<in> set (br_order (be_run e)))
   \<and> sm_Processed (br_sum (be_run e)) = count_kind Out_Done e \<and> sm_Failed (br_sum (be_run e)) = count_kind Out_Failed e
   \<and> sm_Deferred (br_sum (be_run e)) = count_kind DeferredOutcome e"

lemma batch_inv_start:
  assumes "batch_inv conc q0 e" "batch_start conc (be_run e) = Some (sk, it, b)"
    and e': "e' = e\<lparr>be_run := b, be_running := be_running e @ [(sk, it)]\<rparr>"
  shows "batch_inv conc q0 e'"
proof -
  note B = batch_start_spec [OF assms(2)]
  have I: "\<And>k. started e k @ queue_of (be_run e) k = q0 k"
    "\<And>k. length (of_key k (be_running e)) = (if br_inUse (be_run e) k then 1 else 0)"
    "br_active (be_run e) = length (be_running e)"
    "\<And>k. br_inUse (be_run e) k \<Longrightarrow> clean e k"
    "\<And>k. \<not> clean e k \<Longrightarrow> br_parked (be_run e) k \<or> br_stopped (be_run e)"
    "\<And>k pre r post. of_key k (be_log e) = pre @ r # post \<Longrightarrow> (\<forall>p \<in> set pre. is_done (snd p))"
    "\<And>k. queue_of (be_run e) k \<noteq> [] \<Longrightarrow> k \<in> set (br_order (be_run e))"
    "sm_Processed (br_sum (be_run e)) = count_kind Out_Done e" "sm_Failed (br_sum (be_run e)) = count_kind Out_Failed e"
    "sm_Deferred (br_sum (be_run e)) = count_kind DeferredOutcome e"
    using assms(1) unfolding batch_inv_def by blast+
  have clean: "clean e' k = clean e k" for k by (simp add: clean_def e')
  have counts: "count_kind k e' = count_kind k e" for k by (simp add: count_kind_def e')
  have "started e' k @ queue_of b k = q0 k" for k
    using I(1) [of k] B(6) B(7) [of k] by (cases "k = sk") (auto simp: started_def e')
  moreover have "length (of_key k (be_running e')) = (if br_inUse b k then 1 else 0)" for k
    using I(2) [of k] B(4,9) by (auto simp: e')
  moreover have "br_active b = length (be_running e') \<and> int (length (be_running e')) \<le> max 0 conc"
    using I(3) B(2,12) by (auto simp: e')
  moreover have "clean e' k" if "br_inUse b k" for k
    using that I(4) [of k] I(5) [of k] B(1,5,9) by (auto simp: clean split: if_splits)
  moreover have "br_parked b k \<or> br_stopped b" if "\<not> clean e' k" for k using that I(5) [of k] B(10,11) by (simp add: clean)
  moreover have "k \<in> set (br_order b)" if "queue_of b k \<noteq> []" for k
    using that I(7) [of k] B(3,7,8) by (cases "k = sk") auto
  ultimately show ?thesis using I(6,8-10) B(13) unfolding batch_inv_def counts by (simp add: e')
qed

lemma append_snoc_split:
  assumes "xs @ [x] = pre @ r # post"
  shows "(pre = xs \<and> r = x \<and> post = []) \<or> (\<exists>post'. xs = pre @ r # post' \<and> post = post' @ [x])"
  using assms by (cases post rule: rev_cases) auto

lemma batch_inv_finish:
  assumes "batch_inv conc q0 e" "(sk, it) \<in> set (be_running e)"
    and e': "e' = e\<lparr>be_run := batch_finish sk res (be_run e), be_running := remove1 (sk, it) (be_running e), be_log := be_log e @ [(sk, it, res)]\<rparr>"
  shows "batch_inv conc q0 e'"
proof -
  let ?b = "be_run e"
  have I: "\<And>k. started e k @ queue_of ?b k = q0 k" "\<And>k. length (of_key k (be_running e)) = (if br_inUse ?b k then 1 else 0)"
    "br_active ?b = length (be_running e)" "int (length (be_running e)) \<le> max 0 conc" "\<And>k. br_inUse ?b k \<Longrightarrow> clean e k"
    "\<And>k. \<not> clean e k \<Longrightarrow> br_parked ?b k \<or> br_stopped ?b"
    "\<And>k pre r post. of_key k (be_log e) = pre @ r # post \<Longrightarrow> (\<forall>p \<in> set pre. is_done (snd p))"
    "\<And>k. queue_of ?b k \<noteq> [] \<Longrightarrow> k \<in> set (br_order ?b)"
    "sm_Processed (br_sum ?b) = count_kind Out_Done e" "sm_Failed (br_sum ?b) = count_kind Out_Failed e"
    "sm_Deferred (br_sum ?b) = count_kind DeferredOutcome e"
    using assms(1) unfolding batch_inv_def by blast+
  have "it \<in> set (of_key sk (be_running e))" using assms(2) by (force simp: of_key_def)
  then have one: "of_key sk (be_running e) = [it]" and use: "br_inUse ?b sk"
    using I(2) [of sk] by (auto simp: length_Suc_conv split: if_splits)
  have ck: "clean e sk" by (rule I(5) [OF use])
  have log: "of_key k (be_log e') = of_key k (be_log e) @ (if k = sk then [(it, res)] else [])" for k by (simp add: e')
  have clean: "clean e' k = (clean e k \<and> (k = sk \<longrightarrow> is_done res))" for k unfolding clean_def log by auto
  have run: "of_key k (be_running e') = (if k = sk then [] else of_key k (be_running e))" for k
    using one by (simp add: e' of_key_remove1)
  have counts: "count_kind c e' = count_kind c e + (if map_option oc_Kind res = Some c then 1 else 0)" for c
    by (simp add: count_kind_def e')
  have len: "length (be_running e') = length (be_running e) - 1" using assms(2) by (simp add: e' length_remove1)
  have "started e' k @ queue_of ?b k = q0 k" for k
    using I(1) [of k] one unfolding started_def log run by (cases "k = sk") auto
  moreover have "length (of_key k (be_running e')) = (if ((br_inUse ?b)(sk := False)) k then 1 else 0)" for k
    using I(2) [of k] by (auto simp: run split: if_splits)
  moreover have "clean e' k" if "((br_inUse ?b)(sk := False)) k" for k using that I(5) [of k] by (auto simp: clean split: if_splits)
  moreover have "br_parked (batch_finish sk res ?b) k \<or> br_stopped (batch_finish sk res ?b)" if "\<not> clean e' k" for k
  proof (cases "clean e k")
    case True
    with that have "k = sk" "\<not> is_done res" by (auto simp: clean)
    then show ?thesis by (cases res; cases "oc_Kind (the res)") (auto simp: is_done_def)
  next
    case False
    then show ?thesis using I(6) [of k] by auto
  qed
  moreover have "\<forall>p \<in> set pre. is_done (snd p)" if "of_key k (be_log e') = pre @ r # post" for k pre r post
  proof (cases "k = sk")
    case True
    then have "of_key sk (be_log e) @ [(it, res)] = pre @ r # post" using that log by simp
    from append_snoc_split [OF this] show ?thesis using I(7) [of sk pre r] ck by (auto simp: clean_def)
  next
    case False
    then show ?thesis using that log I(7) [of k pre r post] by simp
  qed
  ultimately show ?thesis
    using I(3,4,8-11) len counts unfolding batch_inv_def by (simp add: e' batch_finish_sum)
qed

lemma batch_inv_step: "batch_inv conc q0 e \<Longrightarrow> batch_step conc e e' \<Longrightarrow> batch_inv conc q0 e'"
  by (erule batch_stepE) (auto intro: batch_inv_start batch_inv_finish)

lemma batch_inv_steps: "(batch_step conc)\<^sup>*\<^sup>* e e' \<Longrightarrow> batch_inv conc q0 e \<Longrightarrow> batch_inv conc q0 e'"
  by (induction rule: rtranclp_induct) (auto intro: batch_inv_step)

section \<open>The start\<close>

definition queued :: "'t batch_run \<Rightarrow> nat" where
  "queued b = (\<Sum>sk \<in> set (br_order b). length (queue_of b sk))"

lemma add_item_simps:
  "queue_of (add_item sk it b) k = (if k = sk then queue_of b sk @ [it] else queue_of b k)"
  "set (br_order (add_item sk it b)) = insert sk (set (br_order b)) \<or> br_queues b sk \<noteq> None \<and> br_order (add_item sk it b) = br_order b"
  "br_inUse (add_item sk it b) = br_inUse b" "br_active (add_item sk it b) = br_active b" "br_stopped (add_item sk it b) = br_stopped b"
  "br_sum (add_item sk it b) = br_sum b" "br_parked (add_item sk it b) = br_parked b"
  by (auto simp: add_item_def Let_def queue_of_def)

definition run_ok :: "'t batch_run \<Rightarrow> bool" where
  "run_ok b \<longleftrightarrow> (\<forall>sk. br_queues b sk \<noteq> None \<longleftrightarrow> sk \<in> set (br_order b)) \<and> br_inUse b = (\<lambda>_. False) \<and> br_active b = 0
     \<and> br_sum b = zero_summary \<and> \<not> br_stopped b"

lemma run_ok_add:
  assumes "run_ok b"
  shows "run_ok (add_item sk it b)" "queued (add_item sk it b) = Suc (queued b)"
proof -
  show "run_ok (add_item sk it b)" using assms by (auto simp: run_ok_def add_item_def Let_def)
  have ord: "set (br_order (add_item sk it b)) = insert sk (set (br_order b))"
    using assms by (auto simp: run_ok_def add_item_def Let_def)
  have "queue_of b sk = []" if "sk \<notin> set (br_order b)" using that assms by (auto simp: run_ok_def queue_of_def split: option.split)
  then have "(\<Sum>k \<in> insert sk (set (br_order b)). length (queue_of b k)) = queued b"
    by (cases "sk \<in> set (br_order b)") (simp_all add: queued_def insert_absorb)
  moreover have "queued (add_item sk it b) = (\<Sum>k \<in> insert sk (set (br_order b)). length (queue_of b k) + (if k = sk then 1 else 0))"
    unfolding queued_def ord by (rule sum.cong) (simp_all add: add_item_simps)
  moreover have "(\<Sum>k \<in> insert sk (set (br_order b)). (if k = sk then 1 else 0 :: nat)) = 1" by (simp add: sum.delta)
  ultimately show "queued (add_item sk it b) = Suc (queued b)" by (simp only: sum.distrib)
qed

lemma batch_init_spec:
  "run_ok (batch_init key b)" "queued (batch_init key b) = length (ba_Items b)"
  "queue_of (batch_init key b) sk = key_items key (ba_Items b) sk"
proof -
  have "run_ok (foldl (\<lambda>r (i, it). add_item (ordering_key key i it) it r) empty_run xs)
    \<and> queued (foldl (\<lambda>r (i, it). add_item (ordering_key key i it) it r) empty_run xs) = length xs
    \<and> (\<forall>sk. queue_of (foldl (\<lambda>r (i, it). add_item (ordering_key key i it) it r) empty_run xs) sk
         = of_key sk (map (\<lambda>(i, it). (ordering_key key i it, it)) xs))" for xs :: "(nat \<times> 'a item) list"
  proof (induction xs rule: rev_induct)
    case Nil
    then show ?case by (simp add: run_ok_def empty_run_def queued_def queue_of_def)
  next
    case (snoc x xs)
    then show ?case by (cases x) (auto simp: run_ok_add add_item_simps)
  qed
  then show "run_ok (batch_init key b)" "queued (batch_init key b) = length (ba_Items b)"
    "queue_of (batch_init key b) sk = key_items key (ba_Items b) sk"
    unfolding batch_init_def key_items_def by (simp_all add: length_enumerate)
qed

lemma batch_inv_init: "batch_inv conc (key_items key (ba_Items b)) (exec_init key b)"
proof -
  have q: "queue_of (batch_init key b) sk \<noteq> [] \<Longrightarrow> sk \<in> set (br_order (batch_init key b))" for sk
    using batch_init_spec(1) [of key b] by (auto simp: run_ok_def queue_of_def split: option.splits)
  show ?thesis
    using batch_init_spec [of key b] q
    by (auto simp: batch_inv_def exec_init_def started_def clean_def count_kind_def run_ok_def zero_summary_def)
qed

section \<open>Properties\<close>

text \<open>
  (C20) Order within a key, however the goroutines interleave. The items of an ordering key are started in claim
  order and one at a time, never more than \<open>Concurrency\<close> items at once; and an item is only started, let alone
  finished, once every item before it on its key has been done: one that failed or was deferred holds back
  the rest of its key for the batch.
\<close>

theorem ordering_key_kept:
  assumes "(batch_step conc)\<^sup>*\<^sup>* (exec_init key b) e"
  shows "prefix (started e sk) (key_items key (ba_Items b) sk)
    \<and> length (of_key sk (be_running e)) \<le> 1 \<and> int (length (be_running e)) \<le> max 0 conc
    \<and> (of_key sk (be_running e) \<noteq> [] \<longrightarrow> (\<forall>r \<in> set (of_key sk (be_log e)). is_done (snd r)))
    \<and> (\<forall>r \<in> set (butlast (of_key sk (be_log e))). is_done (snd r))"
proof -
  have inv: "batch_inv conc (key_items key (ba_Items b)) e" by (rule batch_inv_steps [OF assms batch_inv_init])
  have q: "started e sk @ queue_of (be_run e) sk = key_items key (ba_Items b) sk"
    and l: "length (of_key sk (be_running e)) = (if br_inUse (be_run e) sk then 1 else 0)"
    and m: "int (length (be_running e)) \<le> max 0 conc" and c: "br_inUse (be_run e) sk \<longrightarrow> clean e sk"
    and o: "\<And>pre r post. of_key sk (be_log e) = pre @ r # post \<Longrightarrow> \<forall>p \<in> set pre. is_done (snd p)"
    using inv unfolding batch_inv_def by blast+
  have "\<forall>r \<in> set (butlast (of_key sk (be_log e))). is_done (snd r)"
  proof (cases "of_key sk (be_log e) = []")
    case False
    then show ?thesis using o [of "butlast (of_key sk (be_log e))" "last (of_key sk (be_log e))" "[]"] by simp
  qed simp
  moreover have "\<forall>r \<in> set (of_key sk (be_log e)). is_done (snd r)" if "of_key sk (be_running e) \<noteq> []"
    using that l c by (auto simp: clean_def split: if_splits)
  moreover have "prefix (started e sk) (key_items key (ba_Items b) sk)" using q by (metis prefixI)
  ultimately show ?thesis using l m by (simp split: if_splits)
qed

definition todo :: "'t batch_exec \<Rightarrow> nat" where
  "todo e = 2 * queued (be_run e) + length (be_running e)"

lemma todo_step:
  assumes "batch_step conc e e'"
  shows "Suc (todo e') = todo e"
  using assms
proof (cases rule: batch_step.cases)
  case (start sk it b)
  note B = batch_start_spec [OF start(2)]
  have "queued (be_run e) = (\<Sum>k \<in> set (br_order b). length (queue_of b k) + (if k = sk then 1 else 0))"
    unfolding queued_def B(8) [symmetric] by (rule sum.cong) (use B(6,7) in \<open>auto split: if_splits\<close>)
  also have "\<dots> = queued b + 1" using B(3,8) by (simp add: sum.distrib queued_def sum.delta)
  finally show ?thesis using start(1) by (simp add: todo_def)
next
  case (finish sk it res)
  then have "0 < length (be_running e)" by auto
  with finish show ?thesis by (simp add: todo_def queued_def length_remove1)
qed

text \<open>
  (C38) The batch ends. No interleaving takes more than two steps per item; when no step is left, no item is
  running and the dispatcher leaves its loop; then the summary counts every outcome that was reported, and an
  item that was not worked belongs to a key that was parked by a failure, or the batch was stopped by a
  deferral or by the end of the run.
\<close>

theorem batch_ends_with_summary:
  assumes "(batch_step conc ^^ n) (exec_init key b) e" "1 \<le> conc"
  shows "n \<le> 2 * length (ba_Items b)
    \<and> ((\<nexists>e'. batch_step conc e e') \<longrightarrow> be_running e = [] \<and> batch_over conc (be_run e)
       \<and> sm_Processed (br_sum (be_run e)) = count_kind Out_Done e \<and> sm_Failed (br_sum (be_run e)) = count_kind Out_Failed e
       \<and> sm_Deferred (br_sum (be_run e)) = count_kind DeferredOutcome e
       \<and> (\<forall>sk. map fst (of_key sk (be_log e)) = key_items key (ba_Items b) sk \<or> br_parked (be_run e) sk \<or> br_stopped (be_run e)))"
proof -
  have "n + todo e = todo (exec_init key b)" using assms(1)
  proof (induction n arbitrary: e)
    case (Suc n)
    then obtain e1 where "(batch_step conc ^^ n) (exec_init key b) e1" "batch_step conc e1 e" by auto
    with Suc.IH todo_step show ?case by fastforce
  qed simp
  moreover have "todo (exec_init key b) = 2 * length (ba_Items b)" by (simp add: todo_def exec_init_def batch_init_spec)
  ultimately have n: "n \<le> 2 * length (ba_Items b)" by simp
  have "(batch_step conc)\<^sup>*\<^sup>* (exec_init key b) e" using assms(1) by (rule relpowp_imp_rtranclp)
  then have inv: "batch_inv conc (key_items key (ba_Items b)) e" by (rule batch_inv_steps [OF _ batch_inv_init])
  have I: "\<And>k. started e k @ queue_of (be_run e) k = key_items key (ba_Items b) k" "br_active (be_run e) = length (be_running e)"
    "\<And>k. length (of_key k (be_running e)) = (if br_inUse (be_run e) k then 1 else 0)"
    "\<And>k. queue_of (be_run e) k \<noteq> [] \<Longrightarrow> k \<in> set (br_order (be_run e))"
    using inv unfolding batch_inv_def by blast+
  have stuck: "be_running e = [] \<and> batch_over conc (be_run e)
    \<and> (\<forall>sk. map fst (of_key sk (be_log e)) = key_items key (ba_Items b) sk \<or> br_parked (be_run e) sk \<or> br_stopped (be_run e))"
    if no: "\<nexists>e'. batch_step conc e e'"
  proof -
    have run: "be_running e = []"
    proof (rule ccontr)
      assume "be_running e \<noteq> []"
      then obtain sk it where "(sk, it) \<in> set (be_running e)" by (metis list.set_intros(1) neq_Nil_conv prod.exhaust)
      then show False using batch_step.finish [of sk it e conc None] no by blast
    qed
    have "batch_start conc (be_run e) = None"
      using no batch_step.start [of conc e] by (metis not_Some_eq prod_cases3)
    then have nxt: "batch_next conc (be_run e) = None" by (auto simp: batch_start_def split: option.splits)
    have "map fst (of_key sk (be_log e)) = key_items key (ba_Items b) sk" if "\<not> br_parked (be_run e) sk" "\<not> br_stopped (be_run e)" for sk
    proof -
      have "next_scan (be_run e) (br_order (be_run e)) = None"
        using nxt that(2) I(2) run assms(2) by (simp add: batch_next_def)
      then have "queue_of (be_run e) sk = []"
        using that(1) I(3) [of sk] I(4) [of sk] run by (auto simp: next_scan_None split: if_splits)
      then show ?thesis using I(1) [of sk] run by (simp add: started_def)
    qed
    then show ?thesis using run nxt I(2) by (auto simp: batch_over_def)
  qed
  have sums: "sm_Processed (br_sum (be_run e)) = count_kind Out_Done e \<and> sm_Failed (br_sum (be_run e)) = count_kind Out_Failed e
       \<and> sm_Deferred (br_sum (be_run e)) = count_kind DeferredOutcome e"
    using inv unfolding batch_inv_def by blast
  show ?thesis using n stuck sums by blast
qed

section \<open>A concrete batch\<close>

definition exec_start :: "int \<Rightarrow> 't batch_exec \<Rightarrow> 't batch_exec" where
  "exec_start conc e = (case batch_start conc (be_run e) of None \<Rightarrow> e
     | Some (sk, it, b) \<Rightarrow> e\<lparr>be_run := b, be_running := be_running e @ [(sk, it)]\<rparr>)"

definition exec_finish :: "outcome option \<Rightarrow> 't batch_exec \<Rightarrow> 't batch_exec" where
  "exec_finish res e = (case be_running e of [] \<Rightarrow> e
     | (sk, it) # rest \<Rightarrow> e\<lparr>be_run := batch_finish sk res (be_run e), be_running := rest, be_log := be_log e @ [(sk, it, res)]\<rparr>)"

lemma exec_start_steps: "(batch_step conc)\<^sup>*\<^sup>* e (exec_start conc e)"
  by (auto simp: exec_start_def split: option.split intro!: r_into_rtranclp batch_step.start)

lemma exec_finish_steps: "(batch_step conc)\<^sup>*\<^sup>* e (exec_finish res e)"
proof (cases "be_running e")
  case (Cons x rest)
  then show ?thesis using batch_step.finish [of "fst x" "snd x" e conc res]
    by (cases x) (auto simp: exec_finish_def intro!: r_into_rtranclp)
qed (simp add: exec_finish_def)

text \<open>Two items of one key; the first one fails, and the second is not started.\<close>

definition demo_item :: "nat \<Rightarrow> nat item" where
  "demo_item n = \<lparr>it_Key = [], it_Value = n, it_Deadline = 100\<rparr>"

definition demo_bt :: "nat batch" where
  "demo_bt = \<lparr>ba_Key = [], ba_Items = [demo_item 1, demo_item 2]\<rparr>"

definition demo_key :: "(nat \<Rightarrow> string) option" where
  "demo_key = Some (\<lambda>_. ''k'')"

definition demo_exec :: "nat batch_exec" where
  "demo_exec = exec_start 1 (exec_finish (Some \<lparr>oc_Kind = Out_Failed, oc_Until = 0, oc_Err = Some (NewError ''boom'')\<rparr>)
     (exec_start 1 (exec_init demo_key demo_bt)))"

lemma demo_exec_steps: "(batch_step 1)\<^sup>*\<^sup>* (exec_init demo_key demo_bt) demo_exec"
  unfolding demo_exec_def by (meson exec_start_steps exec_finish_steps rtranclp_trans)

theorem ordering_key_kept_witness:
  "prefix (started demo_exec ''k'') (key_items demo_key (ba_Items demo_bt) ''k'') \<and> map it_Value (started demo_exec ''k'') = [1]
   \<and> map it_Value (key_items demo_key (ba_Items demo_bt) ''k'') = [1, 2]"
proof -
  have "map it_Value (started demo_exec ''k'') = [1]" "map it_Value (key_items demo_key (ba_Items demo_bt) ''k'') = [1, 2]"
    by code_simp+
  then show ?thesis using ordering_key_kept [OF demo_exec_steps, of "''k''"] by simp
qed

theorem batch_ends_with_summary_witness:
  "\<exists>n. (batch_step 1 ^^ n) (exec_init demo_key demo_bt) demo_exec \<and> n \<le> 4"
proof -
  obtain n where n: "(batch_step 1 ^^ n) (exec_init demo_key demo_bt) demo_exec"
    using rtranclp_imp_relpowp [OF demo_exec_steps] by blast
  with batch_ends_with_summary [OF n] have "n \<le> 4" by (simp add: demo_bt_def)
  with n show ?thesis by blast
qed

end
