(* ===== verification/Auto_Runner.thy ===== *)
theory Auto_Runner
  imports Auto_Batch
begin

text \<open>
  The runner of an automation (the rest of \<open>automation/automation.go\<close>). The runner works against its \<open>Store\<close>,
  its \<open>Scheduler\<close> and its dependencies: the record \<open>auto_ops\<close>, whose operations work on a world of type \<open>'x\<close>
  and may include what other goroutines and instances do. \<open>Run\<close> and \<open>RunOnce\<close> start each batch in a goroutine
  of its own; what those share with the loop is the \<open>flight\<close>, so both are transition systems whose steps are
  the parts of a turn between two looks at the flight, and the end of a batch.
\<close>

section \<open>Definition and construction\<close>

record 'x dependency =
  dp_Name :: string
  dp_IsLive :: "'x \<Rightarrow> 'x \<times> (go_error + bool)"

text \<open>
  Of the fields that hold interfaces and functions only whether they are set is kept here, their behaviour is
  in the operations; \<open>ad_TodoList\<close> says whether the list is there and, if so, its segmenter.
\<close>

record ('t, 'x) automation_def =
  ad_Name :: string
  ad_TodoList :: "segmenter option option"
  ad_Projection :: "'x dependency option"
  ad_hasStore :: bool
  ad_hasScheduler :: bool
  ad_hasWork :: bool
  ad_OrderingKey :: "('t \<Rightarrow> string) option"
  ad_WaitFor :: "'x dependency list"
  ad_Concurrency :: int
  ad_MaxSegments :: int
  ad_BatchSize :: int
  ad_Lease :: duration
  ad_PollInterval :: duration

record ('t, 'x) auto_runner =
  an_d :: "('t, 'x) automation_def"
  an_owner :: string
  an_sched :: "claim_scheduler option"
  an_waitFor :: "'x dependency list"
  an_nudge :: bool
  an_status :: auto_status
  an_published :: auto_status
  an_publishedAt :: gotime

definition auto_DefaultBatchSize :: int where "auto_DefaultBatchSize = 10"
definition DefaultLease :: duration where "DefaultLease = 60000000000"
definition auto_DefaultPollInterval :: duration where "auto_DefaultPollInterval = 5000000000"
definition DefaultConcurrency :: int where "DefaultConcurrency = 1"
definition DefaultMaxSegments :: int where "DefaultMaxSegments = 32"
definition publishEvery :: duration where "publishEvery = 1000000000"

definition zero_auto_status :: auto_status where
  "zero_auto_status = \<lparr>au_Owner = [], au_Phase = AStarting, au_WaitingFor = [], au_Processed = 0, au_Failed = 0, au_Deferred = 0,
     au_LastError = [], au_Age = 0\<rparr>"

definition auto_defaults :: "('t, 'x) automation_def \<Rightarrow> ('t, 'x) automation_def" where
  "auto_defaults d =
     (let d = (if ad_BatchSize d \<le> 0 then d\<lparr>ad_BatchSize := auto_DefaultBatchSize\<rparr> else d);
          d = (if ad_Lease d \<le> 0 then d\<lparr>ad_Lease := DefaultLease\<rparr> else d);
          d = (if ad_PollInterval d \<le> 0 then d\<lparr>ad_PollInterval := auto_DefaultPollInterval\<rparr> else d);
          d = (if ad_Concurrency d \<le> 0 then d\<lparr>ad_Concurrency := DefaultConcurrency\<rparr> else d)
      in if ad_MaxSegments d \<le> 0 then d\<lparr>ad_MaxSegments := DefaultMaxSegments\<rparr> else d)"

text \<open>The panics keep the text after the automation's name; \<open>owner\<close> is the new UUID.\<close>

definition auto_NewRunner :: "string \<Rightarrow> ('t, 'x) automation_def \<Rightarrow> ('t, 'x) auto_runner panics" where
  "auto_NewRunner owner d =
     (if ad_Name d = [] then Inl ''automation: Definition.Name is required''
      else case ad_Projection d of
        None \<Rightarrow> Inl ''Projection is required''
      | Some p \<Rightarrow>
          if \<not> ad_hasWork d then Inl ''Work is required''
          else if \<not> ad_hasScheduler d \<and> ad_TodoList d = None then Inl ''TodoList or Scheduler is required''
          else if ad_hasScheduler d \<and> (ad_TodoList d \<noteq> None \<or> ad_hasStore d) then Inl ''Scheduler excludes TodoList and Store''
          else if ad_TodoList d \<noteq> None \<and> \<not> ad_hasStore d then Inl ''Store is required with TodoList''
          else let d = auto_defaults d in
            Inr \<lparr>an_d = d, an_owner = owner,
                 an_sched = (if ad_hasScheduler d then None
                    else Some (newClaimScheduler (ad_Name d) (case ad_TodoList d of None \<Rightarrow> None | Some seg \<Rightarrow> seg) (ad_Lease d)
                                 (ad_PollInterval d) (ad_BatchSize d) (ad_MaxSegments d) owner)),
                 an_waitFor = p # ad_WaitFor d, an_nudge = False, an_status = zero_auto_status,
                 an_published = zero_auto_status, an_publishedAt = 0\<rparr>)"

definition auto_Name :: "('t, 'x) auto_runner \<Rightarrow> string" where
  "auto_Name r = ad_Name (an_d r)"

definition auto_Status :: "('t, 'x) auto_runner \<Rightarrow> auto_status" where
  "auto_Status r = (an_status r)\<lparr>au_Owner := an_owner r\<rparr>"

definition auto_Nudge :: "('t, 'x) auto_runner \<Rightarrow> ('t, 'x) auto_runner" where
  "auto_Nudge r = r\<lparr>an_nudge := True\<rparr>"

definition auto_setPhase :: "auto_phase \<Rightarrow> string \<Rightarrow> ('t, 'x) auto_runner \<Rightarrow> ('t, 'x) auto_runner" where
  "auto_setPhase p lastErr r =
     (let st = (an_status r)\<lparr>au_Phase := p, au_WaitingFor := []\<rparr>
      in r\<lparr>an_status := (if lastErr \<noteq> [] then st\<lparr>au_LastError := lastErr\<rparr> else st)\<rparr>)"

definition setWaiting :: "string \<Rightarrow> ('t, 'x) auto_runner \<Rightarrow> ('t, 'x) auto_runner" where
  "setWaiting dep r = r\<lparr>an_status := (an_status r)\<lparr>au_Phase := AWaiting, au_WaitingFor := dep\<rparr>\<rparr>"

section \<open>What the loops call\<close>

record ('t, 'x) auto_ops =
  ao_now :: "'x \<Rightarrow> 'x \<times> gotime"
  ao_ctxErr :: "'x \<Rightarrow> go_error option"
  ao_text :: "go_error \<Rightarrow> string"
  ao_Paused :: "string \<Rightarrow> 'x \<Rightarrow> 'x \<times> (go_error + bool)"
  ao_SaveStatus :: "string \<Rightarrow> auto_status \<Rightarrow> duration \<Rightarrow> 'x \<Rightarrow> 'x \<times> go_error option"
  ao_Next :: "'x \<Rightarrow> 'x \<times> (go_error + 't batch list)"
  ao_Drained :: "string \<Rightarrow> 'x \<Rightarrow> 'x \<times> go_error option"
  ao_Close :: "'x \<Rightarrow> 'x \<times> go_error option"
  ao_wait :: "duration \<Rightarrow> 'x \<Rightarrow> 'x"
  ao_stallWait :: "'x \<Rightarrow> 'x"
  ao_resetBackOff :: "'x \<Rightarrow> 'x"

type_synonym ('t, 'x) ax = "('t, 'x) auto_runner \<times> 'x"

definition writeStatus :: "('t, 'x) auto_ops \<Rightarrow> auto_status \<Rightarrow> ('t, 'x) ax \<Rightarrow> ('t, 'x) ax" where
  "writeStatus A st = (\<lambda>(r, x).
     let ttl = 3 * max (ad_PollInterval (an_d r)) publishEvery in
     case ao_SaveStatus A (ad_Name (an_d r)) st ttl x of
       (x, Some err) \<Rightarrow> (r, x)
     | (x, None) \<Rightarrow> (case ao_now A x of (x, now) \<Rightarrow> (r\<lparr>an_published := st, an_publishedAt := now\<rparr>, x)))"

definition auto_saveStatus :: "('t, 'x) auto_ops \<Rightarrow> ('t, 'x) ax \<Rightarrow> ('t, 'x) ax" where
  "auto_saveStatus A = (\<lambda>(r, x).
     if \<not> ad_hasStore (an_d r) then (r, x)
     else let st = auto_Status r in
       (case (if au_Phase st = au_Phase (an_published r) \<and> au_WaitingFor st = au_WaitingFor (an_published r)
              then apsnd (\<lambda>now. time_Sub now (an_publishedAt r) < publishEvery) (ao_now A x) else (x, False)) of
          (x, True) \<Rightarrow> (r, x)
        | (x, False) \<Rightarrow> writeStatus A st (r, x)))"

definition saveStatusNow :: "('t, 'x) auto_ops \<Rightarrow> ('t, 'x) ax \<Rightarrow> ('t, 'x) ax" where
  "saveStatusNow A = (\<lambda>(r, x). if ad_hasStore (an_d r) then writeStatus A (auto_Status r) (r, x) else (r, x))"

definition auto_paused :: "('t, 'x) auto_ops \<Rightarrow> ('t, 'x) auto_runner \<Rightarrow> 'x \<Rightarrow> 'x \<times> (go_error + bool)" where
  "auto_paused A r x = (if \<not> ad_hasStore (an_d r) then (x, Inr False) else ao_Paused A (ad_Name (an_d r)) x)"

text \<open>The first dependency that is not live, with the error of one that could not be checked.\<close>

fun notLive :: "'x dependency list \<Rightarrow> 'x \<Rightarrow> 'x \<times> string \<times> go_error option" where
  "notLive [] x = (x, [], None)"
| "notLive (dep # deps) x =
     (case dp_IsLive dep x of
        (x, Inl err) \<Rightarrow> (x, dp_Name dep, Some err)
      | (x, Inr live) \<Rightarrow> if \<not> live then (x, dp_Name dep, None) else notLive deps x)"

definition closeScheduler :: "('t, 'x) auto_ops \<Rightarrow> 'x \<Rightarrow> 'x" where
  "closeScheduler A x = fst (ao_Close A x)"

definition auto_stall :: "('t, 'x) auto_ops \<Rightarrow> go_error \<Rightarrow> ('t, 'x) ax \<Rightarrow> ('t, 'x) ax" where
  "auto_stall A err = (\<lambda>(r, x). (auto_setPhase AStalled (ao_text A err) r, ao_stallWait A x))"

text \<open>Waiting for the poll interval, a nudge or the end of the context; a pending nudge is taken.\<close>

definition auto_wait :: "('t, 'x) auto_ops \<Rightarrow> ('t, 'x) ax \<Rightarrow> ('t, 'x) ax" where
  "auto_wait A = (\<lambda>(r, x). (r\<lparr>an_nudge := False\<rparr>, ao_wait A (ad_PollInterval (an_d r)) x))"

section \<open>The flight\<close>

record 't flight =
  fl_active :: nat
  fl_drained :: uint64
  fl_sum :: summary
  fl_running :: "'t batch list"

definition new_flight :: "'t flight" where
  "new_flight = \<lparr>fl_active = 0, fl_drained = 0, fl_sum = zero_summary, fl_running = []\<rparr>"

definition start_batch :: "'t batch \<Rightarrow> 't flight \<Rightarrow> 't flight" where
  "start_batch b f = f\<lparr>fl_active := fl_active f + 1, fl_running := fl_running f @ [b]\<rparr>"

text \<open>The end of a batch's goroutine: the scheduler hears of it, the flight counts it, the runner is nudged.\<close>

definition finish_batch :: "('t, 'x) auto_ops \<Rightarrow> 't batch \<Rightarrow> summary \<Rightarrow> 't flight \<Rightarrow> ('t, 'x) ax \<Rightarrow> 't flight \<times> ('t, 'x) ax" where
  "finish_batch A b s f = (\<lambda>(r, x).
     (f\<lparr>fl_active := fl_active f - 1, fl_drained := fl_drained f + 1, fl_sum := summary_add (fl_sum f) s,
        fl_running := remove1 b (fl_running f)\<rparr>,
      auto_Nudge r, fst (ao_Drained A (ba_Key b) x)))"

section \<open>RunOnce\<close>

datatype 't once_pc =
    OTop
  | OAsk uint64
  | OCheck uint64
  | OWait "go_error option"
  | OReturned summary "go_error option"

definition once_top :: "('t, 'x) auto_ops \<Rightarrow> 't flight \<Rightarrow> ('t, 'x) ax \<Rightarrow> ('t, 'x) ax \<times> 't once_pc" where
  "once_top A f = (\<lambda>(r, x).
     case ao_ctxErr A x of
       Some err \<Rightarrow> ((r, x), OWait (Some err))
     | None \<Rightarrow>
         (case auto_saveStatus A (r, x) of (r, x) \<Rightarrow>
         (case auto_paused A r x of
            (x, Inl err) \<Rightarrow> ((auto_setPhase AStalled (ao_text A err) r, x), OWait (Some (Errorf ''check pause'' [err])))
          | (x, Inr True) \<Rightarrow> ((auto_setPhase APaused [] r, x), OWait None)
          | (x, Inr False) \<Rightarrow>
              (case notLive (an_waitFor r) x of
                 (x, dep, Some err) \<Rightarrow> ((auto_setPhase AStalled (ao_text A err) r, x), OWait (Some (Errorf (''check '' @ dep) [err])))
               | (x, dep, None) \<Rightarrow>
                   if dep \<noteq> [] then (auto_wait A (setWaiting dep r, x), OTop)
                   else ((r, x), OAsk (fl_drained f))))))"

definition once_ask :: "('t, 'x) auto_ops \<Rightarrow> uint64 \<Rightarrow> 't flight \<Rightarrow> ('t, 'x) ax \<Rightarrow> 't flight \<times> ('t, 'x) ax \<times> 't once_pc" where
  "once_ask A drained f = (\<lambda>(r, x).
     case ao_Next A x of
       (x, Inl err) \<Rightarrow> (f, (auto_setPhase AStalled (ao_text A err) r, x), OWait (Some (Errorf ''schedule'' [err])))
     | (x, Inr batches) \<Rightarrow>
         let f = fold start_batch batches f in
         if batches \<noteq> [] then (f, (auto_setPhase AWorking [] r, x), OTop) else (f, (r, x), OCheck drained))"

definition once_check :: "('t, 'x) auto_ops \<Rightarrow> uint64 \<Rightarrow> 't flight \<Rightarrow> ('t, 'x) ax \<Rightarrow> ('t, 'x) ax \<times> 't once_pc" where
  "once_check A drained f = (\<lambda>(r, x).
     if fl_active f = 0 \<and> fl_drained f = drained then ((auto_setPhase AIdle [] r, x), OWait None)
     else (auto_wait A (r, x), OTop))"

text \<open>The deferred calls, once every batch has ended: the status is written, then the scheduler is closed.\<close>

definition once_return :: "('t, 'x) auto_ops \<Rightarrow> ('t, 'x) ax \<Rightarrow> ('t, 'x) ax" where
  "once_return A rx = (case saveStatusNow A rx of (r, x) \<Rightarrow> (r, closeScheduler A x))"

section \<open>Run\<close>

datatype run_pc = RTop bool | RWait | RReturned

text \<open>One turn of \<open>Run\<close>; the flag of \<open>RTop\<close> says that the segments were given back for a pause.\<close>

definition run_turn :: "('t, 'x) auto_ops \<Rightarrow> bool \<Rightarrow> 't flight \<Rightarrow> ('t, 'x) ax \<Rightarrow> 't flight \<times> ('t, 'x) ax \<times> run_pc" where
  "run_turn A released f = (\<lambda>(r, x).
     if ao_ctxErr A x \<noteq> None then (f, (r, x), RWait)
     else
       (case auto_saveStatus A (r, x) of (r, x) \<Rightarrow>
       (case auto_paused A r x of
          (x, Inl err) \<Rightarrow> (f, auto_stall A (Errorf ''check pause'' [err]) (r, x), RTop released)
        | (x, Inr True) \<Rightarrow>
            let r = auto_setPhase APaused [] r;
                close = (\<not> released \<and> fl_active f = 0);
                x = (if close then closeScheduler A x else x)
            in (f, auto_wait A (r, x), RTop (released \<or> close))
        | (x, Inr False) \<Rightarrow>
            (case notLive (an_waitFor r) x of
               (x, dep, Some err) \<Rightarrow> (f, auto_stall A (Errorf (''check '' @ dep) [err]) (r, x), RTop False)
             | (x, dep, None) \<Rightarrow>
                 if dep \<noteq> [] then (f, auto_wait A (setWaiting dep r, x), RTop False)
                 else (case ao_Next A x of
                     (x, Inl err) \<Rightarrow>
                       if ao_ctxErr A x \<noteq> None then (f, (r, x), RWait)
                       else (f, auto_stall A (Errorf ''schedule'' [err]) (r, x), RTop False)
                   | (x, Inr batches) \<Rightarrow>
                       let x = ao_resetBackOff A x; f = fold start_batch batches f in
                       if batches \<noteq> [] then (f, (auto_setPhase AWorking [] r, x), RTop False)
                       else if fl_active f > 0 then (f, auto_wait A (auto_setPhase AWorking [] r, x), RTop False)
                       else (f, auto_wait A (auto_setPhase AIdle [] r, x), RTop False))))))"

end
