(* ===== verification/Auto_Runner_Props.thy ===== *)
theory Auto_Runner_Props
  imports Auto_Runner
begin

text \<open>
  \<open>RunOnce\<close> and \<open>Run\<close> as transition systems, with the batches ending at any time; what holds when they return;
  and what \<open>NewRunner\<close> accepts.
\<close>

section \<open>Construction\<close>

definition well_wired :: "('t, 'x) automation_def \<Rightarrow> bool" where
  "well_wired d \<longleftrightarrow> ad_Name d \<noteq> [] \<and> ad_Projection d \<noteq> None \<and> ad_hasWork d
     \<and> (if ad_hasScheduler d then ad_TodoList d = None \<and> \<not> ad_hasStore d else ad_TodoList d \<noteq> None \<and> ad_hasStore d)"

lemma auto_defaults_positive:
  "0 < ad_BatchSize (auto_defaults d)" "0 < ad_Lease (auto_defaults d)" "0 < ad_PollInterval (auto_defaults d)"
  "0 < ad_Concurrency (auto_defaults d)" "0 < ad_MaxSegments (auto_defaults d)"
  by (simp_all add: auto_defaults_def Let_def auto_DefaultBatchSize_def DefaultLease_def auto_DefaultPollInterval_def
      DefaultConcurrency_def DefaultMaxSegments_def)

lemma auto_defaults_same:
  "ad_Name (auto_defaults d) = ad_Name d" "ad_TodoList (auto_defaults d) = ad_TodoList d" "ad_WaitFor (auto_defaults d) = ad_WaitFor d"
  "ad_hasScheduler (auto_defaults d) = ad_hasScheduler d" "ad_hasStore (auto_defaults d) = ad_hasStore d"
  by (simp_all add: auto_defaults_def Let_def)

text \<open>
  \<open>NewRunner\<close> panics exactly on the wiring mistakes it documents. Otherwise every tuning value is positive, the
  projection is the first dependency, and an automation with a todo list has the default scheduler, which holds
  nothing, may hold at least one segment, and leases segments for longer than the items it claims.
\<close>

theorem new_runner_wired:
  "(case auto_NewRunner owner d of
      Inl _ \<Rightarrow> \<not> well_wired d
    | Inr r \<Rightarrow> well_wired d \<and> 0 < ad_BatchSize (an_d r) \<and> 0 < ad_Lease (an_d r) \<and> 0 < ad_PollInterval (an_d r)
        \<and> 0 < ad_Concurrency (an_d r) \<and> an_waitFor r = the (ad_Projection d) # ad_WaitFor d
        \<and> (case an_sched r of
             None \<Rightarrow> ad_hasScheduler d
           | Some s \<Rightarrow> ad_TodoList d = Some (cs_segmenter s) \<and> cs_owner s = owner \<and> cs_held s = [] \<and> 0 < cs_maxSegments s
               \<and> cs_lease s = ad_Lease (an_d r) \<and> cs_lease s < cs_ttl s))"
  using auto_defaults_positive [of d]
  by (auto simp: auto_NewRunner_def well_wired_def Let_def auto_defaults_same newClaimScheduler_def split: option.splits)

section \<open>RunOnce\<close>

text \<open>
  The state of a \<open>RunOnce\<close>; the last four fields only record: the batches started, those that ended with their
  summaries, how many were running and how many had ended when the scheduler was last asked, and its answer.
\<close>

record ('t, 'x) once_state =
  os_pc :: "'t once_pc"
  os_flight :: "'t flight"
  os_ax :: "('t, 'x) ax"
  os_started :: "'t batch list"
  os_log :: "('t batch \<times> summary) list"
  os_asked :: "nat \<times> nat"
  os_answer :: "'t batch list"

definition answered :: "go_error + 't batch list \<Rightarrow> 't batch list" where
  "answered r = (case r of Inl _ \<Rightarrow> [] | Inr bs \<Rightarrow> bs)"

inductive once_step :: "('t, 'x) auto_ops \<Rightarrow> ('t, 'x) once_state \<Rightarrow> ('t, 'x) once_state \<Rightarrow> bool" for A where
  top_: "os_pc s = OTop \<Longrightarrow> once_top A (os_flight s) (os_ax s) = (ax, pc) \<Longrightarrow> once_step A s (s\<lparr>os_ax := ax, os_pc := pc\<rparr>)"
| ask: "os_pc s = OAsk d \<Longrightarrow> once_ask A d (os_flight s) (os_ax s) = (f, ax, pc) \<Longrightarrow>
     bs = answered (snd (ao_Next A (snd (os_ax s)))) \<Longrightarrow>
     once_step A s (s\<lparr>os_flight := f, os_ax := ax, os_pc := pc, os_started := os_started s @ bs,
                      os_asked := (fl_active (os_flight s), fl_drained (os_flight s)), os_answer := bs\<rparr>)"
| check: "os_pc s = OCheck d \<Longrightarrow> once_check A d (os_flight s) (os_ax s) = (ax, pc) \<Longrightarrow> once_step A s (s\<lparr>os_ax := ax, os_pc := pc\<rparr>)"
| batch_end: "b \<in> set (fl_running (os_flight s)) \<Longrightarrow> finish_batch A b sm (os_flight s) (os_ax s) = (f, ax) \<Longrightarrow>
     once_step A s (s\<lparr>os_flight := f, os_ax := ax, os_log := os_log s @ [(b, sm)]\<rparr>)"
| ret: "os_pc s = OWait e \<Longrightarrow> fl_running (os_flight s) = [] \<Longrightarrow>
     once_step A s (s\<lparr>os_ax := once_return A (os_ax s), os_pc := OReturned (fl_sum (os_flight s)) e\<rparr>)"

definition once_init :: "('t, 'x) ax \<Rightarrow> ('t, 'x) once_state" where
  "once_init ax = \<lparr>os_pc = OTop, os_flight = new_flight, os_ax = ax, os_started = [], os_log = [], os_asked = (0, 0), os_answer = []\<rparr>"

definition phase_of :: "('t, 'x) once_state \<Rightarrow> auto_phase" where
  "phase_of s = au_Phase (an_status (fst (os_ax s)))"

text \<open>What the counters of a flight say about its batches.\<close>

definition flight_ok :: "'t flight \<Rightarrow> 't batch list \<Rightarrow> ('t batch \<times> summary) list \<Rightarrow> bool" where
  "flight_ok f started log \<longleftrightarrow> fl_active f = length (fl_running f) \<and> fl_drained f = length log
     \<and> fl_sum f = foldl summary_add zero_summary (map snd log) \<and> mset started = mset (map fst log) + mset (fl_running f)"

lemma fold_start_batch:
  "fold start_batch bs f = f\<lparr>fl_active := fl_active f + length bs, fl_running := fl_running f @ bs\<rparr>"
  by (induction bs arbitrary: f) (simp_all add: start_batch_def)

lemma flight_ok_start: "flight_ok f started log \<Longrightarrow> flight_ok (fold start_batch bs f) (started @ bs) log"
  by (simp add: flight_ok_def fold_start_batch)

lemma flight_ok_finish:
  assumes "flight_ok f started log" "b \<in> set (fl_running f)" "finish_batch A b sm f ax = (f', ax')"
  shows "flight_ok f' started (log @ [(b, sm)])" "fl_active f' + 1 = fl_active f" "fl_drained f' = fl_drained f + 1"
    "an_status (fst ax') = an_status (fst ax)"
proof -
  obtain r x where ax: "ax = (r, x)" by (cases ax)
  have ne: "0 < length (fl_running f)" using assms(2) by auto
  have "mset (fl_running f) = add_mset b (mset (remove1 b (fl_running f)))" using assms(2) by simp
  then show "flight_ok f' started (log @ [(b, sm)])"
    using assms ne by (auto simp: flight_ok_def finish_batch_def ax length_remove1)
  show "fl_active f' + 1 = fl_active f" using assms ne by (auto simp: flight_ok_def finish_batch_def ax)
  show "fl_drained f' = fl_drained f + 1" using assms(3) by (auto simp: finish_batch_def ax)
  show "an_status (fst ax') = an_status (fst ax)" using assms(3) by (auto simp: finish_batch_def ax auto_Nudge_def)
qed

lemma once_ask_flight:
  assumes "once_ask A d f ax = (f', ax', pc)" "bs = answered (snd (ao_Next A (snd ax)))"
  shows "f' = fold start_batch bs f" "pc = OCheck d \<and> bs = [] \<or> pc = OTop \<or> (\<exists>err. pc = OWait (Some err))"
proof -
  obtain r x where ax: "ax = (r, x)" by (cases ax)
  obtain x1 res where n: "ao_Next A x = (x1, res)" by (cases "ao_Next A x")
  have bs: "bs = answered res" using assms(2) n by (simp add: ax)
  show "f' = fold start_batch bs f" "pc = OCheck d \<and> bs = [] \<or> pc = OTop \<or> (\<exists>err. pc = OWait (Some err))"
    using assms(1) by (cases res; cases "bs = []"; auto simp: once_ask_def ax n bs answered_def Let_def)+
qed

lemma auto_setPhase_phase [simp]: "au_Phase (an_status (auto_setPhase p e r)) = p"
  by (simp add: auto_setPhase_def Let_def)

lemma saveStatus_status:
  "an_status (fst (writeStatus A st ax)) = an_status (fst ax)" "an_status (fst (auto_saveStatus A ax)) = an_status (fst ax)"
  "an_status (fst (saveStatusNow A ax)) = an_status (fst ax)"
proof -
  show w: "an_status (fst (writeStatus A st ax)) = an_status (fst ax)" for st ax
    by (auto simp: writeStatus_def Let_def split: prod.split option.split)
  show "an_status (fst (auto_saveStatus A ax)) = an_status (fst ax)"
    by (auto simp: auto_saveStatus_def Let_def w split: prod.split bool.split)
  show "an_status (fst (saveStatusNow A ax)) = an_status (fst ax)" by (auto simp: saveStatusNow_def w split: prod.split)
qed

lemma once_top_pc:
  assumes "once_top A f ax = (ax', pc)"
  shows "pc = OTop \<or> pc = OAsk (fl_drained f) \<or> (\<exists>err. pc = OWait (Some err)) \<or> pc = OWait None \<and> au_Phase (an_status (fst ax')) = APaused"
proof -
  obtain r x where ax: "ax = (r, x)" by (cases ax)
  show ?thesis
  proof (cases "ao_ctxErr A x")
    case (Some err)
    then show ?thesis using assms by (auto simp: once_top_def ax)
  next
    case None
    obtain r1 x1 where s: "auto_saveStatus A (r, x) = (r1, x1)" by (cases "auto_saveStatus A (r, x)")
    obtain x2 p where p: "auto_paused A r1 x1 = (x2, p)" by (cases "auto_paused A r1 x1")
    obtain x3 dep e where n: "notLive (an_waitFor r1) x2 = (x3, dep, e)" by (cases "notLive (an_waitFor r1) x2") auto
    note eq = assms [unfolded once_top_def ax prod.case None option.case s p]
    show ?thesis
      using eq n by (cases p; cases "\<exists>err. p = Inl err"; cases e; cases "p = Inr True"; cases "dep = []") (auto split: bool.splits)
  qed
qed

definition once_inv :: "('t, 'x) once_state \<Rightarrow> bool" where
  "once_inv s \<longleftrightarrow> flight_ok (os_flight s) (os_started s) (os_log s)
     \<and> (case os_pc s of
          OTop \<Rightarrow> True
        | OAsk d \<Rightarrow> d \<le> fl_drained (os_flight s)
        | OCheck d \<Rightarrow> fst (os_asked s) + snd (os_asked s) = fl_active (os_flight s) + fl_drained (os_flight s)
            \<and> d \<le> snd (os_asked s) \<and> snd (os_asked s) \<le> fl_drained (os_flight s) \<and> os_answer s = []
        | OWait e \<Rightarrow> e = None \<longrightarrow> phase_of s = APaused \<or> phase_of s = AIdle \<and> fst (os_asked s) = 0 \<and> os_answer s = []
        | OReturned tot e \<Rightarrow> fl_running (os_flight s) = [] \<and> tot = fl_sum (os_flight s)
            \<and> (e = None \<longrightarrow> phase_of s = APaused \<or> phase_of s = AIdle \<and> fst (os_asked s) = 0 \<and> os_answer s = []))"

lemma once_inv_step:
  assumes "once_inv s" "once_step A s s'"
  shows "once_inv s'"
proof -
  have ok: "flight_ok (os_flight s) (os_started s) (os_log s)" using assms(1) by (simp add: once_inv_def)
  from assms(2) show ?thesis
  proof cases
    case (top_ ax pc)
    from once_top_pc [OF top_(3)] show ?thesis using ok top_ by (auto simp: once_inv_def phase_of_def)
  next
    case (ask d f ax pc bs)
    note F = once_ask_flight [OF ask(3,4)]
    have d: "d \<le> fl_drained (os_flight s)" using assms(1) ask(2) by (simp add: once_inv_def)
    have "flight_ok f (os_started s @ bs) (os_log s)" unfolding F(1) by (rule flight_ok_start [OF ok])
    then show ?thesis using F d ask by (auto simp: once_inv_def fold_start_batch)
  next
    case (check d ax pc)
    have I: "fst (os_asked s) + snd (os_asked s) = fl_active (os_flight s) + fl_drained (os_flight s)"
      "d \<le> snd (os_asked s)" "snd (os_asked s) \<le> fl_drained (os_flight s)" "os_answer s = []"
      using assms(1) check(2) by (simp_all add: once_inv_def)
    obtain r x where ax: "os_ax s = (r, x)" by (cases "os_ax s")
    show ?thesis
    proof (cases "fl_active (os_flight s) = 0 \<and> fl_drained (os_flight s) = d")
      case True
      then have "fst (os_asked s) = 0" using I by simp
      then show ?thesis using ok check ax True I(4) by (auto simp: once_inv_def once_check_def phase_of_def)
    next
      case False
      then have "pc = OTop" using check(3) ax by (auto simp: once_check_def)
      then show ?thesis using ok check by (simp add: once_inv_def)
    qed
  next
    case (batch_end b sm f ax)
    note F = flight_ok_finish [OF ok batch_end(2,3)]
    have ph: "phase_of s' = phase_of s" using F(4) batch_end(1) by (simp add: phase_of_def)
    have ne: "fl_running (os_flight s) \<noteq> []" using batch_end(2) by auto
    have I: "case os_pc s of OTop \<Rightarrow> True | OAsk d \<Rightarrow> d \<le> fl_drained (os_flight s)
        | OCheck d \<Rightarrow> fst (os_asked s) + snd (os_asked s) = fl_active (os_flight s) + fl_drained (os_flight s)
            \<and> d \<le> snd (os_asked s) \<and> snd (os_asked s) \<le> fl_drained (os_flight s) \<and> os_answer s = []
        | OWait e \<Rightarrow> e = None \<longrightarrow> phase_of s = APaused \<or> phase_of s = AIdle \<and> fst (os_asked s) = 0 \<and> os_answer s = []
        | OReturned tot e \<Rightarrow> False"
      using assms(1) ne by (auto simp: once_inv_def split: once_pc.splits)
    have "flight_ok f (os_started s) (os_log s @ [(b, sm)])" by (rule F(1))
    then show ?thesis
      using I ph F(2,3) batch_end(1) by (cases "os_pc s") (auto simp: once_inv_def)
  next
    case (ret e)
    have "an_status (fst (once_return A (os_ax s))) = an_status (fst (os_ax s))"
      by (auto simp: once_return_def split: prod.split) (metis fst_conv saveStatus_status(3))
    then have "phase_of s' = phase_of s" using ret(1) by (simp add: phase_of_def)
    then show ?thesis using assms(1) ret by (auto simp: once_inv_def)
  qed
qed

lemma once_inv_init: "once_inv (once_init ax)"
  by (simp add: once_inv_def once_init_def flight_ok_def new_flight_def)

text \<open>
  (C21) \<open>RunOnce\<close> is complete when it returns, however its batches end in between. Every batch it started has ended,
  and the summary it returns is the sum of theirs, in the order they ended. If it returns without an error and
  was not paused, it is idle: when it last asked the scheduler for work no batch was running, so none could
  leave more work behind, and there was none.
\<close>

theorem run_once_complete:
  assumes "(once_step A)\<^sup>*\<^sup>* (once_init ax) s" "os_pc s = OReturned tot e"
  shows "mset (os_started s) = mset (map fst (os_log s)) \<and> tot = foldl summary_add zero_summary (map snd (os_log s))
    \<and> (e = None \<and> phase_of s \<noteq> APaused \<longrightarrow> phase_of s = AIdle \<and> fst (os_asked s) = 0 \<and> os_answer s = [])"
proof -
  have "once_inv s" using assms(1)
    by (induction rule: rtranclp_induct) (auto intro: once_inv_init once_inv_step)
  then show ?thesis using assms(2) by (auto simp: once_inv_def flight_ok_def)
qed

section \<open>Run\<close>

record ('t, 'x) run_state =
  rs_pc :: run_pc
  rs_flight :: "'t flight"
  rs_ax :: "('t, 'x) ax"
  rs_started :: "'t batch list"
  rs_log :: "('t batch \<times> summary) list"
  rs_closed :: bool \<comment> \<open>the scheduler was closed and has not been asked for work since\<close>

text \<open>Whether a turn of \<open>Run\<close> asks the scheduler, in which world, and what it answers.\<close>

definition turn_world :: "('t, 'x) auto_ops \<Rightarrow> ('t, 'x) ax \<Rightarrow> 'x option" where
  "turn_world A = (\<lambda>(r, x).
     if ao_ctxErr A x \<noteq> None then None
     else case auto_saveStatus A (r, x) of (r, x) \<Rightarrow> (case auto_paused A r x of
         (x, Inr False) \<Rightarrow> (case notLive (an_waitFor r) x of (x, dep, e) \<Rightarrow> if e = None \<and> dep = [] then Some x else None)
       | _ \<Rightarrow> None))"

definition turn_batches :: "('t, 'x) auto_ops \<Rightarrow> ('t, 'x) ax \<Rightarrow> 't batch list" where
  "turn_batches A ax = (case turn_world A ax of None \<Rightarrow> [] | Some x \<Rightarrow> answered (snd (ao_Next A x)))"

inductive run_step :: "('t, 'x) auto_ops \<Rightarrow> ('t, 'x) run_state \<Rightarrow> ('t, 'x) run_state \<Rightarrow> bool" for A where
  turn: "rs_pc s = RTop released \<Longrightarrow> run_turn A released (rs_flight s) (rs_ax s) = (f, ax, pc) \<Longrightarrow>
     run_step A s (s\<lparr>rs_flight := f, rs_ax := ax, rs_pc := pc, rs_started := rs_started s @ turn_batches A (rs_ax s),
                     rs_closed := (pc = RTop True)\<rparr>)"
| batch_end: "b \<in> set (fl_running (rs_flight s)) \<Longrightarrow> finish_batch A b sm (rs_flight s) (rs_ax s) = (f, ax) \<Longrightarrow>
     run_step A s (s\<lparr>rs_flight := f, rs_ax := ax, rs_log := rs_log s @ [(b, sm)]\<rparr>)"
| ret: "rs_pc s = RWait \<Longrightarrow> fl_running (rs_flight s) = [] \<Longrightarrow>
     run_step A s (s\<lparr>rs_ax := (fst (rs_ax s), closeScheduler A (snd (rs_ax s))), rs_pc := RReturned, rs_closed := True\<rparr>)"

definition run_init :: "('t, 'x) ax \<Rightarrow> ('t, 'x) run_state" where
  "run_init ax = \<lparr>rs_pc = RTop False, rs_flight = new_flight, rs_ax = ax, rs_started = [], rs_log = [], rs_closed = False\<rparr>"

lemma run_turn_flight:
  assumes "run_turn A released f ax = (f', ax', pc)"
  shows "f' = fold start_batch (turn_batches A ax) f"
    "pc = RTop True \<Longrightarrow> f' = f \<and> turn_world A ax = None \<and> (released \<or> fl_active f = 0)" "pc \<noteq> RReturned"
proof -
  obtain r x where ax: "ax = (r, x)" by (cases ax)
  have "f' = fold start_batch (turn_batches A ax) f \<and> (pc = RTop True \<longrightarrow> f' = f \<and> turn_world A ax = None \<and> (released \<or> fl_active f = 0)) \<and> pc \<noteq> RReturned"
  proof (cases "ao_ctxErr A x")
    case (Some err)
    then show ?thesis using assms by (auto simp: run_turn_def turn_batches_def turn_world_def ax)
  next
    case None
    obtain r1 x1 where s: "auto_saveStatus A (r, x) = (r1, x1)" by (cases "auto_saveStatus A (r, x)")
    obtain x2 p where p: "auto_paused A r1 x1 = (x2, p)" by (cases "auto_paused A r1 x1")
    obtain x3 dep e where n: "notLive (an_waitFor r1) x2 = (x3, dep, e)" by (cases "notLive (an_waitFor r1) x2") auto
    obtain x4 res where nx: "ao_Next A x3 = (x4, res)" by (cases "ao_Next A x3")
    show ?thesis
    proof (cases "p = Inr False \<and> e = None \<and> dep = []")
      case True
      then have w: "turn_world A ax = Some x3" by (simp add: turn_world_def ax None s p n)
      show ?thesis
        using assms True unfolding turn_batches_def w
        by (cases res) (auto simp: run_turn_def ax None s p n nx answered_def Let_def split: if_splits)
    next
      case False
      then have w: "turn_world A ax = None"
        by (cases p) (auto simp: turn_world_def ax None s p n split: bool.splits)
      show ?thesis
        using assms False unfolding turn_batches_def w unfolding run_turn_def ax prod.case s p n None
        by (cases p; cases e; cases "p = Inr True"; cases "dep = []")
          (auto simp: Let_def None n split: bool.splits if_splits)
    qed
  qed
  note E = this
  show "f' = fold start_batch (turn_batches A ax) f" using E by (rule conjunct1)
  show "pc \<noteq> RReturned" using E by (elim conjE)
  show "f' = f \<and> turn_world A ax = None \<and> (released \<or> fl_active f = 0)" if "pc = RTop True"
    using E [THEN conjunct2, THEN conjunct1] that by (rule mp)
qed

definition run_inv :: "('t, 'x) run_state \<Rightarrow> bool" where
  "run_inv s \<longleftrightarrow> flight_ok (rs_flight s) (rs_started s) (rs_log s)
     \<and> (rs_pc s = RTop True \<or> rs_pc s = RReturned \<longrightarrow> fl_running (rs_flight s) = [])"

lemma run_inv_step:
  assumes "run_inv s" "run_step A s s'"
  shows "run_inv s'"
proof -
  have ok: "flight_ok (rs_flight s) (rs_started s) (rs_log s)" using assms(1) by (simp add: run_inv_def)
  from assms(2) show ?thesis
  proof cases
    case (turn released f ax pc)
    note T = run_turn_flight [OF turn(3)]
    have "flight_ok f (rs_started s @ turn_batches A (rs_ax s)) (rs_log s)" unfolding T(1) by (rule flight_ok_start [OF ok])
    moreover have "fl_running f = []" if "pc = RTop True"
    proof (cases released)
      case True
      then show ?thesis using T(2) [OF that] assms(1) turn(2) by (simp add: run_inv_def)
    next
      case False
      then show ?thesis using T(2) [OF that] ok by (simp add: flight_ok_def)
    qed
    ultimately show ?thesis using T(3) turn(1) by (auto simp: run_inv_def)
  next
    case (batch_end b sm f ax)
    then have "fl_running (rs_flight s) \<noteq> []" by auto
    with assms(1) have "rs_pc s \<noteq> RTop True" "rs_pc s \<noteq> RReturned" by (auto simp: run_inv_def)
    with flight_ok_finish(1) [OF ok batch_end(2,3)] batch_end(1) show ?thesis by (simp add: run_inv_def)
  next
    case ret
    then show ?thesis using ok by (simp add: run_inv_def)
  qed
qed

text \<open>
  \<open>Run\<close> gives segments back only when nothing runs: whenever it has closed the scheduler, because the automation
  is paused or because it returns, every batch it started has ended. While paused it starts none.
\<close>

theorem run_closes_when_drained:
  assumes "(run_step A)\<^sup>*\<^sup>* (run_init ax) s" "rs_pc s = RTop True \<or> rs_pc s = RReturned"
  shows "mset (rs_started s) = mset (map fst (rs_log s)) \<and> fl_sum (rs_flight s) = foldl summary_add zero_summary (map snd (rs_log s))"
proof -
  have "run_inv s" using assms(1)
  proof (induction rule: rtranclp_induct)
    case base
    then show ?case by (simp add: run_inv_def run_init_def flight_ok_def new_flight_def)
  qed (rule run_inv_step)
  then show ?thesis using assms(2) by (auto simp: run_inv_def flight_ok_def)
qed

section \<open>A concrete run\<close>

definition once_main :: "('t, 'x) auto_ops \<Rightarrow> ('t, 'x) once_state \<Rightarrow> ('t, 'x) once_state" where
  "once_main A s = (case os_pc s of
     OTop \<Rightarrow> (case once_top A (os_flight s) (os_ax s) of (ax, pc) \<Rightarrow> s\<lparr>os_ax := ax, os_pc := pc\<rparr>)
   | OAsk d \<Rightarrow> (case once_ask A d (os_flight s) (os_ax s) of (f, ax, pc) \<Rightarrow>
       let bs = answered (snd (ao_Next A (snd (os_ax s)))) in
       s\<lparr>os_flight := f, os_ax := ax, os_pc := pc, os_started := os_started s @ bs,
         os_asked := (fl_active (os_flight s), fl_drained (os_flight s)), os_answer := bs\<rparr>)
   | OCheck d \<Rightarrow> (case once_check A d (os_flight s) (os_ax s) of (ax, pc) \<Rightarrow> s\<lparr>os_ax := ax, os_pc := pc\<rparr>)
   | OWait e \<Rightarrow> if fl_running (os_flight s) = []
       then s\<lparr>os_ax := once_return A (os_ax s), os_pc := OReturned (fl_sum (os_flight s)) e\<rparr> else s
   | OReturned _ _ \<Rightarrow> s)"

definition once_end :: "('t, 'x) auto_ops \<Rightarrow> summary \<Rightarrow> ('t, 'x) once_state \<Rightarrow> ('t, 'x) once_state" where
  "once_end A sm s = (case fl_running (os_flight s) of [] \<Rightarrow> s
     | b # _ \<Rightarrow> (case finish_batch A b sm (os_flight s) (os_ax s) of (f, ax) \<Rightarrow>
         s\<lparr>os_flight := f, os_ax := ax, os_log := os_log s @ [(b, sm)]\<rparr>))"

lemma once_main_steps: "(once_step A)\<^sup>*\<^sup>* s (once_main A s)"
proof (cases "os_pc s")
  case OTop
  then show ?thesis by (auto simp: once_main_def split: prod.split intro!: r_into_rtranclp once_step.top_)
next
  case (OAsk d)
  then show ?thesis by (auto simp: once_main_def Let_def split: prod.split intro!: r_into_rtranclp once_step.ask)
next
  case (OCheck d)
  then show ?thesis by (auto simp: once_main_def split: prod.split intro!: r_into_rtranclp once_step.check)
next
  case (OWait e)
  then show ?thesis by (auto simp: once_main_def intro!: r_into_rtranclp once_step.ret)
qed (simp add: once_main_def)

lemma once_end_steps: "(once_step A)\<^sup>*\<^sup>* s (once_end A sm s)"
  by (auto simp: once_end_def split: list.split prod.split intro!: r_into_rtranclp once_step.batch_end)

text \<open>A scheduler that has one batch; the world counts how often it was asked.\<close>

definition demo_aops :: "(nat, nat) auto_ops" where
  "demo_aops = \<lparr>ao_now = (\<lambda>x. (x, 5)), ao_ctxErr = (\<lambda>_. None), ao_text = (\<lambda>_. ''err''), ao_Paused = (\<lambda>_ x. (x, Inr False)),
     ao_SaveStatus = (\<lambda>_ _ _ x. (x, None)),
     ao_Next = (\<lambda>x. (Suc x, Inr (if x = 0 then [\<lparr>ba_Key = [], ba_Items = [\<lparr>it_Key = [], it_Value = 7, it_Deadline = 0\<rparr>]\<rparr>] else []))),
     ao_Drained = (\<lambda>_ x. (x, None)), ao_Close = (\<lambda>x. (x, None)), ao_wait = (\<lambda>_ x. x), ao_stallWait = (\<lambda>x. x), ao_resetBackOff = (\<lambda>x. x)\<rparr>"

definition demo_ad :: "(nat, nat) automation_def" where
  "demo_ad = \<lparr>ad_Name = ''n'', ad_TodoList = None, ad_Projection = Some \<lparr>dp_Name = ''p'', dp_IsLive = (\<lambda>x. (x, Inr True))\<rparr>,
     ad_hasStore = False, ad_hasScheduler = True, ad_hasWork = True, ad_OrderingKey = None, ad_WaitFor = [], ad_Concurrency = 0,
     ad_MaxSegments = 0, ad_BatchSize = 0, ad_Lease = 0, ad_PollInterval = 0\<rparr>"

definition demo_an :: "(nat, nat) auto_runner" where
  "demo_an = (case auto_NewRunner ''i'' demo_ad of Inr r \<Rightarrow> r | Inl _ \<Rightarrow> undefined)"

definition demo_once :: "(nat, nat) once_state" where
  "demo_once = (once_main demo_aops ^^ 4) (once_end demo_aops (zero_summary\<lparr>sm_Processed := 1\<rparr>)
     ((once_main demo_aops ^^ 2) (once_init (demo_an, 0))))"

lemma once_mains_steps: "(once_step A)\<^sup>*\<^sup>* s ((once_main A ^^ n) s)"
  by (induction n) (auto intro: rtranclp_trans once_main_steps)

theorem run_once_complete_witness:
  "os_pc demo_once = OReturned (zero_summary\<lparr>sm_Processed := 1\<rparr>) None
   \<and> mset (os_started demo_once) = mset (map fst (os_log demo_once)) \<and> phase_of demo_once = AIdle \<and> fst (os_asked demo_once) = 0"
proof -
  have pc: "os_pc demo_once = OReturned (zero_summary\<lparr>sm_Processed := 1\<rparr>) None" and ph: "phase_of demo_once = AIdle"
    by code_simp+
  have "(once_step demo_aops)\<^sup>*\<^sup>* (once_init (demo_an, 0)) demo_once"
    unfolding demo_once_def by (meson once_mains_steps once_end_steps rtranclp_trans)
  from run_once_complete [OF this pc] pc ph show ?thesis by simp
qed

definition run_main :: "('t, 'x) auto_ops \<Rightarrow> ('t, 'x) run_state \<Rightarrow> ('t, 'x) run_state" where
  "run_main A s = (case rs_pc s of
     RTop released \<Rightarrow> (case run_turn A released (rs_flight s) (rs_ax s) of (f, ax, pc) \<Rightarrow>
       s\<lparr>rs_flight := f, rs_ax := ax, rs_pc := pc, rs_started := rs_started s @ turn_batches A (rs_ax s),
         rs_closed := (pc = RTop True)\<rparr>)
   | RWait \<Rightarrow> if fl_running (rs_flight s) = []
       then s\<lparr>rs_ax := (fst (rs_ax s), closeScheduler A (snd (rs_ax s))), rs_pc := RReturned, rs_closed := True\<rparr> else s
   | RReturned \<Rightarrow> s)"

definition run_end :: "('t, 'x) auto_ops \<Rightarrow> summary \<Rightarrow> ('t, 'x) run_state \<Rightarrow> ('t, 'x) run_state" where
  "run_end A sm s = (case fl_running (rs_flight s) of [] \<Rightarrow> s
     | b # _ \<Rightarrow> (case finish_batch A b sm (rs_flight s) (rs_ax s) of (f, ax) \<Rightarrow>
         s\<lparr>rs_flight := f, rs_ax := ax, rs_log := rs_log s @ [(b, sm)]\<rparr>))"

lemma run_main_steps: "(run_step A)\<^sup>*\<^sup>* s (run_main A s)"
proof (cases "rs_pc s")
  case (RTop released)
  then show ?thesis by (auto simp: run_main_def split: prod.split intro!: r_into_rtranclp run_step.turn)
next
  case RWait
  then show ?thesis by (auto simp: run_main_def intro!: r_into_rtranclp run_step.ret)
qed (simp add: run_main_def)

lemma run_mains_steps: "(run_step A)\<^sup>*\<^sup>* s ((run_main A ^^ n) s)"
  by (induction n) (auto intro: rtranclp_trans run_main_steps)

lemma run_end_steps: "(run_step A)\<^sup>*\<^sup>* s (run_end A sm s)"
  by (auto simp: run_end_def split: list.split prod.split intro!: r_into_rtranclp run_step.batch_end)

text \<open>The same automation, whose context is cancelled once the scheduler was asked twice.\<close>

definition demo_run :: "(nat, nat) run_state" where
  "demo_run = (let A = demo_aops\<lparr>ao_ctxErr := (\<lambda>x. if 2 \<le> x then Some (Sentinel ContextCanceled) else None)\<rparr> in
     (run_main A ^^ 2) (run_end A (zero_summary\<lparr>sm_Failed := 1\<rparr>) ((run_main A ^^ 2) (run_init (demo_an, 0)))))"

theorem run_closes_when_drained_witness:
  "rs_pc demo_run = RReturned \<and> length (rs_started demo_run) = 1
   \<and> mset (rs_started demo_run) = mset (map fst (rs_log demo_run))
   \<and> fl_sum (rs_flight demo_run) = foldl summary_add zero_summary (map snd (rs_log demo_run))"
proof -
  have pc: "rs_pc demo_run = RReturned" and l: "length (rs_started demo_run) = 1" by code_simp+
  have "(run_step (demo_aops\<lparr>ao_ctxErr := (\<lambda>x. if 2 \<le> x then Some (Sentinel ContextCanceled) else None)\<rparr>))\<^sup>*\<^sup>* (run_init (demo_an, 0)) demo_run"
    unfolding demo_run_def Let_def by (meson run_mains_steps run_end_steps rtranclp_trans)
  from run_closes_when_drained [OF this disjI2 [OF pc]] pc l show ?thesis by simp
qed

end
